(* ===== verification/HS_Prelude.thy ===== *)
theory HS_Prelude
  imports Main "HOL-Library.Multiset"
begin

text \<open>
  Shared vocabulary of the development: \<open>std::vector\<close> reads and writes at an \<open>int\<close> index,
  the truth of clauses, clause sets and cubes under an evaluation of literals, a lemma
  collection for these truth predicates, and generic facts on lists and multisets that the
  component theories use.
\<close>

named_theorems truth_simps \<open>unfolding the truth of clauses, clause sets and cubes\<close>
named_theorems vec_simps \<open>reads after writes on vectors\<close>

section \<open>Vectors indexed by a C++ int\<close>

text \<open>
  \<open>v[i]\<close> for an \<open>int\<close> index. Where the index is out of range the C++ behaviour is undefined and
  so is the value of \<open>vget\<close>; the well-formedness invariants of the components keep every index
  in range (\<open>vin\<close>).
\<close>

definition vin :: "'a list \<Rightarrow> int \<Rightarrow> bool" where
  "vin xs i \<longleftrightarrow> 0 \<le> i \<and> i < int (length xs)"

definition vget :: "'a list \<Rightarrow> int \<Rightarrow> 'a" where
  "vget xs i = xs ! nat i"

definition vset :: "'a list \<Rightarrow> int \<Rightarrow> 'a \<Rightarrow> 'a list" where
  "vset xs i y = xs[nat i := y]"

lemma length_vset [simp, vec_simps]: "length (vset xs i y) = length xs"
  by (simp add: vset_def)

lemma vin_vset [simp, vec_simps]: "vin (vset xs i y) j = vin xs j"
  by (simp add: vin_def)

lemma vget_vset_same [vec_simps]: "vin xs i \<Longrightarrow> vget (vset xs i y) i = y"
  by (auto simp: vin_def vget_def vset_def)

lemma vget_vset_other [vec_simps]:
  "0 \<le> i \<Longrightarrow> 0 \<le> j \<Longrightarrow> i \<noteq> j \<Longrightarrow> vget (vset xs i y) j = vget xs j"
  by (simp add: vget_def vset_def nth_list_update)

lemma length_fold_vset: "length (fold (\<lambda>x a. vset a (f x) c) xs a) = length a"
  by (induction xs arbitrary: a) auto

lemma vget_fold_vset:
  "\<forall>x\<in>set xs. vin a (f x) \<Longrightarrow> 0 \<le> v \<Longrightarrow>
     vget (fold (\<lambda>x a. vset a (f x) c) xs a) v = (if v \<in> f ` set xs then c else vget a v)"
proof (induction xs arbitrary: a)
  case (Cons x xs)
  then have x: "vin a (f x)" "0 \<le> f x" by (auto simp: vin_def)
  have "vget (vset a (f x) c) v = (if v = f x then c else vget a v)"
    using x Cons.prems(2) by (auto simp: vget_vset_same vget_vset_other)
  then show ?case using Cons.IH [of "vset a (f x) c"] Cons.prems by auto
qed simp

lemma list_all_vset: "list_all p xs \<Longrightarrow> p y \<Longrightarrow> list_all p (vset xs i y)"
  unfolding vset_def list_all_iff by (auto dest!: set_update_subset_insert [THEN subsetD])

lemma list_all_vget: "list_all p xs \<Longrightarrow> vin xs i \<Longrightarrow> p (vget xs i)"
  by (auto simp: list_all_iff vget_def vin_def)

lemma vget_eqI:
  "length a = length b \<Longrightarrow> (\<And>i. 0 \<le> i \<Longrightarrow> i < int (length b) \<Longrightarrow> vget a i = vget b i) \<Longrightarrow> a = b"
  by (rule nth_equalityI) (auto simp: vget_def, metis nat_int of_nat_0_le_iff of_nat_less_iff)

lemma vget_replicate: "0 \<le> i \<Longrightarrow> i < int n \<Longrightarrow> vget (replicate n x) i = x"
  by (simp add: vget_def)

lemma vin_replicate: "vin (replicate n x) i \<longleftrightarrow> 0 \<le> i \<and> i < int n"
  by (simp add: vin_def)

section \<open>Truth of clauses, formulas and cubes\<close>

definition clause_true :: "('l \<Rightarrow> bool) \<Rightarrow> 'l list \<Rightarrow> bool" where
  "clause_true ev c \<longleftrightarrow> list_ex ev c"

definition cnf_true :: "('l \<Rightarrow> bool) \<Rightarrow> 'l list list \<Rightarrow> bool" where
  "cnf_true ev cs \<longleftrightarrow> list_all (clause_true ev) cs"

definition cube_true :: "('l \<Rightarrow> bool) \<Rightarrow> 'l list \<Rightarrow> bool" where
  "cube_true ev c \<longleftrightarrow> list_all ev c"

lemma clause_true_iff [truth_simps]: "clause_true ev c \<longleftrightarrow> (\<exists>l\<in>set c. ev l)"
  by (simp add: clause_true_def list_ex_iff)

lemma cnf_true_iff [truth_simps]: "cnf_true ev cs \<longleftrightarrow> (\<forall>c\<in>set cs. clause_true ev c)"
  by (simp add: cnf_true_def list_all_iff)

lemma cube_true_iff [truth_simps]: "cube_true ev c \<longleftrightarrow> (\<forall>l\<in>set c. ev l)"
  by (simp add: cube_true_def list_all_iff)

lemma cube_true_append [simp]: "cube_true ev (a @ b) \<longleftrightarrow> cube_true ev a \<and> cube_true ev b"
  by (auto simp: truth_simps)

lemma cube_true_Nil [simp]: "cube_true ev []"
  by (simp add: truth_simps)

lemma cube_true_Cons [simp]: "cube_true ev (l # ls) \<longleftrightarrow> ev l \<and> cube_true ev ls"
  by (simp add: truth_simps)

lemma cnf_true_append [simp]: "cnf_true ev (a @ b) \<longleftrightarrow> cnf_true ev a \<and> cnf_true ev b"
  by (auto simp: truth_simps)

lemma cnf_true_Nil [simp]: "cnf_true ev []"
  by (simp add: truth_simps)

lemma cnf_true_Cons [simp]: "cnf_true ev (c # cs) \<longleftrightarrow> clause_true ev c \<and> cnf_true ev cs"
  by (simp add: truth_simps)

lemma cnf_true_concat: "cnf_true ev (concat css) \<longleftrightarrow> (\<forall>cs\<in>set css. cnf_true ev cs)"
  by (induction css) simp_all

lemma cnf_true_units: "cnf_true ev (map (\<lambda>l. [l]) ls) \<longleftrightarrow> cube_true ev ls"
  by (auto simp: truth_simps)

lemma clause_true_Cons [simp]: "clause_true ev (l # ls) \<longleftrightarrow> ev l \<or> clause_true ev ls"
  by (simp add: truth_simps)

lemma clause_true_Nil [simp]: "\<not> clause_true ev []"
  by (simp add: truth_simps)

lemma cube_true_mono: "set a \<subseteq> set b \<Longrightarrow> cube_true ev b \<Longrightarrow> cube_true ev a"
  by (auto simp: truth_simps)

section \<open>Generic facts\<close>

text \<open>A symmetric relation between the elements of a list does not depend on their order.\<close>

lemma sorted_wrt_move: "symp R \<Longrightarrow> sorted_wrt R (us @ x # vs) = sorted_wrt R (x # us @ vs)"
  by (induction us) (auto simp: sorted_wrt_append dest: sympD)

lemma sorted_wrt_mset: "symp R \<Longrightarrow> mset xs = mset ys \<Longrightarrow> sorted_wrt R xs = sorted_wrt R ys"
proof (induction xs arbitrary: ys)
  case (Cons x xs)
  then have "x \<in> set ys" by (metis list.set_intros(1) set_mset_mset)
  then obtain us vs where ys: "ys = us @ x # vs" by (meson split_list)
  then have m: "mset xs = mset (us @ vs)" using Cons.prems by simp
  then have "set xs = set (us @ vs)" by (metis set_mset_mset)
  then show ?case using Cons.IH [OF Cons.prems(1) m] sorted_wrt_move [OF Cons.prems(1), of us x vs] by (simp add: ys)
qed simp

lemma mset_swap_update:
  "i < length xs \<Longrightarrow> j < length xs \<Longrightarrow> mset (xs[i := xs ! j, j := xs ! i]) = mset xs"
  by (cases "i = j") (simp_all add: mset_swap)

text \<open>\<open>std::swap\<close> of two elements of one vector.\<close>

definition std_swap :: "'a list \<Rightarrow> nat \<Rightarrow> nat \<Rightarrow> 'a list" where
  "std_swap xs i j = xs[i := xs ! j, j := xs ! i]"

lemma length_std_swap [simp]: "length (std_swap xs i j) = length xs"
  by (simp add: std_swap_def)

lemma std_swap_other: "k \<noteq> i \<Longrightarrow> k \<noteq> j \<Longrightarrow> std_swap xs i j ! k = xs ! k"
  by (simp add: std_swap_def)

lemma nth_std_swap:
  "i < length xs \<Longrightarrow> j < length xs \<Longrightarrow>
     std_swap xs i j ! k = (if k = j then xs ! i else if k = i then xs ! j else xs ! k)"
  by (auto simp: std_swap_def nth_list_update)

lemma mset_std_swap: "i < length xs \<Longrightarrow> j < length xs \<Longrightarrow> mset (std_swap xs i j) = mset xs"
  by (simp add: std_swap_def mset_swap_update)

lemma std_swap_first: "j < length xs \<Longrightarrow> std_swap xs 0 j ! 0 = xs ! j"
  by (cases xs; cases j) (auto simp: std_swap_def)

lemma map_update_same: "f y = f (xs ! i) \<Longrightarrow> map f (xs[i := y]) = map f xs"
  by (cases "i < length xs") (simp_all add: map_update list_update_same_conv list_update_beyond)

lemma distinct_card_image_le: "card (f ` set xs) \<le> length xs"
  by (meson card_image_le card_length finite_set order_trans)

lemma card_image_eq_length_distinct:
  "card (f ` set xs) = length xs \<Longrightarrow> distinct (map f xs)"
  by (metis card_distinct length_map set_map)

lemma nat_leE: fixes i :: int shows "0 \<le> i \<Longrightarrow> nat i < n \<longleftrightarrow> i < int n"
  by linarith

end
