(* ===== verification/Binary64.thy ===== *)
theory Binary64
  imports Complex_Main HS_Prelude
begin

text \<open>
  The C++ type \<open>double\<close> as the sources use it: finite IEEE-754 binary64 values, with
  \<open>+\<close>, \<open>*\<close>, \<open>/\<close> correctly rounded (round to nearest, ties to even, gradual underflow),
  \<open><\<close>, conversion from integers and \<open>std::pow(2.0, -k)\<close>. A value is a significand and a power
  of two, \<open>sig * 2 ^ ex\<close>; representations are not unique and are only compared through \<open>dless\<close>.
  Overflow to infinity is not modelled: no quantity of the modelled code reaches \<open>2 ^ 1024\<close>
  (scores are bounded by numbers of clauses times numbers of variables, both \<open>int\<close>s).
\<close>

datatype double = Dbl (sig: int) (ex: int)

function nbits :: "int \<Rightarrow> int" where
  "nbits m = (if m \<le> 0 then 0 else nbits (m div 2) + 1)"
  by pat_completeness auto
termination
  by (relation "measure nat") auto

declare nbits.simps [simp del]

text \<open>Round-half-even of \<open>m / 2 ^ k\<close>; \<open>sticky\<close> says that the exact value lies strictly above \<open>m\<close>.\<close>

definition round_shift :: "int \<Rightarrow> nat \<Rightarrow> bool \<Rightarrow> int" where
  "round_shift m k sticky =
     (if k = 0 then m else
      let q = m div 2 ^ k; r = m mod 2 ^ k; half = 2 ^ (k - 1)
      in if r > half \<or> (r = half \<and> (sticky \<or> odd q)) then q + 1 else q)"

text \<open>The nearest binary64 value of \<open>m * 2 ^ e\<close>: at most 53 significant bits, exponent at least -1074.\<close>

definition round_mag :: "int \<Rightarrow> int \<Rightarrow> bool \<Rightarrow> int \<times> int" where
  "round_mag m e sticky =
     (let k = max (nbits m - 53) (-1074 - e)
      in if k \<le> 0 then (m, e) else (round_shift m (nat k) sticky, e + k))"

definition fl :: "int \<Rightarrow> int \<Rightarrow> bool \<Rightarrow> double" where
  "fl m e sticky =
     (let (m', e') = round_mag \<bar>m\<bar> e sticky in Dbl (if m < 0 then - m' else m') e')"

definition dbl_of_int :: "int \<Rightarrow> double" where
  "dbl_of_int i = fl i 0 False"

definition pow2_neg :: "nat \<Rightarrow> double" where
  "pow2_neg k = fl 1 (- int k) False"

text \<open>Both significands at the smaller exponent.\<close>

definition align :: "double \<Rightarrow> double \<Rightarrow> int \<times> int \<times> int" where
  "align a b =
     (let e = min (ex a) (ex b)
      in (sig a * 2 ^ nat (ex a - e), sig b * 2 ^ nat (ex b - e), e))"

definition dadd :: "double \<Rightarrow> double \<Rightarrow> double" where
  "dadd a b = (case align a b of (x, y, e) \<Rightarrow> fl (x + y) e False)"

definition dsub :: "double \<Rightarrow> double \<Rightarrow> double" where
  "dsub a b = (case align a b of (x, y, e) \<Rightarrow> fl (x - y) e False)"

definition dmul :: "double \<Rightarrow> double \<Rightarrow> double" where
  "dmul a b = fl (sig a * sig b) (ex a + ex b) False"

text \<open>Division by a non-zero value: at least 55 quotient bits and a sticky bit, then one rounding.\<close>

definition ddiv :: "double \<Rightarrow> double \<Rightarrow> double" where
  "ddiv a b =
     (let n = \<bar>sig a\<bar>; d = \<bar>sig b\<bar>; s = nbits d + 55;
          q = (n * 2 ^ nat s) div d; st = ((n * 2 ^ nat s) mod d \<noteq> 0);
          neg = ((sig a < 0) \<noteq> (sig b < 0))
      in fl (if neg then - q else q) (ex a - ex b - s) st)"

definition dless :: "double \<Rightarrow> double \<Rightarrow> bool" where
  "dless a b = (case align a b of (x, y, e) \<Rightarrow> x < y)"

definition dnonneg :: "double \<Rightarrow> bool" where
  "dnonneg a \<longleftrightarrow> 0 \<le> sig a"

text \<open>The conversion of a non-negative \<open>double\<close> below \<open>2 ^ 32\<close> to \<open>unsigned\<close>.\<close>

definition dbl_to_unsigned :: "double \<Rightarrow> nat" where
  "dbl_to_unsigned d = nat (if 0 \<le> ex d then sig d * 2 ^ nat (ex d) else sig d div 2 ^ nat (- ex d))"

definition dzero :: double where "dzero = Dbl 0 0"
definition done1 :: double where "done1 = Dbl 1 0"
definition dminus1 :: double where "dminus1 = Dbl (-1) 0"

section \<open>Signs and comparisons\<close>

lemma round_shift_nonneg: "0 \<le> m \<Longrightarrow> 0 \<le> round_shift m k s"
  by (simp add: round_shift_def Let_def pos_imp_zdiv_nonneg_iff)

lemma fl_nonneg: "0 \<le> m \<Longrightarrow> dnonneg (fl m e s)"
  by (simp add: fl_def dnonneg_def round_mag_def Let_def round_shift_nonneg)

lemma align_nonneg:
  "align a b = (x, y, e) \<Longrightarrow> dnonneg a \<Longrightarrow> dnonneg b \<Longrightarrow> 0 \<le> x \<and> 0 \<le> y"
  by (auto simp: align_def dnonneg_def Let_def)

lemma dadd_nonneg: "dnonneg a \<Longrightarrow> dnonneg b \<Longrightarrow> dnonneg (dadd a b)"
  by (auto simp: dadd_def split: prod.split intro!: fl_nonneg dest!: align_nonneg)

lemma dmul_nonneg: "dnonneg a \<Longrightarrow> dnonneg b \<Longrightarrow> dnonneg (dmul a b)"
  unfolding dmul_def by (rule fl_nonneg) (simp add: dnonneg_def)

lemma ddiv_nonneg: "dnonneg a \<Longrightarrow> dnonneg b \<Longrightarrow> dnonneg (ddiv a b)"
  unfolding ddiv_def Let_def by (rule fl_nonneg) (simp add: dnonneg_def pos_imp_zdiv_nonneg_iff div_int_pos_iff)

lemma pow2_neg_nonneg: "dnonneg (pow2_neg k)"
  unfolding pow2_neg_def by (rule fl_nonneg) simp

lemma dbl_of_int_nonneg: "0 \<le> i \<Longrightarrow> dnonneg (dbl_of_int i)"
  unfolding dbl_of_int_def by (rule fl_nonneg) simp

lemma dzero_nonneg: "dnonneg dzero"
  by (simp add: dnonneg_def dzero_def)

lemma done1_nonneg: "dnonneg done1"
  by (simp add: dnonneg_def done1_def)

lemmas nonneg_intros =
  dadd_nonneg dmul_nonneg ddiv_nonneg pow2_neg_nonneg dbl_of_int_nonneg dzero_nonneg done1_nonneg

lemma dminus1_less: "dnonneg a \<Longrightarrow> dless dminus1 a"
proof -
  assume "dnonneg a"
  then have "0 \<le> sig a * 2 ^ nat (ex a - min 0 (ex a))" by (simp add: dnonneg_def)
  moreover have "(-1 :: int) * 2 ^ nat (0 - min 0 (ex a)) < 0" by simp
  ultimately show ?thesis
    unfolding dless_def align_def dminus1_def Let_def by (simp only: double.sel prod.case)
qed

text \<open>The value of a double; \<open>dless\<close> compares values.\<close>

definition dval :: "double \<Rightarrow> real" where
  "dval a = of_int (sig a) * 2 powi ex a"

lemma dval_scale: "e \<le> ex a \<Longrightarrow> dval a = of_int (sig a * 2 ^ nat (ex a - e)) * 2 powi e"
proof -
  assume "e \<le> ex a"
  then have "(2::real) powi (ex a - e) = 2 ^ nat (ex a - e)" by (simp add: power_int_def)
  moreover have "(2::real) powi ex a = 2 powi (ex a - e) * 2 powi e" by (simp add: power_int_diff)
  ultimately show ?thesis by (simp add: dval_def)
qed

lemma dless_dval: "dless a b \<longleftrightarrow> dval a < dval b"
proof -
  define e where "e = min (ex a) (ex b)"
  have "dval a = of_int (sig a * 2 ^ nat (ex a - e)) * 2 powi e"
    "dval b = of_int (sig b * 2 ^ nat (ex b - e)) * 2 powi e"
    by (rule dval_scale; simp add: e_def)+
  moreover have "(0::real) < 2 powi e" by simp
  moreover have "dless a b \<longleftrightarrow> sig a * 2 ^ nat (ex a - e) < sig b * 2 ^ nat (ex b - e)"
    by (simp add: dless_def align_def Let_def e_def)
  ultimately show ?thesis by (simp only: mult_less_cancel_right_pos of_int_less_iff)
qed

lemma dless_trans: "dless a b \<Longrightarrow> dless b c \<Longrightarrow> dless a c"
  by (simp add: dless_dval)

lemma not_dless_trans: "dless a b \<Longrightarrow> \<not> dless a c \<Longrightarrow> \<not> dless b c"
  using dless_trans by blast

lemma dless_asym: "dless a b \<Longrightarrow> \<not> dless b a"
  by (simp add: dless_dval)

lemma not_less_chain: "\<not> dless s1 s \<Longrightarrow> \<not> dless s2 s1 \<Longrightarrow> \<not> dless s2 s"
  by (simp add: dless_dval)

lemma dless_irrefl [simp]: "\<not> dless a a"
  by (simp add: dless_dval)

section \<open>Rounding\<close>

lemma half_above: "d = p - r \<Longrightarrow> h \<le> r \<Longrightarrow> r < p \<Longrightarrow> p = 2 * h \<Longrightarrow> 2 * \<bar>d\<bar> \<le> p" for d :: int
  by arith

lemma half_below: "d = - r \<Longrightarrow> 0 \<le> r \<Longrightarrow> r \<le> h \<Longrightarrow> p = 2 * h \<Longrightarrow> 2 * \<bar>d\<bar> \<le> p" for d :: int
  by arith

lemma round_shift_error:
  assumes "0 < k"
  shows "2 * \<bar>round_shift m k False * 2 ^ k - m\<bar> \<le> 2 ^ k"
proof -
  define q r where "q = m div 2 ^ k" and "r = m mod 2 ^ k"
  have m: "m = q * 2 ^ k + r" and r: "0 \<le> r" "r < 2 ^ k" by (simp_all only: q_def r_def div_mult_mod_eq) simp_all
  obtain j where k: "k = Suc j" using assms by (cases k) auto
  have h: "(2::int) ^ k = 2 * 2 ^ j" by (simp add: k)
  have rr: "round_shift m k False = (if r > 2 ^ j \<or> (r = 2 ^ j \<and> odd q) then q + 1 else q)"
    using assms by (simp add: round_shift_def Let_def q_def r_def k)
  show ?thesis
  proof (cases "r > 2 ^ j \<or> (r = 2 ^ j \<and> odd q)")
    case True
    then have "round_shift m k False = q + 1" by (simp add: rr)
    then have "round_shift m k False * 2 ^ k = q * 2 ^ k + 2 ^ k" by (simp add: distrib_right)
    then have "round_shift m k False * 2 ^ k - m = 2 ^ k - r" using m by linarith
    moreover have "2 ^ j \<le> r" using True by linarith
    ultimately show ?thesis using r(2) h by (rule half_above)
  next
    case False
    then have "round_shift m k False = q" by (simp add: rr)
    then have "round_shift m k False * 2 ^ k = q * 2 ^ k" by simp
    then have "round_shift m k False * 2 ^ k - m = - r" using m by linarith
    moreover have "r \<le> 2 ^ j" using False by linarith
    ultimately show ?thesis using h half_below r(1) by blast
  qed
qed

lemma round_mag_exact: "nbits m \<le> 53 \<Longrightarrow> -1074 \<le> e \<Longrightarrow> round_mag m e s = (m, e)"
  unfolding round_mag_def Let_def by (rule if_P) simp

lemma fl_exact: "nbits \<bar>m\<bar> \<le> 53 \<Longrightarrow> -1074 \<le> e \<Longrightarrow> fl m e False = Dbl m e"
  by (simp only: fl_def round_mag_exact prod.case) auto

lemma nbits_one: "nbits 1 = 1"
  by (simp add: nbits.simps)

lemma pow2_neg_exact: "k \<le> 1074 \<Longrightarrow> pow2_neg k = Dbl 1 (- int k)"
  unfolding pow2_neg_def by (rule fl_exact) (simp_all add: nbits_one)

end
