(* ===== verification/Decimal.thy ===== *)
theory Decimal
  imports HS_Prelude
begin

text \<open>
  The decimal input and output of integers that the sources use from the C++ standard library:
  \<open>std::ostream << int\<close> (\<open>show_int\<close>), \<open>std::istream >> int\<close> and \<open>>> std::string\<close> on a string
  stream (\<open>scan_int\<close>, \<open>scan_word\<close>) and \<open>std::getline\<close> (\<open>getlines\<close>), all in the C locale.
  \<open>scan_int\<close> fails (\<open>None\<close>, the stream's failbit) on a missing digit and on a value outside the
  32-bit range.
\<close>

abbreviation newline :: char where "newline \<equiv> CHR 0x0A"

definition is_space :: "char \<Rightarrow> bool" where
  "is_space c \<longleftrightarrow> c = CHR '' '' \<or> (9 \<le> (of_char c :: nat) \<and> (of_char c :: nat) \<le> 13)"

definition is_digit :: "char \<Rightarrow> bool" where
  "is_digit c \<longleftrightarrow> 48 \<le> (of_char c :: nat) \<and> (of_char c :: nat) \<le> 57"

definition digit_val :: "char \<Rightarrow> nat" where
  "digit_val c = of_char c - 48"

definition digit_char :: "nat \<Rightarrow> char" where
  "digit_char d = char_of (48 + d)"

fun show_nat :: "nat \<Rightarrow> string" where
  "show_nat n = (if n < 10 then [digit_char n] else show_nat (n div 10) @ [digit_char (n mod 10)])"

declare show_nat.simps [simp del]

definition show_int :: "int \<Rightarrow> string" where
  "show_int i = (if i < 0 then CHR ''-'' # show_nat (nat (- i)) else show_nat (nat i))"

fun skip_space :: "string \<Rightarrow> string" where
  "skip_space [] = []"
| "skip_space (c # cs) = (if is_space c then skip_space cs else c # cs)"

fun scan_digits :: "string \<Rightarrow> nat \<Rightarrow> bool \<Rightarrow> nat \<times> bool \<times> string" where
  "scan_digits [] acc seen = (acc, seen, [])"
| "scan_digits (c # cs) acc seen =
     (if is_digit c then scan_digits cs (10 * acc + digit_val c) True else (acc, seen, c # cs))"

definition scan_sign :: "string \<Rightarrow> bool \<times> string" where
  "scan_sign s =
     (case s of [] \<Rightarrow> (False, [])
      | c # cs \<Rightarrow> if c = CHR ''-'' then (True, cs) else if c = CHR ''+'' then (False, cs) else (False, s))"

definition in_int32 :: "int \<Rightarrow> bool" where
  "in_int32 i \<longleftrightarrow> - 2147483648 \<le> i \<and> i \<le> 2147483647"

definition scan_int :: "string \<Rightarrow> (int \<times> string) option" where
  "scan_int s =
     (case scan_sign (skip_space s) of (neg, s1) \<Rightarrow>
      case scan_digits s1 0 False of (n, seen, rest) \<Rightarrow>
        if \<not> seen then None
        else let v = (if neg then - int n else int n) in if in_int32 v then Some (v, rest) else None)"

fun scan_word :: "string \<Rightarrow> string \<times> string" where
  "scan_word [] = ([], [])"
| "scan_word (c # cs) = (if is_space c then ([], c # cs) else
     (case scan_word cs of (w, rest) \<Rightarrow> (c # w, rest)))"

text \<open>The lines \<open>std::getline\<close> delivers: a last line without its newline counts if it is not empty.\<close>

fun getlines_acc :: "string \<Rightarrow> string \<Rightarrow> string list" where
  "getlines_acc cur [] = (if cur = [] then [] else [rev cur])"
| "getlines_acc cur (c # cs) =
     (if c = newline then rev cur # getlines_acc [] cs else getlines_acc (c # cur) cs)"

definition getlines :: "string \<Rightarrow> string list" where
  "getlines s = getlines_acc [] s"

section \<open>Scanning what was printed\<close>

lemma of_char_digit_char: "d < 10 \<Longrightarrow> (of_char (digit_char d) :: nat) = 48 + d"
  by (simp add: digit_char_def)

lemma is_digit_digit_char [simp]: "d < 10 \<Longrightarrow> is_digit (digit_char d)"
  by (simp add: is_digit_def of_char_digit_char)

lemma digit_val_digit_char [simp]: "d < 10 \<Longrightarrow> digit_val (digit_char d) = d"
  by (simp add: digit_val_def of_char_digit_char)

lemma digit_not_space: "is_digit c \<Longrightarrow> \<not> is_space c"
  by (auto simp: is_digit_def is_space_def)

lemma show_nat_digits: "c \<in> set (show_nat n) \<Longrightarrow> is_digit c"
proof (induction n arbitrary: c rule: show_nat.induct)
  case (1 n)
  then show ?case by (subst (asm) show_nat.simps) (auto split: if_splits)
qed

lemma show_nat_not_Nil [simp]: "show_nat n \<noteq> []"
  by (subst show_nat.simps) simp

lemma scan_digits_show_nat:
  "scan_digits (show_nat n @ rest) 0 seen = scan_digits rest n True"
proof (induction n arbitrary: rest seen rule: show_nat.induct)
  case (1 n)
  show ?case
  proof (cases "n < 10")
    case True
    then show ?thesis by (simp add: show_nat.simps [of n])
  next
    case False
    then have "scan_digits (show_nat n @ rest) 0 seen =
        scan_digits (digit_char (n mod 10) # rest) (n div 10) True"
      using "1.IH" [of "digit_char (n mod 10) # rest" seen] by (simp add: show_nat.simps [of n])
    also have "\<dots> = scan_digits rest (10 * (n div 10) + n mod 10) True" by simp
    finally show ?thesis by simp
  qed
qed

definition no_digit_next :: "string \<Rightarrow> bool" where
  "no_digit_next s \<longleftrightarrow> (case s of [] \<Rightarrow> True | c # _ \<Rightarrow> \<not> is_digit c)"

lemma scan_digits_stop: "no_digit_next rest \<Longrightarrow> scan_digits rest n s = (n, s, rest)"
  by (cases rest) (auto simp: no_digit_next_def)

lemma show_nat_Cons: "\<exists>c cs. show_nat n = c # cs \<and> is_digit c"
  by (metis list.set_intros(1) neq_Nil_conv show_nat_digits show_nat_not_Nil)

lemma digit_no_sign: "is_digit c \<Longrightarrow> c \<noteq> CHR ''-'' \<and> c \<noteq> CHR ''+''"
  by (auto simp: is_digit_def)

lemma skip_space_show_int: "skip_space (show_int i @ rest) = show_int i @ rest"
proof -
  obtain c cs where "show_nat (nat i) = c # cs" "is_digit c" using show_nat_Cons by blast
  then show ?thesis by (auto simp: show_int_def digit_not_space) (auto simp: is_space_def)
qed

lemma scan_sign_show_int: "scan_sign (show_int i @ rest) = (i < 0, show_nat (nat \<bar>i\<bar>) @ rest)"
proof -
  obtain c cs where "show_nat (nat i) = c # cs" "is_digit c" using show_nat_Cons by blast
  then show ?thesis using digit_no_sign by (auto simp: show_int_def scan_sign_def)
qed

lemma scan_int_show_int:
  "in_int32 i \<Longrightarrow> no_digit_next rest \<Longrightarrow> scan_int (show_int i @ rest) = Some (i, rest)"
  by (simp add: scan_int_def skip_space_show_int scan_sign_show_int scan_digits_show_nat
      scan_digits_stop Let_def)

text \<open>\<open>std::stoi\<close>: what follows the number is ignored; no number or one out of range raises an exception.\<close>

definition stoi :: "string \<Rightarrow> int option" where
  "stoi s = map_option fst (scan_int s)"

lemma stoi_show_int: "in_int32 i \<Longrightarrow> stoi (show_int i) = Some i"
  using scan_int_show_int [of i "[]"] by (simp add: stoi_def no_digit_next_def)

lemma scan_int_space: "is_space c \<Longrightarrow> scan_int (c # s) = scan_int s"
  by (simp add: scan_int_def)

lemma length_skip_space: "length (skip_space s) \<le> length s"
  by (induction s) auto

lemma length_scan_digits:
  "scan_digits s n b = (m, seen, rest) \<Longrightarrow>
     length rest \<le> length s \<and> (seen \<and> \<not> b \<longrightarrow> length rest < length s)"
  by (induction s n b rule: scan_digits.induct) (fastforce split: if_splits)+

lemma length_scan_sign: "length (snd (scan_sign s)) \<le> length s"
  by (cases s) (auto simp: scan_sign_def)

lemma scan_int_shorter:
  assumes "scan_int s = Some (v, rest)" shows "length rest < length s"
proof -
  obtain neg s1 where s1: "scan_sign (skip_space s) = (neg, s1)" by fastforce
  obtain n seen r where d: "scan_digits s1 0 False = (n, seen, r)" using prod_cases3 by blast
  with assms s1 have "seen" "r = rest"
    by (auto simp: scan_int_def Let_def split: if_splits)
  then have "length rest < length s1" using length_scan_digits d by blast
  also have "length s1 \<le> length s"
    using length_scan_sign [of "skip_space s"] length_skip_space [of s] s1 by simp
  finally show ?thesis .
qed

section \<open>Lines\<close>

lemma getlines_acc_line:
  "newline \<notin> set l \<Longrightarrow> getlines_acc cur (l @ newline # s) = (rev cur @ l) # getlines_acc [] s"
  by (induction l arbitrary: cur) auto

lemma getlines_line: "newline \<notin> set l \<Longrightarrow> getlines (l @ newline # s) = l # getlines s"
  by (simp add: getlines_def getlines_acc_line)

lemma getlines_Nil [simp]: "getlines [] = []"
  by (simp add: getlines_def)

lemma newline_no_digit: "\<not> is_digit newline"
  by (simp add: is_digit_def)

lemma show_int_no_newline: "newline \<notin> set (show_int i)"
  using show_nat_digits [of newline] newline_no_digit by (auto simp: show_int_def)

section \<open>Reading a DIMACS header\<close>

text \<open>
  \<open>ss >> v\<close> for the header: \<open>None\<close> if the stream is exhausted before the number (the variable is
  not written); 0 if the text is no number; the nearest 32-bit bound if it is out of range.
\<close>

definition header_int :: "string \<Rightarrow> int option" where
  "header_int s =
     (let s1 = skip_space s in
      if s1 = [] then None
      else case scan_sign s1 of (neg, s2) \<Rightarrow>
           case scan_digits s2 0 False of (n, seen, rest) \<Rightarrow>
             if \<not> seen then Some 0
             else let v = (if neg then - int n else int n)
                  in Some (max (- 2147483648) (min 2147483647 v)))"

definition parse_header :: "string \<Rightarrow> int option" where
  "parse_header line =
     (let (p, r1) = scan_word (skip_space line); (cnf, r2) = scan_word (skip_space r1) in header_int r2)"

lemma space_is_space [simp]: "is_space CHR '' ''"
  by (simp add: is_space_def)

lemma space_not_digit [simp]: "\<not> is_digit CHR '' ''"
  by (simp add: is_digit_def)

lemma space_no_digit [simp]: "no_digit_next (CHR '' '' # s)"
  by (simp add: no_digit_next_def is_digit_def)

lemma show_int_head: "\<exists>c r. show_int i = c # r \<and> (c = CHR ''-'' \<or> is_digit c)"
  using show_nat_Cons [of "nat i"] show_nat_Cons [of "nat (- i)"] by (auto simp: show_int_def)

lemma parse_header_print:
  assumes "in_int32 v"
  shows "parse_header (''p cnf '' @ show_int v @ '' '' @ s) = Some v"
proof -
  have ns: "\<not> is_space CHR ''p''" "\<not> is_space CHR ''c''" "\<not> is_space CHR ''n''" "\<not> is_space CHR ''f''"
    by (simp_all add: is_space_def)
  have "parse_header (''p cnf '' @ show_int v @ '' '' @ s) = header_int (CHR '' '' # show_int v @ '' '' @ s)"
    by (simp add: parse_header_def ns)
  also have "\<dots> = Some (max (- 2147483648) (min 2147483647 v))"
    using show_int_head [of v]
    by (auto simp: header_int_def Let_def skip_space_show_int scan_sign_show_int
        scan_digits_show_nat scan_digits_stop)
  also have "\<dots> = Some v" using assms by (simp add: in_int32_def)
  finally show ?thesis .
qed

section \<open>Comma-separated lists\<close>

fun join :: "string \<Rightarrow> string list \<Rightarrow> string" where
  "join sep [] = []"
| "join sep [x] = x"
| "join sep (x # y # ys) = x @ sep @ join sep (y # ys)"

end
