(* ===== verification/Cli_Types.thy ===== *)
theory Cli_Types
  imports Binary64 Decimal
begin

text \<open>
  The data types of the stand-alone generator \<open>cube_gen_cli/cube_gen_cli.cpp\<close>: literals (a signed
  DIMACS integer), cubes, formulas and options, and their meaning: a model is a valuation of the
  variables.
\<close>

type_synonym Var = int

definition INT_MAX :: int where
  "INT_MAX = 2147483647"

definition var_Undef :: Var where
  "var_Undef = -1"

datatype Lit = Lit (lit_x: int)

definition makeLit :: "Var \<Rightarrow> bool \<Rightarrow> Lit" where
  "makeLit v sign = Lit (if sign then - v else v)"

definition makeLitTrue :: "Var \<Rightarrow> Lit" where
  "makeLitTrue v = Lit v"

definition makeLitFalse :: "Var \<Rightarrow> Lit" where
  "makeLitFalse v = Lit (- v)"

definition var :: "Lit \<Rightarrow> Var" where
  "var l = \<bar>lit_x l\<bar>"

definition sign :: "Lit \<Rightarrow> bool" where
  "sign l \<longleftrightarrow> lit_x l < 0"

text \<open>The weight is the number of literals, as a \<open>double\<close>; the conversion is exact.\<close>

record Cube =
  lits :: "Lit list"
  weight :: nat

definition make_cube :: "Lit list \<Rightarrow> Cube" where
  "make_cube ls = \<lparr>lits = ls, weight = length ls\<rparr>"

record Formula =
  nbVar :: int
  clauses :: "Lit list list"

record OptionCubeGenerator =
  numCubes :: int
  timeoutSec :: double
  alpha :: double
  useMinDeg :: bool
  verbose :: bool

definition default_options :: OptionCubeGenerator where
  "default_options = \<lparr>numCubes = 64, timeoutSec = dbl_of_int 30, alpha = Dbl 1 (-1),
     useMinDeg = True, verbose = False\<rparr>"

section \<open>Literals of a formula\<close>

definition wf_lit :: "int \<Rightarrow> Lit \<Rightarrow> bool" where
  "wf_lit n l \<longleftrightarrow> 0 < var l \<and> var l \<le> n"

definition wf_clause :: "int \<Rightarrow> Lit list \<Rightarrow> bool" where
  "wf_clause n c \<longleftrightarrow> list_all (wf_lit n) c"

definition wf_formula :: "Formula \<Rightarrow> bool" where
  "wf_formula f \<longleftrightarrow> 1 \<le> nbVar f \<and> nbVar f < INT_MAX \<and> list_all (wf_clause (nbVar f)) (clauses f)"

lemma wf_clauseD: "wf_clause n c \<Longrightarrow> l \<in> set c \<Longrightarrow> wf_lit n l"
  by (simp add: wf_clause_def list_all_iff)

lemma wf_formulaD: "wf_formula f \<Longrightarrow> c \<in> set (clauses f) \<Longrightarrow> wf_clause (nbVar f) c"
  by (simp add: wf_formula_def list_all_iff)

section \<open>Meaning\<close>

definition lit_true :: "(Var \<Rightarrow> bool) \<Rightarrow> Lit \<Rightarrow> bool" where
  "lit_true m l = (if sign l then \<not> m (var l) else m (var l))"

abbreviation models :: "(Var \<Rightarrow> bool) \<Rightarrow> Lit list list \<Rightarrow> bool" where
  "models m cs \<equiv> cnf_true (lit_true m) cs"

abbreviation in_cube :: "(Var \<Rightarrow> bool) \<Rightarrow> Lit list \<Rightarrow> bool" where
  "in_cube m c \<equiv> cube_true (lit_true m) c"

definition neg_lit :: "Lit \<Rightarrow> Lit" where
  "neg_lit l = Lit (- lit_x l)"

lemma lit_eqI: "var a = var b \<Longrightarrow> sign a = sign b \<Longrightarrow> a = b"
  by (cases a; cases b) (auto simp: var_def sign_def)

lemma var_makeLit [simp]: "var (makeLit v s) = \<bar>v\<bar>"
  by (simp add: var_def makeLit_def)

lemma sign_makeLit: "0 < v \<Longrightarrow> sign (makeLit v s) = s"
  by (simp add: sign_def makeLit_def)

lemma var_makeLitTrue [simp]: "var (makeLitTrue v) = \<bar>v\<bar>"
  by (simp add: var_def makeLitTrue_def)

lemma var_makeLitFalse [simp]: "var (makeLitFalse v) = \<bar>v\<bar>"
  by (simp add: var_def makeLitFalse_def)

lemma sign_makeLitTrue: "0 < v \<Longrightarrow> \<not> sign (makeLitTrue v)"
  by (simp add: sign_def makeLitTrue_def)

lemma sign_makeLitFalse: "0 < v \<Longrightarrow> sign (makeLitFalse v)"
  by (simp add: sign_def makeLitFalse_def)

lemma makeLit_not: "0 < var p \<Longrightarrow> makeLit (var p) (\<not> sign p) = neg_lit p"
  by (cases p) (auto simp: var_def sign_def makeLit_def neg_lit_def)

lemma var_neg_lit [simp]: "var (neg_lit l) = var l"
  by (simp add: var_def neg_lit_def)

lemma neg_neg_lit [simp]: "neg_lit (neg_lit l) = l"
  by (simp add: neg_lit_def)

lemma sign_neg_lit: "0 < var l \<Longrightarrow> sign (neg_lit l) = (\<not> sign l)"
  by (auto simp: var_def sign_def neg_lit_def)

lemma wf_neg_lit [simp]: "wf_lit n (neg_lit l) = wf_lit n l"
  by (simp add: wf_lit_def)

lemma lit_true_neg: "0 < var l \<Longrightarrow> lit_true m (neg_lit l) = (\<not> lit_true m l)"
  by (simp add: lit_true_def sign_neg_lit)

lemma lit_true_makeLitTrue: "0 < v \<Longrightarrow> lit_true m (makeLitTrue v) = m v"
  by (simp add: lit_true_def sign_makeLitTrue)

lemma lit_true_makeLitFalse: "0 < v \<Longrightarrow> lit_true m (makeLitFalse v) = (\<not> m v)"
  by (simp add: lit_true_def sign_makeLitFalse)

text \<open>Two literals on one variable are equal or opposite.\<close>

lemma same_var_cases: "0 < var a \<Longrightarrow> var a = var b \<Longrightarrow> b = a \<or> b = neg_lit a"
  by (cases a; cases b) (auto simp: var_def neg_lit_def)

section \<open>Projected models and their number\<close>

text \<open>The models of a formula as sets of true variables among \<open>1..n\<close>.\<close>

definition val_of :: "Var set \<Rightarrow> Var \<Rightarrow> bool" where
  "val_of S v \<longleftrightarrow> v \<in> S"

definition model_sets :: "int \<Rightarrow> Lit list list \<Rightarrow> Var set set" where
  "model_sets n cs = {S. S \<subseteq> {1..n} \<and> models (val_of S) cs}"

definition model_count :: "int \<Rightarrow> Lit list list \<Rightarrow> nat" where
  "model_count n cs = card (model_sets n cs)"

text \<open>The models of the formula inside a cube: the formula with the cube's literals as units.\<close>

definition cube_count :: "int \<Rightarrow> Lit list list \<Rightarrow> Lit list \<Rightarrow> nat" where
  "cube_count n cs c = card {S \<in> model_sets n cs. in_cube (val_of S) c}"

lemma finite_model_sets: "finite (model_sets n cs)"
  by (rule finite_subset [of _ "Pow {1..n}"]) (auto simp: model_sets_def)

definition cubes_cover :: "Lit list list \<Rightarrow> Lit list list \<Rightarrow> bool" where
  "cubes_cover cs cubes \<longleftrightarrow> (\<forall>m. models m cs \<longrightarrow> (\<exists>c\<in>set cubes. in_cube m c))"

definition clash :: "Lit list \<Rightarrow> Lit list \<Rightarrow> bool" where
  "clash a b \<longleftrightarrow> (\<exists>l\<in>set a. 0 < var l \<and> neg_lit l \<in> set b)"

definition pairwise_clash :: "Lit list list \<Rightarrow> bool" where
  "pairwise_clash cs \<longleftrightarrow> sorted_wrt clash cs"

lemma clash_not_both: "clash a b \<Longrightarrow> in_cube m a \<Longrightarrow> in_cube m b \<Longrightarrow> False"
  by (auto simp: clash_def truth_simps lit_true_neg)

lemma clash_sym: "clash a b \<Longrightarrow> clash b a"
  unfolding clash_def by (metis neg_neg_lit var_neg_lit)

lemma clash_mono: "clash a b \<Longrightarrow> set a \<subseteq> set a' \<Longrightarrow> set b \<subseteq> set b' \<Longrightarrow> clash a' b'"
  by (auto simp: clash_def)

text \<open>A covering list of cubes never counts fewer models than the formula has.\<close>

lemma cover_count_le:
  assumes "cubes_cover cs cubes"
  shows "model_count n cs \<le> sum_list (map (cube_count n cs) cubes)"
proof -
  let ?A = "\<lambda>c. {S \<in> model_sets n cs. in_cube (val_of S) c}"
  have "model_sets n cs \<subseteq> (\<Union>c\<in>set cubes. ?A c)"
    using assms by (auto simp: cubes_cover_def model_sets_def)
  then have "card (model_sets n cs) \<le> card (\<Union>c\<in>set cubes. ?A c)"
    by (rule card_mono [rotated]) (simp add: finite_model_sets)
  also have "\<dots> \<le> sum_list (map (\<lambda>c. card (?A c)) cubes)"
  proof (induction cubes)
    case (Cons c cubes)
    then show ?case
      by (simp, meson add_left_mono card_Un_le order_trans)
  qed simp
  finally show ?thesis by (simp add: model_count_def cube_count_def [abs_def])
qed

lemma pairwise_clash_Cons:
  "pairwise_clash (c # cs) \<longleftrightarrow> (\<forall>d\<in>set cs. clash c d) \<and> pairwise_clash cs"
  by (simp add: pairwise_clash_def)

lemma pairwise_clash_Nil [simp]: "pairwise_clash []"
  by (simp add: pairwise_clash_def)

lemma pairwise_clash_mset: "mset xs = mset ys \<Longrightarrow> pairwise_clash xs \<longleftrightarrow> pairwise_clash ys"
  unfolding pairwise_clash_def by (intro sorted_wrt_mset sympI) (auto dest: clash_sym)

lemma pairwise_clash_append:
  "pairwise_clash (xs @ ys) \<longleftrightarrow> pairwise_clash xs \<and> pairwise_clash ys \<and> (\<forall>x\<in>set xs. \<forall>y\<in>set ys. clash x y)"
  by (auto simp: pairwise_clash_def sorted_wrt_append)

text \<open>Pairwise clashing cubes that cover the models count every model exactly once.\<close>

lemma cover_disjoint_count:
  assumes "cubes_cover cs cubes" and "pairwise_clash cubes"
  shows "model_count n cs = sum_list (map (cube_count n cs) cubes)"
proof -
  let ?A = "\<lambda>c. {S \<in> model_sets n cs. in_cube (val_of S) c}"
  have fin: "finite (?A c)" for c by (simp add: finite_model_sets)
  have "model_sets n cs = (\<Union>c\<in>set cubes. ?A c)"
    using assms(1) by (auto simp: cubes_cover_def model_sets_def)
  then have "model_count n cs = card (\<Union>c\<in>set cubes. ?A c)" by (simp add: model_count_def)
  also have "\<dots> = sum_list (map (\<lambda>c. card (?A c)) cubes)"
    using assms(2)
  proof (induction cubes)
    case (Cons c cubes)
    have "?A c \<inter> (\<Union>d\<in>set cubes. ?A d) = {}"
      using Cons.prems clash_not_both by (fastforce simp: pairwise_clash_Cons)
    then have "card (?A c \<union> (\<Union>d\<in>set cubes. ?A d)) = card (?A c) + card (\<Union>d\<in>set cubes. ?A d)"
      by (intro card_Un_disjoint) (auto simp: fin finite_model_sets)
    then show ?case using Cons by (simp add: pairwise_clash_Cons)
  qed simp
  finally show ?thesis by (simp add: cube_count_def [abs_def])
qed


text \<open>The counts of the cubes add up to the number of cubes each model is in.\<close>

lemma sum_cube_count:
  "sum_list (map (cube_count n cs) cubes) =
     (\<Sum>S\<in>model_sets n cs. length (filter (in_cube (val_of S)) cubes))"
proof (induction cubes)
  case (Cons c cubes)
  have "cube_count n cs c = (\<Sum>S\<in>model_sets n cs. if in_cube (val_of S) c then 1 else 0)"
    by (simp add: cube_count_def sum.If_cases finite_model_sets Collect_conj_eq [symmetric] Int_def)
  then show ?case
    by (simp add: Cons sum.distrib [symmetric] cong: sum.cong) (rule sum.cong; simp)
qed simp

text \<open>A model in two cubes of a covering list is counted twice.\<close>

lemma cover_overlap_count:
  assumes "cubes_cover cs cubes" "S \<in> model_sets n cs" "2 \<le> length (filter (in_cube (val_of S)) cubes)"
  shows "model_count n cs < sum_list (map (cube_count n cs) cubes)"
proof -
  have "1 \<le> length (filter (in_cube (val_of T)) cubes)" if T: "T \<in> model_sets n cs" for T
  proof -
    have "\<exists>c\<in>set cubes. in_cube (val_of T) c" using assms(1) T by (auto simp: cubes_cover_def model_sets_def)
    then have "filter (in_cube (val_of T)) cubes \<noteq> []" by (simp add: filter_empty_conv)
    then show ?thesis by (cases "filter (in_cube (val_of T)) cubes") auto
  qed
  then have "(\<Sum>T\<in>model_sets n cs. 1) < (\<Sum>T\<in>model_sets n cs. length (filter (in_cube (val_of T)) cubes))"
    using assms(2,3) by (intro sum_strict_mono_ex1) (auto simp: finite_model_sets intro!: bexI [of _ S])
  then show ?thesis by (simp add: model_count_def sum_cube_count)
qed

end
