(* ===== verification/Cli_Parser.thy ===== *)
theory Cli_Parser
  imports Cli_Types
begin

text \<open>
  \<open>parseCNF\<close> of \<open>cube_gen_cli.cpp\<close>: a line-oriented DIMACS reader. The file system is the
  argument: \<open>None\<close> for a file that cannot be opened, else its text. Reading the header's variable
  count from a line that ends before it leaves the C++ variable uninitialised; that branch is the
  error \<open>UninitialisedRead\<close>.
\<close>

datatype parse_error = CannotOpen | UninitialisedRead

function scan_lits :: "string \<Rightarrow> Lit list" where
  "scan_lits s =
     (case scan_int s of None \<Rightarrow> []
      | Some (x, rest) \<Rightarrow> if x \<noteq> 0 then makeLit \<bar>x\<bar> (x < 0) # scan_lits rest else [])"
  by pat_completeness auto
termination
  by (relation "measure length") (auto dest: scan_int_shorter)

declare scan_lits.simps [simp del]

definition parse_line :: "Formula \<Rightarrow> string \<Rightarrow> parse_error + Formula" where
  "parse_line f line =
     (case line of [] \<Rightarrow> Inr f
      | c # _ \<Rightarrow>
          if c = CHR ''c'' then Inr f
          else if c = CHR ''p'' then
            (case parse_header line of None \<Rightarrow> Inl UninitialisedRead
             | Some v \<Rightarrow> Inr (f\<lparr>nbVar := v\<rparr>))
          else let cl = scan_lits line
               in Inr (if cl \<noteq> [] then f\<lparr>clauses := clauses f @ [cl]\<rparr> else f))"

fun parse_lines :: "Formula \<Rightarrow> string list \<Rightarrow> parse_error + Formula" where
  "parse_lines f [] = Inr f"
| "parse_lines f (l # ls) =
     (case parse_line f l of Inl e \<Rightarrow> Inl e | Inr f' \<Rightarrow> parse_lines f' ls)"

definition parseCNF :: "string option \<Rightarrow> parse_error + Formula" where
  "parseCNF file =
     (case file of None \<Rightarrow> Inl CannotOpen
      | Some text \<Rightarrow> parse_lines \<lparr>nbVar = 0, clauses = []\<rparr> (getlines text))"

section \<open>Reading back a printed formula\<close>

text \<open>The DIMACS text of a formula, one clause per line, each ended by 0.\<close>

definition lit_text :: "Lit \<Rightarrow> string" where
  "lit_text l = show_int (lit_x l) @ '' ''"

definition clause_text :: "Lit list \<Rightarrow> string" where
  "clause_text c = concat (map lit_text c) @ ''0''"

definition header_text :: "Formula \<Rightarrow> string" where
  "header_text f = ''p cnf '' @ show_int (nbVar f) @ '' '' @ show_int (int (length (clauses f)))"

definition dimacs_text :: "Formula \<Rightarrow> string" where
  "dimacs_text f = header_text f @ newline # concat (map (\<lambda>c. clause_text c @ [newline]) (clauses f))"

definition printable :: "Lit list \<Rightarrow> bool" where
  "printable c \<longleftrightarrow> c \<noteq> [] \<and> (\<forall>l\<in>set c. lit_x l \<noteq> 0 \<and> in_int32 (lit_x l))"

lemma makeLit_abs: "makeLit \<bar>x\<bar> (x < 0) = Lit x"
  by (auto simp: makeLit_def)

lemma scan_lits_end: "scan_lits ('' '' @ s) = scan_lits s"
  by (subst (1 2) scan_lits.simps) (simp add: scan_int_space)

lemma scan_lits_Cons:
  "i \<noteq> 0 \<Longrightarrow> in_int32 i \<Longrightarrow> scan_lits (show_int i @ '' '' @ s) = Lit i # scan_lits s"
  by (subst scan_lits.simps) (simp add: scan_int_show_int makeLit_abs scan_lits_end [simplified])

lemma scan_lits_zero: "scan_lits ''0'' = []"
proof -
  have "scan_int (show_int 0 @ []) = Some (0, [])"
    by (rule scan_int_show_int) (simp_all add: in_int32_def no_digit_next_def)
  moreover have "show_int 0 = ''0''"
    by code_simp
  ultimately show ?thesis by (subst scan_lits.simps) simp
qed

lemma scan_lits_clause_text:
  "\<forall>l\<in>set c. lit_x l \<noteq> 0 \<and> in_int32 (lit_x l) \<Longrightarrow> scan_lits (clause_text c) = c"
proof (induction c)
  case Nil
  then show ?case by (simp add: clause_text_def scan_lits_zero)
next
  case (Cons l c)
  then show ?case
    using scan_lits_Cons [of "lit_x l" "clause_text c"] by (simp add: clause_text_def lit_text_def)
qed

lemma no_newline_texts: "newline \<notin> set (clause_text c)" "newline \<notin> set (header_text f)"
  using show_int_no_newline by (auto simp: clause_text_def lit_text_def header_text_def)

lemma getlines_clauses:
  "getlines (concat (map (\<lambda>c. clause_text c @ [newline]) cs)) = map clause_text cs"
  by (induction cs) (simp_all add: getlines_line no_newline_texts)

lemma parse_line_clause:
  assumes "printable c"
  shows "parse_line f (clause_text c) = Inr (f\<lparr>clauses := clauses f @ [c]\<rparr>)"
proof -
  obtain l c' where c: "c = l # c'" using assms by (cases c) (auto simp: printable_def)
  obtain d r where d: "show_int (lit_x l) = d # r" "d = CHR ''-'' \<or> is_digit d"
    using show_int_head by blast
  then have "clause_text c = d # r @ '' '' @ clause_text c'"
    by (simp add: clause_text_def lit_text_def c)
  moreover have "d \<noteq> CHR ''c''" "d \<noteq> CHR ''p''" using d(2) by (auto simp: is_digit_def)
  moreover have "scan_lits (clause_text c) = c"
    using assms by (intro scan_lits_clause_text) (auto simp: printable_def)
  ultimately show ?thesis using c by (simp add: parse_line_def Let_def)
qed

lemma parse_lines_clauses:
  "\<forall>c\<in>set cs. printable c \<Longrightarrow>
     parse_lines f (map clause_text cs) = Inr (f\<lparr>clauses := clauses f @ cs\<rparr>)"
  by (induction cs arbitrary: f) (simp_all add: parse_line_clause)

lemma parse_header_text: "in_int32 (nbVar f) \<Longrightarrow> parse_header (header_text f) = Some (nbVar f)"
  unfolding header_text_def by (rule parse_header_print)

lemma parse_line_header:
  "in_int32 (nbVar f) \<Longrightarrow> parse_line g (header_text f) = Inr (g\<lparr>nbVar := nbVar f\<rparr>)"
  using parse_header_text [of f] by (simp add: parse_line_def header_text_def)

lemma parse_text:
  assumes "in_int32 (nbVar f)" "\<forall>c\<in>set (clauses f). printable c"
  shows "parse_lines g (header_text f # map clause_text (clauses f)) =
    Inr (g\<lparr>nbVar := nbVar f, clauses := clauses g @ clauses f\<rparr>)"
  using parse_lines_clauses [OF assms(2)] by (simp add: parse_line_header [OF assms(1)])

section \<open>Properties\<close>

text \<open>C11: parsing the DIMACS text of a formula whose clauses are non-empty gives the formula back.\<close>

theorem parse_print_roundtrip:
  assumes "in_int32 (nbVar f)" "\<forall>c\<in>set (clauses f). printable c"
  shows "parseCNF (Some (dimacs_text f)) = Inr f"
  using parse_text [OF assms]
  by (simp add: parseCNF_def dimacs_text_def getlines_line no_newline_texts getlines_clauses)

lemma parse_print_roundtrip_witness:
  "parseCNF (Some (dimacs_text \<lparr>nbVar = 2, clauses = [[Lit 1, Lit (-2)], [Lit 2]]\<rparr>)) =
    Inr \<lparr>nbVar = 2, clauses = [[Lit 1, Lit (-2)], [Lit 2]]\<rparr>"
  by (rule parse_print_roundtrip) (simp_all add: printable_def in_int32_def)

text \<open>An empty clause is dropped: the text of a formula followed by an empty clause, which makes it
  unsatisfiable, is read as the formula without it.\<close>

lemma getlines_append_lines:
  "\<forall>l\<in>set ls. newline \<notin> set l \<Longrightarrow>
     getlines (concat (map (\<lambda>l. l @ [newline]) ls) @ t) = ls @ getlines t"
  by (induction ls) (simp_all add: getlines_line)

lemma dimacs_lines:
  "dimacs_text f = concat (map (\<lambda>l. l @ [newline]) (header_text f # map clause_text (clauses f)))"
  by (simp add: dimacs_text_def comp_def)

lemma parse_lines_append:
  "parse_lines f ls = Inr g \<Longrightarrow> parse_lines f (ls @ ks) = parse_lines g ks"
  by (induction ls arbitrary: f) (auto split: sum.splits)

theorem parse_drops_empty_clause:
  assumes "in_int32 (nbVar f)" "\<forall>c\<in>set (clauses f). printable c"
  shows "parseCNF (Some (dimacs_text f @ clause_text [] @ [newline])) = Inr f"
proof -
  have "\<forall>l\<in>set (header_text f # map clause_text (clauses f)). newline \<notin> set l"
    using no_newline_texts by auto
  then have "getlines (dimacs_text f @ clause_text [] @ [newline]) =
      (header_text f # map clause_text (clauses f)) @ getlines (clause_text [] @ [newline])"
    unfolding dimacs_lines by (rule getlines_append_lines)
  also have "getlines (clause_text [] @ [newline]) = [clause_text []]"
    using getlines_line [of "clause_text []" "[]"] no_newline_texts(1) by simp
  finally have lines: "getlines (dimacs_text f @ clause_text [] @ [newline]) =
      (header_text f # map clause_text (clauses f)) @ [clause_text []]" .
  have "parse_lines \<lparr>nbVar = 0, clauses = []\<rparr> (header_text f # map clause_text (clauses f)) = Inr f"
    using parse_text [OF assms] by simp
  from parse_lines_append [OF this]
  have "parseCNF (Some (dimacs_text f @ clause_text [] @ [newline])) = parse_lines f [clause_text []]"
    unfolding parseCNF_def option.case lines .
  also have "\<dots> = Inr f"
    using scan_lits_clause_text [of "[]"] by (simp add: parse_line_def clause_text_def Let_def)
  finally show ?thesis .
qed

lemma parse_drops_empty_clause_witness:
  "parseCNF (Some (dimacs_text \<lparr>nbVar = 1, clauses = [[Lit 1]]\<rparr> @ clause_text [] @ [newline])) =
    Inr \<lparr>nbVar = 1, clauses = [[Lit 1]]\<rparr>"
  by (rule parse_drops_empty_clause) (simp_all add: printable_def in_int32_def)

end
