(* ===== verification/Propagator_Spec.thy ===== *)
theory Propagator_Spec
  imports HS_Prelude
begin

text \<open>
  The unit-propagator interface both cube generators are written against
  (\<open>uncheckedEnqueue\<close>, \<open>propagate\<close>, \<open>cancelUntilPos\<close>, \<open>getTrail\<close>): \<open>Propagator\<close> in
  \<open>cube_gen_cli.cpp\<close> and \<open>bipe::reducer::Propagator\<close>. The laws ask for sound propagation only, not
  for finding every unit. The client lemma \<open>branch\<close> is the step both \<open>createCubes\<close> functions take:
  enqueue a literal and propagate, backtrack, enqueue its complement and propagate.
\<close>

section \<open>Extensions of a trail by literals on new variables\<close>

definition fresh_ext :: "('l \<Rightarrow> int) \<Rightarrow> 'l list \<Rightarrow> 'l list \<Rightarrow> bool" where
  "fresh_ext lvar t t' \<longleftrightarrow>
     (\<exists>new. t' = t @ new \<and> distinct (map lvar new) \<and> lvar ` set new \<inter> lvar ` set t = {})"

lemma fresh_ext_refl: "fresh_ext lvar t t"
  by (auto simp: fresh_ext_def)

lemma fresh_ext_trans: "fresh_ext lvar a b \<Longrightarrow> fresh_ext lvar b c \<Longrightarrow> fresh_ext lvar a c"
proof -
  assume "fresh_ext lvar a b" "fresh_ext lvar b c"
  then obtain u v where "b = a @ u" "distinct (map lvar u)" "lvar ` set u \<inter> lvar ` set a = {}"
    "c = b @ v" "distinct (map lvar v)" "lvar ` set v \<inter> lvar ` set b = {}"
    by (auto simp: fresh_ext_def)
  then have "c = a @ (u @ v) \<and> distinct (map lvar (u @ v)) \<and> lvar ` set (u @ v) \<inter> lvar ` set a = {}"
    by auto
  then show ?thesis unfolding fresh_ext_def by blast
qed

text \<open>What the trail gains the unassigned variables lose.\<close>

lemma fresh_ext_card:
  assumes "fresh_ext lvar t t'" and r: "lvar ` set t' \<subseteq> {1..n}"
  shows "length t' + card ({1..n} - lvar ` set t') = length t + card ({1..n} - lvar ` set t) \<and>
    length t \<le> length t'"
proof -
  obtain new where new: "t' = t @ new" "distinct (map lvar new)" "lvar ` set new \<inter> lvar ` set t = {}"
    using assms(1) by (auto simp: fresh_ext_def)
  have c: "card (lvar ` set new) = length new" using new(2) by (metis distinct_card length_map set_map)
  have d: "{1..n} - lvar ` set t' = ({1..n} - lvar ` set t) - lvar ` set new" using new(1) by auto
  have s: "lvar ` set new \<subseteq> {1..n} - lvar ` set t" using r new(1,3) by auto
  have "card ({1..n} - lvar ` set t') = card ({1..n} - lvar ` set t) - length new"
    using c card_Diff_subset [OF _ s] by (simp add: d)
  moreover have "length new \<le> card ({1..n} - lvar ` set t)" using card_mono [OF _ s] c by simp
  ultimately show ?thesis using new(1) by simp
qed

section \<open>The interface\<close>

locale unit_propagator =
  fixes inv :: "'p \<Rightarrow> bool" and trail :: "'p \<Rightarrow> 'l list" and formula :: "'p \<Rightarrow> 'l list list"
    and bound :: "'p \<Rightarrow> int" and lvar :: "'l \<Rightarrow> int" and tru :: "'m \<Rightarrow> 'l \<Rightarrow> bool"
    and enqueue :: "'l \<Rightarrow> 'p \<Rightarrow> 'p" and propagate :: "'p \<Rightarrow> (bool \<times> 'p) option"
    and cancel :: "nat \<Rightarrow> 'p \<Rightarrow> 'p"
  assumes trail_bound: "inv P \<Longrightarrow> l \<in> set (trail P) \<Longrightarrow> 0 < lvar l \<and> lvar l \<le> bound P"
    and enqueue_law: "inv P \<Longrightarrow> 0 < lvar l \<Longrightarrow> lvar l \<le> bound P \<Longrightarrow>
      inv (enqueue l P) \<and> trail (enqueue l P) = trail P @ [l] \<and>
      formula (enqueue l P) = formula P \<and> bound (enqueue l P) = bound P"
    and propagate_law: "inv P \<Longrightarrow> \<exists>ok Q new. propagate P = Some (ok, Q) \<and> inv Q \<and>
      formula Q = formula P \<and> bound Q = bound P \<and> trail Q = trail P @ new \<and>
      distinct (map lvar new) \<and> lvar ` set new \<inter> lvar ` set (trail P) = {} \<and>
      (\<forall>m. cnf_true (tru m) (formula P) \<longrightarrow> cube_true (tru m) (trail P) \<longrightarrow>
        ok \<and> cube_true (tru m) (trail Q))"
    and backtrack_law: "inv P \<Longrightarrow> trail P = base @ rest \<Longrightarrow>
      lvar ` set rest \<inter> lvar ` set base \<subseteq> {lvar l} \<Longrightarrow> 0 < lvar l \<Longrightarrow> lvar l \<le> bound P \<Longrightarrow>
      inv (enqueue l (cancel (length base) P)) \<and> trail (enqueue l (cancel (length base) P)) = base @ [l] \<and>
      formula (enqueue l (cancel (length base) P)) = formula P \<and>
      bound (enqueue l (cancel (length base) P)) = bound P"
begin

lemma enqueue_propagate:
  assumes "inv P" "0 < lvar l" "lvar l \<le> bound P"
  obtains ok Q new where "propagate (enqueue l P) = Some (ok, Q)" "inv Q" "formula Q = formula P"
    "bound Q = bound P" "trail Q = trail P @ l # new" "distinct (map lvar new)"
    "lvar ` set new \<inter> insert (lvar l) (lvar ` set (trail P)) = {}"
    "\<And>m. cnf_true (tru m) (formula P) \<Longrightarrow> cube_true (tru m) (trail P) \<Longrightarrow> tru m l \<Longrightarrow>
      ok \<and> cube_true (tru m) (trail Q)"
proof -
  note e = enqueue_law [OF assms]
  obtain ok Q new where "propagate (enqueue l P) = Some (ok, Q)" "inv Q"
    "formula Q = formula (enqueue l P)" "bound Q = bound (enqueue l P)" "trail Q = trail (enqueue l P) @ new"
    "distinct (map lvar new)" "lvar ` set new \<inter> lvar ` set (trail (enqueue l P)) = {}"
    "\<forall>m. cnf_true (tru m) (formula (enqueue l P)) \<longrightarrow> cube_true (tru m) (trail (enqueue l P)) \<longrightarrow>
        ok \<and> cube_true (tru m) (trail Q)"
    using propagate_law [OF conjunct1 [OF e]] by blast
  with e show ?thesis by (intro that [of ok Q new]) simp_all
qed

lemma branch:
  assumes "inv P" and v: "lvar p = lvar q" "0 < lvar p" "lvar p \<le> bound P"
  obtains ok1 Q1 new1 ok2 Q2 new2 where
    "propagate (enqueue p P) = Some (ok1, Q1)"
    "propagate (enqueue q (cancel (length (trail P)) Q1)) = Some (ok2, Q2)"
    "inv Q2" "formula Q2 = formula P" "bound Q2 = bound P"
    "trail Q1 = trail P @ p # new1" "trail Q2 = trail P @ q # new2"
    "distinct (map lvar new1)" "lvar ` set new1 \<inter> insert (lvar p) (lvar ` set (trail P)) = {}"
    "distinct (map lvar new2)" "lvar ` set new2 \<inter> insert (lvar p) (lvar ` set (trail P)) = {}"
    "\<And>m. cnf_true (tru m) (formula P) \<Longrightarrow> cube_true (tru m) (trail P) \<Longrightarrow> tru m p \<Longrightarrow>
      ok1 \<and> cube_true (tru m) (trail Q1)"
    "\<And>m. cnf_true (tru m) (formula P) \<Longrightarrow> cube_true (tru m) (trail P) \<Longrightarrow> tru m q \<Longrightarrow>
      ok2 \<and> cube_true (tru m) (trail Q2)"
    "\<forall>l\<in>set (trail Q1) \<union> set (trail Q2). 0 < lvar l \<and> lvar l \<le> bound P"
proof -
  obtain ok1 Q1 new1 where 1: "propagate (enqueue p P) = Some (ok1, Q1)" "inv Q1"
    "formula Q1 = formula P" "bound Q1 = bound P" "trail Q1 = trail P @ p # new1"
    "distinct (map lvar new1)" "lvar ` set new1 \<inter> insert (lvar p) (lvar ` set (trail P)) = {}"
    "\<And>m. cnf_true (tru m) (formula P) \<Longrightarrow> cube_true (tru m) (trail P) \<Longrightarrow> tru m p \<Longrightarrow>
      ok1 \<and> cube_true (tru m) (trail Q1)"
    using enqueue_propagate [OF assms(1) v(2,3)] by blast
  have o: "lvar ` set (p # new1) \<inter> lvar ` set (trail P) \<subseteq> {lvar q}" using 1(7) v(1) by auto
  have q: "0 < lvar q" "lvar q \<le> bound Q1" using v 1(4) by auto
  let ?R = "enqueue q (cancel (length (trail P)) Q1)"
  note b = backtrack_law [OF 1(2,5) o q]
  obtain ok2 Q2 new2 where 2: "propagate ?R = Some (ok2, Q2)" "inv Q2" "formula Q2 = formula ?R"
    "bound Q2 = bound ?R" "trail Q2 = trail ?R @ new2" "distinct (map lvar new2)"
    "lvar ` set new2 \<inter> lvar ` set (trail ?R) = {}"
    "\<forall>m. cnf_true (tru m) (formula ?R) \<longrightarrow> cube_true (tru m) (trail ?R) \<longrightarrow>
        ok2 \<and> cube_true (tru m) (trail Q2)"
    using propagate_law [OF conjunct1 [OF b]] by blast
  have "\<forall>l\<in>set (trail Q1) \<union> set (trail Q2). 0 < lvar l \<and> lvar l \<le> bound P"
    using trail_bound [OF 1(2)] trail_bound [OF 2(2)] 1 2 b by auto
  with 1 2 b v show ?thesis
    by (intro that [of ok1 Q1 ok2 Q2 new1 new2]) simp_all
qed

end

end
