(* ===== verification/Cli_Propagator.thy ===== *)
theory Cli_Propagator
  imports Cli_Types Propagator_Spec
begin

text \<open>
  Class \<open>Propagator\<close> of \<open>cube_gen_cli.cpp\<close>: unit propagation over two watched literals. The record
  holds the members of the class; \<open>m_watches\<close> is indexed by \<open>litIdx\<close>, \<open>m_assign\<close> by variable.
  Two calls on one object share its watch lists, so every operation returns the whole object.

  \<open>propagateLit\<close> rewrites the watch list of the falsified literal in place through a reference while
  it appends to other lists. The model splits that list into the entries already kept and those still
  to visit, and stores the kept ones at the end. The two lists are different: a new watch is
  unassigned and the visited literal is false (\<open>new_watch_index\<close>).

  \<open>getTrail\<close> returns a raw pointer into the buffer of the vector \<open>m_trail\<close>; a \<open>push_back\<close> on a full
  vector moves the elements to a new buffer and makes the pointer dangle. \<open>m_buffer\<close> identifies the
  current buffer and \<open>m_capacity\<close> is its capacity, which grows as in the GNU library. The capacity
  \<open>cap0\<close> of a default-constructed vector is unspecified by the C++ standard (0 in the GNU library)
  and is a parameter.
\<close>

record Propagator =
  m_n :: int
  m_clauses :: "Lit list list"
  m_assign :: "int list"
  m_trail :: "Lit list"
  m_qhead :: nat
  m_unsat :: bool
  m_watches :: "nat list list"
  m_capacity :: nat
  m_buffer :: nat

definition litIdx :: "Lit \<Rightarrow> int" where
  "litIdx l = (if sign l then 2 * var l + 1 else 2 * var l)"

definition push_watch :: "Lit \<Rightarrow> nat \<Rightarrow> nat list list \<Rightarrow> nat list list" where
  "push_watch l ci ws = vset ws (litIdx l) (vget ws (litIdx l) @ [ci])"

fun buildWatches :: "Lit list list \<Rightarrow> nat \<Rightarrow> nat list list \<Rightarrow> nat list list" where
  "buildWatches [] ci ws = ws"
| "buildWatches (c # cs) ci ws =
     (let ws1 = (if 1 \<le> length c then push_watch (c ! 0) ci ws else ws);
          ws2 = (if 2 \<le> length c then push_watch (c ! 1) ci ws1 else ws1)
      in buildWatches cs (Suc ci) ws2)"

definition mkPropagator :: "nat \<Rightarrow> int \<Rightarrow> Lit list list \<Rightarrow> Propagator" where
  "mkPropagator cap0 n cs =
     \<lparr>m_n = n, m_clauses = cs, m_assign = replicate (nat (n + 1)) 0, m_trail = [], m_qhead = 0,
      m_unsat = False, m_watches = buildWatches cs 0 (replicate (nat (2 * (n + 1))) []),
      m_capacity = cap0, m_buffer = 0\<rparr>"

definition restart :: "Propagator \<Rightarrow> Propagator" where
  "restart P = P\<lparr>m_assign := fold (\<lambda>l a. vset a (var l) 0) (m_trail P) (m_assign P),
     m_trail := [], m_qhead := 0, m_unsat := False\<rparr>"

text \<open>2 = unassigned, 1 = true, 0 = false.\<close>

definition value_of :: "Propagator \<Rightarrow> Lit \<Rightarrow> nat" where
  "value_of P l =
     (let a = vget (m_assign P) (var l)
      in if a = 0 then 2 else if (if sign l then a = -1 else a = 1) then 1 else 0)"

definition uncheckedEnqueue :: "Lit \<Rightarrow> Propagator \<Rightarrow> Propagator" where
  "uncheckedEnqueue l P =
     (let n = length (m_trail P); full = (m_capacity P \<le> n)
      in P\<lparr>m_assign := vset (m_assign P) (var l) (if sign l then -1 else 1),
           m_trail := m_trail P @ [l],
           m_capacity := (if full then n + max n 1 else m_capacity P),
           m_buffer := (if full then Suc (m_buffer P) else m_buffer P)\<rparr>)"

definition getTrail :: "Propagator \<Rightarrow> nat" where
  "getTrail P = m_buffer P"

text \<open>The scan of one clause: satisfied, number of free literals, the last and the first of them.\<close>

fun scan_clause :: "Propagator \<Rightarrow> Lit list \<Rightarrow> nat \<Rightarrow> Lit \<Rightarrow> Lit \<Rightarrow> bool \<times> nat \<times> Lit \<times> Lit" where
  "scan_clause P [] free unit newW = (False, free, unit, newW)"
| "scan_clause P (cl # c) free unit newW =
     (let v = value_of P cl
      in if v = 1 then (True, free, unit, newW)
         else if v = 2 then scan_clause P c (Suc free) cl (if free = 0 then cl else newW)
         else scan_clause P c free unit newW)"

fun visit_watches :: "nat list \<Rightarrow> nat list \<Rightarrow> Propagator \<Rightarrow> bool \<times> nat list \<times> Propagator" where
  "visit_watches [] kept P = (True, kept, P)"
| "visit_watches (w # ws) kept P =
     (case scan_clause P (m_clauses P ! w) 0 (Lit 0) (Lit 0) of (sat, free, unit, newW) \<Rightarrow>
        if sat then visit_watches ws (kept @ [w]) P
        else if free = 0 then (False, kept @ w # ws, P)
        else if free = 1 then
          visit_watches ws (kept @ [w]) (if value_of P unit = 2 then uncheckedEnqueue unit P else P)
        else visit_watches ws kept (P\<lparr>m_watches := push_watch newW w (m_watches P)\<rparr>))"

definition propagateLit :: "Lit \<Rightarrow> Propagator \<Rightarrow> bool \<times> Propagator" where
  "propagateLit p P =
     (let falseLit = makeLit (var p) (\<not> sign p); i = litIdx falseLit
      in case visit_watches (vget (m_watches P) i) [] P of (ok, kept, P') \<Rightarrow>
           (ok, P'\<lparr>m_watches := vset (m_watches P') i kept\<rparr>))"

partial_function (option) propagate :: "Propagator \<Rightarrow> (bool \<times> Propagator) option" where
  [code]: "propagate P =
     (if m_qhead P < length (m_trail P) then
        (case propagateLit (m_trail P ! m_qhead P) (P\<lparr>m_qhead := Suc (m_qhead P)\<rparr>) of (ok, P') \<Rightarrow>
           if \<not> ok then Some (False, P'\<lparr>m_unsat := True\<rparr>) else propagate P')
      else Some (True, P))"

function cancel_loop :: "nat \<Rightarrow> Propagator \<Rightarrow> Propagator" where
  "cancel_loop pos P =
     (if pos < length (m_trail P) then
        cancel_loop pos (P\<lparr>m_assign := vset (m_assign P) (var (last (m_trail P))) 0,
          m_trail := butlast (m_trail P)\<rparr>)
      else P)"
  by pat_completeness auto
termination
  by (relation "measure (\<lambda>(pos, P). length (m_trail P))") auto

declare cancel_loop.simps [simp del]

definition cancelUntilPos :: "nat \<Rightarrow> Propagator \<Rightarrow> Propagator" where
  "cancelUntilPos pos P =
     (let P' = cancel_loop pos P
      in P'\<lparr>m_qhead := (if pos < m_qhead P' then pos else m_qhead P'), m_unsat := False\<rparr>)"

section \<open>Well-formed propagators\<close>

definition static_ok :: "Propagator \<Rightarrow> bool" where
  "static_ok P \<longleftrightarrow> 1 \<le> m_n P \<and> (\<forall>c\<in>set (m_clauses P). wf_clause (m_n P) c) \<and>
     length (m_assign P) = nat (m_n P + 1) \<and> length (m_watches P) = nat (2 * (m_n P + 1)) \<and>
     (\<forall>ws\<in>set (m_watches P). \<forall>w\<in>set ws. w < length (m_clauses P))"

text \<open>
  The assignment mirrors the trail: a variable is assigned iff it is on the trail (outside \<open>X\<close>), and
  an assigned variable has the literal of its value on the trail.
\<close>

definition trail_ok :: "Var set \<Rightarrow> Propagator \<Rightarrow> bool" where
  "trail_ok X P \<longleftrightarrow> (\<forall>l\<in>set (m_trail P). wf_lit (m_n P) l) \<and>
     (\<forall>v. 1 \<le> v \<and> v \<le> m_n P \<longrightarrow>
        (v \<notin> X \<longrightarrow> v \<in> var ` set (m_trail P) \<longrightarrow> vget (m_assign P) v \<noteq> 0) \<and>
        (vget (m_assign P) v = 0 \<or> vget (m_assign P) v = 1 \<and> Lit v \<in> set (m_trail P) \<or>
         vget (m_assign P) v = -1 \<and> Lit (- v) \<in> set (m_trail P)))"

definition pwf :: "Propagator \<Rightarrow> bool" where
  "pwf P \<longleftrightarrow> static_ok P \<and> trail_ok {} P"

lemma static_ok_vin:
  "static_ok P \<Longrightarrow> wf_lit (m_n P) l \<Longrightarrow> vin (m_assign P) (var l) \<and> vin (m_watches P) (litIdx l)"
  by (auto simp: static_ok_def wf_lit_def vin_def litIdx_def)

lemma wf_lit_pos: "wf_lit n l \<Longrightarrow> 0 < var l"
  by (simp add: wf_lit_def)

lemma Lit_of_sign: "Lit (var l) = (if sign l then neg_lit l else l)"
  "Lit (- var l) = (if sign l then l else neg_lit l)"
  by (cases l; auto simp: var_def sign_def neg_lit_def)+

lemma value_cases:
  assumes "trail_ok X P" "wf_lit (m_n P) l"
  shows "value_of P l = 2 \<and> vget (m_assign P) (var l) = 0 \<or> value_of P l = 1 \<and> l \<in> set (m_trail P) \<or>
    value_of P l = 0 \<and> neg_lit l \<in> set (m_trail P)"
proof -
  let ?a = "vget (m_assign P) (var l)"
  have "?a = 0 \<or> ?a = 1 \<and> Lit (var l) \<in> set (m_trail P) \<or> ?a = -1 \<and> Lit (- var l) \<in> set (m_trail P)"
    using assms by (auto simp: trail_ok_def wf_lit_def)
  then show ?thesis
    by (auto simp: value_of_def Let_def Lit_of_sign split: if_splits)
qed

lemma value_unassigned:
  assumes "trail_ok {} P" "wf_lit (m_n P) l"
  shows "value_of P l = 2 \<longleftrightarrow> var l \<notin> var ` set (m_trail P)"
proof -
  have r: "1 \<le> var l \<and> var l \<le> m_n P" using assms(2) by (simp add: wf_lit_def)
  have "var (Lit (var l)) = var l" "var (Lit (- var l)) = var l" by (simp_all add: var_def)
  then have "vget (m_assign P) (var l) \<noteq> 0 \<Longrightarrow> var l \<in> var ` set (m_trail P)"
    using assms(1) r unfolding trail_ok_def by (metis image_eqI)
  moreover have "var l \<in> var ` set (m_trail P) \<Longrightarrow> vget (m_assign P) (var l) \<noteq> 0"
    using assms(1) r unfolding trail_ok_def by blast
  ultimately show ?thesis by (auto simp: value_of_def Let_def)
qed

lemma new_watch_index:
  "value_of P l = 2 \<Longrightarrow> value_of P falseLit = 0 \<Longrightarrow> 0 < var l \<Longrightarrow> 0 < var falseLit \<Longrightarrow>
     litIdx l \<noteq> litIdx falseLit"
  by (auto simp: litIdx_def value_of_def Let_def split: if_splits) presburger+

section \<open>Enqueueing\<close>

lemma static_ok_enqueue: "static_ok P \<Longrightarrow> static_ok (uncheckedEnqueue l P)"
  by (simp add: static_ok_def uncheckedEnqueue_def Let_def)

lemma trail_uncheckedEnqueue [simp]: "m_trail (uncheckedEnqueue l P) = m_trail P @ [l]"
  "m_n (uncheckedEnqueue l P) = m_n P" "m_clauses (uncheckedEnqueue l P) = m_clauses P"
  "m_qhead (uncheckedEnqueue l P) = m_qhead P" "m_watches (uncheckedEnqueue l P) = m_watches P"
  by (simp_all add: uncheckedEnqueue_def Let_def)

lemma assign_uncheckedEnqueue:
  assumes "static_ok P" "wf_lit (m_n P) l" "1 \<le> v"
  shows "vget (m_assign (uncheckedEnqueue l P)) v =
    (if v = var l then (if sign l then -1 else 1) else vget (m_assign P) v)"
  using assms static_ok_vin [OF assms(1,2)] wf_lit_pos [OF assms(2)]
  by (simp add: uncheckedEnqueue_def Let_def vget_vset_same vget_vset_other)

lemma trail_ok_enqueue:
  assumes "static_ok P" "wf_lit (m_n P) l" "trail_ok X P" "X \<subseteq> {var l}"
  shows "trail_ok {} (uncheckedEnqueue l P)"
  unfolding trail_ok_def
proof (intro conjI ballI allI impI)
  fix k assume "k \<in> set (m_trail (uncheckedEnqueue l P))"
  with assms show "wf_lit (m_n (uncheckedEnqueue l P)) k" by (auto simp: trail_ok_def)
next
  fix v assume v: "1 \<le> v \<and> v \<le> m_n (uncheckedEnqueue l P)"
    and "v \<in> var ` set (m_trail (uncheckedEnqueue l P))"
  with assms show "vget (m_assign (uncheckedEnqueue l P)) v \<noteq> 0"
    by (auto simp: assign_uncheckedEnqueue [OF assms(1,2)] trail_ok_def)
next
  fix v assume v: "1 \<le> v \<and> v \<le> m_n (uncheckedEnqueue l P)"
  let ?a = "vget (m_assign (uncheckedEnqueue l P)) v" let ?t = "set (m_trail (uncheckedEnqueue l P))"
  have "Lit (var l) \<in> ?t \<or> sign l" "Lit (- var l) \<in> ?t \<or> \<not> sign l" by (auto simp: Lit_of_sign)
  then show "?a = 0 \<or> ?a = 1 \<and> Lit v \<in> ?t \<or> ?a = -1 \<and> Lit (- v) \<in> ?t"
    using v assms(3) by (auto simp: assign_uncheckedEnqueue [OF assms(1,2)] trail_ok_def)
qed

lemma pwf_enqueue: "pwf P \<Longrightarrow> wf_lit (m_n P) l \<Longrightarrow> pwf (uncheckedEnqueue l P)"
  using trail_ok_enqueue [of P l "{}"] by (simp add: pwf_def static_ok_enqueue)

section \<open>Sound extensions of the trail\<close>

text \<open>
  \<open>ext P Q\<close>: \<open>Q\<close> has the formula of \<open>P\<close> and a trail that extends the trail of \<open>P\<close> by literals on
  new, different variables, all of them implied by the formula and the trail of \<open>P\<close>.
\<close>

definition same_buffer :: "Propagator \<Rightarrow> Propagator \<Rightarrow> bool" where
  "same_buffer P Q \<longleftrightarrow> length (m_trail P) \<le> length (m_trail Q) \<and> m_buffer P \<le> m_buffer Q \<and>
     (length (m_trail Q) \<le> m_capacity P \<longrightarrow> m_buffer Q = m_buffer P \<and> m_capacity Q = m_capacity P)"

definition ext :: "Propagator \<Rightarrow> Propagator \<Rightarrow> bool" where
  "ext P Q \<longleftrightarrow> pwf Q \<and> m_n Q = m_n P \<and> m_clauses Q = m_clauses P \<and>
     fresh_ext var (m_trail P) (m_trail Q) \<and> same_buffer P Q \<and>
     (\<forall>m. models m (m_clauses P) \<longrightarrow> in_cube m (m_trail P) \<longrightarrow> in_cube m (m_trail Q))"

lemma ext_refl: "pwf P \<Longrightarrow> ext P P"
  by (simp add: ext_def fresh_ext_refl same_buffer_def)

lemma same_buffer_trans: "same_buffer P Q \<Longrightarrow> same_buffer Q R \<Longrightarrow> same_buffer P R"
  by (auto simp: same_buffer_def)

lemma ext_trans: "ext P Q \<Longrightarrow> ext Q R \<Longrightarrow> ext P R"
  by (auto simp: ext_def intro: fresh_ext_trans same_buffer_trans)

lemma same_buffer_enqueue: "same_buffer P (uncheckedEnqueue l P)"
  by (simp add: same_buffer_def uncheckedEnqueue_def Let_def)

lemma value_false_lit:
  "trail_ok {} P \<Longrightarrow> wf_lit (m_n P) l \<Longrightarrow> value_of P l = 0 \<Longrightarrow> in_cube m (m_trail P) \<Longrightarrow> \<not> lit_true m l"
  using value_cases [of "{}" P l] by (auto simp: truth_simps lit_true_neg wf_lit_pos)

lemma value_of_range: "value_of P l = 0 \<or> value_of P l = 1 \<or> value_of P l = 2"
  by (simp add: value_of_def Let_def)

text \<open>A scan that finds no true literal: the free literals and the two it remembers.\<close>

lemma scan_clause_unsat:
  "scan_clause P c free u w = (False, f', u', w') \<Longrightarrow>
     f' = free + length (filter (\<lambda>l. value_of P l = 2) c) \<and>
     u' = (if filter (\<lambda>l. value_of P l = 2) c = [] then u else last (filter (\<lambda>l. value_of P l = 2) c)) \<and>
     w' = (if free = 0 \<and> filter (\<lambda>l. value_of P l = 2) c \<noteq> []
           then hd (filter (\<lambda>l. value_of P l = 2) c) else w) \<and>
     (\<forall>l\<in>set c. value_of P l \<noteq> 1)"
proof (induction P c free u w rule: scan_clause.induct)
  case (2 P cl c free unit newW)
  consider "value_of P cl = 1" | "value_of P cl = 2" | "value_of P cl = 0"
    using value_of_range [of P cl] by auto
  then show ?case
    using "2.IH"(1) [OF refl] "2.IH"(2) [OF refl] "2.prems"
    by cases (auto simp: Let_def split: if_splits)
qed auto

lemma scan_conflict:
  assumes "scan_clause P c 0 u w = (False, 0, u', w')" "trail_ok {} P" "wf_clause (m_n P) c"
    and "in_cube m (m_trail P)"
  shows "\<not> clause_true (lit_true m) c"
proof -
  have "value_of P l = 0" if "l \<in> set c" for l
    using scan_clause_unsat [OF assms(1)] value_of_range [of P l] that by (auto simp: filter_empty_conv)
  then show ?thesis
    using assms value_false_lit wf_clauseD by (fastforce simp: truth_simps)
qed

lemma scan_unit:
  assumes sc: "scan_clause P c 0 u w = (False, Suc 0, u', w')" and ok: "trail_ok {} P"
    and wf: "wf_clause (m_n P) c"
  shows "u' \<in> set c \<and> value_of P u' = 2 \<and>
    (in_cube m (m_trail P) \<longrightarrow> clause_true (lit_true m) c \<longrightarrow> lit_true m u')"
proof -
  have "length (filter (\<lambda>l. value_of P l = 2) c) = Suc 0"
    using scan_clause_unsat [OF sc] by simp
  then obtain x where x: "filter (\<lambda>l. value_of P l = 2) c = [x]"
    by (auto simp: length_Suc_conv)
  then have u: "u' = x" "x \<in> set c" "value_of P x = 2"
    using scan_clause_unsat [OF sc] by (auto simp: filter_eq_Cons_iff)
  have "value_of P l = 0" if "l \<in> set c" "l \<noteq> x" for l
  proof -
    have "l \<notin> set (filter (\<lambda>l. value_of P l = 2) c)" using that x by simp
    with that(1) show ?thesis
      using scan_clause_unsat [OF sc] value_of_range [of P l] by auto
  qed
  then show ?thesis
    using u value_false_lit [OF ok wf_clauseD [OF wf]] by (auto simp: clause_true_iff)
qed

lemma scan_new_watch:
  assumes "scan_clause P c 0 u w = (False, Suc (Suc k), u', w')"
  shows "w' \<in> set c \<and> value_of P w' = 2"
proof -
  let ?f = "filter (\<lambda>l. value_of P l = 2) c"
  have "?f \<noteq> []" "w' = hd ?f" using scan_clause_unsat [OF assms] by (auto split: if_splits)
  then show ?thesis using hd_in_set [of ?f] by auto
qed

lemma pwf_push_watch:
  assumes "pwf P" "wf_lit (m_n P) l" "w < length (m_clauses P)"
  shows "pwf (P\<lparr>m_watches := push_watch l w (m_watches P)\<rparr>)"
proof -
  have i: "nat (litIdx l) < length (m_watches P)"
    using static_ok_vin [of P l] assms by (auto simp: pwf_def vin_def)
  have old: "\<forall>ws\<in>set (m_watches P). \<forall>x\<in>set ws. x < length (m_clauses P)"
    using assms(1) by (simp add: pwf_def static_ok_def)
  then have "\<forall>x\<in>set (m_watches P ! nat (litIdx l)). x < length (m_clauses P)"
    using nth_mem [OF i] by blast
  with old have "\<forall>ws\<in>set (push_watch l w (m_watches P)). \<forall>x\<in>set ws. x < length (m_clauses P)"
    using assms(3) unfolding push_watch_def vset_def vget_def
    by (auto dest!: set_update_subset_insert [THEN subsetD])
  then show ?thesis
    using assms by (auto simp: pwf_def static_ok_def trail_ok_def push_watch_def)
qed

lemma ext_enqueue:
  assumes "pwf P" "wf_lit (m_n P) l" "value_of P l = 2"
    and "\<And>m. models m (m_clauses P) \<Longrightarrow> in_cube m (m_trail P) \<Longrightarrow> lit_true m l"
  shows "ext P (uncheckedEnqueue l P)"
  using assms pwf_enqueue value_unassigned [of P l]
  by (auto simp: ext_def fresh_ext_def pwf_def same_buffer_enqueue intro!: exI [of _ "[l]"])

lemma clause_of_watch: "pwf P \<Longrightarrow> w < length (m_clauses P) \<Longrightarrow>
    m_clauses P ! w \<in> set (m_clauses P) \<and> wf_clause (m_n P) (m_clauses P ! w)"
  by (auto simp: pwf_def static_ok_def)

lemma visit_watches_ext:
  "visit_watches ws kept P = (ok, kept', P') \<Longrightarrow> pwf P \<Longrightarrow> \<forall>w\<in>set ws. w < length (m_clauses P) \<Longrightarrow>
     ext P P' \<and> m_qhead P' = m_qhead P \<and> set kept' \<subseteq> set kept \<union> set ws \<and>
     (\<not> ok \<longrightarrow> (\<forall>m. models m (m_clauses P) \<longrightarrow> \<not> in_cube m (m_trail P')))"
proof (induction ws kept P arbitrary: ok kept' P' rule: visit_watches.induct)
  case (1 kept P)
  then show ?case by (auto simp: ext_refl)
next
  case (2 w ws kept P)
  let ?c = "m_clauses P ! w"
  obtain sat free u nw where sc: "scan_clause P ?c 0 (Lit 0) (Lit 0) = (sat, free, u, nw)"
    using prod_cases4 by blast
  have c: "?c \<in> set (m_clauses P)" "wf_clause (m_n P) ?c" and tr: "trail_ok {} P"
    using clause_of_watch [OF "2.prems"(2)] "2.prems" by (auto simp: pwf_def)
  consider "sat" | "\<not> sat" "free = 0" | "\<not> sat" "free = Suc 0" | k where "\<not> sat" "free = Suc (Suc k)"
    by (metis not0_implies_Suc)
  then show ?case
  proof cases
    case 1
    then show ?thesis using "2.IH"(1) [OF sc [symmetric] refl refl] "2.prems" sc by auto
  next
    case 2
    then have "models m (m_clauses P) \<Longrightarrow> \<not> in_cube m (m_trail P)" for m
      using scan_conflict [OF _ tr c(2)] sc c(1) by (auto simp: cnf_true_iff)
    with 2 sc "2.prems" show ?thesis by (auto simp: ext_refl)
  next
    case 3
    then have "scan_clause P ?c 0 (Lit 0) (Lit 0) = (False, Suc 0, u, nw)" using sc by simp
    note u = scan_unit [OF this tr c(2)]
    let ?Q = "uncheckedEnqueue u P"
    have e: "ext P ?Q"
      using u c wf_clauseD [OF c(2)] "2.prems"(2) by (intro ext_enqueue) (auto simp: cnf_true_iff)
    have "visit_watches ws (kept @ [w]) ?Q = (ok, kept', P')" "pwf ?Q" "m_clauses ?Q = m_clauses P"
      using "2.prems"(1) sc 3 u e by (auto simp: ext_def)
    with "2.IH"(2) [OF sc [symmetric] refl refl] 3 u "2.prems"(3) e show ?thesis
      using ext_trans [OF e, of P'] by auto
  next
    case 4
    then have "scan_clause P ?c 0 (Lit 0) (Lit 0) = (False, Suc (Suc k), u, nw)" using sc by simp
    note nw = scan_new_watch [OF this]
    let ?Q = "P\<lparr>m_watches := push_watch nw w (m_watches P)\<rparr>"
    have q: "pwf ?Q" using pwf_push_watch "2.prems" nw wf_clauseD [OF c(2)] by auto
    then have "ext P ?Q" by (simp add: ext_def fresh_ext_refl same_buffer_def)
    then show ?thesis
      using "2.IH"(3) [OF sc [symmetric] refl refl] 4 "2.prems" sc q ext_trans [of P ?Q P'] by auto
  qed
qed

section \<open>Propagation returns and is sound\<close>

lemma pwf_store_watches:
  assumes "pwf P" "set kept \<subseteq> {w. w < length (m_clauses P)}"
  shows "pwf (P\<lparr>m_watches := vset (m_watches P) i kept\<rparr>)"
  using assms unfolding pwf_def static_ok_def trail_ok_def vset_def
  by (auto dest!: set_update_subset_insert [THEN subsetD])

lemma propagateLit_ext:
  assumes "propagateLit p P = (ok, P')" "pwf P" "wf_lit (m_n P) p"
  shows "ext P P' \<and> m_qhead P' = m_qhead P \<and>
    (\<not> ok \<longrightarrow> (\<forall>m. models m (m_clauses P) \<longrightarrow> \<not> in_cube m (m_trail P')))"
proof -
  let ?f = "makeLit (var p) (\<not> sign p)"
  obtain kept Q where v: "visit_watches (vget (m_watches P) (litIdx ?f)) [] P = (ok, kept, Q)"
    and P': "P' = Q\<lparr>m_watches := vset (m_watches Q) (litIdx ?f) kept\<rparr>"
    using assms(1) by (auto simp: propagateLit_def Let_def split: prod.splits)
  have "nat (litIdx ?f) < length (m_watches P)"
    using static_ok_vin [of P ?f] assms wf_lit_pos [OF assms(3)]
    by (auto simp: pwf_def vin_def makeLit_not)
  then have "vget (m_watches P) (litIdx ?f) \<in> set (m_watches P)" by (simp add: vget_def)
  then have ws: "\<forall>w\<in>set (vget (m_watches P) (litIdx ?f)). w < length (m_clauses P)"
    using assms(2) by (auto simp: pwf_def static_ok_def)
  note V = visit_watches_ext [OF v assms(2) ws]
  have "set kept \<subseteq> {w. w < length (m_clauses Q)}" using V ws by (auto simp: ext_def)
  then have "pwf P'" using V pwf_store_watches [of Q kept] by (simp add: P' ext_def)
  with V show ?thesis by (simp add: P' ext_def same_buffer_def)
qed

text \<open>The number of literals still to propagate plus the number of unassigned variables.\<close>

definition pending :: "Propagator \<Rightarrow> nat" where
  "pending P = (length (m_trail P) - m_qhead P) + card ({1..m_n P} - var ` set (m_trail P))"

lemma pwf_trail_range: "pwf P \<Longrightarrow> var ` set (m_trail P) \<subseteq> {1..m_n P}"
proof
  fix v assume "pwf P" "v \<in> var ` set (m_trail P)"
  then obtain l where "v = var l" "wf_lit (m_n P) l" by (auto simp: pwf_def trail_ok_def)
  then show "v \<in> {1..m_n P}" by (simp add: wf_lit_def)
qed

lemma ext_card:
  assumes "ext P Q"
  shows "length (m_trail Q) + card ({1..m_n P} - var ` set (m_trail Q)) =
    length (m_trail P) + card ({1..m_n P} - var ` set (m_trail P)) \<and> length (m_trail P) \<le> length (m_trail Q)"
  using fresh_ext_card [of var "m_trail P" "m_trail Q" "m_n P"] pwf_trail_range [of Q] assms
  by (simp add: ext_def)

lemma propagate_step:
  "m_qhead P < length (m_trail P) \<Longrightarrow>
     propagateLit (m_trail P ! m_qhead P) (P\<lparr>m_qhead := Suc (m_qhead P)\<rparr>) = (ok, Q) \<Longrightarrow>
     propagate P = (if ok then propagate Q else Some (False, Q\<lparr>m_unsat := True\<rparr>))"
  by (subst propagate.simps) simp

lemma propagate_done: "\<not> m_qhead P < length (m_trail P) \<Longrightarrow> propagate P = Some (True, P)"
  by (subst propagate.simps) simp

lemma pwf_qhead [simp]: "pwf (P\<lparr>m_qhead := q\<rparr>) = pwf P"
  by (simp add: pwf_def static_ok_def trail_ok_def)

lemma pwf_unsat [simp]: "pwf (P\<lparr>m_unsat := u\<rparr>) = pwf P"
  by (simp add: pwf_def static_ok_def trail_ok_def)

lemma ext_qhead [simp]: "ext (P\<lparr>m_qhead := q\<rparr>) Q = ext P Q"
  by (simp add: ext_def same_buffer_def)

lemma ext_unsat [simp]: "ext P (Q\<lparr>m_unsat := u\<rparr>) = ext P Q"
  by (simp add: ext_def same_buffer_def)

lemma visit_watches_unsat: "visit_watches ws kept P = (ok, kept', Q) \<Longrightarrow> m_unsat Q = m_unsat P"
proof (induction ws kept P rule: visit_watches.induct)
  case (2 w ws kept P)
  obtain sat free unit newW where s: "scan_clause P (m_clauses P ! w) 0 (Lit 0) (Lit 0) = (sat, free, unit, newW)"
    by (metis prod_cases4)
  show ?case
    using "2.prems" "2.IH" [OF s [symmetric]]
    by (auto simp: s uncheckedEnqueue_def Let_def split: if_splits)
qed simp

lemma propagateLit_unsat: "propagateLit p P = (ok, Q) \<Longrightarrow> m_unsat Q = m_unsat P"
  by (auto simp: propagateLit_def Let_def dest: visit_watches_unsat split: prod.splits)

lemma propagate_total:
  "pwf P \<Longrightarrow> \<exists>ok P'. propagate P = Some (ok, P') \<and> ext P P' \<and>
     (ok \<longrightarrow> length (m_trail P') \<le> m_qhead P' \<and> m_unsat P' = m_unsat P) \<and>
     (\<not> ok \<longrightarrow> (\<forall>m. models m (m_clauses P) \<longrightarrow> \<not> in_cube m (m_trail P)))"
proof (induction "pending P" arbitrary: P rule: less_induct)
  case less
  show ?case
  proof (cases "m_qhead P < length (m_trail P)")
    case False
    then show ?thesis using less.prems by (intro exI [of _ True]) (simp add: propagate_done ext_refl)
  next
    case True
    let ?p = "m_trail P ! m_qhead P" let ?P1 = "P\<lparr>m_qhead := Suc (m_qhead P)\<rparr>"
    obtain ok Q where pl: "propagateLit ?p ?P1 = (ok, Q)" by fastforce
    have "wf_lit (m_n P) ?p" using less.prems True by (auto simp: pwf_def trail_ok_def)
    then have Q: "ext P Q" "m_qhead Q = Suc (m_qhead P)"
        "\<not> ok \<longrightarrow> (\<forall>m. models m (m_clauses P) \<longrightarrow> \<not> in_cube m (m_trail Q))"
      using propagateLit_ext [OF pl] less.prems by auto
    show ?thesis
    proof (cases ok)
      case False
      then have "propagate P = Some (False, Q\<lparr>m_unsat := True\<rparr>)" using propagate_step [OF True pl] by simp
      moreover have "in_cube m (m_trail P) \<longrightarrow> in_cube m (m_trail Q)" if "models m (m_clauses P)" for m
        using Q(1) that by (simp add: ext_def)
      ultimately show ?thesis using Q False by (intro exI [of _ False] exI [of _ "Q\<lparr>m_unsat := True\<rparr>"]) auto
    next
      case ok: True
      have "m_n Q = m_n P" using Q(1) by (simp add: ext_def)
      then have "pending Q < pending P"
        using ext_card [OF Q(1)] Q(2) True by (simp add: pending_def)
      moreover have "pwf Q" using Q by (simp add: ext_def)
      ultimately obtain ok' R where R: "propagate Q = Some (ok', R)" "ext Q R"
          "ok' \<longrightarrow> length (m_trail R) \<le> m_qhead R \<and> m_unsat R = m_unsat Q"
          "\<not> ok' \<longrightarrow> (\<forall>m. models m (m_clauses Q) \<longrightarrow> \<not> in_cube m (m_trail Q))"
        using less.hyps by blast
      have "propagate P = Some (ok', R)" using propagate_step [OF True pl] ok R(1) by simp
      moreover have "m_clauses Q = m_clauses P" "in_cube m (m_trail P) \<longrightarrow> in_cube m (m_trail Q)"
        if "models m (m_clauses P)" for m
        using Q(1) that by (simp_all add: ext_def)
      moreover have "m_clauses Q = m_clauses P" "m_unsat Q = m_unsat P"
        using Q(1) propagateLit_unsat [OF pl] by (simp_all add: ext_def)
      ultimately show ?thesis
        using R(3,4) ext_trans [OF Q(1) R(2)] by (intro exI [of _ ok'] exI [of _ R]) auto
    qed
  qed
qed

section \<open>Backtracking and restarting\<close>

text \<open>Backtracking to a prefix of the trail unassigns exactly the variables of the removed part.\<close>

lemma cancel_loop_spec:
  "static_ok P \<Longrightarrow> \<forall>l\<in>set rest. wf_lit (m_n P) l \<Longrightarrow> m_trail P = base @ rest \<Longrightarrow>
     \<exists>a. cancel_loop (length base) P = P\<lparr>m_assign := a, m_trail := base\<rparr> \<and> length a = length (m_assign P) \<and>
       (\<forall>v. 1 \<le> v \<longrightarrow> vget a v = (if v \<in> var ` set rest then 0 else vget (m_assign P) v))"
proof (induction rest arbitrary: P rule: rev_induct)
  case Nil
  then show ?case
    by (subst cancel_loop.simps) (auto intro!: exI [of _ "m_assign P"])
next
  case (snoc l rest)
  let ?Q = "P\<lparr>m_assign := vset (m_assign P) (var l) 0, m_trail := base @ rest\<rparr>"
  have "cancel_loop (length base) P = cancel_loop (length base) ?Q"
    using snoc.prems(3) by (subst cancel_loop.simps) (simp add: butlast_append flip: append_assoc)
  moreover have "static_ok ?Q" using snoc.prems(1) by (simp add: static_ok_def)
  moreover have "vget (vset (m_assign P) (var l) 0) v = (if v = var l then 0 else vget (m_assign P) v)"
    if "1 \<le> v" for v
    using that snoc.prems static_ok_vin [of P l] wf_lit_pos [of "m_n P" l]
    by (auto simp: vget_vset_same vget_vset_other)
  ultimately show ?case using snoc.IH [of ?Q] snoc.prems(2) by auto
qed

lemma cancelUntilPos_spec:
  assumes "pwf P" "m_trail P = base @ rest"
  shows "\<exists>a q. cancelUntilPos (length base) P =
      P\<lparr>m_assign := a, m_trail := base, m_qhead := q, m_unsat := False\<rparr> \<and>
    q \<le> length base \<and> q \<le> m_qhead P \<and> length a = length (m_assign P) \<and>
    (\<forall>v. 1 \<le> v \<longrightarrow> vget a v = (if v \<in> var ` set rest then 0 else vget (m_assign P) v))"
proof -
  have "static_ok P" "\<forall>l\<in>set rest. wf_lit (m_n P) l"
    using assms by (auto simp: pwf_def trail_ok_def)
  from cancel_loop_spec [OF this assms(2)] obtain a
    where "cancel_loop (length base) P = P\<lparr>m_assign := a, m_trail := base\<rparr>" "length a = length (m_assign P)"
      "\<forall>v. 1 \<le> v \<longrightarrow> vget a v = (if v \<in> var ` set rest then 0 else vget (m_assign P) v)"
    by blast
  then show ?thesis
    by (intro exI [of _ a] exI [of _ "min (length base) (m_qhead P)"])
      (auto simp: cancelUntilPos_def Let_def)
qed

lemma cancelUntilPos_ok:
  assumes P: "pwf P" and t: "m_trail P = base @ rest"
    and X: "var ` set rest \<inter> var ` set base \<subseteq> X"
  shows "static_ok (cancelUntilPos (length base) P)" "trail_ok X (cancelUntilPos (length base) P)"
    "m_trail (cancelUntilPos (length base) P) = base" "m_n (cancelUntilPos (length base) P) = m_n P"
    "m_clauses (cancelUntilPos (length base) P) = m_clauses P"
    "\<not> m_unsat (cancelUntilPos (length base) P)"
proof -
  let ?Q = "cancelUntilPos (length base) P"
  obtain a q where Q: "?Q = P\<lparr>m_assign := a, m_trail := base, m_qhead := q, m_unsat := False\<rparr>"
    and a: "length a = length (m_assign P)"
      "\<And>v. 1 \<le> v \<Longrightarrow> vget a v = (if v \<in> var ` set rest then 0 else vget (m_assign P) v)"
    using cancelUntilPos_spec [OF P t] by blast
  show "static_ok ?Q" using P a(1) by (simp add: Q pwf_def static_ok_def)
  show "m_trail ?Q = base" "m_n ?Q = m_n P" "m_clauses ?Q = m_clauses P" "\<not> m_unsat ?Q"
    by (simp_all add: Q)
  have tr: "trail_ok {} P" using P by (simp add: pwf_def)
  have gone: "Lit v \<in> set rest \<Longrightarrow> 1 \<le> v \<Longrightarrow> v \<in> var ` set rest"
    "Lit (- v) \<in> set rest \<Longrightarrow> 1 \<le> v \<Longrightarrow> v \<in> var ` set rest" for v
    by (force simp: var_def)+
  show "trail_ok X ?Q"
    unfolding trail_ok_def
  proof (intro conjI ballI allI impI)
    fix l assume "l \<in> set (m_trail ?Q)"
    then show "wf_lit (m_n ?Q) l" using tr t by (auto simp: Q trail_ok_def)
  next
    fix v assume "1 \<le> v \<and> v \<le> m_n ?Q" "v \<notin> X" "v \<in> var ` set (m_trail ?Q)"
    then show "vget (m_assign ?Q) v \<noteq> 0" using tr t X a(2) by (auto simp: Q trail_ok_def)
  next
    fix v assume v: "1 \<le> v \<and> v \<le> m_n ?Q"
    let ?a = "vget (m_assign P) v"
    have "?a = 0 \<or> ?a = 1 \<and> Lit v \<in> set (base @ rest) \<or> ?a = -1 \<and> Lit (- v) \<in> set (base @ rest)"
      using tr t v by (simp add: Q trail_ok_def)
    then show "vget (m_assign ?Q) v = 0 \<or> vget (m_assign ?Q) v = 1 \<and> Lit v \<in> set (m_trail ?Q) \<or>
        vget (m_assign ?Q) v = -1 \<and> Lit (- v) \<in> set (m_trail ?Q)"
      using a(2) [of v] v gone by (auto simp: Q)
  qed
qed

lemma unassign_all:
  "static_ok P \<Longrightarrow> \<forall>l\<in>set ls. wf_lit (m_n P) l \<Longrightarrow> length a = length (m_assign P) \<Longrightarrow> 1 \<le> v \<Longrightarrow>
     length (fold (\<lambda>l a. vset a (var l) 0) ls a) = length a \<and>
     vget (fold (\<lambda>l a. vset a (var l) 0) ls a) v = (if v \<in> var ` set ls then 0 else vget a v)"
proof -
  assume "static_ok P" "\<forall>l\<in>set ls. wf_lit (m_n P) l" "length a = length (m_assign P)" "1 \<le> v"
  then have "\<forall>l\<in>set ls. vin a (var l)" using static_ok_vin [of P] by (auto simp: vin_def)
  then show ?thesis using \<open>1 \<le> v\<close> by (simp add: length_fold_vset vget_fold_vset)
qed

lemma restart_ok:
  assumes "pwf P"
  shows "pwf (restart P)" "m_trail (restart P) = []" "m_n (restart P) = m_n P"
    "m_clauses (restart P) = m_clauses P" "\<not> m_unsat (restart P)" "m_qhead (restart P) = 0"
proof -
  show "m_trail (restart P) = []" "m_n (restart P) = m_n P" "m_clauses (restart P) = m_clauses P"
    "\<not> m_unsat (restart P)" "m_qhead (restart P) = 0"
    by (simp_all add: restart_def)
  have st: "static_ok P" and tr: "trail_ok {} P" using assms by (auto simp: pwf_def)
  note U = unassign_all [OF st _ refl, of "m_trail P"]
  have l: "length (m_assign (restart P)) = length (m_assign P)"
    using U [of 1] tr by (simp add: restart_def trail_ok_def)
  have "vget (m_assign (restart P)) v = 0" if v: "1 \<le> v" "v \<le> m_n P" for v
  proof -
    have "v \<notin> var ` set (m_trail P) \<Longrightarrow> vget (m_assign P) v = 0"
      using tr v by (force simp: trail_ok_def var_def)
    then show ?thesis using U [of v] tr v by (auto simp: restart_def trail_ok_def)
  qed
  then show "pwf (restart P)"
    using st l by (auto simp: pwf_def static_ok_def trail_ok_def restart_def)
qed

section \<open>The constructor\<close>

lemma push_watch_bound:
  "\<forall>w\<in>set ws. \<forall>x\<in>set w. x < k \<Longrightarrow> ci < k \<Longrightarrow> \<forall>w\<in>set (push_watch l ci ws). \<forall>x\<in>set w. x < k"
proof (cases "nat (litIdx l) < length ws")
  case True
  assume b: "\<forall>w\<in>set ws. \<forall>x\<in>set w. x < k" "ci < k"
  then have "\<forall>x\<in>set (ws ! nat (litIdx l)). x < k" using nth_mem [OF True] by blast
  with b show ?thesis
    unfolding push_watch_def vset_def vget_def by (auto dest!: set_update_subset_insert [THEN subsetD])
qed (simp add: push_watch_def vset_def list_update_beyond)

lemma length_push_watch [simp]: "length (push_watch l ci ws) = length ws"
  by (simp add: push_watch_def)

lemma buildWatches_ok:
  "\<forall>w\<in>set ws. \<forall>x\<in>set w. x < k \<Longrightarrow> ci + length cs \<le> k \<Longrightarrow>
     length (buildWatches cs ci ws) = length ws \<and> (\<forall>w\<in>set (buildWatches cs ci ws). \<forall>x\<in>set w. x < k)"
proof (induction cs ci ws rule: buildWatches.induct)
  case (2 c cs ci ws)
  define ws1 where "ws1 = (if 1 \<le> length c then push_watch (c ! 0) ci ws else ws)"
  define ws2 where "ws2 = (if 2 \<le> length c then push_watch (c ! 1) ci ws1 else ws1)"
  have "\<forall>w\<in>set ws1. \<forall>x\<in>set w. x < k" "length ws1 = length ws"
    using "2.prems" push_watch_bound [of ws k ci] by (auto simp: ws1_def)
  then have "\<forall>w\<in>set ws2. \<forall>x\<in>set w. x < k" "length ws2 = length ws"
    using "2.prems" push_watch_bound [of ws1 k ci] by (auto simp: ws2_def)
  moreover have "buildWatches (c # cs) ci ws = buildWatches cs (Suc ci) ws2"
    by (simp add: Let_def ws1_def ws2_def)
  ultimately show ?case
    using "2.IH" [OF ws1_def ws2_def] "2.prems"(2) by simp
qed simp

lemma mkPropagator_ok:
  assumes "wf_formula f"
  shows "pwf (mkPropagator cap0 (nbVar f) (clauses f))"
proof -
  have "vget (replicate (nat (nbVar f + 1)) 0) v = (0::int)" if "1 \<le> v" "v \<le> nbVar f" for v
    by (rule vget_replicate) (use that in simp_all)
  then show ?thesis
    using assms buildWatches_ok [of "replicate (nat (2 * (nbVar f + 1))) []" "length (clauses f)" 0 "clauses f"]
    by (auto simp: pwf_def static_ok_def trail_ok_def mkPropagator_def wf_formula_def list_all_iff)
qed

lemma mkPropagator_simps [simp]:
  "m_trail (mkPropagator cap0 n cs) = []" "m_n (mkPropagator cap0 n cs) = n" "m_clauses (mkPropagator cap0 n cs) = cs"
  "m_qhead (mkPropagator cap0 n cs) = 0" "m_unsat (mkPropagator cap0 n cs) = False"
  by (simp_all add: mkPropagator_def)

section \<open>The interface\<close>

interpretation cli_prop: unit_propagator
  pwf m_trail m_clauses m_n var lit_true uncheckedEnqueue propagate cancelUntilPos
proof unfold_locales
  fix P :: Propagator and l :: Lit
  assume P: "pwf P"
  show "l \<in> set (m_trail P) \<Longrightarrow> 0 < var l \<and> var l \<le> m_n P"
    using P by (auto simp: pwf_def trail_ok_def wf_lit_def)
  show "0 < var l \<Longrightarrow> var l \<le> m_n P \<Longrightarrow> pwf (uncheckedEnqueue l P) \<and>
      m_trail (uncheckedEnqueue l P) = m_trail P @ [l] \<and>
      m_clauses (uncheckedEnqueue l P) = m_clauses P \<and> m_n (uncheckedEnqueue l P) = m_n P"
    using P by (simp add: pwf_enqueue wf_lit_def)
  show "\<exists>ok Q new. propagate P = Some (ok, Q) \<and> pwf Q \<and> m_clauses Q = m_clauses P \<and> m_n Q = m_n P \<and>
      m_trail Q = m_trail P @ new \<and> distinct (map var new) \<and> var ` set new \<inter> var ` set (m_trail P) = {} \<and>
      (\<forall>m. models m (m_clauses P) \<longrightarrow> in_cube m (m_trail P) \<longrightarrow> ok \<and> in_cube m (m_trail Q))"
    using propagate_total [OF P] unfolding ext_def fresh_ext_def by metis
next
  fix P :: Propagator and l :: Lit and base rest
  assume P: "pwf P" and t: "m_trail P = base @ rest" "var ` set rest \<inter> var ` set base \<subseteq> {var l}"
    and l: "0 < var l" "var l \<le> m_n P"
  note c = cancelUntilPos_ok [OF P t]
  have "pwf (uncheckedEnqueue l (cancelUntilPos (length base) P))"
    using trail_ok_enqueue [OF c(1) _ c(2)] static_ok_enqueue [OF c(1)] c(4) l
    by (simp add: pwf_def wf_lit_def)
  then show "pwf (uncheckedEnqueue l (cancelUntilPos (length base) P)) \<and>
      m_trail (uncheckedEnqueue l (cancelUntilPos (length base) P)) = base @ [l] \<and>
      m_clauses (uncheckedEnqueue l (cancelUntilPos (length base) P)) = m_clauses P \<and>
      m_n (uncheckedEnqueue l (cancelUntilPos (length base) P)) = m_n P"
    using c by simp
qed

section \<open>Properties\<close>

text \<open>C8: on a well-formed propagator, \<open>propagate\<close> returns. It appends to the trail literals on new,
  different variables that the formula and the trail imply, keeps the invariant, visits the whole trail
  when it succeeds, and fails only if the formula has no model in the trail.\<close>

theorem propagate_correct:
  assumes "pwf P"
  shows "\<exists>ok Q new. propagate P = Some (ok, Q) \<and> pwf Q \<and> m_trail Q = m_trail P @ new \<and>
    distinct (map var new) \<and> var ` set new \<inter> var ` set (m_trail P) = {} \<and>
    (\<forall>m. models m (m_clauses P) \<and> in_cube m (m_trail P) \<longrightarrow> ok \<and> in_cube m new) \<and>
    (ok \<longrightarrow> length (m_trail Q) \<le> m_qhead Q \<and> m_unsat Q = m_unsat P)"
proof -
  obtain ok Q where Q: "propagate P = Some (ok, Q)" "ext P Q"
      "ok \<longrightarrow> length (m_trail Q) \<le> m_qhead Q \<and> m_unsat Q = m_unsat P"
      "\<not> ok \<longrightarrow> (\<forall>m. models m (m_clauses P) \<longrightarrow> \<not> in_cube m (m_trail P))"
    using propagate_total [OF assms] by blast
  obtain new where "m_trail Q = m_trail P @ new" "distinct (map var new)"
      "var ` set new \<inter> var ` set (m_trail P) = {}"
    using Q(2) by (auto simp: ext_def fresh_ext_def)
  with Q show ?thesis by (auto simp: ext_def)
qed

definition demo_propagator :: Propagator where
  "demo_propagator = mkPropagator 8 3 [[Lit 1, Lit 2], [Lit (-1), Lit 3]]"

lemma demo_pwf: "pwf demo_propagator"
proof -
  let ?f = "\<lparr>nbVar = 3, clauses = [[Lit 1, Lit 2], [Lit (-1), Lit 3]]\<rparr>"
  have "wf_formula ?f" by (simp add: wf_formula_def wf_clause_def wf_lit_def var_def INT_MAX_def)
  from mkPropagator_ok [OF this, of 8] show ?thesis by (simp add: demo_propagator_def)
qed

lemma propagate_correct_witness:
  "\<exists>ok Q new. propagate (uncheckedEnqueue (Lit 1) demo_propagator) = Some (ok, Q) \<and> pwf Q \<and>
    m_trail Q = [Lit 1] @ new \<and> distinct (map var new)"
proof -
  have "pwf (uncheckedEnqueue (Lit 1) demo_propagator)"
    by (rule pwf_enqueue [OF demo_pwf]) (simp add: demo_propagator_def wf_lit_def var_def)
  from propagate_correct [OF this] show ?thesis by (auto simp: demo_propagator_def)
qed

text \<open>C9: backtracking to a prefix of the trail keeps the invariant and the watches usable: the prefix is
  the trail again, exactly its variables are assigned, and nothing is left to be propagated twice.\<close>

theorem backtrack_correct:
  assumes "pwf P" "m_trail P = base @ rest" "var ` set rest \<inter> var ` set base = {}"
  shows "pwf (cancelUntilPos (length base) P) \<and> m_trail (cancelUntilPos (length base) P) = base \<and>
    m_qhead (cancelUntilPos (length base) P) = min (length base) (m_qhead P) \<and>
    (\<forall>l. wf_lit (m_n P) l \<longrightarrow>
      (value_of (cancelUntilPos (length base) P) l = 2 \<longleftrightarrow> var l \<notin> var ` set base))"
proof -
  let ?Q = "cancelUntilPos (length base) P"
  note c = cancelUntilPos_ok [OF assms(1,2), of "{}"]
  have Q: "pwf ?Q" "m_trail ?Q = base" "m_n ?Q = m_n P" using c assms(3) by (simp_all add: pwf_def)
  have "value_of ?Q l = 2 \<longleftrightarrow> var l \<notin> var ` set base" if "wf_lit (m_n P) l" for l
    using value_unassigned [of ?Q l] Q that by (simp add: pwf_def)
  moreover have "m_qhead ?Q = min (length base) (m_qhead P)"
    using cancel_loop_spec [of P rest base] assms(1,2)
    by (auto simp: cancelUntilPos_def Let_def pwf_def trail_ok_def)
  ultimately show ?thesis using Q by simp
qed

lemma backtrack_correct_witness:
  "pwf (cancelUntilPos (length []) (uncheckedEnqueue (Lit 1) demo_propagator)) \<and>
    m_trail (cancelUntilPos (length []) (uncheckedEnqueue (Lit 1) demo_propagator)) = []"
proof -
  have "pwf (uncheckedEnqueue (Lit 1) demo_propagator)"
    by (rule pwf_enqueue [OF demo_pwf]) (simp add: demo_propagator_def wf_lit_def var_def)
  from backtrack_correct [OF this, of "[]" "[Lit 1]"] show ?thesis by (simp add: demo_propagator_def)
qed

end
