(* ===== verification/Heuristic_Spec.thy ===== *)
theory Heuristic_Spec
  imports HS_Prelude
begin

text \<open>
  The branching-heuristic interface (\<open>BranchingCubeHeuristic::next\<close> of both generators): for the
  literals of a usable cube it returns a variable of the formula that the cube does not mention, or
  \<open>var_Undef\<close> (-1) when the cube mentions every variable, and it leaves the heuristic usable.
\<close>

locale branching_heuristic =
  fixes inv :: "'h \<Rightarrow> bool" and nb :: "'h \<Rightarrow> int" and lvar :: "'l \<Rightarrow> int"
    and usable :: "'l list \<Rightarrow> bool" and next_var :: "'h \<Rightarrow> 'l list \<Rightarrow> int \<times> 'h"
  assumes next_law: "inv h \<Longrightarrow> usable ls \<Longrightarrow> \<forall>l\<in>set ls. 0 < lvar l \<and> lvar l \<le> nb h \<Longrightarrow> next_var h ls = (v, h') \<Longrightarrow>
      inv h' \<and> nb h' = nb h \<and>
      (v = -1 \<and> {1..nb h} \<subseteq> lvar ` set ls \<or> 1 \<le> v \<and> v \<le> nb h \<and> v \<notin> lvar ` set ls)"
begin

text \<open>Any trail that contains the cube and the chosen variable leaves fewer variables open.\<close>

lemma next_progress:
  assumes "inv h" "usable ls" "\<forall>l\<in>set ls. 0 < lvar l \<and> lvar l \<le> nb h" "next_var h ls = (v, h')" "v \<noteq> -1"
    and "insert v (lvar ` set ls) \<subseteq> lvar ` set t"
  shows "card ({1..nb h} - lvar ` set t) < card ({1..nb h} - lvar ` set ls)"
proof -
  have v: "1 \<le> v" "v \<le> nb h" "v \<notin> lvar ` set ls" using next_law [OF assms(1-4)] assms(5) by auto
  then have "{1..nb h} - lvar ` set t \<subset> {1..nb h} - lvar ` set ls" using assms(6) by auto
  then show ?thesis by (rule psubset_card_mono [rotated]) simp
qed

end

end
