(* ===== verification/Cli_Heuristics.thy ===== *)
theory Cli_Heuristics
  imports Cli_Types Heuristic_Spec
begin

text \<open>
  The heuristics of \<open>cube_gen_cli.cpp\<close>: the partial orders \<open>PartialOrderHeuristicNone\<close> and
  \<open>PartialOrderHeuristicMinDegree\<close> (greedy min-degree elimination with fill-in on the primal graph)
  and the branching heuristic \<open>JWTSBranchingCubeHeuristic\<close>.

  A \<open>std::set<int>\<close> is a strictly increasing list. \<open>std::max_element\<close> on an empty range is
  dereferenced by the code, which is undefined; here it is \<open>None\<close>, and so is a constructor that
  reaches it (no variable, or a negative count, whose vector cannot be built).
\<close>

section \<open>Partial orders\<close>

datatype PartialOrderHeuristic =
  PartialOrderHeuristicNone
| PartialOrderHeuristicMinDegree (m_level: "double list")

fun getLevel :: "PartialOrderHeuristic \<Rightarrow> Var \<Rightarrow> double" where
  "getLevel PartialOrderHeuristicNone v = done1"
| "getLevel (PartialOrderHeuristicMinDegree level) v =
     (if 0 < v \<and> v < int (length level) then vget level v else done1)"

type_synonym graph = "int list list"

fun oset_insert :: "int \<Rightarrow> int list \<Rightarrow> int list" where
  "oset_insert x [] = [x]"
| "oset_insert x (y # ys) = (if x < y then x # y # ys else if x = y then y # ys else y # oset_insert x ys)"

definition connect :: "int \<Rightarrow> int \<Rightarrow> graph \<Rightarrow> graph" where
  "connect u v adj =
     (let a = vset adj u (oset_insert v (vget adj u)) in vset a v (oset_insert u (vget a v)))"

fun clause_edges :: "Lit list \<Rightarrow> graph \<Rightarrow> graph" where
  "clause_edges [] adj = adj"
| "clause_edges (l # c) adj =
     clause_edges c (fold (\<lambda>k a. if var l \<noteq> var k then connect (var l) (var k) a else a) c adj)"

definition primal_graph :: "Formula \<Rightarrow> graph" where
  "primal_graph f = fold clause_edges (clauses f) (replicate (nat (nbVar f + 1)) [])"

record MinDegree =
  md_level :: "double list"
  md_elim :: "bool list"
  md_adj :: graph

definition degree :: "bool list \<Rightarrow> graph \<Rightarrow> Var \<Rightarrow> int" where
  "degree elim adj v = int (length (filter (\<lambda>u. \<not> vget elim u) (vget adj v)))"

definition consider_degree :: "bool list \<Rightarrow> graph \<Rightarrow> Var \<Rightarrow> Var \<times> int \<Rightarrow> Var \<times> int" where
  "consider_degree elim adj v best =
     (if vget elim v then best
      else if degree elim adj v < snd best then (v, degree elim adj v) else best)"

definition select_min :: "int \<Rightarrow> bool list \<Rightarrow> graph \<Rightarrow> Var" where
  "select_min n elim adj = fst (fold (consider_degree elim adj) [1..n] (-1, INT_MAX))"

fun fill_in :: "int list \<Rightarrow> graph \<Rightarrow> graph" where
  "fill_in [] adj = adj"
| "fill_in (u # us) adj = fill_in us (fold (connect u) us adj)"

definition eliminate :: "int \<Rightarrow> int \<Rightarrow> Var \<Rightarrow> MinDegree \<Rightarrow> MinDegree" where
  "eliminate n step best s =
     (let level = vset (md_level s) best (dbl_of_int (n - step + 1));
          elim = vset (md_elim s) best True;
          nbrs = filter (\<lambda>u. \<not> vget elim u) (vget (md_adj s) best)
      in \<lparr>md_level = level, md_elim = elim, md_adj = fill_in nbrs (md_adj s)\<rparr>)"

fun elimination :: "int \<Rightarrow> int list \<Rightarrow> MinDegree \<Rightarrow> MinDegree" where
  "elimination n [] s = s"
| "elimination n (step # steps) s =
     (let best = select_min n (md_elim s) (md_adj s)
      in if best < 0 then s else elimination n steps (eliminate n step best s))"

fun max_element :: "double list \<Rightarrow> double option" where
  "max_element [] = None"
| "max_element (x # xs) = Some (fold (\<lambda>y m. if dless m y then y else m) xs x)"

definition normalize_level :: "int \<Rightarrow> double \<Rightarrow> double \<Rightarrow> double" where
  "normalize_level n mx x = dadd (dmul (ddiv x mx) (dbl_of_int n)) done1"

definition md_start :: "Formula \<Rightarrow> MinDegree" where
  "md_start f = \<lparr>md_level = replicate (nat (nbVar f + 1)) done1,
     md_elim = replicate (nat (nbVar f + 1)) False, md_adj = primal_graph f\<rparr>"

definition mkMinDegree :: "Formula \<Rightarrow> PartialOrderHeuristic option" where
  "mkMinDegree f =
     (let n = nbVar f; level = md_level (elimination n [1..n] (md_start f))
      in case max_element (tl level) of
           None \<Rightarrow> None
         | Some mx \<Rightarrow>
             Some (PartialOrderHeuristicMinDegree
               (if dless dzero mx
                then fold (\<lambda>v a. vset a v (normalize_level n mx (vget a v))) [1..n] level else level)))"

definition make_partial_order :: "Formula \<Rightarrow> bool \<Rightarrow> PartialOrderHeuristic option" where
  "make_partial_order f minDeg =
     (if minDeg then mkMinDegree f else Some PartialOrderHeuristicNone)"

section \<open>The branching heuristic\<close>

record JWTSBranchingCubeHeuristic =
  m_nbVars :: int
  m_jwts :: "double list"
  m_marked :: "bool list"

text \<open>Every literal of a clause adds \<open>2 ^ -|c|\<close> to the score of its variable.\<close>

definition clause_scores :: "Lit list \<Rightarrow> double list \<Rightarrow> double list" where
  "clause_scores c js =
     fold (\<lambda>l a. vset a (var l) (dadd (vget a (var l)) (pow2_neg (length c)))) c js"

definition jwts_scores :: "Formula \<Rightarrow> double list" where
  "jwts_scores f = fold clause_scores (clauses f) (replicate (nat (nbVar f + 1)) dzero)"

definition mkJWTS :: "Formula \<Rightarrow> JWTSBranchingCubeHeuristic" where
  "mkJWTS f = \<lparr>m_nbVars = nbVar f, m_jwts = jwts_scores f,
     m_marked = replicate (nat (nbVar f + 1)) False\<rparr>"

definition score :: "JWTSBranchingCubeHeuristic \<Rightarrow> PartialOrderHeuristic option \<Rightarrow> Var \<Rightarrow> double" where
  "score h po v =
     dmul (vget (m_jwts h) v) (case po of None \<Rightarrow> done1 | Some p \<Rightarrow> getLevel p v)"

definition mark_all :: "bool \<Rightarrow> Lit list \<Rightarrow> bool list \<Rightarrow> bool list" where
  "mark_all b ls marked = fold (\<lambda>l a. vset a (var l) b) ls marked"

definition consider_var :: "(Var \<Rightarrow> double) \<Rightarrow> bool list \<Rightarrow> Var \<Rightarrow> Var \<times> double \<Rightarrow> Var \<times> double" where
  "consider_var sc marked v best =
     (if vget marked v then best else if dless (snd best) (sc v) then (v, sc v) else best)"

definition best_unmarked :: "JWTSBranchingCubeHeuristic \<Rightarrow> PartialOrderHeuristic option \<Rightarrow> bool list \<Rightarrow> Var" where
  "best_unmarked h po marked =
     fst (fold (consider_var (score h po) marked) [1..m_nbVars h] (var_Undef, dminus1))"

definition next_var :: "PartialOrderHeuristic option \<Rightarrow> JWTSBranchingCubeHeuristic \<Rightarrow> Lit list \<Rightarrow>
    Var \<times> JWTSBranchingCubeHeuristic" where
  "next_var po h ls =
     (let marked = mark_all True ls (m_marked h);
          best = best_unmarked h po marked
      in (best, h\<lparr>m_marked := mark_all False ls marked\<rparr>))"

section \<open>Scores and levels are not negative\<close>

definition po_nonneg :: "PartialOrderHeuristic option \<Rightarrow> bool" where
  "po_nonneg po \<longleftrightarrow> (\<forall>p v. po = Some p \<longrightarrow> dnonneg (getLevel p v))"

definition jwts_ok :: "JWTSBranchingCubeHeuristic \<Rightarrow> bool" where
  "jwts_ok h \<longleftrightarrow> 1 \<le> m_nbVars h \<and> length (m_jwts h) = nat (m_nbVars h + 1) \<and>
     list_all dnonneg (m_jwts h) \<and> m_marked h = replicate (nat (m_nbVars h + 1)) False"

lemma getLevel_nonneg: "list_all dnonneg level \<Longrightarrow> dnonneg (getLevel (PartialOrderHeuristicMinDegree level) v)"
  using list_all_vget [of dnonneg level v] by (simp add: vin_def done1_nonneg)

lemma score_nonneg:
  "jwts_ok h \<Longrightarrow> po_nonneg po \<Longrightarrow> 1 \<le> v \<Longrightarrow> v \<le> m_nbVars h \<Longrightarrow> dnonneg (score h po v)"
  unfolding score_def jwts_ok_def po_nonneg_def
  using list_all_vget [of dnonneg "m_jwts h" v]
  by (intro dmul_nonneg) (auto simp: vin_def intro: done1_nonneg split: option.split)

lemma clause_scores_ok:
  "wf_clause n c \<Longrightarrow> list_all dnonneg js \<Longrightarrow> length js = nat (n + 1) \<Longrightarrow>
     list_all dnonneg (clause_scores c js) \<and> length (clause_scores c js) = length js"
  unfolding clause_scores_def
proof -
  have "list_all (wf_lit n) ls \<Longrightarrow> list_all dnonneg js \<Longrightarrow> length js = nat (n + 1) \<Longrightarrow>
      list_all dnonneg (fold (\<lambda>l a. vset a (var l) (dadd (vget a (var l)) (pow2_neg k))) ls js) \<and>
      length (fold (\<lambda>l a. vset a (var l) (dadd (vget a (var l)) (pow2_neg k))) ls js) = length js" for ls js k
  proof (induction ls arbitrary: js)
    case (Cons l ls)
    then have "vin js (var l)" by (auto simp: wf_lit_def vin_def)
    with Cons show ?case by (simp add: list_all_vset list_all_vget nonneg_intros)
  qed simp
  then show "wf_clause n c \<Longrightarrow> list_all dnonneg js \<Longrightarrow> length js = nat (n + 1) \<Longrightarrow>
     list_all dnonneg (fold (\<lambda>l a. vset a (var l) (dadd (vget a (var l)) (pow2_neg (length c)))) c js) \<and>
     length (fold (\<lambda>l a. vset a (var l) (dadd (vget a (var l)) (pow2_neg (length c)))) c js) = length js"
    by (simp add: wf_clause_def)
qed

lemma jwts_scores_ok:
  assumes "wf_formula f"
  shows "list_all dnonneg (jwts_scores f) \<and> length (jwts_scores f) = nat (nbVar f + 1)"
proof -
  have "list_all (wf_clause n) cs \<Longrightarrow> list_all dnonneg js \<Longrightarrow> length js = nat (n + 1) \<Longrightarrow>
      list_all dnonneg (fold clause_scores cs js) \<and> length (fold clause_scores cs js) = length js" for n cs js
  proof (induction cs arbitrary: js)
    case (Cons c cs)
    then show ?case using clause_scores_ok [of n c js] by simp
  qed simp
  from this [of "nbVar f" "clauses f" "replicate (nat (nbVar f + 1)) dzero"] show ?thesis
    using assms dzero_nonneg by (simp add: jwts_scores_def wf_formula_def list_all_iff)
qed

lemma mkJWTS_ok: "wf_formula f \<Longrightarrow> jwts_ok (mkJWTS f) \<and> m_nbVars (mkJWTS f) = nbVar f"
  using jwts_scores_ok [of f] by (simp add: mkJWTS_def jwts_ok_def wf_formula_def)

section \<open>The choice of the next variable\<close>

lemma vget_mark_all:
  "\<forall>l\<in>set ls. wf_lit n l \<Longrightarrow> length marked = nat (n + 1) \<Longrightarrow> 0 \<le> v \<Longrightarrow>
     vget (mark_all b ls marked) v = (if v \<in> var ` set ls then b else vget marked v)"
  unfolding mark_all_def by (rule vget_fold_vset) (auto simp: wf_lit_def vin_def)

lemma length_mark_all [simp]: "length (mark_all b ls marked) = length marked"
  by (simp add: mark_all_def length_fold_vset)

lemma unmark_all:
  assumes "\<forall>l\<in>set ls. wf_lit n l" and "1 \<le> n"
  shows "mark_all False ls (mark_all True ls (replicate (nat (n + 1)) False)) = replicate (nat (n + 1)) False"
proof (rule vget_eqI)
  fix i assume i: "0 \<le> i" "i < int (length (replicate (nat (n + 1)) False))"
  then show "vget (mark_all False ls (mark_all True ls (replicate (nat (n + 1)) False))) i =
      vget (replicate (nat (n + 1)) False) i"
    using assms by (simp add: vget_mark_all [of ls n] vget_replicate)
qed simp

text \<open>The loop keeps the first variable with the largest score seen so far.\<close>

lemma best_fold:
  assumes "fold (consider_var sc marked) vs best = best'"
  shows "(\<forall>v\<in>set vs. \<not> vget marked v \<longrightarrow> \<not> dless (snd best') (sc v)) \<and> \<not> dless (snd best') (snd best) \<and>
    (best' = best \<or> fst best' \<in> set vs \<and> \<not> vget marked (fst best') \<and> snd best' = sc (fst best'))"
  using assms
proof (induction vs arbitrary: best)
  case (Cons v vs)
  let ?b = "consider_var sc marked v best"
  have "\<not> dless (snd best') (snd ?b)" "\<forall>v\<in>set vs. \<not> vget marked v \<longrightarrow> \<not> dless (snd best') (sc v)"
    "best' = ?b \<or> fst best' \<in> set vs \<and> \<not> vget marked (fst best') \<and> snd best' = sc (fst best')"
    using Cons.IH [of ?b] Cons.prems by auto
  moreover have "\<not> vget marked v \<Longrightarrow> \<not> dless (snd ?b) (sc v)" "\<not> dless (snd ?b) (snd best)"
    using dless_asym by (auto simp: consider_var_def)
  moreover have "?b = best \<or> fst ?b = v \<and> \<not> vget marked v \<and> snd ?b = sc v"
    by (auto simp: consider_var_def)
  ultimately show ?case
    using not_less_chain [of "snd ?b" "snd best" "snd best'"] not_less_chain [of "snd ?b" "sc v" "snd best'"]
    by auto
qed simp

lemma best_unmarked_spec:
  assumes h: "jwts_ok h" and po: "po_nonneg po" and best: "best_unmarked h po marked = b"
  shows "b = var_Undef \<and> (\<forall>v\<in>{1..m_nbVars h}. vget marked v) \<or>
    b \<in> {1..m_nbVars h} \<and> \<not> vget marked b \<and>
    (\<forall>v\<in>{1..m_nbVars h}. \<not> vget marked v \<longrightarrow> \<not> dless (score h po b) (score h po v))"
proof -
  let ?r = "fold (consider_var (score h po) marked) [1..m_nbVars h] (var_Undef, dminus1)"
  have b: "fst ?r = b" using best by (simp add: best_unmarked_def)
  note F = best_fold [where sc = "score h po" and marked = marked and vs = "[1..m_nbVars h]"
      and best = "(var_Undef, dminus1)", OF refl]
  show ?thesis
  proof (cases "?r = (var_Undef, dminus1)")
    case True
    have "vget marked v" if "v \<in> {1..m_nbVars h}" for v
      using F that dminus1_less [OF score_nonneg [OF h po, of v]] unfolding True by auto
    with True b show ?thesis by auto
  next
    case False
    with F b show ?thesis by auto
  qed
qed

lemma next_var_spec:
  assumes h: "jwts_ok h" and po: "po_nonneg po" and wf: "\<forall>l\<in>set ls. wf_lit (m_nbVars h) l"
    and nx: "next_var po h ls = (v, h')"
  shows "h' = h" and
    "v = var_Undef \<and> {1..m_nbVars h} \<subseteq> var ` set ls \<or>
     1 \<le> v \<and> v \<le> m_nbVars h \<and> v \<notin> var ` set ls \<and>
     (\<forall>u\<in>{1..m_nbVars h}. u \<notin> var ` set ls \<longrightarrow> \<not> dless (score h po v) (score h po u))"
proof -
  have m: "m_marked h = replicate (nat (m_nbVars h + 1)) False" "1 \<le> m_nbVars h"
    using h by (auto simp: jwts_ok_def)
  show "h' = h" using nx m unmark_all [OF wf m(2)] by (auto simp: next_var_def Let_def)
  let ?marked = "mark_all True ls (m_marked h)"
  have mk: "vget ?marked u \<longleftrightarrow> u \<in> var ` set ls" if "u \<in> {1..m_nbVars h}" for u
    using that vget_mark_all [OF wf, of "m_marked h" u True] by (simp add: m vget_replicate)
  have "best_unmarked h po ?marked = v" using nx by (simp add: next_var_def Let_def)
  from best_unmarked_spec [OF h po this] mk
  show "v = var_Undef \<and> {1..m_nbVars h} \<subseteq> var ` set ls \<or>
     1 \<le> v \<and> v \<le> m_nbVars h \<and> v \<notin> var ` set ls \<and>
     (\<forall>u\<in>{1..m_nbVars h}. u \<notin> var ` set ls \<longrightarrow> \<not> dless (score h po v) (score h po u))"
    by auto
qed

section \<open>Min-degree elimination\<close>

lemma set_oset_insert [simp]: "set (oset_insert x ys) = insert x (set ys)"
  by (induction ys) auto

lemma sorted_oset_insert: "sorted_wrt (<) ys \<Longrightarrow> sorted_wrt (<) (oset_insert x ys)"
  by (induction ys) auto

definition adj_ok :: "int \<Rightarrow> graph \<Rightarrow> bool" where
  "adj_ok n adj \<longleftrightarrow> length adj = nat (n + 1) \<and> list_all (\<lambda>s. sorted_wrt (<) s \<and> set s \<subseteq> {1..n}) adj"

lemma adj_ok_vget: "adj_ok n adj \<Longrightarrow> 1 \<le> v \<Longrightarrow> v \<le> n \<Longrightarrow> sorted_wrt (<) (vget adj v) \<and> set (vget adj v) \<subseteq> {1..n}"
  using list_all_vget [of "\<lambda>s. sorted_wrt (<) s \<and> set s \<subseteq> {1..n}" adj v]
  by (auto simp: adj_ok_def vin_def)

lemma adj_ok_insert:
  "adj_ok n adj \<Longrightarrow> u \<in> {1..n} \<Longrightarrow> v \<in> {1..n} \<Longrightarrow> adj_ok n (vset adj u (oset_insert v (vget adj u)))"
  using adj_ok_vget [of n adj u] by (simp add: adj_ok_def list_all_vset sorted_oset_insert)

lemma adj_ok_connect: "adj_ok n adj \<Longrightarrow> u \<in> {1..n} \<Longrightarrow> v \<in> {1..n} \<Longrightarrow> adj_ok n (connect u v adj)"
  by (simp add: connect_def Let_def adj_ok_insert)

lemma adj_ok_connect_all:
  "set us \<subseteq> {1..n} \<Longrightarrow> u \<in> {1..n} \<Longrightarrow> adj_ok n adj \<Longrightarrow> adj_ok n (fold (connect u) us adj)"
  by (induction us arbitrary: adj) (auto simp: adj_ok_connect)

lemma adj_ok_fill_in: "set us \<subseteq> {1..n} \<Longrightarrow> adj_ok n adj \<Longrightarrow> adj_ok n (fill_in us adj)"
  by (induction us adj rule: fill_in.induct) (auto simp: adj_ok_connect_all)

lemma adj_ok_clause_edges: "wf_clause n c \<Longrightarrow> adj_ok n adj \<Longrightarrow> adj_ok n (clause_edges c adj)"
proof (induction c adj rule: clause_edges.induct)
  case (2 l c adj)
  have "list_all (wf_lit n) ks \<Longrightarrow> wf_lit n l \<Longrightarrow> adj_ok n a \<Longrightarrow>
      adj_ok n (fold (\<lambda>k a. if var l \<noteq> var k then connect (var l) (var k) a else a) ks a)" for ks a
    by (induction ks arbitrary: a) (simp_all add: adj_ok_connect wf_lit_def)
  with 2 show ?case by (simp add: wf_clause_def)
qed simp

lemma adj_ok_primal: "wf_formula f \<Longrightarrow> adj_ok (nbVar f) (primal_graph f)"
proof -
  have "list_all (wf_clause n) cs \<Longrightarrow> adj_ok n a \<Longrightarrow> adj_ok n (fold clause_edges cs a)" for n cs a
    by (induction cs arbitrary: a) (simp_all add: adj_ok_clause_edges)
  from this [of "nbVar f" "clauses f" "replicate (nat (nbVar f + 1)) []"]
  show "wf_formula f \<Longrightarrow> ?thesis"
    by (simp add: primal_graph_def wf_formula_def) (simp add: adj_ok_def list_all_iff)
qed

lemma degree_bound:
  assumes "adj_ok n adj" "1 \<le> v" "v \<le> n"
  shows "0 \<le> degree elim adj v \<and> degree elim adj v \<le> n"
proof -
  have v: "sorted_wrt (<) (vget adj v)" "set (vget adj v) \<subseteq> {1..n}" using adj_ok_vget assms by auto
  then have "distinct (vget adj v)" by (simp add: strict_sorted_iff)
  then have "length (vget adj v) = card (set (vget adj v))" by (simp add: distinct_card)
  also have "\<dots> \<le> card {1..n}" using v(2) by (intro card_mono) auto
  finally have "length (vget adj v) \<le> nat n" by simp
  moreover have "length (filter (\<lambda>u. \<not> vget elim u) (vget adj v)) \<le> length (vget adj v)" by simp
  ultimately show ?thesis using assms unfolding degree_def by linarith
qed

lemma degree_fold:
  "fold (consider_degree elim adj) vs best = best' \<Longrightarrow>
    (\<forall>v\<in>set vs. \<not> vget elim v \<longrightarrow> snd best' \<le> degree elim adj v) \<and> snd best' \<le> snd best \<and>
    (best' = best \<or> fst best' \<in> set vs \<and> \<not> vget elim (fst best') \<and> snd best' = degree elim adj (fst best'))"
proof (induction vs arbitrary: best)
  case (Cons v vs)
  let ?b = "consider_degree elim adj v best"
  have "snd best' \<le> snd ?b" "\<forall>v\<in>set vs. \<not> vget elim v \<longrightarrow> snd best' \<le> degree elim adj v"
    "best' = ?b \<or> fst best' \<in> set vs \<and> \<not> vget elim (fst best') \<and> snd best' = degree elim adj (fst best')"
    using Cons.IH [of ?b] Cons.prems by auto
  moreover have "\<not> vget elim v \<Longrightarrow> snd ?b \<le> degree elim adj v" "snd ?b \<le> snd best"
    by (auto simp: consider_degree_def)
  moreover have "?b = best \<or> fst ?b = v \<and> \<not> vget elim v \<and> snd ?b = degree elim adj v"
    by (auto simp: consider_degree_def)
  ultimately show ?case by auto
qed simp

text \<open>The selected variable is one of minimal degree among the variables still in the graph.\<close>

lemma select_min_spec:
  assumes "adj_ok n adj" "n < INT_MAX" "\<exists>v\<in>{1..n}. \<not> vget elim v" "select_min n elim adj = b"
  shows "b \<in> {1..n} \<and> \<not> vget elim b \<and>
    (\<forall>v\<in>{1..n}. \<not> vget elim v \<longrightarrow> degree elim adj b \<le> degree elim adj v)"
proof -
  let ?r = "fold (consider_degree elim adj) [1..n] (-1, INT_MAX)"
  have b: "fst ?r = b" using assms(4) by (simp add: select_min_def)
  note F = degree_fold [where elim = elim and adj = adj and vs = "[1..n]" and best = "(-1, INT_MAX)", OF refl]
  obtain v where v: "v \<in> {1..n}" "\<not> vget elim v" using assms(3) by blast
  then have "snd ?r \<le> n" using F degree_bound [OF assms(1), of v elim] by auto
  then have "?r \<noteq> (-1, INT_MAX)" using assms(2) by auto
  with F b show ?thesis by auto
qed

text \<open>
  \<open>eliminated_as n ord s\<close>: the variables \<open>ord\<close> were eliminated in this order, and the i-th of them
  has level \<open>n - i\<close>.
\<close>

definition eliminated_as :: "int \<Rightarrow> int list \<Rightarrow> MinDegree \<Rightarrow> bool" where
  "eliminated_as n ord s \<longleftrightarrow> distinct ord \<and> set ord \<subseteq> {1..n} \<and> adj_ok n (md_adj s) \<and>
     length (md_level s) = nat (n + 1) \<and> length (md_elim s) = nat (n + 1) \<and>
     list_all dnonneg (md_level s) \<and>
     (\<forall>v\<in>{1..n}. vget (md_elim s) v \<longleftrightarrow> v \<in> set ord) \<and>
     (\<forall>i<length ord. vget (md_level s) (ord ! i) = dbl_of_int (n - int i))"

lemma eliminate_step:
  assumes s: "eliminated_as n ord s" and k: "int (length ord) < n"
    and b: "b \<in> {1..n}" "b \<notin> set ord"
  shows "eliminated_as n (ord @ [b]) (eliminate n (int (length ord) + 1) b s)"
proof -
  let ?s = "eliminate n (int (length ord) + 1) b s"
  have vin: "vin (md_level s) b" "vin (md_elim s) b" using s b by (auto simp: eliminated_as_def vin_def)
  have e: "md_elim ?s = vset (md_elim s) b True"
    and l: "md_level ?s = vset (md_level s) b (dbl_of_int (n - int (length ord)))"
    by (simp_all add: eliminate_def Let_def)
  have "vget (md_elim ?s) v \<longleftrightarrow> v \<in> set (ord @ [b])" if "v \<in> {1..n}" for v
    using that s b vin by (cases "v = b") (auto simp: e eliminated_as_def vget_vset_same vget_vset_other)
  moreover have "vget (md_level ?s) ((ord @ [b]) ! i) = dbl_of_int (n - int i)"
    if "i < length (ord @ [b])" for i
  proof (cases "i = length ord")
    case True
    then show ?thesis by (simp add: l vget_vset_same [OF vin(1)])
  next
    case False
    with that have i: "i < length ord" by simp
    then have o: "ord ! i \<in> set ord" by simp
    then have "0 \<le> ord ! i" "ord ! i \<noteq> b" using s b by (auto simp: eliminated_as_def)
    then have "vget (md_level ?s) (ord ! i) = vget (md_level s) (ord ! i)"
      using b by (simp add: l vget_vset_other)
    then show ?thesis using s i by (simp add: eliminated_as_def nth_append)
  qed
  moreover have "adj_ok n (md_adj ?s)"
    using s b adj_ok_vget [of n "md_adj s" b]
    by (auto simp: eliminate_def Let_def eliminated_as_def intro!: adj_ok_fill_in)
  moreover have "list_all dnonneg (md_level ?s)"
    using s k by (simp add: l eliminated_as_def list_all_vset dbl_of_int_nonneg)
  ultimately show ?thesis
    using s b by (auto simp: eliminated_as_def e l)
qed

lemma elimination_complete:
  "eliminated_as n ord s \<Longrightarrow> n < INT_MAX \<Longrightarrow> int (length ord) \<le> n \<Longrightarrow>
     \<exists>ord'. eliminated_as n ord' (elimination n [int (length ord) + 1..n] s) \<and> int (length ord') = n"
proof (induction "nat n - length ord" arbitrary: ord s)
  case 0
  then have "int (length ord) = n" by linarith
  with 0 show ?case by auto
next
  case (Suc k)
  then have lt: "int (length ord) < n" by linarith
  have "card (set ord) < card {1..n}"
    using Suc.prems(1) lt by (simp add: eliminated_as_def distinct_card)
  then obtain v where "v \<in> {1..n}" "v \<notin> set ord" by (meson card_mono finite_set not_le subsetI)
  then have "\<exists>v\<in>{1..n}. \<not> vget (md_elim s) v" using Suc.prems(1) by (auto simp: eliminated_as_def)
  moreover have "adj_ok n (md_adj s)" using Suc.prems(1) by (simp add: eliminated_as_def)
  ultimately have b: "select_min n (md_elim s) (md_adj s) \<in> {1..n}"
      "\<not> vget (md_elim s) (select_min n (md_elim s) (md_adj s))"
    using select_min_spec [OF _ Suc.prems(2) _ refl] by blast+
  let ?b = "select_min n (md_elim s) (md_adj s)"
  have "?b \<notin> set ord" using b Suc.prems(1) by (auto simp: eliminated_as_def)
  then have st: "eliminated_as n (ord @ [?b]) (eliminate n (int (length ord) + 1) ?b s)"
    using eliminate_step [OF Suc.prems(1) lt b(1)] by blast
  have "elimination n [int (length ord) + 1..n] s =
      elimination n [int (length (ord @ [?b])) + 1..n] (eliminate n (int (length ord) + 1) ?b s)"
    using lt b(1) by (subst upto.simps) (simp add: Let_def add.commute add.left_commute)
  moreover have "k = nat n - length (ord @ [?b])" using Suc.hyps(2) by simp
  ultimately show ?case
    using Suc.hyps(1) [OF _ st Suc.prems(2)] lt by simp
qed

lemma md_start_ok: "wf_formula f \<Longrightarrow> eliminated_as (nbVar f) [] (md_start f)"
  by (auto simp: eliminated_as_def md_start_def adj_ok_primal list_all_iff done1_nonneg vget_replicate)

lemma elimination_from_start:
  "wf_formula f \<Longrightarrow>
     \<exists>ord. eliminated_as (nbVar f) ord (elimination (nbVar f) [1..nbVar f] (md_start f)) \<and>
       int (length ord) = nbVar f"
  using elimination_complete [OF md_start_ok, of f] by (auto simp: wf_formula_def)

lemma max_element_nonneg: "list_all dnonneg xs \<Longrightarrow> max_element xs = Some mx \<Longrightarrow> dnonneg mx"
proof (cases xs)
  case (Cons x ys)
  have "list_all dnonneg ys \<Longrightarrow> dnonneg x \<Longrightarrow> dnonneg (fold (\<lambda>y m. if dless m y then y else m) ys x)" for ys x
    by (induction ys arbitrary: x) auto
  with Cons show "list_all dnonneg xs \<Longrightarrow> max_element xs = Some mx \<Longrightarrow> dnonneg mx" by auto
qed simp

lemma normalize_all:
  "\<forall>v\<in>set vs. 0 \<le> v \<and> v < int (length a) \<Longrightarrow> dnonneg mx \<Longrightarrow> 0 \<le> n \<Longrightarrow> list_all dnonneg a \<Longrightarrow>
     list_all dnonneg (fold (\<lambda>v a. vset a v (normalize_level n mx (vget a v))) vs a) \<and>
     length (fold (\<lambda>v a. vset a v (normalize_level n mx (vget a v))) vs a) = length a"
proof (induction vs arbitrary: a)
  case (Cons v vs)
  then have "dnonneg (vget a v)" using list_all_vget [of dnonneg a v] by (simp add: vin_def)
  then have "dnonneg (normalize_level n mx (vget a v))"
    unfolding normalize_level_def using Cons.prems by (intro nonneg_intros)
  then show ?case using Cons by (simp add: list_all_vset)
qed simp

lemma mkMinDegree_ok:
  assumes "wf_formula f"
  shows "\<exists>level. mkMinDegree f = Some (PartialOrderHeuristicMinDegree level) \<and>
    length level = nat (nbVar f + 1) \<and> list_all dnonneg level"
proof -
  let ?level = "md_level (elimination (nbVar f) [1..nbVar f] (md_start f))"
  have n: "1 \<le> nbVar f" using assms by (simp add: wf_formula_def)
  have l: "length ?level = nat (nbVar f + 1)" "list_all dnonneg ?level"
    using elimination_from_start [OF assms] by (auto simp: eliminated_as_def)
  then have "tl ?level \<noteq> []" using n by (cases ?level) auto
  then obtain mx where mx: "max_element (tl ?level) = Some mx" by (cases "tl ?level") auto
  have "list_all dnonneg (tl ?level)" using l by (cases ?level) auto
  then have "dnonneg mx" using mx max_element_nonneg by blast
  with l n mx normalize_all [of "[1..nbVar f]" ?level mx "nbVar f"] show ?thesis
    by (simp add: mkMinDegree_def Let_def)
qed

lemma make_partial_order_ok:
  "wf_formula f \<Longrightarrow> \<exists>p. make_partial_order f b = Some p \<and> po_nonneg (Some p)"
  using mkMinDegree_ok [of f] getLevel_nonneg
  by (auto simp: make_partial_order_def po_nonneg_def done1_nonneg simp del: getLevel.simps(2))

interpretation jwts: branching_heuristic
  "\<lambda>h. jwts_ok (snd h) \<and> po_nonneg (fst h)" "\<lambda>h. m_nbVars (snd h)" var "\<lambda>_. True"
  "\<lambda>(po, h) ls. case next_var po h ls of (v, h') \<Rightarrow> (v, (po, h'))"
proof unfold_locales
  fix h :: "PartialOrderHeuristic option \<times> JWTSBranchingCubeHeuristic" and ls v h'
  assume "jwts_ok (snd h) \<and> po_nonneg (fst h)" "\<forall>l\<in>set ls. 0 < var l \<and> var l \<le> m_nbVars (snd h)"
    "(case h of (po, h) \<Rightarrow> \<lambda>ls. case next_var po h ls of (v, h') \<Rightarrow> (v, (po, h'))) ls = (v, h')"
  then show "(jwts_ok (snd h') \<and> po_nonneg (fst h')) \<and> m_nbVars (snd h') = m_nbVars (snd h) \<and>
    (v = -1 \<and> {1..m_nbVars (snd h)} \<subseteq> var ` set ls \<or>
     1 \<le> v \<and> v \<le> m_nbVars (snd h) \<and> v \<notin> var ` set ls)"
    using next_var_spec [of "snd h" "fst h" ls]
    by (cases h) (auto simp: wf_lit_def var_Undef_def split: prod.splits)
qed

section \<open>Properties\<close>

text \<open>C10: the branching heuristic returns a variable of the formula that the cube does not mention and
  that no other such variable beats in JWTS score times level, or \<open>var_Undef\<close> exactly when the cube
  mentions every variable; its scratch buffer is as before.\<close>

theorem next_var_best:
  assumes "jwts_ok h" "po_nonneg po" "\<forall>l\<in>set ls. wf_lit (m_nbVars h) l"
  shows "\<exists>v. next_var po h ls = (v, h) \<and>
    (v = var_Undef \<and> {1..m_nbVars h} \<subseteq> var ` set ls \<or>
     v \<in> {1..m_nbVars h} \<and> v \<notin> var ` set ls \<and>
     (\<forall>u\<in>{1..m_nbVars h}. u \<notin> var ` set ls \<longrightarrow> \<not> dless (score h po v) (score h po u)))"
proof -
  obtain v h' where nx: "next_var po h ls = (v, h')" by fastforce
  then show ?thesis using next_var_spec [OF assms nx] by auto
qed

lemma next_var_best_witness:
  "\<exists>v. next_var None (mkJWTS \<lparr>nbVar = 2, clauses = [[Lit 1]]\<rparr>) [Lit 1] =
    (v, mkJWTS \<lparr>nbVar = 2, clauses = [[Lit 1]]\<rparr>) \<and> v \<in> {-1, 2}"
proof -
  let ?f = "\<lparr>nbVar = 2, clauses = [[Lit 1]]\<rparr>"
  have "wf_formula ?f" by (simp add: wf_formula_def wf_clause_def wf_lit_def var_def INT_MAX_def)
  note h = mkJWTS_ok [OF this]
  have "po_nonneg None" by (simp add: po_nonneg_def)
  from next_var_best [OF conjunct1 [OF h] this, of "[Lit 1]"] h
  show ?thesis by (auto simp: wf_lit_def var_def var_Undef_def)
qed

text \<open>The elimination orders all the variables, each once; the i-th variable gets level \<open>n - i\<close> before
  the normalisation; and the constructor succeeds with one non-negative level per variable.\<close>

theorem min_degree_total:
  assumes "wf_formula f"
  shows "(\<exists>ord. distinct ord \<and> set ord = {1..nbVar f} \<and>
      (\<forall>i<length ord. vget (md_level (elimination (nbVar f) [1..nbVar f] (md_start f))) (ord ! i) =
        dbl_of_int (nbVar f - int i))) \<and>
    (\<exists>level. mkMinDegree f = Some (PartialOrderHeuristicMinDegree level) \<and>
      length level = nat (nbVar f + 1) \<and> list_all dnonneg level)"
proof -
  obtain ord where o: "eliminated_as (nbVar f) ord (elimination (nbVar f) [1..nbVar f] (md_start f))"
      "int (length ord) = nbVar f"
    using elimination_from_start [OF assms] by blast
  then have "distinct ord" "set ord \<subseteq> {1..nbVar f}" by (auto simp: eliminated_as_def)
  moreover from this have "card (set ord) = card {1..nbVar f}" using o(2) by (simp add: distinct_card)
  ultimately have "set ord = {1..nbVar f}" by (meson card_subset_eq finite_atLeastAtMost_int)
  with o \<open>distinct ord\<close> show ?thesis using mkMinDegree_ok [OF assms] by (auto simp: eliminated_as_def)
qed

lemma min_degree_total_witness:
  "\<exists>level. mkMinDegree \<lparr>nbVar = 2, clauses = [[Lit 1, Lit (-2)]]\<rparr> = Some (PartialOrderHeuristicMinDegree level) \<and>
    length level = 3"
proof -
  have "wf_formula \<lparr>nbVar = 2, clauses = [[Lit 1, Lit (-2)]]\<rparr>"
    by (simp add: wf_formula_def wf_clause_def wf_lit_def var_def INT_MAX_def)
  from min_degree_total [OF this] show ?thesis by auto
qed

text \<open>Every elimination step takes a variable of least degree among those not eliminated yet.\<close>

theorem select_min_least:
  assumes "adj_ok n adj" "n < INT_MAX" "\<exists>v\<in>{1..n}. \<not> vget elim v"
  shows "select_min n elim adj \<in> {1..n} \<and> \<not> vget elim (select_min n elim adj) \<and>
    (\<forall>v\<in>{1..n}. \<not> vget elim v \<longrightarrow> degree elim adj (select_min n elim adj) \<le> degree elim adj v)"
  using select_min_spec [OF assms refl] .

lemma select_min_least_witness:
  "select_min 2 [False, True, False] [[], [2], [1]] = 2"
proof -
  let ?b = "select_min 2 [False, True, False] [[], [2], [1]]"
  have "adj_ok 2 [[], [2], [1]]" "2 < INT_MAX" "\<exists>v\<in>{1..2}. \<not> vget [False, True, False] v"
    by (auto simp: adj_ok_def INT_MAX_def vget_def intro!: bexI [of _ 2])
  from select_min_least [OF this] have "?b \<in> {1..2}" "\<not> vget [False, True, False] ?b" by blast+
  moreover from this have "?b = 1 \<or> ?b = 2" by auto
  ultimately show ?thesis by (auto simp: vget_def)
qed

end
