(* ===== verification/Std_Heap.thy ===== *)
theory Std_Heap
  imports HS_Prelude
begin

text \<open>
  \<open>std::priority_queue\<close> over \<open>std::vector\<close> as the sources use it (\<open>push\<close>, \<open>pop\<close>, \<open>top\<close>,
  \<open>size\<close>, \<open>empty\<close>): the sift-up and sift-down of the GNU standard library's \<open>stl_heap.h\<close>
  (\<open>__push_heap\<close>, \<open>__adjust_heap\<close>), which fixes which of several minimal elements is on top.
  The interface \<open>cube_queue\<close> states what the generators rely on; the heap is interpreted in it.
\<close>

section \<open>The heap algorithms\<close>

text \<open>\<open>__push_heap\<close>: move parents down into the hole while they compare below the new value.\<close>

function heap_up :: "('c \<Rightarrow> 'c \<Rightarrow> bool) \<Rightarrow> 'c list \<Rightarrow> nat \<Rightarrow> 'c \<Rightarrow> 'c list" where
  "heap_up cmp h hole v =
     (let parent = (hole - 1) div 2
      in if 0 < hole \<and> cmp (h ! parent) v then heap_up cmp (h[hole := h ! parent]) parent v
         else h[hole := v])"
  by pat_completeness auto
termination
  by (relation "measure (\<lambda>(cmp, h, hole, v). hole)") auto

declare heap_up.simps [simp del]

text \<open>
  The loop of \<open>__adjust_heap\<close>: the hole goes down to the better child until a node without a
  second child (\<open>secondChild\<close> equals the hole at every loop test).
\<close>

definition pick_child :: "('c \<Rightarrow> 'c \<Rightarrow> bool) \<Rightarrow> 'c list \<Rightarrow> nat \<Rightarrow> nat" where
  "pick_child cmp h s = (if cmp (h ! s) (h ! (s - 1)) then s - 1 else s)"

function heap_down :: "('c \<Rightarrow> 'c \<Rightarrow> bool) \<Rightarrow> 'c list \<Rightarrow> nat \<Rightarrow> nat \<Rightarrow> 'c list \<times> nat" where
  "heap_down cmp h len hole =
     (if hole < (len - 1) div 2 then
        let s = pick_child cmp h (2 * (hole + 1)) in heap_down cmp (h[hole := h ! s]) len s
      else (h, hole))"
  by pat_completeness auto
termination
  by (relation "measure (\<lambda>(cmp, h, len, hole). len - hole)") (auto simp: pick_child_def)

declare heap_down.simps [simp del]

definition adjust_heap :: "('c \<Rightarrow> 'c \<Rightarrow> bool) \<Rightarrow> 'c list \<Rightarrow> nat \<Rightarrow> 'c \<Rightarrow> 'c list" where
  "adjust_heap cmp h len v =
     (case heap_down cmp h len 0 of (h', hole) \<Rightarrow>
        if even len \<and> hole = (len - 2) div 2 then
          let s = 2 * (hole + 1) in heap_up cmp (h'[hole := h' ! (s - 1)]) (s - 1) v
        else heap_up cmp h' hole v)"

definition pq_push :: "('c \<Rightarrow> 'c \<Rightarrow> bool) \<Rightarrow> 'c \<Rightarrow> 'c list \<Rightarrow> 'c list" where
  "pq_push cmp c h = heap_up cmp (h @ [c]) (length h) c"

definition pq_pop :: "('c \<Rightarrow> 'c \<Rightarrow> bool) \<Rightarrow> 'c list \<Rightarrow> 'c list" where
  "pq_pop cmp h =
     (if 1 < length h then
        let last = length h - 1 in butlast (adjust_heap cmp (h[last := h ! 0]) last (h ! last))
      else butlast h)"

definition pq_top :: "'c list \<Rightarrow> 'c" where
  "pq_top h = h ! 0"

section \<open>One round of each loop\<close>

lemma heap_up_step:
  "0 < hole \<Longrightarrow> cmp (h ! ((hole - 1) div 2)) v \<Longrightarrow>
     heap_up cmp h hole v = heap_up cmp (h[hole := h ! ((hole - 1) div 2)]) ((hole - 1) div 2) v"
  by (simp add: heap_up.simps [of cmp h hole v] Let_def)

lemma heap_up_stop:
  "\<not> (0 < hole \<and> cmp (h ! ((hole - 1) div 2)) v) \<Longrightarrow> heap_up cmp h hole v = h[hole := v]"
  by (auto simp: heap_up.simps [of cmp h hole v] Let_def)

lemma heap_down_step:
  "hole < (len - 1) div 2 \<Longrightarrow> s = pick_child cmp h (2 * (hole + 1)) \<Longrightarrow>
     heap_down cmp h len hole = heap_down cmp (h[hole := h ! s]) len s"
  by (simp add: heap_down.simps [of cmp h len hole] Let_def)

lemma heap_down_stop: "\<not> hole < (len - 1) div 2 \<Longrightarrow> heap_down cmp h len hole = (h, hole)"
  by (simp add: heap_down.simps [of cmp h len hole])

lemma pick_child_bounds:
  "hole < (len - 1) div 2 \<Longrightarrow> s = pick_child cmp h (2 * (hole + 1)) \<Longrightarrow>
     hole < s \<and> s < len \<and> (s - 1) div 2 = hole \<and> 0 < s"
  by (auto simp: pick_child_def)

section \<open>Contents\<close>

lemma mset_put: "i < length h \<Longrightarrow> add_mset (h ! i) (mset (h[i := x])) = add_mset x (mset h)"
  by (simp add: mset_update)

lemma mset_chain:
  assumes "add_mset c A = add_mset v G" and "add_mset x G = add_mset c H"
  shows "add_mset x A = add_mset v H"
proof -
  have "add_mset c (add_mset x A) = add_mset x (add_mset v G)"
    using assms(1) by (simp add: add_mset_commute)
  also have "\<dots> = add_mset v (add_mset c H)"
    using assms(2) by (simp add: add_mset_commute)
  finally have "add_mset c (add_mset x A) = add_mset c (add_mset v H)"
    by (simp add: add_mset_commute)
  then show ?thesis by simp
qed

lemma length_heap_up [simp]: "length (heap_up cmp h hole v) = length h"
proof (induction cmp h hole v rule: heap_up.induct)
  case (1 cmp h hole v)
  then show ?case by (simp add: heap_up.simps [of cmp h hole v] Let_def)
qed

lemma mset_heap_up:
  "hole < length h \<Longrightarrow> add_mset (h ! hole) (mset (heap_up cmp h hole v)) = add_mset v (mset h)"
proof (induction cmp h hole v rule: heap_up.induct)
  case (1 cmp h hole v)
  let ?p = "(hole - 1) div 2"
  show ?case
  proof (cases "0 < hole \<and> cmp (h ! ?p) v")
    case True
    then have p: "?p < hole" by auto
    let ?h = "h[hole := h ! ?p]" let ?r = "heap_up cmp ?h ?p v"
    have "add_mset (?h ! ?p) (mset ?r) = add_mset v (mset ?h)"
      using "1.IH" [OF refl True] "1.prems" p by simp
    then have "add_mset (h ! ?p) (mset ?r) = add_mset v (mset ?h)" using p by simp
    then have "add_mset (h ! hole) (mset ?r) = add_mset v (mset h)"
      using mset_put [OF "1.prems"] by (rule mset_chain)
    with True show ?thesis by (simp add: heap_up_step)
  next
    case False
    then show ?thesis using mset_put [OF "1.prems", of v]
      by (simp add: heap_up_stop)
  qed
qed

lemma heap_up_outside: "hole < i \<Longrightarrow> heap_up cmp h hole v ! i = h ! i"
proof (induction cmp h hole v rule: heap_up.induct)
  case (1 cmp h hole v)
  then show ?case by (auto simp: heap_up.simps [of cmp h hole v] Let_def)
qed

text \<open>A new element that does not compare strictly above the root leaves the root on top.\<close>

lemma heap_up_root:
  "0 < hole \<Longrightarrow> hole < length h \<Longrightarrow> \<not> cmp (h ! 0) v \<Longrightarrow> heap_up cmp h hole v ! 0 = h ! 0"
proof (induction cmp h hole v rule: heap_up.induct)
  case (1 cmp h hole v)
  let ?p = "(hole - 1) div 2"
  show ?case
  proof (cases "cmp (h ! ?p) v")
    case True
    with "1.prems" have p: "0 < ?p" "?p < hole" by (cases "?p = 0"; auto)+
    have "heap_up cmp (h[hole := h ! ?p]) ?p v ! 0 = h[hole := h ! ?p] ! 0"
      using "1.IH" [OF refl conjI [OF "1.prems"(1) True]] "1.prems" p by simp
    with True "1.prems" show ?thesis by (simp add: heap_up.simps [of cmp h hole v] Let_def)
  next
    case False
    with "1.prems" show ?thesis by (simp add: heap_up.simps [of cmp h hole v] Let_def)
  qed
qed

lemma heap_down_props:
  assumes "heap_down cmp h len hole = (h', hole')" "hole < len" "len \<le> length h"
  shows "length h' = length h" "hole' < len" "hole \<le> hole'" "\<forall>i\<ge>len. h' ! i = h ! i"
    "\<not> hole' < (len - 1) div 2"
    "add_mset (h ! hole) (mset h') = add_mset (h' ! hole') (mset h)"
  using assms
proof (atomize (full), induction cmp h len hole arbitrary: h' hole' rule: heap_down.induct)
  case (1 cmp h len hole)
  show ?case
  proof (cases "hole < (len - 1) div 2")
    case True
    define s' where "s' = pick_child cmp h (2 * (hole + 1))"
    have s': "hole < s'" "s' < len" using pick_child_bounds [OF True s'_def] by auto
    have rec: "heap_down cmp (h[hole := h ! s']) len s' = (h', hole')"
      using "1.prems"(1) heap_down_step [OF True s'_def] by simp
    have IH': "length h' = length h" "hole' < len" "s' \<le> hole'"
        "\<forall>i\<ge>len. h' ! i = h[hole := h ! s'] ! i" "\<not> hole' < (len - 1) div 2"
        "add_mset (h[hole := h ! s'] ! s') (mset h') = add_mset (h' ! hole') (mset (h[hole := h ! s']))"
      using "1.IH" [OF True s'_def, of h' hole'] rec s' "1.prems" by auto
    have "add_mset (h ! hole) (add_mset (h ! s') (mset h')) =
        add_mset (h' ! hole') (add_mset (h ! s') (mset h))"
      using IH'(6) s' mset_put [of hole h "h ! s'"] "1.prems"
      by (simp add: add_mset_commute)
    then have "add_mset (h ! hole) (mset h') = add_mset (h' ! hole') (mset h)"
      by (metis add_mset_commute add_mset_add_mset_same_iff)
    with IH' s' "1.prems" show ?thesis by auto
  next
    case False
    with "1.prems" show ?thesis by (simp add: heap_down_stop)
  qed
qed

lemma lone_child:
  "even len \<Longrightarrow> 0 < len \<Longrightarrow> hole = (len - 2) div 2 \<Longrightarrow> 2 * (hole + 1) - 1 = len - 1 \<and> hole < len - 1"
  for len :: nat
  by (auto elim!: evenE)

lemma adjust_heap_props:
  assumes "0 < len" "len \<le> length h"
  shows "length (adjust_heap cmp h len v) = length h"
    "\<forall>i\<ge>len. adjust_heap cmp h len v ! i = h ! i"
    "add_mset (h ! 0) (mset (adjust_heap cmp h len v)) = add_mset v (mset h)"
proof -
  obtain h' hole where d: "heap_down cmp h len 0 = (h', hole)" by fastforce
  note P = heap_down_props [OF d assms]
  let ?s = "2 * (hole + 1)"
  show "length (adjust_heap cmp h len v) = length h"
    using P by (simp add: adjust_heap_def d Let_def)
  show "\<forall>i\<ge>len. adjust_heap cmp h len v ! i = h ! i"
    using P assms lone_child [of len hole] by (auto simp: adjust_heap_def d Let_def heap_up_outside)
  show "add_mset (h ! 0) (mset (adjust_heap cmp h len v)) = add_mset v (mset h)"
  proof (cases "even len \<and> hole = (len - 2) div 2")
    case True
    let ?g = "h'[hole := h' ! (?s - 1)]"
    have s: "?s - 1 < length ?g" "hole < ?s - 1" using True P assms lone_child [of len hole] by auto
    have gs: "?g ! (?s - 1) = h' ! (?s - 1)" using s by simp
    have e1: "add_mset (h' ! (?s - 1)) (mset (adjust_heap cmp h len v)) = add_mset v (mset ?g)"
      using mset_heap_up [OF s(1), of cmp v] True by (simp only: gs) (simp add: adjust_heap_def d)
    have e2: "add_mset (h' ! hole) (mset ?g) = add_mset (h' ! (?s - 1)) (mset h')"
      using mset_put [of hole h'] P assms by simp
    from e1 e2 have "add_mset (h' ! hole) (mset (adjust_heap cmp h len v)) = add_mset v (mset h')"
      by (rule mset_chain)
    then show ?thesis using P(6) by (rule mset_chain)
  next
    case False
    have "add_mset (h' ! hole) (mset (adjust_heap cmp h len v)) = add_mset v (mset h')"
      using mset_heap_up [of hole h' cmp v] P assms False by (auto simp: adjust_heap_def d)
    then show ?thesis using P(6) by (rule mset_chain)
  qed
qed

lemma mset_pq_push: "mset (pq_push cmp c h) = add_mset c (mset h)"
  using mset_heap_up [of "length h" "h @ [c]" cmp c] by (simp add: pq_push_def)

lemma length_pq_push [simp]: "length (pq_push cmp c h) = Suc (length h)"
  by (simp add: pq_push_def)

lemma butlast_mset: "xs \<noteq> [] \<Longrightarrow> add_mset (xs ! (length xs - 1)) (mset (butlast xs)) = mset xs"
  by (metis add_mset_add_single append_butlast_last_id last_conv_nth mset.simps(1,2) mset_append)

lemma mset_pq_pop:
  assumes "h \<noteq> []"
  shows "add_mset (pq_top h) (mset (pq_pop cmp h)) = mset h"
proof (cases "1 < length h")
  case True
  let ?l = "length h - 1" let ?g = "h[?l := h ! 0]" let ?a = "adjust_heap cmp ?g ?l (h ! ?l)"
  have l: "0 < ?l" "?l \<le> length ?g" using True by auto
  note A = adjust_heap_props [OF l, of cmp "h ! ?l"]
  have "add_mset (?a ! (length ?a - 1)) (mset (butlast ?a)) = mset ?a"
    using A(1) True by (intro butlast_mset) (metis length_0_conv length_list_update not_one_less_zero)
  moreover have "?a ! ?l = h ! 0" using A(2) True by simp
  moreover have "mset ?a = mset h"
    using A(3) mset_put [of ?l h "h ! 0"] True by (simp add: nth_list_update)
  ultimately show ?thesis using True A(1) by (simp add: pq_pop_def pq_top_def Let_def)
next
  case False
  with assms have "length h = 1" by (cases h) auto
  then show ?thesis by (auto simp: pq_pop_def pq_top_def length_Suc_conv)
qed

lemma length_pq_pop: "h \<noteq> [] \<Longrightarrow> Suc (length (pq_pop cmp h)) = length h"
  by (metis mset_pq_pop size_add_mset size_mset)

lemma pq_pop_shorter: "h \<noteq> [] \<Longrightarrow> length (pq_pop cmp h) < length h"
  using length_pq_pop [of h cmp] by simp

section \<open>Order\<close>

definition heap_ok_on :: "('c \<Rightarrow> nat) \<Rightarrow> 'c list \<Rightarrow> nat \<Rightarrow> bool" where
  "heap_ok_on w h n \<longleftrightarrow> (\<forall>i. 0 < i \<and> i < n \<longrightarrow> w (h ! ((i - 1) div 2)) \<le> w (h ! i))"

definition min_cmp :: "('c \<Rightarrow> nat) \<Rightarrow> 'c \<Rightarrow> 'c \<Rightarrow> bool" where
  "min_cmp w a b \<longleftrightarrow> w b < w a"

text \<open>Order of a heap with a hole: everything not next to the hole is ordered, and the hole's parent
  is below the hole's children.\<close>

definition hole_ok :: "('c \<Rightarrow> nat) \<Rightarrow> 'c list \<Rightarrow> nat \<Rightarrow> nat \<Rightarrow> bool" where
  "hole_ok w h n hole \<longleftrightarrow>
     (\<forall>i. 0 < i \<and> i < n \<and> i \<noteq> hole \<and> (i - 1) div 2 \<noteq> hole \<longrightarrow> w (h ! ((i - 1) div 2)) \<le> w (h ! i)) \<and>
     (\<forall>i. 0 < hole \<and> 0 < i \<and> i < n \<and> (i - 1) div 2 = hole \<longrightarrow> w (h ! ((hole - 1) div 2)) \<le> w (h ! i))"

definition below_children :: "('c \<Rightarrow> nat) \<Rightarrow> 'c list \<Rightarrow> nat \<Rightarrow> nat \<Rightarrow> 'c \<Rightarrow> bool" where
  "below_children w h n hole v \<longleftrightarrow>
     (\<forall>i. 0 < i \<and> i < n \<and> (i - 1) div 2 = hole \<longrightarrow> w v \<le> w (h ! i))"

lemma parent_less: "0 < i \<Longrightarrow> (i - 1) div 2 < i" for i :: nat
  by auto

lemma heap_ok_hole: "heap_ok_on w h n \<Longrightarrow> hole_ok w h n hole"
  unfolding heap_ok_on_def hole_ok_def by (metis order.strict_trans order_trans parent_less)

lemma heap_up_ok:
  "hole < n \<Longrightarrow> n \<le> length h \<Longrightarrow> hole_ok w h n hole \<Longrightarrow> below_children w h n hole v \<Longrightarrow>
     heap_ok_on w (heap_up (min_cmp w) h hole v) n"
proof (induction "min_cmp w" h hole v rule: heap_up.induct)
  case (1 h hole v)
  let ?p = "(hole - 1) div 2"
  note hole = "1.prems"(3) [unfolded hole_ok_def] and below = "1.prems"(4) [unfolded below_children_def]
  show ?case
  proof (cases "0 < hole \<and> min_cmp w (h ! ?p) v")
    case True
    then have p: "?p < hole" and v: "w v < w (h ! ?p)" by (auto simp: min_cmp_def)
    let ?h = "h[hole := h ! ?p]"
    have hl: "hole < length h" using "1.prems" by simp
    have "hole_ok w ?h n ?p"
      unfolding hole_ok_def
    proof (intro conjI allI impI)
      fix i assume i: "0 < i \<and> i < n \<and> i \<noteq> ?p \<and> (i - 1) div 2 \<noteq> ?p"
      then have "i \<noteq> hole" by auto
      moreover have "w (h ! ?p) \<le> w (h ! i)" if "(i - 1) div 2 = hole"
        using hole i True that by blast
      moreover have "w (h ! ((i - 1) div 2)) \<le> w (h ! i)" if "(i - 1) div 2 \<noteq> hole"
        using hole i that calculation(1) by blast
      ultimately show "w (?h ! ((i - 1) div 2)) \<le> w (?h ! i)"
        using hl by (cases "(i - 1) div 2 = hole") simp_all
    next
      fix i assume i: "0 < ?p \<and> 0 < i \<and> i < n \<and> (i - 1) div 2 = ?p"
      have "w (h ! ((?p - 1) div 2)) \<le> w (h ! ?p)"
        using hole i p parent_less [of ?p] "1.prems"(1) by (metis nat_neq_iff order.strict_trans)
      moreover have "w (h ! ?p) \<le> w (h ! i)" if "i \<noteq> hole" using hole i p that by auto
      moreover have "(?p - 1) div 2 \<noteq> hole" using p parent_less [of ?p] i by linarith
      ultimately show "w (?h ! ((?p - 1) div 2)) \<le> w (?h ! i)"
        using i p "1.prems" by (cases "i = hole") auto
    qed
    moreover have "below_children w ?h n ?p v"
      unfolding below_children_def
    proof (intro allI impI)
      fix i assume i: "0 < i \<and> i < n \<and> (i - 1) div 2 = ?p"
      then have "w (h ! ?p) \<le> w (h ! i)" if "i \<noteq> hole" using hole p that by auto
      with v i "1.prems" show "w v \<le> w (?h ! i)" by (cases "i = hole") auto
    qed
    ultimately have "heap_ok_on w (heap_up (min_cmp w) ?h ?p v) n"
      using "1.hyps" [OF refl True] "1.prems" p by simp
    with True show ?thesis by (simp add: heap_up_step)
  next
    case False
    then have v: "0 < hole \<Longrightarrow> w (h ! ?p) \<le> w v" by (auto simp: min_cmp_def)
    have "w (h[hole := v] ! ((i - 1) div 2)) \<le> w (h[hole := v] ! i)" if i: "0 < i \<and> i < n" for i
      using i hole below v "1.prems" parent_less [of i]
      by (cases "i = hole"; cases "(i - 1) div 2 = hole") auto
    with False show ?thesis by (simp add: heap_up_stop heap_ok_on_def)
  qed
qed

lemma hole_ok_move:
  assumes "hole_ok w h n hole" "hole < n" "n \<le> length h" "0 < s" "s < n" "(s - 1) div 2 = hole"
    and best: "\<forall>i. 0 < i \<and> i < n \<and> (i - 1) div 2 = hole \<longrightarrow> w (h ! s) \<le> w (h ! i)"
  shows "hole_ok w (h[hole := h ! s]) n s"
proof -
  note hole = assms(1) [unfolded hole_ok_def]
  have lt: "hole < s" using assms(4,6) by auto
  let ?h = "h[hole := h ! s]"
  show ?thesis
    unfolding hole_ok_def
  proof (intro conjI allI impI)
    fix i assume i: "0 < i \<and> i < n \<and> i \<noteq> s \<and> (i - 1) div 2 \<noteq> s"
    have hl: "hole < length h" using assms by simp
    show "w (?h ! ((i - 1) div 2)) \<le> w (?h ! i)"
    proof (cases "i = hole")
      case True
      then have "w (h ! ((i - 1) div 2)) \<le> w (h ! s)" using hole i assms(4-6) by blast
      then show ?thesis using True parent_less [of i] i hl by simp
    next
      case False
      moreover have "w (h ! s) \<le> w (h ! i)" if "(i - 1) div 2 = hole"
        using best i that by blast
      moreover have "w (h ! ((i - 1) div 2)) \<le> w (h ! i)" if "(i - 1) div 2 \<noteq> hole"
        using hole i that False by blast
      ultimately show ?thesis using hl by (cases "(i - 1) div 2 = hole") simp_all
    qed
  next
    fix i assume i: "0 < s \<and> 0 < i \<and> i < n \<and> (i - 1) div 2 = s"
    then have "i \<noteq> hole" "s < i" using lt parent_less [of i] by auto
    then have "w (h ! s) \<le> w (h ! i)" using hole i lt by auto
    with i lt assms \<open>i \<noteq> hole\<close> show "w (?h ! ((s - 1) div 2)) \<le> w (?h ! i)" by auto
  qed
qed

lemma pick_child_min:
  assumes "hole < (len - 1) div 2" and "s = pick_child (min_cmp w) h (2 * (hole + 1))"
  shows "\<forall>i. 0 < i \<and> i < len \<and> (i - 1) div 2 = hole \<longrightarrow> w (h ! s) \<le> w (h ! i)"
proof (intro allI impI)
  fix i assume "0 < i \<and> i < len \<and> (i - 1) div 2 = hole"
  then have "i = 2 * hole + 1 \<or> i = 2 * (hole + 1)" by auto
  with assms(2) show "w (h ! s) \<le> w (h ! i)" by (auto simp: pick_child_def min_cmp_def)
qed

lemma heap_down_ok:
  "heap_down (min_cmp w) h len hole = (h', hole') \<Longrightarrow> hole < len \<Longrightarrow> len \<le> length h \<Longrightarrow>
     hole_ok w h len hole \<Longrightarrow> hole_ok w h' len hole'"
proof (induction "min_cmp w" h len hole arbitrary: h' hole' rule: heap_down.induct)
  case (1 h len hole)
  show ?case
  proof (cases "hole < (len - 1) div 2")
    case True
    define s where "s = pick_child (min_cmp w) h (2 * (hole + 1))"
    note b = pick_child_bounds [OF True s_def]
    have "hole_ok w (h[hole := h ! s]) len s"
      using hole_ok_move [OF "1.prems"(4,2,3) _ _ _ pick_child_min [OF True s_def]] b by blast
    then show ?thesis
      using "1.hyps" [OF True s_def, of h' hole'] heap_down_step [OF True s_def] "1.prems" b by simp
  next
    case False
    with "1.prems" show ?thesis by (simp add: heap_down_stop)
  qed
qed

lemma no_children: "\<not> hole < (len - 1) div 2 \<Longrightarrow> \<not> (even len \<and> hole = (len - 2) div 2) \<Longrightarrow>
    0 < i \<Longrightarrow> i < len \<Longrightarrow> (i - 1) div 2 \<noteq> hole" for i :: nat
  by (cases "even len") (auto elim!: evenE oddE)

lemma only_child: "even len \<Longrightarrow> hole = (len - 2) div 2 \<Longrightarrow> 0 < i \<Longrightarrow> i < len \<Longrightarrow>
    (i - 1) div 2 = hole \<Longrightarrow> i = len - 1" for i :: nat
proof -
  assume e: "even len" "hole = (len - 2) div 2" and i: "0 < i" "i < len" "(i - 1) div 2 = hole"
  obtain b where b: "len = 2 * b" using e(1) by (elim evenE)
  then have "hole = b - 1" using e(2) by auto
  moreover have "i = 2 * hole + 1 \<or> i = 2 * hole + 2" using i by auto
  ultimately show ?thesis using b i by auto
qed

lemma adjust_heap_ok:
  assumes "0 < len" "len \<le> length h" "heap_ok_on w h len"
  shows "heap_ok_on w (adjust_heap (min_cmp w) h len v) len"
proof -
  obtain h' hole where d: "heap_down (min_cmp w) h len 0 = (h', hole)" by fastforce
  note P = heap_down_props [OF d assms(1,2)]
  have ok: "hole_ok w h' len hole"
    using heap_down_ok [OF d assms(1,2)] heap_ok_hole assms(3) by blast
  show ?thesis
  proof (cases "even len \<and> hole = (len - 2) div 2")
    case True
    let ?s = "len - 1" let ?g = "h'[hole := h' ! ?s]"
    note lc = lone_child [of len hole] and oc = only_child [of len hole]
    have s: "0 < ?s" "?s < len" "(?s - 1) div 2 = hole" using True assms(1) by (auto elim!: evenE)
    have "hole_ok w ?g len ?s"
      using oc True P assms by (intro hole_ok_move [OF ok _ _ s]) auto
    moreover have "below_children w ?g len ?s v"
      using s by (auto simp: below_children_def)
    ultimately have "heap_ok_on w (heap_up (min_cmp w) ?g ?s v) len"
      using s P assms by (intro heap_up_ok) auto
    with True lc assms(1) show ?thesis by (simp add: adjust_heap_def d)
  next
    case False
    have "below_children w h' len hole v"
      using no_children [OF P(5) False] by (auto simp: below_children_def)
    then have "heap_ok_on w (heap_up (min_cmp w) h' hole v) len"
      using ok P assms by (intro heap_up_ok) auto
    with False show ?thesis by (auto simp: adjust_heap_def d)
  qed
qed

lemma heap_ok_on_cong: "(\<And>i. i < n \<Longrightarrow> h ! i = g ! i) \<Longrightarrow> heap_ok_on w h n = heap_ok_on w g n"
proof -
  assume eq: "\<And>i. i < n \<Longrightarrow> h ! i = g ! i"
  have "w (h ! ((i - 1) div 2)) = w (g ! ((i - 1) div 2)) \<and> w (h ! i) = w (g ! i)" if "0 < i" "i < n" for i
    using eq [of i] eq [of "(i - 1) div 2"] that parent_less [of i] by simp
  then show ?thesis unfolding heap_ok_on_def by metis
qed

definition heap_ok :: "('c \<Rightarrow> nat) \<Rightarrow> 'c list \<Rightarrow> bool" where
  "heap_ok w h \<longleftrightarrow> heap_ok_on w h (length h)"

lemma heap_ok_push: "heap_ok w h \<Longrightarrow> heap_ok w (pq_push (min_cmp w) c h)"
proof -
  assume ok: "heap_ok w h"
  have "w ((h @ [c]) ! ((i - 1) div 2)) \<le> w ((h @ [c]) ! i)" if "0 < i" "i < length h" for i
    using ok that parent_less [of i] by (simp add: heap_ok_def heap_ok_on_def nth_append)
  then have "hole_ok w (h @ [c]) (Suc (length h)) (length h)"
    unfolding hole_ok_def by auto
  moreover have "below_children w (h @ [c]) (Suc (length h)) (length h) c"
    unfolding below_children_def by (auto simp: less_Suc_eq_le)
  ultimately show ?thesis
    unfolding heap_ok_def pq_push_def by (simp add: heap_up_ok)
qed

lemma heap_ok_pop: "heap_ok w h \<Longrightarrow> heap_ok w (pq_pop (min_cmp w) h)"
proof (cases "1 < length h")
  case True
  assume ok: "heap_ok w h"
  let ?l = "length h - 1" let ?g = "h[?l := h ! 0]" let ?a = "adjust_heap (min_cmp w) ?g ?l (h ! ?l)"
  have l: "0 < ?l" "?l \<le> length ?g" using True by auto
  have "heap_ok_on w h ?l" using ok by (auto simp: heap_ok_def heap_ok_on_def)
  then have "heap_ok_on w ?g ?l" by (subst heap_ok_on_cong [of ?l ?g h]) auto
  then have "heap_ok_on w ?a ?l" by (rule adjust_heap_ok [OF l])
  then have "heap_ok_on w (butlast ?a) ?l"
    using adjust_heap_props(1) [OF l] by (subst heap_ok_on_cong [of ?l _ ?a]) (auto simp: nth_butlast)
  then show ?thesis using True adjust_heap_props(1) [OF l] by (simp add: heap_ok_def pq_pop_def Let_def)
next
  case False
  then have "length (butlast h) = 0" by simp
  with False show ?thesis by (simp add: heap_ok_def heap_ok_on_def pq_pop_def)
qed

lemma heap_ok_top: "heap_ok w h \<Longrightarrow> i < length h \<Longrightarrow> w (pq_top h) \<le> w (h ! i)"
proof (induction i rule: less_induct)
  case (less i)
  show ?case
  proof (cases "i = 0")
    case True
    then show ?thesis by (simp add: pq_top_def)
  next
    case False
    then have "w (h ! ((i - 1) div 2)) \<le> w (h ! i)" using less.prems by (auto simp: heap_ok_def heap_ok_on_def)
    moreover have "w (pq_top h) \<le> w (h ! ((i - 1) div 2))"
      using less False parent_less [of i] by simp
    ultimately show ?thesis by simp
  qed
qed

section \<open>The queue interface\<close>

text \<open>
  What the generators rely on: a push adds one element, a pop removes the element on top, and a
  push of an element that is not lighter than the top leaves the top in place. The last law is what
  lets \<open>createCubes\<close> push the two branches of the best cube first and pop afterwards.
\<close>

locale cube_queue =
  fixes push :: "'c \<Rightarrow> 'q \<Rightarrow> 'q" and pop :: "'q \<Rightarrow> 'q" and top :: "'q \<Rightarrow> 'c"
    and contents :: "'q \<Rightarrow> 'c multiset" and wt :: "'c \<Rightarrow> nat"
  assumes contents_push: "contents (push c q) = add_mset c (contents q)"
    and contents_pop: "contents q \<noteq> {#} \<Longrightarrow> add_mset (top q) (contents (pop q)) = contents q"
    and top_push: "contents q \<noteq> {#} \<Longrightarrow> wt (top q) \<le> wt c \<Longrightarrow> top (push c q) = top q"
begin

lemma top_in: "contents q \<noteq> {#} \<Longrightarrow> top q \<in># contents q"
  by (metis contents_pop union_single_eq_member)

lemma pop_sub: "contents q \<noteq> {#} \<Longrightarrow> contents (pop q) \<subseteq># contents q"
proof -
  assume "contents q \<noteq> {#}"
  have "contents (pop q) \<subseteq># add_mset (top q) (contents (pop q))" by simp
  also have "\<dots> = contents q" by (rule contents_pop) fact
  finally show ?thesis .
qed

lemma pushes:
  "contents q \<noteq> {#} \<Longrightarrow> \<forall>c\<in>set cs. wt (top q) \<le> wt c \<Longrightarrow>
     contents (fold push cs q) = contents q + mset cs \<and> top (fold push cs q) = top q"
proof (induction cs arbitrary: q)
  case (Cons c cs)
  then have "top (push c q) = top q" using top_push by simp
  then show ?case using Cons.IH [of "push c q"] Cons.prems by (simp add: contents_push)
qed simp

lemma pop_pushes:
  assumes "contents q \<noteq> {#}" "\<forall>c\<in>set cs. wt (top q) \<le> wt c"
  shows "add_mset (top q) (contents (pop (fold push cs q))) = contents q + mset cs"
  using pushes [OF assms] contents_pop [of "fold push cs q"] assms(1) by simp

end

locale ordered_cube_queue = cube_queue push pop top contents wt
  for push :: "'c \<Rightarrow> 'q \<Rightarrow> 'q" and pop :: "'q \<Rightarrow> 'q" and top :: "'q \<Rightarrow> 'c"
    and contents :: "'q \<Rightarrow> 'c multiset" and wt :: "'c \<Rightarrow> nat" +
  fixes ordered :: "'q \<Rightarrow> bool"
  assumes ordered_push: "ordered q \<Longrightarrow> ordered (push c q)"
    and ordered_pop: "ordered q \<Longrightarrow> ordered (pop q)"
    and top_min: "ordered q \<Longrightarrow> c \<in># contents q \<Longrightarrow> wt (top q) \<le> wt c"
begin

lemma ordered_pushes: "ordered q \<Longrightarrow> ordered (fold push cs q)"
  by (induction cs arbitrary: q) (simp_all add: ordered_push)

lemma next_top_not_lighter:
  "ordered q \<Longrightarrow> contents q \<noteq> {#} \<Longrightarrow> contents (pop q) \<noteq> {#} \<Longrightarrow> wt (top q) \<le> wt (top (pop q))"
  by (meson mset_subset_eqD pop_sub top_in top_min)

end

interpretation std_heap: ordered_cube_queue
  "pq_push (min_cmp w)" "pq_pop (min_cmp w)" pq_top mset w "heap_ok w"
  for w :: "'c \<Rightarrow> nat"
proof unfold_locales
  fix c :: 'c and q :: "'c list"
  show "mset (pq_push (min_cmp w) c q) = add_mset c (mset q)" by (rule mset_pq_push)
  show "mset q \<noteq> {#} \<Longrightarrow> add_mset (pq_top q) (mset (pq_pop (min_cmp w) q)) = mset q"
    by (rule mset_pq_pop) simp
  show "mset q \<noteq> {#} \<Longrightarrow> w (pq_top q) \<le> w c \<Longrightarrow> pq_top (pq_push (min_cmp w) c q) = pq_top q"
    unfolding pq_top_def pq_push_def
    by (subst heap_up_root) (auto simp: nth_append min_cmp_def)
  show "heap_ok w q \<Longrightarrow> heap_ok w (pq_push (min_cmp w) c q)" by (rule heap_ok_push)
  show "heap_ok w q \<Longrightarrow> heap_ok w (pq_pop (min_cmp w) q)" by (rule heap_ok_pop)
  show "heap_ok w q \<Longrightarrow> c \<in># mset q \<Longrightarrow> w (pq_top q) \<le> w c"
    by (metis heap_ok_top in_set_conv_nth set_mset_mset)
qed

section \<open>Property\<close>

text \<open>In a heap, \<open>pop\<close> removes the element on top, which no element is lighter than, and leaves a
  heap; \<open>push\<close> adds one element and leaves a heap.\<close>

theorem heap_operations:
  assumes "heap_ok w h"
  shows "mset (pq_push (min_cmp w) c h) = add_mset c (mset h) \<and> heap_ok w (pq_push (min_cmp w) c h) \<and>
    heap_ok w (pq_pop (min_cmp w) h) \<and> (h = [] \<or>
      add_mset (pq_top h) (mset (pq_pop (min_cmp w) h)) = mset h \<and> (\<forall>x\<in>set h. w (pq_top h) \<le> w x))"
  using assms mset_pq_push mset_pq_pop std_heap.ordered_push std_heap.ordered_pop std_heap.top_min
  by fastforce

lemma heap_operations_witness:
  "heap_ok id (pq_pop (min_cmp id) [1::nat, 3, 2]) \<and>
    mset (pq_push (min_cmp id) 0 [1::nat, 3, 2]) = {#0, 1, 2, 3#}"
proof -
  have "heap_ok id [1::nat, 3, 2]" by (auto simp: heap_ok_def heap_ok_on_def less_Suc_eq numeral_3_eq_3)
  from heap_operations [OF this, of 0] show ?thesis by (simp add: add_mset_commute)
qed

end
