(* ===== verification/Cli_Generator.thy ===== *)
theory Cli_Generator
  imports Cli_Propagator Cli_Heuristics Std_Heap
begin

text \<open>
  Class \<open>CubeGenerator\<close> of \<open>cube_gen_cli.cpp\<close>. The record holds the members of the class that
  \<open>createCubes\<close> works on, and the two objects it gets by reference: the list of finished cubes and the
  priority queue. The clock of \<open>generate\<close> is a parameter: \<open>clock i\<close> is the elapsed time read in round
  \<open>i\<close>. Messages on \<open>std::cerr\<close> are not modelled.

  \<open>DanglingTrail\<close> is the read through the pointer of \<open>getTrail\<close> after the trail has moved to another
  buffer (undefined behaviour); \<open>EmptyRange\<close> is the dereferenced \<open>max_element\<close> of no variable.
\<close>

datatype gen_error = DanglingTrail | EmptyRange

record CubeGenerator =
  pruned :: nat
  m_propagator :: Propagator
  m_branchingCubeHeuristic :: JWTSBranchingCubeHeuristic
  m_partialOrderHeuristic :: "PartialOrderHeuristic option"
  g_cubes :: "Lit list list"
  g_queue :: "Cube list"

abbreviation q_push :: "Cube \<Rightarrow> Cube list \<Rightarrow> Cube list" where
  "q_push \<equiv> pq_push (min_cmp weight)"

abbreviation q_pop :: "Cube list \<Rightarrow> Cube list" where
  "q_pop \<equiv> pq_pop (min_cmp weight)"

definition initPropagator :: "nat \<Rightarrow> Formula \<Rightarrow> Propagator" where
  "initPropagator cap0 f = mkPropagator cap0 (nbVar f) (clauses f)"

definition initQueue :: "Propagator \<Rightarrow> (Propagator \<times> Cube list) option" where
  "initQueue P =
     (case propagate P of
        None \<Rightarrow> None
      | Some (ok, P') \<Rightarrow> Some (P', q_push (make_cube (m_trail P')) []))"

text \<open>The loop that loads the best cube into the propagator.\<close>

definition fill_lit :: "Lit \<Rightarrow> Propagator \<Rightarrow> Propagator" where
  "fill_lit l P = (if 1 < value_of P l then uncheckedEnqueue l P else P)"

definition fill :: "Lit list \<Rightarrow> Propagator \<Rightarrow> Propagator" where
  "fill ls P = fold fill_lit ls P"

text \<open>
  One branch: the literal is enqueued and propagated; unless this fails, the trail is read through
  the pointer \<open>trail\<close> taken before and pushed as a cube.
\<close>

definition push_branch :: "nat \<Rightarrow> Lit \<Rightarrow> Propagator \<Rightarrow> CubeGenerator \<Rightarrow> (gen_error + CubeGenerator) option" where
  "push_branch trail l P S =
     (case propagate (uncheckedEnqueue l P) of
        None \<Rightarrow> None
      | Some (ok, P') \<Rightarrow>
          Some (if ok then
                  (if getTrail P' = trail then
                     Inr (S\<lparr>m_propagator := P', g_queue := q_push (make_cube (m_trail P')) (g_queue S)\<rparr>)
                   else Inl DanglingTrail)
                else Inr (S\<lparr>m_propagator := P', pruned := pruned S + 1\<rparr>)))"

text \<open>The part of \<open>createCubes\<close> that branches on the variable \<open>v\<close>.\<close>

definition split_cube :: "Var \<Rightarrow> CubeGenerator \<Rightarrow> (gen_error + CubeGenerator) option" where
  "split_cube v S =
     (let trail = getTrail (m_propagator S); sizeTrail = length (m_trail (m_propagator S))
      in case push_branch trail (makeLitTrue v) (m_propagator S) S of
           None \<Rightarrow> None
         | Some (Inl e) \<Rightarrow> Some (Inl e)
         | Some (Inr S1) \<Rightarrow>
             (case push_branch trail (makeLitFalse v) (cancelUntilPos sizeTrail (m_propagator S1)) S1 of
                None \<Rightarrow> None
              | Some (Inl e) \<Rightarrow> Some (Inl e)
              | Some (Inr S2) \<Rightarrow> Some (Inr (S2\<lparr>g_queue := q_pop (g_queue S2)\<rparr>))))"

definition load :: "CubeGenerator \<Rightarrow> (bool \<times> Propagator) option" where
  "load S = propagate (fill (lits (pq_top (g_queue S))) (restart (m_propagator S)))"

definition createCubes :: "CubeGenerator \<Rightarrow> (gen_error + CubeGenerator) option" where
  "createCubes S =
     (let cBest = pq_top (g_queue S)
      in case load S of
           None \<Rightarrow> None
         | Some (ok, P) \<Rightarrow>
             if \<not> ok \<or> m_unsat P then
               Some (Inr (S\<lparr>m_propagator := P, g_queue := q_pop (g_queue S), pruned := pruned S + 1\<rparr>))
             else
               (case next_var (m_partialOrderHeuristic S) (m_branchingCubeHeuristic S) (lits cBest) of
                  (v, h) \<Rightarrow>
                    (let S1 = S\<lparr>m_propagator := P, m_branchingCubeHeuristic := h\<rparr>
                     in if v = var_Undef then
                          Some (Inr (S1\<lparr>g_cubes := g_cubes S1 @ [lits cBest], g_queue := q_pop (g_queue S1)\<rparr>))
                        else split_cube v S1)))"

partial_function (option) generate_loop ::
  "OptionCubeGenerator \<Rightarrow> (nat \<Rightarrow> double) \<Rightarrow> nat \<Rightarrow> CubeGenerator \<Rightarrow> (gen_error + CubeGenerator) option" where
  [code]: "generate_loop options clock i S =
     (if int (length (g_queue S)) mod 2 ^ 32 < numCubes options then
        (if g_queue S = [] then Some (Inr S)
         else if dless (timeoutSec options) (clock i) then Some (Inr S)
         else (case createCubes S of
                 None \<Rightarrow> None
               | Some r \<Rightarrow> (case r of Inl e \<Rightarrow> Some (Inl e) | Inr S' \<Rightarrow> generate_loop options clock (Suc i) S')))
      else Some (Inr S))"

text \<open>The final loop moves the cubes of the queue to the result.\<close>

function collect :: "Cube list \<Rightarrow> Lit list list \<Rightarrow> Lit list list" where
  "collect q cubes = (if q = [] then cubes else collect (q_pop q) (cubes @ [lits (pq_top q)]))"
  by pat_completeness auto
termination
  by (relation "measure (\<lambda>(q, cubes). length q)") (auto dest: pq_pop_shorter)

declare collect.simps [simp del]

text \<open>\<open>generate\<close> appends to the cubes it is given and adds to the member \<open>pruned\<close>.\<close>

definition generate :: "nat \<Rightarrow> (nat \<Rightarrow> double) \<Rightarrow> Formula \<Rightarrow> OptionCubeGenerator \<Rightarrow> nat \<Rightarrow> Lit list list \<Rightarrow>
    (gen_error + nat \<times> Lit list list) option" where
  "generate cap0 clock f options pruned0 cubes0 =
     (case make_partial_order f (useMinDeg options) of
        None \<Rightarrow> Some (Inl EmptyRange)
      | Some po \<Rightarrow>
          (case initQueue (initPropagator cap0 f) of
             None \<Rightarrow> None
           | Some (P, q) \<Rightarrow>
               (case generate_loop options clock 0
                  \<lparr>pruned = pruned0, m_propagator = P, m_branchingCubeHeuristic = mkJWTS f,
                   m_partialOrderHeuristic = Some po, g_cubes = cubes0, g_queue = q\<rparr> of
                  None \<Rightarrow> None
                | Some (Inl e) \<Rightarrow> Some (Inl e)
                | Some (Inr S) \<Rightarrow> Some (Inr (pruned S, collect (g_queue S) (g_cubes S))))))"

text \<open>The exported scores: the cached ones where the cache has them, 1.0 elsewhere.\<close>

definition getPartialOrderScores :: "double list \<Rightarrow> int \<Rightarrow> double list" where
  "getPartialOrderScores cached n =
     fold (\<lambda>i a. vset a i (if i < int (length cached) then vget cached i else done1)) [1..n]
       (replicate (nat (n + 1)) done1)"


section \<open>Loading a cube\<close>

lemma fill_Cons [simp]: "fill (l # ls) P = fill ls (fill_lit l P)" and fill_Nil [simp]: "fill [] P = P"
  by (simp_all add: fill_def)

lemma fill_lit_cases:
  assumes "pwf P" "wf_lit (m_n P) l"
  shows "fill_lit l P = (if var l \<in> var ` set (m_trail P) then P else uncheckedEnqueue l P)"
proof -
  have "value_of P l = 2 \<longleftrightarrow> var l \<notin> var ` set (m_trail P)"
    using value_unassigned [of P l] assms by (simp add: pwf_def)
  then show ?thesis using value_of_range [of P l] by (auto simp: fill_lit_def)
qed

lemma fill_lit_ok:
  assumes "pwf P" "wf_lit (m_n P) l" "distinct (map var (m_trail P))"
  shows "pwf (fill_lit l P)" "m_n (fill_lit l P) = m_n P" "m_clauses (fill_lit l P) = m_clauses P"
    "distinct (map var (m_trail (fill_lit l P)))" "same_buffer P (fill_lit l P)"
    "set (m_trail (fill_lit l P)) \<subseteq> insert l (set (m_trail P))"
    "var ` set (m_trail (fill_lit l P)) = insert (var l) (var ` set (m_trail P))"
  using assms pwf_enqueue [OF assms(1,2)] same_buffer_enqueue [of P l]
  by (auto simp: fill_lit_cases [OF assms(1,2)] same_buffer_def)

lemma fill_ok:
  "pwf P \<Longrightarrow> \<forall>l\<in>set ls. wf_lit (m_n P) l \<Longrightarrow> distinct (map var (m_trail P)) \<Longrightarrow>
     pwf (fill ls P) \<and> m_n (fill ls P) = m_n P \<and> m_clauses (fill ls P) = m_clauses P \<and>
     distinct (map var (m_trail (fill ls P))) \<and> same_buffer P (fill ls P) \<and>
     set (m_trail (fill ls P)) \<subseteq> set (m_trail P) \<union> set ls \<and>
     var ` set (m_trail (fill ls P)) = var ` set (m_trail P) \<union> var ` set ls"
proof (induction ls arbitrary: P)
  case (Cons l ls)
  have l: "wf_lit (m_n P) l" using Cons.prems by simp
  note f = fill_lit_ok [OF Cons.prems(1) l Cons.prems(3)]
  have "pwf (fill ls (fill_lit l P)) \<and> m_n (fill ls (fill_lit l P)) = m_n P \<and>
     m_clauses (fill ls (fill_lit l P)) = m_clauses P \<and>
     distinct (map var (m_trail (fill ls (fill_lit l P)))) \<and> same_buffer (fill_lit l P) (fill ls (fill_lit l P)) \<and>
     set (m_trail (fill ls (fill_lit l P))) \<subseteq> set (m_trail (fill_lit l P)) \<union> set ls \<and>
     var ` set (m_trail (fill ls (fill_lit l P))) = var ` set (m_trail (fill_lit l P)) \<union> var ` set ls"
    using Cons.IH [OF f(1) _ f(4)] Cons.prems(2) f(2,3) by simp
  with f(5-7) show ?case using same_buffer_trans [OF f(5)] by auto
qed (simp add: same_buffer_def)

lemma fill_fresh:
  "pwf P \<Longrightarrow> \<forall>l\<in>set ls. wf_lit (m_n P) l \<Longrightarrow> distinct (map var (m_trail P @ ls)) \<Longrightarrow>
     m_trail (fill ls P) = m_trail P @ ls"
proof (induction ls arbitrary: P)
  case (Cons l ls)
  have l: "wf_lit (m_n P) l" using Cons.prems by simp
  have f: "fill_lit l P = uncheckedEnqueue l P"
    using Cons.prems fill_lit_cases [OF Cons.prems(1) l] by auto
  then show ?case
    using Cons.IH [of "uncheckedEnqueue l P"] Cons.prems pwf_enqueue [OF Cons.prems(1) l] by simp
qed simp

section \<open>The trail buffer\<close>

text \<open>A vector with room for one literal more than there are variables never moves.\<close>

definition roomy :: "Propagator \<Rightarrow> bool" where
  "roomy P \<longleftrightarrow> nat (m_n P + 1) \<le> m_capacity P"

lemma roomy_stays:
  "roomy P \<Longrightarrow> same_buffer P Q \<Longrightarrow> m_n Q = m_n P \<Longrightarrow> length (m_trail Q) \<le> nat (m_n P + 1) \<Longrightarrow>
     roomy Q \<and> getTrail Q = getTrail P"
  by (simp add: roomy_def same_buffer_def getTrail_def)

lemma propagate_same_buffer: "pwf P \<Longrightarrow> propagate P = Some (ok, Q) \<Longrightarrow> same_buffer P Q"
  using propagate_total [of P] by (auto simp: ext_def)

lemma cancel_loop_buffer: "m_capacity (cancel_loop pos P) = m_capacity P \<and>
    m_buffer (cancel_loop pos P) = m_buffer P \<and> m_n (cancel_loop pos P) = m_n P"
proof (induction pos P rule: cancel_loop.induct)
  case (1 pos P)
  then show ?case by (subst (1 2 3) cancel_loop.simps) simp
qed

lemma roomy_cancel [simp]: "roomy (cancelUntilPos pos P) = roomy P"
  "getTrail (cancelUntilPos pos P) = getTrail P" "m_n (cancelUntilPos pos P) = m_n P"
  using cancel_loop_buffer [of pos P] by (auto simp: cancelUntilPos_def Let_def roomy_def getTrail_def)

lemma roomy_restart [simp]: "roomy (restart P) = roomy P"
  by (simp add: roomy_def restart_def)

lemma distinct_vars_length:
  assumes "distinct (map var t)" "\<forall>l\<in>set t. wf_lit n l"
  shows "length t \<le> nat n"
proof -
  have "length t = card (var ` set t)" using assms(1) by (metis distinct_card length_map set_map)
  also have "\<dots> \<le> card {1..n}" using assms(2) by (intro card_mono) (auto simp: wf_lit_def)
  finally show ?thesis by simp
qed


section \<open>Splitting a cube\<close>

definition cube_ok :: "int \<Rightarrow> Cube \<Rightarrow> bool" where
  "cube_ok n c \<longleftrightarrow> (\<forall>l\<in>set (lits c). wf_lit n l) \<and> weight c = length (lits c) \<and>
     length (lits c) \<le> card (var ` set (lits c)) + 1"

lemma lits_make_cube [simp]: "lits (make_cube ls) = ls" "weight (make_cube ls) = length ls"
  by (simp_all add: make_cube_def)

lemma cube_ok_branch:
  assumes "distinct (map var t)" "distinct (map var new)" "var ` set new \<inter> insert (var p) (var ` set t) = {}"
    and "\<forall>l\<in>set (t @ p # new). wf_lit n l"
  shows "cube_ok n (make_cube (t @ p # new)) \<and> length (t @ p # new) \<le> nat (n + 1)"
proof -
  have d: "distinct (map var (t @ new))" using assms by auto
  then have "length (t @ new) = card (var ` set (t @ new))" by (metis distinct_card length_map set_map)
  also have "\<dots> \<le> card (var ` set (t @ p # new))" by (rule card_mono) auto
  finally have "length (t @ p # new) \<le> card (var ` set (t @ p # new)) + 1" by simp
  moreover have "length (t @ new) \<le> nat n" using distinct_vars_length [OF d] assms(4) by auto
  moreover from this have "length (t @ p # new) \<le> nat (n + 1)" using assms(4) by (auto simp: wf_lit_def)
  ultimately show ?thesis using assms(4) by (simp add: cube_ok_def)
qed

lemma push_branch_eq:
  "propagate (uncheckedEnqueue l P) = Some (ok, Q) \<Longrightarrow> getTrail Q = t \<Longrightarrow>
     push_branch t l P S = Some (Inr (S\<lparr>m_propagator := Q,
       pruned := pruned S + (if ok then 0 else 1),
       g_queue := fold q_push (if ok then [make_cube (m_trail Q)] else []) (g_queue S)\<rparr>))"
  by (simp add: push_branch_def)

lemma enqueue_same_buffer:
  assumes "pwf P" "wf_lit (m_n P) l" "propagate (uncheckedEnqueue l P) = Some (ok, Q)"
  shows "same_buffer P Q"
  using same_buffer_trans [OF same_buffer_enqueue propagate_same_buffer [OF pwf_enqueue [OF assms(1,2)] assms(3)]] .

text \<open>
  What \<open>split_cube\<close> returns: the trail has room, so the pointer is still valid; the children are the
  branches whose propagation succeeds, each longer than the trail and with one more variable, and
  together they keep every model of the formula that is in the trail.
\<close>

lemma split_cube_ok:
  assumes P: "pwf P" "roomy P" "distinct (map var (m_trail P))" and v: "1 \<le> v" "v \<le> m_n P"
    and S: "m_propagator S = P"
  obtains S' kids ok1 ok2 new1 new2 where "split_cube v S = Some (Inr S')"
    "kids = (if ok1 then [make_cube (m_trail P @ makeLitTrue v # new1)] else []) @
            (if ok2 then [make_cube (m_trail P @ makeLitFalse v # new2)] else [])"
    "g_queue S' = q_pop (fold q_push kids (g_queue S))" "g_cubes S' = g_cubes S"
    "m_branchingCubeHeuristic S' = m_branchingCubeHeuristic S"
    "m_partialOrderHeuristic S' = m_partialOrderHeuristic S"
    "pruned S' + length kids = pruned S + 2"
    "pwf (m_propagator S')" "roomy (m_propagator S')" "m_n (m_propagator S') = m_n P"
    "m_clauses (m_propagator S') = m_clauses P"
    "distinct (map var new1)" "var ` set new1 \<inter> insert v (var ` set (m_trail P)) = {}"
    "distinct (map var new2)" "var ` set new2 \<inter> insert v (var ` set (m_trail P)) = {}"
    "\<And>c. c \<in> set kids \<Longrightarrow> cube_ok (m_n P) c"
    "\<And>m. models m (m_clauses P) \<Longrightarrow> in_cube m (m_trail P) \<Longrightarrow> \<exists>c\<in>set kids. in_cube m (lits c)"
proof -
  let ?p = "makeLitTrue v" let ?q = "makeLitFalse v" let ?k = "length (m_trail P)"
  have pq: "var ?p = v" "var ?q = v" using v by simp_all
  have vv: "var ?p = var ?q" "0 < var ?p" "var ?p \<le> m_n P" using v by simp_all
  obtain ok1 Q1 new1 ok2 Q2 new2 where
    Q: "propagate (uncheckedEnqueue ?p P) = Some (ok1, Q1)"
    "propagate (uncheckedEnqueue ?q (cancelUntilPos ?k Q1)) = Some (ok2, Q2)"
    "pwf Q2" "m_clauses Q2 = m_clauses P" "m_n Q2 = m_n P"
    and t: "m_trail Q1 = m_trail P @ ?p # new1" "m_trail Q2 = m_trail P @ ?q # new2"
    and n': "distinct (map var new1)" "var ` set new1 \<inter> insert (var ?p) (var ` set (m_trail P)) = {}"
      "distinct (map var new2)" "var ` set new2 \<inter> insert (var ?p) (var ` set (m_trail P)) = {}"
    and m: "\<And>m. models m (m_clauses P) \<Longrightarrow> in_cube m (m_trail P) \<Longrightarrow> lit_true m ?p \<Longrightarrow>
        ok1 \<and> in_cube m (m_trail Q1)"
      "\<And>m. models m (m_clauses P) \<Longrightarrow> in_cube m (m_trail P) \<Longrightarrow> lit_true m ?q \<Longrightarrow>
        ok2 \<and> in_cube m (m_trail Q2)"
    and wf: "\<forall>l\<in>set (m_trail Q1) \<union> set (m_trail Q2). 0 < var l \<and> var l \<le> m_n P"
    by (rule cli_prop.branch [OF P(1) vv]) (rule that; assumption)
  note n = n' [unfolded pq]
  let ?kids = "(if ok1 then [make_cube (m_trail Q1)] else []) @ (if ok2 then [make_cube (m_trail Q2)] else [])"
  have c: "cube_ok (m_n P) (make_cube (m_trail Q1)) \<and> length (m_trail Q1) \<le> nat (m_n P + 1)"
    "cube_ok (m_n P) (make_cube (m_trail Q2)) \<and> length (m_trail Q2) \<le> nat (m_n P + 1)"
    using cube_ok_branch [OF P(3) n(1), of ?p "m_n P"] cube_ok_branch [OF P(3) n(3), of ?q "m_n P"]
      n wf pq by (auto simp: t wf_lit_def)
  have e: "wf_lit (m_n P) ?p" "pwf (uncheckedEnqueue ?p P)" using v pwf_enqueue [OF P(1)] by (auto simp: wf_lit_def)
  have Q1: "pwf Q1" "m_n Q1 = m_n P" using propagate_total [OF e(2)] Q(1) by (auto simp: ext_def)
  have b1: "roomy Q1" "getTrail Q1 = getTrail P"
    using roomy_stays [OF P(2) enqueue_same_buffer [OF P(1) e(1) Q(1)] Q1(2)] c(1) by auto
  let ?R = "cancelUntilPos ?k Q1"
  have "var ` set (?p # new1) \<inter> var ` set (m_trail P) \<subseteq> {v}" using n(2) pq by auto
  note R = cancelUntilPos_ok [OF Q1(1) t(1) this]
  have RQ: "pwf (uncheckedEnqueue ?q ?R)"
    using trail_ok_enqueue [OF R(1) _ R(2)] static_ok_enqueue [OF R(1)] v pq Q1(2)
    by (simp add: pwf_def wf_lit_def)
  have "same_buffer ?R Q2"
    by (rule same_buffer_trans [OF same_buffer_enqueue propagate_same_buffer [OF RQ Q(2)]])
  then have b2: "roomy Q2" "getTrail Q2 = getTrail P"
    using roomy_stays [of ?R Q2] b1 c(2) Q1(2) Q(5) by auto
  let ?S1 = "S\<lparr>m_propagator := Q1, pruned := pruned S + (if ok1 then 0 else 1),
      g_queue := fold q_push (if ok1 then [make_cube (m_trail Q1)] else []) (g_queue S)\<rparr>"
  let ?S2 = "?S1\<lparr>m_propagator := Q2, pruned := pruned ?S1 + (if ok2 then 0 else 1),
      g_queue := fold q_push (if ok2 then [make_cube (m_trail Q2)] else []) (g_queue ?S1)\<rparr>"
  have "push_branch (getTrail P) ?p P S = Some (Inr ?S1)" by (rule push_branch_eq [OF Q(1) b1(2)])
  moreover have "push_branch (getTrail P) ?q ?R ?S1 = Some (Inr ?S2)" by (rule push_branch_eq [OF Q(2) b2(2)])
  ultimately have split: "split_cube v S = Some (Inr (?S2\<lparr>g_queue := q_pop (g_queue ?S2)\<rparr>))"
    by (simp add: split_cube_def S Let_def)
  have cov: "\<exists>c\<in>set ?kids. in_cube mm (lits c)" if "models mm (m_clauses P)" "in_cube mm (m_trail P)" for mm
    using m(1) [OF that] m(2) [OF that] v by (cases "mm v") (auto simp: lit_true_makeLitTrue lit_true_makeLitFalse)
  have ck: "cube_ok (m_n P) x" if "x \<in> set ?kids" for x
    using that c by (cases ok1; cases ok2) auto
  have k: "?kids = (if ok1 then [make_cube (m_trail P @ ?p # new1)] else []) @
      (if ok2 then [make_cube (m_trail P @ ?q # new2)] else [])" by (simp only: t)
  show ?thesis
    by (rule that [OF split k _ _ _ _ _ _ _ _ _ n ck cov]) (use b2 Q in simp_all)
qed


section \<open>Loading the best cube\<close>

definition gen_static :: "Formula \<Rightarrow> CubeGenerator \<Rightarrow> bool" where
  "gen_static f S \<longleftrightarrow> pwf (m_propagator S) \<and> roomy (m_propagator S) \<and>
     m_n (m_propagator S) = nbVar f \<and> m_clauses (m_propagator S) = clauses f \<and>
     jwts_ok (m_branchingCubeHeuristic S) \<and> po_nonneg (m_partialOrderHeuristic S) \<and>
     m_nbVars (m_branchingCubeHeuristic S) = nbVar f"

definition queue_ok :: "int \<Rightarrow> Cube list \<Rightarrow> bool" where
  "queue_ok n q \<longleftrightarrow> (\<forall>c\<in>set q. cube_ok n c) \<and> heap_ok weight q"

definition gen_inv :: "Formula \<Rightarrow> CubeGenerator \<Rightarrow> bool" where
  "gen_inv f S \<longleftrightarrow> gen_static f S \<and> queue_ok (nbVar f) (g_queue S)"

lemma fill_unsat [simp]: "m_unsat (fill ls P) = m_unsat P"
  by (induction ls arbitrary: P) (simp_all add: fill_lit_def uncheckedEnqueue_def Let_def)

lemma load_ok:
  assumes S: "gen_static f S" and c: "cube_ok (nbVar f) (pq_top (g_queue S))"
  obtains ok P where "load S = Some (ok, P)" "pwf P" "roomy P" "m_n P = nbVar f" "m_clauses P = clauses f"
    "distinct (map var (m_trail P))" "ok \<Longrightarrow> \<not> m_unsat P"
    "\<And>m. models m (clauses f) \<Longrightarrow> in_cube m (lits (pq_top (g_queue S))) \<Longrightarrow> ok \<and> in_cube m (m_trail P)"
    "var ` set (lits (pq_top (g_queue S))) \<subseteq> var ` set (m_trail P)"
    "weight (pq_top (g_queue S)) \<le> length (m_trail P) + 1"
    "distinct (map var (lits (pq_top (g_queue S)))) \<Longrightarrow>
       length (lits (pq_top (g_queue S))) = length (m_trail P) \<Longrightarrow> m_trail P = lits (pq_top (g_queue S))"
    "{1..nbVar f} \<subseteq> var ` set (lits (pq_top (g_queue S))) \<Longrightarrow> set (m_trail P) \<subseteq> set (lits (pq_top (g_queue S)))"
proof -
  let ?c = "lits (pq_top (g_queue S))" let ?R = "restart (m_propagator S)"
  have P: "pwf (m_propagator S)" "m_n ?R = nbVar f" "m_clauses ?R = clauses f"
    using S restart_ok [of "m_propagator S"] by (auto simp: gen_static_def)
  note R = restart_ok [OF P(1)]
  have wf: "\<forall>l\<in>set ?c. wf_lit (m_n ?R) l" using c P by (simp add: cube_ok_def)
  have d: "distinct (map var (m_trail ?R))" by (simp add: R)
  note F = fill_ok [OF R(1) wf d]
  obtain ok Q where Q: "propagate (fill ?c ?R) = Some (ok, Q)" "ext (fill ?c ?R) Q"
      "ok \<longrightarrow> m_unsat Q = m_unsat (fill ?c ?R)"
      "\<not> ok \<longrightarrow> (\<forall>m. models m (m_clauses (fill ?c ?R)) \<longrightarrow> \<not> in_cube m (m_trail (fill ?c ?R)))"
    using propagate_total [of "fill ?c ?R"] F by blast
  obtain new where new: "m_trail Q = m_trail (fill ?c ?R) @ new" "distinct (map var new)"
      "var ` set new \<inter> var ` set (m_trail (fill ?c ?R)) = {}"
    using Q(2) by (auto simp: ext_def fresh_ext_def)
  have Q': "pwf Q" "m_n Q = nbVar f" "m_clauses Q = clauses f" using Q(2) F P by (auto simp: ext_def)
  have dQ: "distinct (map var (m_trail Q))" using F new by auto
  have "length (m_trail Q) \<le> nat (nbVar f + 1)"
    using distinct_vars_length [OF dQ] Q' by (fastforce simp: pwf_def trail_ok_def)
  moreover have "same_buffer ?R Q" using F Q(2) same_buffer_trans by (auto simp: ext_def)
  ultimately have room: "roomy Q" using roomy_stays [of ?R Q] S P Q' by (simp add: gen_static_def)
  have "in_cube m ?c \<Longrightarrow> in_cube m (m_trail (fill ?c ?R))" for m
    using F R(2) by (auto simp: truth_simps)
  then have sound: "ok \<and> in_cube m (m_trail Q)" if "models m (clauses f)" "in_cube m ?c" for m
    using that Q(2,4) F P by (auto simp: ext_def)
  have vars: "var ` set ?c = var ` set (m_trail (fill ?c ?R))" using F R(2) by simp
  then have "card (var ` set ?c) = length (m_trail (fill ?c ?R))"
    using F by (metis distinct_card length_map set_map)
  then have wt: "weight (pq_top (g_queue S)) \<le> length (m_trail Q) + 1"
    using c new(1) by (simp add: cube_ok_def)
  have "m_trail Q = ?c" if "distinct (map var ?c)" "length ?c = length (m_trail Q)"
    using fill_fresh [OF R(1) wf] that new(1) R(2) by simp
  note ex = this
  have tot: "set (m_trail Q) \<subseteq> set ?c" if "{1..nbVar f} \<subseteq> var ` set ?c"
  proof -
    have "var ` set new \<subseteq> {1..nbVar f}" using pwf_trail_range [OF Q'(1)] Q'(2) new(1) by auto
    then have "new = []" using that vars new(3) by (cases new) auto
    then show ?thesis using F R(2) new(1) by simp
  qed
  have L: "load S = Some (ok, Q)" "ok \<Longrightarrow> \<not> m_unsat Q" using Q(1,3) R(5) by (simp_all add: load_def)
  have V: "var ` set ?c \<subseteq> var ` set (m_trail Q)" using vars new(1) by auto
  show ?thesis
  proof (rule that [of ok Q])
    show "ok \<and> in_cube m (m_trail Q)" if "models m (clauses f)" "in_cube m ?c" for m
      using that by (rule sound)
  qed (use L Q' room dQ V wt ex tot in simp_all)
qed


section \<open>One round of createCubes\<close>

definition open_vars :: "int \<Rightarrow> Cube \<Rightarrow> nat" where
  "open_vars n c = card ({1..n} - var ` set (lits c))"

text \<open>The assertion of the distributed generator: the loaded trail has as many literals as the cube.\<close>

definition paper_assertion :: "CubeGenerator \<Rightarrow> bool" where
  "paper_assertion S =
     (case load S of
        Some (True, P) \<Rightarrow> length (lits (pq_top (g_queue S))) = length (m_trail P)
      | _ \<Rightarrow> True)"

text \<open>
  The children of a cube and the finished cubes: nothing when the cube is refuted, the cube itself
  when it has every variable, otherwise at most two cubes with more variables.
\<close>

definition expands :: "Formula \<Rightarrow> Cube \<Rightarrow> Cube list \<Rightarrow> Lit list list \<Rightarrow> bool" where
  "expands f c kids fin \<longleftrightarrow>
     (fin = [] \<or> fin = [lits c] \<and> kids = [] \<and> {1..nbVar f} \<subseteq> var ` set (lits c)) \<and> length kids \<le> 2 \<and>
     (\<forall>k\<in>set kids. cube_ok (nbVar f) k \<and> weight c \<le> weight k \<and> open_vars (nbVar f) k < open_vars (nbVar f) c) \<and>
     (\<forall>m. models m (clauses f) \<longrightarrow> in_cube m (lits c) \<longrightarrow>
        (\<exists>k\<in>set kids. in_cube m (lits k)) \<or> (\<exists>d\<in>set fin. in_cube m d))"

definition splits_exactly :: "Cube \<Rightarrow> Cube list \<Rightarrow> bool" where
  "splits_exactly c kids \<longleftrightarrow> pairwise_clash (map lits kids) \<and>
     (\<forall>k\<in>set kids. set (lits c) \<subseteq> set (lits k) \<and> distinct (map var (lits k)))"

lemma queue_step:
  assumes q: "queue_ok n q" "q \<noteq> []" and k: "\<forall>k\<in>set kids. cube_ok n k \<and> weight (pq_top q) \<le> weight k"
  shows "queue_ok n (q_pop (fold q_push kids q))"
    "add_mset (pq_top q) (mset (q_pop (fold q_push kids q))) = mset q + mset kids"
proof -
  show m: "add_mset (pq_top q) (mset (q_pop (fold q_push kids q))) = mset q + mset kids"
    using std_heap.pop_pushes [of q kids weight] q k by simp
  have "set_mset (mset (q_pop (fold q_push kids q))) \<subseteq> set_mset (mset q + mset kids)"
    unfolding m [symmetric] by auto
  then show "queue_ok n (q_pop (fold q_push kids q))"
    using q k by (auto simp: queue_ok_def intro: std_heap.ordered_pushes std_heap.ordered_pop)
qed

lemma createCubes_ok:
  assumes S: "gen_inv f S" "g_queue S \<noteq> []"
  obtains S' kids fin where "createCubes S = Some (Inr S')" "gen_inv f S'"
    "add_mset (pq_top (g_queue S)) (mset (g_queue S')) = mset (g_queue S) + mset kids"
    "g_cubes S' = g_cubes S @ fin" "expands f (pq_top (g_queue S)) kids fin"
    "paper_assertion S \<Longrightarrow> distinct (map var (lits (pq_top (g_queue S)))) \<Longrightarrow>
       splits_exactly (pq_top (g_queue S)) kids"
proof -
  let ?q = "g_queue S" let ?c = "pq_top ?q" let ?n = "nbVar f"
  have st: "gen_static f S" and q: "queue_ok ?n ?q" using S by (auto simp: gen_inv_def)
  have c: "cube_ok ?n ?c" using q S(2) std_heap.top_in [of ?q] by (auto simp: queue_ok_def)
  have wf: "\<forall>l\<in>set (lits ?c). wf_lit ?n l" using c by (simp add: cube_ok_def)
  obtain ok P where P: "load S = Some (ok, P)" "pwf P" "roomy P" "m_n P = ?n" "m_clauses P = clauses f"
    "distinct (map var (m_trail P))" "ok \<Longrightarrow> \<not> m_unsat P"
    and sound: "\<And>m. models m (clauses f) \<Longrightarrow> in_cube m (lits ?c) \<Longrightarrow> ok \<and> in_cube m (m_trail P)"
    and vars: "var ` set (lits ?c) \<subseteq> var ` set (m_trail P)" and wt: "weight ?c \<le> length (m_trail P) + 1"
    and exact: "distinct (map var (lits ?c)) \<Longrightarrow> length (lits ?c) = length (m_trail P) \<Longrightarrow> m_trail P = lits ?c"
    by (rule load_ok [OF st c]) (rule that; assumption)
  obtain v h where nx: "next_var (m_partialOrderHeuristic S) (m_branchingCubeHeuristic S) (lits ?c) = (v, h)"
    by fastforce
  have h: "jwts_ok h \<and> m_nbVars h = ?n"
      "v = var_Undef \<and> {1..?n} \<subseteq> var ` set (lits ?c) \<or> 1 \<le> v \<and> v \<le> ?n \<and> v \<notin> var ` set (lits ?c)"
    using next_var_spec [OF _ _ _ nx] st wf by (auto simp: gen_static_def)
  note pop = queue_step [OF q S(2), of "[]"]
  consider "\<not> ok" | "ok" "v = var_Undef" | "ok" "v \<noteq> var_Undef" by blast
  then show ?thesis
  proof cases
    case 1
    show ?thesis
      by (rule that [of "S\<lparr>m_propagator := P, g_queue := q_pop ?q, pruned := pruned S + 1\<rparr>" "[]" "[]"])
        (use 1 P st pop sound in \<open>auto simp: createCubes_def Let_def gen_inv_def gen_static_def expands_def
          splits_exactly_def\<close>)
  next
    case 2
    then have "{1..?n} \<subseteq> var ` set (lits ?c)" using h(2) by (auto simp: var_Undef_def)
    with 2 show ?thesis
      by (intro that [of "S\<lparr>m_propagator := P, m_branchingCubeHeuristic := h,
            g_cubes := g_cubes S @ [lits ?c], g_queue := q_pop ?q\<rparr>" "[]" "[lits ?c]"])
        (use P st pop h(1) nx in \<open>auto simp: createCubes_def Let_def gen_inv_def gen_static_def expands_def
          splits_exactly_def\<close>)
  next
    case 3
    then have v: "1 \<le> v" "v \<le> m_n P" "v \<notin> var ` set (lits ?c)" using h(2) P(4) by auto
    let ?S1 = "S\<lparr>m_propagator := P, m_branchingCubeHeuristic := h\<rparr>"
    have S1: "m_propagator ?S1 = P" by simp
    obtain S' kids ok1 ok2 new1 new2 where sp: "split_cube v ?S1 = Some (Inr S')"
      and kids: "kids = (if ok1 then [make_cube (m_trail P @ makeLitTrue v # new1)] else []) @
            (if ok2 then [make_cube (m_trail P @ makeLitFalse v # new2)] else [])"
      and g: "g_queue S' = q_pop (fold q_push kids (g_queue ?S1))" "g_cubes S' = g_cubes ?S1"
        "m_branchingCubeHeuristic S' = m_branchingCubeHeuristic ?S1"
        "m_partialOrderHeuristic S' = m_partialOrderHeuristic ?S1"
      and Q: "pwf (m_propagator S')" "roomy (m_propagator S')" "m_n (m_propagator S') = m_n P"
        "m_clauses (m_propagator S') = m_clauses P"
      and d: "distinct (map var new1)" "var ` set new1 \<inter> insert v (var ` set (m_trail P)) = {}"
        "distinct (map var new2)" "var ` set new2 \<inter> insert v (var ` set (m_trail P)) = {}"
      and ck: "\<And>c. c \<in> set kids \<Longrightarrow> cube_ok (m_n P) c"
      and cov: "\<And>m. models m (m_clauses P) \<Longrightarrow> in_cube m (m_trail P) \<Longrightarrow> \<exists>c\<in>set kids. in_cube m (lits c)"
      by (rule split_cube_ok [OF P(2,3,6) v(1,2) S1]) (rule that; assumption)
    have kid: "cube_ok ?n k \<and> weight ?c \<le> weight k \<and> open_vars ?n k < open_vars ?n ?c" if k: "k \<in> set kids" for k
    proof -
      have "weight ?c \<le> weight k" "insert v (var ` set (lits ?c)) \<subseteq> var ` set (lits k)"
        using k wt vars v(1) by (auto simp: kids split: if_splits)
      moreover from this have "open_vars ?n k < open_vars ?n ?c"
        unfolding open_vars_def by (intro psubset_card_mono) (use v P(4) in auto)
      ultimately show ?thesis using ck [OF k] P(4) by simp
    qed
    have ex: "splits_exactly ?c kids" if "paper_assertion S" "distinct (map var (lits ?c))"
    proof -
      have t: "m_trail P = lits ?c" using exact that 3(1) P(1) by (simp add: paper_assertion_def)
      have "clash (lits ?c @ makeLitTrue v # new1) (lits ?c @ makeLitFalse v # new2)"
        using v by (auto simp: clash_def neg_lit_def makeLitTrue_def makeLitFalse_def var_def)
      then show ?thesis
        using d that(2) v by (auto simp: splits_exactly_def kids t pairwise_clash_Cons)
    qed
    have "expands f ?c kids []"
      using kid cov sound P(5) by (auto simp: expands_def kids)
    then show ?thesis
      using queue_step [OF q S(2), of kids] kid g Q st h(1) sp P ex 3
      by (intro that [of S' kids "[]"]) (auto simp: createCubes_def Let_def nx gen_inv_def gen_static_def)
  qed
qed


section \<open>The main loop\<close>

definition goes_on :: "OptionCubeGenerator \<Rightarrow> (nat \<Rightarrow> double) \<Rightarrow> nat \<Rightarrow> CubeGenerator \<Rightarrow> bool" where
  "goes_on options clock i S \<longleftrightarrow> int (length (g_queue S)) mod 2 ^ 32 < numCubes options \<and> g_queue S \<noteq> [] \<and>
     \<not> dless (timeoutSec options) (clock i)"

text \<open>\<open>rounds options clock i S j T\<close>: started in round \<open>i\<close> with \<open>S\<close>, the loop reaches round \<open>j\<close> with \<open>T\<close>.\<close>

inductive rounds ::
  "OptionCubeGenerator \<Rightarrow> (nat \<Rightarrow> double) \<Rightarrow> nat \<Rightarrow> CubeGenerator \<Rightarrow> nat \<Rightarrow> CubeGenerator \<Rightarrow> bool"
  for options :: OptionCubeGenerator and clock :: "nat \<Rightarrow> double" where
  start: "rounds options clock i S i S"
| round: "goes_on options clock i S \<Longrightarrow> createCubes S = Some (Inr S') \<Longrightarrow>
    rounds options clock (Suc i) S' j T \<Longrightarrow> rounds options clock i S j T"

lemma generate_loop_step:
  "goes_on options clock i S \<Longrightarrow> createCubes S = Some (Inr S') \<Longrightarrow>
     generate_loop options clock i S = generate_loop options clock (Suc i) S'"
  by (subst generate_loop.simps) (simp add: goes_on_def)

lemma generate_loop_stop: "\<not> goes_on options clock i S \<Longrightarrow> generate_loop options clock i S = Some (Inr S)"
  by (subst generate_loop.simps) (auto simp: goes_on_def)

text \<open>Every round replaces a cube by at most two cubes with fewer open variables.\<close>

definition work :: "int \<Rightarrow> Cube list \<Rightarrow> nat" where
  "work n q = (\<Sum>c\<in>#mset q. 3 ^ open_vars n c)"

lemma two_smaller:
  assumes "length kids \<le> 2" "\<forall>k\<in>set kids. open_vars n k < m"
  shows "(\<Sum>c\<in>#mset kids. 3 ^ open_vars n c) < (3::nat) ^ m"
proof -
  have p: "3 * 3 ^ open_vars n k \<le> (3::nat) ^ m" if "k \<in> set kids" for k
    using assms(2) that power_increasing [of "Suc (open_vars n k)" m "3::nat"] by auto
  consider "kids = []" | a where "kids = [a]" | a b where "kids = [a, b]"
    using assms(1) by (cases kids rule: remdups_adj.cases) auto
  then show ?thesis
  proof cases
    case 2
    then show ?thesis using assms(2) by simp
  next
    case 3
    then have "3 * 3 ^ open_vars n a \<le> (3::nat) ^ m" "3 * 3 ^ open_vars n b \<le> (3::nat) ^ m" using p by simp_all
    moreover have "0 < (3::nat) ^ open_vars n a" by simp
    ultimately have "(3::nat) ^ open_vars n a + 3 ^ open_vars n b < 3 ^ m" by linarith
    then show ?thesis using 3 by simp
  qed simp
qed

lemma work_decreases:
  assumes "add_mset c (mset q') = mset q + mset kids" "expands f c kids fin"
  shows "work (nbVar f) q' < work (nbVar f) q"
proof -
  let ?g = "\<lambda>c. (3::nat) ^ open_vars (nbVar f) c"
  have "(\<Sum>c\<in>#mset kids. ?g c) < ?g c"
    using assms(2) by (intro two_smaller) (auto simp: expands_def)
  moreover have "?g c + (\<Sum>c\<in>#mset q'. ?g c) = (\<Sum>c\<in>#mset q. ?g c) + (\<Sum>c\<in>#mset kids. ?g c)"
    using arg_cong [OF assms(1), of "\<lambda>M. \<Sum>c\<in>#M. ?g c"] by simp
  ultimately show ?thesis by (simp add: work_def)
qed

lemma generate_loop_total:
  "gen_inv f S \<Longrightarrow> \<exists>j T. rounds options clock i S j T \<and> \<not> goes_on options clock j T \<and>
     generate_loop options clock i S = Some (Inr T)"
proof (induction "work (nbVar f) (g_queue S)" arbitrary: S i rule: less_induct)
  case less
  show ?case
  proof (cases "goes_on options clock i S")
    case True
    then have "g_queue S \<noteq> []" by (simp add: goes_on_def)
    then obtain S' kids fin where S': "createCubes S = Some (Inr S')" "gen_inv f S'"
        "add_mset (pq_top (g_queue S)) (mset (g_queue S')) = mset (g_queue S) + mset kids"
        "expands f (pq_top (g_queue S)) kids fin"
      using createCubes_ok [OF less.prems] by metis
    then obtain j T where "rounds options clock (Suc i) S' j T" "\<not> goes_on options clock j T"
        "generate_loop options clock (Suc i) S' = Some (Inr T)"
      using less.hyps [OF work_decreases S'(2)] by blast
    then show ?thesis using True S'(1) generate_loop_step [OF True S'(1)] rounds.round by metis
  next
    case False
    then show ?thesis using rounds.start generate_loop_stop by metis
  qed
qed


section \<open>What the rounds keep\<close>

text \<open>
  The cubes of a state are the finished cubes of this run, which come after the \<open>k\<close> cubes that were
  in the list before, and those of the queue.
\<close>

definition all_cubes :: "nat \<Rightarrow> CubeGenerator \<Rightarrow> Lit list list" where
  "all_cubes k S = drop k (g_cubes S) @ map lits (g_queue S)"

lemma all_cubes_step:
  assumes "add_mset (pq_top (g_queue S)) (mset (g_queue S')) = mset (g_queue S) + mset kids"
    and "g_cubes S' = g_cubes S @ fin" "k \<le> length (g_cubes S)"
  shows "add_mset (lits (pq_top (g_queue S))) (mset (all_cubes k S')) = mset (all_cubes k S) + mset (map lits kids @ fin)"
  using arg_cong [OF assms(1), of "image_mset lits"] assms(3) by (simp add: all_cubes_def assms(2))

lemma goes_on_step:
  assumes "gen_inv f S" "goes_on options clock i S" "createCubes S = Some (Inr S')"
  obtains kids fin where "gen_inv f S'"
    "add_mset (pq_top (g_queue S)) (mset (g_queue S')) = mset (g_queue S) + mset kids"
    "g_cubes S' = g_cubes S @ fin" "expands f (pq_top (g_queue S)) kids fin"
    "pq_top (g_queue S) \<in> set (g_queue S)"
    "paper_assertion S \<Longrightarrow> distinct (map var (lits (pq_top (g_queue S)))) \<Longrightarrow>
       splits_exactly (pq_top (g_queue S)) kids"
proof -
  have q: "g_queue S \<noteq> []" using assms(2) by (simp add: goes_on_def)
  then have "pq_top (g_queue S) \<in> set (g_queue S)" using std_heap.top_in [of "g_queue S"] by simp
  then show ?thesis using createCubes_ok [OF assms(1) q] assms(3) that by (metis option.inject sum.inject(2))
qed

lemma rounds_inv: "rounds options clock i S j T \<Longrightarrow> gen_inv f S \<Longrightarrow> gen_inv f T"
proof (induction rule: rounds.induct)
  case (round i S S' j T)
  then show ?case by (meson goes_on_step)
qed

text \<open>Every model of the formula in a cube stays in a cube.\<close>

lemma rounds_cover:
  "rounds options clock i S j T \<Longrightarrow> gen_inv f S \<Longrightarrow> models m (clauses f) \<Longrightarrow>
     k \<le> length (g_cubes S) \<Longrightarrow> \<exists>c\<in>set (all_cubes k S). in_cube m c \<Longrightarrow> \<exists>c\<in>set (all_cubes k T). in_cube m c"
proof (induction rule: rounds.induct)
  case (round i S S' j T)
  let ?c = "pq_top (g_queue S)"
  obtain kids fin where s: "gen_inv f S'"
      "add_mset ?c (mset (g_queue S')) = mset (g_queue S) + mset kids"
      "g_cubes S' = g_cubes S @ fin" "expands f ?c kids fin"
    using goes_on_step [OF round.prems(1) round.hyps(1,2)] by metis
  have eq: "insert (lits ?c) (set (all_cubes k S')) = set (all_cubes k S) \<union> set (map lits kids @ fin)"
    using arg_cong [OF all_cubes_step [OF s(2,3) round.prems(3)], of set_mset] by simp
  have kid: "lits d \<noteq> lits ?c" if "d \<in> set kids" for d
    using s(4) that by (auto simp: expands_def open_vars_def)
  have fin: "set fin \<subseteq> set (all_cubes k S')" using round.prems(3) by (auto simp: all_cubes_def s(3))
  obtain x where x: "x \<in> set (all_cubes k S)" "in_cube m x" using round.prems(4) by blast
  have "\<exists>c\<in>set (all_cubes k S'). in_cube m c"
  proof (cases "x = lits ?c")
    case True
    then have "(\<exists>k\<in>set kids. in_cube m (lits k)) \<or> (\<exists>d\<in>set fin. in_cube m d)"
      using s(4) x(2) round.prems(2) by (simp add: expands_def)
    then show ?thesis using eq kid fin by auto
  next
    case False
    then show ?thesis using eq x by blast
  qed
  then show ?case using round.IH s(1,3) round.prems(2,3) by simp
qed

text \<open>While the assertion of the distributed generator holds, the cubes exclude each other.\<close>

definition partition_inv :: "Lit list list \<Rightarrow> CubeGenerator \<Rightarrow> bool" where
  "partition_inv cubes0 S \<longleftrightarrow> (\<exists>fin. g_cubes S = cubes0 @ fin \<and> pairwise_clash (fin @ map lits (g_queue S))) \<and>
     (\<forall>c\<in>set (g_queue S). distinct (map var (lits c)))"

lemma partition_step:
  assumes inv: "partition_inv cubes0 S"
    and q: "add_mset c (mset (g_queue S')) = mset (g_queue S) + mset kids" "c \<in> set (g_queue S)"
    and fin: "g_cubes S' = g_cubes S @ fin" "fin = [] \<or> fin = [lits c] \<and> kids = []"
    and ex: "splits_exactly c kids"
  shows "partition_inv cubes0 S'"
proof -
  obtain fin0 where f0: "g_cubes S = cubes0 @ fin0" "pairwise_clash (fin0 @ map lits (g_queue S))"
    using inv by (auto simp: partition_inv_def)
  obtain qa where qa: "mset (g_queue S) = add_mset c (mset qa)"
    using q(2) by (metis in_multiset_in_set insert_DiffM mset_remove1 set_mset_mset)
  then have q': "mset (g_queue S') = mset (qa @ kids)" using q(1) by simp
  have "pairwise_clash (lits c # fin0 @ map lits qa)"
    using f0(2) by (rule pairwise_clash_mset [THEN iffD1, rotated])
      (use arg_cong [OF qa, of "image_mset lits"] in simp)
  then have base: "\<forall>d\<in>set (fin0 @ map lits qa). clash (lits c) d" "pairwise_clash (fin0 @ map lits qa)"
    by (auto simp: pairwise_clash_Cons)
  have kid: "clash (lits k) d" if "k \<in> set kids" "d \<in> set (fin0 @ map lits qa)" for k d
    using base(1) ex that clash_mono [of "lits c" d "lits k" d] by (auto simp: splits_exactly_def)
  have "pairwise_clash (fin @ map lits kids @ fin0 @ map lits qa)"
    using fin(2) base ex kid
    by (auto simp: pairwise_clash_append pairwise_clash_Cons splits_exactly_def dest: clash_sym)
  then have "pairwise_clash ((fin0 @ fin) @ map lits (g_queue S'))"
    by (rule pairwise_clash_mset [THEN iffD1, rotated])
      (use arg_cong [OF q', of "image_mset lits"] in simp)
  moreover have "\<forall>c\<in>set (g_queue S'). distinct (map var (lits c))"
  proof -
    have "set (g_queue S') \<subseteq> set (g_queue S) \<union> set kids"
      using arg_cong [OF q', of set_mset] arg_cong [OF qa, of set_mset] by auto
    then show ?thesis using inv ex by (auto simp: partition_inv_def splits_exactly_def)
  qed
  ultimately show ?thesis using fin(1) f0(1) by (auto simp: partition_inv_def)
qed

lemma rounds_partition:
  "rounds options clock i S j T \<Longrightarrow> gen_inv f S \<Longrightarrow> partition_inv cubes0 S \<Longrightarrow>
     (\<And>k U. rounds options clock i S k U \<Longrightarrow> goes_on options clock k U \<Longrightarrow> paper_assertion U) \<Longrightarrow>
     partition_inv cubes0 T"
proof (induction rule: rounds.induct)
  case (round i S S' j T)
  let ?c = "pq_top (g_queue S)"
  have "paper_assertion S" using round.prems(3) [OF rounds.start round.hyps(1)] .
  then obtain kids fin where s: "gen_inv f S'" "add_mset ?c (mset (g_queue S')) = mset (g_queue S) + mset kids"
      "g_cubes S' = g_cubes S @ fin" "expands f ?c kids fin" "?c \<in> set (g_queue S)"
      "distinct (map var (lits ?c)) \<Longrightarrow> splits_exactly ?c kids"
    using goes_on_step [OF round.prems(1) round.hyps(1,2)] by metis
  have "partition_inv cubes0 S'"
    using s round.prems(2)
    by (intro partition_step [OF round.prems(2) s(2,5,3)]) (auto simp: expands_def partition_inv_def)
  then show ?case
    using round.IH s(1) round.prems(3) rounds.round [OF round.hyps(1,2)] by blast
qed

text \<open>A finished cube has every variable, and the queue never outgrows the requested number.\<close>

lemma rounds_finished:
  "rounds options clock i S j T \<Longrightarrow> gen_inv f S \<Longrightarrow>
     \<exists>fin. g_cubes T = g_cubes S @ fin \<and> (\<forall>c\<in>set fin. {1..nbVar f} \<subseteq> var ` set c)"
proof (induction rule: rounds.induct)
  case (round i S S' j T)
  obtain kids fin where s: "gen_inv f S'" "g_cubes S' = g_cubes S @ fin" "expands f (pq_top (g_queue S)) kids fin"
    using goes_on_step [OF round.prems(1) round.hyps(1,2)] by metis
  moreover obtain fin' where "g_cubes T = g_cubes S' @ fin'" "\<forall>c\<in>set fin'. {1..nbVar f} \<subseteq> var ` set c"
    using round.IH s(1) by blast
  ultimately show ?case by (intro exI [of _ "fin @ fin'"]) (auto simp: expands_def simp del: atLeastAtMost_iff)
qed simp

lemma rounds_length:
  "rounds options clock i S j T \<Longrightarrow> gen_inv f S \<Longrightarrow> numCubes options < 2 ^ 32 \<Longrightarrow>
     int (length (g_queue S)) \<le> max 1 (numCubes options) \<Longrightarrow>
     int (length (g_queue T)) \<le> max 1 (numCubes options)"
proof (induction rule: rounds.induct)
  case (round i S S' j T)
  obtain kids fin where s: "gen_inv f S'"
      "add_mset (pq_top (g_queue S)) (mset (g_queue S')) = mset (g_queue S) + mset kids"
      "expands f (pq_top (g_queue S)) kids fin"
    using goes_on_step [OF round.prems(1) round.hyps(1,2)] by metis
  have "Suc (length (g_queue S')) = length (g_queue S) + length kids"
    using arg_cong [OF s(2), of size] by simp
  moreover have "length kids \<le> 2" using s(3) by (simp add: expands_def)
  moreover have "int (length (g_queue S)) < numCubes options"
    using round.hyps(1) round.prems(2,3) by (auto simp: goes_on_def)
  ultimately show ?case using round.IH s(1) round.prems(2) by simp
qed simp

section \<open>Collecting the queue\<close>

lemma collect_step: "q \<noteq> [] \<Longrightarrow> collect q cubes = collect (q_pop q) (cubes @ [lits (pq_top q)])"
  by (simp add: collect.simps [of q cubes])

lemma collect_Nil [simp]: "collect [] cubes = cubes"
  by (simp add: collect.simps)

lemma queue_ok_pop: "queue_ok n q \<Longrightarrow> q \<noteq> [] \<Longrightarrow> queue_ok n (q_pop q)"
  using queue_step(1) [of n q "[]"] by simp

text \<open>The collected cubes are those of the queue, shortest first.\<close>

lemma collect_spec:
  "queue_ok n q \<Longrightarrow> \<exists>rest. collect q cubes = cubes @ rest \<and> mset rest = mset (map lits q) \<and>
     sorted (map length rest) \<and> (q \<noteq> [] \<longrightarrow> (\<forall>c\<in>set rest. weight (pq_top q) \<le> length c))"
proof (induction "length q" arbitrary: q cubes rule: less_induct)
  case less
  show ?case
  proof (cases "q = []")
    case False
    let ?t = "pq_top q" let ?q = "q_pop q"
    have top: "?t \<in> set q" using std_heap.top_in [of q] False by simp
    then have wt: "weight ?t = length (lits ?t)" using less.prems by (auto simp: queue_ok_def cube_ok_def)
    obtain rest where r: "collect ?q (cubes @ [lits ?t]) = (cubes @ [lits ?t]) @ rest"
        "mset rest = mset (map lits ?q)" "sorted (map length rest)"
        "?q \<noteq> [] \<longrightarrow> (\<forall>c\<in>set rest. weight (pq_top ?q) \<le> length c)"
      using less.hyps [OF pq_pop_shorter [OF False] queue_ok_pop [OF less.prems False]] by blast
    have m: "add_mset ?t (mset ?q) = mset q" by (rule mset_pq_pop [OF False])
    have le: "\<forall>c\<in>set rest. weight ?t \<le> length c"
    proof
      fix c assume c: "c \<in> set rest"
      then have "?q \<noteq> []" using r(2) by auto
      moreover have "weight ?t \<le> weight (pq_top ?q)"
        using std_heap.next_top_not_lighter [of weight q] less.prems False calculation by (simp add: queue_ok_def)
      ultimately show "weight ?t \<le> length c" using r(4) c by fastforce
    qed
    have "mset (lits ?t # rest) = mset (map lits q)"
      using arg_cong [OF m, of "image_mset lits"] r(2) by simp
    then show ?thesis
      using r le wt by (intro exI [of _ "lits ?t # rest"]) (simp add: collect_step [OF False])
  qed simp
qed

section \<open>The whole of generate\<close>

definition gen_start :: "nat \<Rightarrow> Formula \<Rightarrow> PartialOrderHeuristic \<Rightarrow> nat \<Rightarrow> Lit list list \<Rightarrow> CubeGenerator" where
  "gen_start cap0 f po pruned0 cubes0 =
     \<lparr>pruned = pruned0, m_propagator = initPropagator cap0 f, m_branchingCubeHeuristic = mkJWTS f,
      m_partialOrderHeuristic = Some po, g_cubes = cubes0, g_queue = [make_cube []]\<rparr>"

lemma initQueue_empty:
  "initQueue (initPropagator cap0 f) = Some (initPropagator cap0 f, [make_cube []])"
  by (simp add: initQueue_def initPropagator_def propagate_done pq_push_def heap_up.simps)

lemma generate_unfold:
  "make_partial_order f (useMinDeg options) = Some po \<Longrightarrow>
     generate_loop options clock 0 (gen_start cap0 f po pruned0 cubes0) = Some (Inr T) \<Longrightarrow>
     generate cap0 clock f options pruned0 cubes0 = Some (Inr (pruned T, collect (g_queue T) (g_cubes T)))"
  by (simp add: generate_def initQueue_empty gen_start_def)

lemma gen_start_inv:
  assumes "wf_formula f" "nbVar f + 1 \<le> int cap0" "po_nonneg (Some po)"
  shows "gen_inv f (gen_start cap0 f po pruned0 cubes0)"
  using assms mkPropagator_ok [of f cap0] mkJWTS_ok [of f]
  by (auto simp: gen_inv_def gen_static_def gen_start_def initPropagator_def roomy_def queue_ok_def
      cube_ok_def heap_ok_def heap_ok_on_def mkPropagator_def)

text \<open>
  For a vector that starts with room for the trail, \<open>generate\<close> returns; the final state is reached in
  rounds from the start.
\<close>

lemma generate_total:
  assumes "wf_formula f" "nbVar f + 1 \<le> int cap0"
  obtains po j T rest where "make_partial_order f (useMinDeg options) = Some po"
    "rounds options clock 0 (gen_start cap0 f po pruned0 cubes0) j T" "\<not> goes_on options clock j T"
    "gen_inv f (gen_start cap0 f po pruned0 cubes0)" "gen_inv f T"
    "generate cap0 clock f options pruned0 cubes0 = Some (Inr (pruned T, g_cubes T @ rest))"
    "mset rest = mset (map lits (g_queue T))" "sorted (map length rest)"
proof -
  obtain po where po: "make_partial_order f (useMinDeg options) = Some po" "po_nonneg (Some po)"
    using make_partial_order_ok [OF assms(1)] by blast
  let ?S = "gen_start cap0 f po pruned0 cubes0"
  have S: "gen_inv f ?S" using gen_start_inv assms po(2) .
  obtain j T where T: "rounds options clock 0 ?S j T" "\<not> goes_on options clock j T"
      "generate_loop options clock 0 ?S = Some (Inr T)"
    using generate_loop_total [OF S] by blast
  have i: "gen_inv f T" by (rule rounds_inv [OF T(1) S])
  then obtain rest where "collect (g_queue T) (g_cubes T) = g_cubes T @ rest"
      "mset rest = mset (map lits (g_queue T))" "sorted (map length rest)"
    using collect_spec [of "nbVar f" "g_queue T" "g_cubes T"] by (auto simp: gen_inv_def)
  then show ?thesis using that po T S i generate_unfold [OF po(1) T(3)] by metis
qed


section \<open>The trail pointer of an empty vector\<close>

lemma enqueue_moves: "m_capacity P = 0 \<Longrightarrow> getTrail P < getTrail (uncheckedEnqueue l P)"
  by (simp add: getTrail_def uncheckedEnqueue_def Let_def)

lemma same_buffer_getTrail: "same_buffer P Q \<Longrightarrow> getTrail P \<le> getTrail Q"
  by (simp add: same_buffer_def getTrail_def)

lemma push_branch_dangling:
  "propagate (uncheckedEnqueue l P) = Some (ok, Q) \<Longrightarrow> t < getTrail Q \<Longrightarrow>
     push_branch t l P S = Some (if ok then Inl DanglingTrail
       else Inr (S\<lparr>m_propagator := Q, pruned := pruned S + 1\<rparr>))"
  by (simp add: push_branch_def)

lemma split_dangling:
  assumes P: "pwf P" "m_capacity P = 0" "m_trail P = []" and v: "1 \<le> v" "v \<le> m_n P"
    and S: "m_propagator S = P" and m: "models m (m_clauses P)"
  shows "split_cube v S = Some (Inl DanglingTrail)"
proof -
  let ?p = "makeLitTrue v" let ?q = "makeLitFalse v"
  have vv: "var ?p = var ?q" "0 < var ?p" "var ?p \<le> m_n P" using v by simp_all
  obtain ok1 Q1 new1 ok2 Q2 new2 where
    Q: "propagate (uncheckedEnqueue ?p P) = Some (ok1, Q1)"
    "propagate (uncheckedEnqueue ?q (cancelUntilPos (length (m_trail P)) Q1)) = Some (ok2, Q2)"
    and t: "m_trail Q1 = m_trail P @ ?p # new1"
    and snd: "\<And>m. models m (m_clauses P) \<Longrightarrow> in_cube m (m_trail P) \<Longrightarrow> lit_true m ?p \<Longrightarrow>
        ok1 \<and> in_cube m (m_trail Q1)"
      "\<And>m. models m (m_clauses P) \<Longrightarrow> in_cube m (m_trail P) \<Longrightarrow> lit_true m ?q \<Longrightarrow>
        ok2 \<and> in_cube m (m_trail Q2)"
    by (rule cli_prop.branch [OF P(1) vv]) (rule that; assumption)
  have e: "pwf (uncheckedEnqueue ?p P)" using pwf_enqueue [OF P(1)] v by (simp add: wf_lit_def)
  have b1: "getTrail P < getTrail Q1"
    using enqueue_moves [OF P(2), of ?p] same_buffer_getTrail [OF propagate_same_buffer [OF e Q(1)]] by simp
  let ?R = "cancelUntilPos 0 Q1"
  have Q1: "pwf Q1" "m_n Q1 = m_n P" using propagate_total [OF e] Q(1) by (auto simp: ext_def)
  have t': "m_trail Q1 = [] @ (?p # new1)" using t P(3) by simp
  note R = cancelUntilPos_ok [OF Q1(1) t', of "{}", simplified]
  have "pwf (uncheckedEnqueue ?q ?R)"
    using trail_ok_enqueue [OF R(1) _ R(2)] static_ok_enqueue [OF R(1)] v Q1(2) by (simp add: pwf_def wf_lit_def)
  then have "getTrail Q1 \<le> getTrail Q2"
    using same_buffer_getTrail [OF same_buffer_trans [OF same_buffer_enqueue propagate_same_buffer]] Q(2) P(3)
    by (metis list.size(3) roomy_cancel(2))
  then have b2: "getTrail P < getTrail Q2" using b1 by simp
  have "ok1 \<or> ok2"
    using snd(1) [OF m] snd(2) [OF m] v P(3) by (cases "m v") (auto simp: lit_true_makeLitTrue lit_true_makeLitFalse)
  then show ?thesis
    using push_branch_dangling [OF Q(1) b1] push_branch_dangling [OF Q(2) b2] P(3) S
    by (auto simp: split_cube_def Let_def)
qed

lemma createCubes_dangling:
  assumes f: "wf_formula f" "models m (clauses f)" and po: "po_nonneg (Some po)"
  shows "createCubes (gen_start 0 f po p0 c0) = Some (Inl DanglingTrail)"
proof -
  let ?S = "gen_start 0 f po p0 c0" let ?P = "restart (initPropagator 0 f)"
  have P: "pwf ?P" "m_trail ?P = []" "m_n ?P = nbVar f" "m_clauses ?P = clauses f" "\<not> m_unsat ?P" "m_qhead ?P = 0"
    using restart_ok [OF mkPropagator_ok [OF f(1)], of 0] by (simp_all add: initPropagator_def)
  have cap: "m_capacity ?P = 0" by (simp add: restart_def initPropagator_def mkPropagator_def)
  have top: "lits (pq_top (g_queue ?S)) = []" by (simp add: gen_start_def pq_top_def)
  have load: "load ?S = Some (True, ?P)"
    using P by (simp add: load_def top propagate_done) (simp add: gen_start_def propagate_done)
  obtain v h where nx: "next_var (Some po) (mkJWTS f) [] = (v, h)" by fastforce
  have "v = var_Undef \<and> {1..nbVar f} = {} \<or> 1 \<le> v \<and> v \<le> nbVar f"
    using next_var_spec [OF _ po _ nx] mkJWTS_ok [OF f(1)] by auto
  then have v: "1 \<le> v" "v \<le> nbVar f" "v \<noteq> var_Undef" using f(1) by (auto simp: wf_formula_def var_Undef_def)
  have "split_cube v (?S\<lparr>m_propagator := ?P, m_branchingCubeHeuristic := h\<rparr>) = Some (Inl DanglingTrail)"
    by (rule split_dangling [OF P(1) cap P(2) v(1)]) (use v P f in simp_all)
  moreover have "m_partialOrderHeuristic ?S = Some po" "m_branchingCubeHeuristic ?S = mkJWTS f"
    by (simp_all add: gen_start_def)
  ultimately show ?thesis using nx v(3) P(5) by (simp add: createCubes_def load top Let_def)
qed


section \<open>The result of generate\<close>

lemma generate_result:
  assumes "wf_formula f" "nbVar f + 1 \<le> int cap0"
  obtains po j T fin rest where "make_partial_order f (useMinDeg options) = Some po"
    "rounds options clock 0 (gen_start cap0 f po p0 c0) j T" "\<not> goes_on options clock j T"
    "gen_inv f (gen_start cap0 f po p0 c0)"
    "generate cap0 clock f options p0 c0 = Some (Inr (pruned T, c0 @ fin @ rest))"
    "g_cubes T = c0 @ fin" "mset rest = mset (map lits (g_queue T))"
    "\<forall>c\<in>set fin. {1..nbVar f} \<subseteq> var ` set c" "sorted (map length rest)"
    "cubes_cover (clauses f) (fin @ rest)"
proof -
  obtain po j T rest where po: "make_partial_order f (useMinDeg options) = Some po"
    and T: "rounds options clock 0 (gen_start cap0 f po p0 c0) j T" "\<not> goes_on options clock j T"
      "gen_inv f (gen_start cap0 f po p0 c0)"
      "generate cap0 clock f options p0 c0 = Some (Inr (pruned T, g_cubes T @ rest))"
    and rest: "mset rest = mset (map lits (g_queue T))" "sorted (map length rest)"
    by (rule generate_total [OF assms])
  obtain fin where fin: "g_cubes T = c0 @ fin" "\<forall>c\<in>set fin. {1..nbVar f} \<subseteq> var ` set c"
    using rounds_finished [OF T(1,3)] by (auto simp: gen_start_def)
  have "\<exists>c\<in>set (fin @ rest). in_cube m c" if "models m (clauses f)" for m
  proof -
    have "\<exists>c\<in>set (all_cubes (length c0) T). in_cube m c"
      using rounds_cover [OF T(1,3) that] by (simp add: gen_start_def all_cubes_def)
    then show ?thesis using fin arg_cong [OF rest(1), of set_mset] by (auto simp: all_cubes_def)
  qed
  then have "cubes_cover (clauses f) (fin @ rest)" by (simp add: cubes_cover_def)
  then show ?thesis using that [OF po T(1-3) _ fin(1) rest(1) fin(2) rest(2)] T(4) fin(1) by simp
qed

definition asserted_run :: "nat \<Rightarrow> (nat \<Rightarrow> double) \<Rightarrow> Formula \<Rightarrow> OptionCubeGenerator \<Rightarrow> nat \<Rightarrow> Lit list list \<Rightarrow> bool" where
  "asserted_run cap0 clock f options p0 c0 \<longleftrightarrow>
     (\<forall>po j U. make_partial_order f (useMinDeg options) = Some po \<longrightarrow>
        rounds options clock 0 (gen_start cap0 f po p0 c0) j U \<longrightarrow> goes_on options clock j U \<longrightarrow> paper_assertion U)"

text \<open>An executable check of the assertion over a bounded number of rounds.\<close>

fun asserted_rounds :: "OptionCubeGenerator \<Rightarrow> (nat \<Rightarrow> double) \<Rightarrow> nat \<Rightarrow> nat \<Rightarrow> CubeGenerator \<Rightarrow> bool" where
  "asserted_rounds options clock i 0 S = (\<not> goes_on options clock i S)"
| "asserted_rounds options clock i (Suc k) S =
     (goes_on options clock i S \<longrightarrow> paper_assertion S \<and>
       (case createCubes S of Some (Inr S') \<Rightarrow> asserted_rounds options clock (Suc i) k S' | _ \<Rightarrow> True))"

lemma asserted_rounds_sound:
  "rounds options clock i S j U \<Longrightarrow> asserted_rounds options clock i k S \<Longrightarrow> goes_on options clock j U \<Longrightarrow>
     paper_assertion U"
proof (induction arbitrary: k rule: rounds.induct)
  case (start i S)
  then show ?case by (cases k) auto
next
  case (round i S S' j T)
  then show ?case by (cases k) auto
qed

lemma asserted_run_check:
  "make_partial_order f (useMinDeg options) = Some po \<Longrightarrow>
     asserted_rounds options clock 0 k (gen_start cap0 f po p0 c0) \<Longrightarrow> asserted_run cap0 clock f options p0 c0"
  using asserted_rounds_sound by (fastforce simp: asserted_run_def)

lemma generate_partition:
  assumes "wf_formula f" "nbVar f + 1 \<le> int cap0" "asserted_run cap0 clock f options p0 c0"
  shows "\<exists>p cubes. generate cap0 clock f options p0 c0 = Some (Inr (p, c0 @ cubes)) \<and>
    pairwise_clash cubes \<and> cubes_cover (clauses f) cubes"
proof -
  obtain po j T fin rest where po: "make_partial_order f (useMinDeg options) = Some po"
    and T: "rounds options clock 0 (gen_start cap0 f po p0 c0) j T"
      "gen_inv f (gen_start cap0 f po p0 c0)"
      "generate cap0 clock f options p0 c0 = Some (Inr (pruned T, c0 @ fin @ rest))"
    and fin: "g_cubes T = c0 @ fin" "mset rest = mset (map lits (g_queue T))"
      "cubes_cover (clauses f) (fin @ rest)"
    by (rule generate_result [OF assms(1,2)])
  have "partition_inv c0 (gen_start cap0 f po p0 c0)"
    by (simp add: partition_inv_def gen_start_def pairwise_clash_Cons)
  then have "partition_inv c0 T"
    using rounds_partition [OF T(1,2)] assms(3) po unfolding asserted_run_def by blast
  then have "pairwise_clash (fin @ map lits (g_queue T))" using fin(1) by (auto simp: partition_inv_def)
  then have "pairwise_clash (fin @ rest)"
    by (rule pairwise_clash_mset [THEN iffD1, rotated]) (simp add: fin(2))
  then show ?thesis using T(3) fin(3) by blast
qed

section \<open>Properties\<close>

text \<open>Small formulas for the concrete instances.\<close>

definition demo :: Formula where
  "demo = \<lparr>nbVar = 2, clauses = [[Lit 1, Lit 2]]\<rparr>"

definition demo_options :: OptionCubeGenerator where
  "demo_options = default_options\<lparr>numCubes := 2\<rparr>"

definition overlap_formula :: Formula where
  "overlap_formula = \<lparr>nbVar = 5, clauses = [[Lit 1, Lit (-2), Lit 4], [Lit (-3), Lit (-1)],
     [Lit 5, Lit 3], [Lit 3, Lit 2], [Lit (-4)]]\<rparr>"

definition overlap_options :: OptionCubeGenerator where
  "overlap_options = default_options\<lparr>numCubes := 4, useMinDeg := False\<rparr>"

lemma demo_wf: "wf_formula demo" "wf_formula overlap_formula"
  by (simp_all add: demo_def overlap_formula_def wf_formula_def wf_clause_def wf_lit_def var_def INT_MAX_def)

lemma demo_nbVar [simp]: "nbVar demo = 2" "nbVar overlap_formula = 5"
  by (simp_all add: demo_def overlap_formula_def)






lemma demo_asserted: "asserted_run 3 (\<lambda>i. dzero) demo (demo_options\<lparr>numCubes := 9, useMinDeg := False\<rparr>) 0 []"
  by (rule asserted_run_check [of _ _ PartialOrderHeuristicNone _ 9], simp add: make_partial_order_def) code_simp



text \<open>C4: for a vector that starts without a buffer, as in the GNU and LLVM libraries, the first split of
  a satisfiable formula reads the trail through a dangling pointer.\<close>

theorem generate_dangling:
  assumes "wf_formula f" "models m (clauses f)" "1 < numCubes options"
    and "\<not> dless (timeoutSec options) (clock 0)"
  shows "generate 0 clock f options p0 c0 = Some (Inl DanglingTrail)"
proof -
  obtain po where po: "make_partial_order f (useMinDeg options) = Some po" "po_nonneg (Some po)"
    using make_partial_order_ok [OF assms(1)] by blast
  have "generate_loop options clock 0 (gen_start 0 f po p0 c0) = Some (Inl DanglingTrail)"
    using createCubes_dangling [OF assms(1,2) po(2)] assms(3,4)
    by (subst generate_loop.simps) (simp add: gen_start_def)
  then show ?thesis using po(1) by (simp add: generate_def initQueue_empty gen_start_def)
qed

lemma generate_dangling_witness:
  "generate 0 (\<lambda>i. dzero) demo demo_options 0 [] = Some (Inl DanglingTrail)"
proof (rule generate_dangling [OF demo_wf(1), of "val_of {1}"])
  show "models (val_of {1}) (clauses demo)"
    by (simp add: demo_def truth_simps lit_true_def val_of_def sign_def var_def)
  show "1 < numCubes demo_options" "\<not> dless (timeoutSec demo_options) dzero" by code_simp+
qed

text \<open>The result is the cubes given, then finished cubes, which have every variable, then at most the
  requested number of queued cubes, shortest first. Unless the time is up, the loop ends with exactly
  the requested number in the queue or with an empty queue.\<close>

theorem generate_shape:
  assumes "wf_formula f" "nbVar f + 1 \<le> int cap0" "1 \<le> numCubes options" "numCubes options < 2 ^ 32"
  shows "\<exists>p fin rest. generate cap0 clock f options p0 c0 = Some (Inr (p, c0 @ fin @ rest)) \<and>
    (\<forall>c\<in>set fin. {1..nbVar f} \<subseteq> var ` set c) \<and> sorted (map length rest) \<and>
    int (length rest) \<le> numCubes options \<and>
    ((\<forall>i. \<not> dless (timeoutSec options) (clock i)) \<longrightarrow> rest = [] \<or> int (length rest) = numCubes options)"
proof -
  obtain po j T fin rest where T: "rounds options clock 0 (gen_start cap0 f po p0 c0) j T"
      "\<not> goes_on options clock j T" "gen_inv f (gen_start cap0 f po p0 c0)"
      "generate cap0 clock f options p0 c0 = Some (Inr (pruned T, c0 @ fin @ rest))"
    and fin: "\<forall>c\<in>set fin. {1..nbVar f} \<subseteq> var ` set c" "sorted (map length rest)"
      "mset rest = mset (map lits (g_queue T))"
    by (rule generate_result [OF assms(1,2)])
  have len: "length rest = length (g_queue T)" using arg_cong [OF fin(3), of size] by simp
  have max: "int (length (g_queue T)) \<le> numCubes options"
    using rounds_length [OF T(1,3) assms(4)] assms(3) by (simp add: gen_start_def)
  have "rest = [] \<or> int (length rest) = numCubes options" if "\<forall>i. \<not> dless (timeoutSec options) (clock i)"
    using T(2) that max len assms(4) by (auto simp: goes_on_def)
  then show ?thesis using T(4) fin max len by (intro exI conjI; assumption?) auto
qed

lemma generate_shape_witness:
  "\<exists>p fin rest. generate 3 (\<lambda>i. dzero) demo demo_options 0 [] = Some (Inr (p, [] @ fin @ rest)) \<and>
    (\<forall>c\<in>set fin. {1..nbVar demo} \<subseteq> var ` set c) \<and> sorted (map length rest) \<and>
    int (length rest) \<le> numCubes demo_options \<and>
    ((\<forall>i::nat. \<not> dless (timeoutSec demo_options) dzero) \<longrightarrow> rest = [] \<or> int (length rest) = numCubes demo_options)"
  by (rule generate_shape [OF demo_wf(1)]) (simp_all add: demo_options_def default_options_def)

end
