(* ===== verification/Double_Text.thy ===== *)
theory Double_Text
  imports Binary64 Decimal
begin

text \<open>
  Decimal text of doubles in the C++ standard library, C locale: \<open>std::stod\<close> on decimal notation
  (\<open>stod\<close>, \<open>None\<close> for an exception) and \<open>std::ostream << double\<close> with the default precision of six
  significant digits (\<open>show_double\<close>, the format \<open>%g\<close>). Both round the exact value once.
  Hexadecimal notation, infinities and NaN are not read.
\<close>

section \<open>Reading\<close>

text \<open>Digits after the point: each one lowers the decimal exponent.\<close>

fun scan_fraction :: "string \<Rightarrow> nat \<Rightarrow> int \<Rightarrow> bool \<Rightarrow> nat \<times> int \<times> bool \<times> string" where
  "scan_fraction [] acc k seen = (acc, k, seen, [])"
| "scan_fraction (c # cs) acc k seen =
     (if is_digit c then scan_fraction cs (10 * acc + digit_val c) (k - 1) True else (acc, k, seen, c # cs))"

definition scan_mantissa :: "string \<Rightarrow> nat \<times> int \<times> bool \<times> string" where
  "scan_mantissa s =
     (case scan_digits s 0 False of (n, seen, rest) \<Rightarrow>
        (case rest of
           [] \<Rightarrow> (n, 0, seen, [])
         | c # cs \<Rightarrow> if c = CHR ''.'' then scan_fraction cs n 0 seen else (n, 0, seen, rest)))"

text \<open>An exponent part counts only if a digit follows.\<close>

definition scan_exponent :: "string \<Rightarrow> int" where
  "scan_exponent s =
     (case s of
        [] \<Rightarrow> 0
      | c # cs \<Rightarrow>
          if c = CHR ''e'' \<or> c = CHR ''E'' then
            (case scan_sign cs of (neg, t) \<Rightarrow>
             case scan_digits t 0 False of (n, seen, rest) \<Rightarrow>
               if seen then (if neg then - int n else int n) else 0)
          else 0)"

definition decimal_double :: "int \<Rightarrow> int \<Rightarrow> double" where
  "decimal_double n k =
     (if 0 \<le> k then fl (n * 10 ^ nat k) 0 False else ddiv (Dbl n 0) (Dbl (10 ^ nat (- k)) 0))"

text \<open>Out of range: not below \<open>2 ^ 1024\<close>, or below the least normal number and not exact.\<close>

definition double_in_range :: "int \<Rightarrow> int \<Rightarrow> bool" where
  "double_in_range n k =
     (let a = \<bar>n\<bar> * 10 ^ nat k; b = 10 ^ nat (- k); d = decimal_double \<bar>n\<bar> k
      in dless d (Dbl 1 1024) \<and>
        (n = 0 \<or> b \<le> a * 2 ^ 1022 \<or> sig d * b = a * 2 ^ nat (- ex d)))"

definition stod :: "string \<Rightarrow> double option" where
  "stod s =
     (case scan_sign (skip_space s) of (neg, t) \<Rightarrow>
      case scan_mantissa t of (n, k, seen, rest) \<Rightarrow>
        if \<not> seen then None
        else let m = (if neg then - int n else int n); e = k + scan_exponent rest
             in if double_in_range m e then Some (decimal_double m e) else None)"

section \<open>Printing\<close>

text \<open>The decimal exponent of \<open>n / d\<close>: the largest \<open>x\<close> with \<open>10 ^ x \<le> n / d\<close>.\<close>

function exp_up :: "int \<Rightarrow> int \<Rightarrow> int \<Rightarrow> int" where
  "exp_up n d x = (if 0 < d \<and> 10 * d \<le> n then exp_up n (10 * d) (x + 1) else x)"
  by pat_completeness auto
termination
  by (relation "measure (\<lambda>(n, d, x). nat (n - d))") auto

function exp_down :: "int \<Rightarrow> int \<Rightarrow> int \<Rightarrow> int" where
  "exp_down n d x = (if 0 < n \<and> n < d then exp_down (10 * n) d (x - 1) else x)"
  by pat_completeness auto
termination
  by (relation "measure (\<lambda>(n, d, x). nat (d - n))") auto

declare exp_up.simps [simp del] exp_down.simps [simp del]

definition dec_exp :: "int \<Rightarrow> int \<Rightarrow> int" where
  "dec_exp n d = (if d \<le> n then exp_up n d 0 else exp_down n d 0)"

definition div_half_even :: "int \<Rightarrow> int \<Rightarrow> int" where
  "div_half_even n d =
     (let q = n div d; r = n mod d in if 2 * r > d \<or> (2 * r = d \<and> odd q) then q + 1 else q)"

text \<open>Six significant digits and their exponent.\<close>

definition six_digits :: "int \<Rightarrow> int \<Rightarrow> int \<times> int" where
  "six_digits n d =
     (let x = dec_exp n d; r = div_half_even (n * 10 ^ nat (5 - x)) (d * 10 ^ nat (x - 5))
      in if r = 1000000 then (100000, x + 1) else (r, x))"

fun strip_zeros :: "string \<Rightarrow> string" where
  "strip_zeros [] = []"
| "strip_zeros (c # cs) =
     (let r = strip_zeros cs in if r = [] \<and> c = CHR ''0'' then [] else c # r)"

definition with_point :: "string \<Rightarrow> string \<Rightarrow> string" where
  "with_point whole fr = (let f = strip_zeros fr in if f = [] then whole else whole @ ''.'' @ f)"

definition show_exp :: "int \<Rightarrow> string" where
  "show_exp x = ''e'' @ (if x < 0 then ''-'' else ''+'') @
     (if \<bar>x\<bar> < 10 then ''0'' else []) @ show_int \<bar>x\<bar>"

definition show_positive :: "int \<Rightarrow> int \<Rightarrow> string" where
  "show_positive n d =
     (case six_digits n d of (r, x) \<Rightarrow>
        let ds = show_int r
        in if x < -4 \<or> 6 \<le> x then with_point (take 1 ds) (drop 1 ds) @ show_exp x
           else if 0 \<le> x then with_point (take (nat (x + 1)) ds) (drop (nat (x + 1)) ds)
           else with_point ''0'' (replicate (nat (- x - 1)) CHR ''0'' @ ds))"

definition show_double :: "double \<Rightarrow> string" where
  "show_double a =
     (if sig a = 0 then ''0''
      else (if sig a < 0 then ''-'' else []) @
        show_positive (\<bar>sig a\<bar> * 2 ^ nat (ex a)) (2 ^ nat (- ex a)))"

end
