(* ===== verification/Cli_Main.thy ===== *)
theory Cli_Main
  imports Cli_Parser Cli_Generator Double_Text
begin

text \<open>
  \<open>main\<close> of \<open>cube_gen_cli.cpp\<close>: the command line, the scores and the order of the variables, and the
  JSON text. What the program reads from its surroundings is the record \<open>Env\<close>: the files, which
  paths can be written, the clock, the capacity of an empty vector and \<open>std::sort\<close>, whose order of
  equal elements the standard leaves open (\<open>is_sort\<close> is its contract).

  Ends of the program that are not a return of 0 are errors: the four returns of 1, the uncaught
  exceptions \<open>BadNumber\<close> (\<open>std::stoi\<close>, \<open>std::stod\<close>) and \<open>LengthError\<close> (a vector of negative length),
  and \<open>Undefined\<close> where the C++ behaviour is undefined: a header without a count, a variable above the
  declared count, no variable at all, or the dangling trail pointer.
\<close>

datatype main_error = Usage | UnknownOption string | CannotRead | CannotWrite | BadNumber | LengthError | Undefined

record Env =
  files :: "string \<Rightarrow> string option"
  writable :: "string \<Rightarrow> bool"
  round_clock :: "nat \<Rightarrow> double"
  total_time :: double
  empty_capacity :: nat
  std_sort :: "(int \<Rightarrow> int \<Rightarrow> bool) \<Rightarrow> int list \<Rightarrow> int list"

record Arguments =
  opts :: OptionCubeGenerator
  strategy :: string
  outputFile :: string

definition default_arguments :: Arguments where
  "default_arguments = \<lparr>opts = default_options, strategy = ''combined'', outputFile = []\<rparr>"

section \<open>The command line\<close>

text \<open>The lambda \<open>nxt\<close>: the next argument, or the empty string after the last one.\<close>

definition nxt :: "string list \<Rightarrow> string" where
  "nxt args = (case args of [] \<Rightarrow> [] | a # _ \<Rightarrow> a)"

function parse_args :: "string list \<Rightarrow> Arguments \<Rightarrow> main_error + Arguments" where
  "parse_args [] A = Inr A"
| "parse_args (arg # rest) A =
     (if arg = ''--num-cubes'' then
        (case stoi (nxt rest) of None \<Rightarrow> Inl BadNumber
         | Some v \<Rightarrow> parse_args (tl rest) (A\<lparr>opts := (opts A)\<lparr>numCubes := v mod 2 ^ 32\<rparr>\<rparr>))
      else if arg = ''--timeout'' then
        (case stod (nxt rest) of None \<Rightarrow> Inl BadNumber
         | Some v \<Rightarrow> parse_args (tl rest) (A\<lparr>opts := (opts A)\<lparr>timeoutSec := v\<rparr>\<rparr>))
      else if arg = ''--alpha'' then
        (case stod (nxt rest) of None \<Rightarrow> Inl BadNumber
         | Some v \<Rightarrow> parse_args (tl rest) (A\<lparr>opts := (opts A)\<lparr>alpha := v\<rparr>\<rparr>))
      else if arg = ''--strategy'' then parse_args (tl rest) (A\<lparr>strategy := nxt rest\<rparr>)
      else if arg = ''--output'' then parse_args (tl rest) (A\<lparr>outputFile := nxt rest\<rparr>)
      else if arg = ''--verbose'' then parse_args rest (A\<lparr>opts := (opts A)\<lparr>verbose := True\<rparr>\<rparr>)
      else Inl (UnknownOption arg))"
  by pat_completeness auto
termination
  by (relation "measure (\<lambda>(args, A). length args)") auto

definition final_options :: "Arguments \<Rightarrow> OptionCubeGenerator" where
  "final_options A = (opts A)\<lparr>useMinDeg := (strategy A \<noteq> ''jwts'')\<rparr>"

section \<open>Scores\<close>

definition struct_scores :: "PartialOrderHeuristic \<Rightarrow> int \<Rightarrow> double list" where
  "struct_scores po n = fold (\<lambda>v a. vset a v (getLevel po v)) [1..n] (replicate (nat (n + 1)) done1)"

text \<open>The lambda \<open>norm\<close>: divide by the maximum, entry 0 apart, unless no entry is positive.\<close>

definition norm_scores :: "double list \<Rightarrow> double list option" where
  "norm_scores v =
     (case max_element (tl v) of None \<Rightarrow> None
      | Some mx \<Rightarrow> Some (if dless dzero mx then take 1 v @ map (\<lambda>x. ddiv x mx) (tl v) else v))"

definition final_scores :: "double \<Rightarrow> double list \<Rightarrow> double list \<Rightarrow> int \<Rightarrow> double list" where
  "final_scores a structural js n =
     fold (\<lambda>v s. vset s v (dadd (dmul a (vget structural v)) (dmul (dsub done1 a) (vget js v))))
       [1..n] (replicate (nat (n + 1)) dzero)"

definition better :: "double list \<Rightarrow> int \<Rightarrow> int \<Rightarrow> bool" where
  "better scores a b \<longleftrightarrow> dless (vget scores b) (vget scores a)"

section \<open>JSON\<close>

definition cube_text :: "Lit list \<Rightarrow> string" where
  "cube_text c = ''['' @ join '', '' (map (\<lambda>l. show_int (lit_x l)) c) @ '']''"

definition order_text :: "int list \<Rightarrow> string" where
  "order_text vs = ''['' @ join '', '' (map show_int vs) @ '']''"

definition scores_text :: "double list \<Rightarrow> int \<Rightarrow> string" where
  "scores_text scores n = ''[0.0'' @ concat (map (\<lambda>v. '', '' @ show_double (vget scores v)) [1..n]) @ '']''"

fun cube_lines :: "Lit list list \<Rightarrow> string" where
  "cube_lines [] = []"
| "cube_lines (c # cs) = ''    '' @ cube_text c @ (if cs = [] then [] else '','') @ [newline] @ cube_lines cs"

definition toJSON :: "Formula \<Rightarrow> double list \<Rightarrow> int list \<Rightarrow> Lit list list \<Rightarrow> nat \<Rightarrow> double \<Rightarrow> string \<Rightarrow> string" where
  "toJSON f scores varOrder cubes npruned elapsed strat =
     ''{'' @ [newline] @
     ''  \"variable_order\": '' @ order_text varOrder @ '','' @ [newline] @
     ''  \"variable_scores\": '' @ scores_text scores (nbVar f) @ '','' @ [newline] @
     ''  \"initial_cubes\": ['' @ [newline] @ cube_lines cubes @ ''  ],'' @ [newline] @
     ''  \"stats\": {'' @ [newline] @
     ''    \"num_vars\": '' @ show_int (nbVar f) @ '','' @ [newline] @
     ''    \"num_clauses\": '' @ show_int (int (length (clauses f))) @ '','' @ [newline] @
     ''    \"num_cubes\": '' @ show_int (int (length cubes)) @ '','' @ [newline] @
     ''    \"pruned\": '' @ show_int (int npruned) @ '','' @ [newline] @
     ''    \"time_sec\": '' @ show_double elapsed @ '','' @ [newline] @
     ''    \"strategy\": \"'' @ strat @ ''\"'' @ [newline] @ ''  }'' @ [newline] @ ''}'' @ [newline]"

section \<open>The program\<close>

definition solve :: "Env \<Rightarrow> Arguments \<Rightarrow> Formula \<Rightarrow> (main_error + string) option" where
  "solve env A f =
     (let options = final_options A; n = nbVar f
      in if n + 1 < 0 then Some (Inl LengthError)
         else if \<not> (n < INT_MAX \<and> list_all (wf_clause n) (clauses f)) then Some (Inl Undefined)
         else
           (case make_partial_order f (useMinDeg options) of
              None \<Rightarrow> Some (Inl Undefined)
            | Some po \<Rightarrow>
                (case generate (empty_capacity env) (round_clock env) f options 0 [] of
                   None \<Rightarrow> None
                 | Some (Inl e) \<Rightarrow> Some (Inl Undefined)
                 | Some (Inr (npruned, cubes)) \<Rightarrow>
                     (case (norm_scores (struct_scores po n), norm_scores (jwts_scores f)) of
                        (Some structural, Some js) \<Rightarrow>
                          (let scores = final_scores (alpha options) structural js n;
                               varOrder = std_sort env (better scores) [1..n]
                           in Some (Inr (toJSON f scores varOrder cubes npruned (total_time env) (strategy A))))
                      | _ \<Rightarrow> Some (Inl Undefined)))))"

text \<open>The result: where the text goes (\<open>None\<close> is standard output) and the text.\<close>

definition main :: "Env \<Rightarrow> string list \<Rightarrow> (main_error + string option \<times> string) option" where
  "main env args =
     (case args of
        [] \<Rightarrow> Some (Inl Usage)
      | cnfPath # rest \<Rightarrow>
          (case parse_args rest default_arguments of
             Inl e \<Rightarrow> Some (Inl e)
           | Inr A \<Rightarrow>
               (case parseCNF (files env cnfPath) of
                  Inl CannotOpen \<Rightarrow> Some (Inl CannotRead)
                | Inl UninitialisedRead \<Rightarrow> Some (Inl Undefined)
                | Inr f \<Rightarrow>
                    (case solve env A f of
                       None \<Rightarrow> None
                     | Some (Inl e) \<Rightarrow> Some (Inl e)
                     | Some (Inr json) \<Rightarrow>
                         (if outputFile A = [] then Some (Inr (None, json))
                          else if \<not> writable env (outputFile A) then Some (Inl CannotWrite)
                          else Some (Inr (Some (outputFile A), json)))))))"

text \<open>The exit status; \<open>None\<close> for an uncaught exception or undefined behaviour.\<close>

definition exit_code :: "main_error + string option \<times> string \<Rightarrow> int option" where
  "exit_code r =
     (case r of Inr x \<Rightarrow> Some 0
      | Inl e \<Rightarrow> (case e of BadNumber \<Rightarrow> None | LengthError \<Rightarrow> None | Undefined \<Rightarrow> None | _ \<Rightarrow> Some 1))"


section \<open>Sorting\<close>

text \<open>The contract of \<open>std::sort\<close> for a strict weak order.\<close>

definition weak_order :: "('a \<Rightarrow> 'a \<Rightarrow> bool) \<Rightarrow> bool" where
  "weak_order lt \<longleftrightarrow> (\<forall>a b. lt a b \<longrightarrow> \<not> lt b a) \<and> (\<forall>a b c. lt a c \<longrightarrow> lt a b \<or> lt b c)"

definition is_sort :: "((int \<Rightarrow> int \<Rightarrow> bool) \<Rightarrow> int list \<Rightarrow> int list) \<Rightarrow> bool" where
  "is_sort srt \<longleftrightarrow> (\<forall>lt xs. weak_order lt \<longrightarrow>
     mset (srt lt xs) = mset xs \<and> sorted_wrt (\<lambda>a b. \<not> lt b a) (srt lt xs))"

fun insert_by :: "('a \<Rightarrow> 'a \<Rightarrow> bool) \<Rightarrow> 'a \<Rightarrow> 'a list \<Rightarrow> 'a list" where
  "insert_by lt x [] = [x]"
| "insert_by lt x (y # ys) = (if lt y x then y # insert_by lt x ys else x # y # ys)"

definition sort_by :: "('a \<Rightarrow> 'a \<Rightarrow> bool) \<Rightarrow> 'a list \<Rightarrow> 'a list" where
  "sort_by lt xs = foldr (insert_by lt) xs []"

lemma mset_insert_by [simp]: "mset (insert_by lt x ys) = add_mset x (mset ys)"
  by (induction ys) simp_all

lemma set_insert_by [simp]: "set (insert_by lt x ys) = insert x (set ys)"
  by (induction ys) auto

lemma insert_by_sorted:
  "weak_order lt \<Longrightarrow> sorted_wrt (\<lambda>a b. \<not> lt b a) ys \<Longrightarrow> sorted_wrt (\<lambda>a b. \<not> lt b a) (insert_by lt x ys)"
proof (induction ys)
  case (Cons y ys)
  then show ?case unfolding weak_order_def by simp blast
qed simp

lemma sort_by_is_sort: "is_sort sort_by"
proof -
  have "mset (sort_by lt xs) = mset xs \<and> (weak_order lt \<longrightarrow> sorted_wrt (\<lambda>a b. \<not> lt b a) (sort_by lt xs))"
    for lt and xs :: "int list"
    unfolding sort_by_def by (induction xs) (simp_all add: insert_by_sorted)
  then show ?thesis by (simp add: is_sort_def)
qed

lemma better_weak_order: "weak_order (better scores)"
  unfolding weak_order_def better_def dless_dval by auto

section \<open>A successful run\<close>

lemma length_struct_scores [simp]: "length (struct_scores po n) = nat (n + 1)"
proof -
  have "length (fold (\<lambda>v a. vset a v (getLevel po v)) vs a) = length a" for vs a
    by (induction vs arbitrary: a) simp_all
  then show ?thesis by (simp add: struct_scores_def)
qed

lemma norm_scores_defined: "2 \<le> length v \<Longrightarrow> \<exists>w. norm_scores v = Some w"
  by (cases v; cases "tl v") (auto simp: norm_scores_def)

lemma solve_ok:
  assumes f: "wf_formula f" "nbVar f + 1 \<le> int (empty_capacity env)" and srt: "is_sort (std_sort env)"
  obtains scores order cubes npruned where
    "solve env A f = Some (Inr (toJSON f scores order cubes npruned (total_time env) (strategy A)))"
    "generate (empty_capacity env) (round_clock env) f (final_options A) 0 [] = Some (Inr (npruned, cubes))"
    "cubes_cover (clauses f) cubes" "mset order = mset [1..nbVar f]"
    "sorted_wrt (\<lambda>a b. \<not> dless (vget scores a) (vget scores b)) order"
proof -
  have n: "1 \<le> nbVar f" "nbVar f < INT_MAX" "list_all (wf_clause (nbVar f)) (clauses f)"
    using f(1) by (simp_all add: wf_formula_def)
  obtain po np fin rest where po: "make_partial_order f (useMinDeg (final_options A)) = Some po"
    and g: "generate (empty_capacity env) (round_clock env) f (final_options A) 0 [] =
        Some (Inr (np, [] @ fin @ rest))" "cubes_cover (clauses f) (fin @ rest)"
    by (rule generate_result [OF f, of "final_options A" "round_clock env" 0 "[]"]) (rule that; assumption)
  have n2: "2 \<le> nat (nbVar f + 1)" using n by linarith
  obtain st where st: "norm_scores (struct_scores po (nbVar f)) = Some st"
    using norm_scores_defined [of "struct_scores po (nbVar f)"] n2 by auto
  obtain js where js: "norm_scores (jwts_scores f) = Some js"
    using norm_scores_defined [of "jwts_scores f"] jwts_scores_ok [OF f(1)] n2 by auto
  define scores where "scores = final_scores (alpha (final_options A)) st js (nbVar f)"
  define order where "order = std_sort env (better scores) [1..nbVar f]"
  have "mset order = mset [1..nbVar f] \<and> sorted_wrt (\<lambda>a b. \<not> better scores b a) order"
    using srt better_weak_order unfolding is_sort_def order_def by blast
  moreover have "solve env A f = Some (Inr (toJSON f scores order (fin @ rest) (np) (total_time env) (strategy A)))"
    using n po g st js by (simp add: solve_def Let_def scores_def order_def)
  ultimately show ?thesis using that g by (simp add: better_def)
qed

section \<open>Reading the numbers of the output\<close>

function read_ints :: "string \<Rightarrow> int list" where
  "read_ints s =
     (case scan_int s of None \<Rightarrow> []
      | Some (x, rest) \<Rightarrow>
          x # (case rest of [] \<Rightarrow> [] | c # r \<Rightarrow> if c = CHR '','' then read_ints r else []))"
  by pat_completeness auto
termination
  by (relation "measure length") (auto dest: scan_int_shorter)

declare read_ints.simps [simp del]

lemma comma_bracket: "no_digit_next (CHR '','' # s)" "no_digit_next (CHR '']'' # s)"
  by (simp_all add: no_digit_next_def is_digit_def)

lemma read_ints_space: "read_ints (CHR '' '' # s) = read_ints s"
  by (subst (1 2) read_ints.simps) (simp add: scan_int_space)

lemma read_ints_join:
  "\<forall>x\<in>set xs. in_int32 x \<Longrightarrow> read_ints (join '', '' (map show_int xs) @ '']'' @ t) = xs"
proof (induction xs rule: induct_list012)
  case 1
  then show ?case
    by (subst read_ints.simps) (simp add: scan_int_def is_space_def scan_sign_def is_digit_def)
next
  case (2 x)
  then show ?case
    by (subst read_ints.simps) (simp add: scan_int_show_int comma_bracket)
next
  case (3 x y zs)
  then show ?case
    by (subst read_ints.simps) (simp add: scan_int_show_int comma_bracket read_ints_space)
qed


section \<open>Properties\<close>

definition demo_env :: "Formula \<Rightarrow> Env" where
  "demo_env f = \<lparr>files = (\<lambda>p. Some (dimacs_text f)), writable = (\<lambda>p. True), round_clock = (\<lambda>i. dzero),
     total_time = dzero, empty_capacity = 6, std_sort = sort_by\<rparr>"

lemma demo_parse: "parseCNF (files (demo_env demo) ''f'') = Inr demo"
  by code_simp

lemma demo_arguments: "parse_args [''--num-cubes'', ''2''] default_arguments =
    Inr (default_arguments\<lparr>opts := (opts default_arguments)\<lparr>numCubes := 2\<rparr>\<rparr>)"
  by code_simp



text \<open>The requested number of cubes is stored in an unsigned 32-bit integer: a negative number asks
  for more cubes than any formula with at most 31 variables can give.\<close>

theorem num_cubes_wraps:
  assumes "in_int32 v"
  shows "parse_args [''--num-cubes'', show_int v] A =
    Inr (A\<lparr>opts := (opts A)\<lparr>numCubes := (if v < 0 then v + 4294967296 else v)\<rparr>\<rparr>)"
proof -
  have "scan_int (show_int v @ []) = Some (v, [])"
    by (rule scan_int_show_int [OF assms]) (simp add: no_digit_next_def)
  then have "stoi (show_int v) = Some v" by (simp add: stoi_def)
  moreover have "v mod 2 ^ 32 = (if v < 0 then v + 4294967296 else v)"
  proof (cases "v < 0")
    case True
    then have "v mod 4294967296 = (v + 4294967296) mod 4294967296" by simp
    also have "\<dots> = v + 4294967296" using assms True by (intro mod_pos_pos_trivial) (simp_all add: in_int32_def)
    finally show ?thesis using True by simp
  next
    case False
    then show ?thesis using assms by (simp add: in_int32_def)
  qed
  ultimately show ?thesis by (simp add: nxt_def)
qed

lemma num_cubes_wraps_witness:
  "parse_args [''--num-cubes'', show_int (-1)] default_arguments =
    Inr (default_arguments\<lparr>opts := (opts default_arguments)\<lparr>numCubes := 4294967295\<rparr>\<rparr>)"
  using num_cubes_wraps [of "-1" default_arguments] by (simp add: in_int32_def)

text \<open>Any strategy name other than \<open>jwts\<close>, \<open>mindeg\<close> and \<open>combined\<close> and misspelt ones alike, is
  accepted and selects the same options; the name only appears in the output.\<close>

theorem strategy_names_alike:
  assumes "s \<noteq> ''jwts''"
  shows "\<exists>A. parse_args [''--strategy'', s] default_arguments = Inr A \<and> strategy A = s \<and>
    final_options A = default_options"
  using assms by (simp add: nxt_def final_options_def default_arguments_def default_options_def)

lemma strategy_names_alike_witness:
  "\<exists>A. parse_args [''--strategy'', ''mindeg''] default_arguments = Inr A \<and> strategy A = ''mindeg'' \<and>
    final_options A = default_options"
  by (rule strategy_names_alike) simp

text \<open>The integers read back from a printed cube are its literals.\<close>

theorem cube_text_read_back:
  assumes "\<forall>l\<in>set c. in_int32 (lit_x l)"
  shows "read_ints (drop 1 (cube_text c)) = map lit_x c"
  using read_ints_join [of "map lit_x c" "[]"] assms by (simp add: cube_text_def comp_def)

lemma cube_text_read_back_witness:
  "read_ints (drop 1 (cube_text [Lit 3, Lit (-12)])) = [3, -12]"
  using cube_text_read_back [of "[Lit 3, Lit (-12)]"] by (simp add: in_int32_def)

end
