(* ===== verification/Cli_Watches.thy ===== *)
theory Cli_Watches
  imports Cli_Generator
begin

text \<open>
  The watch lists of the propagator never lose a clause: a clause stays in the list of a literal that
  was not false when it was last visited, or it has a true literal (\<open>watched\<close>). The scheme may drop
  one of the two watches of a clause, so units can be missed, but when all variables are assigned and
  propagation succeeds every non-empty clause is true: the finished cubes of \<open>createCubes\<close> are models.
\<close>

section \<open>The invariant\<close>

definition watches_of :: "Propagator \<Rightarrow> Lit \<Rightarrow> nat set" where
  "watches_of P l = set (vget (m_watches P) (litIdx l))"

definition watched :: "Lit set \<Rightarrow> Lit set \<Rightarrow> Propagator \<Rightarrow> bool" where
  "watched visited sat P \<longleftrightarrow> (\<forall>ci<length (m_clauses P). m_clauses P ! ci \<noteq> [] \<longrightarrow>
     (\<exists>l\<in>set (m_clauses P ! ci). ci \<in> watches_of P l \<and> neg_lit l \<notin> visited \<or> l \<in> sat))"

lemma litIdx_inj: "0 < var l \<Longrightarrow> 0 < var k \<Longrightarrow> litIdx l = litIdx k \<Longrightarrow> l = k"
  by (cases l; cases k) (auto simp: litIdx_def var_def sign_def split: if_splits; presburger)

lemma litIdx_nonneg: "0 < var l \<Longrightarrow> 0 \<le> litIdx l"
  by (simp add: litIdx_def)

lemma scan_clause_sat: "scan_clause P c free u w = (True, f', u', w') \<Longrightarrow> \<exists>l\<in>set c. value_of P l = 1"
  by (induction P c free u w rule: scan_clause.induct) (auto simp: Let_def split: if_splits)

lemma value_one_on_trail: "pwf P \<Longrightarrow> wf_lit (m_n P) l \<Longrightarrow> value_of P l = 1 \<Longrightarrow> l \<in> set (m_trail P)"
  using value_cases [of "{}" P l] by (auto simp: pwf_def)

lemma watches_push:
  assumes "pwf P" "wf_lit (m_n P) nw" "0 < var l"
  shows "watches_of (P\<lparr>m_watches := push_watch nw w (m_watches P)\<rparr>) l =
    (if l = nw then insert w (watches_of P l) else watches_of P l)"
proof (cases "litIdx l = litIdx nw")
  case True
  then have "l = nw" using litIdx_inj assms wf_lit_pos by blast
  then show ?thesis
    using static_ok_vin [of P nw] assms by (simp add: watches_of_def push_watch_def vget_vset_same pwf_def)
next
  case False
  then show ?thesis
    using litIdx_nonneg assms wf_lit_pos [OF assms(2)]
    by (auto simp: watches_of_def push_watch_def vget_vset_other)
qed

section \<open>Visiting one watch list\<close>

definition moved :: "Propagator \<Rightarrow> Propagator \<Rightarrow> nat \<Rightarrow> bool" where
  "moved P Q w \<longleftrightarrow> (\<exists>l\<in>set (m_clauses P ! w). w \<in> watches_of Q l \<and> var l \<notin> var ` set (m_trail P))"

definition keeps_watches :: "Lit \<Rightarrow> Propagator \<Rightarrow> Propagator \<Rightarrow> bool" where
  "keeps_watches f P Q \<longleftrightarrow> (\<forall>l. 0 < var l \<longrightarrow> l \<noteq> f \<longrightarrow> watches_of P l \<subseteq> watches_of Q l)"

lemma keeps_trans: "keeps_watches f P Q \<Longrightarrow> keeps_watches f Q R \<Longrightarrow> keeps_watches f P R"
  by (auto simp: keeps_watches_def)

lemma ext_vars: "ext P Q \<Longrightarrow> set (m_trail P) \<subseteq> set (m_trail Q)"
  by (auto simp: ext_def fresh_ext_def)

lemma moved_earlier: "ext P Q \<Longrightarrow> moved Q R w \<Longrightarrow> moved P R w"
  using ext_vars [of P Q] by (auto simp: moved_def ext_def)

lemma moved_later:
  assumes "moved P Q w" "keeps_watches f Q R" "var f \<in> var ` set (m_trail P)" "wf_clause (m_n P) (m_clauses P ! w)"
  shows "moved P R w"
proof -
  obtain l where l: "l \<in> set (m_clauses P ! w)" "w \<in> watches_of Q l" "var l \<notin> var ` set (m_trail P)"
    using assms(1) by (auto simp: moved_def)
  moreover have "0 < var l" using wf_clauseD [OF assms(4) l(1)] by (rule wf_lit_pos)
  moreover have "l \<noteq> f" using l(3) assms(3) by auto
  ultimately show ?thesis using assms(2) by (auto simp: moved_def keeps_watches_def)
qed

lemma visit_keeps:
  "visit_watches ws kept P = (ok, kept', Q) \<Longrightarrow> pwf P \<Longrightarrow> \<forall>w\<in>set ws. w < length (m_clauses P) \<Longrightarrow>
     var f \<in> var ` set (m_trail P) \<Longrightarrow>
     keeps_watches f P Q \<and> set kept \<subseteq> set kept' \<and> (\<forall>w\<in>set ws. w \<in> set kept' \<or> moved P Q w) \<and>
     (ok \<longrightarrow> (\<forall>w\<in>set ws. (\<exists>l\<in>set (m_clauses P ! w). l \<in> set (m_trail Q)) \<or> moved P Q w))"
proof (induction ws kept P arbitrary: ok kept' Q rule: visit_watches.induct)
  case (1 kept P)
  then show ?case by (auto simp: keeps_watches_def)
next
  case (2 w ws kept P)
  let ?c = "m_clauses P ! w"
  obtain sat free u nw where sc: "scan_clause P ?c 0 (Lit 0) (Lit 0) = (sat, free, u, nw)"
    using prod_cases4 by blast
  have c: "wf_clause (m_n P) ?c" using clause_of_watch [OF "2.prems"(2)] "2.prems"(3) by simp
  have ws: "\<forall>w\<in>set ws. w < length (m_clauses P)" using "2.prems"(3) by simp
  consider "sat" | "\<not> sat" "free = 0" | "\<not> sat" "free = Suc 0" | k where "\<not> sat" "free = Suc (Suc k)"
    by (metis not0_implies_Suc)
  then show ?case
  proof cases
    case 1
    then have v: "visit_watches ws (kept @ [w]) P = (ok, kept', Q)" using "2.prems"(1) sc by simp
    have "scan_clause P ?c 0 (Lit 0) (Lit 0) = (True, free, u, nw)" using sc 1 by simp
    then obtain l where "l \<in> set ?c" "value_of P l = 1" using scan_clause_sat by blast
    then have "l \<in> set ?c \<and> l \<in> set (m_trail Q)"
      using value_one_on_trail [OF "2.prems"(2) wf_clauseD [OF c]] visit_watches_ext [OF v "2.prems"(2) ws]
        ext_vars by blast
    then show ?thesis using "2.IH"(1) [OF sc [symmetric] refl refl 1 v "2.prems"(2) ws "2.prems"(4)] by auto
  next
    case 2
    then show ?thesis using "2.prems"(1) sc by (auto simp: keeps_watches_def)
  next
    case 3
    have tr: "trail_ok {} P" using "2.prems"(2) by (simp add: pwf_def)
    have "scan_clause P ?c 0 (Lit 0) (Lit 0) = (False, Suc 0, u, nw)" using sc 3 by simp
    note u = scan_unit [OF this tr c]
    let ?R = "uncheckedEnqueue u P"
    have v: "visit_watches ws (kept @ [w]) ?R = (ok, kept', Q)" using "2.prems"(1) sc 3 u by simp
    have r: "pwf ?R" "m_clauses ?R = m_clauses P" "watches_of ?R = watches_of P"
      using u wf_clauseD [OF c] pwf_enqueue [OF "2.prems"(2)] by (auto simp: watches_of_def)
    have k: "keeps_watches f ?R Q \<Longrightarrow> keeps_watches f P Q" "moved ?R Q x \<Longrightarrow> moved P Q x" for x
      by (auto simp: keeps_watches_def r(3) moved_def)
    have "u \<in> set (m_trail Q)" using visit_watches_ext [OF v r(1)] ws ext_vars by fastforce
    moreover have "keeps_watches f ?R Q \<and> set (kept @ [w]) \<subseteq> set kept' \<and>
        (\<forall>w\<in>set ws. w \<in> set kept' \<or> moved ?R Q w) \<and>
        (ok \<longrightarrow> (\<forall>w\<in>set ws. (\<exists>l\<in>set (m_clauses ?R ! w). l \<in> set (m_trail Q)) \<or> moved ?R Q w))"
      using "2.IH"(2) [OF sc [symmetric] refl refl] 3 u v r ws "2.prems"(4) by simp
    ultimately show ?thesis using u k r(2) by auto
  next
    case 4
    then have "scan_clause P ?c 0 (Lit 0) (Lit 0) = (False, Suc (Suc k), u, nw)" using sc by simp
    note nw = scan_new_watch [OF this]
    let ?R = "P\<lparr>m_watches := push_watch nw w (m_watches P)\<rparr>"
    have wf: "wf_lit (m_n P) nw" using nw wf_clauseD [OF c] by blast
    have r: "pwf ?R" using pwf_push_watch [OF "2.prems"(2) wf] "2.prems"(3) by simp
    have v: "visit_watches ws kept ?R = (ok, kept', Q)" using "2.prems"(1) sc 4 by simp
    have n: "var nw \<notin> var ` set (m_trail P)"
      using value_unassigned [of P nw] nw wf "2.prems"(2) by (simp add: pwf_def)
    have I: "keeps_watches f ?R Q \<and> set kept \<subseteq> set kept' \<and>
        (\<forall>w\<in>set ws. w \<in> set kept' \<or> moved ?R Q w) \<and>
        (ok \<longrightarrow> (\<forall>w\<in>set ws. (\<exists>l\<in>set (m_clauses ?R ! w). l \<in> set (m_trail Q)) \<or> moved ?R Q w))"
      using "2.IH"(3) [OF sc [symmetric] refl refl] 4 v r ws "2.prems"(4) by simp
    have kR: "keeps_watches f P ?R"
      using watches_push [OF "2.prems"(2) wf] by (auto simp: keeps_watches_def)
    have "w \<in> watches_of ?R nw" using watches_push [OF "2.prems"(2) wf wf_lit_pos [OF wf]] by simp
    then have "moved P ?R w" using nw n by (auto simp: moved_def)
    then have "moved P Q w" using moved_later I "2.prems"(4) c by blast
    moreover have "moved ?R Q x \<Longrightarrow> moved P Q x" for x by (simp add: moved_def)
    ultimately show ?thesis using I keeps_trans [OF kR] by auto
  qed
qed


section \<open>Propagating one literal and all of them\<close>

lemma propagateLit_keeps:
  assumes "propagateLit p P = (ok, R)" "pwf P" "p \<in> set (m_trail P)"
  shows "keeps_watches (neg_lit p) P R"
    "\<forall>w\<in>watches_of P (neg_lit p). w \<in> watches_of R (neg_lit p) \<or> moved P R w"
    "ok \<Longrightarrow> \<forall>w\<in>watches_of P (neg_lit p). (\<exists>l\<in>set (m_clauses P ! w). l \<in> set (m_trail R)) \<or> moved P R w"
proof -
  have wf: "wf_lit (m_n P) p" using assms(2,3) by (simp add: pwf_def trail_ok_def)
  then have p: "0 < var p" by (rule wf_lit_pos)
  let ?f = "neg_lit p"
  obtain kept Q where v: "visit_watches (vget (m_watches P) (litIdx ?f)) [] P = (ok, kept, Q)"
    and R: "R = Q\<lparr>m_watches := vset (m_watches Q) (litIdx ?f) kept\<rparr>"
    using assms(1) makeLit_not [OF p] by (auto simp: propagateLit_def Let_def split: prod.splits)
  have "nat (litIdx ?f) < length (m_watches P)"
    using static_ok_vin [of P ?f] assms(2) wf by (auto simp: pwf_def vin_def)
  then have "vget (m_watches P) (litIdx ?f) \<in> set (m_watches P)" by (simp add: vget_def)
  then have ws: "\<forall>w\<in>set (vget (m_watches P) (litIdx ?f)). w < length (m_clauses P)"
    using assms(2) by (auto simp: pwf_def static_ok_def)
  have "var ?f \<in> var ` set (m_trail P)" using assms(3) by simp
  note V = visit_keeps [OF v assms(2) ws this]
  have Q: "pwf Q" "m_n Q = m_n P" using visit_watches_ext [OF v assms(2) ws] by (auto simp: ext_def)
  have same: "watches_of R ?f = set kept"
    using static_ok_vin [of Q ?f] Q wf by (simp add: R watches_of_def vget_vset_same pwf_def)
  have other: "watches_of R l = watches_of Q l" if "0 < var l" "l \<noteq> ?f" for l
  proof -
    have "litIdx l \<noteq> litIdx ?f" using litIdx_inj [of l ?f] that p by auto
    then show ?thesis using litIdx_nonneg that(1) p by (simp add: R watches_of_def vget_vset_other)
  qed
  show "keeps_watches ?f P R" using V other by (auto simp: keeps_watches_def)
  have mv: "moved P R w" if "moved P Q w" "w \<in> watches_of P ?f" for w
  proof -
    have c: "wf_clause (m_n P) (m_clauses P ! w)"
      using clause_of_watch [OF assms(2)] ws that(2) by (simp add: watches_of_def)
    have "keeps_watches ?f Q R" using other by (auto simp: keeps_watches_def)
    then show ?thesis using moved_later [OF that(1)] assms(3) c by simp
  qed
  have "\<forall>w\<in>watches_of P ?f. w \<in> set kept \<or> moved P Q w" using V by (simp add: watches_of_def)
  then show "\<forall>w\<in>watches_of P ?f. w \<in> watches_of R ?f \<or> moved P R w"
    unfolding same using mv by blast
  have "m_trail R = m_trail Q" by (simp add: R)
  then show "ok \<Longrightarrow> \<forall>w\<in>watches_of P ?f. (\<exists>l\<in>set (m_clauses P ! w). l \<in> set (m_trail R)) \<or> moved P R w"
    using V mv by (fastforce simp: watches_of_def)
qed

lemma moved_good: "moved P R w \<Longrightarrow> visited \<subseteq> set (m_trail P) \<Longrightarrow>
    \<exists>l\<in>set (m_clauses P ! w). w \<in> watches_of R l \<and> neg_lit l \<notin> visited"
  unfolding moved_def by (metis image_eqI subsetD var_neg_lit)

text \<open>A watch that was good for a visited part of the trail stays good, or is replaced by a good one.\<close>

lemma propagateLit_watched:
  assumes "propagateLit p P = (ok, R)" "pwf P" "p \<in> set (m_trail P)"
    and "watched visited sat P" "visited \<subseteq> set (m_trail P)" "sat \<subseteq> set (m_trail P)"
  shows "watched visited (set (m_trail R)) R" and "ok \<Longrightarrow> watched (insert p visited) (set (m_trail R)) R"
    and "watched visited sat R"
proof -
  have wf: "wf_lit (m_n P) p" using assms(2,3) by (simp add: pwf_def trail_ok_def)
  note K = propagateLit_keeps [OF assms(1-3)]
  have E: "ext P R" using propagateLit_ext [OF assms(1,2) wf] by simp
  have cl: "m_clauses R = m_clauses P" using E by (simp add: ext_def)
  have satR: "sat \<subseteq> set (m_trail R)" using ext_vars [OF E] assms(6) by blast
  have "(\<exists>l\<in>set (m_clauses R ! ci). ci \<in> watches_of R l \<and> neg_lit l \<notin> visited \<or> l \<in> sat) \<and>
      (ok \<longrightarrow> (\<exists>l\<in>set (m_clauses R ! ci). ci \<in> watches_of R l \<and> neg_lit l \<notin> insert p visited \<or> l \<in> set (m_trail R)))"
    if ci: "ci < length (m_clauses R)" "m_clauses R ! ci \<noteq> []" for ci
  proof -
    let ?c = "m_clauses P ! ci"
    obtain l where l: "l \<in> set ?c" "ci \<in> watches_of P l \<and> neg_lit l \<notin> visited \<or> l \<in> sat"
      using assms(4) ci cl by (auto simp: watched_def)
    have pos: "0 < var l"
      using clause_of_watch [OF assms(2)] ci cl wf_clauseD l(1) wf_lit_pos by metis
    show ?thesis
    proof (cases "l \<in> sat")
      case True
      then show ?thesis using l(1) satR cl by auto
    next
      case False
      then have w: "ci \<in> watches_of P l" "neg_lit l \<notin> visited" using l(2) by auto
      have good: "moved P R ci \<Longrightarrow> \<exists>l\<in>set ?c. ci \<in> watches_of R l \<and> neg_lit l \<notin> insert p visited"
        using moved_good [of P R ci "insert p visited"] assms(3,5) by simp
      show ?thesis
      proof (cases "l = neg_lit p")
        case True
        have "ci \<in> watches_of R l \<or> moved P R ci" using K(2) w(1) True by auto
        moreover have "ok \<Longrightarrow> (\<exists>l\<in>set ?c. l \<in> set (m_trail R)) \<or> moved P R ci" using K(3) w(1) True by auto
        ultimately show ?thesis using good l(1) w(2) cl by auto
      next
        case False
        then have "ci \<in> watches_of R l" using K(1) w(1) pos by (auto simp: keeps_watches_def)
        moreover have "neg_lit l \<noteq> p" using False by auto
        ultimately show ?thesis using l(1) w(2) cl by auto
      qed
    qed
  qed
  then show "watched visited (set (m_trail R)) R" "ok \<Longrightarrow> watched (insert p visited) (set (m_trail R)) R"
    "watched visited sat R"
    using satR unfolding watched_def by blast+
qed

lemma watched_cong:
  "m_clauses Q = m_clauses P \<Longrightarrow> m_watches Q = m_watches P \<Longrightarrow> watched v s Q = watched v s P"
  by (simp add: watched_def watches_of_def)

lemma watched_mono: "watched v s P \<Longrightarrow> v' \<subseteq> v \<Longrightarrow> s \<subseteq> s' \<Longrightarrow> watched v' s' P"
  unfolding watched_def by blast

lemma take_ext: "ext P Q \<Longrightarrow> k \<le> length (m_trail P) \<Longrightarrow> take k (m_trail Q) = take k (m_trail P)"
  by (auto simp: ext_def fresh_ext_def)

text \<open>One round of \<open>propagate\<close>: the two cases the inductions below share.\<close>

lemma propagate_round:
  assumes P: "pwf P" "m_qhead P < length (m_trail P)" and pr: "propagate P = Some (ok, Q)"
  obtains R where "\<not> ok" "Q = R\<lparr>m_unsat := True\<rparr>" "ext P R" "m_qhead R = Suc (m_qhead P)"
      "\<And>V S. watched V S P \<Longrightarrow> V \<subseteq> set (m_trail P) \<Longrightarrow> S \<subseteq> set (m_trail P) \<Longrightarrow> watched V S R"
  | R where "propagate R = Some (ok, Q)" "pwf R" "ext P R" "m_qhead R = Suc (m_qhead P)" "pending R < pending P"
      "\<And>V S. watched V S P \<Longrightarrow> V \<subseteq> set (m_trail P) \<Longrightarrow> S \<subseteq> set (m_trail P) \<Longrightarrow> watched V S R"
      "watched (set (take (m_qhead P) (m_trail P))) (set (m_trail P)) P \<Longrightarrow>
       watched (set (take (m_qhead R) (m_trail R))) (set (m_trail R)) R"
proof -
  let ?p = "m_trail P ! m_qhead P" let ?P1 = "P\<lparr>m_qhead := Suc (m_qhead P)\<rparr>"
  let ?v = "set (take (m_qhead P) (m_trail P))"
  obtain o1 R where pl: "propagateLit ?p ?P1 = (o1, R)" by fastforce
  have p: "?p \<in> set (m_trail ?P1)" "pwf ?P1" using P by simp_all
  then have "wf_lit (m_n ?P1) ?p" by (simp add: pwf_def trail_ok_def)
  then have E: "ext P R" "m_qhead R = Suc (m_qhead P)" using propagateLit_ext [OF pl p(2)] by auto
  have same: "watched V S ?P1 = watched V S P" for V S by (rule watched_cong) simp_all
  have keep: "watched V S R" if "watched V S P" "V \<subseteq> set (m_trail P)" "S \<subseteq> set (m_trail P)" for V S
    using propagateLit_watched(3) [OF pl p(2,1)] that same by simp
  have step: "propagate P = (if o1 then propagate R else Some (False, R\<lparr>m_unsat := True\<rparr>))"
    by (rule propagate_step [OF P(2) pl])
  show ?thesis
  proof (cases o1)
    case False
    then show ?thesis using that(1) [of R] pr step E keep by simp
  next
    case True
    have more: "watched (set (take (m_qhead R) (m_trail R))) (set (m_trail R)) R" if "watched ?v (set (m_trail P)) P"
    proof -
      have "?v \<subseteq> set (m_trail ?P1)" using set_take_subset by simp
      then have "watched (insert ?p ?v) (set (m_trail R)) R"
        using propagateLit_watched(2) [OF pl p(2,1), of ?v "set (m_trail P)"] that same True by simp
      then show ?thesis
        using take_ext [OF E(1), of "Suc (m_qhead P)"] P(2) by (simp add: E(2) take_Suc_conv_app_nth)
    qed
    have R: "pwf R" "m_n R = m_n P" using E(1) by (simp_all add: ext_def)
    then have "pending R < pending P"
      using ext_card [OF E(1)] E(2) P(2) by (simp add: pending_def)
    then show ?thesis using that(2) [of R] pr step True E R keep more by simp
  qed
qed

lemma propagate_watched:
  "pwf P \<Longrightarrow> propagate P = Some (ok, Q) \<Longrightarrow>
     watched (set (take (m_qhead P) (m_trail P))) (set (m_trail P)) P \<Longrightarrow> ok \<Longrightarrow>
     watched (set (m_trail Q)) (set (m_trail Q)) Q"
proof (induction "pending P" arbitrary: P rule: less_induct)
  case less
  show ?case
  proof (cases "m_qhead P < length (m_trail P)")
    case False
    then show ?thesis using less.prems by (auto simp: propagate_done)
  next
    case True
    show ?thesis
      by (rule propagate_round [OF less.prems(1) True less.prems(2)]) (use less in simp_all)
  qed
qed

lemma propagate_keeps:
  "pwf P \<Longrightarrow> propagate P = Some (ok, Q) \<Longrightarrow> watched V S P \<Longrightarrow> V \<subseteq> set (m_trail P) \<Longrightarrow>
     S \<subseteq> set (m_trail P) \<Longrightarrow> watched V S Q"
proof (induction "pending P" arbitrary: P rule: less_induct)
  case less
  show ?case
  proof (cases "m_qhead P < length (m_trail P)")
    case False
    then show ?thesis using less.prems by (auto simp: propagate_done)
  next
    case True
    show ?thesis
    proof (rule propagate_round [OF less.prems(1) True less.prems(2)])
      fix R assume "Q = R\<lparr>m_unsat := True\<rparr>"
        "\<And>V S. watched V S P \<Longrightarrow> V \<subseteq> set (m_trail P) \<Longrightarrow> S \<subseteq> set (m_trail P) \<Longrightarrow> watched V S R"
      then show ?thesis using less.prems watched_cong [of Q R] by simp
    next
      fix R assume "propagate R = Some (ok, Q)" "pwf R" "ext P R" "pending R < pending P"
        "\<And>V S. watched V S P \<Longrightarrow> V \<subseteq> set (m_trail P) \<Longrightarrow> S \<subseteq> set (m_trail P) \<Longrightarrow> watched V S R"
      then show ?thesis using less ext_vars [of P R] by blast
    qed
  qed
qed

lemma propagate_qhead:
  "pwf P \<Longrightarrow> propagate P = Some (ok, Q) \<Longrightarrow> m_qhead P \<le> length (m_trail P) \<Longrightarrow> m_qhead Q \<le> length (m_trail Q)"
proof (induction "pending P" arbitrary: P rule: less_induct)
  case less
  show ?case
  proof (cases "m_qhead P < length (m_trail P)")
    case False
    then show ?thesis using less.prems by (auto simp: propagate_done)
  next
    case True
    have le: "ext P R \<Longrightarrow> m_qhead R = Suc (m_qhead P) \<Longrightarrow> m_qhead R \<le> length (m_trail R)" for R
      using True ext_card [of P R] by simp
    show ?thesis
      by (rule propagate_round [OF less.prems(1) True less.prems(2)]) (use less le in simp_all)
  qed
qed

section \<open>The constructor and the other operations\<close>

lemma push_watch_keeps:
  "vin ws (litIdx l) \<Longrightarrow> 0 \<le> j \<Longrightarrow>
     set (vget (push_watch l ci ws) j) = (if j = litIdx l then insert ci (set (vget ws j)) else set (vget ws j))"
  by (auto simp: push_watch_def vget_vset_same vget_vset_other vin_def)

lemma buildWatches_watch:
  "\<forall>c\<in>set cs. wf_clause n c \<Longrightarrow> length ws = nat (2 * (n + 1)) \<Longrightarrow>
     (\<forall>j\<ge>0. set (vget ws j) \<subseteq> set (vget (buildWatches cs ci ws) j)) \<and>
     (\<forall>k<length cs. cs ! k \<noteq> [] \<longrightarrow> ci + k \<in> set (vget (buildWatches cs ci ws) (litIdx (cs ! k ! 0))))"
proof (induction cs ci ws rule: buildWatches.induct)
  case (2 c cs ci ws)
  define ws1 where "ws1 = (if 1 \<le> length c then push_watch (c ! 0) ci ws else ws)"
  define ws2 where "ws2 = (if 2 \<le> length c then push_watch (c ! 1) ci ws1 else ws1)"
  have b: "buildWatches (c # cs) ci ws = buildWatches cs (Suc ci) ws2" by (simp add: Let_def ws1_def ws2_def)
  have vin: "vin xs (litIdx (c ! i)) \<and> 0 \<le> litIdx (c ! i)" if "i < length c" "length xs = length ws" for i and xs :: "nat list list"
    using "2.prems" wf_clauseD [of n c "c ! i"] that by (auto simp: vin_def litIdx_def wf_lit_def)
  have v0: "vin ws (litIdx (c ! 0)) \<and> 0 \<le> litIdx (c ! 0)" if "1 \<le> length c"
    using vin [of 0 ws] that by linarith
  have 1: "set (vget ws j) \<subseteq> set (vget ws1 j)" if "0 \<le> j" for j
    using v0 push_watch_keeps [of ws "c ! 0" j ci] that by (auto simp: ws1_def)
  have ci: "ci \<in> set (vget ws1 (litIdx (c ! 0)))" if "1 \<le> length c"
    using v0 [OF that] push_watch_keeps [of ws "c ! 0" "litIdx (c ! 0)" ci] that by (simp add: ws1_def)
  have l: "length ws1 = length ws" "length ws2 = length ws" by (simp_all add: ws1_def ws2_def)
  have 2: "set (vget ws1 j) \<subseteq> set (vget ws2 j)" if "0 \<le> j" for j
  proof (cases "2 \<le> length c")
    case True
    then have "vin ws1 (litIdx (c ! 1))" using vin [of 1 ws1] l by linarith
    then show ?thesis using push_watch_keeps [of ws1 "c ! 1" j ci] that True by (auto simp: ws2_def)
  qed (simp add: ws2_def)
  note I = "2.IH" [OF ws1_def ws2_def, OF _ trans [OF l(2) "2.prems"(2)]]
  have sub: "set (vget ws j) \<subseteq> set (vget (buildWatches (c # cs) ci ws) j)" if "0 \<le> j" for j
    using I "2.prems"(1) 1 [OF that] 2 [OF that] that unfolding b by fastforce
  have "ci + k \<in> set (vget (buildWatches (c # cs) ci ws) (litIdx ((c # cs) ! k ! 0)))"
    if k: "k < length (c # cs)" "(c # cs) ! k \<noteq> []" for k
  proof (cases k)
    case 0
    then have c: "1 \<le> length c" using k by (cases c) auto
    then have "ci \<in> set (vget ws2 (litIdx (c ! 0)))" using ci 2 v0 by blast
    then show ?thesis using I "2.prems"(1) 0 v0 [OF c] unfolding b by fastforce
  next
    case (Suc k')
    then show ?thesis using I "2.prems"(1) k unfolding b by fastforce
  qed
  then show ?case using sub by blast
qed simp

lemma mkPropagator_watched:
  assumes "wf_formula f"
  shows "watched {} {} (mkPropagator cap0 (nbVar f) (clauses f))"
proof -
  let ?ws = "replicate (nat (2 * (nbVar f + 1))) []"
  have "\<forall>c\<in>set (clauses f). wf_clause (nbVar f) c" using assms by (simp add: wf_formula_def list_all_iff)
  then have "\<forall>k<length (clauses f). clauses f ! k \<noteq> [] \<longrightarrow>
      k \<in> set (vget (buildWatches (clauses f) 0 ?ws) (litIdx (clauses f ! k ! 0)))"
    using buildWatches_watch [of "clauses f" "nbVar f" ?ws 0] by simp
  then show ?thesis
    unfolding watched_def watches_of_def mkPropagator_def by fastforce
qed

lemma cancel_loop_static: "m_watches (cancel_loop pos P) = m_watches P \<and> m_clauses (cancel_loop pos P) = m_clauses P"
proof (induction pos P rule: cancel_loop.induct)
  case (1 pos P)
  then show ?case by (subst (1 2) cancel_loop.simps) simp
qed

lemma watched_unchanged:
  "watched v s (uncheckedEnqueue l P) = watched v s P" "watched v s (restart P) = watched v s P"
  "watched v s (cancelUntilPos pos P) = watched v s P" "watched v s (fill ls P) = watched v s P"
proof -
  have f: "m_watches (fill ls P) = m_watches P \<and> m_clauses (fill ls P) = m_clauses P"
    by (induction ls arbitrary: P) (simp_all add: fill_lit_def)
  show "watched v s (uncheckedEnqueue l P) = watched v s P" "watched v s (restart P) = watched v s P"
    "watched v s (cancelUntilPos pos P) = watched v s P" "watched v s (fill ls P) = watched v s P"
    using f cancel_loop_static [of pos P]
    by (intro watched_cong; simp add: restart_def cancelUntilPos_def Let_def)+
qed


section \<open>The finished cubes\<close>

lemma load_watched:
  assumes "gen_static f S" "cube_ok (nbVar f) (pq_top (g_queue S))" "watched {} {} (m_propagator S)"
    and "load S = Some (ok, P)"
  shows "watched {} {} P" "ok \<Longrightarrow> watched (set (m_trail P)) (set (m_trail P)) P" "m_qhead P \<le> length (m_trail P)"
proof -
  let ?F = "fill (lits (pq_top (g_queue S))) (restart (m_propagator S))"
  have p: "pwf (m_propagator S)" using assms(1) by (simp add: gen_static_def)
  note R = restart_ok [OF p]
  have "\<forall>l\<in>set (lits (pq_top (g_queue S))). wf_lit (m_n (restart (m_propagator S))) l"
    using assms(1,2) R(3) by (simp add: cube_ok_def gen_static_def)
  from fill_ok [OF R(1) this] R(2) have F: "pwf ?F" by simp
  have q: "m_qhead (fill ls P) = m_qhead P" for ls P
    by (induction ls arbitrary: P) (simp_all add: fill_lit_def)
  have w: "watched {} {} ?F" using assms(3) by (simp add: watched_unchanged)
  then have "watched (set (take (m_qhead ?F) (m_trail ?F))) (set (m_trail ?F)) ?F"
    by (rule watched_mono) (simp_all add: q R(6))
  then show "watched {} {} P" "ok \<Longrightarrow> watched (set (m_trail P)) (set (m_trail P)) P" "m_qhead P \<le> length (m_trail P)"
    using propagate_watched [OF F] propagate_keeps [OF F _ w] propagate_qhead [OF F, of ok P] assms(4)
    by (simp_all add: load_def q R(6))
qed

text \<open>A trail with every variable on which propagation succeeded makes every non-empty clause true.\<close>

lemma total_trail_model:
  assumes w: "watched (set (m_trail P)) (set (m_trail P)) P" and p: "pwf P"
    and all: "{1..m_n P} \<subseteq> var ` set (m_trail P)" and ne: "\<forall>c\<in>set (m_clauses P). c \<noteq> []"
    and m: "in_cube m (m_trail P)"
  shows "models m (m_clauses P)"
proof -
  have "\<exists>l\<in>set (m_clauses P ! ci). lit_true m l" if ci: "ci < length (m_clauses P)" for ci
  proof -
    obtain l where l: "l \<in> set (m_clauses P ! ci)" "neg_lit l \<notin> set (m_trail P) \<or> l \<in> set (m_trail P)"
      using w ci ne by (auto simp: watched_def)
    have "wf_lit (m_n P) l" using clause_of_watch [OF p ci] l(1) wf_clauseD by blast
    then have "var l \<in> var ` set (m_trail P)" and pos: "0 < var l" using all by (auto simp: wf_lit_def)
    then obtain k where "k \<in> set (m_trail P)" "var l = var k" by blast
    then have "l \<in> set (m_trail P)" using l(2) same_var_cases [OF pos, of k] by auto
    then show ?thesis using l(1) m by (auto simp: truth_simps)
  qed
  then show ?thesis by (auto simp: truth_simps in_set_conv_nth)
qed

definition model_cube :: "Formula \<Rightarrow> Lit list \<Rightarrow> bool" where
  "model_cube f c \<longleftrightarrow> ({1..nbVar f} \<subseteq> var ` set c \<longrightarrow> (\<forall>m. in_cube m c \<longrightarrow> models m (clauses f)))"

text \<open>The trail of a successful branch, when everything before the new literal was propagated.\<close>

lemma branch_model_cube:
  assumes pr: "propagate (uncheckedEnqueue l P) = Some (True, Q)" and e: "pwf (uncheckedEnqueue l P)"
    and w: "watched (set (m_trail P)) (set (m_trail P)) P" "m_qhead P \<le> length (m_trail P)"
    and f: "m_clauses P = clauses f" "m_n P = nbVar f" "\<forall>c\<in>set (clauses f). c \<noteq> []"
  shows "model_cube f (m_trail Q)"
proof -
  have "watched (set (m_trail P)) (set (m_trail P)) (uncheckedEnqueue l P)"
    using w(1) by (simp add: watched_unchanged)
  then have "watched (set (take (m_qhead (uncheckedEnqueue l P)) (m_trail (uncheckedEnqueue l P))))
      (set (m_trail (uncheckedEnqueue l P))) (uncheckedEnqueue l P)"
    by (rule watched_mono) (use w(2) in \<open>auto dest: in_set_takeD\<close>)
  then have "watched (set (m_trail Q)) (set (m_trail Q)) Q" using propagate_watched [OF e pr] by simp
  moreover have "pwf Q" "m_n Q = nbVar f" "m_clauses Q = clauses f"
    using propagate_total [OF e] pr f by (auto simp: ext_def)
  ultimately show ?thesis using total_trail_model [of Q] f(3) by (auto simp: model_cube_def)
qed

lemma push_branch_state:
  "push_branch t l P S = Some (Inr S') \<Longrightarrow> propagate (uncheckedEnqueue l P) = Some (ok, Q) \<Longrightarrow>
     m_propagator S' = Q \<and> g_cubes S' = g_cubes S \<and>
     g_queue S' = fold q_push (if ok then [make_cube (m_trail Q)] else []) (g_queue S)"
  by (auto simp: push_branch_def split: if_splits)

lemma set_pop_pushes: "q \<noteq> [] \<Longrightarrow> set (q_pop (fold q_push ks q)) \<subseteq> set q \<union> set ks"
proof -
  have m: "mset (fold q_push ks q) = mset q + mset ks" for q
    by (induction ks arbitrary: q) (simp_all add: mset_pq_push)
  assume "q \<noteq> []"
  then have "fold q_push ks q \<noteq> []" using m [of q] by auto
  then have "mset (q_pop (fold q_push ks q)) \<subseteq># mset (fold q_push ks q)"
    by (intro std_heap.pop_sub) simp
  then have "set_mset (mset (q_pop (fold q_push ks q))) \<subseteq> set_mset (mset (fold q_push ks q))"
    by (rule set_mset_mono)
  then show ?thesis by (simp add: m)
qed

lemma split_cube_watched:
  assumes sp: "split_cube v S = Some (Inr S')" and S: "m_propagator S = P" "g_queue S \<noteq> []"
    and P: "pwf P" "watched {} {} P" "watched (set (m_trail P)) (set (m_trail P)) P" "m_qhead P \<le> length (m_trail P)"
    and v: "1 \<le> v" "v \<le> m_n P"
    and f: "m_clauses P = clauses f" "m_n P = nbVar f" "\<forall>c\<in>set (clauses f). c \<noteq> []"
  shows "watched {} {} (m_propagator S')" "g_cubes S' = g_cubes S"
    "c \<in> set (g_queue S') \<Longrightarrow> c \<in> set (g_queue S) \<or> model_cube f (lits c)"
proof -
  let ?p = "makeLitTrue v" let ?q = "makeLitFalse v" let ?t = "m_trail P"
  have vv: "0 < var ?p" "var ?p \<le> m_n P" using v by simp_all
  obtain ok1 Q1 new where Q1: "propagate (uncheckedEnqueue ?p P) = Some (ok1, Q1)" "pwf Q1"
      "m_clauses Q1 = m_clauses P" "m_n Q1 = m_n P"
      "m_trail Q1 = ?t @ ?p # new" "var ` set new \<inter> insert (var ?p) (var ` set ?t) = {}"
    by (rule cli_prop.enqueue_propagate [OF P(1) vv]) (rule that; assumption)
  have e1: "pwf (uncheckedEnqueue ?p P)" using pwf_enqueue [OF P(1)] v by (simp add: wf_lit_def)
  have w1: "watched {} {} Q1" "watched (set ?t) (set ?t) Q1"
    using P(2,3) by (auto intro!: propagate_keeps [OF e1 Q1(1)] simp: watched_unchanged)
  let ?R = "cancelUntilPos (length ?t) Q1"
  have X: "var ` set (?p # new) \<inter> var ` set ?t \<subseteq> {v}" using Q1(6) v by auto
  note R = cancelUntilPos_ok [OF Q1(2,5) X]
  have e2: "pwf (uncheckedEnqueue ?q ?R)"
    using cli_prop.backtrack_law [OF Q1(2,5), of ?q] X v Q1(4) by simp
  have qh: "m_qhead ?R \<le> length (m_trail ?R)"
    using cancelUntilPos_spec [OF Q1(2,5)] R(3) by auto
  obtain ok2 Q2 where Q2: "propagate (uncheckedEnqueue ?q ?R) = Some (ok2, Q2)"
    using propagate_total [OF e2] by blast
  obtain S1 where S1: "push_branch (getTrail P) ?p P S = Some (Inr S1)"
    using sp S(1) by (auto simp: split_cube_def Let_def split: option.splits sum.splits)
  obtain S2 where S2: "push_branch (getTrail P) ?q (cancelUntilPos (length ?t) (m_propagator S1)) S1 = Some (Inr S2)"
      "S' = S2\<lparr>g_queue := q_pop (g_queue S2)\<rparr>"
    using sp S(1) S1 by (auto simp: split_cube_def Let_def split: option.splits sum.splits)
  note p1 = push_branch_state [OF S1 Q1(1)]
  have p2: "m_propagator S2 = Q2 \<and> g_cubes S2 = g_cubes S1 \<and>
      g_queue S2 = fold q_push (if ok2 then [make_cube (m_trail Q2)] else []) (g_queue S1)"
    using push_branch_state [OF S2(1), of ok2 Q2] p1 Q2 by simp
  show "g_cubes S' = g_cubes S" using p1 p2 S2(2) by simp
  have "watched {} {} Q2"
    using w1(1) by (auto intro!: propagate_keeps [OF e2 Q2] simp: watched_unchanged)
  then show "watched {} {} (m_propagator S')" using p2 S2(2) by simp
  have m1: "model_cube f (m_trail Q1)" if ok1
    using branch_model_cube [OF _ e1 P(3,4) f] Q1(1) that by simp
  have m2: "model_cube f (m_trail Q2)" if ok2
    using branch_model_cube [OF _ e2, of Q2 f] Q2 that w1(2) R qh f Q1 by (simp add: watched_unchanged)
  let ?kids = "(if ok1 then [make_cube (m_trail Q1)] else []) @ (if ok2 then [make_cube (m_trail Q2)] else [])"
  have "g_queue S' = q_pop (fold q_push ?kids (g_queue S))" using p1 p2 S2(2) by simp
  moreover have "model_cube f (lits k)" if "k \<in> set ?kids" for k
    using that m1 m2 by (cases ok1; cases ok2) auto
  ultimately show "c \<in> set (g_queue S') \<Longrightarrow> c \<in> set (g_queue S) \<or> model_cube f (lits c)"
    using set_pop_pushes [OF S(2), of ?kids] by auto
qed

section \<open>The cubes of a run\<close>

definition models_inv :: "Formula \<Rightarrow> Lit list list \<Rightarrow> CubeGenerator \<Rightarrow> bool" where
  "models_inv f cubes0 S \<longleftrightarrow> watched {} {} (m_propagator S) \<and> (\<forall>c\<in>set (g_queue S). model_cube f (lits c)) \<and>
     (\<exists>fin. g_cubes S = cubes0 @ fin \<and> (\<forall>c\<in>set fin. model_cube f c))"

lemma models_inv_step:
  assumes S: "gen_inv f S" "g_queue S \<noteq> []" "models_inv f cubes0 S"
    and ne: "\<forall>c\<in>set (clauses f). c \<noteq> []" and cc: "createCubes S = Some (Inr S')"
  shows "models_inv f cubes0 S'"
proof -
  let ?c = "pq_top (g_queue S)" let ?n = "nbVar f"
  have st: "gen_static f S" and q: "queue_ok ?n (g_queue S)" using S(1) by (auto simp: gen_inv_def)
  have top: "?c \<in> set (g_queue S)" using S(2) std_heap.top_in [of "g_queue S"] by simp
  then have c: "cube_ok ?n ?c" using q by (auto simp: queue_ok_def)
  have wf: "\<forall>l\<in>set (lits ?c). wf_lit ?n l" using c by (simp add: cube_ok_def)
  have w0: "watched {} {} (m_propagator S)" using S(3) by (simp add: models_inv_def)
  obtain fin where fin: "g_cubes S = cubes0 @ fin" "\<forall>c\<in>set fin. model_cube f c"
    using S(3) by (auto simp: models_inv_def)
  have qm: "\<forall>c\<in>set (g_queue S). model_cube f (lits c)" using S(3) by (simp add: models_inv_def)
  have pop: "set (q_pop (g_queue S)) \<subseteq> set (g_queue S)" using set_pop_pushes [OF S(2), of "[]"] by simp
  obtain ok P where P: "load S = Some (ok, P)" "pwf P" "m_n P = ?n" "m_clauses P = clauses f" "ok \<Longrightarrow> \<not> m_unsat P"
    by (rule load_ok [OF st c]) (rule that; assumption)
  note w = load_watched [OF st c w0 P(1)]
  obtain v h where nx: "next_var (m_partialOrderHeuristic S) (m_branchingCubeHeuristic S) (lits ?c) = (v, h)"
    by fastforce
  have h: "v = var_Undef \<or> 1 \<le> v \<and> v \<le> ?n"
    using next_var_spec [OF _ _ _ nx] st wf by (auto simp: gen_static_def)
  consider "\<not> ok" | "ok" "v = var_Undef" | "ok" "v \<noteq> var_Undef" by blast
  then show ?thesis
  proof cases
    case 1
    then have "S' = S\<lparr>m_propagator := P, g_queue := q_pop (g_queue S), pruned := pruned S + 1\<rparr>"
      using cc P(1) by (simp add: createCubes_def Let_def)
    then show ?thesis using w(1) fin qm pop by (auto simp: models_inv_def)
  next
    case 2
    then have "S' = S\<lparr>m_propagator := P, m_branchingCubeHeuristic := h,
        g_cubes := g_cubes S @ [lits ?c], g_queue := q_pop (g_queue S)\<rparr>"
      using cc P(1,5) nx by (simp add: createCubes_def Let_def)
    then show ?thesis using w(1) fin qm pop top by (auto simp: models_inv_def)
  next
    case 3
    then have v: "1 \<le> v" "v \<le> m_n P" using h P(3) by auto
    let ?S1 = "S\<lparr>m_propagator := P, m_branchingCubeHeuristic := h\<rparr>"
    have "split_cube v ?S1 = Some (Inr S')" using cc P(1,5) nx 3 by (simp add: createCubes_def Let_def)
    note sp = split_cube_watched [OF this _ _ P(2) w(1) w(2) w(3) v P(4,3) ne]
    have "watched {} {} (m_propagator S')" "g_cubes S' = g_cubes S"
      "\<forall>c\<in>set (g_queue S'). model_cube f (lits c)"
      using sp S(2) 3(1) qm by auto
    then show ?thesis using fin by (auto simp: models_inv_def)
  qed
qed

lemma rounds_models:
  "rounds options clock i S j T \<Longrightarrow> gen_inv f S \<Longrightarrow> models_inv f cubes0 S \<Longrightarrow>
     \<forall>c\<in>set (clauses f). c \<noteq> [] \<Longrightarrow> models_inv f cubes0 T"
proof (induction rule: rounds.induct)
  case (round i S S' j T)
  have "g_queue S \<noteq> []" using round.hyps(1) by (simp add: goes_on_def)
  then have "models_inv f cubes0 S'"
    using models_inv_step round.prems round.hyps(2) by blast
  moreover have "gen_inv f S'" using goes_on_step [OF round.prems(1) round.hyps(1,2)] by metis
  ultimately show ?case using round.IH round.prems(3) by blast
qed

section \<open>Property\<close>



end
