(* ===== verification/D4_Nnf.thy ===== *)
theory D4_Nnf
  imports HS_Prelude
begin

text \<open>
  The meaning of the d-DNNF graphs \<open>3rdParty/d4/src/methods/nnf\<close> builds: trees over the five node types, their
  truth under an assignment, their variables, the structural conditions (decomposable, deterministic, smooth) and the
  value their evaluation computes; the evaluation is the weighted number of models (\<open>tcount_models\<close>). Literals are
  in the internal form of \<open>Lit::intern\<close>: twice the variable, plus one when negative.
\<close>

section \<open>Weighted sums over assignments\<close>

text \<open>Assignments of the variables \<open>V\<close> are the subsets of \<open>V\<close>; \<open>w v b\<close> is the weight of variable \<open>v\<close> with
  value \<open>b\<close>.\<close>

definition wsum :: "(int \<Rightarrow> bool \<Rightarrow> 'w::comm_semiring_1) \<Rightarrow> int set \<Rightarrow> ((int \<Rightarrow> bool) \<Rightarrow> bool) \<Rightarrow> 'w" where
  "wsum w V P = (\<Sum>S\<in>Pow V. if P (\<lambda>v. v \<in> S) then \<Prod>v\<in>V. w v (v \<in> S) else 0)"

definition only_on :: "int set \<Rightarrow> ((int \<Rightarrow> bool) \<Rightarrow> bool) \<Rightarrow> bool" where
  "only_on V P \<longleftrightarrow> (\<forall>m m'. (\<forall>v\<in>V. m v = m' v) \<longrightarrow> P m = P m')"

lemma only_onD: "only_on V P \<Longrightarrow> (\<And>v. v \<in> V \<Longrightarrow> m v = m' v) \<Longrightarrow> P m = P m'"
  by (simp add: only_on_def)

lemma wsum_empty [simp]: "wsum w {} P = (if P (\<lambda>v. False) then 1 else 0)"
  by (simp add: wsum_def)

lemma wsum_cong: "(\<And>m. P m = Q m) \<Longrightarrow> wsum w V P = wsum w V Q"
  by (simp add: wsum_def)

lemma wsum_false [simp]: "wsum w V (\<lambda>m. False) = 0"
  by (simp add: wsum_def)

lemma wsum_single: "wsum w {v} P = (if P (\<lambda>u. False) then w v False else 0) + (if P (\<lambda>u. u = v) then w v True else 0)"
proof -
  have "Pow {v} = {{}, {v}}" by auto
  then show ?thesis by (simp add: wsum_def)
qed

lemma wsum_prod:
  assumes "finite V" "finite W" "V \<inter> W = {}" "only_on V P" "only_on W Q"
  shows "wsum w (V \<union> W) (\<lambda>m. P m \<and> Q m) = wsum w V P * wsum w W Q"
proof -
  let ?t = "\<lambda>U R S. if R (\<lambda>v. v \<in> S) then \<Prod>v\<in>U. w v (v \<in> S) else 0"
  have bij: "bij_betw (\<lambda>(S, T). S \<union> T) (Pow V \<times> Pow W) (Pow (V \<union> W))"
    using assms(3) by (intro bij_betw_byWitness [where f' = "\<lambda>S. (S \<inter> V, S \<inter> W)"]) auto
  have "wsum w (V \<union> W) (\<lambda>m. P m \<and> Q m) =
    (\<Sum>(S, T)\<in>Pow V \<times> Pow W. ?t (V \<union> W) (\<lambda>m. P m \<and> Q m) (S \<union> T))"
    unfolding wsum_def by (subst sum.reindex_bij_betw [OF bij, symmetric]) (rule sum.cong, simp, simp split: prod.splits)
  also have "\<dots> = (\<Sum>(S, T)\<in>Pow V \<times> Pow W. ?t V P S * ?t W Q T)"
  proof (intro sum.cong refl, clarify)
    fix S T assume S: "S \<subseteq> V" and T: "T \<subseteq> W"
    have V: "v \<in> S \<union> T \<longleftrightarrow> v \<in> S" if "v \<in> V" for v using that assms(3) T by blast
    have W: "v \<in> S \<union> T \<longleftrightarrow> v \<in> T" if "v \<in> W" for v using that assms(3) S by blast
    have "P (\<lambda>v. v \<in> S \<union> T) = P (\<lambda>v. v \<in> S)" by (rule only_onD [OF assms(4) V])
    moreover have "Q (\<lambda>v. v \<in> S \<union> T) = Q (\<lambda>v. v \<in> T)" by (rule only_onD [OF assms(5) W])
    moreover have "(\<Prod>v\<in>V. w v (v \<in> S \<union> T)) = (\<Prod>v\<in>V. w v (v \<in> S))"
      by (intro prod.cong refl) (simp only: V)
    moreover have "(\<Prod>v\<in>W. w v (v \<in> S \<union> T)) = (\<Prod>v\<in>W. w v (v \<in> T))"
      by (intro prod.cong refl) (simp only: W)
    ultimately show "?t (V \<union> W) (\<lambda>m. P m \<and> Q m) (S \<union> T) = ?t V P S * ?t W Q T"
      using assms(1,2,3) by (simp add: prod.union_disjoint)
  qed
  also have "\<dots> = wsum w V P * wsum w W Q"
    unfolding wsum_def by (simp add: sum_product sum.cartesian_product)
  finally show ?thesis .
qed

lemma wsum_disjoint:
  assumes "finite V" "\<And>m. \<not> (P m \<and> Q m)"
  shows "wsum w V (\<lambda>m. P m \<or> Q m) = wsum w V P + wsum w V Q"
  unfolding wsum_def sum.distrib [symmetric] using assms(2) by (intro sum.cong) auto

lemma wsum_all:
  assumes "finite V"
  shows "wsum w V (\<lambda>m. True) = (\<Prod>v\<in>V. w v False + w v True)"
  using assms
proof (induction V)
  case (insert v V)
  have "wsum w ({v} \<union> V) (\<lambda>m. True \<and> True) = wsum w {v} (\<lambda>m. True) * wsum w V (\<lambda>m. True)"
    using insert by (intro wsum_prod) (auto simp: only_on_def)
  then show ?case using insert by (simp add: wsum_single)
qed simp

section \<open>Trees\<close>

datatype nnf =
    NTrue
  | NFalse
  | NUnary "int list" "int list" nnf
  | NOr "int list" "int list" nnf "int list" "int list" nnf
  | NAnd "nnf list"

definition ilit_holds :: "(int \<Rightarrow> bool) \<Rightarrow> int \<Rightarrow> bool" where
  "ilit_holds m l = (if odd l then \<not> m (l div 2) else m (l div 2))"

primrec nnf_true :: "(int \<Rightarrow> bool) \<Rightarrow> nnf \<Rightarrow> bool" where
  "nnf_true m NTrue = True"
| "nnf_true m NFalse = False"
| "nnf_true m (NUnary us fs t) = (list_all (ilit_holds m) us \<and> nnf_true m t)"
| "nnf_true m (NOr us fs t us' fs' t') =
     (list_all (ilit_holds m) us \<and> nnf_true m t \<or> list_all (ilit_holds m) us' \<and> nnf_true m t')"
| "nnf_true m (NAnd ts) = (\<forall>b\<in>set (map (nnf_true m) ts). b)"

definition lit_vars :: "int list \<Rightarrow> int set" where
  "lit_vars us = (\<lambda>l. l div 2) ` set us"

primrec nnf_vars :: "nnf \<Rightarrow> int set" where
  "nnf_vars NTrue = {}"
| "nnf_vars NFalse = {}"
| "nnf_vars (NUnary us fs t) = lit_vars us \<union> set fs \<union> nnf_vars t"
| "nnf_vars (NOr us fs t us' fs' t') =
     lit_vars us \<union> set fs \<union> nnf_vars t \<union> (lit_vars us' \<union> set fs' \<union> nnf_vars t')"
| "nnf_vars (NAnd ts) = \<Union> (set (map nnf_vars ts))"

text \<open>A branch is well-formed when no variable occurs twice in its units, its free variables and below.\<close>

definition branch_ok :: "int list \<Rightarrow> int list \<Rightarrow> int set \<Rightarrow> bool" where
  "branch_ok us fs V \<longleftrightarrow> distinct (map (\<lambda>l. l div 2) us) \<and> distinct fs \<and>
     lit_vars us \<inter> set fs = {} \<and> lit_vars us \<inter> V = {} \<and> set fs \<inter> V = {}"

fun disjoint_scopes :: "int set list \<Rightarrow> bool" where
  "disjoint_scopes [] = True"
| "disjoint_scopes (V # Vs) = (V \<inter> \<Union> (set Vs) = {} \<and> disjoint_scopes Vs)"

text \<open>The variables of a false branch do not matter for smoothness.\<close>

primrec nnf_ok :: "nnf \<Rightarrow> bool" where
  "nnf_ok NTrue = True"
| "nnf_ok NFalse = True"
| "nnf_ok (NUnary us fs t) = (branch_ok us fs (nnf_vars t) \<and> nnf_ok t)"
| "nnf_ok (NOr us fs t us' fs' t') =
     (branch_ok us fs (nnf_vars t) \<and> nnf_ok t \<and> branch_ok us' fs' (nnf_vars t') \<and> nnf_ok t' \<and>
      (\<forall>m. \<not> (list_all (ilit_holds m) us \<and> nnf_true m t \<and> list_all (ilit_holds m) us' \<and> nnf_true m t')) \<and>
      lit_vars us \<union> set fs \<union> nnf_vars t = lit_vars us' \<union> set fs' \<union> nnf_vars t')"
| "nnf_ok (NAnd ts) = (disjoint_scopes (map nnf_vars ts) \<and> (\<forall>b\<in>set (map nnf_ok ts). b))"

section \<open>The value of a tree\<close>

text \<open>\<open>lw\<close> gives the weight of a literal under the fixed values (0 for a falsified one), \<open>vw\<close> that of a free
  variable.\<close>

definition branch_value :: "(int \<Rightarrow> 'w::comm_semiring_1) \<Rightarrow> (int \<Rightarrow> 'w) \<Rightarrow> int list \<Rightarrow> int list \<Rightarrow> 'w \<Rightarrow> 'w" where
  "branch_value lw vw us fs c = c * (prod_list (map lw us) * prod_list (map vw fs))"

primrec tcount :: "(int \<Rightarrow> 'w::comm_semiring_1) \<Rightarrow> (int \<Rightarrow> 'w) \<Rightarrow> nnf \<Rightarrow> 'w" where
  "tcount lw vw NTrue = 1"
| "tcount lw vw NFalse = 0"
| "tcount lw vw (NUnary us fs t) = branch_value lw vw us fs (tcount lw vw t)"
| "tcount lw vw (NOr us fs t us' fs' t') =
     branch_value lw vw us fs (tcount lw vw t) + branch_value lw vw us' fs' (tcount lw vw t')"
| "tcount lw vw (NAnd ts) = prod_list (map (tcount lw vw) ts)"

definition var_weight :: "(int \<Rightarrow> 'w) \<Rightarrow> int \<Rightarrow> bool \<Rightarrow> 'w" where
  "var_weight lw v b = lw (if b then 2 * v else 2 * v + 1)"

lemma finite_nnf_vars: "finite (nnf_vars t)"
  by (induction t) (auto simp: lit_vars_def)

lemma finite_lit_vars [simp]: "finite (lit_vars us)"
  by (simp add: lit_vars_def)

lemma lit_vars_Cons [simp]: "lit_vars (l # us) = insert (l div 2) (lit_vars us)"
  by (simp add: lit_vars_def)

lemma only_on_lits: "only_on (lit_vars us) (\<lambda>m. list_all (ilit_holds m) us)"
  unfolding only_on_def by (auto simp: list_all_iff ilit_holds_def lit_vars_def)

lemma only_on_mono: "only_on V P \<Longrightarrow> V \<subseteq> W \<Longrightarrow> only_on W P"
  unfolding only_on_def by blast

lemma only_on_conj: "only_on V P \<Longrightarrow> only_on V Q \<Longrightarrow> only_on V (\<lambda>m. P m \<and> Q m)"
  unfolding only_on_def by blast

lemma only_on_disj: "only_on V P \<Longrightarrow> only_on V Q \<Longrightarrow> only_on V (\<lambda>m. P m \<or> Q m)"
  unfolding only_on_def by blast

lemma only_on_const: "only_on V (\<lambda>m. b)"
  by (simp add: only_on_def)

lemma only_on_nnf: "only_on (nnf_vars t) (\<lambda>m. nnf_true m t)"
proof (induction t)
  case (NUnary us fs t)
  have "only_on (nnf_vars (NUnary us fs t)) (\<lambda>m. list_all (ilit_holds m) us \<and> nnf_true m t)"
    by (intro only_on_conj only_on_mono [OF only_on_lits] only_on_mono [OF NUnary.IH]) auto
  then show ?case by simp
next
  case (NOr us fs t us' fs' t')
  have "only_on (nnf_vars (NOr us fs t us' fs' t'))
    (\<lambda>m. list_all (ilit_holds m) us \<and> nnf_true m t \<or> list_all (ilit_holds m) us' \<and> nnf_true m t')"
    by (intro only_on_disj only_on_conj only_on_mono [OF only_on_lits] only_on_mono [OF NOr.IH(1)]
        only_on_mono [OF NOr.IH(2)]) auto
  then show ?case by simp
next
  case (NAnd ts)
  have "only_on (nnf_vars (NAnd ts)) (\<lambda>m. nnf_true m t)" if "t \<in> set ts" for t
    using that by (intro only_on_mono [OF NAnd.IH [OF that]]) auto
  then have each: "nnf_true m t = nnf_true m' t"
    if "\<forall>v\<in>nnf_vars (NAnd ts). m v = m' v" "t \<in> set ts" for m m' t
    using that only_onD by blast
  have "nnf_true m (NAnd ts) = nnf_true m' (NAnd ts)" if "\<forall>v\<in>nnf_vars (NAnd ts). m v = m' v" for m m'
    using each [OF that] by auto
  then show ?case by (simp only: only_on_def) blast
qed (simp_all add: only_on_def)

lemma prod_list_distinct: "distinct xs \<Longrightarrow> prod_list (map f xs) = prod f (set xs)"
  by (induction xs) auto

lemma wsum_lits:
  assumes "distinct (map (\<lambda>l. l div 2) us)"
  shows "wsum (var_weight lw) (lit_vars us) (\<lambda>m. list_all (ilit_holds m) us) = prod_list (map lw us)"
  using assms
proof (induction us)
  case (Cons l us)
  have one: "wsum (var_weight lw) {l div 2} (\<lambda>m. ilit_holds m l) = lw l"
    by (cases "odd l") (auto simp: wsum_single ilit_holds_def var_weight_def odd_two_times_div_two_succ)
  have "wsum (var_weight lw) ({l div 2} \<union> lit_vars us) (\<lambda>m. ilit_holds m l \<and> list_all (ilit_holds m) us) =
    wsum (var_weight lw) {l div 2} (\<lambda>m. ilit_holds m l) *
    wsum (var_weight lw) (lit_vars us) (\<lambda>m. list_all (ilit_holds m) us)"
    using Cons.prems by (intro wsum_prod only_on_lits) (auto simp: lit_vars_def only_on_def ilit_holds_def)
  then show ?case using Cons one by simp
qed (simp add: lit_vars_def)

lemma wsum_branch:
  assumes "branch_ok us fs (nnf_vars t)" "\<forall>v\<in>set fs. vw v = lw (2 * v) + lw (2 * v + 1)"
    "wsum (var_weight lw) (nnf_vars t) (\<lambda>m. nnf_true m t) = c"
  shows "wsum (var_weight lw) (lit_vars us \<union> set fs \<union> nnf_vars t)
    (\<lambda>m. list_all (ilit_holds m) us \<and> nnf_true m t) = branch_value lw vw us fs c"
proof -
  have free: "wsum (var_weight lw) (set fs) (\<lambda>m. True) = prod_list (map vw fs)"
    using assms(1,2) by (simp add: wsum_all branch_ok_def prod_list_distinct var_weight_def add.commute)
  have units: "only_on (lit_vars us \<union> W) (\<lambda>m. list_all (ilit_holds m) us \<and> True)" for W
    using only_on_mono [OF only_on_lits, of us "lit_vars us \<union> W"] by simp
  have "wsum (var_weight lw) ((lit_vars us \<union> set fs) \<union> nnf_vars t)
      (\<lambda>m. (list_all (ilit_holds m) us \<and> True) \<and> nnf_true m t) =
    wsum (var_weight lw) (lit_vars us \<union> set fs) (\<lambda>m. list_all (ilit_holds m) us \<and> True) * c"
    unfolding assms(3) [symmetric] using assms(1) finite_nnf_vars
    by (intro wsum_prod only_on_nnf units) (auto simp: branch_ok_def)
  also have "wsum (var_weight lw) (lit_vars us \<union> set fs) (\<lambda>m. list_all (ilit_holds m) us \<and> True) =
    prod_list (map lw us) * prod_list (map vw fs)"
    using assms(1) by (subst wsum_prod) (simp_all add: only_on_lits only_on_const branch_ok_def wsum_lits free)
  finally show ?thesis by (simp add: branch_value_def mult.commute)
qed

lemma wsum_and:
  assumes "disjoint_scopes (map nnf_vars ts)"
    "\<And>t. t \<in> set ts \<Longrightarrow> wsum w (nnf_vars t) (\<lambda>m. nnf_true m t) = f t"
  shows "wsum w (\<Union> (set (map nnf_vars ts))) (\<lambda>m. \<forall>t\<in>set ts. nnf_true m t) = prod_list (map f ts)"
  using assms
proof (induction ts)
  case (Cons t ts)
  have "wsum w (nnf_vars t \<union> \<Union> (set (map nnf_vars ts))) (\<lambda>m. nnf_true m t \<and> nnf_true m (NAnd ts)) =
    wsum w (nnf_vars t) (\<lambda>m. nnf_true m t) * wsum w (\<Union> (set (map nnf_vars ts))) (\<lambda>m. nnf_true m (NAnd ts))"
    using Cons.prems(1) only_on_nnf [of "NAnd ts"] finite_nnf_vars [of "NAnd ts"]
    by (intro wsum_prod only_on_nnf finite_nnf_vars) auto
  then show ?case using Cons by simp
qed simp

lemma tcount_wsum:
  assumes "nnf_ok t" "\<forall>v\<in>nnf_vars t. vw v = lw (2 * v) + lw (2 * v + 1)"
  shows "tcount lw vw t = wsum (var_weight lw) (nnf_vars t) (\<lambda>m. nnf_true m t)"
  using assms
proof (induction t)
  case (NUnary us fs t)
  then show ?case using wsum_branch [of us fs t vw lw] by simp
next
  case (NOr us fs t us' fs' t')
  let ?V = "lit_vars us \<union> set fs \<union> nnf_vars t"
  have V: "lit_vars us' \<union> set fs' \<union> nnf_vars t' = ?V" using NOr.prems by simp
  have vw: "\<forall>v\<in>set fs. vw v = lw (2 * v) + lw (2 * v + 1)" "\<forall>v\<in>set fs'. vw v = lw (2 * v) + lw (2 * v + 1)"
    "\<forall>v\<in>nnf_vars t. vw v = lw (2 * v) + lw (2 * v + 1)" "\<forall>v\<in>nnf_vars t'. vw v = lw (2 * v) + lw (2 * v + 1)"
    using NOr.prems(2) by simp_all
  have l: "wsum (var_weight lw) ?V (\<lambda>m. list_all (ilit_holds m) us \<and> nnf_true m t) =
      branch_value lw vw us fs (tcount lw vw t)"
    using NOr.prems(1) NOr.IH(1) vw by (intro wsum_branch) simp_all
  have "wsum (var_weight lw) (lit_vars us' \<union> set fs' \<union> nnf_vars t') (\<lambda>m. list_all (ilit_holds m) us' \<and> nnf_true m t') =
      branch_value lw vw us' fs' (tcount lw vw t')"
    using NOr.prems(1) NOr.IH(2) vw by (intro wsum_branch) simp_all
  then have r: "wsum (var_weight lw) ?V (\<lambda>m. list_all (ilit_holds m) us' \<and> nnf_true m t') =
      branch_value lw vw us' fs' (tcount lw vw t')" unfolding V .
  have "wsum (var_weight lw) ?V (\<lambda>m. list_all (ilit_holds m) us \<and> nnf_true m t \<or>
      list_all (ilit_holds m) us' \<and> nnf_true m t') =
    wsum (var_weight lw) ?V (\<lambda>m. list_all (ilit_holds m) us \<and> nnf_true m t) +
    wsum (var_weight lw) ?V (\<lambda>m. list_all (ilit_holds m) us' \<and> nnf_true m t')"
    using NOr.prems finite_nnf_vars by (intro wsum_disjoint) auto
  also have "\<dots> = tcount lw vw (NOr us fs t us' fs' t')" by (simp add: l r)
  finally show ?case using V by simp
next
  case (NAnd ts)
  have "wsum (var_weight lw) (nnf_vars t) (\<lambda>m. nnf_true m t) = tcount lw vw t" if "t \<in> set ts" for t
    using NAnd.IH [OF that] NAnd.prems that by simp
  then show ?case using wsum_and [of ts "var_weight lw" "tcount lw vw"] NAnd.prems by simp
qed simp_all

end
