(* ===== verification/Problem_Types.thy ===== *)
theory Problem_Types
  imports HS_Prelude Decimal "HOL-Library.Word" "HOL-Library.Signed_Division"
begin

unbundle bit_operations_syntax

text \<open>
  \<open>src/formula/ProblemTypes.hpp\<close> of the discount library: a literal is a 32-bit \<open>int\<close>, the variable
  shifted left by one with the sign in the lowest bit. The left shift and the addition of
  \<open>makeLit\<close> overflow for variables from \<open>2 ^ 30\<close> on (undefined in C++, wrap-around here); the lemmas are
  about variables below that bound.
\<close>

section \<open>Literals\<close>

datatype ILit = ILit (m_x: "32 word")

definition ilit_sign :: "ILit \<Rightarrow> bool" where
  "ilit_sign l \<longleftrightarrow> m_x l AND 1 \<noteq> 0"

definition ilit_var :: "ILit \<Rightarrow> int" where
  "ilit_var l = sint (signed_drop_bit 1 (m_x l))"

definition ilit_neg :: "ILit \<Rightarrow> ILit" where
  "ilit_neg l = ILit (m_x l XOR 1)"

definition ilit_intern :: "ILit \<Rightarrow> int" where
  "ilit_intern l = uint (m_x l)"

definition ilit_human :: "ILit \<Rightarrow> int" where
  "ilit_human l = (if m_x l AND 1 \<noteq> 0 then - ilit_var l else ilit_var l)"

definition ilit_less :: "ILit \<Rightarrow> ILit \<Rightarrow> bool" where
  "ilit_less a b \<longleftrightarrow> sint (m_x a) < sint (m_x b)"

definition ilit_make :: "int \<Rightarrow> bool \<Rightarrow> ILit" where
  "ilit_make v s = ILit (push_bit 1 (word_of_int v) + (if s then 1 else 0))"

definition ilit_make_false :: "int \<Rightarrow> ILit" where
  "ilit_make_false v = ILit (push_bit 1 (word_of_int v) + 1)"

definition ilit_make_true :: "int \<Rightarrow> ILit" where
  "ilit_make_true v = ILit (push_bit 1 (word_of_int v))"

definition lit_Undef :: ILit where
  "lit_Undef = ILit (-2)"

definition lit_Error :: ILit where
  "lit_Error = ILit (-1)"

text \<open>\<open>operator<<\<close> and \<open>showListLit\<close>.\<close>

definition ilit_text :: "ILit \<Rightarrow> string" where
  "ilit_text l = show_int (if ilit_sign l then - ilit_var l else ilit_var l)"

definition showListLit :: "ILit list \<Rightarrow> string" where
  "showListLit ls = concat (map (\<lambda>l. ilit_text l @ '' '') ls)"

section \<open>The encoding\<close>

lemma make_true_false: "ilit_make v False = ilit_make_true v" "ilit_make v True = ilit_make_false v"
  by (simp_all add: ilit_make_def ilit_make_true_def ilit_make_false_def)

lemma uint_make:
  assumes "0 \<le> v" "v < 2 ^ 30"
  shows "uint (m_x (ilit_make v s)) = 2 * v + of_bool s"
proof -
  define k where "k = 2 * v + of_bool s"
  have m: "m_x (ilit_make v s) = word_of_int k"
    by (simp add: ilit_make_def push_bit_eq_mult k_def)
  have "0 \<le> k" "k < 2 ^ 32" using assms by (simp_all add: k_def)
  then have "uint (word_of_int k :: 32 word) = k" by (simp add: uint_word_of_int)
  then show ?thesis by (simp only: m k_def)
qed

lemma sint_make:
  assumes "0 \<le> v" "v < 2 ^ 30"
  shows "sint (m_x (ilit_make v s)) = 2 * v + of_bool s"
proof -
  define k where "k = 2 * v + of_bool s"
  have "uint (m_x (ilit_make v s)) = k" using uint_make [OF assms] by (simp only: k_def)
  moreover have "- (2 ^ 31) \<le> k" "k < 2 ^ 31" using assms by (simp_all add: k_def)
  then have "signed_take_bit 31 k = k" by (rule signed_take_bit_int_eq_self)
  ultimately show ?thesis by (simp add: sint_uint k_def [symmetric] del: of_bool_eq_iff)
qed

lemma and_one_word: "(w AND 1 \<noteq> 0) = odd (uint (w :: 32 word))"
proof -
  have "(w AND 1 \<noteq> 0) = bit w 0" by (simp add: bit_0 and_one_eq odd_iff_mod_2_eq_one)
  also have "\<dots> = bit (uint w) 0" by (simp add: bit_uint_iff)
  finally show ?thesis by (simp add: bit_0)
qed

lemma ilit_sign_make [simp]: "0 \<le> v \<Longrightarrow> v < 2 ^ 30 \<Longrightarrow> ilit_sign (ilit_make v s) = s"
  by (simp add: ilit_sign_def and_one_word uint_make)

lemma ilit_var_make [simp]: "0 \<le> v \<Longrightarrow> v < 2 ^ 30 \<Longrightarrow> ilit_var (ilit_make v s) = v"
  by (simp add: ilit_var_def sint_signed_drop_bit_eq sint_make drop_bit_eq_div)

lemma ilit_human_make [simp]: "0 \<le> v \<Longrightarrow> v < 2 ^ 30 \<Longrightarrow> ilit_human (ilit_make v s) = (if s then - v else v)"
  by (simp add: ilit_human_def ilit_sign_def [symmetric])

lemma ilit_intern_make [simp]: "0 \<le> v \<Longrightarrow> v < 2 ^ 30 \<Longrightarrow> ilit_intern (ilit_make v s) = 2 * v + of_bool s"
  by (simp add: ilit_intern_def uint_make)

lemma ilit_neg_make [simp]:
  assumes "0 \<le> v" "v < 2 ^ 30"
  shows "ilit_neg (ilit_make v s) = ilit_make v (\<not> s)"
proof -
  have "uint (m_x (ilit_make v s) XOR 1) = uint (m_x (ilit_make v s)) XOR 1"
    by (simp add: unsigned_xor_eq)
  also have "\<dots> = 2 * v + of_bool (\<not> s)" using uint_make [OF assms, of s] by (simp add: xor_one_eq)
  also have "\<dots> = uint (m_x (ilit_make v (\<not> s)))" using uint_make [OF assms, of "\<not> s"] by simp
  finally have "m_x (ilit_make v s) XOR 1 = m_x (ilit_make v (\<not> s))" by (rule word_uint_eqI)
  then show ?thesis by (simp add: ilit_neg_def)
qed

text \<open>Literals of a formula with \<open>n\<close> variables, and their truth.\<close>

definition wf_ilit :: "int \<Rightarrow> ILit \<Rightarrow> bool" where
  "wf_ilit n l \<longleftrightarrow> n < 2 ^ 30 \<and> 1 \<le> ilit_var l \<and> ilit_var l \<le> n"

definition ilit_true :: "(int \<Rightarrow> bool) \<Rightarrow> ILit \<Rightarrow> bool" where
  "ilit_true m l = (if ilit_sign l then \<not> m (ilit_var l) else m (ilit_var l))"

lemma sint_parts: "sint (m_x l) = 2 * ilit_var l + of_bool (ilit_sign l)"
proof -
  have "odd (sint (m_x l)) = odd (uint (m_x l))"
    by (simp add: sint_uint even_signed_take_bit_iff)
  then have "sint (m_x l) mod 2 = of_bool (ilit_sign l)"
    by (simp add: ilit_sign_def and_one_word mod_2_eq_odd)
  moreover have "ilit_var l = sint (m_x l) div 2"
    by (simp add: ilit_var_def sint_signed_drop_bit_eq drop_bit_eq_div)
  ultimately show ?thesis using div_mult_mod_eq [of "sint (m_x l)" 2] by simp
qed

lemma ilit_eqI: "ilit_var a = ilit_var b \<Longrightarrow> ilit_sign a = ilit_sign b \<Longrightarrow> a = b"
proof -
  assume "ilit_var a = ilit_var b" "ilit_sign a = ilit_sign b"
  then have "sint (m_x a) = sint (m_x b)" by (simp only: sint_parts)
  then have "m_x a = m_x b" by (rule signed_word_eqI)
  then show ?thesis by (cases a; cases b) simp
qed

lemma wf_ilit_make: "wf_ilit n l \<Longrightarrow> l = ilit_make (ilit_var l) (ilit_sign l)"
  by (rule ilit_eqI) (simp_all add: wf_ilit_def)

text \<open>The type \<open>lbool\<close> of values, and vectors indexed by the code of a literal.\<close>

definition l_True :: int where "l_True = 0"
definition l_False :: int where "l_False = 1"
definition l_Undef :: int where "l_Undef = 2"

lemma wf_intern:
  assumes "wf_ilit n l"
  shows "ilit_intern l = 2 * ilit_var l + of_bool (ilit_sign l)" "2 \<le> ilit_intern l" "ilit_intern l < 2 * (n + 1)"
proof -
  have v: "1 \<le> ilit_var l" "ilit_var l < 2 ^ 30" "ilit_var l \<le> n" using assms by (simp_all add: wf_ilit_def)
  then have "l = ilit_make (ilit_var l) (ilit_sign l)" by (intro ilit_eqI) simp_all
  then show e: "ilit_intern l = 2 * ilit_var l + of_bool (ilit_sign l)"
    using ilit_intern_make [of "ilit_var l" "ilit_sign l"] v by simp
  show "2 \<le> ilit_intern l" "ilit_intern l < 2 * (n + 1)" using v unfolding e by auto
qed

lemma intern_inj: "ilit_intern a = ilit_intern b \<Longrightarrow> a = b"
  by (cases a; cases b) (auto simp: ilit_intern_def intro: word_uint_eqI)

lemma wf_neg: "wf_ilit n l \<Longrightarrow> wf_ilit n (ilit_neg l)"
proof -
  assume wf: "wf_ilit n l"
  then have v: "1 \<le> ilit_var l" "ilit_var l < 2 ^ 30" by (simp_all add: wf_ilit_def)
  then have "l = ilit_make (ilit_var l) (ilit_sign l)" by (intro ilit_eqI) simp_all
  then have "ilit_neg l = ilit_make (ilit_var l) (\<not> ilit_sign l)"
    using ilit_neg_make [of "ilit_var l" "ilit_sign l"] v by simp
  then show ?thesis using wf v by (simp add: wf_ilit_def)
qed

lemma vin_lit: "wf_ilit n l \<Longrightarrow> length xs = nat (2 * (n + 1)) \<Longrightarrow> vin xs (ilit_intern l)"
  using wf_intern [of n l] by (auto simp: vin_def)

lemma vget_vset_lit:
  "wf_ilit n l \<Longrightarrow> wf_ilit n l' \<Longrightarrow> length xs = nat (2 * (n + 1)) \<Longrightarrow>
    vget (vset xs (ilit_intern l) y) (ilit_intern l') = (if l' = l then y else vget xs (ilit_intern l'))"
  using wf_intern(2) [of n l] wf_intern(2) [of n l'] vin_lit [of n l xs] intern_inj [of l l']
  by (auto simp: vget_vset_same intro!: vget_vset_other)

lemma neg_parts:
  assumes "wf_ilit n l"
  shows "ilit_var (ilit_neg l) = ilit_var l" "ilit_sign (ilit_neg l) = (\<not> ilit_sign l)"
proof -
  have v: "0 \<le> ilit_var l" "ilit_var l < 2 ^ 30" using assms by (simp_all add: wf_ilit_def)
  have "ilit_neg l = ilit_make (ilit_var l) (\<not> ilit_sign l)"
    using wf_ilit_make [OF assms] ilit_neg_make [OF v, of "ilit_sign l"] by simp
  then show "ilit_var (ilit_neg l) = ilit_var l" "ilit_sign (ilit_neg l) = (\<not> ilit_sign l)" using v by simp_all
qed

text \<open>\<open>makeLit(l.var(), l.sign())\<close>, between the three literal types.\<close>

definition convert_lit :: "ILit \<Rightarrow> ILit" where
  "convert_lit l = ilit_make (ilit_var l) (ilit_sign l)"

lemma convert_wf: "wf_ilit n l \<Longrightarrow> convert_lit l = l"
  using wf_ilit_make [of n l] by (simp add: convert_lit_def)

lemma map_convert: "\<forall>l\<in>set ls. wf_ilit n l \<Longrightarrow> map convert_lit ls = ls"
  by (rule map_idI) (auto intro: convert_wf)

section \<open>Instances of the library's classes\<close>

text \<open>\<open>operator<\<close> is a total order; a literal and its complement are neighbours.\<close>

instantiation ILit :: linorder
begin

definition less_eq_ILit :: "ILit \<Rightarrow> ILit \<Rightarrow> bool" where
  "less_eq_ILit a b \<longleftrightarrow> sint (m_x a) \<le> sint (m_x b)"

definition less_ILit :: "ILit \<Rightarrow> ILit \<Rightarrow> bool" where
  "less_ILit a b \<longleftrightarrow> ilit_less a b"

instance
proof
  fix x y z :: ILit
  show "(x < y) = (x \<le> y \<and> \<not> y \<le> x)" by (auto simp: less_eq_ILit_def less_ILit_def ilit_less_def)
  show "x \<le> x" by (simp add: less_eq_ILit_def)
  show "x \<le> y \<Longrightarrow> y \<le> z \<Longrightarrow> x \<le> z" by (simp add: less_eq_ILit_def)
  show "x = y" if "x \<le> y" "y \<le> x"
  proof -
    have "sint (m_x x) = sint (m_x y)" using that by (simp add: less_eq_ILit_def)
    then have "m_x x = m_x y" by (rule signed_word_eqI)
    then show ?thesis by (rule ILit.expand)
  qed
  show "x \<le> y \<or> y \<le> x" by (auto simp: less_eq_ILit_def)
qed

end

lemma less_eq_ILit_parts:
  "a \<le> b \<longleftrightarrow> 2 * ilit_var a + of_bool (ilit_sign a) \<le> 2 * ilit_var b + (of_bool (ilit_sign b) :: int)"
  by (simp add: less_eq_ILit_def sint_parts)

section \<open>Rewriting clauses to another literal type\<close>

definition rewrite_units :: "ILit list list \<Rightarrow> ILit list \<Rightarrow> (int \<Rightarrow> bool \<Rightarrow> 't) \<Rightarrow> 't list list" where
  "rewrite_units cls units createLit =
     map (\<lambda>l. [createLit (ilit_var l) (ilit_sign l)]) units @
     map (map (\<lambda>l. createLit (ilit_var l) (ilit_sign l))) (filter (\<lambda>cl. cl \<noteq> []) cls)"

definition rewrite_clauses :: "'a list list \<Rightarrow> 'b list list \<Rightarrow> ('a \<Rightarrow> 'b) \<Rightarrow> 'b list list" where
  "rewrite_clauses cls res createLit = res @ map (map createLit) (filter (\<lambda>cl. cl \<noteq> []) cls)"

lemma clause_true_map: "(\<And>l. tru (f l) = tru' l) \<Longrightarrow> clause_true tru (map f cl) = clause_true tru' cl"
  by (induction cl) (simp_all add: truth_simps)

lemma cnf_true_map:
  "(\<And>l. tru (f l) = tru' l) \<Longrightarrow> cnf_true tru (map (map f) cls) = cnf_true tru' cls"
  by (induction cls) (simp_all add: truth_simps clause_true_map [unfolded truth_simps])

section \<open>Properties\<close>

text \<open>Below \<open>2 ^ 30\<close> the encoding loses nothing: variable, sign, complement and printed form of an
  encoded literal are those it was made from.\<close>

theorem literal_encoding:
  assumes "0 \<le> v" "v < 2 ^ 30"
  shows "ilit_var (ilit_make v s) = v \<and> ilit_sign (ilit_make v s) = s \<and>
    ilit_neg (ilit_make v s) = ilit_make v (\<not> s) \<and>
    ilit_intern (ilit_make v s) = 2 * v + of_bool s \<and>
    ilit_text (ilit_make v s) = show_int (if s then - v else v)"
  using assms by (simp add: ilit_text_def)

lemma literal_encoding_witness: "ilit_var (ilit_make 1073741823 True) = 1073741823"
  using literal_encoding [of 1073741823 True] by simp

text \<open>From \<open>2 ^ 30\<close> on the encoding wraps: the literal of this variable has another one.\<close>

theorem literal_encoding_overflow: "ilit_var (ilit_make (2 ^ 30) s) = - (2 ^ 30)"
proof -
  have "m_x (ilit_make (2 ^ 30) s) = (if s then 2147483649 else 2147483648)"
    by (simp add: ilit_make_def push_bit_eq_mult)
  then show ?thesis by (simp add: ilit_var_def)
qed



end
