(* ===== verification/D4_Nodes.thy ===== *)
theory D4_Nodes
  imports D4_Nnf Problem_Types
begin

text \<open>
  \<open>3rdParty/d4/src/methods/nnf\<close>: the nodes of the d-DNNF graph and \<open>NodeManager\<close>. A \<open>Node<T>*\<close> is an address in
  the list of the nodes made so far; the function tables indexed by \<open>header.typeNode\<close> are the case distinctions
  over \<open>node_body\<close>. The recursive visits carry fuel, since nothing in the code bounds them; the lemmas show that
  address plus one is enough, because a node is made after its sons. \<open>T\<close> is a commutative semiring; \<open>header.stamp\<close>
  keeps 28 bits.
\<close>

section \<open>Nodes\<close>

datatype ValueVar = IsTrue | IsFalse | IsNotAssigned

record branch =
  b_d :: nat
  b_nbUnits :: int
  b_nbFree :: int

datatype node_body =
    TrueNode
  | FalseNode
  | UnaryNode branch "int list"
  | IteNode branch branch "int list"
  | DecAndNode int "nat list"

record 'w nnf_node =
  n_stamp :: int
  n_nbModels :: 'w
  n_body :: node_body

record 'u DataBranch =
  db_d :: 'u
  db_units :: "ILit list"
  db_frees :: "int list"

definition sumFreeUnit :: "'u DataBranch \<Rightarrow> int" where
  "sumFreeUnit e = int (length (db_units e)) + int (length (db_frees e))"

text \<open>Constructors: the counters and the data are stored with \<open>bits\<close> bits (the type \<open>U\<close>).\<close>

definition store_branch :: "nat \<Rightarrow> nat DataBranch \<Rightarrow> branch" where
  "store_branch bits e = \<lparr>b_d = db_d e, b_nbUnits = int (length (db_units e)) mod 2 ^ bits,
     b_nbFree = int (length (db_frees e)) mod 2 ^ bits\<rparr>"

definition store_data :: "nat \<Rightarrow> nat DataBranch \<Rightarrow> int list" where
  "store_data bits e = map (\<lambda>l. ilit_intern l mod 2 ^ bits) (db_units e) @ map (\<lambda>v. v mod 2 ^ bits) (db_frees e)"

definition new_node :: "node_body \<Rightarrow> 'w::zero nnf_node" where
  "new_node body = \<lparr>n_stamp = 0, n_nbModels = 0, n_body = body\<rparr>"

definition mkUnaryNode :: "nat \<Rightarrow> nat DataBranch \<Rightarrow> node_body" where
  "mkUnaryNode bits e = UnaryNode (store_branch bits e) (store_data bits e)"

definition mkIteNode :: "nat \<Rightarrow> nat DataBranch \<Rightarrow> nat DataBranch \<Rightarrow> node_body" where
  "mkIteNode bits l r = IteNode (store_branch bits l) (store_branch bits r) (store_data bits l @ store_data bits r)"

definition mkDecAndNode :: "nat \<Rightarrow> nat list \<Rightarrow> node_body" where
  "mkDecAndNode bits sons = DecAndNode (int (length sons) mod 2 ^ bits) sons"

section \<open>Parts of a branch\<close>

definition branch_units :: "branch \<Rightarrow> int list \<Rightarrow> int list" where
  "branch_units b data = take (nat (b_nbUnits b)) data"

definition branch_frees :: "branch \<Rightarrow> int list \<Rightarrow> int list" where
  "branch_frees b data = take (nat (b_nbFree b)) (drop (nat (b_nbUnits b)) data)"

definition right_data :: "branch \<Rightarrow> int list \<Rightarrow> int list" where
  "right_data l data = drop (nat (b_nbUnits l + b_nbFree l)) data"

definition and_sons :: "int \<Rightarrow> nat list \<Rightarrow> nat list" where
  "and_sons n sons = take (nat n) sons"

section \<open>Counting\<close>

definition isUnsatLit :: "ValueVar \<Rightarrow> int \<Rightarrow> bool" where
  "isUnsatLit val l =
     (if val = IsNotAssigned then False else val = IsTrue \<and> odd l \<or> val = IsFalse \<and> \<not> odd l)"

fun units_weight :: "'w::comm_semiring_1 list \<Rightarrow> ValueVar list \<Rightarrow> int list \<Rightarrow> 'w \<Rightarrow> 'w option" where
  "units_weight wl fixed [] cw = Some cw"
| "units_weight wl fixed (l # ls) cw =
     (if isUnsatLit (vget fixed (l div 2)) l then None else units_weight wl fixed ls (cw * vget wl l))"

definition free_weight :: "'w list \<Rightarrow> 'w list \<Rightarrow> ValueVar list \<Rightarrow> int \<Rightarrow> 'w" where
  "free_weight wl wv fixed v = (case vget fixed v of
     IsFalse \<Rightarrow> vget wl (2 * v + 1) | IsTrue \<Rightarrow> vget wl (2 * v) | IsNotAssigned \<Rightarrow> vget wv v)"

definition branch_models ::
  "(nat \<Rightarrow> 'h \<Rightarrow> ('w \<times> 'h) option) \<Rightarrow> 'w::comm_semiring_1 list \<Rightarrow> 'w list \<Rightarrow> ValueVar list \<Rightarrow>
   branch \<Rightarrow> int list \<Rightarrow> 'h \<Rightarrow> ('w \<times> 'h) option" where
  "branch_models visit wl wv fixed b data H = (case units_weight wl fixed (branch_units b data) 1 of
     None \<Rightarrow> Some (0, H)
   | Some cw \<Rightarrow> (case visit (b_d b) H of
       None \<Rightarrow> None
     | Some (c, H') \<Rightarrow> Some (c * fold (\<lambda>v x. x * free_weight wl wv fixed v) (branch_frees b data) cw, H')))"

definition set_models :: "nat \<Rightarrow> 'w \<Rightarrow> int \<Rightarrow> 'w nnf_node list \<Rightarrow> 'w nnf_node list" where
  "set_models a c gs H = H[a := (H ! a)\<lparr>n_nbModels := c, n_stamp := gs mod 2 ^ 28\<rparr>]"

fun and_models :: "(nat \<Rightarrow> 'h \<Rightarrow> ('w \<times> 'h) option) \<Rightarrow> nat list \<Rightarrow> 'w::comm_semiring_1 \<Rightarrow> 'h \<Rightarrow> ('w \<times> 'h) option" where
  "and_models visit [] acc H = Some (acc, H)"
| "and_models visit (s # ss) acc H = (case visit s H of
     None \<Rightarrow> None
   | Some (c, H') \<Rightarrow> if acc * c = 0 then Some (acc * c, H') else and_models visit ss (acc * c) H')"

text \<open>The \<open>computeNbModels\<close> of the five classes; \<open>visit\<close> is the call through the function table.\<close>

definition true_computeNbModels :: "'h \<Rightarrow> ('w::comm_semiring_1 \<times> 'h) option" where
  [simp]: "true_computeNbModels H = Some (1, H)"

definition false_computeNbModels :: "'h \<Rightarrow> ('w::comm_semiring_1 \<times> 'h) option" where
  [simp]: "false_computeNbModels H = Some (0, H)"

definition unary_computeNbModels ::
  "(nat \<Rightarrow> 'w nnf_node list \<Rightarrow> ('w \<times> 'w nnf_node list) option) \<Rightarrow> 'w::comm_semiring_1 list \<Rightarrow> 'w list \<Rightarrow>
   ValueVar list \<Rightarrow> int \<Rightarrow> branch \<Rightarrow> int list \<Rightarrow> nat \<Rightarrow> 'w nnf_node list \<Rightarrow> ('w \<times> 'w nnf_node list) option" where
  [simp]: "unary_computeNbModels visit wl wv fixed gs b data a H =
     (if n_stamp (H ! a) = gs then Some (n_nbModels (H ! a), H)
      else (case branch_models visit wl wv fixed b data H of
         None \<Rightarrow> None
       | Some (c, H1) \<Rightarrow> Some (c, set_models a c gs H1)))"

definition ite_computeNbModels ::
  "(nat \<Rightarrow> 'w nnf_node list \<Rightarrow> ('w \<times> 'w nnf_node list) option) \<Rightarrow> 'w::comm_semiring_1 list \<Rightarrow> 'w list \<Rightarrow>
   ValueVar list \<Rightarrow> int \<Rightarrow> branch \<Rightarrow> branch \<Rightarrow> int list \<Rightarrow> nat \<Rightarrow> 'w nnf_node list \<Rightarrow>
   ('w \<times> 'w nnf_node list) option" where
  [simp]: "ite_computeNbModels visit wl wv fixed gs l r data a H =
     (if n_stamp (H ! a) = gs then Some (n_nbModels (H ! a), H)
      else (case branch_models visit wl wv fixed l data H of
         None \<Rightarrow> None
       | Some (c, H1) \<Rightarrow>
           (case branch_models visit wl wv fixed r (right_data l data) H1 of
             None \<Rightarrow> None
           | Some (c', H2) \<Rightarrow> Some (c + c', set_models a (c + c') gs H2))))"

definition and_computeNbModels ::
  "(nat \<Rightarrow> 'w nnf_node list \<Rightarrow> ('w \<times> 'w nnf_node list) option) \<Rightarrow> int \<Rightarrow> int \<Rightarrow> nat list \<Rightarrow> nat \<Rightarrow>
   'w::comm_semiring_1 nnf_node list \<Rightarrow> ('w \<times> 'w nnf_node list) option" where
  [simp]: "and_computeNbModels visit gs n sons a H =
     (if n_stamp (H ! a) = gs then Some (n_nbModels (H ! a), H)
      else (case and_models visit (and_sons n sons) 1 H of
         None \<Rightarrow> None
       | Some (c, H1) \<Rightarrow> Some (c, set_models a c gs H1)))"

fun count_node :: "nat \<Rightarrow> 'w::comm_semiring_1 list \<Rightarrow> 'w list \<Rightarrow> ValueVar list \<Rightarrow> int \<Rightarrow> nat \<Rightarrow>
  'w nnf_node list \<Rightarrow> ('w \<times> 'w nnf_node list) option" where
  "count_node 0 wl wv fixed gs a H = None"
| "count_node (Suc k) wl wv fixed gs a H = (case n_body (H ! a) of
     TrueNode \<Rightarrow> true_computeNbModels H
   | FalseNode \<Rightarrow> false_computeNbModels H
   | UnaryNode b data \<Rightarrow> unary_computeNbModels (count_node k wl wv fixed gs) wl wv fixed gs b data a H
   | IteNode l r data \<Rightarrow> ite_computeNbModels (count_node k wl wv fixed gs) wl wv fixed gs l r data a H
   | DecAndNode n sons \<Rightarrow> and_computeNbModels (count_node k wl wv fixed gs) gs n sons a H)"

section \<open>Satisfiability\<close>

definition set_stamp :: "nat \<Rightarrow> int \<Rightarrow> 'w nnf_node list \<Rightarrow> 'w nnf_node list" where
  "set_stamp a gs H = H[a := (H ! a)\<lparr>n_stamp := gs mod 2 ^ 28\<rparr>]"

definition put_models :: "nat \<Rightarrow> 'w \<Rightarrow> 'w nnf_node list \<Rightarrow> 'w nnf_node list" where
  "put_models a c H = H[a := (H ! a)\<lparr>n_nbModels := c\<rparr>]"

definition branch_sat ::
  "(nat \<Rightarrow> 'h \<Rightarrow> (bool \<times> 'h) option) \<Rightarrow> ValueVar list \<Rightarrow> branch \<Rightarrow> int list \<Rightarrow> 'h \<Rightarrow> (bool \<times> 'h) option" where
  "branch_sat visit fixed b data H =
     (if list_ex (\<lambda>l. isUnsatLit (vget fixed (l div 2)) l) (branch_units b data) then Some (False, H)
      else visit (b_d b) H)"

fun and_sat :: "(nat \<Rightarrow> 'w::zero_neq_one nnf_node list \<Rightarrow> (bool \<times> 'w nnf_node list) option) \<Rightarrow> nat \<Rightarrow> nat list \<Rightarrow>
  'w nnf_node list \<Rightarrow> (bool \<times> 'w nnf_node list) option" where
  "and_sat visit a [] H = Some (True, H)"
| "and_sat visit a (s # ss) H = (case visit s H of
     None \<Rightarrow> None
   | Some (c, H') \<Rightarrow>
       let H1 = put_models a (of_bool c) H' in if n_nbModels (H1 ! a) = 0 then Some (False, H1) else and_sat visit a ss H1)"

definition true_isSAT :: "'h \<Rightarrow> (bool \<times> 'h) option" where
  [simp]: "true_isSAT H = Some (True, H)"

definition false_isSAT :: "'h \<Rightarrow> (bool \<times> 'h) option" where
  [simp]: "false_isSAT H = Some (False, H)"

definition unary_isSAT ::
  "(nat \<Rightarrow> 'w nnf_node list \<Rightarrow> (bool \<times> 'w nnf_node list) option) \<Rightarrow> ValueVar list \<Rightarrow> int \<Rightarrow> branch \<Rightarrow> int list \<Rightarrow>
   nat \<Rightarrow> 'w::zero_neq_one nnf_node list \<Rightarrow> (bool \<times> 'w nnf_node list) option" where
  [simp]: "unary_isSAT visit fixed gs b data a H =
     (if n_stamp (H ! a) = gs then Some (n_nbModels (H ! a) = 1, H)
      else (case branch_sat visit fixed b data H of
         None \<Rightarrow> None
       | Some (c, H1) \<Rightarrow> Some (c, set_models a (of_bool c) gs H1)))"

definition ite_isSAT ::
  "(nat \<Rightarrow> 'w nnf_node list \<Rightarrow> (bool \<times> 'w nnf_node list) option) \<Rightarrow> ValueVar list \<Rightarrow> int \<Rightarrow> branch \<Rightarrow> branch \<Rightarrow>
   int list \<Rightarrow> nat \<Rightarrow> 'w::zero_neq_one nnf_node list \<Rightarrow> (bool \<times> 'w nnf_node list) option" where
  [simp]: "ite_isSAT visit fixed gs l r data a H =
     (if n_stamp (H ! a) = gs then Some (n_nbModels (H ! a) = 1, H)
      else (case branch_sat visit fixed l data (set_stamp a gs H) of
         None \<Rightarrow> None
       | Some (c, H1) \<Rightarrow>
           if c then Some (True, put_models a 1 H1)
           else (case branch_sat visit fixed r (right_data l data) (put_models a 0 H1) of
             None \<Rightarrow> None
           | Some (c', H2) \<Rightarrow> Some (c', put_models a (of_bool c') H2))))"

definition and_isSAT ::
  "(nat \<Rightarrow> 'w nnf_node list \<Rightarrow> (bool \<times> 'w nnf_node list) option) \<Rightarrow> int \<Rightarrow> int \<Rightarrow> nat list \<Rightarrow> nat \<Rightarrow>
   'w::zero_neq_one nnf_node list \<Rightarrow> (bool \<times> 'w nnf_node list) option" where
  [simp]: "and_isSAT visit gs n sons a H =
     (if n_stamp (H ! a) = gs then Some (n_nbModels (H ! a) = 1, H)
      else and_sat visit a (and_sons n sons) (set_stamp a gs H))"

fun sat_node :: "nat \<Rightarrow> ValueVar list \<Rightarrow> int \<Rightarrow> nat \<Rightarrow> 'w::zero_neq_one nnf_node list \<Rightarrow>
  (bool \<times> 'w nnf_node list) option" where
  "sat_node 0 fixed gs a H = None"
| "sat_node (Suc k) fixed gs a H = (case n_body (H ! a) of
     TrueNode \<Rightarrow> true_isSAT H
   | FalseNode \<Rightarrow> false_isSAT H
   | UnaryNode b data \<Rightarrow> unary_isSAT (sat_node k fixed gs) fixed gs b data a H
   | IteNode l r data \<Rightarrow> ite_isSAT (sat_node k fixed gs) fixed gs l r data a H
   | DecAndNode n sons \<Rightarrow> and_isSAT (sat_node k fixed gs) gs n sons a H)"

section \<open>The tree below an address\<close>

definition body_sons :: "node_body \<Rightarrow> nat list" where
  "body_sons body = (case body of TrueNode \<Rightarrow> [] | FalseNode \<Rightarrow> [] | UnaryNode b data \<Rightarrow> [b_d b]
     | IteNode l r data \<Rightarrow> [b_d l, b_d r] | DecAndNode n sons \<Rightarrow> and_sons n sons)"

definition graph_wf :: "node_body list \<Rightarrow> bool" where
  "graph_wf bs \<longleftrightarrow> (\<forall>a<length bs. \<forall>s\<in>set (body_sons (bs ! a)). s < a)"

definition body_tree :: "(nat \<Rightarrow> nnf) \<Rightarrow> node_body \<Rightarrow> nnf" where
  "body_tree f body = (case body of
     TrueNode \<Rightarrow> NTrue
   | FalseNode \<Rightarrow> NFalse
   | UnaryNode b data \<Rightarrow> NUnary (branch_units b data) (branch_frees b data) (f (b_d b))
   | IteNode l r data \<Rightarrow> NOr (branch_units l data) (branch_frees l data) (f (b_d l))
       (branch_units r (right_data l data)) (branch_frees r (right_data l data)) (f (b_d r))
   | DecAndNode n sons \<Rightarrow> NAnd (map f (and_sons n sons)))"

primrec tree_of :: "nat \<Rightarrow> node_body list \<Rightarrow> nat \<Rightarrow> nnf" where
  "tree_of 0 bs a = NFalse"
| "tree_of (Suc k) bs a = body_tree (tree_of k bs) (bs ! a)"

definition nnf_of :: "node_body list \<Rightarrow> nat \<Rightarrow> nnf" where
  "nnf_of bs a = tree_of (Suc a) bs a"

lemma body_tree_cong: "(\<And>s. s \<in> set (body_sons body) \<Longrightarrow> f s = g s) \<Longrightarrow> body_tree f body = body_tree g body"
  by (auto simp: body_tree_def body_sons_def split: node_body.splits)

lemma tree_of_fuel:
  "graph_wf bs \<Longrightarrow> a < length bs \<Longrightarrow> a < k \<Longrightarrow> a < k' \<Longrightarrow> tree_of k bs a = tree_of k' bs a"
proof (induction a arbitrary: k k' rule: less_induct)
  case (less a)
  obtain i j where [simp]: "k = Suc i" "k' = Suc j" using less.prems by (metis not_less0 not0_implies_Suc)
  have "tree_of i bs s = tree_of j bs s" if "s \<in> set (body_sons (bs ! a))" for s
  proof -
    have "s < a" using that less.prems by (simp add: graph_wf_def)
    then show ?thesis using less.prems by (intro less.IH) simp_all
  qed
  then have "body_tree (tree_of i bs) (bs ! a) = body_tree (tree_of j bs) (bs ! a)" by (rule body_tree_cong)
  then show ?case by simp
qed

lemma nnf_of_unfold:
  assumes "graph_wf bs" "a < length bs"
  shows "nnf_of bs a = body_tree (nnf_of bs) (bs ! a)"
proof -
  have "tree_of a bs s = tree_of (Suc s) bs s" if "s \<in> set (body_sons (bs ! a))" for s
  proof -
    have "s < a" using that assms by (simp add: graph_wf_def)
    then show ?thesis using assms by (intro tree_of_fuel) simp_all
  qed
  then have "body_tree (tree_of a bs) (bs ! a) = body_tree (\<lambda>s. tree_of (Suc s) bs s) (bs ! a)"
    by (rule body_tree_cong)
  then show ?thesis by (simp add: nnf_of_def [abs_def])
qed

lemma tree_of_append:
  "graph_wf bs \<Longrightarrow> a < length bs \<Longrightarrow> tree_of k (bs @ cs) a = tree_of k bs a"
proof (induction k arbitrary: a)
  case (Suc k)
  have "tree_of k (bs @ cs) s = tree_of k bs s" if "s \<in> set (body_sons (bs ! a))" for s
  proof -
    have "s < a" using that Suc.prems by (simp add: graph_wf_def)
    then show ?thesis using Suc by simp
  qed
  then have "body_tree (tree_of k (bs @ cs)) (bs ! a) = body_tree (tree_of k bs) (bs ! a)" by (rule body_tree_cong)
  then show ?case using Suc.prems by (simp add: nth_append)
qed simp

lemma nnf_of_append: "graph_wf bs \<Longrightarrow> a < length bs \<Longrightarrow> nnf_of (bs @ cs) a = nnf_of bs a"
  unfolding nnf_of_def by (rule tree_of_append)

section \<open>The memo kept in the nodes\<close>

definition inner_node :: "node_body \<Rightarrow> bool" where
  "inner_node body \<longleftrightarrow> body \<noteq> TrueNode \<and> body \<noteq> FalseNode"

text \<open>Below \<open>n\<close>, an inner node with the current stamp holds the value \<open>f\<close> of its tree.\<close>

definition stamps_within :: "int \<Rightarrow> 'w nnf_node list \<Rightarrow> bool" where
  "stamps_within gs H \<longleftrightarrow> 0 \<le> gs \<and> (\<forall>n\<in>set H. 0 \<le> n_stamp n \<and> n_stamp n \<le> gs)"

definition memo_below :: "node_body list \<Rightarrow> int \<Rightarrow> (nnf \<Rightarrow> 'w) \<Rightarrow> nat \<Rightarrow> 'w nnf_node list \<Rightarrow> bool" where
  "memo_below bs gs f n H \<longleftrightarrow> map n_body H = bs \<and> stamps_within gs H \<and>
     (\<forall>a<n. inner_node (bs ! a) \<longrightarrow> n_stamp (H ! a) = gs \<longrightarrow> n_nbModels (H ! a) = f (nnf_of bs a))"

text \<open>A visit of \<open>a\<close> returns the value, keeps the memo and touches no node above \<open>a\<close>.\<close>

definition visit_ok ::
  "node_body list \<Rightarrow> int \<Rightarrow> (nnf \<Rightarrow> 'w) \<Rightarrow> (nnf \<Rightarrow> 'r) \<Rightarrow> (nat \<Rightarrow> 'w nnf_node list \<Rightarrow> ('r \<times> 'w nnf_node list) option) \<Rightarrow>
   nat \<Rightarrow> bool" where
  "visit_ok bs gs f r visit a \<longleftrightarrow> (\<forall>H. memo_below bs gs f (Suc a) H \<longrightarrow>
     (\<exists>H'. visit a H = Some (r (nnf_of bs a), H') \<and> memo_below bs gs f (Suc a) H' \<and> (\<forall>x>a. H' ! x = H ! x)))"

lemma memo_below_mono: "memo_below bs gs f n H \<Longrightarrow> m \<le> n \<Longrightarrow> memo_below bs gs f m H"
  by (simp add: memo_below_def)

lemma visit_okE:
  assumes "visit_ok bs gs f r visit s" "memo_below bs gs f n H" "s < n"
  obtains H' where "visit s H = Some (r (nnf_of bs s), H')" "memo_below bs gs f n H'" "\<forall>x\<ge>n. H' ! x = H ! x"
proof -
  obtain H' where H': "visit s H = Some (r (nnf_of bs s), H')" "memo_below bs gs f (Suc s) H'" "\<forall>x>s. H' ! x = H ! x"
    using assms memo_below_mono [OF assms(2), of "Suc s"] unfolding visit_ok_def by force
  have "memo_below bs gs f n H'"
    using H' assms(2) unfolding memo_below_def by (metis not_less_eq)
  then show thesis using H' assms(3) by (intro that [of H']) auto
qed

lemma stamps_within_update:
  "stamps_within gs H \<Longrightarrow> 0 \<le> n_stamp n \<Longrightarrow> n_stamp n \<le> gs \<Longrightarrow> stamps_within gs (H[a := n])"
  using set_update_subset_insert [of H a n] by (auto simp: stamps_within_def)

lemma stamps_within_nth: "stamps_within gs H \<Longrightarrow> a < length H \<Longrightarrow> 0 \<le> n_stamp (H ! a) \<and> n_stamp (H ! a) \<le> gs"
  by (simp add: stamps_within_def)

lemma stamps_within_kept [simp]:
  assumes "stamps_within gs H"
  shows "stamps_within gs (set_models a c gs H)" "stamps_within gs (set_stamp a gs H)" "stamps_within gs (put_models a c H)"
proof -
  have "0 \<le> gs" using assms by (simp add: stamps_within_def)
  then have "gs mod 2 ^ 28 \<le> gs" by (simp add: zmod_le_nonneg_dividend)
  then show "stamps_within gs (set_models a c gs H)" "stamps_within gs (set_stamp a gs H)"
    using assms by (auto simp: set_models_def set_stamp_def intro!: stamps_within_update)
  show "stamps_within gs (put_models a c H)"
  proof (cases "a < length H")
    case True
    then show ?thesis using assms stamps_within_nth [OF assms True]
      by (auto simp: put_models_def intro!: stamps_within_update)
  qed (use assms in \<open>simp add: put_models_def list_update_beyond\<close>)
qed

lemma memo_set_models:
  assumes "memo_below bs gs f a H" "c = f (nnf_of bs a)" "a < length bs"
  shows "memo_below bs gs f (Suc a) (set_models a c gs H)"
proof -
  have "map n_body (set_models a c gs H) = bs"
    using assms(1,3) by (auto simp: memo_below_def set_models_def map_update list_update_same_conv)
  moreover have "a < length H" using assms(1,3) by (auto simp: memo_below_def)
  ultimately show ?thesis
    using assms stamps_within_kept(1) [of gs H a c]
    by (auto simp: memo_below_def set_models_def nth_list_update less_Suc_eq)
qed

lemma memo_stamped:
  assumes "memo_below bs gs f (Suc a) H" "inner_node (n_body (H ! a))" "n_stamp (H ! a) = gs" "a < length bs"
  shows "n_nbModels (H ! a) = f (nnf_of bs a)"
proof -
  have "n_body (H ! a) = bs ! a" using assms(1,4) by (auto simp: memo_below_def)
  then show ?thesis using assms by (simp add: memo_below_def)
qed

section \<open>Counting is right\<close>

definition fixed_lit :: "'w::zero list \<Rightarrow> ValueVar list \<Rightarrow> int \<Rightarrow> 'w" where
  "fixed_lit wl fixed l = (if isUnsatLit (vget fixed (l div 2)) l then 0 else vget wl l)"

lemma units_weight_value:
  "case units_weight wl fixed us cw of
     None \<Rightarrow> prod_list (map (fixed_lit wl fixed) us) = 0
   | Some x \<Rightarrow> x = cw * prod_list (map (fixed_lit wl fixed) us)"
  by (induction wl fixed us cw rule: units_weight.induct)
     (auto simp: fixed_lit_def mult.assoc split: option.splits)

lemma fold_free_weight:
  "fold (\<lambda>v x. x * free_weight wl wv fixed v) fs x = x * prod_list (map (free_weight wl wv fixed) fs)"
  for x :: "'w::comm_semiring_1"
  by (induction fs arbitrary: x) (simp_all add: mult.assoc)

abbreviation count_value :: "'w::comm_semiring_1 list \<Rightarrow> 'w list \<Rightarrow> ValueVar list \<Rightarrow> nnf \<Rightarrow> 'w" where
  "count_value wl wv fixed \<equiv> tcount (fixed_lit wl fixed) (free_weight wl wv fixed)"

lemma branch_models_ok:
  assumes "visit_ok bs gs f (count_value wl wv fixed) visit (b_d b)" "memo_below bs gs f n H" "b_d b < n"
  shows "\<exists>H'. branch_models visit wl wv fixed b data H =
      Some (branch_value (fixed_lit wl fixed) (free_weight wl wv fixed) (branch_units b data) (branch_frees b data)
        (count_value wl wv fixed (nnf_of bs (b_d b))), H') \<and>
    memo_below bs gs f n H' \<and> (\<forall>x\<ge>n. H' ! x = H ! x)"
proof (cases "units_weight wl fixed (branch_units b data) 1")
  case None
  then have "prod_list (map (fixed_lit wl fixed) (branch_units b data)) = 0"
    using units_weight_value [of wl fixed "branch_units b data" 1] by simp
  then show ?thesis using assms(2) None by (intro exI [of _ H]) (simp add: branch_models_def branch_value_def)
next
  case (Some cw)
  then have "cw = prod_list (map (fixed_lit wl fixed) (branch_units b data))"
    using units_weight_value [of wl fixed "branch_units b data" 1] by simp
  moreover obtain H' where "visit (b_d b) H = Some (count_value wl wv fixed (nnf_of bs (b_d b)), H')"
    "memo_below bs gs f n H'" "\<forall>x\<ge>n. H' ! x = H ! x"
    using visit_okE [OF assms] by blast
  ultimately show ?thesis using Some
    by (intro exI [of _ H']) (simp add: branch_models_def branch_value_def fold_free_weight)
qed

lemma and_models_ok:
  assumes "\<forall>s\<in>set ss. s < n \<and> visit_ok bs gs f g visit s" "memo_below bs gs f n H"
  shows "\<exists>H'. and_models visit ss acc H = Some (acc * prod_list (map (\<lambda>s. g (nnf_of bs s)) ss), H') \<and>
    memo_below bs gs f n H' \<and> (\<forall>x\<ge>n. H' ! x = H ! x)"
  using assms
proof (induction ss arbitrary: acc H)
  case (Cons s ss)
  obtain H1 where H1: "visit s H = Some (g (nnf_of bs s), H1)" "memo_below bs gs f n H1" "\<forall>x\<ge>n. H1 ! x = H ! x"
    using visit_okE [of bs gs f g visit s n H] Cons.prems by auto
  show ?case
  proof (cases "acc * g (nnf_of bs s) = 0")
    case True
    then have "acc * (g (nnf_of bs s) * x) = 0" for x by (simp add: mult.assoc [symmetric])
    then show ?thesis using H1 True by (intro exI [of _ H1]) simp
  next
    case False
    obtain H2 where "and_models visit ss (acc * g (nnf_of bs s)) H1 =
        Some (acc * g (nnf_of bs s) * prod_list (map (\<lambda>s. g (nnf_of bs s)) ss), H2)"
      "memo_below bs gs f n H2" "\<forall>x\<ge>n. H2 ! x = H1 ! x"
      using Cons.IH [of H1 "acc * g (nnf_of bs s)"] Cons.prems(1) H1(2) by auto
    then show ?thesis using H1 False by (intro exI [of _ H2]) (simp add: mult.assoc)
  qed
qed simp

text \<open>What is left of a visit once the value is there: store it with the stamp.\<close>

lemma store_models:
  assumes "memo_below bs gs f a H'" "\<forall>x\<ge>a. H' ! x = H ! x" "a < length bs" "c = f (nnf_of bs a)"
  shows "memo_below bs gs f (Suc a) (set_models a c gs H') \<and> (\<forall>x>a. set_models a c gs H' ! x = H ! x)"
proof (intro conjI)
  show "memo_below bs gs f (Suc a) (set_models a c gs H')" using assms by (intro memo_set_models)
  show "\<forall>x>a. set_models a c gs H' ! x = H ! x" using assms(2) by (simp add: set_models_def)
qed

lemma count_node_ok:
  assumes "graph_wf bs" "a < length bs" "a < k"
  shows "visit_ok bs gs (count_value wl wv fixed) (count_value wl wv fixed) (count_node k wl wv fixed gs) a"
  using assms(2,3)
proof (induction k arbitrary: a)
  case (Suc k)
  let ?f = "count_value wl wv fixed" and ?visit = "count_node k wl wv fixed gs"
  let ?P = "\<lambda>n H c H'. c = Some (?f (nnf_of bs n), H') \<and> memo_below bs gs ?f (Suc n) H' \<and> (\<forall>x>n. H' ! x = H ! x)"
  show ?case
    unfolding visit_ok_def
  proof (intro allI impI)
    fix H assume H: "memo_below bs gs ?f (Suc a) H"
    then have Ha: "memo_below bs gs ?f a H" by (rule memo_below_mono) simp
    have body: "n_body (H ! a) = bs ! a" using H Suc.prems by (auto simp: memo_below_def)
    have tree: "nnf_of bs a = body_tree (nnf_of bs) (bs ! a)" by (rule nnf_of_unfold [OF assms(1) Suc.prems(1)])
    have sons: "s < a \<and> visit_ok bs gs ?f ?f ?visit s" if "s \<in> set (body_sons (bs ! a))" for s
    proof -
      have "s < a" using that assms(1) Suc.prems(1) by (simp add: graph_wf_def)
      then show ?thesis using Suc by simp
    qed
    note stamped = memo_stamped [OF H _ _ Suc.prems(1)]
    note store = store_models [OF _ _ Suc.prems(1)]
    show "\<exists>H'. ?P a H (count_node (Suc k) wl wv fixed gs a H) H'"
    proof (cases "bs ! a")
      case (UnaryNode b data)
      then obtain H1 where H1: "branch_models ?visit wl wv fixed b data H = Some (?f (nnf_of bs a), H1)"
        "memo_below bs gs ?f a H1" "\<forall>x\<ge>a. H1 ! x = H ! x"
        using branch_models_ok [OF _ Ha, where wl = wl and wv = wv and fixed = fixed and visit = ?visit and b = b and data = data] sons [of "b_d b"]
        by (auto simp: body_sons_def tree body_tree_def)
      show ?thesis
      proof (cases "n_stamp (H ! a) = gs")
        case True
        then show ?thesis using UnaryNode body H stamped by (intro exI [of _ H]) (simp add: inner_node_def)
      next
        case False
        then show ?thesis using UnaryNode body H1 store [OF H1(2,3) refl]
          by (intro exI [of _ "set_models a (?f (nnf_of bs a)) gs H1"]) simp
      qed
    next
      case (IteNode l r data)
      then obtain H1 where H1: "branch_models ?visit wl wv fixed l data H =
          Some (branch_value (fixed_lit wl fixed) (free_weight wl wv fixed) (branch_units l data) (branch_frees l data)
            (?f (nnf_of bs (b_d l))), H1)" "memo_below bs gs ?f a H1" "\<forall>x\<ge>a. H1 ! x = H ! x"
        using branch_models_ok [OF _ Ha, where wl = wl and wv = wv and fixed = fixed and visit = ?visit and b = l and data = data] sons [of "b_d l"] by (auto simp: body_sons_def)
      obtain H2 where H2: "branch_models ?visit wl wv fixed r (right_data l data) H1 =
          Some (branch_value (fixed_lit wl fixed) (free_weight wl wv fixed) (branch_units r (right_data l data))
            (branch_frees r (right_data l data)) (?f (nnf_of bs (b_d r))), H2)"
        "memo_below bs gs ?f a H2" "\<forall>x\<ge>a. H2 ! x = H1 ! x"
        using branch_models_ok [OF _ H1(2), where wl = wl and wv = wv and fixed = fixed and visit = ?visit and b = r and data = "right_data l data"] sons [of "b_d r"] IteNode
        by (auto simp: body_sons_def)
      have H12: "\<forall>x\<ge>a. H2 ! x = H ! x" using H1(3) H2(3) by simp
      show ?thesis
      proof (cases "n_stamp (H ! a) = gs")
        case True
        then show ?thesis using IteNode body H stamped by (intro exI [of _ H]) (simp add: inner_node_def)
      next
        case False
        then show ?thesis using IteNode body H1(1) H2(1) store [OF H2(2) H12 refl]
          by (intro exI [of _ "set_models a (?f (nnf_of bs a)) gs H2"]) (simp add: tree body_tree_def)
      qed
    next
      case (DecAndNode n sns)
      then obtain H1 where H1: "and_models ?visit (and_sons n sns) 1 H = Some (?f (nnf_of bs a), H1)"
        "memo_below bs gs ?f a H1" "\<forall>x\<ge>a. H1 ! x = H ! x"
        using and_models_ok [OF _ Ha, where ss = "and_sons n sns" and g = ?f and visit = ?visit and acc = 1] sons
        by (auto simp: body_sons_def tree body_tree_def comp_def)
      show ?thesis
      proof (cases "n_stamp (H ! a) = gs")
        case True
        then show ?thesis using DecAndNode body H stamped by (intro exI [of _ H]) (simp add: inner_node_def)
      next
        case False
        then show ?thesis using DecAndNode body H1 store [OF H1(2,3) refl]
          by (intro exI [of _ "set_models a (?f (nnf_of bs a)) gs H1"]) simp
      qed
    qed (use H body tree in \<open>auto simp: body_tree_def\<close>)
  qed
qed simp

end
