(* ===== verification/D4_Node_Manager.thy ===== *)
theory D4_Node_Manager
  imports D4_Nodes Decimal
begin

text \<open>
  Satisfiability, printing and deallocation of the d-DNNF graph, and \<open>NodeManager\<close> of
  \<open>3rdParty/d4/src/methods/nnf/NodeManager.hpp\<close>: memory pages, the typed constructors and the queries, each of which
  takes a fresh stamp. The \<open>sizeof\<close> values are parameters (\<open>node_sizes\<close>), as are the conversions between
  \<open>unsigned\<close> and the number type that \<open>printNNF\<close> uses to keep an index in \<open>nbModels\<close>.
\<close>

section \<open>Satisfiability is right\<close>

primrec tsat :: "ValueVar list \<Rightarrow> nnf \<Rightarrow> bool" where
  "tsat fixed NTrue = True"
| "tsat fixed NFalse = False"
| "tsat fixed (NUnary us fs t) = (\<not> list_ex (\<lambda>l. isUnsatLit (vget fixed (l div 2)) l) us \<and> tsat fixed t)"
| "tsat fixed (NOr us fs t us' fs' t') =
     (\<not> list_ex (\<lambda>l. isUnsatLit (vget fixed (l div 2)) l) us \<and> tsat fixed t \<or>
      \<not> list_ex (\<lambda>l. isUnsatLit (vget fixed (l div 2)) l) us' \<and> tsat fixed t')"
| "tsat fixed (NAnd ts) = (\<forall>b\<in>set (map (tsat fixed) ts). b)"

abbreviation sat_value :: "ValueVar list \<Rightarrow> nnf \<Rightarrow> 'w::zero_neq_one" where
  "sat_value fixed t \<equiv> of_bool (tsat fixed t)"

definition no_empty_and :: "node_body list \<Rightarrow> bool" where
  "no_empty_and bs \<longleftrightarrow> (\<forall>body\<in>set bs. case body of DecAndNode n sons \<Rightarrow> and_sons n sons \<noteq> [] | _ \<Rightarrow> True)"

lemma memo_below_other:
  assumes "memo_below bs gs f n H" "\<forall>x<n. H' ! x = H ! x" "map n_body H' = bs" "stamps_within gs H'"
  shows "memo_below bs gs f n H'"
  using assms by (auto simp: memo_below_def)

lemma bodies_kept [simp]:
  "map n_body (set_stamp a gs H) = map n_body H" "map n_body (put_models a c H) = map n_body H"
  "map n_body (set_models a c gs H) = map n_body H"
  by (simp_all add: set_stamp_def put_models_def set_models_def map_update_same)

lemma others_kept [simp]:
  "x \<noteq> a \<Longrightarrow> set_stamp a gs H ! x = H ! x" "x \<noteq> a \<Longrightarrow> put_models a c H ! x = H ! x"
  "x \<noteq> a \<Longrightarrow> set_models a c gs H ! x = H ! x"
  by (simp_all add: set_stamp_def put_models_def set_models_def)

lemma memo_set_stamp: "memo_below bs gs f a H \<Longrightarrow> memo_below bs gs f a (set_stamp a gs H)"
  by (rule memo_below_other, assumption) (auto simp: memo_below_def)

lemma memo_put_models: "memo_below bs gs f a H \<Longrightarrow> memo_below bs gs f a (put_models a c H)"
  by (rule memo_below_other, assumption) (auto simp: memo_below_def)

lemma memo_put_value:
  assumes "memo_below bs gs f a H" "c = f (nnf_of bs a)" "a < length bs"
  shows "memo_below bs gs f (Suc a) (put_models a c H)"
proof -
  have "a < length H" using assms(1,3) by (auto simp: memo_below_def)
  then have "put_models a c H ! a = (H ! a)\<lparr>n_nbModels := c\<rparr>" by (simp add: put_models_def)
  then show ?thesis using memo_put_models [OF assms(1), of c] assms(2) by (auto simp: memo_below_def less_Suc_eq)
qed

lemma branch_sat_ok:
  assumes "visit_ok bs gs f (tsat fixed) visit (b_d b)" "memo_below bs gs f n H" "b_d b < n"
  shows "\<exists>H'. branch_sat visit fixed b data H =
      Some (\<not> list_ex (\<lambda>l. isUnsatLit (vget fixed (l div 2)) l) (branch_units b data) \<and>
        tsat fixed (nnf_of bs (b_d b)), H') \<and>
    memo_below bs gs f n H' \<and> (\<forall>x\<ge>n. H' ! x = H ! x)"
proof -
  obtain H' where "visit (b_d b) H = Some (tsat fixed (nnf_of bs (b_d b)), H')"
    "memo_below bs gs f n H'" "\<forall>x\<ge>n. H' ! x = H ! x"
    using visit_okE [OF assms] by blast
  then show ?thesis using assms(2) by (auto simp: branch_sat_def)
qed

lemma and_sat_ok:
  assumes "\<forall>s\<in>set ss. s < a \<and> visit_ok bs gs (sat_value fixed) (tsat fixed) visit s"
    "memo_below bs gs (sat_value fixed) a H" "a < length bs" "ss \<noteq> []"
  shows "\<exists>H'. and_sat visit a ss H = Some (\<forall>s\<in>set ss. tsat fixed (nnf_of bs s), H') \<and>
    memo_below bs gs (sat_value fixed) a H' \<and> (\<forall>x>a. H' ! x = H ! x) \<and>
    n_nbModels (H' ! a) = of_bool (\<forall>s\<in>set ss. tsat fixed (nnf_of bs s))"
  using assms
proof (induction ss arbitrary: H)
  case (Cons s ss)
  let ?c = "tsat fixed (nnf_of bs s)"
  obtain H1 where H1: "visit s H = Some (?c, H1)" "memo_below bs gs (sat_value fixed) a H1" "\<forall>x\<ge>a. H1 ! x = H ! x"
    using visit_okE [of bs gs _ _ visit s a H] Cons.prems by auto
  define H2 where "H2 = put_models a (of_bool ?c) H1"
  have "a < length H1" using H1(2) Cons.prems(3) by (auto simp: memo_below_def)
  then have H2: "memo_below bs gs (sat_value fixed) a H2" "\<forall>x>a. H2 ! x = H ! x" "n_nbModels (H2 ! a) = of_bool ?c"
    using H1 memo_put_models [OF H1(2)] by (auto simp: H2_def put_models_def)
  have step: "and_sat visit a (s # ss) H = (if \<not> ?c then Some (False, H2) else and_sat visit a ss H2)"
    using H1(1) H2(3) by (simp only: and_sat.simps option.case prod.case Let_def H2_def [symmetric]) simp
  show ?case
  proof (cases "?c \<and> ss \<noteq> []")
    case True
    then obtain H3 where "and_sat visit a ss H2 = Some (\<forall>s\<in>set ss. tsat fixed (nnf_of bs s), H3)"
      "memo_below bs gs (sat_value fixed) a H3" "\<forall>x>a. H3 ! x = H2 ! x"
      "n_nbModels (H3 ! a) = of_bool (\<forall>s\<in>set ss. tsat fixed (nnf_of bs s))"
      using Cons.IH [of H2] Cons.prems(1,3) H2(1) by auto
    then show ?thesis using True step H2(2) by (intro exI [of _ H3]) simp
  next
    case False
    then have "ss = [] \<or> \<not> ?c" by blast
    then show ?thesis using step H2 by (intro exI [of _ H2]) (elim disjE; simp del: and_sat.simps(2))
  qed
qed simp

lemma sat_node_ok:
  assumes "graph_wf bs" "no_empty_and bs" "a < length bs" "a < k"
  shows "visit_ok bs gs (sat_value fixed :: nnf \<Rightarrow> 'w::zero_neq_one) (tsat fixed) (sat_node k fixed gs) a"
  using assms(3,4)
proof (induction k arbitrary: a)
  case (Suc k)
  let ?f = "sat_value fixed :: nnf \<Rightarrow> 'w"
  let ?visit = "sat_node k fixed gs :: nat \<Rightarrow> 'w nnf_node list \<Rightarrow> _"
  show ?case
    unfolding visit_ok_def
  proof (intro allI impI)
    fix H :: "'w nnf_node list"
    assume H: "memo_below bs gs ?f (Suc a) H"
    then have Ha: "memo_below bs gs ?f a H" by (rule memo_below_mono) simp
    have body: "n_body (H ! a) = bs ! a" using H Suc.prems by (auto simp: memo_below_def)
    have tree: "nnf_of bs a = body_tree (nnf_of bs) (bs ! a)" by (rule nnf_of_unfold [OF assms(1) Suc.prems(1)])
    have sons: "s < a \<and> visit_ok bs gs ?f (tsat fixed) ?visit s" if "s \<in> set (body_sons (bs ! a))" for s
    proof -
      have "s < a" using that assms(1) Suc.prems(1) by (simp add: graph_wf_def)
      then show ?thesis using Suc by simp
    qed
    note stamped = memo_stamped [OF H _ _ Suc.prems(1)]
    let ?H0 = "set_stamp a gs H"
    have H0: "memo_below bs gs ?f a ?H0" "\<forall>x>a. ?H0 ! x = H ! x" using Ha by (simp_all add: memo_set_stamp)
    show "\<exists>H'. sat_node (Suc k) fixed gs a H = Some (tsat fixed (nnf_of bs a), H') \<and>
      memo_below bs gs ?f (Suc a) H' \<and> (\<forall>x>a. H' ! x = H ! x)"
    proof (cases "n_stamp (H ! a) = gs \<and> inner_node (bs ! a)")
      case True
      then have "n_nbModels (H ! a) = ?f (nnf_of bs a)" using stamped body by simp
      then show ?thesis using True body H
        by (intro exI [of _ H]) (auto simp: inner_node_def split: node_body.splits)
    next
      case fresh: False
      show ?thesis
      proof (cases "bs ! a")
        case (UnaryNode b data)
        then obtain H1 where H1: "branch_sat ?visit fixed b data H = Some (tsat fixed (nnf_of bs a), H1)"
          "memo_below bs gs ?f a H1" "\<forall>x\<ge>a. H1 ! x = H ! x"
          using branch_sat_ok [OF _ Ha, where fixed = fixed and visit = ?visit and b = b and data = data] sons [of "b_d b"]
          by (auto simp: body_sons_def tree body_tree_def)
        then show ?thesis using UnaryNode body fresh store_models [OF H1(2,3) Suc.prems(1) refl]
          by (intro exI [of _ "set_models a (?f (nnf_of bs a)) gs H1"]) (simp add: inner_node_def)
      next
        case (IteNode l r data)
        let ?u = "\<lambda>b data. list_ex (\<lambda>l. isUnsatLit (vget fixed (l div 2)) l) (branch_units b data)"
        let ?l = "\<not> ?u l data \<and> tsat fixed (nnf_of bs (b_d l))"
        let ?r = "\<not> ?u r (right_data l data) \<and> tsat fixed (nnf_of bs (b_d r))"
        have val: "tsat fixed (nnf_of bs a) = (?l \<or> ?r)" using IteNode by (simp add: tree body_tree_def)
        obtain H1 where H1: "branch_sat ?visit fixed l data ?H0 = Some (?l, H1)"
          "memo_below bs gs ?f a H1" "\<forall>x\<ge>a. H1 ! x = ?H0 ! x"
          using branch_sat_ok [OF _ H0(1), where fixed = fixed and visit = ?visit and b = l and data = data]
            sons [of "b_d l"] IteNode by (auto simp: body_sons_def)
        have P1: "memo_below bs gs ?f a (put_models a 0 H1)" "\<forall>x>a. put_models a 0 H1 ! x = H ! x"
          using H1 H0(2) by (simp_all add: memo_put_models)
        obtain H2 where H2: "branch_sat ?visit fixed r (right_data l data) (put_models a 0 H1) = Some (?r, H2)"
          "memo_below bs gs ?f a H2" "\<forall>x\<ge>a. H2 ! x = put_models a 0 H1 ! x"
          using branch_sat_ok [OF _ P1(1), where fixed = fixed and visit = ?visit and b = r and data = "right_data l data"]
            sons [of "b_d r"] IteNode by (auto simp: body_sons_def)
        show ?thesis
        proof (cases ?l)
          case True
          then show ?thesis using IteNode body fresh H1 H0(2) val memo_put_value [OF H1(2) _ Suc.prems(1), of 1]
            by (intro exI [of _ "put_models a 1 H1"]) (simp add: inner_node_def)
        next
          case False
          then have "tsat fixed (nnf_of bs a) = ?r" using val by blast
          then show ?thesis using IteNode body fresh H1(1) H2 P1(2) False
              memo_put_value [OF H2(2) _ Suc.prems(1), of "of_bool ?r"]
            by (intro exI [of _ "put_models a (of_bool ?r) H2"]) (simp add: inner_node_def)
        qed
      next
        case (DecAndNode n sns)
        have "bs ! a \<in> set bs" using Suc.prems by simp
        then have ne: "and_sons n sns \<noteq> []" using assms(2) DecAndNode by (auto simp: no_empty_and_def)
        have val: "tsat fixed (nnf_of bs a) = (\<forall>s\<in>set (and_sons n sns). tsat fixed (nnf_of bs s))"
          using DecAndNode by (simp add: tree body_tree_def)
        obtain H1 where H1: "and_sat ?visit a (and_sons n sns) ?H0 = Some (tsat fixed (nnf_of bs a), H1)"
          "memo_below bs gs ?f a H1" "\<forall>x>a. H1 ! x = ?H0 ! x" "n_nbModels (H1 ! a) = ?f (nnf_of bs a)"
          using and_sat_ok [OF _ H0(1) Suc.prems(1) ne, of ?visit] sons DecAndNode by (auto simp: body_sons_def val)
        have "memo_below bs gs ?f (Suc a) H1" using H1(2,4) by (auto simp: memo_below_def less_Suc_eq)
        then show ?thesis using DecAndNode body fresh H1 H0(2)
          by (intro exI [of _ H1]) (simp add: inner_node_def)
      qed (use H body tree in \<open>auto simp: body_tree_def\<close>)
    qed
  qed
qed simp

text \<open>What \<open>tsat\<close> means: the tree has a model that agrees with the fixed values.\<close>

definition allowed :: "ValueVar \<Rightarrow> bool \<Rightarrow> bool" where
  "allowed x b \<longleftrightarrow> (x = IsTrue \<longrightarrow> b) \<and> (x = IsFalse \<longrightarrow> \<not> b)"

definition zero_one :: "ValueVar list \<Rightarrow> int \<Rightarrow> nat" where
  "zero_one fixed l = (if isUnsatLit (vget fixed (l div 2)) l then 0 else 1)"

definition zero_one_var :: "ValueVar list \<Rightarrow> int \<Rightarrow> nat" where
  "zero_one_var fixed v = zero_one fixed (2 * v) + zero_one fixed (2 * v + 1)"

lemma var_weight_zero_one: "var_weight (zero_one fixed) v b \<noteq> 0 \<longleftrightarrow> allowed (vget fixed v) b"
  by (cases "vget fixed v") (auto simp: var_weight_def zero_one_def isUnsatLit_def allowed_def)

lemma zero_one_units: "prod_list (map (zero_one fixed) us) = 0 \<longleftrightarrow> list_ex (\<lambda>l. isUnsatLit (vget fixed (l div 2)) l) us"
  by (induction us) (auto simp: zero_one_def)

lemma zero_one_frees: "prod_list (map (zero_one_var fixed) fs) \<noteq> 0"
proof (induction fs)
  case (Cons v fs)
  have "zero_one_var fixed v \<noteq> 0"
    by (cases "vget fixed v") (simp_all add: zero_one_var_def zero_one_def isUnsatLit_def)
  then show ?case using Cons by simp
qed simp

lemma tsat_count: "tsat fixed t \<longleftrightarrow> tcount (zero_one fixed) (zero_one_var fixed) t \<noteq> 0"
proof (induction t)
  case (NUnary us fs t)
  then show ?case using zero_one_units [of fixed us] zero_one_frees [of fixed fs] by (auto simp: branch_value_def)
next
  case (NOr us fs t us' fs' t')
  then show ?case using zero_one_units [of fixed us] zero_one_frees [of fixed fs]
      zero_one_units [of fixed us'] zero_one_frees [of fixed fs'] by (auto simp: branch_value_def)
next
  case (NAnd ts)
  then show ?case by (auto simp: prod_list_zero_iff)
qed simp_all

lemma tsat_models:
  assumes "nnf_ok t"
  shows "tsat fixed t \<longleftrightarrow> (\<exists>m. (\<forall>v\<in>nnf_vars t. allowed (vget fixed v) (m v)) \<and> nnf_true m t)"
proof -
  let ?w = "var_weight (zero_one fixed)" and ?V = "nnf_vars t"
  have "tsat fixed t \<longleftrightarrow> wsum ?w ?V (\<lambda>m. nnf_true m t) \<noteq> 0"
    using tcount_wsum [OF assms, of "zero_one_var fixed" "zero_one fixed"] by (simp add: tsat_count zero_one_var_def)
  also have "\<dots> \<longleftrightarrow> (\<exists>S\<in>Pow ?V. nnf_true (\<lambda>v. v \<in> S) t \<and> (\<forall>v\<in>?V. ?w v (v \<in> S) \<noteq> 0))"
    using finite_nnf_vars [of t] by (auto simp: wsum_def)
  also have "\<dots> \<longleftrightarrow> (\<exists>S\<in>Pow ?V. nnf_true (\<lambda>v. v \<in> S) t \<and> (\<forall>v\<in>?V. allowed (vget fixed v) (v \<in> S)))"
    by (simp only: var_weight_zero_one)
  also have "\<dots> \<longleftrightarrow> (\<exists>m. (\<forall>v\<in>?V. allowed (vget fixed v) (m v)) \<and> nnf_true m t)"
  proof
    assume "\<exists>m. (\<forall>v\<in>?V. allowed (vget fixed v) (m v)) \<and> nnf_true m t"
    then obtain m where m: "\<forall>v\<in>?V. allowed (vget fixed v) (m v)" "nnf_true m t" by blast
    have "nnf_true (\<lambda>v. v \<in> {u \<in> ?V. m u}) t = nnf_true m t" by (rule only_onD [OF only_on_nnf]) simp
    then show "\<exists>S\<in>Pow ?V. nnf_true (\<lambda>v. v \<in> S) t \<and> (\<forall>v\<in>?V. allowed (vget fixed v) (v \<in> S))"
      using m by (intro bexI [of _ "{u \<in> ?V. m u}"]) auto
  next
    assume "\<exists>S\<in>Pow ?V. nnf_true (\<lambda>v. v \<in> S) t \<and> (\<forall>v\<in>?V. allowed (vget fixed v) (v \<in> S))"
    then obtain S where "nnf_true (\<lambda>v. v \<in> S) t" "\<forall>v\<in>?V. allowed (vget fixed v) (v \<in> S)" by blast
    then show "\<exists>m. (\<forall>v\<in>?V. allowed (vget fixed v) (m v)) \<and> nnf_true m t"
      by (intro exI [of _ "\<lambda>v. v \<in> S"]) simp
  qed
  finally show ?thesis .
qed

section \<open>Printing and deallocation\<close>

definition lits_text :: "int list \<Rightarrow> string" where
  "lits_text us = concat (map (\<lambda>l. (if odd l then ''-'' else []) @ show_int (l div 2) @ '' '') us)"

definition branch_print ::
  "(nat \<Rightarrow> 'h \<times> int \<times> string \<Rightarrow> (int \<times> 'h \<times> int \<times> string) option) \<Rightarrow> int \<Rightarrow> branch \<Rightarrow> int list \<Rightarrow>
   'h \<times> int \<times> string \<Rightarrow> ('h \<times> int \<times> string) option" where
  "branch_print visit idxFather b data st = (case visit (b_d b) st of
     None \<Rightarrow> None
   | Some (sidx, H, idx, out) \<Rightarrow> Some (H, idx,
       out @ show_int idxFather @ '' '' @ show_int sidx @ '' '' @ lits_text (branch_units b data) @ ''0'' @ [newline]))"

definition node_line :: "string \<Rightarrow> int \<Rightarrow> string" where
  "node_line c i = c @ '' '' @ show_int i @ '' 0'' @ [newline]"

fun and_print ::
  "(nat \<Rightarrow> 'h \<times> int \<times> string \<Rightarrow> (int \<times> 'h \<times> int \<times> string) option) \<Rightarrow> int \<Rightarrow> nat list \<Rightarrow>
   'h \<times> int \<times> string \<Rightarrow> ('h \<times> int \<times> string) option" where
  "and_print visit i [] st = Some st"
| "and_print visit i (s # ss) st = (case visit s st of
     None \<Rightarrow> None
   | Some (sidx, H, idx, out) \<Rightarrow>
       and_print visit i ss (H, idx, out @ show_int i @ '' '' @ show_int sidx @ '' 0'' @ [newline]))"

text \<open>The \<open>printNNF\<close> of the classes: \<open>open_node\<close> takes the next index for the node, \<open>close_node\<close> stamps it.\<close>

definition open_node :: "(int \<Rightarrow> 'w) \<Rightarrow> ('w \<Rightarrow> int) \<Rightarrow> string \<Rightarrow> nat \<Rightarrow> 'w nnf_node list \<times> int \<times> string \<Rightarrow>
  int \<times> 'w nnf_node list \<times> int \<times> string" where
  "open_node ofIdx toIdx c a st = (case st of (H, idx, out) \<Rightarrow>
     (toIdx (ofIdx idx), put_models a (ofIdx idx) H, (idx + 1) mod 2 ^ 32, out @ node_line c (toIdx (ofIdx idx))))"

definition close_node :: "int \<Rightarrow> nat \<Rightarrow> int \<Rightarrow> ('w nnf_node list \<times> int \<times> string) option \<Rightarrow>
  (int \<times> 'w nnf_node list \<times> int \<times> string) option" where
  "close_node gs a i r = (case r of None \<Rightarrow> None | Some (H, idx, out) \<Rightarrow> Some (i, set_stamp a gs H, idx, out))"

definition true_printNNF :: "(int \<Rightarrow> 'w) \<Rightarrow> ('w \<Rightarrow> int) \<Rightarrow> int \<Rightarrow> nat \<Rightarrow> 'w nnf_node list \<times> int \<times> string \<Rightarrow>
  (int \<times> 'w nnf_node list \<times> int \<times> string) option" where
  "true_printNNF ofIdx toIdx gs a st =
     (if n_stamp (fst st ! a) = gs then Some (toIdx (n_nbModels (fst st ! a)), st)
      else case open_node ofIdx toIdx ''t'' a st of (i, st1) \<Rightarrow> close_node gs a i (Some st1))"

definition false_printNNF :: "(int \<Rightarrow> 'w) \<Rightarrow> ('w \<Rightarrow> int) \<Rightarrow> int \<Rightarrow> nat \<Rightarrow> 'w nnf_node list \<times> int \<times> string \<Rightarrow>
  (int \<times> 'w nnf_node list \<times> int \<times> string) option" where
  "false_printNNF ofIdx toIdx gs a st =
     (if n_stamp (fst st ! a) = gs then Some (toIdx (n_nbModels (fst st ! a)), st)
      else case open_node ofIdx toIdx ''f'' a st of (i, st1) \<Rightarrow> close_node gs a i (Some st1))"

definition unary_printNNF ::
  "(nat \<Rightarrow> 'w nnf_node list \<times> int \<times> string \<Rightarrow> (int \<times> 'w nnf_node list \<times> int \<times> string) option) \<Rightarrow> (int \<Rightarrow> 'w) \<Rightarrow>
   ('w \<Rightarrow> int) \<Rightarrow> int \<Rightarrow> branch \<Rightarrow> int list \<Rightarrow> nat \<Rightarrow> 'w nnf_node list \<times> int \<times> string \<Rightarrow>
   (int \<times> 'w nnf_node list \<times> int \<times> string) option" where
  "unary_printNNF visit ofIdx toIdx gs b data a st =
     (if n_stamp (fst st ! a) = gs then Some (toIdx (n_nbModels (fst st ! a)), st)
      else case open_node ofIdx toIdx ''o'' a st of (i, st1) \<Rightarrow> close_node gs a i (branch_print visit i b data st1))"

definition ite_printNNF ::
  "(nat \<Rightarrow> 'w nnf_node list \<times> int \<times> string \<Rightarrow> (int \<times> 'w nnf_node list \<times> int \<times> string) option) \<Rightarrow> (int \<Rightarrow> 'w) \<Rightarrow>
   ('w \<Rightarrow> int) \<Rightarrow> int \<Rightarrow> branch \<Rightarrow> branch \<Rightarrow> int list \<Rightarrow> nat \<Rightarrow> 'w nnf_node list \<times> int \<times> string \<Rightarrow>
   (int \<times> 'w nnf_node list \<times> int \<times> string) option" where
  "ite_printNNF visit ofIdx toIdx gs l r data a st =
     (if n_stamp (fst st ! a) = gs then Some (toIdx (n_nbModels (fst st ! a)), st)
      else case open_node ofIdx toIdx ''o'' a st of (i, st1) \<Rightarrow>
        close_node gs a i (case branch_print visit i l data st1 of
          None \<Rightarrow> None
        | Some st2 \<Rightarrow> branch_print visit i r (right_data l data) st2))"

definition and_printNNF ::
  "(nat \<Rightarrow> 'w nnf_node list \<times> int \<times> string \<Rightarrow> (int \<times> 'w nnf_node list \<times> int \<times> string) option) \<Rightarrow> (int \<Rightarrow> 'w) \<Rightarrow>
   ('w \<Rightarrow> int) \<Rightarrow> int \<Rightarrow> int \<Rightarrow> nat list \<Rightarrow> nat \<Rightarrow> 'w nnf_node list \<times> int \<times> string \<Rightarrow>
   (int \<times> 'w nnf_node list \<times> int \<times> string) option" where
  "and_printNNF visit ofIdx toIdx gs n sons a st =
     (if n_stamp (fst st ! a) = gs then Some (toIdx (n_nbModels (fst st ! a)), st)
      else case open_node ofIdx toIdx ''a'' a st of (i, st1) \<Rightarrow>
        close_node gs a i (and_print visit i (and_sons n sons) st1))"

fun print_node :: "nat \<Rightarrow> (int \<Rightarrow> 'w) \<Rightarrow> ('w \<Rightarrow> int) \<Rightarrow> int \<Rightarrow> nat \<Rightarrow> 'w nnf_node list \<times> int \<times> string \<Rightarrow>
  (int \<times> 'w nnf_node list \<times> int \<times> string) option" where
  "print_node 0 ofIdx toIdx gs a st = None"
| "print_node (Suc k) ofIdx toIdx gs a st = (case n_body (fst st ! a) of
     TrueNode \<Rightarrow> true_printNNF ofIdx toIdx gs a st
   | FalseNode \<Rightarrow> false_printNNF ofIdx toIdx gs a st
   | UnaryNode b data \<Rightarrow> unary_printNNF (print_node k ofIdx toIdx gs) ofIdx toIdx gs b data a st
   | IteNode l r data \<Rightarrow> ite_printNNF (print_node k ofIdx toIdx gs) ofIdx toIdx gs l r data a st
   | DecAndNode n sons \<Rightarrow> and_printNNF (print_node k ofIdx toIdx gs) ofIdx toIdx gs n sons a st)"

text \<open>\<open>deallocate\<close> records the nodes whose number it destroys, in order.\<close>

definition free_once :: "int \<Rightarrow> nat \<Rightarrow> ('w nnf_node list \<times> nat list \<Rightarrow> ('w nnf_node list \<times> nat list) option) \<Rightarrow>
  'w nnf_node list \<times> nat list \<Rightarrow> ('w nnf_node list \<times> nat list) option" where
  "free_once gs a rest st = (case st of (H, freed) \<Rightarrow>
     if n_stamp (H ! a) = gs then Some (H, freed) else rest (set_stamp a gs H, freed @ [a]))"

fun free_sons :: "(nat \<Rightarrow> 'h \<times> nat list \<Rightarrow> ('h \<times> nat list) option) \<Rightarrow> nat list \<Rightarrow> 'h \<times> nat list \<Rightarrow>
  ('h \<times> nat list) option" where
  "free_sons visit [] st = Some st"
| "free_sons visit (s # ss) st = (case visit s st of None \<Rightarrow> None | Some st' \<Rightarrow> free_sons visit ss st')"

definition true_deallocate :: "int \<Rightarrow> nat \<Rightarrow> 'w nnf_node list \<times> nat list \<Rightarrow> ('w nnf_node list \<times> nat list) option" where
  "true_deallocate gs a = free_once gs a Some"

definition false_deallocate :: "int \<Rightarrow> nat \<Rightarrow> 'w nnf_node list \<times> nat list \<Rightarrow> ('w nnf_node list \<times> nat list) option" where
  "false_deallocate gs a = free_once gs a Some"

definition unary_deallocate ::
  "(nat \<Rightarrow> 'w nnf_node list \<times> nat list \<Rightarrow> ('w nnf_node list \<times> nat list) option) \<Rightarrow> int \<Rightarrow> branch \<Rightarrow> nat \<Rightarrow>
   'w nnf_node list \<times> nat list \<Rightarrow> ('w nnf_node list \<times> nat list) option" where
  "unary_deallocate visit gs b a = free_once gs a (visit (b_d b))"

definition ite_deallocate ::
  "(nat \<Rightarrow> 'w nnf_node list \<times> nat list \<Rightarrow> ('w nnf_node list \<times> nat list) option) \<Rightarrow> int \<Rightarrow> branch \<Rightarrow> branch \<Rightarrow> nat \<Rightarrow>
   'w nnf_node list \<times> nat list \<Rightarrow> ('w nnf_node list \<times> nat list) option" where
  "ite_deallocate visit gs l r a =
     free_once gs a (\<lambda>st. case visit (b_d l) st of None \<Rightarrow> None | Some st' \<Rightarrow> visit (b_d r) st')"

definition and_deallocate ::
  "(nat \<Rightarrow> 'w nnf_node list \<times> nat list \<Rightarrow> ('w nnf_node list \<times> nat list) option) \<Rightarrow> int \<Rightarrow> int \<Rightarrow> nat list \<Rightarrow> nat \<Rightarrow>
   'w nnf_node list \<times> nat list \<Rightarrow> ('w nnf_node list \<times> nat list) option" where
  "and_deallocate visit gs n sons a = free_once gs a (free_sons visit (and_sons n sons))"

fun free_node :: "nat \<Rightarrow> int \<Rightarrow> nat \<Rightarrow> 'w nnf_node list \<times> nat list \<Rightarrow> ('w nnf_node list \<times> nat list) option" where
  "free_node 0 gs a st = None"
| "free_node (Suc k) gs a st = (case n_body (fst st ! a) of
     TrueNode \<Rightarrow> true_deallocate gs a st
   | FalseNode \<Rightarrow> false_deallocate gs a st
   | UnaryNode b data \<Rightarrow> unary_deallocate (free_node k gs) gs b a st
   | IteNode l r data \<Rightarrow> ite_deallocate (free_node k gs) gs l r a st
   | DecAndNode n sons \<Rightarrow> and_deallocate (free_node k gs) gs n sons a st)"

text \<open>All five do the same for the sons of the node.\<close>

lemma free_node_Suc:
  "free_node (Suc k) gs a (H, freed) =
     (if n_stamp (H ! a) = gs then Some (H, freed)
      else free_sons (free_node k gs) (body_sons (n_body (H ! a))) (set_stamp a gs H, freed @ [a]))"
  by (simp add: free_once_def true_deallocate_def false_deallocate_def unary_deallocate_def ite_deallocate_def
      and_deallocate_def body_sons_def split: node_body.split option.split)

section \<open>The node manager\<close>

record node_sizes =
  sz_true :: int
  sz_false :: int
  sz_ite :: int
  sz_unary :: int
  sz_and :: int
  sz_ptr :: int

record 'w NodeManager =
  nm_bits :: nat
  nm_heap :: "'w nnf_node list"
  nm_true :: nat
  nm_false :: nat
  nm_memoryPages :: int
  nm_posInMemoryPage :: int
  nm_globalStamp :: int

definition PAGE_SIZE :: int where
  "PAGE_SIZE = 2 ^ 24"

definition getMemory :: "int \<Rightarrow> 'w NodeManager \<Rightarrow> 'w NodeManager" where
  "getMemory nbBytes M =
     (let M1 = (if PAGE_SIZE \<le> (nm_posInMemoryPage M + nbBytes) mod 2 ^ 32
                then M\<lparr>nm_posInMemoryPage := 0, nm_memoryPages := nm_memoryPages M + 1\<rparr> else M)
      in M1\<lparr>nm_posInMemoryPage := (nm_posInMemoryPage M1 + nbBytes) mod 2 ^ 32\<rparr>)"

definition place :: "node_body \<Rightarrow> 'w::zero NodeManager \<Rightarrow> nat \<times> 'w NodeManager" where
  "place body M = (length (nm_heap M), M\<lparr>nm_heap := nm_heap M @ [new_node body]\<rparr>)"

definition nodeManagerTyped :: "node_sizes \<Rightarrow> nat \<Rightarrow> 'w::zero NodeManager" where
  "nodeManagerTyped sz bits =
     (let M0 = \<lparr>nm_bits = bits, nm_heap = [], nm_true = 0, nm_false = 0, nm_memoryPages = 1,
                nm_posInMemoryPage = 0, nm_globalStamp = 0\<rparr>;
          (t, M1) = place TrueNode (getMemory (sz_true sz) M0);
          (f, M2) = place FalseNode (getMemory (sz_false sz) M1)
      in M2\<lparr>nm_true := t, nm_false := f\<rparr>)"

definition makeNodeManager :: "node_sizes \<Rightarrow> int \<Rightarrow> 'w::zero NodeManager" where
  "makeNodeManager sz n =
     (if n < 2 ^ 7 then nodeManagerTyped sz 8
      else if n < 2 ^ 15 then nodeManagerTyped sz 16
      else nodeManagerTyped sz 32)"

definition makeTrueNode :: "'w NodeManager \<Rightarrow> nat" where
  "makeTrueNode M = nm_true M"

definition makeFalseNode :: "'w NodeManager \<Rightarrow> nat" where
  "makeFalseNode M = nm_false M"

definition makeBinaryDeterministicOrNode ::
  "node_sizes \<Rightarrow> nat DataBranch \<Rightarrow> nat DataBranch \<Rightarrow> 'w::zero NodeManager \<Rightarrow> nat \<times> 'w NodeManager" where
  "makeBinaryDeterministicOrNode sz l r M =
     (let memoryNeeded = (sz_ite sz + (sumFreeUnit l + sumFreeUnit r) * int (nm_bits M div 8)) mod 2 ^ 32
      in place (mkIteNode (nm_bits M) l r) (getMemory memoryNeeded M))"

definition makeUnaryNode :: "node_sizes \<Rightarrow> nat DataBranch \<Rightarrow> 'w::zero NodeManager \<Rightarrow> nat \<times> 'w NodeManager" where
  "makeUnaryNode sz e M =
     (let memoryNeeded = (sz_unary sz + int (nm_bits M div 8) * sumFreeUnit e) mod 2 ^ 32
      in place (mkUnaryNode (nm_bits M) e) (getMemory memoryNeeded M))"

definition makeDecomposableAndNode :: "node_sizes \<Rightarrow> nat list \<Rightarrow> 'w::zero NodeManager \<Rightarrow> nat \<times> 'w NodeManager" where
  "makeDecomposableAndNode sz sons M =
     (if length sons = 1 then (hd sons, M)
      else let memoryNeeded = (sz_and sz + int (length sons) * sz_ptr sz) mod 2 ^ 32
           in place (mkDecAndNode (nm_bits M) sons) (getMemory memoryNeeded M))"

definition next_stamp :: "'w NodeManager \<Rightarrow> 'w NodeManager" where
  "next_stamp M = M\<lparr>nm_globalStamp := (nm_globalStamp M + 1) mod 2 ^ 32\<rparr>"

definition computeNbModels ::
  "nat \<Rightarrow> ValueVar list \<Rightarrow> 'w::comm_semiring_1 list \<Rightarrow> 'w list \<Rightarrow> 'w NodeManager \<Rightarrow> ('w \<times> 'w NodeManager) option" where
  "computeNbModels a fixed wl wv M = (let M1 = next_stamp M in
     case count_node (Suc a) wl wv fixed (nm_globalStamp M1) a (nm_heap M1) of
       None \<Rightarrow> None
     | Some (c, H) \<Rightarrow> Some (c, M1\<lparr>nm_heap := H\<rparr>))"

definition nm_isSAT ::
  "nat \<Rightarrow> ValueVar list \<Rightarrow> 'w::zero_neq_one NodeManager \<Rightarrow> (bool \<times> 'w NodeManager) option" where
  "nm_isSAT a fixed M = (let M1 = next_stamp M in
     case sat_node (Suc a) fixed (nm_globalStamp M1) a (nm_heap M1) of
       None \<Rightarrow> None
     | Some (c, H) \<Rightarrow> Some (c, M1\<lparr>nm_heap := H\<rparr>))"

definition printNNF ::
  "(int \<Rightarrow> 'w) \<Rightarrow> ('w \<Rightarrow> int) \<Rightarrow> nat \<Rightarrow> 'w NodeManager \<Rightarrow> (string \<times> 'w NodeManager) option" where
  "printNNF ofIdx toIdx a M = (let M1 = next_stamp M in
     case print_node (Suc a) ofIdx toIdx (nm_globalStamp M1) a (nm_heap M1, 1, []) of
       None \<Rightarrow> None
     | Some (i, H, idx, out) \<Rightarrow> Some (out, M1\<lparr>nm_heap := H\<rparr>))"

definition nm_deallocate :: "nat \<Rightarrow> 'w NodeManager \<Rightarrow> (nat list \<times> 'w NodeManager) option" where
  "nm_deallocate a M = (let M1 = next_stamp M in
     case free_node (Suc a) (nm_globalStamp M1) a (nm_heap M1, []) of
       None \<Rightarrow> None
     | Some (H, freed) \<Rightarrow> Some (freed, M1\<lparr>nm_heap := H\<rparr>))"

end
