(* ===== verification/D4_Dnnf.thy ===== *)
theory D4_Dnnf
  imports D4_Node_Manager
begin

text \<open>
  What the d-DNNF manager guarantees: the state invariant \<open>nm_ok\<close>, that every constructor keeps it and adds a node
  whose tree is the one asked for, and that the queries return the weighted model count, satisfiability, and destroy
  every reachable number once.
\<close>

section \<open>The invariant\<close>

abbreviation nm_bodies :: "'w NodeManager \<Rightarrow> node_body list" where
  "nm_bodies M \<equiv> map n_body (nm_heap M)"

definition nm_ok :: "'w NodeManager \<Rightarrow> bool" where
  "nm_ok M \<longleftrightarrow> graph_wf (nm_bodies M) \<and> no_empty_and (nm_bodies M) \<and>
     0 \<le> nm_globalStamp M \<and> nm_globalStamp M < 2 ^ 32 \<and>
     (\<forall>n\<in>set (nm_heap M). 0 \<le> n_stamp n \<and> n_stamp n \<le> nm_globalStamp M) \<and>
     nm_true M < length (nm_heap M) \<and> nm_bodies M ! nm_true M = TrueNode \<and>
     nm_false M < length (nm_heap M) \<and> nm_bodies M ! nm_false M = FalseNode"

definition nm_tree :: "'w NodeManager \<Rightarrow> nat \<Rightarrow> nnf" where
  "nm_tree M a = nnf_of (nm_bodies M) a"

lemma getMemory_keeps [simp]:
  "nm_heap (getMemory nb M) = nm_heap M" "nm_bits (getMemory nb M) = nm_bits M" "nm_true (getMemory nb M) = nm_true M"
  "nm_false (getMemory nb M) = nm_false M" "nm_globalStamp (getMemory nb M) = nm_globalStamp M"
  by (simp_all add: getMemory_def Let_def)

lemma getMemory_ok [simp]: "nm_ok (getMemory nb M) = nm_ok M"
  by (simp add: nm_ok_def)

lemma graph_wf_snoc:
  "graph_wf bs \<Longrightarrow> (\<And>s. s \<in> set (body_sons body) \<Longrightarrow> s < length bs) \<Longrightarrow> graph_wf (bs @ [body])"
  by (auto simp: graph_wf_def nth_append less_Suc_eq)

definition nonempty_and :: "node_body \<Rightarrow> bool" where
  "nonempty_and body \<longleftrightarrow> (case body of DecAndNode n sons \<Rightarrow> and_sons n sons \<noteq> [] | _ \<Rightarrow> True)"

text \<open>Placing a node whose sons exist keeps the invariant and all trees, and its tree is built from theirs.\<close>

lemma place_ok:
  fixes M :: "'w::zero NodeManager"
  assumes "nm_ok M" "\<And>s. s \<in> set (body_sons body) \<Longrightarrow> s < length (nm_heap M)" "nonempty_and body"
    "place body M = (a, M')"
  shows "nm_ok M' \<and> a < length (nm_heap M') \<and> length (nm_heap M) \<le> length (nm_heap M') \<and>
    nm_tree M' a = body_tree (nm_tree M) body \<and> (\<forall>x<length (nm_heap M). nm_tree M' x = nm_tree M x)"
proof -
  let ?bs = "nm_bodies M"
  have M': "a = length ?bs" "nm_bodies M' = ?bs @ [body]" "nm_heap M' = nm_heap M @ [new_node body]"
    "nm_globalStamp M' = nm_globalStamp M" "nm_true M' = nm_true M" "nm_false M' = nm_false M"
    using assms(4) by (auto simp: place_def new_node_def)
  have wf: "graph_wf ?bs" "graph_wf (?bs @ [body])"
    using assms(1,2) graph_wf_snoc [of ?bs body] by (auto simp: nm_ok_def)
  have old: "nm_tree M' x = nm_tree M x" if "x < length (nm_heap M)" for x
    using nnf_of_append [OF wf(1), of x "[body]"] that by (simp add: nm_tree_def M' new_node_def)
  have "nm_tree M' a = body_tree (nnf_of (?bs @ [body])) body"
    using nnf_of_unfold [OF wf(2), of a] by (simp add: nm_tree_def M' new_node_def nth_append)
  also have "\<dots> = body_tree (nm_tree M) body"
    by (rule body_tree_cong) (use assms(2) nnf_of_append [OF wf(1)] in \<open>simp add: nm_tree_def\<close>)
  finally have "nm_tree M' a = body_tree (nm_tree M) body" .
  moreover have "nm_ok M'"
    using assms(1,3) wf(2) unfolding nm_ok_def M'
    by (auto simp: nth_append no_empty_and_def nonempty_and_def new_node_def)
  ultimately show ?thesis using old M'(1,3) by simp
qed

lemma nm_ok_initial: "nm_ok (nodeManagerTyped sz bits)"
  by (simp add: nm_ok_def nodeManagerTyped_def place_def Let_def new_node_def graph_wf_def no_empty_and_def
      body_sons_def nth_Cons less_Suc_eq)

lemma nm_ok_makeNodeManager: "nm_ok (makeNodeManager sz n)"
  by (simp add: makeNodeManager_def nm_ok_initial)

section \<open>What the constructors store\<close>

text \<open>A branch fits a type of \<open>bits\<close> bits when nothing is lost by the truncation.\<close>

definition fits :: "nat \<Rightarrow> 'u DataBranch \<Rightarrow> bool" where
  "fits bits e \<longleftrightarrow> (\<forall>l\<in>set (db_units e). ilit_intern l < 2 ^ bits) \<and> (\<forall>v\<in>set (db_frees e). 0 \<le> v \<and> v < 2 ^ bits) \<and>
     int (length (db_units e)) < 2 ^ bits \<and> int (length (db_frees e)) < 2 ^ bits"

definition unit_codes :: "'u DataBranch \<Rightarrow> int list" where
  "unit_codes e = map ilit_intern (db_units e)"

lemma ilit_intern_nonneg [simp]: "0 \<le> ilit_intern l"
  by (simp add: ilit_intern_def)

lemma store_fits:
  assumes "fits bits e"
  shows "store_data bits e = unit_codes e @ db_frees e" "b_d (store_branch bits e) = db_d e"
    "b_nbUnits (store_branch bits e) = int (length (db_units e))"
    "b_nbFree (store_branch bits e) = int (length (db_frees e))"
  using assms by (simp_all add: store_data_def store_branch_def unit_codes_def fits_def map_idI)

lemma stored_branch:
  assumes "fits bits e"
  shows "branch_units (store_branch bits e) (store_data bits e @ rest) = unit_codes e"
    "branch_frees (store_branch bits e) (store_data bits e @ rest) = db_frees e"
    "right_data (store_branch bits e) (store_data bits e @ rest) = rest"
  using store_fits [OF assms]
  by (simp_all add: branch_units_def branch_frees_def right_data_def unit_codes_def nat_add_distrib)

lemma unary_tree:
  "fits bits e \<Longrightarrow> body_tree f (mkUnaryNode bits e) = NUnary (unit_codes e) (db_frees e) (f (db_d e))"
  using stored_branch [of bits e "[]"] store_fits(2) [of bits e] by (simp add: body_tree_def mkUnaryNode_def)

lemma ite_tree:
  "fits bits l \<Longrightarrow> fits bits r \<Longrightarrow> body_tree f (mkIteNode bits l r) =
    NOr (unit_codes l) (db_frees l) (f (db_d l)) (unit_codes r) (db_frees r) (f (db_d r))"
  using stored_branch [of bits l "store_data bits r"] stored_branch [of bits r "[]"] store_fits(2) [of bits l]
    store_fits(2) [of bits r] by (simp add: body_tree_def mkIteNode_def)

lemma and_tree:
  "int (length sons) < 2 ^ bits \<Longrightarrow> body_tree f (mkDecAndNode bits sons) = NAnd (map f sons)"
  by (simp add: body_tree_def mkDecAndNode_def and_sons_def)

definition new_tree :: "'w NodeManager \<Rightarrow> nat \<times> 'w NodeManager \<Rightarrow> nnf \<Rightarrow> bool" where
  "new_tree M r t \<longleftrightarrow> nm_ok (snd r) \<and> fst r < length (nm_heap (snd r)) \<and> nm_tree (snd r) (fst r) = t \<and>
     nm_bits (snd r) = nm_bits M \<and> nm_globalStamp (snd r) = nm_globalStamp M \<and> length (nm_heap M) \<le> length (nm_heap (snd r)) \<and>
     (\<forall>x<length (nm_heap M). nm_tree (snd r) x = nm_tree M x)"

lemma new_tree_place:
  fixes M :: "'w::zero NodeManager"
  assumes "nm_ok M" "\<And>s. s \<in> set (body_sons body) \<Longrightarrow> s < length (nm_heap M)" "nonempty_and body"
  shows "new_tree M (place body (getMemory nb M)) (body_tree (nm_tree M) body)"
proof -
  obtain a M' where p: "place body (getMemory nb M) = (a, M')" by fastforce
  have "nm_bits M' = nm_bits M" "nm_globalStamp M' = nm_globalStamp M" using p by (auto simp: place_def)
  moreover have "nm_tree (getMemory nb M) = nm_tree M" by (simp add: nm_tree_def [abs_def])
  ultimately show ?thesis using place_ok [OF _ _ assms(3) p] assms by (simp add: new_tree_def p)
qed

lemma makeUnaryNode_tree:
  fixes M :: "'w::zero NodeManager"
  assumes "nm_ok M" "db_d e < length (nm_heap M)" "fits (nm_bits M) e"
  shows "new_tree M (makeUnaryNode sz e M) (NUnary (unit_codes e) (db_frees e) (nm_tree M (db_d e)))"
  unfolding makeUnaryNode_def Let_def unary_tree [OF assms(3), symmetric]
  using assms store_fits(2) [OF assms(3)]
  by (intro new_tree_place) (simp_all add: mkUnaryNode_def body_sons_def nonempty_and_def)

lemma makeIteNode_tree:
  fixes M :: "'w::zero NodeManager"
  assumes "nm_ok M" "db_d l < length (nm_heap M)" "db_d r < length (nm_heap M)" "fits (nm_bits M) l" "fits (nm_bits M) r"
  shows "new_tree M (makeBinaryDeterministicOrNode sz l r M)
    (NOr (unit_codes l) (db_frees l) (nm_tree M (db_d l)) (unit_codes r) (db_frees r) (nm_tree M (db_d r)))"
  unfolding makeBinaryDeterministicOrNode_def Let_def ite_tree [OF assms(4,5), symmetric]
  using assms store_fits(2) [OF assms(4)] store_fits(2) [OF assms(5)]
  by (intro new_tree_place) (auto simp: mkIteNode_def body_sons_def nonempty_and_def)

lemma makeAndNode_tree:
  fixes M :: "'w::zero NodeManager"
  assumes "nm_ok M" "\<forall>s\<in>set sons. s < length (nm_heap M)" "sons \<noteq> []" "int (length sons) < 2 ^ nm_bits M"
  shows "new_tree M (makeDecomposableAndNode sz sons M)
    (if length sons = 1 then nm_tree M (hd sons) else NAnd (map (nm_tree M) sons))"
proof (cases "length sons = 1")
  case True
  then show ?thesis using assms by (cases sons) (auto simp: makeDecomposableAndNode_def new_tree_def)
next
  case False
  then show ?thesis
    using assms new_tree_place [OF assms(1), of "mkDecAndNode (nm_bits M) sons"]
    by (auto simp: makeDecomposableAndNode_def and_tree [symmetric] mkDecAndNode_def body_sons_def and_sons_def
        nonempty_and_def)
qed

section \<open>Queries\<close>

lemma initial_memo:
  assumes "nm_ok M" "n \<le> length (nm_heap M)"
  shows "memo_below (nm_bodies M) (nm_globalStamp M + 1) f n (nm_heap M)"
proof -
  have "n_stamp (nm_heap M ! x) \<noteq> nm_globalStamp M + 1" if "x < n" for x
  proof -
    have "nm_heap M ! x \<in> set (nm_heap M)" using that assms(2) by simp
    then have "n_stamp (nm_heap M ! x) \<le> nm_globalStamp M" using assms(1) by (simp add: nm_ok_def)
    then show ?thesis by simp
  qed
  moreover have "stamps_within (nm_globalStamp M + 1) (nm_heap M)"
    using assms(1) by (force simp: stamps_within_def nm_ok_def)
  ultimately show ?thesis by (simp add: memo_below_def)
qed

lemma nm_ok_after:
  assumes "nm_ok M" "nm_globalStamp M + 1 < 2 ^ 32"
    "memo_below (nm_bodies M) (nm_globalStamp M + 1) f n H"
  shows "nm_ok (next_stamp M\<lparr>nm_heap := H\<rparr>) \<and> nm_bodies (next_stamp M\<lparr>nm_heap := H\<rparr>) = nm_bodies M"
proof -
  have b: "map n_body H = nm_bodies M" using assms(3) by (simp add: memo_below_def)
  then have "length H = length (nm_heap M)" by (metis length_map)
  then show ?thesis using assms b
    by (auto simp: nm_ok_def next_stamp_def memo_below_def stamps_within_def)
qed

text \<open>The weight of a variable's value under the fixed values.\<close>

definition value_weight :: "'w::zero list \<Rightarrow> ValueVar list \<Rightarrow> int \<Rightarrow> bool \<Rightarrow> 'w" where
  "value_weight wl fixed v b = (if allowed (vget fixed v) b then vget wl (if b then 2 * v else 2 * v + 1) else 0)"

definition sums_of_lits :: "'w::plus list \<Rightarrow> 'w list \<Rightarrow> int set \<Rightarrow> bool" where
  "sums_of_lits wl wv V \<longleftrightarrow> (\<forall>v\<in>V. vget wv v = vget wl (2 * v) + vget wl (2 * v + 1))"

lemma var_weight_fixed: "var_weight (fixed_lit wl fixed) = value_weight wl fixed"
  by (intro ext) (auto simp: var_weight_def fixed_lit_def value_weight_def isUnsatLit_def allowed_def)

lemma free_weight_sum:
  fixes wl :: "'w::comm_semiring_1 list"
  assumes "sums_of_lits wl wv V" "v \<in> V"
  shows "free_weight wl wv fixed v = fixed_lit wl fixed (2 * v) + fixed_lit wl fixed (2 * v + 1)"
  using assms by (auto simp: free_weight_def fixed_lit_def isUnsatLit_def sums_of_lits_def split: ValueVar.split)

lemma computeNbModels_value:
  fixes M :: "'w::comm_semiring_1 NodeManager"
  assumes "nm_ok M" "a < length (nm_heap M)" "nm_globalStamp M + 1 < 2 ^ 32"
  shows "\<exists>M'. computeNbModels a fixed wl wv M = Some (count_value wl wv fixed (nm_tree M a), M') \<and>
    nm_ok M' \<and> nm_bodies M' = nm_bodies M"
proof -
  let ?gs = "nm_globalStamp M + 1"
  have wf: "graph_wf (nm_bodies M)" using assms(1) by (simp add: nm_ok_def)
  have gs: "nm_globalStamp (next_stamp M) = ?gs" "nm_heap (next_stamp M) = nm_heap M"
    using assms(1,3) by (simp_all add: next_stamp_def nm_ok_def)
  have "visit_ok (nm_bodies M) ?gs (count_value wl wv fixed) (count_value wl wv fixed)
      (count_node (Suc a) wl wv fixed ?gs) a"
    using assms(2) by (intro count_node_ok [OF wf]) simp_all
  then obtain H where H: "count_node (Suc a) wl wv fixed ?gs a (nm_heap M) = Some (count_value wl wv fixed (nm_tree M a), H)"
    "memo_below (nm_bodies M) ?gs (count_value wl wv fixed) (Suc a) H"
    using visit_okE [OF _ initial_memo [OF assms(1) Suc_leI [OF assms(2)]] lessI] unfolding nm_tree_def by blast
  show ?thesis unfolding computeNbModels_def Let_def gs H(1)
    using nm_ok_after [OF assms(1,3) H(2)] by simp
qed

lemma nm_isSAT_value:
  fixes M :: "'w::zero_neq_one NodeManager"
  assumes "nm_ok M" "a < length (nm_heap M)" "nm_globalStamp M + 1 < 2 ^ 32"
  shows "\<exists>M'. nm_isSAT a fixed M = Some (tsat fixed (nm_tree M a), M') \<and> nm_ok M' \<and> nm_bodies M' = nm_bodies M"
proof -
  let ?gs = "nm_globalStamp M + 1" and ?f = "sat_value fixed :: nnf \<Rightarrow> 'w"
  have wf: "graph_wf (nm_bodies M)" "no_empty_and (nm_bodies M)" using assms(1) by (simp_all add: nm_ok_def)
  have gs: "nm_globalStamp (next_stamp M) = ?gs" "nm_heap (next_stamp M) = nm_heap M"
    using assms(1,3) by (simp_all add: next_stamp_def nm_ok_def)
  have "visit_ok (nm_bodies M) ?gs ?f (tsat fixed) (sat_node (Suc a) fixed ?gs) a"
    using assms(2) by (intro sat_node_ok [OF wf]) simp_all
  then obtain H where H: "sat_node (Suc a) fixed ?gs a (nm_heap M) = Some (tsat fixed (nm_tree M a), H)"
    "memo_below (nm_bodies M) ?gs ?f (Suc a) H"
    using visit_okE [OF _ initial_memo [OF assms(1) Suc_leI [OF assms(2)]] lessI] unfolding nm_tree_def by blast
  show ?thesis unfolding nm_isSAT_def Let_def gs H(1)
    using nm_ok_after [OF assms(1,3) H(2)] by simp
qed

section \<open>Memory pages\<close>

text \<open>Memory handed out lies inside one page and after what the page already gave away.\<close>

theorem getMemory_in_page:
  assumes "0 \<le> nm_posInMemoryPage M" "nm_posInMemoryPage M < PAGE_SIZE" "0 \<le> nb" "nb < PAGE_SIZE"
  shows "nm_posInMemoryPage (getMemory nb M) < PAGE_SIZE \<and>
    (nm_memoryPages (getMemory nb M) = nm_memoryPages M \<and>
       nm_posInMemoryPage (getMemory nb M) = nm_posInMemoryPage M + nb \<or>
     nm_memoryPages (getMemory nb M) = nm_memoryPages M + 1 \<and> nm_posInMemoryPage (getMemory nb M) = nb)"
  using assms by (simp add: getMemory_def PAGE_SIZE_def Let_def)

lemma getMemory_in_page_witness:
  "nm_posInMemoryPage (getMemory 10 \<lparr>nm_bits = 8, nm_heap = [] :: nat nnf_node list, nm_true = 0, nm_false = 1,
     nm_memoryPages = 1, nm_posInMemoryPage = 16777210, nm_globalStamp = 0\<rparr>) < PAGE_SIZE"
  using getMemory_in_page [of "\<lparr>nm_bits = 8, nm_heap = [] :: nat nnf_node list, nm_true = 0, nm_false = 1,
     nm_memoryPages = 1, nm_posInMemoryPage = 16777210, nm_globalStamp = 0\<rparr>" 10]
  by (simp add: PAGE_SIZE_def)

section \<open>Properties of the queries\<close>

text \<open>C16: \<open>computeNbModels\<close> on a decomposable, deterministic and smooth graph returns the weighted number of models
  that agree with the fixed values, and leaves the graph as it was.\<close>

theorem dnnf_count:
  fixes M :: "'w::comm_semiring_1 NodeManager"
  assumes "nm_ok M" "a < length (nm_heap M)" "nm_globalStamp M + 1 < 2 ^ 32"
    "nnf_ok (nm_tree M a)" "sums_of_lits wl wv (nnf_vars (nm_tree M a))"
  shows "\<exists>M'. computeNbModels a fixed wl wv M =
      Some (wsum (value_weight wl fixed) (nnf_vars (nm_tree M a)) (\<lambda>m. nnf_true m (nm_tree M a)), M') \<and>
    nm_ok M' \<and> nm_bodies M' = nm_bodies M"
proof -
  have "count_value wl wv fixed (nm_tree M a) =
    wsum (var_weight (fixed_lit wl fixed)) (nnf_vars (nm_tree M a)) (\<lambda>m. nnf_true m (nm_tree M a))"
    using free_weight_sum [OF assms(5)] by (intro tcount_wsum [OF assms(4)]) simp
  then show ?thesis using computeNbModels_value [OF assms(1,2,3), of fixed wl wv] by (simp add: var_weight_fixed)
qed

text \<open>A small graph: one branch with the unit 1 and the free variable 2.\<close>

definition demo_sizes :: node_sizes where
  "demo_sizes = \<lparr>sz_true = 32, sz_false = 32, sz_ite = 48, sz_unary = 40, sz_and = 40, sz_ptr = 8\<rparr>"

definition demo_branch :: "nat DataBranch" where
  "demo_branch = \<lparr>db_d = 0, db_units = [ilit_make 1 False], db_frees = [2]\<rparr>"

definition demo_graph :: "nat \<times> nat NodeManager" where
  "demo_graph = makeUnaryNode demo_sizes demo_branch (makeNodeManager demo_sizes 3)"

lemma demo_initial: "nm_tree (makeNodeManager demo_sizes 3 :: nat NodeManager) 0 = NTrue"
  "nm_bits (makeNodeManager demo_sizes 3 :: nat NodeManager) = 8"
  "0 < length (nm_heap (makeNodeManager demo_sizes 3 :: nat NodeManager))"
  "nm_globalStamp (snd demo_graph) = 0"
  by code_simp+

lemma demo_graph_ok:
  "nm_ok (snd demo_graph)" "fst demo_graph < length (nm_heap (snd demo_graph))"
  "nm_tree (snd demo_graph) (fst demo_graph) = NUnary [2] [2] NTrue"
proof -
  have "new_tree (makeNodeManager demo_sizes 3) demo_graph
    (NUnary (unit_codes demo_branch) (db_frees demo_branch) (nm_tree (makeNodeManager demo_sizes 3 :: nat NodeManager) (db_d demo_branch)))"
    unfolding demo_graph_def using demo_initial
    by (intro makeUnaryNode_tree nm_ok_makeNodeManager) (simp_all add: demo_branch_def fits_def)
  then show "nm_ok (snd demo_graph)" "fst demo_graph < length (nm_heap (snd demo_graph))"
    "nm_tree (snd demo_graph) (fst demo_graph) = NUnary [2] [2] NTrue"
    using demo_initial(1) by (simp_all add: new_tree_def demo_branch_def unit_codes_def)
qed

lemma dnnf_count_witness:
  "\<exists>M'. computeNbModels (fst demo_graph) (replicate 3 IsNotAssigned) [0, 0, 2, 3, 5, 7] [0, 5, 12] (snd demo_graph) =
    Some (wsum (value_weight [0, 0, 2, 3, 5, 7] (replicate 3 IsNotAssigned)) {1, 2} (\<lambda>m. m 1), M')"
  using dnnf_count [OF demo_graph_ok(1,2), of "[0, 0, 2, 3, 5, 7]" "[0, 5, 12]" "replicate 3 IsNotAssigned"]
  by (auto simp: demo_graph_ok(3) demo_initial(4) branch_ok_def lit_vars_def sums_of_lits_def vget_def
      ilit_holds_def insert_commute)

text \<open>C17: \<open>isSAT\<close> tells whether such a graph has a model that agrees with the fixed values.\<close>

theorem dnnf_sat:
  fixes M :: "'w::zero_neq_one NodeManager"
  assumes "nm_ok M" "a < length (nm_heap M)" "nm_globalStamp M + 1 < 2 ^ 32" "nnf_ok (nm_tree M a)"
  shows "\<exists>M'. nm_isSAT a fixed M =
      Some (\<exists>m. (\<forall>v\<in>nnf_vars (nm_tree M a). allowed (vget fixed v) (m v)) \<and> nnf_true m (nm_tree M a), M') \<and>
    nm_ok M' \<and> nm_bodies M' = nm_bodies M"
  using nm_isSAT_value [OF assms(1,2,3)] tsat_models [OF assms(4)] by simp

lemma dnnf_sat_witness: "\<exists>b M'. nm_isSAT (fst demo_graph) (replicate 3 IsNotAssigned) (snd demo_graph) = Some (b, M')"
  using dnnf_sat [OF demo_graph_ok(1,2), of "replicate 3 IsNotAssigned"]
  by (auto simp: demo_graph_ok(3) demo_initial(4) branch_ok_def lit_vars_def)

section \<open>Deallocation\<close>

inductive_set reach :: "node_body list \<Rightarrow> nat \<Rightarrow> nat set" for bs a where
  here: "a \<in> reach bs a"
| son: "x \<in> reach bs a \<Longrightarrow> s \<in> set (body_sons (bs ! x)) \<Longrightarrow> s \<in> reach bs a"

lemma reach_le: "x \<in> reach bs a \<Longrightarrow> graph_wf bs \<Longrightarrow> a < length bs \<Longrightarrow> x \<le> a"
proof (induction rule: reach.induct)
  case (son x s)
  then have "s < x" by (simp add: graph_wf_def)
  then show ?case using son by simp
qed simp

lemma reach_closed:
  assumes "x \<in> reach bs a" "a \<in> D" "\<forall>y\<in>D. y \<le> a \<longrightarrow> set (body_sons (bs ! y)) \<subseteq> D" "graph_wf bs" "a < length bs"
  shows "x \<in> D"
  using assms
proof (induction rule: reach.induct)
  case (son x s)
  then show ?case using reach_le [of x bs a] by blast
qed simp

lemma reach_trans: "x \<in> reach bs s \<Longrightarrow> s \<in> reach bs a \<Longrightarrow> x \<in> reach bs a"
  by (induction rule: reach.induct) (auto intro: reach.intros)

lemma reach_unfold: "reach bs a = insert a (\<Union>s\<in>set (body_sons (bs ! a)). reach bs s)"
proof (intro equalityI subsetI)
  fix x assume "x \<in> reach bs a"
  then show "x \<in> insert a (\<Union>s\<in>set (body_sons (bs ! a)). reach bs s)"
    by (induction rule: reach.induct) (auto intro: reach.intros)
next
  fix x assume "x \<in> insert a (\<Union>s\<in>set (body_sons (bs ! a)). reach bs s)"
  then show "x \<in> reach bs a" using reach.here reach.son reach_trans by blast
qed

text \<open>The stamped nodes are those destroyed; below \<open>n\<close> they come with their sons.\<close>

definition freed_ok :: "node_body list \<Rightarrow> int \<Rightarrow> nat \<Rightarrow> 'w nnf_node list \<Rightarrow> nat list \<Rightarrow> bool" where
  "freed_ok bs gs n H freed \<longleftrightarrow> map n_body H = bs \<and> stamps_within gs H \<and> distinct freed \<and>
     (\<forall>x<length bs. n_stamp (H ! x) = gs \<longleftrightarrow> x \<in> set freed) \<and> set freed \<subseteq> {..<length bs} \<and>
     (\<forall>x\<in>set freed. x < n \<longrightarrow> set (body_sons (bs ! x)) \<subseteq> set freed)"

definition frees_ok :: "node_body list \<Rightarrow> int \<Rightarrow> (nat \<Rightarrow> 'w nnf_node list \<times> nat list \<Rightarrow>
    ('w nnf_node list \<times> nat list) option) \<Rightarrow> nat \<Rightarrow> bool" where
  "frees_ok bs gs visit a \<longleftrightarrow> (\<forall>H freed. freed_ok bs gs (Suc a) H freed \<longrightarrow>
     (\<exists>H' freed'. visit a (H, freed) = Some (H', freed') \<and> freed_ok bs gs (Suc a) H' freed' \<and>
        set freed' = set freed \<union> reach bs a))"

lemma frees_okE:
  assumes "frees_ok bs gs visit s" "freed_ok bs gs n H freed" "s < n" "graph_wf bs" "s < length bs"
  obtains H' freed' where "visit s (H, freed) = Some (H', freed')" "freed_ok bs gs n H' freed'"
    "set freed' = set freed \<union> reach bs s"
proof -
  have "freed_ok bs gs (Suc s) H freed" using assms(2,3) by (auto simp: freed_ok_def)
  then obtain H' freed' where H': "visit s (H, freed) = Some (H', freed')" "freed_ok bs gs (Suc s) H' freed'"
    "set freed' = set freed \<union> reach bs s"
    using assms(1) unfolding frees_ok_def by blast
  have "set (body_sons (bs ! x)) \<subseteq> set freed'" if "x \<in> set freed'" "x < n" for x
  proof (cases "x < Suc s")
    case True
    then show ?thesis using H'(2) that(1) by (simp add: freed_ok_def)
  next
    case False
    then have "x \<in> set freed" using that(1) H'(3) reach_le [OF _ assms(4,5), of x] by auto
    then show ?thesis using assms(2) that(2) H'(3) by (auto simp: freed_ok_def)
  qed
  then have "freed_ok bs gs n H' freed'" using H'(2) by (simp add: freed_ok_def)
  then show thesis using H' by (intro that)
qed

lemma free_sons_ok:
  assumes "\<forall>s\<in>set ss. s < n \<and> s < length bs \<and> frees_ok bs gs visit s" "freed_ok bs gs n H freed" "graph_wf bs"
  shows "\<exists>H' freed'. free_sons visit ss (H, freed) = Some (H', freed') \<and> freed_ok bs gs n H' freed' \<and>
    set freed' = set freed \<union> (\<Union>s\<in>set ss. reach bs s)"
  using assms
proof (induction ss arbitrary: H freed)
  case (Cons s ss)
  obtain H1 freed1 where H1: "visit s (H, freed) = Some (H1, freed1)" "freed_ok bs gs n H1 freed1"
    "set freed1 = set freed \<union> reach bs s"
    using frees_okE [of bs gs visit s n H freed] Cons.prems by auto
  then obtain H2 freed2 where "free_sons visit ss (H1, freed1) = Some (H2, freed2)" "freed_ok bs gs n H2 freed2"
    "set freed2 = set freed1 \<union> (\<Union>s\<in>set ss. reach bs s)"
    using Cons.IH [of H1 freed1] Cons.prems by auto
  then show ?case using H1 by auto
qed simp

lemma free_node_ok:
  assumes "graph_wf bs" "gs < 2 ^ 28" "a < length bs" "a < k"
  shows "frees_ok bs gs (free_node k gs :: nat \<Rightarrow> 'w nnf_node list \<times> nat list \<Rightarrow> _) a"
  using assms(3,4)
proof (induction k arbitrary: a)
  case (Suc k)
  show ?case
    unfolding frees_ok_def
  proof (intro allI impI)
    fix H :: "'w nnf_node list" and freed
    assume H: "freed_ok bs gs (Suc a) H freed"
    show "\<exists>H' freed'. free_node (Suc k) gs a (H, freed) = Some (H', freed') \<and> freed_ok bs gs (Suc a) H' freed' \<and>
      set freed' = set freed \<union> reach bs a"
    proof (cases "n_stamp (H ! a) = gs")
      case True
      then have "a \<in> set freed" using H Suc.prems(1) by (simp add: freed_ok_def)
      then have "reach bs a \<subseteq> set freed"
        using reach_closed [of _ bs a "set freed"] H assms(1) Suc.prems(1) by (auto simp: freed_ok_def)
      then show ?thesis using True H by (simp add: free_node_Suc del: free_node.simps(2)) blast
    next
      case False
      let ?H0 = "set_stamp a gs H" and ?f0 = "freed @ [a]"
      have "0 \<le> gs" using H by (simp add: freed_ok_def stamps_within_def)
      then have "?H0 ! a = (H ! a)\<lparr>n_stamp := gs\<rparr>" using assms(2) H Suc.prems(1)
        by (auto simp: set_stamp_def freed_ok_def)
      then have stamp: "n_stamp (?H0 ! x) = (if x = a then gs else n_stamp (H ! x))" for x by simp
      moreover have "a \<notin> set freed" using False H Suc.prems(1) by (simp add: freed_ok_def)
      ultimately have H0: "freed_ok bs gs a ?H0 ?f0"
        using H Suc.prems(1) unfolding freed_ok_def stamp by (auto simp: less_Suc_eq)
      have "s < a \<and> s < length bs \<and>
          frees_ok bs gs (free_node k gs :: nat \<Rightarrow> 'w nnf_node list \<times> nat list \<Rightarrow> _) s" if "s \<in> set (body_sons (bs ! a))" for s
      proof -
        have "s < a" using that assms(1) Suc.prems(1) by (simp add: graph_wf_def)
        then show ?thesis using Suc by simp
      qed
      then obtain H1 f1 where H1: "free_sons (free_node k gs) (body_sons (bs ! a)) (?H0, ?f0) = Some (H1, f1)"
        "freed_ok bs gs a H1 f1" "set f1 = set ?f0 \<union> (\<Union>s\<in>set (body_sons (bs ! a)). reach bs s)"
        using free_sons_ok [OF _ H0 assms(1)] by blast
      have f1: "set f1 = set freed \<union> reach bs a" using H1(3) reach_unfold [of bs a] by auto
      have "set (body_sons (bs ! a)) \<subseteq> set f1" unfolding f1 by (auto intro: reach.intros)
      then have "freed_ok bs gs (Suc a) H1 f1" using H1(2) by (auto simp: freed_ok_def less_Suc_eq)
      moreover have "n_body (H ! a) = bs ! a" using H Suc.prems(1) by (auto simp: freed_ok_def)
      ultimately show ?thesis using False H1(1) f1 by (simp add: free_node_Suc del: free_node.simps(2))
    qed
  qed
qed simp

text \<open>C18: \<open>deallocate\<close> destroys the number of every node reachable from the root exactly once, as long as the
  stamps stay below \<open>2 ^ 28\<close>.\<close>

theorem deallocate_once:
  fixes M :: "'w NodeManager"
  assumes "nm_ok M" "a < length (nm_heap M)" "nm_globalStamp M + 1 < 2 ^ 28"
  shows "\<exists>freed M'. nm_deallocate a M = Some (freed, M') \<and> distinct freed \<and> set freed = reach (nm_bodies M) a"
proof -
  let ?gs = "nm_globalStamp M + 1"
  have wf: "graph_wf (nm_bodies M)" using assms(1) by (simp add: nm_ok_def)
  have gs: "nm_globalStamp (next_stamp M) = ?gs" "nm_heap (next_stamp M) = nm_heap M"
    using assms(1,3) by (simp_all add: next_stamp_def nm_ok_def)
  have "n_stamp (nm_heap M ! x) \<noteq> ?gs" if "x < length (nm_heap M)" for x
  proof -
    have "nm_heap M ! x \<in> set (nm_heap M)" using that by simp
    then have "n_stamp (nm_heap M ! x) \<le> nm_globalStamp M" using assms(1) by (simp add: nm_ok_def)
    then show ?thesis by simp
  qed
  moreover have "stamps_within ?gs (nm_heap M)" using assms(1) by (force simp: stamps_within_def nm_ok_def)
  ultimately have "freed_ok (nm_bodies M) ?gs (Suc a) (nm_heap M) []" by (simp add: freed_ok_def)
  moreover have "frees_ok (nm_bodies M) ?gs (free_node (Suc a) ?gs) a"
    using assms(2) by (intro free_node_ok [OF wf assms(3)]) simp_all
  ultimately obtain H freed where H: "free_node (Suc a) ?gs a (nm_heap M, []) = Some (H, freed)"
    "freed_ok (nm_bodies M) ?gs (Suc a) H freed" "set freed = reach (nm_bodies M) a"
    unfolding frees_ok_def by fastforce
  then show ?thesis unfolding nm_deallocate_def Let_def gs H(1) by (simp add: freed_ok_def)
qed

lemma deallocate_once_witness: "\<exists>freed M'. nm_deallocate (fst demo_graph) (snd demo_graph) = Some (freed, M') \<and> distinct freed"
  using deallocate_once [OF demo_graph_ok(1,2)] by (auto simp: demo_initial(4))

end
