(* ===== verification/Weighted_CNF.thy ===== *)
theory Weighted_CNF
  imports Problem_Types
begin

text \<open>
  \<open>src/formula/Formula.hpp\<close>, \<open>Formula.cpp\<close> and \<open>WeightedCNF.hpp\<close> of the discount library. A weighted
  formula is the record \<open>WeightedCNF\<close>, polymorphic in the weight type like the C++ template; \<open>Formula\<close>
  is the sum of the two instantiations the library uses (\<open>mpz_int\<close>, modelled by \<open>int\<close>, and
  \<open>mpf_float\<close>, a type parameter). What the GMP types do is a parameter where it is not arithmetic: the
  printed form of a weight and the conversion from \<open>mpz_int\<close> to \<open>mpf_float\<close>.
\<close>

section \<open>The formula\<close>

record 'w WeightedCNF =
  w_clauses :: "ILit list list"
  w_projectedVars :: "int list"
  w_isUnsat :: bool
  w_nbVar :: int
  w_weightLit :: "'w list"
  w_weightVar :: "'w list"

datatype FormulaTypeEnum = MP_NONE | MP_INT | MP_FLOAT

definition weightedCNF :: "int \<Rightarrow> 'w::plus list \<Rightarrow> int list \<Rightarrow> ILit list list \<Rightarrow> 'w WeightedCNF" where
  "weightedCNF n wl projected cls =
     \<lparr>w_clauses = cls, w_projectedVars = projected, w_isUnsat = False, w_nbVar = n, w_weightLit = wl,
      w_weightVar = map (\<lambda>i. vget wl (2 * i) + vget wl (2 * i + 1)) [0..n]\<rparr>"

definition getWeightLit :: "'w WeightedCNF \<Rightarrow> ILit \<Rightarrow> 'w" where
  "getWeightLit f l = vget (w_weightLit f) (ilit_intern l)"

definition getWeightVar :: "'w WeightedCNF \<Rightarrow> int \<Rightarrow> 'w" where
  "getWeightVar f v = vget (w_weightVar f) v"

definition setClauses :: "'w WeightedCNF \<Rightarrow> ILit list list \<Rightarrow> 'w WeightedCNF" where
  "setClauses f cls = f\<lparr>w_clauses := cls\<rparr>"

definition setNbVar :: "'w WeightedCNF \<Rightarrow> int \<Rightarrow> 'w WeightedCNF" where
  "setNbVar f n = f\<lparr>w_nbVar := n mod 2 ^ 32\<rparr>"

definition setUnsat :: "'w WeightedCNF \<Rightarrow> bool \<Rightarrow> 'w WeightedCNF" where
  "setUnsat f b = f\<lparr>w_isUnsat := b\<rparr>"

definition getInfoFormula :: "'w WeightedCNF \<Rightarrow> string" where
  "getInfoFormula f =
     ''c Information about the formula:'' @ [newline] @
     ''c Number of variables: '' @ show_int (w_nbVar f) @ [newline] @
     ''c Number of clauses: '' @ show_int (int (length (w_clauses f))) @ [newline]"

section \<open>Printing\<close>

definition display_cnf :: "('w \<Rightarrow> string) \<Rightarrow> 'w WeightedCNF \<Rightarrow> string" where
  "display_cnf showW f =
     ''weight list: '' @
     concat (map (\<lambda>i. let l = ilit_make i False in
       show_int i @ ''['' @ showW (getWeightVar f i) @ ''] '' @
       ilit_text l @ ''('' @ showW (getWeightLit f l) @ '') '' @
       ilit_text (ilit_neg l) @ ''('' @ showW (getWeightLit f (ilit_neg l)) @ '') '') [1..w_nbVar f]) @
     [newline] @
     ''projected var: '' @ concat (map (\<lambda>v. show_int v @ '' '') (w_projectedVars f)) @ [newline] @
     ''p cnf '' @ show_int (w_nbVar f) @ '' '' @ show_int (int (length (w_clauses f))) @ [newline] @
     concat (map (\<lambda>cl. concat (map (\<lambda>l. ilit_text l @ '' '') cl) @ ''0'' @ [newline]) (w_clauses f))"

record clause_stat =
  nbLits :: int
  nbBin :: int
  nbTer :: int
  nbUnit :: int
  nbMoreThree :: int

definition count_clause :: "'l list \<Rightarrow> clause_stat \<Rightarrow> clause_stat" where
  "count_clause c s =
     \<lparr>nbLits = nbLits s + int (length c),
      nbBin = (if length c = 2 then nbBin s + 1 else nbBin s),
      nbTer = (if length c = 3 then nbTer s + 1 else nbTer s),
      nbUnit = (if length c = 1 then nbUnit s + 1 else nbUnit s),
      nbMoreThree = (if 3 < length c then nbMoreThree s + 1 else nbMoreThree s)\<rparr>"

definition clause_stats :: "'l list list \<Rightarrow> clause_stat" where
  "clause_stats cls = fold count_clause cls \<lparr>nbLits = 0, nbBin = 0, nbTer = 0, nbUnit = 0, nbMoreThree = 0\<rparr>"

definition displayStat :: "string \<Rightarrow> 'w WeightedCNF \<Rightarrow> string" where
  "displayStat startLine f = (let s = clause_stats (w_clauses f) in
     startLine @ ''Number of variables: '' @ show_int (w_nbVar f) @ [newline] @
     startLine @ ''Number of clauses: '' @ show_int (int (length (w_clauses f))) @ [newline] @
     startLine @ ''Number of unit clauses: '' @ show_int (nbUnit s) @ [newline] @
     startLine @ ''Number of binary clauses: '' @ show_int (nbBin s) @ [newline] @
     startLine @ ''Number of ternary clauses: '' @ show_int (nbTer s) @ [newline] @
     startLine @ ''Number of clauses larger than 3: '' @ show_int (nbMoreThree s) @ [newline] @
     startLine @ ''Number of literals: '' @ show_int (nbLits s) @ [newline])"

section \<open>Derived formulas\<close>

definition getUnsatProblem :: "'w::plus WeightedCNF \<Rightarrow> 'w WeightedCNF" where
  "getUnsatProblem f =
     (let ret = setUnsat (weightedCNF (w_nbVar f) (w_weightLit f) (w_projectedVars f) []) True;
          l = ilit_make 1 False
      in setClauses ret [[l], [ilit_neg l]])"

text \<open>The array \<open>value\<close>: 0 for a free variable, the sign plus 1 for the variable of a unit (the last
  unit on a variable wins).\<close>

definition unit_values :: "int \<Rightarrow> ILit list \<Rightarrow> int list" where
  "unit_values n units =
     fold (\<lambda>l vals. vset vals (ilit_var l) (of_bool (ilit_sign l) + 1)) units (replicate (nat (n + 1)) 0)"

fun simplify_clause :: "int list \<Rightarrow> ILit list \<Rightarrow> ILit list \<Rightarrow> ILit list \<times> bool" where
  "simplify_clause vals [] scl = (scl, False)"
| "simplify_clause vals (l # ls) scl =
     (let scl' = (if vget vals (ilit_var l) = 0 then scl @ [l] else scl)
      in if of_bool (ilit_sign l) + 1 = vget vals (ilit_var l) then (scl', True)
         else simplify_clause vals ls scl')"

definition getConditionedFormula :: "'w::plus WeightedCNF \<Rightarrow> ILit list \<Rightarrow> 'w WeightedCNF" where
  "getConditionedFormula f units =
     (let vals = unit_values (w_nbVar f) units;
          scls = map (\<lambda>cl. simplify_clause vals cl []) (w_clauses f)
      in setClauses (weightedCNF (w_nbVar f) (w_weightLit f) (w_projectedVars f) [])
           (map (\<lambda>l. [l]) units @ map fst (filter (\<lambda>(scl, isSAT). \<not> isSAT) scls)))"

section \<open>Weights\<close>

definition computeWeightUnitFree :: "'w::comm_semiring_1 WeightedCNF \<Rightarrow> ILit list \<Rightarrow> int list \<Rightarrow> 'w" where
  "computeWeightUnitFree f units frees =
     fold (\<lambda>v tmp. tmp * getWeightVar f v) frees (fold (\<lambda>l tmp. tmp * getWeightLit f l) units 1)"

definition serialize_lit ::
  "('w::one \<Rightarrow> string) \<Rightarrow> 'w WeightedCNF \<Rightarrow> ILit \<Rightarrow> string \<times> int list \<Rightarrow> string \<times> int list" where
  "serialize_lit str f l out = (case out of (weights, couple) \<Rightarrow>
     if getWeightLit f l = 1 then (weights, couple)
     else (weights @ str (getWeightLit f l),
           couple @ [ilit_human l, int (length (str (getWeightLit f l)))]))"

definition serializeWeightedLits :: "('w::one \<Rightarrow> string) \<Rightarrow> 'w WeightedCNF \<Rightarrow> string \<times> int list" where
  "serializeWeightedLits str f =
     fold (\<lambda>i out. serialize_lit str f (ilit_make_false i) (serialize_lit str f (ilit_make_true i) out))
       [1..w_nbVar f] ([], [])"

text \<open>\<open>Formula\<close>, by the dynamic type of the object.\<close>

datatype 'f Formula = FInt "int WeightedCNF" | FFloat "'f WeightedCNF"

definition getType :: "'f Formula \<Rightarrow> FormulaTypeEnum" where
  "getType f = (case f of FFloat _ \<Rightarrow> MP_FLOAT | FInt _ \<Rightarrow> MP_INT)"

definition getWeightsInFloat ::
  "(int \<Rightarrow> 'f) \<Rightarrow> 'f Formula \<Rightarrow> 'f list \<times> 'f list \<Rightarrow> 'f list \<times> 'f list" where
  "getWeightsInFloat toFloat f out = (case f of
     FFloat w \<Rightarrow> (w_weightLit w, w_weightVar w)
   | FInt w \<Rightarrow> (fst out @ map toFloat (w_weightLit w), snd out @ map toFloat (w_weightVar w)))"

section \<open>Conditioning\<close>

definition wf_wcnf :: "'w WeightedCNF \<Rightarrow> bool" where
  "wf_wcnf f \<longleftrightarrow> 0 \<le> w_nbVar f \<and> w_nbVar f < 2 ^ 30 \<and>
     (\<forall>cl\<in>set (w_clauses f). \<forall>l\<in>set cl. wf_ilit (w_nbVar f) l)"

text \<open>Every entry of \<open>value\<close> is 0 or agrees with the evaluation \<open>m\<close>.\<close>

definition values_agree :: "(int \<Rightarrow> bool) \<Rightarrow> int \<Rightarrow> int list \<Rightarrow> bool" where
  "values_agree m n a \<longleftrightarrow> length a = nat (n + 1) \<and>
     (\<forall>v. 0 \<le> v \<and> v \<le> n \<longrightarrow> vget a v = 0 \<or> vget a v = of_bool (\<not> m v) + 1)"

lemma values_agree_init: "values_agree m n (replicate (nat (n + 1)) 0)"
  by (auto simp: values_agree_def vget_replicate)

lemma values_agree_set:
  assumes "values_agree m n a" "wf_ilit n l" "ilit_true m l"
  shows "values_agree m n (vset a (ilit_var l) (of_bool (ilit_sign l) + 1))"
proof -
  have v: "vin a (ilit_var l)" "0 \<le> ilit_var l" using assms(1,2) by (auto simp: values_agree_def wf_ilit_def vin_def)
  have s: "ilit_sign l = (\<not> m (ilit_var l))" using assms(3) by (simp add: ilit_true_def split: if_splits)
  show ?thesis
    unfolding values_agree_def
  proof (intro conjI allI impI)
    fix w assume w: "0 \<le> w \<and> w \<le> n"
    show "vget (vset a (ilit_var l) (of_bool (ilit_sign l) + 1)) w = 0 \<or>
      vget (vset a (ilit_var l) (of_bool (ilit_sign l) + 1)) w = of_bool (\<not> m w) + 1"
      using v s w assms(1) by (cases "w = ilit_var l") (auto simp: vget_vset_same vget_vset_other values_agree_def)
  qed (use assms(1) in \<open>simp add: values_agree_def\<close>)
qed

lemma values_agree_fold:
  "values_agree m n a \<Longrightarrow> list_all (wf_ilit n) units \<Longrightarrow> cube_true (ilit_true m) units \<Longrightarrow>
   values_agree m n (fold (\<lambda>l vals. vset vals (ilit_var l) (of_bool (ilit_sign l) + 1)) units a)"
  by (induction units arbitrary: a) (simp_all add: values_agree_set)

lemma values_agree_units:
  "list_all (wf_ilit n) units \<Longrightarrow> cube_true (ilit_true m) units \<Longrightarrow> values_agree m n (unit_values n units)"
  unfolding unit_values_def by (rule values_agree_fold [OF values_agree_init])

lemma simplify_clause_sound:
  assumes "values_agree m n vals" "\<forall>l\<in>set cl. wf_ilit n l"
  shows "case simplify_clause vals cl scl of (scl', isSAT) \<Rightarrow>
    if isSAT then clause_true (ilit_true m) cl
    else clause_true (ilit_true m) scl' \<longleftrightarrow> clause_true (ilit_true m) scl \<or> clause_true (ilit_true m) cl"
  using assms(2)
proof (induction cl arbitrary: scl)
  case (Cons l cl)
  then have l: "wf_ilit n l" and cl: "\<forall>l\<in>set cl. wf_ilit n l" by simp_all
  let ?x = "vget vals (ilit_var l)"
  have x: "?x = 0 \<or> ?x = of_bool (\<not> m (ilit_var l)) + 1"
    using l assms(1) by (simp add: values_agree_def wf_ilit_def)
  show ?case
  proof (cases "of_bool (ilit_sign l) + 1 = ?x")
    case True
    then have "?x \<noteq> 0" by (cases "ilit_sign l") auto
    then have "ilit_true m l" using x True by (auto simp: ilit_true_def split: if_splits)
    then show ?thesis using True by (simp add: Let_def)
  next
    case False
    define scl1 where "scl1 = (if ?x = 0 then scl @ [l] else scl)"
    have "ilit_true m l \<Longrightarrow> ?x = 0" using x False by (auto simp: ilit_true_def split: if_splits)
    then have "clause_true (ilit_true m) scl1 \<or> clause_true (ilit_true m) cl \<longleftrightarrow>
      clause_true (ilit_true m) scl \<or> clause_true (ilit_true m) (l # cl)"
      by (auto simp: scl1_def truth_simps)
    moreover have "simplify_clause vals (l # cl) scl = simplify_clause vals cl scl1"
      using False by (simp add: Let_def scl1_def)
    ultimately show ?thesis using Cons.IH [OF cl, of scl1]
      by (cases "simplify_clause vals cl scl1") (auto split: if_splits)
  qed
qed simp

lemma simplified_clauses:
  assumes "values_agree m n vals" "\<forall>cl\<in>set cls. \<forall>l\<in>set cl. wf_ilit n l"
  shows "cnf_true (ilit_true m)
      (map fst (filter (\<lambda>(scl, isSAT). \<not> isSAT) (map (\<lambda>cl. simplify_clause vals cl []) cls))) \<longleftrightarrow>
    cnf_true (ilit_true m) cls"
  using assms(2)
proof (induction cls)
  case (Cons cl cls)
  obtain scl isSAT where e: "simplify_clause vals cl [] = (scl, isSAT)" by (cases "simplify_clause vals cl []")
  have "if isSAT then clause_true (ilit_true m) cl
    else clause_true (ilit_true m) scl \<longleftrightarrow> clause_true (ilit_true m) cl"
    using simplify_clause_sound [OF assms(1), of cl "[]"] Cons.prems by (simp add: e)
  then show ?case using Cons.IH Cons.prems by (cases isSAT) (simp_all add: e)
qed simp

lemma unit_clauses_true: "cnf_true ev (map (\<lambda>l. [l]) units) \<longleftrightarrow> cube_true ev units"
  by (simp add: truth_simps)

text \<open>The clauses left no longer mention an assigned variable.\<close>

lemma fold_values_set:
  assumes "list_all (wf_ilit n) units" "length a = nat (n + 1)"
    "v \<in> ilit_var ` set units \<or> 0 \<le> v \<and> vget a v \<noteq> 0"
  shows "vget (fold (\<lambda>l vals. vset vals (ilit_var l) (of_bool (ilit_sign l) + 1)) units a) v \<noteq> (0::int)"
  using assms
proof (induction units arbitrary: a)
  case (Cons l units)
  let ?b = "vset a (ilit_var l) (of_bool (ilit_sign l) + 1)"
  have l: "vin a (ilit_var l)" "0 \<le> ilit_var l"
    using Cons.prems(1,2) by (auto simp: wf_ilit_def vin_def)
  have "vget ?b (ilit_var l) \<noteq> 0" using l by (simp add: vget_vset_same)
  then have "v \<in> ilit_var ` set units \<or> 0 \<le> v \<and> vget ?b v \<noteq> 0"
    using Cons.prems(3) l by (cases "v = ilit_var l") (auto simp: vget_vset_other)
  then show ?case using Cons.IH [of ?b] Cons.prems(1,2) by simp
qed simp

lemma simplify_clause_free:
  "simplify_clause vals cl scl = (scl', isSAT) \<Longrightarrow> \<forall>l\<in>set scl. vget vals (ilit_var l) = 0 \<Longrightarrow>
   \<forall>l\<in>set scl'. vget vals (ilit_var l) = 0"
proof (induction cl arbitrary: scl)
  case (Cons l cl)
  define scl1 where "scl1 = (if vget vals (ilit_var l) = 0 then scl @ [l] else scl)"
  have "\<forall>l\<in>set scl1. vget vals (ilit_var l) = 0" using Cons.prems(2) by (simp add: scl1_def)
  moreover have "simplify_clause vals (l # cl) scl =
      (if of_bool (ilit_sign l) + 1 = vget vals (ilit_var l) then (scl1, True) else simplify_clause vals cl scl1)"
    by (simp add: Let_def scl1_def)
  ultimately show ?case using Cons.IH [of scl1] Cons.prems(1)
    by (cases "of_bool (ilit_sign l) + 1 = vget vals (ilit_var l)") simp_all
qed simp

text \<open>C12: the conditioned formula consists of the units and of clauses over the unassigned variables, and
  its models are the models of the formula in which the units are true; contradicting units leave none.\<close>

theorem conditioned_formula:
  assumes "wf_wcnf f" "list_all (wf_ilit (w_nbVar f)) units"
  shows "(cnf_true (ilit_true m) (w_clauses (getConditionedFormula f units)) \<longleftrightarrow>
      cube_true (ilit_true m) units \<and> cnf_true (ilit_true m) (w_clauses f)) \<and>
    take (length units) (w_clauses (getConditionedFormula f units)) = map (\<lambda>l. [l]) units \<and>
    (\<forall>cl\<in>set (drop (length units) (w_clauses (getConditionedFormula f units))).
       \<forall>l\<in>set cl. ilit_var l \<notin> ilit_var ` set units)"
proof -
  let ?vals = "unit_values (w_nbVar f) units"
  let ?scls = "map (\<lambda>cl. simplify_clause ?vals cl []) (w_clauses f)"
  let ?rest = "map fst (filter (\<lambda>(scl, isSAT). \<not> isSAT) ?scls)"
  have eq: "w_clauses (getConditionedFormula f units) = map (\<lambda>l. [l]) units @ ?rest"
    by (simp add: getConditionedFormula_def setClauses_def Let_def)
  have "cube_true (ilit_true m) units \<Longrightarrow>
      cnf_true (ilit_true m) ?rest = cnf_true (ilit_true m) (w_clauses f)"
    using assms simplified_clauses [OF values_agree_units] by (simp add: wf_wcnf_def)
  then have models: "cnf_true (ilit_true m) (w_clauses (getConditionedFormula f units)) \<longleftrightarrow>
      cube_true (ilit_true m) units \<and> cnf_true (ilit_true m) (w_clauses f)"
    unfolding eq cnf_true_append unit_clauses_true by blast
  have "ilit_var l \<notin> ilit_var ` set units" if "scl \<in> set ?rest" "l \<in> set scl" for scl l
  proof -
    obtain cl where "simplify_clause ?vals cl [] = (scl, False)" using \<open>scl \<in> set ?rest\<close> by force
    then have "vget ?vals (ilit_var l) = 0" using simplify_clause_free \<open>l \<in> set scl\<close> by (metis empty_iff empty_set)
    then show ?thesis using fold_values_set [OF assms(2), of "replicate (nat (w_nbVar f + 1)) 0" "ilit_var l"]
      by (auto simp: unit_values_def)
  qed
  then show ?thesis using models by (simp add: eq)
qed

lemma conditioned_formula_witness:
  "cnf_true (ilit_true (\<lambda>v. v = 1))
    (w_clauses (getConditionedFormula (weightedCNF 2 (replicate 6 (1::int)) [] [[ilit_make 1 False, ilit_make 2 False]])
      [ilit_make 1 False]))"
proof -
  let ?f = "weightedCNF 2 (replicate 6 (1::int)) [] [[ilit_make 1 False, ilit_make 2 False]]"
  have "wf_wcnf ?f" "list_all (wf_ilit (w_nbVar ?f)) [ilit_make 1 False]"
    by (simp_all add: wf_wcnf_def weightedCNF_def wf_ilit_def)
  then show ?thesis using conditioned_formula [of ?f "[ilit_make 1 False]" "\<lambda>v. v = 1"]
    by (simp add: weightedCNF_def ilit_true_def)
qed

text \<open>The unsatisfiable problem has no model, whatever the number of variables.\<close>

theorem unsat_problem: "\<not> cnf_true (ilit_true m) (w_clauses (getUnsatProblem f)) \<and> w_isUnsat (getUnsatProblem f)"
  by (simp add: getUnsatProblem_def Let_def setClauses_def setUnsat_def ilit_true_def)

section \<open>Statistics\<close>

lemma clause_stats_fold:
  "fold count_clause cls s =
     \<lparr>nbLits = nbLits s + int (sum_list (map length cls)),
      nbBin = nbBin s + int (length (filter (\<lambda>c. length c = 2) cls)),
      nbTer = nbTer s + int (length (filter (\<lambda>c. length c = 3) cls)),
      nbUnit = nbUnit s + int (length (filter (\<lambda>c. length c = 1) cls)),
      nbMoreThree = nbMoreThree s + int (length (filter (\<lambda>c. 3 < length c) cls))\<rparr>"
  by (induction cls arbitrary: s) (simp_all add: count_clause_def)

text \<open>The statistics count every clause once: with the empty clauses, the four classes of length add up
  to the number of clauses.\<close>

theorem clause_stats_partition:
  "nbUnit (clause_stats cls) + nbBin (clause_stats cls) + nbTer (clause_stats cls) +
     nbMoreThree (clause_stats cls) + int (length (filter (\<lambda>c. c = []) cls)) = int (length cls)"
proof (induction cls)
  case (Cons c cls)
  have "length c = 0 \<or> length c = 1 \<or> length c = 2 \<or> length c = 3 \<or> 3 < length c" by linarith
  then show ?case using Cons.IH unfolding clause_stats_def clause_stats_fold by auto
qed (simp add: clause_stats_def)

section \<open>Weights of units and free variables\<close>

definition wf_weights :: "'w::plus WeightedCNF \<Rightarrow> bool" where
  "wf_weights f \<longleftrightarrow> 0 \<le> w_nbVar f \<and> w_nbVar f < 2 ^ 30 \<and> length (w_weightLit f) = nat (2 * (w_nbVar f + 1)) \<and>
     w_weightVar f = map (\<lambda>i. vget (w_weightLit f) (2 * i) + vget (w_weightLit f) (2 * i + 1)) [0..w_nbVar f]"

lemma nth_upto_list: "0 \<le> i \<Longrightarrow> i \<le> n \<Longrightarrow> [0..n] ! nat i = i"
  by (simp add: nth_upto)

lemma weight_var:
  assumes "wf_weights f" "0 \<le> v" "v \<le> w_nbVar f"
  shows "getWeightVar f v = getWeightLit f (ilit_make v False) + getWeightLit f (ilit_make v True)"
proof -
  have "nat v < length [0..w_nbVar f]" using assms by simp
  then have "getWeightVar f v = vget (w_weightLit f) (2 * v) + vget (w_weightLit f) (2 * v + 1)"
    using assms by (simp add: getWeightVar_def wf_weights_def vget_def [of "map _ _"] nth_upto_list)
  then show ?thesis using assms by (simp add: getWeightLit_def wf_weights_def)
qed

text \<open>The product of the weights of a list of literals, and the literals a choice of signs makes.\<close>

definition lits_weight :: "'w::comm_semiring_1 WeightedCNF \<Rightarrow> ILit list \<Rightarrow> 'w" where
  "lits_weight f ls = prod_list (map (getWeightLit f) ls)"

definition choose_signs :: "int list \<Rightarrow> bool list \<Rightarrow> ILit list" where
  "choose_signs vs ss = map (\<lambda>(v, s). ilit_make v s) (zip vs ss)"

lemma lits_weight_Cons [simp]: "lits_weight f (l # ls) = getWeightLit f l * lits_weight f ls"
  by (simp add: lits_weight_def)

lemma lits_weight_append [simp]: "lits_weight f (a @ b) = lits_weight f a * lits_weight f b"
  by (simp add: lits_weight_def)

lemma fold_weight_units: "fold (\<lambda>l tmp. tmp * getWeightLit f l) units x = x * lits_weight f units"
  by (induction units arbitrary: x) (simp_all add: lits_weight_def mult.assoc)

lemma free_sum:
  assumes "wf_weights f" "\<forall>v\<in>set vs. 0 \<le> v \<and> v \<le> w_nbVar f"
  shows "fold (\<lambda>v tmp. tmp * getWeightVar f v) vs x =
    x * (\<Sum>ss\<leftarrow>List.n_lists (length vs) [False, True]. lits_weight f (choose_signs vs ss))"
  using assms(2)
proof (induction vs arbitrary: x)
  case Nil
  then show ?case by (simp add: choose_signs_def lits_weight_def)
next
  case (Cons v vs)
  have cs: "choose_signs (v # vs) (s # ss) = ilit_make v s # choose_signs vs ss" for s ss
    by (simp add: choose_signs_def)
  let ?L = "List.n_lists (length vs) [False, True]"
  let ?S = "\<Sum>ss\<leftarrow>?L. lits_weight f (choose_signs vs ss)"
  have "(\<Sum>ss\<leftarrow>concat (map (\<lambda>ys. map (\<lambda>y. y # ys) [False, True]) Ls). lits_weight f (choose_signs (v # vs) ss)) =
    (\<Sum>ss\<leftarrow>Ls. getWeightVar f v * lits_weight f (choose_signs vs ss))" for Ls
    using weight_var [OF assms(1), of v] Cons.prems by (induction Ls) (simp_all add: cs algebra_simps)
  then have "(\<Sum>ss\<leftarrow>List.n_lists (length (v # vs)) [False, True]. lits_weight f (choose_signs (v # vs) ss)) =
    (\<Sum>ss\<leftarrow>?L. getWeightVar f v * lits_weight f (choose_signs vs ss))"
    by simp
  also have "\<dots> = getWeightVar f v * ?S" by (simp add: sum_list_const_mult)
  finally show ?case using Cons.IH [of "x * getWeightVar f v"] Cons.prems by (simp add: mult.assoc)
qed

text \<open>The weight of units and free variables is the sum, over all ways to complete the units by a sign for
  every free variable, of the product of the literals' weights.\<close>

theorem weight_unit_free:
  assumes "wf_weights f" "\<forall>v\<in>set frees. 0 \<le> v \<and> v \<le> w_nbVar f"
  shows "computeWeightUnitFree f units frees =
    (\<Sum>ss\<leftarrow>List.n_lists (length frees) [False, True]. lits_weight f (units @ choose_signs frees ss))"
  using free_sum [OF assms, of "lits_weight f units"]
  by (simp add: computeWeightUnitFree_def fold_weight_units sum_list_const_mult)

lemma weight_unit_free_witness:
  "computeWeightUnitFree (weightedCNF 2 [0, 0, 2, 3, 5, 7::int] [] []) [ilit_make 1 True] [2] =
    (\<Sum>ss\<leftarrow>List.n_lists 1 [False, True].
       lits_weight (weightedCNF 2 [0, 0, 2, 3, 5, 7::int] [] []) ([ilit_make 1 True] @ choose_signs [2] ss))"
  using weight_unit_free [of "weightedCNF 2 [0, 0, 2, 3, 5, 7::int] [] []" "[2]" "[ilit_make 1 True]"]
  by (simp add: wf_weights_def weightedCNF_def)

section \<open>The serialised weights\<close>

text \<open>What a reader of the two vectors does with them: cut the characters into the pieces the sizes tell.\<close>

fun decode_weights :: "string \<Rightarrow> int list \<Rightarrow> (int \<times> string) list" where
  "decode_weights w (l # k # couple) = (l, take (nat k) w) # decode_weights (drop (nat k) w) couple"
| "decode_weights w couple = []"

definition weighted_entries :: "('w::one \<Rightarrow> string) \<Rightarrow> 'w WeightedCNF \<Rightarrow> ILit list \<Rightarrow> (int \<times> string) list" where
  "weighted_entries str f ls =
     map (\<lambda>l. (ilit_human l, str (getWeightLit f l))) (filter (\<lambda>l. getWeightLit f l \<noteq> 1) ls)"

definition encode_entries :: "(int \<times> string) list \<Rightarrow> string \<times> int list" where
  "encode_entries es = (concat (map snd es), concat (map (\<lambda>(l, t). [l, int (length t)]) es))"

lemma decode_encode: "decode_weights (fst (encode_entries es)) (snd (encode_entries es)) = es"
  by (induction es) (auto simp: encode_entries_def)

lemma serialize_lit_entries:
  "serialize_lit str f l (encode_entries es) = encode_entries (es @ weighted_entries str f [l])"
  by (simp add: serialize_lit_def encode_entries_def weighted_entries_def)

lemma weighted_entries_pair:
  "weighted_entries str f (a # b # ls) =
    weighted_entries str f [a] @ weighted_entries str f [b] @ weighted_entries str f ls"
  by (simp add: weighted_entries_def)

lemma serialize_entries:
  "fold (\<lambda>i out. serialize_lit str f (ilit_make_false i) (serialize_lit str f (ilit_make_true i) out)) vs (encode_entries es) =
   encode_entries (es @ weighted_entries str f (concat (map (\<lambda>i. [ilit_make_true i, ilit_make_false i]) vs)))"
proof (induction vs arbitrary: es)
  case (Cons v vs)
  let ?t = "ilit_make_true v" and ?f = "ilit_make_false v"
  have "fold (\<lambda>i out. serialize_lit str f (ilit_make_false i) (serialize_lit str f (ilit_make_true i) out)) (v # vs)
      (encode_entries es) =
    encode_entries ((es @ weighted_entries str f [?t] @ weighted_entries str f [?f]) @
      weighted_entries str f (concat (map (\<lambda>i. [ilit_make_true i, ilit_make_false i]) vs)))"
    by (simp only: fold_simps serialize_lit_entries Cons.IH append_assoc)
  then show ?case
    by (simp only: append_assoc list.map concat.simps append.simps weighted_entries_pair [of str f ?t ?f])
qed (simp add: weighted_entries_def)

definition all_lits :: "int \<Rightarrow> ILit list" where
  "all_lits n = concat (map (\<lambda>i. [ilit_make_true i, ilit_make_false i]) [1..n])"

lemma serialize_decoded:
  "(case serializeWeightedLits str f of (w, couple) \<Rightarrow> decode_weights w couple) =
    weighted_entries str f (all_lits (w_nbVar f))"
  using serialize_entries [of str f "[1..w_nbVar f]" "[]"] decode_encode
  by (simp add: serializeWeightedLits_def all_lits_def encode_entries_def [of "[]"] split: prod.splits)
     (metis fst_conv snd_conv)

lemma all_lits_iff:
  assumes "n < 2 ^ 30"
  shows "l \<in> set (all_lits n) \<longleftrightarrow> wf_ilit n l"
proof
  assume "l \<in> set (all_lits n)"
  then show "wf_ilit n l" using assms by (auto simp: all_lits_def wf_ilit_def make_true_false [symmetric])
next
  assume l: "wf_ilit n l"
  then have "ilit_var l \<in> set [1..n]" by (simp add: wf_ilit_def)
  then show "l \<in> set (all_lits n)" using wf_ilit_make [OF l]
    unfolding all_lits_def by (cases "ilit_sign l") (force simp: make_true_false)+
qed

lemma human_inj:
  assumes "wf_ilit n a" "wf_ilit n b" "ilit_human a = ilit_human b"
  shows "a = b"
  using assms by (intro ilit_eqI) (auto simp: wf_ilit_def ilit_human_def ilit_sign_def split: if_splits)

lemma map_of_entries:
  assumes "n < 2 ^ 30" "wf_ilit n l" "set ls \<subseteq> Collect (wf_ilit n)"
  shows "map_of (weighted_entries str f ls) (ilit_human l) =
    (if l \<in> set ls \<and> getWeightLit f l \<noteq> 1 then Some (str (getWeightLit f l)) else None)"
  using assms(3)
proof (induction ls)
  case (Cons a ls)
  then show ?case using human_inj [of n a l] assms(2) by (auto simp: weighted_entries_def)
qed (simp add: weighted_entries_def)

text \<open>C13: a reader of the serialised vectors finds the weight of every literal of the formula; a literal it finds
  nothing for has weight 1.\<close>

theorem serialize_roundtrip:
  assumes "w_nbVar f < 2 ^ 30" "\<And>x. parse (str x) = x" "wf_ilit (w_nbVar f) l"
  shows "(case map_of (case serializeWeightedLits str f of (w, couple) \<Rightarrow> decode_weights w couple) (ilit_human l)
      of None \<Rightarrow> 1 | Some t \<Rightarrow> parse t) = getWeightLit f l"
proof -
  have "set (all_lits (w_nbVar f)) \<subseteq> Collect (wf_ilit (w_nbVar f))" "l \<in> set (all_lits (w_nbVar f))"
    using all_lits_iff [OF assms(1)] assms(3) by auto
  then show ?thesis unfolding serialize_decoded
    using map_of_entries [OF assms(1,3), of "all_lits (w_nbVar f)" str f] assms(2) by simp
qed

lemma serialize_roundtrip_witness:
  "(case map_of (case serializeWeightedLits (\<lambda>k. replicate k CHR ''x'') (weightedCNF 1 [0, 0, 1, 2 :: nat] [] [])
      of (w, couple) \<Rightarrow> decode_weights w couple) (- 1)
    of None \<Rightarrow> 1 | Some t \<Rightarrow> length t) = 2"
  using serialize_roundtrip [of "weightedCNF 1 [0, 0, 1, 2 :: nat] [] []" length "\<lambda>k. replicate k CHR ''x''" "ilit_make 1 True"]
  by (simp add: weightedCNF_def getWeightLit_def wf_ilit_def vget_def)

end
