(* ===== verification/D4_Problem.thy ===== *)
theory D4_Problem
  imports Weighted_CNF
begin

text \<open>
  \<open>3rdParty/d4/src/problem\<close>: the enumerations of problem types with their names, \<open>ProblemManager\<close> (weights and
  variable sets) and \<open>ProblemManagerCnf\<close>. The file-reading constructors take the result of the parser; \<open>mpf_float\<close>
  is the type parameter.
\<close>

section \<open>Problem types\<close>

datatype ProblemInputType = PB_CNF | PB_TCNF | PB_CIRC | PB_QBF | PB_NONE

datatype factory_error = FactoryException string

definition inputTypeName :: "ProblemInputType \<Rightarrow> factory_error + string" where
  "inputTypeName m =
     (if m = PB_CNF then Inr ''cnf''
      else if m = PB_CIRC then Inr ''circuit''
      else if m = PB_TCNF then Inr ''cnf+theory''
      else if m = PB_QBF then Inr ''qbf''
      else Inl (FactoryException ''Operator Type unknown''))"

text \<open>What is printed on the error stream before a name is refused.\<close>

definition esc :: string where
  "esc = [char_of (27 :: nat)]"

definition inputPossibleOptions :: string where
  "inputPossibleOptions =
     esc @ ''[1m'' @ esc @ ''[31mProblem types handling by d4: '' @ esc @ ''[0m'' @ [newline] @
     [CHR 0x09] @ ''- CNF formula following the Dimacs format -> cnf'' @ [newline] @
     [CHR 0x09] @ ''- Circuit formula -> circuit'' @ [newline] @
     [CHR 0x09] @ ''- CNF formula together with a CNF theory following the Dimacs format -> tcnf'' @ [newline] @
     [CHR 0x09] @ ''- QBF formula following the QDimacs format -> qcnf'' @ [newline]"

definition translatePossibleOptions :: string where
  "translatePossibleOptions =
     esc @ ''[1m'' @ esc @ ''[31mTranslation type handling by d4: '' @ esc @ ''[0m'' @ [newline] @
     [CHR 0x09] @ ''- Do not translate the formula -> none'' @ [newline] @
     [CHR 0x09] @ ''- Translate the formula into a CNF formula -> cnf'' @ [newline] @
     [CHR 0x09] @ ''- Translate the formula into a projected CNF formula -> pcnf'' @ [newline]"

definition getInputType :: "string \<Rightarrow> factory_error + ProblemInputType" where
  "getInputType m =
     (if m = ''cnf'' then Inr PB_CNF
      else if m = ''circuit'' then Inr PB_CIRC
      else if m = ''tcnf'' then Inr PB_TCNF
      else if m = ''qbf'' then Inr PB_QBF
      else Inl (FactoryException ''Operator Type unknown''))"

datatype ProblemTranslateType = TRANSLATE_CNF | TRANSLATE_PCNF | TRANSLATE_NONE

definition translateTypeName :: "ProblemTranslateType \<Rightarrow> factory_error + string" where
  "translateTypeName m =
     (if m = TRANSLATE_CNF then Inr ''cnf''
      else if m = TRANSLATE_PCNF then Inr ''pcnf''
      else if m = TRANSLATE_NONE then Inr ''none''
      else Inl (FactoryException ''Type unknown''))"

definition getTranslateType :: "string \<Rightarrow> factory_error + ProblemTranslateType" where
  "getTranslateType m =
     (if m = ''cnf'' then Inr TRANSLATE_CNF
      else if m = ''pcnf'' then Inr TRANSLATE_PCNF
      else if m = ''none'' then Inr TRANSLATE_NONE
      else Inl (FactoryException ''Translation type unknown''))"

section \<open>The problem\<close>

record 'w ProblemManager =
  pm_nbVar :: int
  pm_weightLit :: "'w list"
  pm_weightLitIm :: "'w list"
  pm_weightVar :: "'w list"
  pm_selected :: "int list"
  pm_maxVar :: "int list"
  pm_indVar :: "int list"
  pm_order :: "int list"
  pm_isUnsat :: bool
  pm_clauses :: "ILit list list"

definition pm_getWeightLit :: "'w ProblemManager \<Rightarrow> ILit \<Rightarrow> 'w" where
  "pm_getWeightLit p l = vget (pm_weightLit p) (ilit_intern l)"

definition pm_getWeightVar :: "'w ProblemManager \<Rightarrow> int \<Rightarrow> 'w" where
  "pm_getWeightVar p v = vget (pm_weightVar p) v"

definition getNbSelectedVar :: "'w ProblemManager \<Rightarrow> int" where
  "getNbSelectedVar p = int (length (pm_selected p))"

text \<open>The loop runs over the variables 0 to \<open>m_nbVar - 1\<close>.\<close>

definition pm_isFloat :: "'w::one ProblemManager \<Rightarrow> bool" where
  "pm_isFloat p = list_ex (\<lambda>i. let l = ilit_make_true i in
     pm_getWeightLit p l \<noteq> 1 \<or> pm_getWeightLit p (ilit_neg l) \<noteq> 1) [0..pm_nbVar p - 1]"

definition pm_computeWeightUnitFree :: "'w::comm_semiring_1 ProblemManager \<Rightarrow> ILit list \<Rightarrow> int list \<Rightarrow> 'w" where
  "pm_computeWeightUnitFree p units frees =
     fold (\<lambda>v tmp. tmp * pm_getWeightVar p v) frees (fold (\<lambda>l tmp. tmp * pm_getWeightLit p l) units 1)"

section \<open>CNF problems\<close>

text \<open>What the parser leaves in the object: the clauses, the weights of the literals, the three variable lists, and
  the number of variables it returns.\<close>

record 'w parsed_cnf =
  pc_nbVar :: int
  pc_clauses :: "ILit list list"
  pc_weightLit :: "'w list"
  pc_weightLitIm :: "'w list"
  pc_selected :: "int list"
  pc_maxVar :: "int list"
  pc_indVar :: "int list"

definition pm_of_file :: "'w::plus parsed_cnf \<Rightarrow> 'w ProblemManager" where
  "pm_of_file c =
     \<lparr>pm_nbVar = pc_nbVar c, pm_weightLit = pc_weightLit c, pm_weightLitIm = pc_weightLitIm c,
      pm_weightVar = map (\<lambda>i. vget (pc_weightLit c) (2 * i) + vget (pc_weightLit c) (2 * i + 1)) [0..pc_nbVar c],
      pm_selected = pc_selected c, pm_maxVar = pc_maxVar c, pm_indVar = pc_indVar c,
      pm_order = [0..pc_nbVar c], pm_isUnsat = False, pm_clauses = pc_clauses c\<rparr>"

definition pm_empty :: "'w ProblemManager" where
  "pm_empty = \<lparr>pm_nbVar = 0, pm_weightLit = [], pm_weightLitIm = [], pm_weightVar = [], pm_selected = [],
     pm_maxVar = [], pm_indVar = [], pm_order = [], pm_isUnsat = False, pm_clauses = []\<rparr>"

definition pm_copy :: "'w ProblemManager \<Rightarrow> 'w ProblemManager" where
  "pm_copy p = p\<lparr>pm_isUnsat := False, pm_clauses := []\<rparr>"

definition pm_of_parts_max ::
  "int \<Rightarrow> 'w list \<Rightarrow> 'w list \<Rightarrow> int list \<Rightarrow> int list \<Rightarrow> int list \<Rightarrow> 'w ProblemManager" where
  "pm_of_parts_max n wl wv selected maxV indV =
     pm_empty\<lparr>pm_nbVar := n, pm_weightLit := wl, pm_weightVar := wv, pm_selected := selected,
       pm_maxVar := maxV, pm_indVar := indV, pm_isUnsat := False\<rparr>"

definition pm_of_parts :: "int \<Rightarrow> 'w list \<Rightarrow> 'w list \<Rightarrow> int list \<Rightarrow> 'w ProblemManager" where
  "pm_of_parts n wl wv selected =
     pm_empty\<lparr>pm_nbVar := n, pm_weightLit := wl, pm_weightVar := wv, pm_selected := selected,
       pm_isUnsat := False\<rparr>"

definition pm_getUnsatProblem :: "'w ProblemManager \<Rightarrow> 'w ProblemManager" where
  "pm_getUnsatProblem p = (let ret = (pm_copy p)\<lparr>pm_isUnsat := True\<rparr>; l = ilit_make 1 False in
     ret\<lparr>pm_clauses := pm_clauses ret @ [[l]] @ [[ilit_neg l]]\<rparr>)"

definition pm_getConditionedFormula :: "'w ProblemManager \<Rightarrow> ILit list \<Rightarrow> 'w ProblemManager" where
  "pm_getConditionedFormula p units =
     (let ret = pm_copy p;
          vals = unit_values (pm_nbVar p) units;
          scls = map (\<lambda>cl. simplify_clause vals cl []) (pm_clauses p)
      in ret\<lparr>pm_clauses := pm_clauses ret @ map (\<lambda>l. [l]) units @
               map fst (filter (\<lambda>(scl, isSAT). \<not> isSAT) scls)\<rparr>)"

definition pm_display :: "('w \<Rightarrow> string) \<Rightarrow> 'w ProblemManager \<Rightarrow> string" where
  "pm_display showW p =
     ''weight list: '' @
     concat (map (\<lambda>i. let l = ilit_make i False in
       show_int i @ ''['' @ showW (pm_getWeightVar p i) @ ''] '' @
       ilit_text l @ ''('' @ showW (pm_getWeightLit p l) @ '') '' @
       ilit_text (ilit_neg l) @ ''('' @ showW (pm_getWeightLit p (ilit_neg l)) @ '') '') [1..pm_nbVar p]) @
     [newline] @
     ''selected var: '' @ concat (map (\<lambda>v. show_int v @ '' '') (pm_selected p)) @ [newline] @
     ''p cnf '' @ show_int (pm_nbVar p) @ '' '' @ show_int (int (length (pm_clauses p))) @ [newline] @
     concat (map (\<lambda>cl. concat (map (\<lambda>l. ilit_text l @ '' '') cl) @ ''0'' @ [newline]) (pm_clauses p))"

definition pm_displayStat :: "string \<Rightarrow> 'w ProblemManager \<Rightarrow> string" where
  "pm_displayStat startLine p = (let s = clause_stats (pm_clauses p) in
     startLine @ ''Number of variables: '' @ show_int (pm_nbVar p) @ [newline] @
     startLine @ ''Number of clauses: '' @ show_int (int (length (pm_clauses p))) @ [newline] @
     startLine @ ''Number of unit clauses: '' @ show_int (nbUnit s) @ [newline] @
     startLine @ ''Number of binary clauses: '' @ show_int (nbBin s) @ [newline] @
     startLine @ ''Number of ternary clauses: '' @ show_int (nbTer s) @ [newline] @
     startLine @ ''Number of clauses larger than 3: '' @ show_int (nbMoreThree s) @ [newline] @
     startLine @ ''Number of literals: '' @ show_int (nbLits s) @ [newline])"

text \<open>\<open>makeProblemManager\<close>: which class reads the file.\<close>

datatype problem_class = CnfProblem | ErosionCnfProblem | CircuitProblem | QbfProblem

definition makeProblemManager :: "ProblemInputType \<Rightarrow> factory_error + problem_class" where
  "makeProblemManager pbType = (case pbType of
     PB_CNF \<Rightarrow> Inr CnfProblem
   | PB_TCNF \<Rightarrow> Inr ErosionCnfProblem
   | PB_CIRC \<Rightarrow> Inr CircuitProblem
   | PB_QBF \<Rightarrow> Inr QbfProblem
   | PB_NONE \<Rightarrow> Inl (FactoryException ''Cannot create a ProblemManager''))"

section \<open>Properties\<close>

text \<open>The name of a problem type is read back as that type, but for the theory problems, whose printed name
  \<open>cnf+theory\<close> the reader does not know.\<close>

theorem input_type_names:
  "(case inputTypeName m of Inl e \<Rightarrow> Inl e | Inr s \<Rightarrow> getInputType s) =
    (if m = PB_NONE \<or> m = PB_TCNF then Inl (FactoryException ''Operator Type unknown'') else Inr m)"
  by (cases m) (simp_all add: inputTypeName_def getInputType_def)

lemma translate_type_names: "\<exists>s. translateTypeName m = Inr s \<and> getTranslateType s = Inr m"
  by (cases m) (simp_all add: translateTypeName_def getTranslateType_def)

text \<open>The weights \<open>isFloat\<close> looks at leave out the last variable: whatever its weights are, the answer is the
  same.\<close>

theorem isFloat_ignores_last:
  assumes "0 \<le> pm_nbVar p" "pm_nbVar p < 2 ^ 30"
    "\<And>i. 0 \<le> i \<Longrightarrow> i < 2 * pm_nbVar p \<Longrightarrow> vget (pm_weightLit p) i = vget wl i"
  shows "pm_isFloat (p\<lparr>pm_weightLit := wl\<rparr>) = pm_isFloat p"
proof -
  have "pm_getWeightLit (p\<lparr>pm_weightLit := wl\<rparr>) (ilit_make i s) = pm_getWeightLit p (ilit_make i s)"
    if "i \<in> set [0..pm_nbVar p - 1]" for i s
    using that assms by (simp add: pm_getWeightLit_def)
  then show ?thesis using assms(2) unfolding pm_isFloat_def list_ex_iff Let_def make_true_false [symmetric]
    by auto
qed

lemma isFloat_ignores_last_witness:
  "\<not> pm_isFloat (pm_of_parts 1 [1, 1, 1, 1 :: nat] [2, 2] []\<lparr>pm_weightLit := [1, 1, 7, 9]\<rparr>)"
proof -
  have "vget [1, 1, 1, 1 :: nat] i = vget [1, 1, 7, 9] i" if "0 \<le> i" "i < 2" for i
  proof -
    have "i = 0 \<or> i = 1" using that by linarith
    then show ?thesis by (auto simp: vget_def)
  qed
  then have "pm_isFloat (pm_of_parts 1 [1, 1, 1, 1 :: nat] [2, 2] []\<lparr>pm_weightLit := [1, 1, 7, 9]\<rparr>) =
      pm_isFloat (pm_of_parts 1 [1, 1, 1, 1 :: nat] [2, 2] [])"
    by (intro isFloat_ignores_last) (simp_all add: pm_of_parts_def)
  moreover have "\<not> pm_isFloat (pm_of_parts 1 [1, 1, 1, 1 :: nat] [2, 2] [])" by code_simp
  ultimately show ?thesis by simp
qed

text \<open>Conditioning keeps the models in which the units hold.\<close>

theorem pm_conditioned:
  assumes "0 \<le> pm_nbVar p" "pm_nbVar p < 2 ^ 30" "\<forall>cl\<in>set (pm_clauses p). \<forall>l\<in>set cl. wf_ilit (pm_nbVar p) l"
    "list_all (wf_ilit (pm_nbVar p)) units"
  shows "cnf_true (ilit_true m) (pm_clauses (pm_getConditionedFormula p units)) \<longleftrightarrow>
    cube_true (ilit_true m) units \<and> cnf_true (ilit_true m) (pm_clauses p)"
proof -
  have "cube_true (ilit_true m) units \<Longrightarrow> cnf_true (ilit_true m) (map fst (filter (\<lambda>(scl, isSAT). \<not> isSAT)
      (map (\<lambda>cl. simplify_clause (unit_values (pm_nbVar p) units) cl []) (pm_clauses p)))) =
    cnf_true (ilit_true m) (pm_clauses p)"
    using simplified_clauses [OF values_agree_units] assms by blast
  moreover have eq: "pm_clauses (pm_getConditionedFormula p units) = map (\<lambda>l. [l]) units @
    map fst (filter (\<lambda>(scl, isSAT). \<not> isSAT)
      (map (\<lambda>cl. simplify_clause (unit_values (pm_nbVar p) units) cl []) (pm_clauses p)))"
    by (simp add: pm_getConditionedFormula_def pm_copy_def Let_def)
  ultimately show ?thesis unfolding eq cnf_true_append unit_clauses_true by blast
qed

end
