(* ===== verification/D4_Operations.thy ===== *)
theory D4_Operations
  imports D4_Dnnf D4_Problem
begin

text \<open>
  \<open>3rdParty/d4/src/methods\<close>: the two implementations of \<open>Operation\<close>, \<open>CountingOperation\<close> (an element is a number)
  and \<open>DecisionDNNFOperation\<close> (an element is a node of the d-DNNF). The locale \<open>operation\<close> is the interface a
  DPLL-style search drives; both implementations satisfy it, so that whatever sequence of calls a search makes, counting
  on the fly and counting on the compiled graph agree.
\<close>

section \<open>Counting on the fly\<close>

definition co_createTop :: "'w::comm_semiring_1" where
  "co_createTop = 1"

definition co_createBottom :: "'w::comm_semiring_1" where
  "co_createBottom = 0"

definition co_manageBottom :: "'w::comm_semiring_1" where
  "co_manageBottom = 0"

definition co_manageTop :: "int list \<Rightarrow> 'w::comm_semiring_1" where
  "co_manageTop component = 1"

definition co_manageBranch :: "'w::comm_semiring_1 ProblemManager \<Rightarrow> 'w DataBranch \<Rightarrow> 'w" where
  "co_manageBranch p e = db_d e * pm_computeWeightUnitFree p (db_units e) (db_frees e)"

definition co_manageDeterministOr :: "'w::comm_semiring_1 ProblemManager \<Rightarrow> 'w DataBranch list \<Rightarrow> 'w" where
  "co_manageDeterministOr p elts =
     fold (\<lambda>e ret. ret + db_d e * pm_computeWeightUnitFree p (db_units e) (db_frees e)) elts 0"

definition co_manageDecomposableAnd :: "'w::comm_semiring_1 list \<Rightarrow> 'w" where
  "co_manageDecomposableAnd elts =
     (if length elts = 1 then elts ! 0
      else if length elts = 2 then elts ! 0 * elts ! 1
      else fold (\<lambda>e ret. ret * e) elts 1)"

definition co_count :: "'w \<Rightarrow> 'w" where
  "co_count result = result"

datatype operation_error = BadBehaviourException string

definition co_count_assum :: "'w \<Rightarrow> ILit list \<Rightarrow> operation_error + 'w" where
  "co_count_assum result assum = Inl (BadBehaviourException ''This operation is not allowed in this context.'')"

section \<open>Compiling to a d-DNNF\<close>

definition dd_new :: "node_sizes \<Rightarrow> int \<Rightarrow> 'w::zero NodeManager" where
  "dd_new sz nbVariable = makeNodeManager sz (nbVariable + 1)"

definition dd_createTop :: "'w NodeManager \<Rightarrow> nat" where
  "dd_createTop M = makeTrueNode M"

definition dd_createBottom :: "'w NodeManager \<Rightarrow> nat" where
  "dd_createBottom M = makeFalseNode M"

definition dd_manageBottom :: "'w NodeManager \<Rightarrow> nat" where
  "dd_manageBottom M = dd_createBottom M"

text \<open>\<open>units\<close> is what the solver's \<open>whichAreUnits\<close> returns for the component.\<close>

definition dd_manageTop :: "node_sizes \<Rightarrow> ILit list \<Rightarrow> 'w::zero NodeManager \<Rightarrow> nat \<times> 'w NodeManager" where
  "dd_manageTop sz units M =
     (let b = \<lparr>db_d = makeTrueNode M, db_units = units, db_frees = []\<rparr>
      in if length units \<noteq> 0 then makeUnaryNode sz b M else (db_d b, M))"

definition dd_manageBranch :: "node_sizes \<Rightarrow> nat DataBranch \<Rightarrow> 'w::zero NodeManager \<Rightarrow> nat \<times> 'w NodeManager" where
  "dd_manageBranch sz e M = makeUnaryNode sz e M"

fun dd_or_loop :: "node_sizes \<Rightarrow> nat DataBranch list \<Rightarrow> nat \<Rightarrow> 'w::zero NodeManager \<Rightarrow> nat \<times> 'w NodeManager" where
  "dd_or_loop sz [] ret M = (ret, M)"
| "dd_or_loop sz (e # elts) ret M =
     (case makeBinaryDeterministicOrNode sz \<lparr>db_d = ret, db_units = [], db_frees = []\<rparr> e M of
        (ret', M') \<Rightarrow> dd_or_loop sz elts ret' M')"

definition dd_manageDeterministOr :: "node_sizes \<Rightarrow> nat DataBranch list \<Rightarrow> 'w::zero NodeManager \<Rightarrow>
  nat \<times> 'w NodeManager" where
  "dd_manageDeterministOr sz elts M =
     (if length elts = 1 then makeUnaryNode sz (elts ! 0) M
      else case makeBinaryDeterministicOrNode sz (elts ! 0) (elts ! 1) M of
             (ret, M') \<Rightarrow> dd_or_loop sz (drop 2 elts) ret M')"

definition dd_manageDecomposableAnd :: "node_sizes \<Rightarrow> nat list \<Rightarrow> 'w::zero NodeManager \<Rightarrow> nat \<times> 'w NodeManager" where
  "dd_manageDecomposableAnd sz elts M = makeDecomposableAndNode sz elts M"

definition dd_count :: "'w::comm_semiring_1 ProblemManager \<Rightarrow> nat \<Rightarrow> 'w NodeManager \<Rightarrow> ('w \<times> 'w NodeManager) option" where
  "dd_count p root M = computeNbModels root (replicate (nat (pm_nbVar p + 1)) IsNotAssigned)
     (pm_weightLit p) (pm_weightVar p) M"

definition assume_values :: "ILit list \<Rightarrow> ValueVar list \<Rightarrow> ValueVar list" where
  "assume_values assum fixed =
     fold (\<lambda>l fixed. if int (length fixed) \<le> ilit_var l mod 2 ^ 32 then fixed
        else vset fixed (ilit_var l) (if ilit_sign l then IsFalse else IsTrue)) assum fixed"

definition dd_count_assum :: "'w::comm_semiring_1 ProblemManager \<Rightarrow> nat \<Rightarrow> ILit list \<Rightarrow> 'w NodeManager \<Rightarrow>
  ('w \<times> 'w NodeManager) option" where
  "dd_count_assum p root assum M = computeNbModels root
     (assume_values assum (replicate (nat (pm_nbVar p + 1)) IsNotAssigned)) (pm_weightLit p) (pm_weightVar p) M"

text \<open>\<open>OperationType\<close>, its names and \<open>makeOperationManager\<close>.\<close>

datatype OperationType = OP_COUNTING | OP_CIRC

definition operatorTypeName :: "OperationType \<Rightarrow> string" where
  "operatorTypeName m = (if m = OP_COUNTING then ''counting'' else ''ddnnf-compiler'')"

definition getOperatorType :: "string \<Rightarrow> factory_error + OperationType" where
  "getOperatorType m =
     (if m = ''counting'' \<or> m = ''counting-global-cache'' then Inr OP_COUNTING
      else if m = ''ddnnf-compiler'' then Inr OP_CIRC
      else Inl (FactoryException ''Operator Type unknown''))"

record ('u, 's) Operation =
  op_createTop :: "'s \<Rightarrow> 'u \<times> 's"
  op_manageBottom :: "'s \<Rightarrow> 'u \<times> 's"
  op_manageBranch :: "'u DataBranch \<Rightarrow> 's \<Rightarrow> 'u \<times> 's"
  op_manageDeterministOr :: "'u DataBranch list \<Rightarrow> 's \<Rightarrow> 'u \<times> 's"
  op_manageDecomposableAnd :: "'u list \<Rightarrow> 's \<Rightarrow> 'u \<times> 's"

definition countingOperation :: "'w::comm_semiring_1 ProblemManager \<Rightarrow> ('w, unit) Operation" where
  "countingOperation p =
     \<lparr>op_createTop = Pair co_createTop,
      op_manageBottom = Pair co_manageBottom,
      op_manageBranch = (\<lambda>e. Pair (co_manageBranch p e)),
      op_manageDeterministOr = (\<lambda>es. Pair (co_manageDeterministOr p es)),
      op_manageDecomposableAnd = (\<lambda>us. Pair (co_manageDecomposableAnd us))\<rparr>"

definition dnnfOperation :: "node_sizes \<Rightarrow> (nat, 'w::comm_semiring_1 NodeManager) Operation" where
  "dnnfOperation sz =
     \<lparr>op_createTop = (\<lambda>M. (dd_createTop M, M)),
      op_manageBottom = (\<lambda>M. (dd_manageBottom M, M)),
      op_manageBranch = dd_manageBranch sz,
      op_manageDeterministOr = dd_manageDeterministOr sz,
      op_manageDecomposableAnd = dd_manageDecomposableAnd sz\<rparr>"

definition makeOperationManager :: "OperationType \<Rightarrow> 'w::comm_semiring_1 ProblemManager \<Rightarrow> node_sizes \<Rightarrow>
  ('w, unit) Operation + (nat, 'w NodeManager) Operation" where
  "makeOperationManager t p sz = (if t = OP_COUNTING then Inl (countingOperation p) else Inr (dnnfOperation sz))"

section \<open>The calls of a search\<close>

text \<open>What a search asks of its operation manager, as a term.\<close>

datatype trace =
    TTop
  | TBottom
  | TBranch "ILit list" "int list" trace
  | TOr "(ILit list \<times> int list \<times> trace) list"
  | TAnd "trace list"

fun run_trace :: "('u, 's) Operation \<Rightarrow> trace \<Rightarrow> 's \<Rightarrow> 'u \<times> 's"
and run_branches :: "('u, 's) Operation \<Rightarrow> (ILit list \<times> int list \<times> trace) list \<Rightarrow> 's \<Rightarrow> 'u DataBranch list \<times> 's"
and run_all :: "('u, 's) Operation \<Rightarrow> trace list \<Rightarrow> 's \<Rightarrow> 'u list \<times> 's" where
  "run_trace ops TTop s = op_createTop ops s"
| "run_trace ops TBottom s = op_manageBottom ops s"
| "run_trace ops (TBranch us fs t) s =
     (case run_trace ops t s of (u, s1) \<Rightarrow> op_manageBranch ops \<lparr>db_d = u, db_units = us, db_frees = fs\<rparr> s1)"
| "run_trace ops (TOr bs) s = (case run_branches ops bs s of (es, s1) \<Rightarrow> op_manageDeterministOr ops es s1)"
| "run_trace ops (TAnd ts) s = (case run_all ops ts s of (us, s1) \<Rightarrow> op_manageDecomposableAnd ops us s1)"
| "run_branches ops [] s = ([], s)"
| "run_branches ops ((us, fs, t) # bs) s =
     (case run_trace ops t s of (u, s1) \<Rightarrow> case run_branches ops bs s1 of (es, s2) \<Rightarrow>
        (\<lparr>db_d = u, db_units = us, db_frees = fs\<rparr> # es, s2))"
| "run_all ops [] s = ([], s)"
| "run_all ops (t # ts) s =
     (case run_trace ops t s of (u, s1) \<Rightarrow> case run_all ops ts s1 of (us, s2) \<Rightarrow> (u # us, s2))"

fun trace_value :: "(ILit list \<Rightarrow> int list \<Rightarrow> 'w::comm_semiring_1) \<Rightarrow> trace \<Rightarrow> 'w"
and branches_value :: "(ILit list \<Rightarrow> int list \<Rightarrow> 'w::comm_semiring_1) \<Rightarrow> (ILit list \<times> int list \<times> trace) list \<Rightarrow> 'w"
and all_value :: "(ILit list \<Rightarrow> int list \<Rightarrow> 'w::comm_semiring_1) \<Rightarrow> trace list \<Rightarrow> 'w" where
  "trace_value wt TTop = 1"
| "trace_value wt TBottom = 0"
| "trace_value wt (TBranch us fs t) = trace_value wt t * wt us fs"
| "trace_value wt (TOr bs) = branches_value wt bs"
| "trace_value wt (TAnd ts) = all_value wt ts"
| "branches_value wt [] = 0"
| "branches_value wt ((us, fs, t) # bs) = trace_value wt t * wt us fs + branches_value wt bs"
| "all_value wt [] = 1"
| "all_value wt (t # ts) = trace_value wt t * all_value wt ts"

text \<open>A search never asks for an empty disjunction or conjunction; \<open>small\<close> and \<open>narrow\<close> bound the branches and the
  number of components.\<close>

fun trace_ok :: "(ILit list \<Rightarrow> int list \<Rightarrow> bool) \<Rightarrow> (nat \<Rightarrow> bool) \<Rightarrow> trace \<Rightarrow> bool"
and branches_ok :: "(ILit list \<Rightarrow> int list \<Rightarrow> bool) \<Rightarrow> (nat \<Rightarrow> bool) \<Rightarrow> (ILit list \<times> int list \<times> trace) list \<Rightarrow> bool"
and all_ok :: "(ILit list \<Rightarrow> int list \<Rightarrow> bool) \<Rightarrow> (nat \<Rightarrow> bool) \<Rightarrow> trace list \<Rightarrow> bool" where
  "trace_ok small narrow TTop = True"
| "trace_ok small narrow TBottom = True"
| "trace_ok small narrow (TBranch us fs t) = (small us fs \<and> trace_ok small narrow t)"
| "trace_ok small narrow (TOr bs) = (bs \<noteq> [] \<and> branches_ok small narrow bs)"
| "trace_ok small narrow (TAnd ts) = (ts \<noteq> [] \<and> narrow (length ts) \<and> all_ok small narrow ts)"
| "branches_ok small narrow [] = True"
| "branches_ok small narrow ((us, fs, t) # bs) = (small us fs \<and> trace_ok small narrow t \<and> branches_ok small narrow bs)"
| "all_ok small narrow [] = True"
| "all_ok small narrow (t # ts) = (trace_ok small narrow t \<and> all_ok small narrow ts)"

lemma trace_induct:
  assumes "P TTop" "P TBottom" "\<And>us fs t. P t \<Longrightarrow> P (TBranch us fs t)" "\<And>bs. Q bs \<Longrightarrow> P (TOr bs)"
    "\<And>ts. R ts \<Longrightarrow> P (TAnd ts)" "Q []" "\<And>us fs t bs. P t \<Longrightarrow> Q bs \<Longrightarrow> Q ((us, fs, t) # bs)"
    "R []" "\<And>t ts. P t \<Longrightarrow> R ts \<Longrightarrow> R (t # ts)"
  shows "P t" "Q bs" "R ts"
proof -
  note rules = trace_ok_branches_ok_all_ok.induct [of "\<lambda>_ _. P" "\<lambda>_ _. Q" "\<lambda>_ _. R"]
  show "P t" by (rule rules(1)) (blast intro: assms)+
  show "Q bs" by (rule rules(2)) (blast intro: assms)+
  show "R ts" by (rule rules(3)) (blast intro: assms)+
qed

lemma trace_ok_weaken:
  "trace_ok small narrow t \<longrightarrow> trace_ok (\<lambda>_ _. True) (\<lambda>_. True) t"
  "branches_ok small narrow bs \<longrightarrow> branches_ok (\<lambda>_ _. True) (\<lambda>_. True) bs"
  "all_ok small narrow ts \<longrightarrow> all_ok (\<lambda>_ _. True) (\<lambda>_. True) ts"
  by (induction t and bs and ts rule: trace_induct) simp_all

lemmas trace_ok_mono = trace_ok_weaken(1) [THEN mp]

section \<open>The interface\<close>

text \<open>A call gives an element with the value \<open>x\<close>, and the elements made before keep theirs.\<close>

definition keeps_elems :: "('s \<Rightarrow> 'u \<Rightarrow> bool) \<Rightarrow> ('s \<Rightarrow> 'u \<Rightarrow> 'w) \<Rightarrow> 's \<Rightarrow> 's \<Rightarrow> bool" where
  "keeps_elems elem val s s' \<longleftrightarrow> (\<forall>u. elem s u \<longrightarrow> elem s' u \<and> val s' u = val s u)"

definition gives :: "('s \<Rightarrow> bool) \<Rightarrow> ('s \<Rightarrow> 'u \<Rightarrow> bool) \<Rightarrow> ('s \<Rightarrow> 'u \<Rightarrow> 'w) \<Rightarrow> 's \<Rightarrow> 'u \<times> 's \<Rightarrow> 'w \<Rightarrow> bool" where
  "gives good elem val s r x \<longleftrightarrow>
     good (snd r) \<and> elem (snd r) (fst r) \<and> val (snd r) (fst r) = x \<and> keeps_elems elem val s (snd r)"

lemma keeps_elems_refl [simp]: "keeps_elems elem val s s"
  by (simp add: keeps_elems_def)

lemma keeps_elems_trans:
  "keeps_elems elem val s s1 \<Longrightarrow> keeps_elems elem val s1 s2 \<Longrightarrow> keeps_elems elem val s s2"
  by (simp add: keeps_elems_def)

locale operation =
  fixes ops :: "('u, 's) Operation"
    and good :: "'s \<Rightarrow> bool"
    and elem :: "'s \<Rightarrow> 'u \<Rightarrow> bool"
    and val :: "'s \<Rightarrow> 'u \<Rightarrow> 'w::comm_semiring_1"
    and wt :: "ILit list \<Rightarrow> int list \<Rightarrow> 'w"
    and small :: "ILit list \<Rightarrow> int list \<Rightarrow> bool"
    and narrow :: "nat \<Rightarrow> bool"
  assumes top: "good s \<Longrightarrow> gives good elem val s (op_createTop ops s) 1"
    and bottom: "good s \<Longrightarrow> gives good elem val s (op_manageBottom ops s) 0"
    and branch: "good s \<Longrightarrow> elem s (db_d e) \<Longrightarrow> small (db_units e) (db_frees e) \<Longrightarrow>
      gives good elem val s (op_manageBranch ops e s) (val s (db_d e) * wt (db_units e) (db_frees e))"
    and disj: "good s \<Longrightarrow> es \<noteq> [] \<Longrightarrow> \<forall>e\<in>set es. elem s (db_d e) \<and> small (db_units e) (db_frees e) \<Longrightarrow>
      gives good elem val s (op_manageDeterministOr ops es s)
        (\<Sum>e\<leftarrow>es. val s (db_d e) * wt (db_units e) (db_frees e))"
    and conj: "good s \<Longrightarrow> us \<noteq> [] \<Longrightarrow> narrow (length us) \<Longrightarrow> \<forall>u\<in>set us. elem s u \<Longrightarrow>
      gives good elem val s (op_manageDecomposableAnd ops us s) (prod_list (map (val s) us))"
begin

definition branches_give :: "'s \<Rightarrow> (ILit list \<times> int list \<times> trace) list \<Rightarrow> 'u DataBranch list \<times> 's \<Rightarrow> bool" where
  "branches_give s bs r \<longleftrightarrow> good (snd r) \<and> keeps_elems elem val s (snd r) \<and> length (fst r) = length bs \<and>
     (\<forall>e\<in>set (fst r). elem (snd r) (db_d e) \<and> small (db_units e) (db_frees e)) \<and>
     (\<Sum>e\<leftarrow>fst r. val (snd r) (db_d e) * wt (db_units e) (db_frees e)) = branches_value wt bs"

definition all_give :: "'s \<Rightarrow> trace list \<Rightarrow> 'u list \<times> 's \<Rightarrow> bool" where
  "all_give s ts r \<longleftrightarrow> good (snd r) \<and> keeps_elems elem val s (snd r) \<and> length (fst r) = length ts \<and>
     (\<forall>u\<in>set (fst r). elem (snd r) u) \<and> prod_list (map (val (snd r)) (fst r)) = all_value wt ts"

lemma run_value:
  "\<forall>s. good s \<longrightarrow> trace_ok small narrow t \<longrightarrow> gives good elem val s (run_trace ops t s) (trace_value wt t)"
  "\<forall>s. good s \<longrightarrow> branches_ok small narrow bs \<longrightarrow> branches_give s bs (run_branches ops bs s)"
  "\<forall>s. good s \<longrightarrow> all_ok small narrow ts \<longrightarrow> all_give s ts (run_all ops ts s)"
proof (induction t and bs and ts rule: trace_induct)
  case 1
  then show ?case using top by simp
next
  case 2
  then show ?case using bottom by simp
next
  case (3 us fs t)
  show ?case
  proof (intro allI impI)
    fix s assume s: "good s" "trace_ok small narrow (TBranch us fs t)"
    obtain u s1 where u: "run_trace ops t s = (u, s1)" by fastforce
    have "gives good elem val s (run_trace ops t s) (trace_value wt t)" using 3 s by simp
    then have g: "gives good elem val s (u, s1) (trace_value wt t)" by (simp only: u)
    have "gives good elem val s1 (op_manageBranch ops \<lparr>db_d = u, db_units = us, db_frees = fs\<rparr> s1)
        (val s1 u * wt us fs)"
      using branch [of s1 "\<lparr>db_d = u, db_units = us, db_frees = fs\<rparr>"] g s(2) by (simp add: gives_def)
    then show "gives good elem val s (run_trace ops (TBranch us fs t) s) (trace_value wt (TBranch us fs t))"
      using g u keeps_elems_trans [of elem val s s1] by (simp add: gives_def)
  qed
next
  case (4 bs)
  show ?case
  proof (intro allI impI)
    fix s assume s: "good s" "trace_ok small narrow (TOr bs)"
    obtain es s1 where es: "run_branches ops bs s = (es, s1)" by fastforce
    have "branches_give s bs (run_branches ops bs s)" using 4 s by simp
    then have g: "branches_give s bs (es, s1)" by (simp only: es)
    then have "gives good elem val s1 (op_manageDeterministOr ops es s1) (branches_value wt bs)"
      using disj [of s1 es] s(2) by (cases es) (auto simp: branches_give_def)
    then show "gives good elem val s (run_trace ops (TOr bs) s) (trace_value wt (TOr bs))"
      using g es keeps_elems_trans [of elem val s s1] by (simp add: gives_def branches_give_def)
  qed
next
  case (5 ts)
  show ?case
  proof (intro allI impI)
    fix s assume s: "good s" "trace_ok small narrow (TAnd ts)"
    obtain us s1 where us: "run_all ops ts s = (us, s1)" by fastforce
    have "all_give s ts (run_all ops ts s)" using 5 s by simp
    then have g: "all_give s ts (us, s1)" by (simp only: us)
    then have "gives good elem val s1 (op_manageDecomposableAnd ops us s1) (all_value wt ts)"
      using conj [of s1 us] s(2) by (cases us) (auto simp: all_give_def)
    then show "gives good elem val s (run_trace ops (TAnd ts) s) (trace_value wt (TAnd ts))"
      using g us keeps_elems_trans [of elem val s s1] by (simp add: gives_def all_give_def)
  qed
next
  case 6
  then show ?case by (simp add: branches_give_def)
next
  case (7 us fs t bs)
  show ?case
  proof (intro allI impI)
    fix s assume s: "good s" "branches_ok small narrow ((us, fs, t) # bs)"
    obtain u s1 where u: "run_trace ops t s = (u, s1)" by fastforce
    obtain es s2 where es: "run_branches ops bs s1 = (es, s2)" by fastforce
    have "gives good elem val s (run_trace ops t s) (trace_value wt t)" using 7(1) s by simp
    then have g: "gives good elem val s (u, s1) (trace_value wt t)" by (simp only: u)
    then have "branches_give s1 bs (run_branches ops bs s1)" using 7(2) s by (simp add: gives_def)
    then have h: "branches_give s1 bs (es, s2)" by (simp only: es)
    have "elem s2 u" "val s2 u = trace_value wt t" using g h by (auto simp: gives_def branches_give_def keeps_elems_def)
    then show "branches_give s ((us, fs, t) # bs) (run_branches ops ((us, fs, t) # bs) s)"
      using g h u es s(2) keeps_elems_trans [of elem val s s1 s2] by (simp add: gives_def branches_give_def)
  qed
next
  case 8
  then show ?case by (simp add: all_give_def)
next
  case (9 t ts)
  show ?case
  proof (intro allI impI)
    fix s assume s: "good s" "all_ok small narrow (t # ts)"
    obtain u s1 where u: "run_trace ops t s = (u, s1)" by fastforce
    obtain us s2 where us: "run_all ops ts s1 = (us, s2)" by fastforce
    have "gives good elem val s (run_trace ops t s) (trace_value wt t)" using 9(1) s by simp
    then have g: "gives good elem val s (u, s1) (trace_value wt t)" by (simp only: u)
    then have "all_give s1 ts (run_all ops ts s1)" using 9(2) s by (simp add: gives_def)
    then have h: "all_give s1 ts (us, s2)" by (simp only: us)
    have "elem s2 u" "val s2 u = trace_value wt t" using g h by (auto simp: gives_def all_give_def keeps_elems_def)
    then show "all_give s (t # ts) (run_all ops (t # ts) s)"
      using g h u us s(2) keeps_elems_trans [of elem val s s1 s2] by (simp add: gives_def all_give_def)
  qed
qed

end

section \<open>Both operations satisfy the interface\<close>

lemma fold_add_list: "fold (\<lambda>e ret. ret + f e) es x = x + (\<Sum>e\<leftarrow>es. f e)" for x :: "'w::comm_monoid_add"
  by (induction es arbitrary: x) (simp_all add: add.assoc)

lemma fold_mult_list: "fold (\<lambda>e ret. ret * e) es x = x * prod_list es" for x :: "'w::comm_semiring_1"
  by (induction es arbitrary: x) (simp_all add: mult.assoc)

lemma co_and_value: "co_manageDecomposableAnd us = prod_list us"
proof (cases us)
  case (Cons a vs)
  then show ?thesis by (cases vs; cases "tl vs") (simp_all add: co_manageDecomposableAnd_def fold_mult_list mult.assoc)
qed (simp add: co_manageDecomposableAnd_def)

interpretation counting: operation "countingOperation p" "\<lambda>_. True" "\<lambda>_ _. True" "\<lambda>_ u. u"
  "pm_computeWeightUnitFree p" "\<lambda>_ _. True" "\<lambda>_. True" for p :: "'w::comm_semiring_1 ProblemManager"
  by unfold_locales
     (simp_all add: countingOperation_def gives_def keeps_elems_def co_createTop_def co_manageBottom_def
       co_manageBranch_def co_manageDeterministOr_def fold_add_list co_and_value)

definition dd_good :: "nat \<Rightarrow> 'w NodeManager \<Rightarrow> bool" where
  "dd_good bits M \<longleftrightarrow> nm_ok M \<and> nm_bits M = bits \<and> nm_globalStamp M = 0"

definition dd_elem :: "'w NodeManager \<Rightarrow> nat \<Rightarrow> bool" where
  "dd_elem M a \<longleftrightarrow> a < length (nm_heap M)"

definition all_free :: "'w ProblemManager \<Rightarrow> ValueVar list" where
  "all_free p = replicate (nat (pm_nbVar p + 1)) IsNotAssigned"

definition dd_val :: "'w::comm_semiring_1 ProblemManager \<Rightarrow> 'w NodeManager \<Rightarrow> nat \<Rightarrow> 'w" where
  "dd_val p M a = count_value (pm_weightLit p) (pm_weightVar p) (all_free p) (nm_tree M a)"

definition dd_small :: "'w ProblemManager \<Rightarrow> nat \<Rightarrow> ILit list \<Rightarrow> int list \<Rightarrow> bool" where
  "dd_small p bits us fs \<longleftrightarrow> fits bits \<lparr>db_d = (), db_units = us, db_frees = fs\<rparr> \<and>
     (\<forall>l\<in>set us. ilit_intern l div 2 \<le> pm_nbVar p) \<and> (\<forall>v\<in>set fs. v \<le> pm_nbVar p)"

definition dd_narrow :: "nat \<Rightarrow> nat \<Rightarrow> bool" where
  "dd_narrow bits k \<longleftrightarrow> int k < 2 ^ bits"

lemma all_free_get: "0 \<le> v \<Longrightarrow> v \<le> pm_nbVar p \<Longrightarrow> vget (all_free p) v = IsNotAssigned"
  by (simp add: all_free_def vget_replicate)

lemma fold_lits_weight: "fold (\<lambda>l tmp. tmp * f l) ls x = x * prod_list (map f ls)" for x :: "'w::comm_semiring_1"
  by (induction ls arbitrary: x) (simp_all add: mult.assoc)

lemma dd_branch_value:
  assumes "dd_small p bits (db_units e) (db_frees e)"
  shows "branch_value (fixed_lit (pm_weightLit p) (all_free p)) (free_weight (pm_weightLit p) (pm_weightVar p) (all_free p))
    (unit_codes e) (db_frees e) c = c * pm_computeWeightUnitFree p (db_units e) (db_frees e)"
proof -
  have u: "fixed_lit (pm_weightLit p) (all_free p) (ilit_intern l) = pm_getWeightLit p l" if "l \<in> set (db_units e)" for l
    using assms that by (simp add: fixed_lit_def dd_small_def all_free_get isUnsatLit_def pm_getWeightLit_def
        pos_imp_zdiv_nonneg_iff)
  have f: "free_weight (pm_weightLit p) (pm_weightVar p) (all_free p) v = pm_getWeightVar p v" if "v \<in> set (db_frees e)" for v
    using assms that by (simp add: free_weight_def dd_small_def fits_def all_free_get pm_getWeightVar_def)
  have "prod_list (map (fixed_lit (pm_weightLit p) (all_free p)) (unit_codes e)) = prod_list (map (pm_getWeightLit p) (db_units e))"
    using u by (simp add: unit_codes_def comp_def cong: map_cong)
  moreover have "prod_list (map (free_weight (pm_weightLit p) (pm_weightVar p) (all_free p)) (db_frees e)) =
      prod_list (map (pm_getWeightVar p) (db_frees e))"
    using f by (simp cong: map_cong)
  ultimately show ?thesis by (simp add: branch_value_def pm_computeWeightUnitFree_def fold_lits_weight)
qed

lemma new_tree_gives:
  fixes M :: "'w::comm_semiring_1 NodeManager"
  assumes "new_tree M r t" "dd_good bits M"
  shows "gives (dd_good bits) dd_elem (dd_val p) M r (count_value (pm_weightLit p) (pm_weightVar p) (all_free p) t)"
  using assms by (auto simp: new_tree_def gives_def dd_good_def dd_elem_def dd_val_def keeps_elems_def)

lemma small_fits: "dd_small p bits (db_units e) (db_frees e) \<Longrightarrow> fits bits e"
  by (simp add: dd_small_def fits_def)

lemma unary_gives:
  fixes M :: "'w::comm_semiring_1 NodeManager"
  assumes "dd_good bits M" "dd_elem M (db_d e)" "dd_small p bits (db_units e) (db_frees e)"
  shows "gives (dd_good bits) dd_elem (dd_val p) M (makeUnaryNode sz e M)
    (dd_val p M (db_d e) * pm_computeWeightUnitFree p (db_units e) (db_frees e))"
proof -
  have "new_tree M (makeUnaryNode sz e M) (NUnary (unit_codes e) (db_frees e) (nm_tree M (db_d e)))"
    using assms small_fits [OF assms(3)] by (intro makeUnaryNode_tree) (auto simp: dd_good_def dd_elem_def)
  then show ?thesis using new_tree_gives [OF _ assms(1), of _ _ p] dd_branch_value [OF assms(3)]
    by (fastforce simp: dd_val_def)
qed

lemma ite_gives:
  fixes M :: "'w::comm_semiring_1 NodeManager"
  assumes "dd_good bits M" "dd_elem M (db_d l)" "dd_elem M (db_d r)"
    "dd_small p bits (db_units l) (db_frees l)" "dd_small p bits (db_units r) (db_frees r)"
  shows "gives (dd_good bits) dd_elem (dd_val p) M (makeBinaryDeterministicOrNode sz l r M)
    (dd_val p M (db_d l) * pm_computeWeightUnitFree p (db_units l) (db_frees l) +
     dd_val p M (db_d r) * pm_computeWeightUnitFree p (db_units r) (db_frees r))"
proof -
  have "new_tree M (makeBinaryDeterministicOrNode sz l r M)
    (NOr (unit_codes l) (db_frees l) (nm_tree M (db_d l)) (unit_codes r) (db_frees r) (nm_tree M (db_d r)))"
    using assms small_fits [OF assms(4)] small_fits [OF assms(5)]
    by (intro makeIteNode_tree) (auto simp: dd_good_def dd_elem_def)
  then show ?thesis
    using new_tree_gives [OF _ assms(1), of _ _ p] dd_branch_value [OF assms(4)] dd_branch_value [OF assms(5)]
    by (fastforce simp: dd_val_def)
qed

lemma small_empty: "dd_small p bits [] []"
  by (simp add: dd_small_def fits_def)

lemma weight_empty: "pm_computeWeightUnitFree p [] [] = 1"
  by (simp add: pm_computeWeightUnitFree_def)

lemma gives_trans:
  "gives good elem val s (u, s1) x \<Longrightarrow> gives good elem val s1 r y \<Longrightarrow> gives good elem val s r y"
  using keeps_elems_trans [of elem val s s1] by (auto simp: gives_def)

lemma or_loop_gives:
  fixes M :: "'w::comm_semiring_1 NodeManager"
  assumes "dd_good bits M" "dd_elem M ret" "\<forall>e\<in>set es. dd_elem M (db_d e) \<and> dd_small p bits (db_units e) (db_frees e)"
  shows "gives (dd_good bits) dd_elem (dd_val p) M (dd_or_loop sz es ret M)
    (dd_val p M ret + (\<Sum>e\<leftarrow>es. dd_val p M (db_d e) * pm_computeWeightUnitFree p (db_units e) (db_frees e)))"
  using assms
proof (induction es arbitrary: ret M)
  case Nil
  then show ?case by (simp add: gives_def)
next
  case (Cons e es)
  let ?w = "\<lambda>e. pm_computeWeightUnitFree p (db_units e) (db_frees e)"
  obtain r M1 where r: "makeBinaryDeterministicOrNode sz \<lparr>db_d = ret, db_units = [], db_frees = []\<rparr> e M = (r, M1)"
    by fastforce
  have g: "gives (dd_good bits) dd_elem (dd_val p) M (r, M1) (dd_val p M ret + dd_val p M (db_d e) * ?w e)"
    using ite_gives [of bits M "\<lparr>db_d = ret, db_units = [], db_frees = []\<rparr>" e p sz] Cons.prems
    by (simp add: r small_empty weight_empty)
  then have "gives (dd_good bits) dd_elem (dd_val p) M1 (dd_or_loop sz es r M1)
      (dd_val p M1 r + (\<Sum>e\<leftarrow>es. dd_val p M1 (db_d e) * ?w e))"
    using Cons.prems by (intro Cons.IH) (auto simp: gives_def keeps_elems_def)
  moreover have "(\<Sum>e\<leftarrow>es. dd_val p M1 (db_d e) * ?w e) = (\<Sum>e\<leftarrow>es. dd_val p M (db_d e) * ?w e)"
    using g Cons.prems(3) by (intro arg_cong [of _ _ sum_list] map_cong refl) (auto simp: gives_def keeps_elems_def)
  moreover have "dd_val p M1 r = dd_val p M ret + dd_val p M (db_d e) * ?w e" using g by (simp add: gives_def)
  ultimately show ?case using gives_trans [OF g] by (simp add: r add.assoc)
qed

lemma or_gives:
  fixes M :: "'w::comm_semiring_1 NodeManager"
  assumes "dd_good bits M" "es \<noteq> []" "\<forall>e\<in>set es. dd_elem M (db_d e) \<and> dd_small p bits (db_units e) (db_frees e)"
  shows "gives (dd_good bits) dd_elem (dd_val p) M (dd_manageDeterministOr sz es M)
    (\<Sum>e\<leftarrow>es. dd_val p M (db_d e) * pm_computeWeightUnitFree p (db_units e) (db_frees e))"
proof (cases es)
  case (Cons l rest)
  show ?thesis
  proof (cases rest)
    case Nil
    then show ?thesis using Cons assms unary_gives [of bits M l p sz] by (simp add: dd_manageDeterministOr_def)
  next
    case (Cons r rest')
    let ?w = "\<lambda>e. pm_computeWeightUnitFree p (db_units e) (db_frees e)"
    obtain a M1 where a: "makeBinaryDeterministicOrNode sz l r M = (a, M1)" by fastforce
    have g: "gives (dd_good bits) dd_elem (dd_val p) M (a, M1) (dd_val p M (db_d l) * ?w l + dd_val p M (db_d r) * ?w r)"
      using ite_gives [of bits M l r p sz] assms \<open>es = l # rest\<close> Cons by (simp add: a)
    then have "gives (dd_good bits) dd_elem (dd_val p) M1 (dd_or_loop sz rest' a M1)
        (dd_val p M1 a + (\<Sum>e\<leftarrow>rest'. dd_val p M1 (db_d e) * ?w e))"
      using assms \<open>es = l # rest\<close> Cons by (intro or_loop_gives) (auto simp: gives_def keeps_elems_def)
    moreover have "(\<Sum>e\<leftarrow>rest'. dd_val p M1 (db_d e) * ?w e) = (\<Sum>e\<leftarrow>rest'. dd_val p M (db_d e) * ?w e)"
      using g assms(3) \<open>es = l # rest\<close> Cons
      by (intro arg_cong [of _ _ sum_list] map_cong refl) (auto simp: gives_def keeps_elems_def)
    moreover have "dd_val p M1 a = dd_val p M (db_d l) * ?w l + dd_val p M (db_d r) * ?w r" using g by (simp add: gives_def)
    ultimately show ?thesis using gives_trans [OF g] \<open>es = l # rest\<close> Cons
      by (simp add: dd_manageDeterministOr_def a add.assoc)
  qed
qed (use assms(2) in simp)

lemma and_gives:
  fixes M :: "'w::comm_semiring_1 NodeManager"
  assumes "dd_good bits M" "us \<noteq> []" "dd_narrow bits (length us)" "\<forall>u\<in>set us. dd_elem M u"
  shows "gives (dd_good bits) dd_elem (dd_val p) M (dd_manageDecomposableAnd sz us M) (prod_list (map (dd_val p M) us))"
proof -
  have "new_tree M (makeDecomposableAndNode sz us M)
    (if length us = 1 then nm_tree M (hd us) else NAnd (map (nm_tree M) us))"
    using assms by (intro makeAndNode_tree) (auto simp: dd_good_def dd_elem_def dd_narrow_def)
  then have "gives (dd_good bits) dd_elem (dd_val p) M (makeDecomposableAndNode sz us M)
    (count_value (pm_weightLit p) (pm_weightVar p) (all_free p)
      (if length us = 1 then nm_tree M (hd us) else NAnd (map (nm_tree M) us)))"
    by (rule new_tree_gives [OF _ assms(1)])
  moreover have "count_value (pm_weightLit p) (pm_weightVar p) (all_free p)
      (if length us = 1 then nm_tree M (hd us) else NAnd (map (nm_tree M) us)) = prod_list (map (dd_val p M) us)"
    using assms(2) by (cases us; cases "tl us") (auto simp: dd_val_def [abs_def] comp_def)
  ultimately show ?thesis by (simp add: dd_manageDecomposableAnd_def)
qed

lemma constant_trees:
  assumes "nm_ok M"
  shows "nm_tree M (nm_true M) = NTrue" "nm_tree M (nm_false M) = NFalse"
  using assms nnf_of_unfold [of "nm_bodies M"] by (auto simp: nm_ok_def nm_tree_def body_tree_def)

interpretation dnnf: operation "dnnfOperation sz" "dd_good bits" dd_elem "dd_val p"
  "pm_computeWeightUnitFree p" "dd_small p bits" "dd_narrow bits"
  for sz bits and p :: "'w::comm_semiring_1 ProblemManager"
proof unfold_locales
  fix M :: "'w NodeManager"
  assume M: "dd_good bits M"
  then have ok: "nm_ok M" by (simp add: dd_good_def)
  show "gives (dd_good bits) dd_elem (dd_val p) M (op_createTop (dnnfOperation sz) M) 1"
    "gives (dd_good bits) dd_elem (dd_val p) M (op_manageBottom (dnnfOperation sz) M) 0"
    using M ok constant_trees [OF ok]
    by (simp_all add: dnnfOperation_def gives_def dd_createTop_def dd_manageBottom_def dd_createBottom_def
        makeTrueNode_def makeFalseNode_def dd_elem_def dd_val_def nm_ok_def)
qed (simp_all add: dnnfOperation_def dd_manageBranch_def unary_gives or_gives and_gives)

section \<open>Counting and compiling agree\<close>


definition demo_problem :: "nat ProblemManager" where
  "demo_problem = pm_of_parts 2 [0, 0, 2, 3, 5, 7] [0, 5, 12] []"

definition demo_trace :: trace where
  "demo_trace = TOr [([ilit_make 1 False], [2], TTop), ([ilit_make 1 True], [], TBranch [ilit_make 2 True] [] TTop)]"


text \<open>The numbers of this example.\<close>

lemma demo_trace_count: "fst (run_trace (countingOperation demo_problem) demo_trace ()) = 2 * 12 + 3 * 7"
  by (simp add: demo_trace_def countingOperation_def co_manageDeterministOr_def co_manageBranch_def co_createTop_def
      pm_computeWeightUnitFree_def pm_getWeightLit_def pm_getWeightVar_def demo_problem_def pm_of_parts_def vget_def
      numeral_eq_Suc)

end
