(* ===== verification/D4_Occurrence.thy ===== *)
theory D4_Occurrence
  imports HS_Prelude
begin

text \<open>
  \<open>3rdParty/d4/src/formulaManager/cnf/DataOccurrence.hpp\<close>: the occurrence list of one literal. The constructor of
  \<open>CnfManager\<close> gives each literal a private block of one array, binary clauses first; \<open>do_mem\<close> is that block and the
  two pointers are offsets into it. Clauses leave a window (\<open>bins\<close>, \<open>nots\<close>) by swaps at its edge, so that resetting
  the counters brings them back: \<open>occ_sub\<close> says what the operations keep, \<open>occ_equiv\<close> what a reset restores.
\<close>

section \<open>The code\<close>

record ClauseInfo =
  ci_isSat :: bool
  ci_nbUnsat :: int
  ci_xorLitBin :: int

definition new_ClauseInfo :: ClauseInfo where
  "new_ClauseInfo = \<lparr>ci_isSat = False, ci_nbUnsat = 0, ci_xorLitBin = 0\<rparr>"

record DataOccurrence =
  do_mem :: "nat list"
  do_bin :: nat
  do_notBin :: nat
  do_nbNotBin :: nat
  do_nbBin :: nat

definition cleanNotBin :: "DataOccurrence \<Rightarrow> DataOccurrence" where
  "cleanNotBin d = d\<lparr>do_nbNotBin := 0\<rparr>"

definition cleanBin :: "DataOccurrence \<Rightarrow> DataOccurrence" where
  "cleanBin d = d\<lparr>do_bin := do_bin d + do_nbBin d, do_nbBin := 0\<rparr>"

definition occ_clean :: "DataOccurrence \<Rightarrow> DataOccurrence" where
  "occ_clean d = cleanBin (cleanNotBin d)"

text \<open>The loop of \<open>removeSatisfiedBin\<close>; \<open>e\<close> is one past the pointer \<open>end\<close>.\<close>

function satisfied_bin :: "(nat \<Rightarrow> bool) \<Rightarrow> nat list \<Rightarrow> nat \<Rightarrow> nat \<Rightarrow> nat list \<times> nat" where
  "satisfied_bin isSat mem b e =
     (if b < e
      then if \<not> isSat (mem ! (e - 1)) then satisfied_bin isSat mem b (e - 1)
           else satisfied_bin isSat (std_swap mem (e - 1) b) (b + 1) e
      else (mem, b))"
  by auto
termination by (relation "measure (\<lambda>(_, _, b, e). e - b)") auto

declare satisfied_bin.simps [simp del]

definition removeSatisfiedBin :: "(nat \<Rightarrow> bool) \<Rightarrow> DataOccurrence \<Rightarrow> DataOccurrence" where
  "removeSatisfiedBin isSat d =
     (if do_nbBin d = 0 then d
      else let endSize = do_bin d + do_nbBin d; (mem, b) = satisfied_bin isSat (do_mem d) (do_bin d) endSize
           in d\<lparr>do_mem := mem, do_bin := b, do_nbBin := endSize - b\<rparr>)"

text \<open>Nothing bounds the search for an index that is not there but the assertion: \<open>None\<close>.\<close>

fun position :: "nat \<Rightarrow> nat list \<Rightarrow> nat option" where
  "position x [] = None"
| "position x (y # ys) = (if y = x then Some 0 else map_option Suc (position x ys))"

definition removeBin :: "nat \<Rightarrow> DataOccurrence \<Rightarrow> DataOccurrence option" where
  "removeBin idx d = (case position idx (take (do_nbBin d) (drop (do_bin d) (do_mem d))) of
     None \<Rightarrow> None
   | Some i \<Rightarrow> Some (d\<lparr>do_mem := std_swap (do_mem d) (do_bin d + i) (do_bin d), do_bin := do_bin d + 1,
       do_nbBin := do_nbBin d - 1\<rparr>))"

definition occ_size :: "DataOccurrence \<Rightarrow> nat" where
  "occ_size d = do_nbNotBin d + do_nbBin d"

definition removeNotBin :: "nat \<Rightarrow> DataOccurrence \<Rightarrow> DataOccurrence option" where
  "removeNotBin idx d = (case position idx (take (do_nbNotBin d) (drop (do_notBin d) (do_mem d))) of
     None \<Rightarrow> None
   | Some i \<Rightarrow> Some (d\<lparr>do_mem := std_swap (do_mem d) (do_notBin d + i) (do_notBin d + (do_nbNotBin d - 1)),
       do_nbNotBin := do_nbNotBin d - 1\<rparr>))"

function satisfied_not_bin :: "(nat \<Rightarrow> bool) \<Rightarrow> nat list \<Rightarrow> nat \<Rightarrow> nat \<Rightarrow> nat \<Rightarrow> nat list \<times> nat" where
  "satisfied_not_bin isSat mem notBin i n =
     (if i < n
      then if isSat (mem ! (notBin + i))
           then satisfied_not_bin isSat (std_swap mem (notBin + i) (notBin + (n - 1))) notBin i (n - 1)
           else satisfied_not_bin isSat mem notBin (i + 1) n
      else (mem, n))"
  by auto
termination by (relation "measure (\<lambda>(_, _, _, i, n). n - i)") auto

declare satisfied_not_bin.simps [simp del]

definition removeSatisfiedNotBin :: "(nat \<Rightarrow> bool) \<Rightarrow> DataOccurrence \<Rightarrow> DataOccurrence" where
  "removeSatisfiedNotBin isSat d =
     (case satisfied_not_bin isSat (do_mem d) (do_notBin d) 0 (do_nbNotBin d) of (mem, n) \<Rightarrow>
        d\<lparr>do_mem := mem, do_nbNotBin := n\<rparr>)"

text \<open>\<open>addBin\<close> writes in front of the window, \<open>addNotBin\<close> behind it; outside the block this is another literal's
  memory: \<open>None\<close>.\<close>

definition addBin :: "nat \<Rightarrow> DataOccurrence \<Rightarrow> DataOccurrence option" where
  "addBin idx d = (if do_bin d = 0 then None
     else Some (d\<lparr>do_bin := do_bin d - 1, do_mem := (do_mem d)[do_bin d - 1 := idx], do_nbBin := do_nbBin d + 1\<rparr>))"

definition addNotBin :: "nat \<Rightarrow> DataOccurrence \<Rightarrow> DataOccurrence option" where
  "addNotBin idx d = (if length (do_mem d) \<le> do_notBin d + do_nbNotBin d then None
     else Some (d\<lparr>do_mem := (do_mem d)[do_notBin d + do_nbNotBin d := idx], do_nbNotBin := do_nbNotBin d + 1\<rparr>))"

text \<open>The iterators, as the list of what they run over.\<close>

definition getBinClauses :: "DataOccurrence \<Rightarrow> nat list" where
  "getBinClauses d = take (do_nbBin d) (drop (do_bin d) (do_mem d))"

definition getNotBinClauses :: "DataOccurrence \<Rightarrow> nat list" where
  "getNotBinClauses d = take (do_nbNotBin d) (drop (do_notBin d) (do_mem d))"

definition getClauses :: "DataOccurrence \<Rightarrow> nat list" where
  "getClauses d = take (do_notBin d + do_nbNotBin d - do_bin d) (drop (do_bin d) (do_mem d))"

section \<open>Windows\<close>

definition window :: "'a list \<Rightarrow> nat \<Rightarrow> nat \<Rightarrow> 'a list" where
  "window xs a b = take (b - a) (drop a xs)"

lemma getBin_window: "getBinClauses d = window (do_mem d) (do_bin d) (do_bin d + do_nbBin d)"
  and getNotBin_window: "getNotBinClauses d = window (do_mem d) (do_notBin d) (do_notBin d + do_nbNotBin d)"
  by (simp_all add: getBinClauses_def getNotBinClauses_def window_def)

lemma window_empty [simp]: "b \<le> a \<Longrightarrow> window xs a b = []"
  by (simp add: window_def)

lemma window_append: "a \<le> b \<Longrightarrow> b \<le> c \<Longrightarrow> window xs a b @ window xs b c = window xs a c"
proof -
  assume ab: "a \<le> b" and bc: "b \<le> c"
  have "take (c - a) (drop a xs) = take (b - a) (drop a xs) @ take (c - b) (drop (b - a) (drop a xs))"
    using ab bc take_add [of "b - a" "c - b" "drop a xs"] by simp
  then show ?thesis using ab by (simp add: window_def)
qed

lemma window_one: "a < length xs \<Longrightarrow> window xs a (Suc a) = [xs ! a]"
  by (simp add: window_def take_Suc_conv_app_nth)

lemma window_Cons: "a < b \<Longrightarrow> b \<le> length xs \<Longrightarrow> window xs a b = xs ! a # window xs (Suc a) b"
  using window_append [of a "Suc a" b xs] window_one [of a xs] by simp

lemma window_snoc: "a < b \<Longrightarrow> b \<le> length xs \<Longrightarrow> window xs a b = window xs a (b - 1) @ [xs ! (b - 1)]"
  using window_append [of a "b - 1" b xs] window_one [of "b - 1" xs] by simp

lemma length_window [simp]: "b \<le> length xs \<Longrightarrow> length (window xs a b) = b - a"
  by (simp add: window_def)

lemma nth_window: "b \<le> length xs \<Longrightarrow> i < b - a \<Longrightarrow> window xs a b ! i = xs ! (a + i)"
  by (simp add: window_def)

lemma window_cong:
  assumes "length xs = length ys" "\<And>i. a \<le> i \<Longrightarrow> i < b \<Longrightarrow> xs ! i = ys ! i"
  shows "window xs a b = window ys a b"
  unfolding window_def using assms by (intro nth_equalityI) auto

lemma set_window_nth: "b \<le> length xs \<Longrightarrow> set (window xs a b) = {xs ! i | i. a \<le> i \<and> i < b}"
proof -
  assume b: "b \<le> length xs"
  have "x \<in> set (window xs a b) \<longleftrightarrow> (\<exists>i. a \<le> i \<and> i < b \<and> xs ! i = x)" for x
  proof
    assume "x \<in> set (window xs a b)"
    then obtain i where "i < b - a" "x = xs ! (a + i)" using b by (auto simp: in_set_conv_nth nth_window)
    then show "\<exists>i. a \<le> i \<and> i < b \<and> xs ! i = x" by (intro exI [of _ "a + i"]) auto
  next
    assume "\<exists>i. a \<le> i \<and> i < b \<and> xs ! i = x"
    then obtain i where "a \<le> i" "i < b" "xs ! i = x" by blast
    then show "x \<in> set (window xs a b)" using b by (auto simp: in_set_conv_nth nth_window intro!: exI [of _ "i - a"])
  qed
  then show ?thesis by auto
qed

lemma mset_window_swap:
  assumes "a \<le> i" "i < b" "a \<le> j" "j < b" "b \<le> length xs"
  shows "mset (window (std_swap xs i j) a b) = mset (window xs a b)"
proof -
  have "window (std_swap xs i j) a b = (window xs a b)[i - a := window xs a b ! (j - a), j - a := window xs a b ! (i - a)]"
    using assms by (intro nth_equalityI) (auto simp: nth_window std_swap_def nth_list_update)
  then show ?thesis using assms by (simp only: mset_swap_update length_window)
qed

text \<open>A change inside \<open>[a, b)\<close> that permutes it.\<close>

definition permutes_window :: "nat list \<Rightarrow> nat list \<Rightarrow> nat \<Rightarrow> nat \<Rightarrow> bool" where
  "permutes_window xs ys a b \<longleftrightarrow> length ys = length xs \<and> mset (window ys a b) = mset (window xs a b) \<and>
     (\<forall>k. \<not> (a \<le> k \<and> k < b) \<longrightarrow> ys ! k = xs ! k)"

lemma permutes_window_refl [simp]: "permutes_window xs xs a b"
  by (simp add: permutes_window_def)

lemma permutes_window_trans: "permutes_window xs ys a b \<Longrightarrow> permutes_window ys zs a b \<Longrightarrow> permutes_window xs zs a b"
  by (simp add: permutes_window_def)

lemma permutes_window_mono:
  assumes "permutes_window xs ys a b" "a' \<le> a" "b \<le> b'" "a \<le> b"
  shows "permutes_window xs ys a' b'"
proof -
  have "window ys a' a = window xs a' a" "window ys b b' = window xs b b'"
    using assms(1) by (auto simp: permutes_window_def intro!: window_cong)
  moreover have "window zs a' b' = window zs a' a @ window zs a b @ window zs b b'" for zs :: "nat list"
    using assms(2,3,4) by (simp add: window_append)
  ultimately show ?thesis using assms by (auto simp: permutes_window_def)
qed

lemma permutes_window_swap:
  "a \<le> i \<Longrightarrow> i < b \<Longrightarrow> a \<le> j \<Longrightarrow> j < b \<Longrightarrow> b \<le> length xs \<Longrightarrow> permutes_window xs (std_swap xs i j) a b"
  unfolding permutes_window_def using mset_window_swap [of a i b j xs] std_swap_other
  by (metis length_std_swap)

section \<open>The loops filter their window\<close>

lemma satisfied_bin_ok:
  assumes "b \<le> e" "e \<le> en" "en \<le> length mem" "\<forall>x\<in>set (window mem e en). \<not> isSat x"
  shows "case satisfied_bin isSat mem b e of (mem', b') \<Rightarrow>
    b \<le> b' \<and> b' \<le> en \<and> permutes_window mem mem' b en \<and>
    mset (window mem' b' en) = filter_mset (\<lambda>x. \<not> isSat x) (mset (window mem b en))"
  using assms
proof (induction isSat mem b e rule: satisfied_bin.induct)
  case (1 isSat mem b e)
  show ?case
  proof (cases "b < e")
    case lt: True
    show ?thesis
    proof (cases "isSat (mem ! (e - 1))")
      case False
      have "window mem (e - 1) en = mem ! (e - 1) # window mem e en"
        using lt "1.prems" window_Cons [of "e - 1" en mem] by auto
      then have "\<forall>x\<in>set (window mem (e - 1) en). \<not> isSat x" using "1.prems"(4) False by simp
      then have "case satisfied_bin isSat mem b (e - 1) of (mem', b') \<Rightarrow>
          b \<le> b' \<and> b' \<le> en \<and> permutes_window mem mem' b en \<and>
          mset (window mem' b' en) = filter_mset (\<lambda>x. \<not> isSat x) (mset (window mem b en))"
        using "1.prems" lt False by (intro "1.IH"(1)) auto
      then show ?thesis using lt False satisfied_bin.simps [of isSat mem b e] by simp
    next
      case True
      let ?m = "std_swap mem (e - 1) b"
      have m: "permutes_window mem ?m b en" using lt "1.prems" by (intro permutes_window_swap) auto
      have "window ?m e en = window mem e en" using lt by (intro window_cong) (auto simp: std_swap_other)
      then have "\<forall>x\<in>set (window ?m e en). \<not> isSat x" using "1.prems"(4) by simp
      then have IH: "case satisfied_bin isSat ?m (b + 1) e of (mem', b') \<Rightarrow>
          b + 1 \<le> b' \<and> b' \<le> en \<and> permutes_window ?m mem' (b + 1) en \<and>
          mset (window mem' b' en) = filter_mset (\<lambda>x. \<not> isSat x) (mset (window ?m (b + 1) en))"
        using "1.prems" lt True by (intro "1.IH"(2)) auto
      have "?m ! b = mem ! (e - 1)" using lt "1.prems" by (simp add: std_swap_def nth_list_update)
      then have "window ?m b en = mem ! (e - 1) # window ?m (b + 1) en"
        using lt "1.prems" window_Cons [of b en ?m] by simp
      then have "filter_mset (\<lambda>x. \<not> isSat x) (mset (window ?m (b + 1) en)) =
          filter_mset (\<lambda>x. \<not> isSat x) (mset (window mem b en))"
        using m True by (simp add: permutes_window_def) (metis (no_types, lifting) filter_mset_add_mset)
      then show ?thesis
        using IH m lt True satisfied_bin.simps [of isSat mem b e] "1.prems"
          permutes_window_trans [OF m] permutes_window_mono [of ?m _ "b + 1" en b en]
        by (auto split: prod.splits)
    qed
  next
    case False
    then have "filter_mset (\<lambda>x. \<not> isSat x) (mset (window mem b en)) = mset (window mem b en)"
      using "1.prems" by (intro filter_mset_eq_conv [THEN iffD2]) auto
    then show ?thesis using False "1.prems" by (subst satisfied_bin.simps) simp
  qed
qed

lemma satisfied_not_bin_ok:
  assumes "i \<le> n" "n \<le> n0" "nb + n0 \<le> length mem" "\<forall>x\<in>set (window mem nb (nb + i)). \<not> isSat x"
  shows "case satisfied_not_bin isSat mem nb i n of (mem', n') \<Rightarrow>
    n' \<le> n \<and> permutes_window mem mem' nb (nb + n) \<and>
    mset (window mem' nb (nb + n')) = filter_mset (\<lambda>x. \<not> isSat x) (mset (window mem nb (nb + n)))"
  using assms
proof (induction isSat mem nb i n rule: satisfied_not_bin.induct)
  case (1 isSat mem nb i n)
  show ?case
  proof (cases "i < n")
    case lt: True
    show ?thesis
    proof (cases "isSat (mem ! (nb + i))")
      case False
      have "window mem nb (nb + (i + 1)) = window mem nb (nb + i) @ [mem ! (nb + i)]"
        using lt "1.prems" window_snoc [of nb "nb + (i + 1)" mem] by simp
      then have "\<forall>x\<in>set (window mem nb (nb + (i + 1))). \<not> isSat x" using "1.prems"(4) False by simp
      then show ?thesis
        using lt False "1.IH"(2) "1.prems" satisfied_not_bin.simps [of isSat mem nb i n] by simp
    next
      case True
      let ?m = "std_swap mem (nb + i) (nb + (n - 1))"
      have m: "permutes_window mem ?m nb (nb + n)" using lt "1.prems" by (intro permutes_window_swap) auto
      have "window ?m nb (nb + i) = window mem nb (nb + i)" using lt by (intro window_cong) (auto simp: std_swap_other)
      then have "\<forall>x\<in>set (window ?m nb (nb + i)). \<not> isSat x" using "1.prems"(4) by simp
      then have IH: "case satisfied_not_bin isSat ?m nb i (n - 1) of (mem', n') \<Rightarrow>
          n' \<le> n - 1 \<and> permutes_window ?m mem' nb (nb + (n - 1)) \<and>
          mset (window mem' nb (nb + n')) = filter_mset (\<lambda>x. \<not> isSat x) (mset (window ?m nb (nb + (n - 1))))"
        using "1.prems" lt True by (intro "1.IH"(1)) auto
      have "?m ! (nb + (n - 1)) = mem ! (nb + i)" using lt "1.prems" by (simp add: std_swap_def nth_list_update)
      then have "window ?m nb (nb + n) = window ?m nb (nb + (n - 1)) @ [mem ! (nb + i)]"
        using lt "1.prems" window_snoc [of nb "nb + n" ?m] by simp
      then have "filter_mset (\<lambda>x. \<not> isSat x) (mset (window ?m nb (nb + (n - 1)))) =
          filter_mset (\<lambda>x. \<not> isSat x) (mset (window ?m nb (nb + n)))"
        using True by simp
      also have "\<dots> = filter_mset (\<lambda>x. \<not> isSat x) (mset (window mem nb (nb + n)))"
        using m by (simp add: permutes_window_def)
      finally show ?thesis
        using IH m lt True satisfied_not_bin.simps [of isSat mem nb i n]
          permutes_window_trans [OF m] permutes_window_mono [of ?m _ nb "nb + (n - 1)" nb "nb + n"]
        by (auto split: prod.splits)
    qed
  next
    case False
    then have "filter_mset (\<lambda>x. \<not> isSat x) (mset (window mem nb (nb + n))) = mset (window mem nb (nb + n))"
      using "1.prems" by (intro filter_mset_eq_conv [THEN iffD2]) auto
    then show ?thesis using False by (subst satisfied_not_bin.simps) simp
  qed
qed

section \<open>What the operations keep and what a reset restores\<close>

definition occ_ok :: "DataOccurrence \<Rightarrow> bool" where
  "occ_ok d \<longleftrightarrow> do_bin d + do_nbBin d = do_notBin d \<and> do_notBin d + do_nbNotBin d \<le> length (do_mem d)"

text \<open>Two adjacent windows, each permuted in itself.\<close>

definition occ_perm :: "nat list \<Rightarrow> nat list \<Rightarrow> nat \<Rightarrow> nat \<Rightarrow> nat \<Rightarrow> bool" where
  "occ_perm xs ys a b c \<longleftrightarrow> length ys = length xs \<and> mset (window ys a b) = mset (window xs a b) \<and>
     mset (window ys b c) = mset (window xs b c) \<and> (\<forall>k. \<not> (a \<le> k \<and> k < c) \<longrightarrow> ys ! k = xs ! k)"

definition occ_sub :: "DataOccurrence \<Rightarrow> DataOccurrence \<Rightarrow> bool" where
  "occ_sub d0 d \<longleftrightarrow> occ_ok d \<and> do_notBin d = do_notBin d0 \<and> do_bin d0 \<le> do_bin d \<and>
     do_nbNotBin d \<le> do_nbNotBin d0 \<and>
     occ_perm (do_mem d0) (do_mem d) (do_bin d0) (do_notBin d0) (do_notBin d0 + do_nbNotBin d0)"

definition occ_equiv :: "DataOccurrence \<Rightarrow> DataOccurrence \<Rightarrow> bool" where
  "occ_equiv d0 d \<longleftrightarrow> occ_sub d0 d \<and> do_bin d = do_bin d0 \<and> do_nbNotBin d = do_nbNotBin d0"

lemma occ_perm_refl [simp]: "occ_perm xs xs a b c"
  by (simp add: occ_perm_def)

lemma occ_perm_trans: "occ_perm xs ys a b c \<Longrightarrow> occ_perm ys zs a b c \<Longrightarrow> occ_perm xs zs a b c"
  by (simp add: occ_perm_def)

lemma occ_perm_left: "permutes_window xs ys a b \<Longrightarrow> a \<le> b \<Longrightarrow> b \<le> c \<Longrightarrow> occ_perm xs ys a b c"
  using window_cong [of ys xs b c] by (auto simp: occ_perm_def permutes_window_def)

lemma occ_perm_right: "permutes_window xs ys b c \<Longrightarrow> a \<le> b \<Longrightarrow> b \<le> c \<Longrightarrow> occ_perm xs ys a b c"
  using window_cong [of ys xs a b] by (auto simp: occ_perm_def permutes_window_def)

lemma occ_perm_mono:
  assumes "occ_perm xs ys a b c" "a' \<le> a" "a \<le> b" "b \<le> c" "c \<le> c'"
  shows "occ_perm xs ys a' b c'"
proof -
  have "window ys a' a = window xs a' a" "window ys c c' = window xs c c'"
    using assms(1) by (auto simp: occ_perm_def intro!: window_cong)
  moreover have "window zs a' b = window zs a' a @ window zs a b" "window zs b c' = window zs b c @ window zs c c'" for zs :: "nat list"
    using assms(2-5) by (simp_all add: window_append)
  ultimately show ?thesis using assms by (auto simp: occ_perm_def)
qed

lemma occ_sub_refl: "occ_ok d \<Longrightarrow> occ_sub d d"
  by (simp add: occ_sub_def)

lemma occ_sub_ok: "occ_sub d0 d \<Longrightarrow> occ_ok d"
  by (simp add: occ_sub_def)

lemma occ_sub_trans:
  assumes "occ_sub d0 d1" "occ_sub d1 d2"
  shows "occ_sub d0 d2"
proof -
  have "do_bin d1 \<le> do_notBin d1" using assms(1) by (simp add: occ_sub_def occ_ok_def)
  then have "occ_perm (do_mem d1) (do_mem d2) (do_bin d0) (do_notBin d0) (do_notBin d0 + do_nbNotBin d0)"
    using assms by (auto simp: occ_sub_def intro: occ_perm_mono)
  then show ?thesis using assms by (auto simp: occ_sub_def intro: occ_perm_trans)
qed

lemma occ_equiv_refl: "occ_ok d \<Longrightarrow> occ_equiv d d"
  by (simp add: occ_equiv_def occ_sub_refl)

lemma occ_equiv_trans: "occ_equiv d0 d1 \<Longrightarrow> occ_equiv d1 d2 \<Longrightarrow> occ_equiv d0 d2"
  by (auto simp: occ_equiv_def intro: occ_sub_trans)

lemma clean_sub:
  assumes "occ_ok d"
  shows "occ_sub d (occ_clean d)" "getBinClauses (occ_clean d) = []" "getNotBinClauses (occ_clean d) = []"
  using assms by (simp_all add: occ_sub_def occ_ok_def occ_clean_def cleanBin_def cleanNotBin_def
      getBinClauses_def getNotBinClauses_def)

lemma getClauses_append:
  assumes "occ_ok d"
  shows "getClauses d = getBinClauses d @ getNotBinClauses d"
proof -
  have "getClauses d = window (do_mem d) (do_bin d) (do_notBin d + do_nbNotBin d)"
    by (simp add: getClauses_def window_def)
  then show ?thesis using assms window_append [of "do_bin d" "do_notBin d" "do_notBin d + do_nbNotBin d" "do_mem d"]
    by (simp add: getBin_window getNotBin_window occ_ok_def)
qed

lemma removeSatisfiedNotBin_ok:
  assumes "occ_ok d"
  shows "occ_sub d (removeSatisfiedNotBin isSat d)"
    "mset (getNotBinClauses (removeSatisfiedNotBin isSat d)) = filter_mset (\<lambda>x. \<not> isSat x) (mset (getNotBinClauses d))"
    "getBinClauses (removeSatisfiedNotBin isSat d) = getBinClauses d"
proof -
  obtain mem n where m: "satisfied_not_bin isSat (do_mem d) (do_notBin d) 0 (do_nbNotBin d) = (mem, n)" by fastforce
  then have ok: "n \<le> do_nbNotBin d" "permutes_window (do_mem d) mem (do_notBin d) (do_notBin d + do_nbNotBin d)"
    "mset (window mem (do_notBin d) (do_notBin d + n)) =
      filter_mset (\<lambda>x. \<not> isSat x) (mset (window (do_mem d) (do_notBin d) (do_notBin d + do_nbNotBin d)))"
    using satisfied_not_bin_ok [of 0 "do_nbNotBin d" "do_nbNotBin d" "do_notBin d" "do_mem d" isSat] assms
    by (simp_all add: occ_ok_def)
  have r: "removeSatisfiedNotBin isSat d = d\<lparr>do_mem := mem, do_nbNotBin := n\<rparr>"
    by (simp add: removeSatisfiedNotBin_def m)
  show "occ_sub d (removeSatisfiedNotBin isSat d)"
    using ok(1,2) assms occ_perm_right [OF ok(2), of "do_bin d"]
    by (simp add: r occ_sub_def occ_ok_def permutes_window_def)
  show "mset (getNotBinClauses (removeSatisfiedNotBin isSat d)) = filter_mset (\<lambda>x. \<not> isSat x) (mset (getNotBinClauses d))"
    using ok(3) by (simp add: r getNotBin_window)
  show "getBinClauses (removeSatisfiedNotBin isSat d) = getBinClauses d"
    using ok(2) assms unfolding r getBin_window
    by (auto simp: permutes_window_def occ_ok_def intro!: window_cong)
qed

lemma removeSatisfiedBin_ok:
  assumes "occ_ok d"
  shows "occ_sub d (removeSatisfiedBin isSat d)"
    "mset (getBinClauses (removeSatisfiedBin isSat d)) = filter_mset (\<lambda>x. \<not> isSat x) (mset (getBinClauses d))"
    "getNotBinClauses (removeSatisfiedBin isSat d) = getNotBinClauses d"
proof -
  obtain mem b where m: "satisfied_bin isSat (do_mem d) (do_bin d) (do_notBin d) = (mem, b)" by fastforce
  have en: "do_bin d + do_nbBin d = do_notBin d" using assms by (simp add: occ_ok_def)
  then have ok: "do_bin d \<le> b" "b \<le> do_notBin d" "permutes_window (do_mem d) mem (do_bin d) (do_notBin d)"
    "mset (window mem b (do_notBin d)) =
      filter_mset (\<lambda>x. \<not> isSat x) (mset (window (do_mem d) (do_bin d) (do_notBin d)))"
    using satisfied_bin_ok [of "do_bin d" "do_notBin d" "do_notBin d" "do_mem d" isSat] assms m
    by (simp_all add: occ_ok_def)
  have "satisfied_bin isSat (do_mem d) (do_bin d) (do_notBin d) = (do_mem d, do_bin d)" if "do_nbBin d = 0"
    using that en by (subst satisfied_bin.simps) simp
  then have r: "removeSatisfiedBin isSat d = d\<lparr>do_mem := mem, do_bin := b, do_nbBin := do_notBin d - b\<rparr>"
    using m en by (auto simp: removeSatisfiedBin_def Let_def)
  show "occ_sub d (removeSatisfiedBin isSat d)"
    using ok assms occ_perm_left [OF ok(3), of "do_notBin d + do_nbNotBin d"] en
    by (simp add: r occ_sub_def occ_ok_def permutes_window_def)
  show "mset (getBinClauses (removeSatisfiedBin isSat d)) = filter_mset (\<lambda>x. \<not> isSat x) (mset (getBinClauses d))"
    using ok(2,4) en by (simp add: r getBin_window)
  show "getNotBinClauses (removeSatisfiedBin isSat d) = getNotBinClauses d"
    using ok(3) unfolding r getNotBin_window by (auto simp: permutes_window_def intro!: window_cong)
qed

lemma equiv_windows:
  assumes "occ_equiv d0 d" "occ_ok d0"
  shows "mset (getBinClauses d) = mset (getBinClauses d0)" "mset (getNotBinClauses d) = mset (getNotBinClauses d0)"
proof -
  have "do_bin d0 + do_nbBin d = do_notBin d0" "do_bin d0 + do_nbBin d0 = do_notBin d0"
    using assms by (auto simp: occ_equiv_def occ_sub_def occ_ok_def)
  then show "mset (getBinClauses d) = mset (getBinClauses d0)" "mset (getNotBinClauses d) = mset (getNotBinClauses d0)"
    using assms(1) by (auto simp: getBin_window getNotBin_window occ_equiv_def occ_sub_def occ_perm_def)
qed

text \<open>Resetting the counters to saved ones, as \<open>postUpdate\<close> does.\<close>

definition occ_reset :: "nat \<Rightarrow> nat \<Rightarrow> DataOccurrence \<Rightarrow> DataOccurrence" where
  "occ_reset nbBin nbNotBin d = d\<lparr>do_nbNotBin := nbNotBin, do_bin := do_bin d - (nbBin - do_nbBin d), do_nbBin := nbBin\<rparr>"

lemma occ_reset_equiv:
  assumes "occ_sub d0 d" "occ_ok d0"
  shows "occ_equiv d0 (occ_reset (do_nbBin d0) (do_nbNotBin d0) d)"
  using assms by (auto simp: occ_equiv_def occ_sub_def occ_reset_def occ_ok_def occ_perm_def)

lemma occ_sub_counts:
  assumes "occ_sub d0 d" "occ_ok d0"
  shows "do_nbBin d \<le> do_nbBin d0" "do_nbNotBin d \<le> do_nbNotBin d0"
  using assms by (auto simp: occ_sub_def occ_ok_def)

end
