(* ===== verification/D4_Cnf_Manager.thy ===== *)
theory D4_Cnf_Manager
  imports D4_Occurrence D4_Problem
begin

text \<open>
  \<open>3rdParty/d4/src/formulaManager\<close>: \<open>FormulaManager\<close> (the current assignment) and \<open>CnfManager\<close> (clauses, occurrence
  lists, clause informations), its construction and its queries. The class hierarchy is record extension. A clause
  index is a \<open>nat\<close>, a literal indexes the vectors by its code.
\<close>

section \<open>The assignment\<close>

record FormulaManager =
  fm_nbVar :: int
  fm_currentValue :: "int list"

definition mkFormulaManager :: "int \<Rightarrow> FormulaManager" where
  "mkFormulaManager n = \<lparr>fm_nbVar = n, fm_currentValue = replicate (nat (n + 1)) l_Undef\<rparr>"

definition assignListLit :: "ILit list \<Rightarrow> 'a FormulaManager_scheme \<Rightarrow> 'a FormulaManager_scheme" where
  "assignListLit lits M =
     fold (\<lambda>l M. M\<lparr>fm_currentValue := vset (fm_currentValue M) (ilit_var l) (of_bool (ilit_sign l))\<rparr>) lits M"

definition assignLit :: "int \<Rightarrow> int \<Rightarrow> 'a FormulaManager_scheme \<Rightarrow> 'a FormulaManager_scheme" where
  "assignLit v val M = M\<lparr>fm_currentValue := vset (fm_currentValue M) v val\<rparr>"

definition fm_getValue :: "'a FormulaManager_scheme \<Rightarrow> int \<Rightarrow> int" where
  "fm_getValue M v = vget (fm_currentValue M) v"

definition varIsAssigned :: "'a FormulaManager_scheme \<Rightarrow> int \<Rightarrow> bool" where
  "varIsAssigned M v \<longleftrightarrow> vget (fm_currentValue M) v \<noteq> l_Undef"

definition litIsAssigned :: "'a FormulaManager_scheme \<Rightarrow> ILit \<Rightarrow> bool" where
  "litIsAssigned M l \<longleftrightarrow> vget (fm_currentValue M) (ilit_var l) \<noteq> l_Undef"

definition litIsAssignedToTrue :: "'a FormulaManager_scheme \<Rightarrow> ILit \<Rightarrow> bool" where
  "litIsAssignedToTrue M l =
     (if ilit_sign l then vget (fm_currentValue M) (ilit_var l) = l_False
      else vget (fm_currentValue M) (ilit_var l) = l_True)"

definition showTrail :: "'a FormulaManager_scheme \<Rightarrow> string" where
  "showTrail M = concat (map (\<lambda>i. if \<not> varIsAssigned M i then []
     else let l = ilit_make i False
          in (if litIsAssignedToTrue M l then ilit_text l @ '' '' else ilit_text (ilit_neg l) @ '' ''))
     [1..fm_nbVar M]) @ [newline]"

text \<open>\<open>isFree\<close> is the virtual \<open>isFreeVariable\<close>.\<close>

definition computeTrivialConnectedComponent ::
  "(int \<Rightarrow> bool) \<Rightarrow> 'a FormulaManager_scheme \<Rightarrow> int list \<Rightarrow> int list list \<times> int list" where
  "computeTrivialConnectedComponent isFree M setOfVar =
     (let active = filter (\<lambda>v. \<not> varIsAssigned M v) setOfVar;
          freeVar = filter isFree active;
          component = filter (\<lambda>v. \<not> isFree v) active
      in (if component = [] then [] else [component], freeVar))"

section \<open>Which manager is built\<close>

datatype SpecUpdateType = SPEC_DYNAMIC | SPEC_DYNAMIC_BLOCKED_SIMP | SPEC_DYNAMIC_PURE_SIMP

definition specUpdateName :: "SpecUpdateType \<Rightarrow> string" where
  "specUpdateName m =
     (if m = SPEC_DYNAMIC then ''dynamic''
      else if m = SPEC_DYNAMIC_BLOCKED_SIMP then ''dynamicBlockedSimp''
      else ''dynamicPureSimp'')"

definition getSpecUpdate :: "string \<Rightarrow> factory_error + SpecUpdateType" where
  "getSpecUpdate m =
     (if m = ''dynamic'' then Inr SPEC_DYNAMIC
      else if m = ''dynamicBlockedSimp'' then Inr SPEC_DYNAMIC_BLOCKED_SIMP
      else if m = ''dynamicPureSimp'' then Inr SPEC_DYNAMIC_PURE_SIMP
      else Inl (FactoryException ''Operator Type unknown''))"

record OptionSpecManager =
  os_specUpdateType :: SpecUpdateType
  os_removeGates :: bool
  os_needFastNotSatisfied :: bool

definition specOptionText :: "OptionSpecManager \<Rightarrow> string" where
  "specOptionText dt = '' Option Formula Manager:'' @ '' update mode('' @ specUpdateName (os_specUpdateType dt) @
     '') rm-gates('' @ show_int (of_bool (os_removeGates dt)) @ '') need-not-satisfied('' @
     show_int (of_bool (os_needFastNotSatisfied dt)) @ '') ''"

datatype manager_class =
  MakeCircuitWithCnf bool | MakeCnfDyn bool | MakeCnfDynBlockedCl | MakeCnfDynPure | ExitBadOption

definition makeFormulaManager :: "OptionSpecManager \<Rightarrow> ProblemInputType \<Rightarrow> manager_class" where
  "makeFormulaManager options t = (case t of
     PB_CIRC \<Rightarrow> MakeCircuitWithCnf (os_removeGates options)
   | PB_NONE \<Rightarrow> ExitBadOption
   | _ \<Rightarrow> (case os_specUpdateType options of
        SPEC_DYNAMIC \<Rightarrow> MakeCnfDyn (os_needFastNotSatisfied options)
      | SPEC_DYNAMIC_BLOCKED_SIMP \<Rightarrow> MakeCnfDynBlockedCl
      | SPEC_DYNAMIC_PURE_SIMP \<Rightarrow> MakeCnfDynPure))"

section \<open>CNF managers\<close>

record InfoCluster =
  ic_parent :: nat
  ic_size :: nat
  ic_pos :: int

record CnfManager = FormulaManager +
  cm_clauses :: "ILit list list"
  cm_clausesNotBin :: "nat list"
  cm_maxSizeClause :: nat
  cm_infoClauses :: "ClauseInfo list"
  cm_inCurrentComponent :: "bool list"
  cm_occurrence :: "DataOccurrence list"
  cm_occInitSizeNotBin :: "nat list"
  cm_infoCluster :: "InfoCluster list"
  cm_mustUnMark :: "nat list"
  cm_tmpVecVar :: "int list"
  cm_idxComponent :: "int list"
  cm_markView :: "bool list"

text \<open>The block of a literal: the first pass fills binary clauses from the left and the others from the right.\<close>

fun fill_occ :: "(nat \<Rightarrow> bool) \<Rightarrow> nat list \<Rightarrow> nat list \<Rightarrow> nat \<Rightarrow> nat \<Rightarrow> nat list \<times> nat \<times> nat" where
  "fill_occ bin [] ptr nb notBin = (ptr, nb, notBin)"
| "fill_occ bin (idx # occList) ptr nb notBin =
     (if bin idx then fill_occ bin occList (ptr[nb := idx]) (nb + 1) notBin
      else fill_occ bin occList (ptr[notBin - 1 := idx]) nb (notBin - 1))"

definition make_occ :: "ILit list list \<Rightarrow> nat list \<Rightarrow> DataOccurrence" where
  "make_occ clauses occList =
     (case fill_occ (\<lambda>idx. length (clauses ! idx) = 2) occList (replicate (length occList) 0) 0 (length occList) of
        (ptr, nb, notBin) \<Rightarrow>
          \<lparr>do_mem = ptr, do_bin = 0, do_notBin = notBin, do_nbNotBin = length occList - nb, do_nbBin = nb\<rparr>)"

text \<open>\<open>occurrence[l.intern()].push_back(i)\<close> for every literal of every clause.\<close>

definition occ_lists :: "int \<Rightarrow> ILit list list \<Rightarrow> nat list list" where
  "occ_lists n clauses =
     fold (\<lambda>i occ. fold (\<lambda>l occ. vset occ (ilit_intern l) (vget occ (ilit_intern l) @ [i])) (clauses ! i) occ)
       [0..<length clauses] (replicate (nat (2 * (n + 1))) [])"

definition xor_info :: "ILit list \<Rightarrow> ClauseInfo" where
  "xor_info c = new_ClauseInfo\<lparr>ci_xorLitBin :=
     (if length c = 2 then uint (m_x (c ! 0) XOR m_x (c ! 1)) else 0)\<rparr>"

definition mkCnfManager :: "'w ProblemManager \<Rightarrow> CnfManager" where
  "mkCnfManager p =
     (let n = pm_nbVar p; clauses = pm_clauses p; nbClause = length clauses;
          occ = map (make_occ clauses) (occ_lists n clauses)
      in \<lparr>fm_nbVar = n, fm_currentValue = replicate (nat (n + 1)) l_Undef,
          cm_clauses = clauses,
          cm_clausesNotBin = filter (\<lambda>i. 2 < length (clauses ! i)) [0..<nbClause],
          cm_maxSizeClause = fold (\<lambda>c m. max (length c) m) clauses 0,
          cm_infoClauses = map xor_info clauses,
          cm_inCurrentComponent = replicate (nat (n + 1)) False,
          cm_occurrence = occ,
          cm_occInitSizeNotBin = map do_nbNotBin occ,
          cm_infoCluster = replicate (nat (n + int nbClause + 1)) \<lparr>ic_parent = 0, ic_size = 0, ic_pos = -1\<rparr>,
          cm_mustUnMark = [], cm_tmpVecVar = [],
          cm_idxComponent = replicate (nat (n + 1)) 0,
          cm_markView = replicate nbClause False\<rparr>)"

definition resetUnMark :: "'a CnfManager_scheme \<Rightarrow> 'a CnfManager_scheme" where
  "resetUnMark M = M\<lparr>cm_markView := fold (\<lambda>idx mv. mv[idx := False]) (cm_mustUnMark M) (cm_markView M),
     cm_mustUnMark := []\<rparr>"

section \<open>Queries\<close>

definition occ_of :: "'a CnfManager_scheme \<Rightarrow> ILit \<Rightarrow> DataOccurrence" where
  "occ_of M l = vget (cm_occurrence M) (ilit_intern l)"

definition getInitSize :: "'a CnfManager_scheme \<Rightarrow> nat \<Rightarrow> int" where
  "getInitSize M i = int (length (cm_clauses M ! i))"

definition getCurrentSize :: "'a CnfManager_scheme \<Rightarrow> nat \<Rightarrow> int" where
  "getCurrentSize M i = int (length (cm_clauses M ! i)) - ci_nbUnsat (cm_infoClauses M ! i)"

definition getNbClauseLit :: "'a CnfManager_scheme \<Rightarrow> ILit \<Rightarrow> nat" where
  "getNbClauseLit M l = do_nbBin (occ_of M l) + do_nbNotBin (occ_of M l)"

definition getNbClauseVar :: "'a CnfManager_scheme \<Rightarrow> int \<Rightarrow> nat" where
  "getNbClauseVar M v = getNbClauseLit M (ilit_make_false v) + getNbClauseLit M (ilit_make_true v)"

definition getNbOccurrence :: "'a CnfManager_scheme \<Rightarrow> ILit \<Rightarrow> nat" where
  "getNbOccurrence M l = getNbClauseLit M l"

definition isFreeVariable :: "'a CnfManager_scheme \<Rightarrow> int \<Rightarrow> bool" where
  "isFreeVariable M v \<longleftrightarrow>
     getNbOccurrence M (ilit_make_false v) = 0 \<and> getNbOccurrence M (ilit_make_true v) = 0"

definition getSize :: "'a CnfManager_scheme \<Rightarrow> nat \<Rightarrow> int" where
  "getSize M idx = int (length (cm_clauses M ! idx)) - ci_nbUnsat (cm_infoClauses M ! idx)"

definition getNbBinaryClauseLit :: "'a CnfManager_scheme \<Rightarrow> ILit \<Rightarrow> nat" where
  "getNbBinaryClauseLit M l = do_nbBin (occ_of M l) +
     length (filter (\<lambda>idx. getSize M idx = 2) (getNotBinClauses (occ_of M l)))"

definition getNbBinaryClauseVar :: "'a CnfManager_scheme \<Rightarrow> int \<Rightarrow> nat" where
  "getNbBinaryClauseVar M v = getNbBinaryClauseLit M (ilit_make_false v) + getNbBinaryClauseLit M (ilit_make_true v)"

definition getNbNotBinaryClauseLit :: "'a CnfManager_scheme \<Rightarrow> ILit \<Rightarrow> int" where
  "getNbNotBinaryClauseLit M l = int (getNbClauseLit M l) - int (getNbBinaryClauseLit M l)"

definition getNbNotBinaryClauseVar :: "'a CnfManager_scheme \<Rightarrow> int \<Rightarrow> int" where
  "getNbNotBinaryClauseVar M v = int (getNbClauseVar M v) - int (getNbBinaryClauseVar M v)"

definition getNbInitNotBinaryClause :: "'a CnfManager_scheme \<Rightarrow> ILit \<Rightarrow> nat" where
  "getNbInitNotBinaryClause M l = vget (cm_occInitSizeNotBin M) (ilit_intern l)"

definition getNbRemainingInitNotBinaryClause :: "'a CnfManager_scheme \<Rightarrow> ILit \<Rightarrow> nat" where
  "getNbRemainingInitNotBinaryClause M l = do_nbNotBin (occ_of M l)"

definition getSumSizeClauses :: "'a CnfManager_scheme \<Rightarrow> nat" where
  "getSumSizeClauses M = fold (\<lambda>cl sum. sum + length cl) (cm_clauses M) 0"

datatype ModeStore = CACHE_ALL | CACHE_NB | CACHE_NT

definition getVecIdxClauseBin :: "'a CnfManager_scheme \<Rightarrow> ILit \<Rightarrow> nat list" where
  "getVecIdxClauseBin M l = getBinClauses (occ_of M l)"

definition getVecIdxClauseNotBin :: "'a CnfManager_scheme \<Rightarrow> ILit \<Rightarrow> nat list" where
  "getVecIdxClauseNotBin M l = getNotBinClauses (occ_of M l)"

definition getVecIdxClause :: "'a CnfManager_scheme \<Rightarrow> ILit \<Rightarrow> nat list" where
  "getVecIdxClause M l = getClauses (occ_of M l)"

definition getVecIdxClauseMode :: "'a CnfManager_scheme \<Rightarrow> ILit \<Rightarrow> ModeStore \<Rightarrow> nat list" where
  "getVecIdxClauseMode M l mode =
     (if mode = CACHE_NT then getNotBinClauses (occ_of M l)
      else if mode = CACHE_ALL then getClauses (occ_of M l)
      else getBinClauses (occ_of M l))"

definition showOccurenceList :: "'a CnfManager_scheme \<Rightarrow> string" where
  "showOccurenceList M = concat (map (\<lambda>i. let d = vget (cm_occurrence M) i in
     if vget (fm_currentValue M) (i div 2) \<noteq> l_Undef then []
     else if do_nbBin d = 0 \<and> do_nbNotBin d = 0 then []
     else (if odd i then ''-'' else []) @ show_int (i div 2) @ '' --> [ '' @
       concat (map (\<lambda>j. show_int (int j) @ '' '') (getBinClauses d)) @
       concat (map (\<lambda>j. show_int (int j) @ '' '') (getNotBinClauses d)) @ '' ]'' @ [newline])
     [0..int (length (cm_occurrence M)) - 1])"

definition isSatisfiedClauseIdx :: "'a CnfManager_scheme \<Rightarrow> nat \<Rightarrow> bool" where
  "isSatisfiedClauseIdx M idx = ci_isSat (cm_infoClauses M ! idx)"

definition isSatisfiedClause :: "'a FormulaManager_scheme \<Rightarrow> ILit list \<Rightarrow> bool" where
  "isSatisfiedClause M c = list_ex (\<lambda>l. if \<not> litIsAssigned M l then False
     else ilit_sign l \<and> vget (fm_currentValue M) (ilit_var l) = l_False \<or>
       \<not> ilit_sign l \<and> vget (fm_currentValue M) (ilit_var l) = l_True) c"

definition isNotSatisfiedClauseAndInComponent :: "'a CnfManager_scheme \<Rightarrow> nat \<Rightarrow> bool list \<Rightarrow> bool" where
  "isNotSatisfiedClauseAndInComponent M idx inCurrentComponent =
     (if ci_isSat (cm_infoClauses M ! idx) then False
      else vget inCurrentComponent (ilit_var (cm_clauses M ! idx ! 0)))"

definition showFormula :: "'a CnfManager_scheme \<Rightarrow> string" where
  "showFormula M = ''p cnf '' @ show_int (fm_nbVar M) @ '' '' @ show_int (int (length (cm_clauses M))) @ [newline] @
     concat (map (\<lambda>cl. showListLit cl @ ''0'' @ [newline]) (cm_clauses M))"

definition current_lits_text :: "'a CnfManager_scheme \<Rightarrow> nat \<Rightarrow> string" where
  "current_lits_text M i = concat (map (\<lambda>l. ilit_text l @ '' '') (filter (\<lambda>l. \<not> litIsAssigned M l) (cm_clauses M ! i)))"

definition showCurrentFormula :: "'a CnfManager_scheme \<Rightarrow> string" where
  "showCurrentFormula M =
     ''p cnf '' @ show_int (fm_nbVar M) @ '' '' @ show_int (int (length (cm_clauses M))) @ [newline] @
     concat (map (\<lambda>i. if ci_isSat (cm_infoClauses M ! i) then []
       else ''['' @ show_int (int i) @ ''] '' @ current_lits_text M i @ ''0'' @ [newline]) [0..<length (cm_clauses M)])"

definition showCurrentFormulaIn :: "'a CnfManager_scheme \<Rightarrow> bool list \<Rightarrow> string" where
  "showCurrentFormulaIn M isInComponent =
     ''p cnf '' @ show_int (fm_nbVar M) @ '' '' @ show_int (int (length (cm_clauses M))) @ [newline] @
     concat (map (\<lambda>i. if \<not> isNotSatisfiedClauseAndInComponent M i isInComponent then []
       else if ci_isSat (cm_infoClauses M ! i) then []
       else current_lits_text M i @ ''0'' @ [newline]) [0..<length (cm_clauses M)])"

text \<open>The assertions of \<open>debugFunction\<close>.\<close>

definition debugFunction :: "'a CnfManager_scheme \<Rightarrow> bool" where
  "debugFunction M \<longleftrightarrow>
     list_all (\<lambda>i. ci_isSat (cm_infoClauses M ! i) \<or>
       list_all (\<lambda>l. litIsAssigned M l \<or>
         length (filter (\<lambda>j. j = i) (getBinClauses (occ_of M l))) +
         length (filter (\<lambda>j. j = i) (getNotBinClauses (occ_of M l))) = 1) (cm_clauses M ! i))
       [0..<length (cm_clauses M)] \<and>
     list_all (\<lambda>i. let d = vget (cm_occurrence M) i in
       vget (fm_currentValue M) (i div 2) \<noteq> l_Undef \<or> do_nbBin d = 0 \<and> do_nbNotBin d = 0 \<or>
       list_all (\<lambda>j. \<not> ci_isSat (cm_infoClauses M ! j)) (getBinClauses d) \<and>
       list_all (\<lambda>j. \<not> ci_isSat (cm_infoClauses M ! j)) (getNotBinClauses d))
       [0..int (length (cm_occurrence M)) - 1]"

end
