(* ===== verification/D4_Cnf_Dyn.thy ===== *)
theory D4_Cnf_Dyn
  imports D4_Cnf_Manager
begin

text \<open>
  \<open>3rdParty/d4/src/formulaManager/cnf/CnfManagerDyn\<close>: the formula under a growing and shrinking assignment.
  \<open>preUpdate\<close> assigns literals and takes the satisfied clauses out of the occurrence lists, saving what it changes;
  \<open>postUpdate\<close> undoes it. The virtual \<open>inprocessing\<close> is an argument; here it does nothing.
\<close>

section \<open>The code\<close>

record SavedStateOcc =
  so_l :: ILit
  so_nbBin :: nat
  so_nbNotBin :: nat

record SavedStateClause =
  sc_idx :: nat
  sc_isSat :: bool
  sc_nbUnsat :: int

record CnfManagerDyn = CnfManager +
  cd_stackSizeListNotSatisfiedClauses :: "nat list"
  cd_markedNotSatClauses :: "int list"
  cd_stampNotSatClauses :: int
  cd_notSatifiedClauses :: "nat list"
  cd_sizeNotSatifiedClauses :: nat
  cd_currentMarkedLitStackIndex :: int
  cd_currentMarkedLitRemoveIndex :: int
  cd_keepListNotSatisfiedClauses :: bool
  cd_reviewWatcher :: "nat list"
  cd_markedLitStack :: "int list"
  cd_markedLitRemove :: "int list"
  cd_indexSatClauses :: "nat list"
  cd_markedClauseIdx :: "bool list"
  cd_savedStateOccs :: "SavedStateOcc list"
  cd_savedStateClauses :: "SavedStateClause list"
  cd_stackPosOcc :: "nat list"
  cd_stackPosClause :: "nat list"

text \<open>The stacks grow at the end, as the vectors do.\<close>

definition mkCnfManagerDyn :: "'w ProblemManager \<Rightarrow> bool \<Rightarrow> CnfManagerDyn" where
  "mkCnfManagerDyn p keep =
     (let n = pm_nbVar p; nbClause = length (pm_clauses p)
      in CnfManager.extend (mkCnfManager p)
        \<lparr>cd_stackSizeListNotSatisfiedClauses = [],
         cd_markedNotSatClauses = (if keep then replicate (nbClause + 1) 0 else []),
         cd_stampNotSatClauses = 0,
         cd_notSatifiedClauses = (if keep then [0..<nbClause] else []),
         cd_sizeNotSatifiedClauses = (if keep then nbClause else 0),
         cd_currentMarkedLitStackIndex = 0, cd_currentMarkedLitRemoveIndex = 0,
         cd_keepListNotSatisfiedClauses = keep,
         cd_reviewWatcher = [],
         cd_markedLitStack = replicate (nat (2 * (1 + n))) 0,
         cd_markedLitRemove = replicate (nat (2 * (1 + n))) 0,
         cd_indexSatClauses = [],
         cd_markedClauseIdx = replicate (nbClause + 1) False,
         cd_savedStateOccs = [], cd_savedStateClauses = [], cd_stackPosOcc = [], cd_stackPosClause = []\<rparr>)"

definition mark_component :: "bool \<Rightarrow> int list \<Rightarrow> 'a CnfManager_scheme \<Rightarrow> 'a CnfManager_scheme" where
  "mark_component b component M =
     M\<lparr>cm_inCurrentComponent := fold (\<lambda>v c. vset c v b) component (cm_inCurrentComponent M)\<rparr>"

definition getCurrentClauses :: "int list \<Rightarrow> 'a CnfManager_scheme \<Rightarrow> nat list \<times> 'a CnfManager_scheme" where
  "getCurrentClauses component M =
     (let M1 = mark_component True component M;
          idxClauses = filter (\<lambda>i. isNotSatisfiedClauseAndInComponent M1 i (cm_inCurrentComponent M1))
            [0..<length (cm_clauses M1)]
      in (idxClauses, mark_component False component M1))"

definition getCurrentClausesNotBin ::
  "int list \<Rightarrow> 'a CnfManagerDyn_scheme \<Rightarrow> nat list \<times> 'a CnfManagerDyn_scheme" where
  "getCurrentClausesNotBin component M =
     (let M1 = mark_component True component M;
          idxClauses = filter (\<lambda>idx. 2 < length (cm_clauses M1 ! idx) \<and>
              vget (cm_inCurrentComponent M1) (ilit_var (cm_clauses M1 ! idx ! 0)))
            (take (cd_sizeNotSatifiedClauses M1) (cd_notSatifiedClauses M1))
      in (sort idxClauses, mark_component False component M1))"

definition upd_occ :: "ILit \<Rightarrow> (DataOccurrence \<Rightarrow> DataOccurrence) \<Rightarrow> 'a CnfManager_scheme \<Rightarrow> 'a CnfManager_scheme" where
  "upd_occ l f M = M\<lparr>cm_occurrence := vset (cm_occurrence M) (ilit_intern l) (f (occ_of M l))\<rparr>"

text \<open>A clause whose information changes is saved once per level.\<close>

definition save_clause :: "nat \<Rightarrow> bool \<Rightarrow> 'a CnfManagerDyn_scheme \<Rightarrow> 'a CnfManagerDyn_scheme" where
  "save_clause idx sat M =
     (if cd_markedClauseIdx M ! idx then M
      else M\<lparr>cd_markedClauseIdx := (cd_markedClauseIdx M)[idx := True],
             cd_savedStateClauses := cd_savedStateClauses M @
               [\<lparr>sc_idx = idx, sc_isSat = sat, sc_nbUnsat = ci_nbUnsat (cm_infoClauses M ! idx)\<rparr>]\<rparr>)"

definition save_occ :: "ILit \<Rightarrow> 'a CnfManagerDyn_scheme \<Rightarrow> 'a CnfManagerDyn_scheme" where
  "save_occ l M =
     (if vget (cd_markedLitStack M) (ilit_intern l) \<noteq> cd_currentMarkedLitStackIndex M
      then M\<lparr>cd_savedStateOccs := cd_savedStateOccs M @
               [\<lparr>so_l = l, so_nbBin = do_nbBin (occ_of M l), so_nbNotBin = do_nbNotBin (occ_of M l)\<rparr>],
             cd_markedLitStack := vset (cd_markedLitStack M) (ilit_intern l) (cd_currentMarkedLitStackIndex M)\<rparr>
      else M)"

definition falsify_clause :: "ILit \<Rightarrow> nat \<Rightarrow> 'a CnfManagerDyn_scheme \<Rightarrow> 'a CnfManagerDyn_scheme" where
  "falsify_clause l idxCl M =
     (let M1 = save_clause idxCl (ci_isSat (cm_infoClauses M ! idxCl)) M;
          M2 = M1\<lparr>cm_infoClauses := (cm_infoClauses M1)[idxCl := (cm_infoClauses M1 ! idxCl)
                  \<lparr>ci_nbUnsat := (ci_nbUnsat (cm_infoClauses M1 ! idxCl) + 1) mod 2 ^ 31\<rparr>]\<rparr>
      in if cm_clauses M2 ! idxCl ! 0 = ilit_neg l
         then M2\<lparr>cd_reviewWatcher := cd_reviewWatcher M2 @ [idxCl]\<rparr> else M2)"

definition falsify_lit :: "ILit \<Rightarrow> 'a CnfManagerDyn_scheme \<Rightarrow> 'a CnfManagerDyn_scheme" where
  "falsify_lit l M = fold (falsify_clause l) (getNotBinClauses (occ_of M (ilit_neg l))) M"

definition review_watch :: "nat \<Rightarrow> 'a CnfManager_scheme \<Rightarrow> 'a CnfManager_scheme" where
  "review_watch idxCl M =
     (if ci_isSat (cm_infoClauses M ! idxCl) then M
      else let cl = cm_clauses M ! idxCl in
        (case find (\<lambda>i. vget (fm_currentValue M) (ilit_var (cl ! i)) = l_Undef) [1..<length cl] of
           None \<Rightarrow> M
         | Some i \<Rightarrow> M\<lparr>cm_clauses := (cm_clauses M)[idxCl := std_swap cl 0 i]\<rparr>))"

definition propagateFalseInNotBin :: "ILit list \<Rightarrow> 'a CnfManagerDyn_scheme \<Rightarrow> 'a CnfManagerDyn_scheme" where
  "propagateFalseInNotBin lits M =
     (let M1 = fold falsify_lit lits (M\<lparr>cd_reviewWatcher := []\<rparr>)
      in fold review_watch (cd_reviewWatcher M1) M1)"

definition clean_lit :: "ILit \<Rightarrow> 'a CnfManagerDyn_scheme \<Rightarrow> 'a CnfManagerDyn_scheme" where
  "clean_lit ll M =
     (let M1 = save_occ ll M
      in if vget (cd_markedLitRemove M1) (ilit_intern ll) \<noteq> cd_currentMarkedLitRemoveIndex M1
         then let M2 = M1\<lparr>cd_markedLitRemove :=
                    vset (cd_markedLitRemove M1) (ilit_intern ll) (cd_currentMarkedLitRemoveIndex M1)\<rparr>;
                  isSat = (\<lambda>i. ci_isSat (cm_infoClauses M2 ! i))
              in upd_occ ll (\<lambda>d. removeSatisfiedBin isSat (removeSatisfiedNotBin isSat d)) M2
         else M1)"

text \<open>The list of the clauses not satisfied shrinks by swaps with its end.\<close>

definition shrink_not_satisfied :: "nat list \<Rightarrow> 'a CnfManagerDyn_scheme \<Rightarrow> 'a CnfManagerDyn_scheme" where
  "shrink_not_satisfied idxClauses M =
     (let M1 = M\<lparr>cd_stackSizeListNotSatisfiedClauses :=
                   cd_stackSizeListNotSatisfiedClauses M @ [cd_sizeNotSatifiedClauses M],
                 cd_stampNotSatClauses := (cd_stampNotSatClauses M + 1) mod 2 ^ 32\<rparr>;
          marked = fold (\<lambda>idx m. m[idx := cd_stampNotSatClauses M1]) idxClauses (cd_markedNotSatClauses M1);
          (mem, n) = satisfied_not_bin (\<lambda>i. marked ! i = cd_stampNotSatClauses M1)
            (cd_notSatifiedClauses M1) 0 0 (cd_sizeNotSatifiedClauses M1)
      in M1\<lparr>cd_markedNotSatClauses := marked, cd_notSatifiedClauses := mem, cd_sizeNotSatifiedClauses := n\<rparr>)"

definition removeSatisfiedClauses :: "nat list \<Rightarrow> 'a CnfManagerDyn_scheme \<Rightarrow> 'a CnfManagerDyn_scheme" where
  "removeSatisfiedClauses idxClauses M =
     (let M1 = M\<lparr>cd_currentMarkedLitRemoveIndex := (cd_currentMarkedLitRemoveIndex M + 1) mod 2 ^ 32\<rparr>;
          M2 = fold (\<lambda>idxCl M. fold clean_lit (cm_clauses M ! idxCl) M) idxClauses M1
      in if cd_keepListNotSatisfiedClauses M2 then shrink_not_satisfied idxClauses M2 else M2)"

definition satisfy_clause :: "nat \<Rightarrow> 'a CnfManagerDyn_scheme \<Rightarrow> 'a CnfManagerDyn_scheme" where
  "satisfy_clause idx M =
     (if ci_isSat (cm_infoClauses M ! idx) then M
      else save_clause idx False
        (M\<lparr>cm_infoClauses := (cm_infoClauses M)[idx := (cm_infoClauses M ! idx)\<lparr>ci_isSat := True\<rparr>],
           cd_indexSatClauses := cd_indexSatClauses M @ [idx]\<rparr>))"

definition satisfy_lit :: "ILit \<Rightarrow> 'a CnfManagerDyn_scheme \<Rightarrow> 'a CnfManagerDyn_scheme" where
  "satisfy_lit l M = upd_occ l occ_clean (save_occ l (fold satisfy_clause (getClauses (occ_of M l)) M))"

definition propagateTrue :: "ILit list \<Rightarrow> 'a CnfManagerDyn_scheme \<Rightarrow> 'a CnfManagerDyn_scheme" where
  "propagateTrue lits M =
     (let M1 = fold satisfy_lit lits (M\<lparr>cd_indexSatClauses := []\<rparr>)
      in removeSatisfiedClauses (cd_indexSatClauses M1) M1)"

definition pushStacks :: "'a CnfManagerDyn_scheme \<Rightarrow> 'a CnfManagerDyn_scheme" where
  "pushStacks M = M\<lparr>cd_stackPosClause := cd_stackPosClause M @ [length (cd_savedStateClauses M)],
     cd_stackPosOcc := cd_stackPosOcc M @ [length (cd_savedStateOccs M)],
     cd_currentMarkedLitStackIndex := (cd_currentMarkedLitStackIndex M + 1) mod 2 ^ 32\<rparr>"

definition unmarkLastClausesSaved :: "'a CnfManagerDyn_scheme \<Rightarrow> 'a CnfManagerDyn_scheme" where
  "unmarkLastClausesSaved M = M\<lparr>cd_markedClauseIdx :=
     fold (\<lambda>s m. m[sc_idx s := False]) (drop (last (cd_stackPosClause M)) (cd_savedStateClauses M))
       (cd_markedClauseIdx M)\<rparr>"

definition preUpdate ::
  "('a CnfManagerDyn_scheme \<Rightarrow> 'a CnfManagerDyn_scheme) \<Rightarrow> ILit list \<Rightarrow> 'a CnfManagerDyn_scheme \<Rightarrow>
   'a CnfManagerDyn_scheme" where
  "preUpdate inprocessing lits M =
     unmarkLastClausesSaved (inprocessing (propagateFalseInNotBin lits (propagateTrue lits
       (assignListLit lits (pushStacks M)))))"

definition restore_occ :: "SavedStateOcc \<Rightarrow> 'a CnfManagerDyn_scheme \<Rightarrow> 'a CnfManagerDyn_scheme" where
  "restore_occ s M = upd_occ (so_l s) (\<lambda>d. d\<lparr>do_nbNotBin := so_nbNotBin s,
     do_bin := do_bin d - (so_nbBin s - do_nbBin d), do_nbBin := so_nbBin s\<rparr>) M"

definition restore_clause :: "SavedStateClause \<Rightarrow> 'a CnfManager_scheme \<Rightarrow> 'a CnfManager_scheme" where
  "restore_clause s M = M\<lparr>cm_infoClauses := (cm_infoClauses M)[sc_idx s := (cm_infoClauses M ! sc_idx s)
     \<lparr>ci_isSat := sc_isSat s, ci_nbUnsat := sc_nbUnsat s\<rparr>]\<rparr>"

definition postUpdate :: "ILit list \<Rightarrow> 'a CnfManagerDyn_scheme \<Rightarrow> 'a CnfManagerDyn_scheme" where
  "postUpdate lits M =
     (let previousOcc = last (cd_stackPosOcc M);
          M1 = fold restore_occ (drop previousOcc (cd_savedStateOccs M)) (M\<lparr>cd_stackPosOcc := butlast (cd_stackPosOcc M)\<rparr>);
          M2 = M1\<lparr>cd_savedStateOccs := take previousOcc (cd_savedStateOccs M1)\<rparr>;
          previousClause = last (cd_stackPosClause M2);
          M3 = fold restore_clause (drop previousClause (cd_savedStateClauses M2))
                 (M2\<lparr>cd_stackPosClause := butlast (cd_stackPosClause M2)\<rparr>);
          M4 = M3\<lparr>cd_savedStateClauses := take previousClause (cd_savedStateClauses M3)\<rparr>;
          M5 = M4\<lparr>fm_currentValue := fold (\<lambda>l c. vset c (ilit_var l) l_Undef) lits (fm_currentValue M4)\<rparr>
      in if cd_keepListNotSatisfiedClauses M5
         then M5\<lparr>cd_sizeNotSatifiedClauses := last (cd_stackSizeListNotSatisfiedClauses M5),
                 cd_stackSizeListNotSatisfiedClauses := butlast (cd_stackSizeListNotSatisfiedClauses M5)\<rparr>
         else M5)"

definition canSkipLit :: "'a CnfManager_scheme \<Rightarrow> ILit \<Rightarrow> bool" where
  "canSkipLit M l \<longleftrightarrow> do_nbNotBin (occ_of M l) = 0"

end
