(* ===== verification/D4_Cnf_Levels.thy ===== *)
theory D4_Cnf_Levels
  imports D4_Cnf_Dyn
begin

text \<open>
  What one level of updates keeps: \<open>level M0 M\<close> says that everything \<open>M\<close> has changed since the level \<open>M0\<close> was
  opened is saved, once, with its old value, and that the occurrence lists were only permuted and narrowed. Every
  step of \<open>preUpdate\<close> keeps it; \<open>postUpdate\<close> turns it into the state before.
\<close>

section \<open>Well-formed managers\<close>

definition cm_wf :: "'a CnfManager_scheme \<Rightarrow> bool" where
  "cm_wf M \<longleftrightarrow> 0 \<le> fm_nbVar M \<and> fm_nbVar M < 2 ^ 30 \<and>
     length (fm_currentValue M) = nat (fm_nbVar M + 1) \<and>
     length (cm_infoClauses M) = length (cm_clauses M) \<and>
     length (cm_occurrence M) = nat (2 * (fm_nbVar M + 1)) \<and>
     (\<forall>cl\<in>set (cm_clauses M). \<forall>l\<in>set cl. wf_ilit (fm_nbVar M) l) \<and>
     (\<forall>l. wf_ilit (fm_nbVar M) l \<longrightarrow>
        occ_ok (occ_of M l) \<and> set (do_mem (occ_of M l)) \<subseteq> {..<length (cm_clauses M)})"

definition dyn_wf :: "'a CnfManagerDyn_scheme \<Rightarrow> bool" where
  "dyn_wf M \<longleftrightarrow> cm_wf M \<and>
     length (cd_markedLitStack M) = nat (2 * (fm_nbVar M + 1)) \<and>
     length (cd_markedLitRemove M) = nat (2 * (fm_nbVar M + 1)) \<and>
     length (cd_markedClauseIdx M) = length (cm_clauses M) + 1"

lemma occ_of_upd:
  assumes "wf_ilit (fm_nbVar M) l" "wf_ilit (fm_nbVar M) l'" "length (cm_occurrence M) = nat (2 * (fm_nbVar M + 1))"
  shows "occ_of (upd_occ l f M) l' = (if l' = l then f (occ_of M l) else occ_of M l')"
  using vget_vset_lit [OF assms] by (simp add: occ_of_def upd_occ_def)

section \<open>Levels\<close>

text \<open>The clause informations and the occurrence lists that differ from \<open>M0\<close> are saved.\<close>

definition clauses_saved :: "'a CnfManagerDyn_scheme \<Rightarrow> 'a CnfManagerDyn_scheme \<Rightarrow> bool" where
  "clauses_saved M0 M \<longleftrightarrow> (\<exists>new. cd_savedStateClauses M = cd_savedStateClauses M0 @ new \<and> distinct (map sc_idx new) \<and>
     (\<forall>s\<in>set new. sc_idx s < length (cm_clauses M0) \<and>
        sc_isSat s = ci_isSat (cm_infoClauses M0 ! sc_idx s) \<and> sc_nbUnsat s = ci_nbUnsat (cm_infoClauses M0 ! sc_idx s)) \<and>
     (\<forall>i<length (cm_clauses M0).
        cd_markedClauseIdx M ! i = (i \<in> sc_idx ` set new) \<and>
        ci_xorLitBin (cm_infoClauses M ! i) = ci_xorLitBin (cm_infoClauses M0 ! i) \<and>
        (i \<notin> sc_idx ` set new \<longrightarrow> cm_infoClauses M ! i = cm_infoClauses M0 ! i)))"

definition occs_saved :: "'a CnfManagerDyn_scheme \<Rightarrow> 'a CnfManagerDyn_scheme \<Rightarrow> bool" where
  "occs_saved M0 M \<longleftrightarrow> (\<exists>new. cd_savedStateOccs M = cd_savedStateOccs M0 @ new \<and> distinct (map so_l new) \<and>
     (\<forall>s\<in>set new. wf_ilit (fm_nbVar M0) (so_l s) \<and>
        so_nbBin s = do_nbBin (occ_of M0 (so_l s)) \<and> so_nbNotBin s = do_nbNotBin (occ_of M0 (so_l s))) \<and>
     (\<forall>l. wf_ilit (fm_nbVar M0) l \<longrightarrow>
        (vget (cd_markedLitStack M) (ilit_intern l) = cd_currentMarkedLitStackIndex M0) = (l \<in> so_l ` set new) \<and>
        occ_sub (occ_of M0 l) (occ_of M l) \<and>
        (l \<notin> so_l ` set new \<longrightarrow> occ_of M l = occ_of M0 l \<and>
          vget (cd_markedLitStack M) (ilit_intern l) = vget (cd_markedLitStack M0) (ilit_intern l))))"

definition same_shape :: "'a CnfManagerDyn_scheme \<Rightarrow> 'a CnfManagerDyn_scheme \<Rightarrow> bool" where
  "same_shape M0 M \<longleftrightarrow> fm_nbVar M = fm_nbVar M0 \<and> fm_currentValue M = fm_currentValue M0 \<and>
     length (cm_clauses M) = length (cm_clauses M0) \<and>
     (\<forall>i<length (cm_clauses M0). mset (cm_clauses M ! i) = mset (cm_clauses M0 ! i) \<and>
        (cm_clauses M ! i ! 0 = cm_clauses M0 ! i ! 0 \<or> \<not> litIsAssigned M0 (cm_clauses M ! i ! 0))) \<and>
     length (cm_infoClauses M) = length (cm_infoClauses M0) \<and>
     length (cm_occurrence M) = length (cm_occurrence M0) \<and>
     length (cd_markedLitStack M) = length (cd_markedLitStack M0) \<and>
     length (cd_markedLitRemove M) = length (cd_markedLitRemove M0) \<and>
     length (cd_markedClauseIdx M) = length (cd_markedClauseIdx M0) \<and>
     cd_currentMarkedLitStackIndex M = cd_currentMarkedLitStackIndex M0 \<and>
     cd_stackPosOcc M = cd_stackPosOcc M0 \<and> cd_stackPosClause M = cd_stackPosClause M0"

definition level :: "'a CnfManagerDyn_scheme \<Rightarrow> 'a CnfManagerDyn_scheme \<Rightarrow> bool" where
  "level M0 M \<longleftrightarrow> same_shape M0 M \<and> clauses_saved M0 M \<and> occs_saved M0 M"

lemma occ_perm_mset:
  assumes "occ_perm xs ys a b c" "a \<le> b" "b \<le> c" "c \<le> length xs"
  shows "mset ys = mset xs"
proof -
  have "occ_perm xs ys 0 b (length xs)" by (rule occ_perm_mono [OF assms(1)]) (use assms in auto)
  then have p: "length ys = length xs" "mset (window ys 0 b) = mset (window xs 0 b)"
    "mset (window ys b (length xs)) = mset (window xs b (length xs))" by (simp_all add: occ_perm_def)
  have all: "mset zs = mset (window zs 0 b) + mset (window zs b (length zs))" if "b \<le> length zs" for zs :: "nat list"
    using window_append [of 0 b "length zs" zs] that by (simp add: window_def flip: mset_append)
  have "b \<le> length xs" using assms(3,4) by simp
  then show ?thesis using all [of xs] all [of ys] p by simp
qed

lemma occ_sub_mset: "occ_sub d0 d \<Longrightarrow> occ_ok d0 \<Longrightarrow> mset (do_mem d) = mset (do_mem d0)"
  by (rule occ_perm_mset) (auto simp: occ_sub_def occ_ok_def)

lemma level_wf:
  assumes "level M0 M" "dyn_wf M0"
  shows "dyn_wf M"
proof -
  have sh: "same_shape M0 M" and os: "occs_saved M0 M" using assms(1) by (simp_all add: level_def)
  have occ: "occ_ok (occ_of M l) \<and> set (do_mem (occ_of M l)) \<subseteq> {..<length (cm_clauses M)}"
    if "wf_ilit (fm_nbVar M) l" for l
  proof -
    have s: "occ_sub (occ_of M0 l) (occ_of M l)" "occ_ok (occ_of M0 l)"
      "set (do_mem (occ_of M0 l)) \<subseteq> {..<length (cm_clauses M0)}"
      using os that sh assms(2) by (auto simp: occs_saved_def same_shape_def dyn_wf_def cm_wf_def)
    then have "set (do_mem (occ_of M l)) = set (do_mem (occ_of M0 l))"
      using occ_sub_mset mset_eq_setD by blast
    then show ?thesis using s occ_sub_ok sh by (simp add: same_shape_def)
  qed
  have "\<forall>l\<in>set cl. wf_ilit (fm_nbVar M) l" if cl: "cl \<in> set (cm_clauses M)" for cl
  proof -
    have len: "length (cm_clauses M) = length (cm_clauses M0)"
      and ms: "\<And>i. i < length (cm_clauses M0) \<Longrightarrow> mset (cm_clauses M ! i) = mset (cm_clauses M0 ! i)"
      using sh unfolding same_shape_def by blast+
    obtain i where i: "i < length (cm_clauses M)" "cm_clauses M ! i = cl" using cl by (auto simp: in_set_conv_nth)
    have "i < length (cm_clauses M0)" using i(1) len by simp
    then have "mset cl = mset (cm_clauses M0 ! i)" "cm_clauses M0 ! i \<in> set (cm_clauses M0)"
      using ms [of i] unfolding i(2) by simp_all
    then have "set cl = set (cm_clauses M0 ! i)" "cm_clauses M0 ! i \<in> set (cm_clauses M0)"
      by (auto dest: mset_eq_setD)
    moreover have "\<forall>l\<in>set (cm_clauses M0 ! i). wf_ilit (fm_nbVar M0) l"
      using assms(2) calculation(2) by (simp add: dyn_wf_def cm_wf_def)
    ultimately show ?thesis using sh by (simp add: same_shape_def)
  qed
  then show ?thesis using occ sh assms(2) by (auto simp: dyn_wf_def cm_wf_def same_shape_def)
qed

text \<open>A level starts with no mark set.\<close>

definition no_marks :: "'a CnfManagerDyn_scheme \<Rightarrow> bool" where
  "no_marks M \<longleftrightarrow> (\<forall>i<length (cm_clauses M). \<not> cd_markedClauseIdx M ! i) \<and>
     (\<forall>l. wf_ilit (fm_nbVar M) l \<longrightarrow>
        vget (cd_markedLitStack M) (ilit_intern l) \<noteq> cd_currentMarkedLitStackIndex M)"

lemma level_start: "dyn_wf M \<Longrightarrow> no_marks M \<Longrightarrow> level M M"
  by (simp add: level_def same_shape_def clauses_saved_def occs_saved_def no_marks_def occ_sub_refl dyn_wf_def cm_wf_def)

lemma fold_keeps: "(\<And>x M. x \<in> set xs \<Longrightarrow> P M \<Longrightarrow> P (f x M)) \<Longrightarrow> P M \<Longrightarrow> P (fold f xs M)"
  by (induction xs arbitrary: M) auto

section \<open>The steps keep the level\<close>

lemma level_same_len: "level M0 M \<Longrightarrow> length (cm_clauses M) = length (cm_clauses M0)"
  by (simp add: level_def same_shape_def)

lemma level_nbVar: "level M0 M \<Longrightarrow> fm_nbVar M = fm_nbVar M0"
  by (simp add: level_def same_shape_def)

lemma unsaved_info:
  assumes "level M0 M" "i < length (cm_clauses M0)" "\<not> cd_markedClauseIdx M ! i"
  shows "cm_infoClauses M ! i = cm_infoClauses M0 ! i"
  using assms by (auto simp: level_def clauses_saved_def)

lemma occ_of_frame [simp]:
  "occ_of (M\<lparr>cm_infoClauses := a\<rparr>) = occ_of M" "occ_of (M\<lparr>cd_markedClauseIdx := b\<rparr>) = occ_of M"
  "occ_of (M\<lparr>cd_savedStateClauses := c\<rparr>) = occ_of M" "occ_of (M\<lparr>cd_savedStateOccs := d\<rparr>) = occ_of M"
  "occ_of (M\<lparr>cd_markedLitStack := e\<rparr>) = occ_of M" "occ_of (M\<lparr>cd_markedLitRemove := e\<rparr>) = occ_of M"
  "occ_of (M\<lparr>cd_indexSatClauses := f\<rparr>) = occ_of M" "occ_of (M\<lparr>cd_reviewWatcher := f\<rparr>) = occ_of M"
  "occ_of (M\<lparr>cd_currentMarkedLitRemoveIndex := g\<rparr>) = occ_of M" "occ_of (M\<lparr>cm_clauses := h\<rparr>) = occ_of M"
  "occ_of (M\<lparr>cd_stackPosOcc := f\<rparr>) = occ_of M" "occ_of (M\<lparr>cd_stackPosClause := f\<rparr>) = occ_of M"
  "occ_of (M\<lparr>fm_currentValue := i\<rparr>) = occ_of M"
  "occ_of (M\<lparr>cd_sizeNotSatifiedClauses := j\<rparr>) = occ_of M"
  "occ_of (M\<lparr>cd_stackSizeListNotSatisfiedClauses := f\<rparr>) = occ_of M"
  "occ_of (M\<lparr>cd_notSatifiedClauses := f\<rparr>) = occ_of M" "occ_of (M\<lparr>cd_markedNotSatClauses := e\<rparr>) = occ_of M"
  "occ_of (M\<lparr>cd_stampNotSatClauses := g\<rparr>) = occ_of M" "occ_of (M\<lparr>cd_currentMarkedLitStackIndex := g\<rparr>) = occ_of M"
  by (simp_all add: occ_of_def fun_eq_iff)

lemma upd_occ_frame [simp]:
  "cd_savedStateOccs (upd_occ l f M) = cd_savedStateOccs M" "cd_markedLitStack (upd_occ l f M) = cd_markedLitStack M"
  "cm_clauses (upd_occ l f N) = cm_clauses N" "cm_infoClauses (upd_occ l f N) = cm_infoClauses N"
  "fm_nbVar (upd_occ l f N) = fm_nbVar N" "fm_currentValue (upd_occ l f N) = fm_currentValue N"
  "length (cm_occurrence (upd_occ l f N)) = length (cm_occurrence N)"
  "cd_markedLitRemove (upd_occ l f M) = cd_markedLitRemove M"
  "cd_currentMarkedLitRemoveIndex (upd_occ l f M) = cd_currentMarkedLitRemoveIndex M"
  "cd_keepListNotSatisfiedClauses (upd_occ l f M) = cd_keepListNotSatisfiedClauses M"
  "cd_currentMarkedLitStackIndex (upd_occ l f M) = cd_currentMarkedLitStackIndex M"
  "cd_indexSatClauses (upd_occ l f M) = cd_indexSatClauses M"
  "cd_markedClauseIdx (upd_occ l f M) = cd_markedClauseIdx M"
  "cd_savedStateClauses (upd_occ l f M) = cd_savedStateClauses M"
  "cd_stackPosOcc (upd_occ l f M) = cd_stackPosOcc M" "cd_stackPosClause (upd_occ l f M) = cd_stackPosClause M"
  by (simp_all add: upd_occ_def)

text \<open>Fields that play no role in a level.\<close>

lemma level_frame [simp]:
  "level M0 (M\<lparr>cd_indexSatClauses := f\<rparr>) = level M0 M" "level M0 (M\<lparr>cd_reviewWatcher := f\<rparr>) = level M0 M"
  "level M0 (M\<lparr>cd_currentMarkedLitRemoveIndex := g\<rparr>) = level M0 M"
  "level M0 (M\<lparr>cd_sizeNotSatifiedClauses := j\<rparr>) = level M0 M"
  "level M0 (M\<lparr>cd_stackSizeListNotSatisfiedClauses := f\<rparr>) = level M0 M"
  "level M0 (M\<lparr>cd_notSatifiedClauses := f\<rparr>) = level M0 M" "level M0 (M\<lparr>cd_markedNotSatClauses := e\<rparr>) = level M0 M"
  "level M0 (M\<lparr>cd_stampNotSatClauses := g\<rparr>) = level M0 M"
  by (simp_all add: level_def same_shape_def clauses_saved_def occs_saved_def)

lemma level_save_clause:
  assumes "level M0 M" "dyn_wf M0" "i < length (cm_clauses M0)"
    "\<not> cd_markedClauseIdx M ! i \<Longrightarrow> sat = ci_isSat (cm_infoClauses M ! i)"
  shows "level M0 (save_clause i sat M)" "cd_markedClauseIdx (save_clause i sat M) ! i"
proof -
  have len: "i < length (cd_markedClauseIdx M)"
    using assms(1,2,3) by (simp add: level_def same_shape_def dyn_wf_def)
  then show "cd_markedClauseIdx (save_clause i sat M) ! i" by (simp add: save_clause_def)
  show "level M0 (save_clause i sat M)"
  proof (cases "cd_markedClauseIdx M ! i")
    case False
    let ?s = "\<lparr>sc_idx = i, sc_isSat = sat, sc_nbUnsat = ci_nbUnsat (cm_infoClauses M ! i)\<rparr>"
    obtain new where new: "cd_savedStateClauses M = cd_savedStateClauses M0 @ new" "distinct (map sc_idx new)"
      "\<forall>s\<in>set new. sc_idx s < length (cm_clauses M0) \<and>
        sc_isSat s = ci_isSat (cm_infoClauses M0 ! sc_idx s) \<and> sc_nbUnsat s = ci_nbUnsat (cm_infoClauses M0 ! sc_idx s)"
      "\<forall>j<length (cm_clauses M0). cd_markedClauseIdx M ! j = (j \<in> sc_idx ` set new) \<and>
        ci_xorLitBin (cm_infoClauses M ! j) = ci_xorLitBin (cm_infoClauses M0 ! j) \<and>
        (j \<notin> sc_idx ` set new \<longrightarrow> cm_infoClauses M ! j = cm_infoClauses M0 ! j)"
      using assms(1) by (auto simp: level_def clauses_saved_def)
    have i: "i \<notin> sc_idx ` set new" "cm_infoClauses M ! i = cm_infoClauses M0 ! i" "sat = ci_isSat (cm_infoClauses M0 ! i)"
      using new(4) assms(3,4) False by auto
    have "clauses_saved M0 (save_clause i sat M)"
      unfolding clauses_saved_def
    proof (intro exI [of _ "new @ [?s]"] conjI ballI allI impI)
      fix j assume "j < length (cm_clauses M0)"
      then show "cd_markedClauseIdx (save_clause i sat M) ! j = (j \<in> sc_idx ` set (new @ [?s]))"
        using new(4) len False by (auto simp: save_clause_def nth_list_update)
    qed (use new i assms(3) False in \<open>auto simp: save_clause_def\<close>)
    then show ?thesis using assms(1) False
      by (simp add: level_def same_shape_def occs_saved_def save_clause_def)
  qed (use assms(1) in \<open>simp add: save_clause_def\<close>)
qed

lemma level_set_info:
  assumes "level M0 M" "cd_markedClauseIdx M ! i" "i < length (cm_clauses M0)" "dyn_wf M0"
    "ci_xorLitBin c = ci_xorLitBin (cm_infoClauses M ! i)"
  shows "level M0 (M\<lparr>cm_infoClauses := (cm_infoClauses M)[i := c]\<rparr>)"
proof -
  obtain new where new: "cd_savedStateClauses M = cd_savedStateClauses M0 @ new" "distinct (map sc_idx new)"
    "\<forall>s\<in>set new. sc_idx s < length (cm_clauses M0) \<and>
      sc_isSat s = ci_isSat (cm_infoClauses M0 ! sc_idx s) \<and> sc_nbUnsat s = ci_nbUnsat (cm_infoClauses M0 ! sc_idx s)"
    "\<forall>j<length (cm_clauses M0). cd_markedClauseIdx M ! j = (j \<in> sc_idx ` set new) \<and>
      ci_xorLitBin (cm_infoClauses M ! j) = ci_xorLitBin (cm_infoClauses M0 ! j) \<and>
      (j \<notin> sc_idx ` set new \<longrightarrow> cm_infoClauses M ! j = cm_infoClauses M0 ! j)"
    using assms(1) by (auto simp: level_def clauses_saved_def)
  have "length (cm_infoClauses M) = length (cm_clauses M0)"
    using assms(1,4) by (simp add: level_def same_shape_def dyn_wf_def cm_wf_def)
  then have "clauses_saved M0 (M\<lparr>cm_infoClauses := (cm_infoClauses M)[i := c]\<rparr>)"
    unfolding clauses_saved_def using new assms(2,3,5)
    by (intro exI [of _ new]) (auto simp: nth_list_update)
  then show ?thesis using assms(1) by (simp add: level_def same_shape_def occs_saved_def)
qed

lemma level_save_occ:
  assumes "level M0 M" "dyn_wf M0" "wf_ilit (fm_nbVar M0) l"
  shows "level M0 (save_occ l M)"
    "vget (cd_markedLitStack (save_occ l M)) (ilit_intern l) = cd_currentMarkedLitStackIndex M0"
proof -
  have len: "length (cd_markedLitStack M) = nat (2 * (fm_nbVar M0 + 1))"
    "cd_currentMarkedLitStackIndex M = cd_currentMarkedLitStackIndex M0"
    using assms(1,2) by (simp_all add: level_def same_shape_def dyn_wf_def)
  then show "vget (cd_markedLitStack (save_occ l M)) (ilit_intern l) = cd_currentMarkedLitStackIndex M0"
    using vget_vset_lit [OF assms(3,3) len(1)] len(2) by (simp add: save_occ_def)
  show "level M0 (save_occ l M)"
  proof (cases "vget (cd_markedLitStack M) (ilit_intern l) = cd_currentMarkedLitStackIndex M0")
    case False
    let ?s = "\<lparr>so_l = l, so_nbBin = do_nbBin (occ_of M l), so_nbNotBin = do_nbNotBin (occ_of M l)\<rparr>"
    obtain new where new: "cd_savedStateOccs M = cd_savedStateOccs M0 @ new" "distinct (map so_l new)"
      "\<forall>s\<in>set new. wf_ilit (fm_nbVar M0) (so_l s) \<and>
        so_nbBin s = do_nbBin (occ_of M0 (so_l s)) \<and> so_nbNotBin s = do_nbNotBin (occ_of M0 (so_l s))"
      "\<forall>l. wf_ilit (fm_nbVar M0) l \<longrightarrow>
        (vget (cd_markedLitStack M) (ilit_intern l) = cd_currentMarkedLitStackIndex M0) = (l \<in> so_l ` set new) \<and>
        occ_sub (occ_of M0 l) (occ_of M l) \<and> (l \<notin> so_l ` set new \<longrightarrow> occ_of M l = occ_of M0 l \<and>
          vget (cd_markedLitStack M) (ilit_intern l) = vget (cd_markedLitStack M0) (ilit_intern l))"
      using assms(1) by (auto simp: level_def occs_saved_def)
    have l: "l \<notin> so_l ` set new" "occ_of M l = occ_of M0 l" using new(4) assms(3) False by auto
    have "occs_saved M0 (save_occ l M)"
      unfolding occs_saved_def
    proof (intro exI [of _ "new @ [?s]"] conjI ballI allI impI)
      fix l' assume "wf_ilit (fm_nbVar M0) l'"
      then show "(vget (cd_markedLitStack (save_occ l M)) (ilit_intern l') = cd_currentMarkedLitStackIndex M0) =
          (l' \<in> so_l ` set (new @ [?s]))"
        using new(4) len False vget_vset_lit [OF assms(3), of l' "cd_markedLitStack M"] by (auto simp: save_occ_def)
      show "l' \<notin> so_l ` set (new @ [?s]) \<Longrightarrow>
          vget (cd_markedLitStack (save_occ l M)) (ilit_intern l') = vget (cd_markedLitStack M0) (ilit_intern l')"
        using new(4) len False vget_vset_lit [OF assms(3) \<open>wf_ilit (fm_nbVar M0) l'\<close> len(1)] \<open>wf_ilit (fm_nbVar M0) l'\<close>
        by (auto simp: save_occ_def)
    qed (use new l assms(3) False len in \<open>auto simp: save_occ_def\<close>)
    then show ?thesis using assms(1) False
      by (simp add: level_def same_shape_def clauses_saved_def save_occ_def)
  qed (use assms(1) len in \<open>simp add: save_occ_def\<close>)
qed

lemma level_upd_occ:
  assumes "level M0 M" "dyn_wf M0" "wf_ilit (fm_nbVar M0) l"
    "vget (cd_markedLitStack M) (ilit_intern l) = cd_currentMarkedLitStackIndex M0"
    "occ_sub (occ_of M l) (f (occ_of M l))"
  shows "level M0 (upd_occ l f M)"
proof -
  obtain new where new: "cd_savedStateOccs M = cd_savedStateOccs M0 @ new" "distinct (map so_l new)"
    "\<forall>s\<in>set new. wf_ilit (fm_nbVar M0) (so_l s) \<and>
      so_nbBin s = do_nbBin (occ_of M0 (so_l s)) \<and> so_nbNotBin s = do_nbNotBin (occ_of M0 (so_l s))"
    "\<forall>l. wf_ilit (fm_nbVar M0) l \<longrightarrow>
      (vget (cd_markedLitStack M) (ilit_intern l) = cd_currentMarkedLitStackIndex M0) = (l \<in> so_l ` set new) \<and>
      occ_sub (occ_of M0 l) (occ_of M l) \<and> (l \<notin> so_l ` set new \<longrightarrow> occ_of M l = occ_of M0 l \<and>
          vget (cd_markedLitStack M) (ilit_intern l) = vget (cd_markedLitStack M0) (ilit_intern l))"
    using assms(1) by (auto simp: level_def occs_saved_def)
  have n: "fm_nbVar M = fm_nbVar M0" "length (cm_occurrence M) = nat (2 * (fm_nbVar M + 1))"
    using assms(1,2) by (simp_all add: level_def same_shape_def dyn_wf_def cm_wf_def)
  have occ: "occ_of (upd_occ l f M) l' = (if l' = l then f (occ_of M l) else occ_of M l')"
    if "wf_ilit (fm_nbVar M0) l'" for l'
    using occ_of_upd [of M l l' f] n assms(3) that by simp
  have "l \<in> so_l ` set new" using new(4) assms(3,4) by blast
  moreover have "occ_sub (occ_of M0 l) (f (occ_of M l))" using new(4) assms(3,5) occ_sub_trans by blast
  ultimately have "\<forall>l'. wf_ilit (fm_nbVar M0) l' \<longrightarrow>
      (vget (cd_markedLitStack M) (ilit_intern l') = cd_currentMarkedLitStackIndex M0) = (l' \<in> so_l ` set new) \<and>
      occ_sub (occ_of M0 l') (occ_of (upd_occ l f M) l') \<and>
      (l' \<notin> so_l ` set new \<longrightarrow> occ_of (upd_occ l f M) l' = occ_of M0 l' \<and>
          vget (cd_markedLitStack M) (ilit_intern l') = vget (cd_markedLitStack M0) (ilit_intern l'))"
    using new(4) by (metis occ)
  then have "occs_saved M0 (upd_occ l f M)"
    unfolding occs_saved_def upd_occ_frame using new(1,2,3) by blast
  then show ?thesis using assms(1) by (simp add: level_def same_shape_def clauses_saved_def)
qed

text \<open>Steps of a level: they keep it, and the work lists hold clause indices.\<close>

definition in_level :: "'a CnfManagerDyn_scheme \<Rightarrow> 'a CnfManagerDyn_scheme \<Rightarrow> bool" where
  "in_level M0 M \<longleftrightarrow> level M0 M \<and> set (cd_indexSatClauses M) \<subseteq> {..<length (cm_clauses M0)} \<and>
     set (cd_reviewWatcher M) \<subseteq> {..<length (cm_clauses M0)}"

lemma in_level_level: "in_level M0 M \<Longrightarrow> level M0 M"
  by (simp add: in_level_def)

lemma save_clause_frame [simp]:
  "cd_indexSatClauses (save_clause i b M) = cd_indexSatClauses M" "cd_reviewWatcher (save_clause i b M) = cd_reviewWatcher M"
  "cm_infoClauses (save_clause i b M) = cm_infoClauses M" "cm_clauses (save_clause i b M) = cm_clauses M"
  "cm_occurrence (save_clause i b M) = cm_occurrence M" "fm_nbVar (save_clause i b M) = fm_nbVar M"
  "fm_currentValue (save_clause i b M) = fm_currentValue M"
  by (simp_all add: save_clause_def)

lemma save_occ_frame [simp]:
  "cd_indexSatClauses (save_occ l M) = cd_indexSatClauses M" "cd_reviewWatcher (save_occ l M) = cd_reviewWatcher M"
  "cm_infoClauses (save_occ l M) = cm_infoClauses M" "cm_clauses (save_occ l M) = cm_clauses M"
  "cm_occurrence (save_occ l M) = cm_occurrence M" "fm_nbVar (save_occ l M) = fm_nbVar M"
  "fm_currentValue (save_occ l M) = fm_currentValue M" "cd_markedLitRemove (save_occ l M) = cd_markedLitRemove M"
  "cd_currentMarkedLitRemoveIndex (save_occ l M) = cd_currentMarkedLitRemoveIndex M"
  "cd_keepListNotSatisfiedClauses (save_occ l M) = cd_keepListNotSatisfiedClauses M"
  by (simp_all add: save_occ_def)

lemma occ_of_save [simp]: "occ_of (save_occ l M) = occ_of M" "occ_of (save_clause i b M) = occ_of M"
  by (simp_all add: occ_of_def fun_eq_iff)

lemma upd_occ_work [simp]: "cd_reviewWatcher (upd_occ l f M) = cd_reviewWatcher M"
  by (simp add: upd_occ_def)

lemma windows_subset:
  "set (getClauses d) \<subseteq> set (do_mem d)" "set (getBinClauses d) \<subseteq> set (do_mem d)"
  "set (getNotBinClauses d) \<subseteq> set (do_mem d)"
  by (auto simp: getClauses_def getBinClauses_def getNotBinClauses_def dest: in_set_takeD in_set_dropD)

lemma occ_in_range:
  assumes "level M0 M" "dyn_wf M0" "wf_ilit (fm_nbVar M0) l"
  shows "occ_ok (occ_of M l)" "set (do_mem (occ_of M l)) \<subseteq> {..<length (cm_clauses M0)}"
  using level_wf [OF assms(1,2)] level_nbVar [OF assms(1)] level_same_len [OF assms(1)] assms(3)
  by (simp_all add: dyn_wf_def cm_wf_def)

lemma clause_lits_wf:
  assumes "level M0 M" "dyn_wf M0" "i < length (cm_clauses M0)" "l \<in> set (cm_clauses M ! i)"
  shows "wf_ilit (fm_nbVar M0) l"
proof -
  have "cm_clauses M ! i \<in> set (cm_clauses M)" using assms(3) level_same_len [OF assms(1)] by simp
  then have "wf_ilit (fm_nbVar M) l" using level_wf [OF assms(1,2)] assms(4) unfolding dyn_wf_def cm_wf_def by blast
  then show ?thesis using level_nbVar [OF assms(1)] by simp
qed

lemma satisfy_clause_alt:
  "satisfy_clause i M = (if ci_isSat (cm_infoClauses M ! i) then M
     else let M1 = save_clause i False M in
       M1\<lparr>cm_infoClauses := (cm_infoClauses M1)[i := (cm_infoClauses M1 ! i)\<lparr>ci_isSat := True\<rparr>],
          cd_indexSatClauses := cd_indexSatClauses M @ [i]\<rparr>)"
proof -
  have "ci_nbUnsat ((cm_infoClauses M)[i := (cm_infoClauses M ! i)\<lparr>ci_isSat := True\<rparr>] ! i) = ci_nbUnsat (cm_infoClauses M ! i)"
    by (cases "i < length (cm_infoClauses M)") (simp_all add: list_update_beyond)
  then show ?thesis by (simp add: satisfy_clause_def save_clause_def)
qed

lemma in_level_satisfy_clause:
  assumes "in_level M0 M" "dyn_wf M0" "i < length (cm_clauses M0)"
  shows "in_level M0 (satisfy_clause i M)"
proof (cases "ci_isSat (cm_infoClauses M ! i)")
  case False
  let ?M1 = "save_clause i False M"
  have l: "level M0 ?M1" "cd_markedClauseIdx ?M1 ! i"
    using False by (simp_all add: level_save_clause [OF in_level_level [OF assms(1)] assms(2,3)])
  have "level M0 (?M1\<lparr>cm_infoClauses := (cm_infoClauses ?M1)[i := (cm_infoClauses ?M1 ! i)\<lparr>ci_isSat := True\<rparr>]\<rparr>)"
    by (rule level_set_info [OF l(1,2) assms(3,2)]) simp
  then have L: "level M0 (?M1\<lparr>cm_infoClauses := (cm_infoClauses ?M1)[i := (cm_infoClauses ?M1 ! i)\<lparr>ci_isSat := True\<rparr>],
      cd_indexSatClauses := cd_indexSatClauses M @ [i]\<rparr>)" by (simp only: level_frame)
  have eq: "satisfy_clause i M = ?M1\<lparr>cm_infoClauses := (cm_infoClauses ?M1)[i := (cm_infoClauses ?M1 ! i)\<lparr>ci_isSat := True\<rparr>],
      cd_indexSatClauses := cd_indexSatClauses M @ [i]\<rparr>"
    using False by (simp only: satisfy_clause_alt Let_def if_False)
  have "set (cd_indexSatClauses M @ [i]) \<subseteq> {..<length (cm_clauses M0)}"
    "set (cd_reviewWatcher M) \<subseteq> {..<length (cm_clauses M0)}"
    using assms(1,3) by (simp_all add: in_level_def)
  then show ?thesis unfolding in_level_def by (intro conjI) (simp_all only: eq L, simp_all)
qed (use assms(1) in \<open>simp add: satisfy_clause_def\<close>)

lemma in_level_touch_occ:
  assumes "in_level M0 M" "dyn_wf M0" "wf_ilit (fm_nbVar M0) l" "occ_sub (occ_of M l) (f (occ_of M l))"
  shows "in_level M0 (upd_occ l f (save_occ l M))"
proof -
  have "level M0 (save_occ l M)"
    "vget (cd_markedLitStack (save_occ l M)) (ilit_intern l) = cd_currentMarkedLitStackIndex M0"
    using level_save_occ [OF in_level_level [OF assms(1)] assms(2,3)] by blast+
  then have "level M0 (upd_occ l f (save_occ l M))" using assms(2,3,4) by (intro level_upd_occ) simp_all
  then show ?thesis using assms(1) by (simp add: in_level_def)
qed

lemma in_level_satisfy_lit:
  assumes "in_level M0 M" "dyn_wf M0" "wf_ilit (fm_nbVar M0) l"
  shows "in_level M0 (satisfy_lit l M)"
proof -
  let ?M1 = "fold satisfy_clause (getClauses (occ_of M l)) M"
  have M1: "in_level M0 ?M1"
  proof (rule fold_keeps)
    fix i and M' :: "'a CnfManagerDyn_scheme"
    assume "i \<in> set (getClauses (occ_of M l))" "in_level M0 M'"
    then show "in_level M0 (satisfy_clause i M')"
      using occ_in_range [OF in_level_level [OF assms(1)] assms(2,3)] windows_subset(1)
      by (intro in_level_satisfy_clause [OF _ assms(2)]) auto
  qed (rule assms(1))
  have "occ_ok (occ_of ?M1 l)" using occ_in_range(1) [OF in_level_level [OF M1] assms(2,3)] .
  then show ?thesis using in_level_touch_occ [OF M1 assms(2,3)] clean_sub(1) by (simp add: satisfy_lit_def)
qed

lemma in_level_clean_lit:
  assumes "in_level M0 M" "dyn_wf M0" "wf_ilit (fm_nbVar M0) l"
  shows "in_level M0 (clean_lit l M)"
proof -
  let ?f = "\<lambda>d. removeSatisfiedBin (\<lambda>i. ci_isSat (cm_infoClauses M ! i))
    (removeSatisfiedNotBin (\<lambda>i. ci_isSat (cm_infoClauses M ! i)) d)"
  let ?r = "vset (cd_markedLitRemove M) (ilit_intern l) (cd_currentMarkedLitRemoveIndex M)"
  have ok: "occ_ok (occ_of M l)" using occ_in_range(1) [OF in_level_level [OF assms(1)] assms(2,3)] .
  have sub: "occ_sub (occ_of M l) (?f (occ_of M l))"
    using removeSatisfiedNotBin_ok(1) [OF ok] removeSatisfiedBin_ok(1) occ_sub_ok occ_sub_trans by blast
  have "in_level M0 (upd_occ l ?f (save_occ l M))" by (rule in_level_touch_occ [where f = ?f, OF assms sub])
  then have "in_level M0 ((upd_occ l ?f (save_occ l M))\<lparr>cd_markedLitRemove := ?r\<rparr>)"
    by (simp add: in_level_def level_def same_shape_def clauses_saved_def occs_saved_def)
  moreover have "(upd_occ l ?f (save_occ l M))\<lparr>cd_markedLitRemove := ?r\<rparr> =
      upd_occ l ?f ((save_occ l M)\<lparr>cd_markedLitRemove := ?r\<rparr>)" by (simp add: upd_occ_def)
  moreover have "in_level M0 (save_occ l M)"
    using level_save_occ(1) [OF in_level_level [OF assms(1)] assms(2,3)] assms(1) by (simp add: in_level_def)
  ultimately show ?thesis by (simp add: clean_lit_def Let_def)
qed

lemma in_level_frame [simp]:
  "in_level M0 (M\<lparr>cd_currentMarkedLitRemoveIndex := g\<rparr>) = in_level M0 M"
  "in_level M0 (M\<lparr>cd_sizeNotSatifiedClauses := j\<rparr>) = in_level M0 M"
  "in_level M0 (M\<lparr>cd_stackSizeListNotSatisfiedClauses := f\<rparr>) = in_level M0 M"
  "in_level M0 (M\<lparr>cd_notSatifiedClauses := f\<rparr>) = in_level M0 M" "in_level M0 (M\<lparr>cd_markedNotSatClauses := e\<rparr>) = in_level M0 M"
  "in_level M0 (M\<lparr>cd_stampNotSatClauses := g\<rparr>) = in_level M0 M"
  by (simp_all add: in_level_def)

lemma in_level_shrink: "in_level M0 M \<Longrightarrow> in_level M0 (shrink_not_satisfied is M)"
  by (simp add: shrink_not_satisfied_def Let_def split: prod.split)

lemma in_level_removeSatisfiedClauses:
  assumes "in_level M0 M" "dyn_wf M0" "set is \<subseteq> {..<length (cm_clauses M0)}"
  shows "in_level M0 (removeSatisfiedClauses is M)"
proof -
  let ?M1 = "M\<lparr>cd_currentMarkedLitRemoveIndex := (cd_currentMarkedLitRemoveIndex M + 1) mod 2 ^ 32\<rparr>"
  have "in_level M0 (fold (\<lambda>i M. fold clean_lit (cm_clauses M ! i) M) is ?M1)"
  proof (rule fold_keeps)
    fix i and M' :: "'a CnfManagerDyn_scheme"
    assume i: "i \<in> set is" and M': "in_level M0 M'"
    show "in_level M0 (fold clean_lit (cm_clauses M' ! i) M')"
    proof (rule fold_keeps)
      fix l and M'' :: "'a CnfManagerDyn_scheme"
      assume "l \<in> set (cm_clauses M' ! i)" "in_level M0 M''"
      then show "in_level M0 (clean_lit l M'')"
        using clause_lits_wf [OF in_level_level [OF M'] assms(2)] assms(3) i
        by (intro in_level_clean_lit [OF _ assms(2)]) auto
    qed (rule M')
  qed (use assms(1) in simp)
  then show ?thesis by (simp add: removeSatisfiedClauses_def Let_def in_level_shrink)
qed

lemma in_level_propagateTrue:
  assumes "in_level M0 M" "dyn_wf M0" "\<forall>l\<in>set lits. wf_ilit (fm_nbVar M0) l"
  shows "in_level M0 (propagateTrue lits M)"
proof -
  let ?M1 = "fold satisfy_lit lits (M\<lparr>cd_indexSatClauses := []\<rparr>)"
  have M1: "in_level M0 ?M1"
  proof (rule fold_keeps)
    show "in_level M0 (M\<lparr>cd_indexSatClauses := []\<rparr>)" using assms(1) by (simp add: in_level_def)
  qed (use assms(2,3) in \<open>blast intro: in_level_satisfy_lit\<close>)
  then have "set (cd_indexSatClauses ?M1) \<subseteq> {..<length (cm_clauses M0)}" by (simp add: in_level_def)
  then show ?thesis using in_level_removeSatisfiedClauses [OF M1 assms(2)] by (simp add: propagateTrue_def Let_def)
qed

lemma in_level_falsify_clause:
  assumes "in_level M0 M" "dyn_wf M0" "i < length (cm_clauses M0)"
  shows "in_level M0 (falsify_clause l i M)"
proof -
  let ?M1 = "save_clause i (ci_isSat (cm_infoClauses M ! i)) M"
  have l: "level M0 ?M1" "cd_markedClauseIdx ?M1 ! i"
    by (simp_all add: level_save_clause [OF in_level_level [OF assms(1)] assms(2,3)])
  have "level M0 (?M1\<lparr>cm_infoClauses := (cm_infoClauses ?M1)[i := (cm_infoClauses ?M1 ! i)
      \<lparr>ci_nbUnsat := (ci_nbUnsat (cm_infoClauses ?M1 ! i) + 1) mod 2 ^ 31\<rparr>]\<rparr>)"
    by (rule level_set_info [OF l(1,2) assms(3,2)]) simp
  then show ?thesis using assms(1,3) by (simp add: falsify_clause_def Let_def in_level_def)
qed

lemma in_level_review_watch:
  assumes "in_level M0 M" "dyn_wf M0" "i < length (cm_clauses M0)"
  shows "in_level M0 (review_watch i M)"
proof -
  have "level M0 (M\<lparr>cm_clauses := (cm_clauses M)[i := std_swap (cm_clauses M ! i) 0 j]\<rparr>)"
    if j: "j < length (cm_clauses M ! i)" "vget (fm_currentValue M) (ilit_var (cm_clauses M ! i ! j)) = l_Undef" for j
  proof -
    have sh: "same_shape M0 M" using in_level_level [OF assms(1)] by (simp add: level_def)
    have "mset (std_swap (cm_clauses M ! i) 0 j) = mset (cm_clauses M ! i)"
      using j(1) by (intro mset_std_swap) auto
    then have m: "mset ((cm_clauses M)[i := std_swap (cm_clauses M ! i) 0 j] ! x) = mset (cm_clauses M ! x)" for x
      by (cases "x = i"; cases "i < length (cm_clauses M)") (simp_all add: list_update_beyond)
    have "std_swap (cm_clauses M ! i) 0 j ! 0 = cm_clauses M ! i ! j"
      using j(1) by (rule std_swap_first)
    moreover have "\<not> litIsAssigned M0 (cm_clauses M ! i ! j)"
      using j(2) sh by (simp add: litIsAssigned_def same_shape_def)
    ultimately have z: "(cm_clauses M)[i := std_swap (cm_clauses M ! i) 0 j] ! x ! 0 = cm_clauses M0 ! x ! 0 \<or>
        \<not> litIsAssigned M0 ((cm_clauses M)[i := std_swap (cm_clauses M ! i) 0 j] ! x ! 0)"
      if "x < length (cm_clauses M0)" for x
      using that sh by (cases "x = i") (simp_all add: same_shape_def)
    show ?thesis using in_level_level [OF assms(1)] z
      by (simp add: level_def same_shape_def clauses_saved_def occs_saved_def m)
  qed
  then show ?thesis using assms(1)
    by (auto simp: review_watch_def Let_def in_level_def find_Some_iff split: option.split)
qed

lemma in_level_propagateFalse:
  assumes "in_level M0 M" "dyn_wf M0" "\<forall>l\<in>set lits. wf_ilit (fm_nbVar M0) l"
  shows "in_level M0 (propagateFalseInNotBin lits M)"
proof -
  let ?M1 = "fold falsify_lit lits (M\<lparr>cd_reviewWatcher := []\<rparr>)"
  have M1: "in_level M0 ?M1"
  proof (rule fold_keeps)
    show "in_level M0 (M\<lparr>cd_reviewWatcher := []\<rparr>)" using assms(1) by (simp add: in_level_def)
  next
    fix l and M' :: "'a CnfManagerDyn_scheme"
    assume l: "l \<in> set lits" and M': "in_level M0 M'"
    show "in_level M0 (falsify_lit l M')"
      unfolding falsify_lit_def
    proof (rule fold_keeps)
      fix i and M'' :: "'a CnfManagerDyn_scheme"
      assume "i \<in> set (getNotBinClauses (occ_of M' (ilit_neg l)))" "in_level M0 M''"
      then show "in_level M0 (falsify_clause l i M'')"
        using occ_in_range(2) [OF in_level_level [OF M'] assms(2) wf_neg] windows_subset(3) assms(3) l
        by (intro in_level_falsify_clause [OF _ assms(2)]) auto
    qed (rule M')
  qed
  then have w: "set (cd_reviewWatcher ?M1) \<subseteq> {..<length (cm_clauses M0)}" by (simp add: in_level_def)
  have "in_level M0 (fold review_watch (cd_reviewWatcher ?M1) ?M1)"
  proof (rule fold_keeps)
    fix i and M' :: "'a CnfManagerDyn_scheme"
    assume "i \<in> set (cd_reviewWatcher ?M1)" "in_level M0 M'"
    then show "in_level M0 (review_watch i M')" using w by (intro in_level_review_watch [OF _ assms(2)]) auto
  qed (rule M1)
  then show ?thesis by (simp add: propagateFalseInNotBin_def Let_def)
qed

end
