(* ===== verification/D4_Cnf_Restore.thy ===== *)
theory D4_Cnf_Restore
  imports D4_Cnf_Levels
begin

text \<open>
  \<open>postUpdate\<close> undoes \<open>preUpdate\<close>: whatever a level did, the assignment, the clause informations and the stacks are
  those from before, and every occurrence list and every clause is the one from before up to the order of its
  elements. The locale \<open>inprocessing\<close> is what the virtual method has to respect.
\<close>

section \<open>States between two calls\<close>

definition dyn_ok :: "'a CnfManagerDyn_scheme \<Rightarrow> bool" where
  "dyn_ok M \<longleftrightarrow> dyn_wf M \<and> 0 \<le> cd_currentMarkedLitStackIndex M \<and>
     (\<forall>i<length (cm_clauses M). \<not> cd_markedClauseIdx M ! i) \<and>
     (\<forall>l. wf_ilit (fm_nbVar M) l \<longrightarrow> vget (cd_markedLitStack M) (ilit_intern l) \<le> cd_currentMarkedLitStackIndex M) \<and>
     set (cd_indexSatClauses M) \<subseteq> {..<length (cm_clauses M)} \<and> set (cd_reviewWatcher M) \<subseteq> {..<length (cm_clauses M)}"

definition restored :: "'a CnfManagerDyn_scheme \<Rightarrow> 'a CnfManagerDyn_scheme \<Rightarrow> bool" where
  "restored M M' \<longleftrightarrow> fm_nbVar M' = fm_nbVar M \<and> fm_currentValue M' = fm_currentValue M \<and>
     length (cm_clauses M') = length (cm_clauses M) \<and>
     (\<forall>i<length (cm_clauses M). mset (cm_clauses M' ! i) = mset (cm_clauses M ! i) \<and>
        (cm_clauses M' ! i ! 0 = cm_clauses M ! i ! 0 \<or> \<not> litIsAssigned M (cm_clauses M' ! i ! 0))) \<and>
     cm_infoClauses M' = cm_infoClauses M \<and>
     (\<forall>l. wf_ilit (fm_nbVar M) l \<longrightarrow> occ_equiv (occ_of M l) (occ_of M' l)) \<and>
     cd_savedStateOccs M' = cd_savedStateOccs M \<and> cd_savedStateClauses M' = cd_savedStateClauses M \<and>
     cd_stackPosOcc M' = cd_stackPosOcc M \<and> cd_stackPosClause M' = cd_stackPosClause M"

text \<open>The literals of an update are unassigned.\<close>

definition open_lits :: "'a FormulaManager_scheme \<Rightarrow> ILit list \<Rightarrow> bool" where
  "open_lits M lits \<longleftrightarrow> (\<forall>l\<in>set lits. wf_ilit (fm_nbVar M) l \<and> \<not> litIsAssigned M l)"

section \<open>Opening a level\<close>

definition assign_values :: "ILit list \<Rightarrow> int list \<Rightarrow> int list" where
  "assign_values lits c = fold (\<lambda>l c. vset c (ilit_var l) (of_bool (ilit_sign l))) lits c"

lemma assignListLit_eq: "assignListLit lits M = M\<lparr>fm_currentValue := assign_values lits (fm_currentValue M)\<rparr>"
  unfolding assignListLit_def assign_values_def by (induction lits arbitrary: M) auto

lemma length_assign_values [simp]: "length (assign_values lits c) = length c"
  unfolding assign_values_def by (induction lits arbitrary: c) auto

lemma assign_values_other:
  "0 \<le> v \<Longrightarrow> \<forall>l\<in>set lits. 0 \<le> ilit_var l \<and> ilit_var l \<noteq> v \<Longrightarrow> vget (assign_values lits c) v = vget c v"
  unfolding assign_values_def
proof (induction lits arbitrary: c)
  case (Cons l lits)
  then have "vget (vset c (ilit_var l) (of_bool (ilit_sign l))) v = vget c v" by (intro vget_vset_other) auto
  then show ?case using Cons by simp
qed simp

lemma unassign_values:
  assumes "\<forall>l\<in>set lits. vin c (ilit_var l) \<and> vget c (ilit_var l) = l_Undef"
  shows "fold (\<lambda>l c. vset c (ilit_var l) l_Undef) lits (assign_values lits c) = c"
proof (rule vget_eqI)
  fix v assume v: "0 \<le> v" "v < int (length c)"
  have "\<forall>l\<in>set lits. vin (assign_values lits c) (ilit_var l)" using assms by (simp add: vin_def)
  then have "vget (fold (\<lambda>l c. vset c (ilit_var l) l_Undef) lits (assign_values lits c)) v =
      (if v \<in> ilit_var ` set lits then l_Undef else vget (assign_values lits c) v)"
    using v(1) by (rule vget_fold_vset)
  then show "vget (fold (\<lambda>l c. vset c (ilit_var l) l_Undef) lits (assign_values lits c)) v = vget c v"
    using assms assign_values_other [of v lits c] v by (auto simp: vin_def)
qed (simp add: length_fold_vset)

definition open_level :: "ILit list \<Rightarrow> 'a CnfManagerDyn_scheme \<Rightarrow> 'a CnfManagerDyn_scheme" where
  "open_level lits M = assignListLit lits (pushStacks M)"

lemma open_level_fields [simp]:
  "fm_nbVar (open_level lits M) = fm_nbVar M" "cm_clauses (open_level lits M) = cm_clauses M"
  "cm_infoClauses (open_level lits M) = cm_infoClauses M" "cm_occurrence (open_level lits M) = cm_occurrence M"
  "cd_markedLitStack (open_level lits M) = cd_markedLitStack M" "cd_markedLitRemove (open_level lits M) = cd_markedLitRemove M"
  "cd_markedClauseIdx (open_level lits M) = cd_markedClauseIdx M"
  "cd_indexSatClauses (open_level lits M) = cd_indexSatClauses M" "cd_reviewWatcher (open_level lits M) = cd_reviewWatcher M"
  "cd_savedStateOccs (open_level lits M) = cd_savedStateOccs M"
  "cd_savedStateClauses (open_level lits M) = cd_savedStateClauses M"
  "cd_stackPosOcc (open_level lits M) = cd_stackPosOcc M @ [length (cd_savedStateOccs M)]"
  "cd_stackPosClause (open_level lits M) = cd_stackPosClause M @ [length (cd_savedStateClauses M)]"
  "cd_currentMarkedLitRemoveIndex (open_level lits M) = cd_currentMarkedLitRemoveIndex M"
  "cd_keepListNotSatisfiedClauses (open_level lits M) = cd_keepListNotSatisfiedClauses M"
  "fm_currentValue (open_level lits M) = assign_values lits (fm_currentValue M)"
  "cd_currentMarkedLitStackIndex (open_level lits M) = (cd_currentMarkedLitStackIndex M + 1) mod 2 ^ 32"
  by (simp_all add: open_level_def pushStacks_def assignListLit_eq)

lemma occ_of_open [simp]: "occ_of (open_level lits M) = occ_of M"
  by (simp add: occ_of_def fun_eq_iff)

lemma assigned_open: "litIsAssigned M l \<Longrightarrow> litIsAssigned (open_level lits M) l"
proof -
  have "vget (assign_values ls c) v \<noteq> l_Undef" if "vget c v \<noteq> l_Undef" for ls c v
    using that unfolding assign_values_def
  proof (induction ls arbitrary: c)
    case (Cons a ls)
    have "vget (vset c (ilit_var a) (of_bool (ilit_sign a))) v \<noteq> l_Undef"
      using Cons.prems by (cases "nat (ilit_var a) = nat v"; cases "nat v < length c")
        (auto simp: vget_def vset_def l_Undef_def list_update_beyond)
    then show ?case using Cons.IH by simp
  qed simp
  then show "litIsAssigned M l \<Longrightarrow> ?thesis" by (simp add: litIsAssigned_def)
qed

lemma in_level_open:
  assumes "dyn_ok M" "cd_currentMarkedLitStackIndex M + 1 < 2 ^ 32"
  shows "dyn_wf (open_level lits M)" "in_level (open_level lits M) (open_level lits M)"
proof -
  show wf: "dyn_wf (open_level lits M)" using assms(1) by (simp add: dyn_ok_def dyn_wf_def cm_wf_def)
  have "(cd_currentMarkedLitStackIndex M + 1) mod 2 ^ 32 = cd_currentMarkedLitStackIndex M + 1"
    using assms by (intro mod_pos_pos_trivial) (simp_all add: dyn_ok_def)
  then have "no_marks (open_level lits M)" using assms(1) by (force simp: no_marks_def dyn_ok_def)
  then show "in_level (open_level lits M) (open_level lits M)"
    using level_start [OF wf] assms(1) by (simp add: in_level_def dyn_ok_def)
qed

section \<open>Closing it\<close>

lemma restore_infos:
  assumes "distinct (map sc_idx new)" "length info = length info0"
    "\<forall>s\<in>set new. sc_idx s < length info0 \<and>
      (info ! sc_idx s)\<lparr>ci_isSat := sc_isSat s, ci_nbUnsat := sc_nbUnsat s\<rparr> = info0 ! sc_idx s"
    "\<forall>i<length info0. i \<notin> sc_idx ` set new \<longrightarrow> info ! i = info0 ! i"
  shows "fold (\<lambda>s info. info[sc_idx s := (info ! sc_idx s)\<lparr>ci_isSat := sc_isSat s, ci_nbUnsat := sc_nbUnsat s\<rparr>])
    new info = info0"
  using assms
proof (induction new arbitrary: info)
  case Nil
  then show ?case by (intro nth_equalityI) simp_all
next
  case (Cons s new)
  let ?info = "info[sc_idx s := info0 ! sc_idx s]"
  have "s' \<in> set new \<Longrightarrow> sc_idx s' \<noteq> sc_idx s" for s' using Cons.prems(1) by (auto simp: image_iff)
  then have "fold (\<lambda>s info. info[sc_idx s := (info ! sc_idx s)\<lparr>ci_isSat := sc_isSat s, ci_nbUnsat := sc_nbUnsat s\<rparr>])
      new ?info = info0"
    using Cons.prems by (intro Cons.IH) (auto simp: nth_list_update)
  then show ?case using Cons.prems(3) by simp
qed

lemma fold_restore_clause:
  "fold restore_clause new M = M\<lparr>cm_infoClauses :=
     fold (\<lambda>s info. info[sc_idx s := (info ! sc_idx s)\<lparr>ci_isSat := sc_isSat s, ci_nbUnsat := sc_nbUnsat s\<rparr>])
       new (cm_infoClauses M)\<rparr>"
  by (induction new arbitrary: M) (simp_all add: restore_clause_def)

lemma restore_occ_reset: "restore_occ s M = upd_occ (so_l s) (occ_reset (so_nbBin s) (so_nbNotBin s)) M"
  by (simp add: restore_occ_def occ_reset_def [abs_def])

lemma restore_occ_frame [simp]:
  "fm_nbVar (restore_occ s M) = fm_nbVar M" "length (cm_occurrence (restore_occ s M)) = length (cm_occurrence M)"
  "cm_infoClauses (restore_occ s M) = cm_infoClauses M" "cm_clauses (restore_occ s M) = cm_clauses M"
  "fm_currentValue (restore_occ s M) = fm_currentValue M"
  "cd_savedStateOccs (restore_occ s M) = cd_savedStateOccs M"
  "cd_savedStateClauses (restore_occ s M) = cd_savedStateClauses M"
  "cd_stackPosOcc (restore_occ s M) = cd_stackPosOcc M" "cd_stackPosClause (restore_occ s M) = cd_stackPosClause M"
  "cd_markedClauseIdx (restore_occ s M) = cd_markedClauseIdx M" "cd_markedLitStack (restore_occ s M) = cd_markedLitStack M"
  "cd_markedLitRemove (restore_occ s M) = cd_markedLitRemove M"
  "cd_currentMarkedLitStackIndex (restore_occ s M) = cd_currentMarkedLitStackIndex M"
  "cd_indexSatClauses (restore_occ s M) = cd_indexSatClauses M" "cd_reviewWatcher (restore_occ s M) = cd_reviewWatcher M"
  "cd_keepListNotSatisfiedClauses (restore_occ s M) = cd_keepListNotSatisfiedClauses M"
  by (simp_all add: restore_occ_def upd_occ_def)

lemma restore_occ_commute:
  "restore_occ s (M\<lparr>cd_stackPosOcc := p\<rparr>) = (restore_occ s M)\<lparr>cd_stackPosOcc := p\<rparr>"
  "restore_occ s (M\<lparr>cd_markedClauseIdx := m\<rparr>) = (restore_occ s M)\<lparr>cd_markedClauseIdx := m\<rparr>"
  by (simp_all add: restore_occ_def upd_occ_def)

lemma fold_restore_occ_commute:
  "fold restore_occ new (M\<lparr>cd_stackPosOcc := p\<rparr>) = (fold restore_occ new M)\<lparr>cd_stackPosOcc := p\<rparr>"
  "fold restore_occ new (M\<lparr>cd_markedClauseIdx := m\<rparr>) = (fold restore_occ new M)\<lparr>cd_markedClauseIdx := m\<rparr>"
  by (induction new arbitrary: M) (simp_all add: restore_occ_commute)

lemma fold_restore_occ_frame [simp]:
  "fm_nbVar (fold restore_occ new M) = fm_nbVar M"
  "length (cm_occurrence (fold restore_occ new M)) = length (cm_occurrence M)"
  "cm_infoClauses (fold restore_occ new M) = cm_infoClauses M" "cm_clauses (fold restore_occ new M) = cm_clauses M"
  "fm_currentValue (fold restore_occ new M) = fm_currentValue M"
  "cd_savedStateOccs (fold restore_occ new M) = cd_savedStateOccs M"
  "cd_savedStateClauses (fold restore_occ new M) = cd_savedStateClauses M"
  "cd_stackPosOcc (fold restore_occ new M) = cd_stackPosOcc M"
  "cd_stackPosClause (fold restore_occ new M) = cd_stackPosClause M"
  "cd_markedClauseIdx (fold restore_occ new M) = cd_markedClauseIdx M"
  "cd_markedLitStack (fold restore_occ new M) = cd_markedLitStack M"
  "cd_markedLitRemove (fold restore_occ new M) = cd_markedLitRemove M"
  "cd_currentMarkedLitStackIndex (fold restore_occ new M) = cd_currentMarkedLitStackIndex M"
  "cd_indexSatClauses (fold restore_occ new M) = cd_indexSatClauses M"
  "cd_reviewWatcher (fold restore_occ new M) = cd_reviewWatcher M"
  "cd_keepListNotSatisfiedClauses (fold restore_occ new M) = cd_keepListNotSatisfiedClauses M"
  by (induction new arbitrary: M) simp_all

lemma restore_occs:
  assumes "distinct (map so_l new)" "length (cm_occurrence M) = nat (2 * (fm_nbVar M + 1))"
    "\<forall>s\<in>set new. wf_ilit (fm_nbVar M) (so_l s) \<and>
      occ_equiv (occ0 (so_l s)) (occ_reset (so_nbBin s) (so_nbNotBin s) (occ_of M (so_l s)))"
    "\<forall>l. wf_ilit (fm_nbVar M) l \<longrightarrow> l \<notin> so_l ` set new \<longrightarrow> occ_equiv (occ0 l) (occ_of M l)"
  shows "\<forall>l. wf_ilit (fm_nbVar M) l \<longrightarrow> occ_equiv (occ0 l) (occ_of (fold restore_occ new M) l)"
  using assms
proof (induction new arbitrary: M)
  case (Cons s new)
  let ?M = "restore_occ s M"
  have occ: "occ_of ?M l = (if l = so_l s then occ_reset (so_nbBin s) (so_nbNotBin s) (occ_of M (so_l s)) else occ_of M l)"
    if "wf_ilit (fm_nbVar M) l" for l
    using occ_of_upd [of M "so_l s" l] Cons.prems(2,3) that by (simp add: restore_occ_reset)
  have other: "s' \<in> set new \<Longrightarrow> so_l s' \<noteq> so_l s" for s' using Cons.prems(1) by (auto simp: image_iff)
  have "\<forall>l. wf_ilit (fm_nbVar ?M) l \<longrightarrow> occ_equiv (occ0 l) (occ_of (fold restore_occ new ?M) l)"
  proof (rule Cons.IH)
    show "\<forall>s\<in>set new. wf_ilit (fm_nbVar ?M) (so_l s) \<and>
        occ_equiv (occ0 (so_l s)) (occ_reset (so_nbBin s) (so_nbNotBin s) (occ_of ?M (so_l s)))"
      using Cons.prems(3) occ other by (simp add: restore_occ_reset)
    show "\<forall>l. wf_ilit (fm_nbVar ?M) l \<longrightarrow> l \<notin> so_l ` set new \<longrightarrow> occ_equiv (occ0 l) (occ_of ?M l)"
      using Cons.prems(3,4) occ by (auto simp: restore_occ_reset)
  qed (use Cons.prems(1,2) in \<open>simp_all add: restore_occ_reset\<close>)
  then show ?case by simp
qed simp

text \<open>The parts of \<open>postUpdate\<close>.\<close>

lemma postUpdate_fields:
  defines "new M \<equiv> drop (last (cd_stackPosOcc M)) (cd_savedStateOccs M)"
    and "newc M \<equiv> drop (last (cd_stackPosClause M)) (cd_savedStateClauses M)"
  shows "fm_nbVar (postUpdate lits M) = fm_nbVar M" "cm_clauses (postUpdate lits M) = cm_clauses M"
    "occ_of (postUpdate lits M) = occ_of (fold restore_occ (new M) M)"
    "length (cm_occurrence (postUpdate lits M)) = length (cm_occurrence M)"
    "cm_infoClauses (postUpdate lits M) =
      fold (\<lambda>s info. info[sc_idx s := (info ! sc_idx s)\<lparr>ci_isSat := sc_isSat s, ci_nbUnsat := sc_nbUnsat s\<rparr>])
        (newc M) (cm_infoClauses M)"
    "fm_currentValue (postUpdate lits M) = fold (\<lambda>l c. vset c (ilit_var l) l_Undef) lits (fm_currentValue M)"
    "cd_savedStateOccs (postUpdate lits M) = take (last (cd_stackPosOcc M)) (cd_savedStateOccs M)"
    "cd_savedStateClauses (postUpdate lits M) = take (last (cd_stackPosClause M)) (cd_savedStateClauses M)"
    "cd_stackPosOcc (postUpdate lits M) = butlast (cd_stackPosOcc M)"
    "cd_stackPosClause (postUpdate lits M) = butlast (cd_stackPosClause M)"
    "cd_markedClauseIdx (postUpdate lits M) = cd_markedClauseIdx M" "cd_markedLitStack (postUpdate lits M) = cd_markedLitStack M"
    "cd_markedLitRemove (postUpdate lits M) = cd_markedLitRemove M"
    "cd_currentMarkedLitStackIndex (postUpdate lits M) = cd_currentMarkedLitStackIndex M"
    "cd_indexSatClauses (postUpdate lits M) = cd_indexSatClauses M" "cd_reviewWatcher (postUpdate lits M) = cd_reviewWatcher M"
proof -
  show "occ_of (postUpdate lits M) = occ_of (fold restore_occ (new M) M)"
    by (simp add: postUpdate_def Let_def fold_restore_clause new_def fold_restore_occ_commute)
qed (simp_all add: postUpdate_def Let_def fold_restore_clause newc_def)

lemma unmark_fields [simp]:
  "fm_nbVar (unmarkLastClausesSaved M) = fm_nbVar M" "cm_clauses (unmarkLastClausesSaved M) = cm_clauses M"
  "cm_occurrence (unmarkLastClausesSaved M) = cm_occurrence M" "cm_infoClauses (unmarkLastClausesSaved M) = cm_infoClauses M"
  "fm_currentValue (unmarkLastClausesSaved M) = fm_currentValue M"
  "cd_savedStateOccs (unmarkLastClausesSaved M) = cd_savedStateOccs M"
  "cd_savedStateClauses (unmarkLastClausesSaved M) = cd_savedStateClauses M"
  "cd_stackPosOcc (unmarkLastClausesSaved M) = cd_stackPosOcc M"
  "cd_stackPosClause (unmarkLastClausesSaved M) = cd_stackPosClause M"
  "cd_markedLitStack (unmarkLastClausesSaved M) = cd_markedLitStack M"
  "cd_markedLitRemove (unmarkLastClausesSaved M) = cd_markedLitRemove M"
  "cd_currentMarkedLitStackIndex (unmarkLastClausesSaved M) = cd_currentMarkedLitStackIndex M"
  "cd_indexSatClauses (unmarkLastClausesSaved M) = cd_indexSatClauses M"
  "cd_reviewWatcher (unmarkLastClausesSaved M) = cd_reviewWatcher M"
  "cd_keepListNotSatisfiedClauses (unmarkLastClausesSaved M) = cd_keepListNotSatisfiedClauses M"
  by (simp_all add: unmarkLastClausesSaved_def)

lemma occ_of_unmark [simp]: "occ_of (unmarkLastClausesSaved M) = occ_of M"
  by (simp add: occ_of_def fun_eq_iff)

lemma length_fold_unmark: "length (fold (\<lambda>s m. m[sc_idx s := False]) new m) = length m"
  by (induction new arbitrary: m) simp_all

lemma fold_unmark:
  "i < length m \<Longrightarrow> fold (\<lambda>s m. m[sc_idx s := False]) new m ! i = (m ! i \<and> i \<notin> sc_idx ` set new)"
proof (induction new arbitrary: m)
  case (Cons s new)
  then show ?case by (cases "sc_idx s = i") auto
qed simp

lemma restored_refl: "dyn_wf M \<Longrightarrow> restored M M"
  by (simp add: restored_def dyn_wf_def cm_wf_def occ_equiv_refl)

lemma restored_trans:
  assumes "restored M M'" "restored M' M''"
  shows "restored M M''"
proof -
  have "litIsAssigned M' = litIsAssigned M" using assms(1) by (simp add: restored_def litIsAssigned_def fun_eq_iff)
  then have "mset (cm_clauses M'' ! i) = mset (cm_clauses M ! i) \<and>
      (cm_clauses M'' ! i ! 0 = cm_clauses M ! i ! 0 \<or> \<not> litIsAssigned M (cm_clauses M'' ! i ! 0))"
    if "i < length (cm_clauses M)" for i
    using assms that unfolding restored_def by metis
  then show ?thesis using assms by (auto simp: restored_def intro: occ_equiv_trans)
qed

lemma level_restored:
  assumes "open_lits M lits" "level (open_level lits M) M1" "dyn_wf (open_level lits M)"
    "restored (unmarkLastClausesSaved M1) M2" "dyn_wf M2"
  shows "restored M (postUpdate lits M2)"
proof -
  let ?M0 = "open_level lits M"
  have sh: "same_shape ?M0 M1" and cs: "clauses_saved ?M0 M1" and os: "occs_saved ?M0 M1"
    using assms(2) by (simp_all add: level_def)
  obtain new where new: "cd_savedStateOccs M1 = cd_savedStateOccs M @ new" "distinct (map so_l new)"
    "\<forall>s\<in>set new. wf_ilit (fm_nbVar M) (so_l s) \<and>
      so_nbBin s = do_nbBin (occ_of M (so_l s)) \<and> so_nbNotBin s = do_nbNotBin (occ_of M (so_l s))"
    "\<forall>l. wf_ilit (fm_nbVar M) l \<longrightarrow> occ_sub (occ_of M l) (occ_of M1 l) \<and>
      (l \<notin> so_l ` set new \<longrightarrow> occ_of M1 l = occ_of M l)"
    using os unfolding occs_saved_def open_level_fields occ_of_open by blast
  obtain newc where newc: "cd_savedStateClauses M1 = cd_savedStateClauses M @ newc" "distinct (map sc_idx newc)"
    "\<forall>s\<in>set newc. sc_idx s < length (cm_clauses M) \<and>
      sc_isSat s = ci_isSat (cm_infoClauses M ! sc_idx s) \<and> sc_nbUnsat s = ci_nbUnsat (cm_infoClauses M ! sc_idx s)"
    "\<forall>i<length (cm_clauses M). ci_xorLitBin (cm_infoClauses M1 ! i) = ci_xorLitBin (cm_infoClauses M ! i) \<and>
      (i \<notin> sc_idx ` set newc \<longrightarrow> cm_infoClauses M1 ! i = cm_infoClauses M ! i)"
    using cs unfolding clauses_saved_def open_level_fields by blast
  have n: "fm_nbVar M2 = fm_nbVar M" "length (cm_clauses M2) = length (cm_clauses M)"
    "cm_infoClauses M2 = cm_infoClauses M1" "length (cm_infoClauses M1) = length (cm_clauses M)"
    "length (cm_infoClauses M) = length (cm_clauses M)"
    "fm_currentValue M2 = assign_values lits (fm_currentValue M)"
    "last (cd_stackPosOcc M2) = length (cd_savedStateOccs M)" "butlast (cd_stackPosOcc M2) = cd_stackPosOcc M"
    "last (cd_stackPosClause M2) = length (cd_savedStateClauses M)" "butlast (cd_stackPosClause M2) = cd_stackPosClause M"
    "cd_savedStateOccs M2 = cd_savedStateOccs M @ new" "cd_savedStateClauses M2 = cd_savedStateClauses M @ newc"
    using sh assms(3,4) new(1) newc(1) by (simp_all add: same_shape_def dyn_wf_def cm_wf_def restored_def)
  have cls: "mset (cm_clauses M2 ! i) = mset (cm_clauses M ! i) \<and>
      (cm_clauses M2 ! i ! 0 = cm_clauses M ! i ! 0 \<or> \<not> litIsAssigned M (cm_clauses M2 ! i ! 0))"
    if i: "i < length (cm_clauses M)" for i
  proof -
    have "litIsAssigned (unmarkLastClausesSaved M1) = litIsAssigned ?M0"
      using sh by (simp add: litIsAssigned_def fun_eq_iff same_shape_def)
    then have "mset (cm_clauses M2 ! i) = mset (cm_clauses M1 ! i)" "mset (cm_clauses M1 ! i) = mset (cm_clauses M ! i)"
      "cm_clauses M2 ! i ! 0 = cm_clauses M ! i ! 0 \<or> \<not> litIsAssigned ?M0 (cm_clauses M2 ! i ! 0)"
      using i sh assms(4) unfolding same_shape_def restored_def open_level_fields unmark_fields by metis+
    moreover have "litIsAssigned ?M0 l" if "litIsAssigned M l" for l
      using that assigned_open by blast
    ultimately show ?thesis by metis
  qed
  have eqv: "occ_equiv (occ_of M1 l) (occ_of M2 l)" if "wf_ilit (fm_nbVar M) l" for l
    using assms(4) sh that by (simp add: restored_def same_shape_def)
  have occ_oks: "occ_ok (occ_of M l)" if "wf_ilit (fm_nbVar M) l" for l
    using assms(3) that by (simp add: dyn_wf_def cm_wf_def)
  have sub: "occ_sub (occ_of M l) (occ_of M2 l)" if "wf_ilit (fm_nbVar M) l" for l
    using new(4) eqv [OF that] that occ_sub_trans by (auto simp: occ_equiv_def)
  have occs: "\<forall>l. wf_ilit (fm_nbVar M2) l \<longrightarrow> occ_equiv (occ_of M l) (occ_of (fold restore_occ new M2) l)"
  proof (rule restore_occs)
    show "\<forall>s\<in>set new. wf_ilit (fm_nbVar M2) (so_l s) \<and>
        occ_equiv (occ_of M (so_l s)) (occ_reset (so_nbBin s) (so_nbNotBin s) (occ_of M2 (so_l s)))"
      using new(3) sub occ_oks occ_reset_equiv by (simp add: n)
    show "\<forall>l. wf_ilit (fm_nbVar M2) l \<longrightarrow> l \<notin> so_l ` set new \<longrightarrow> occ_equiv (occ_of M l) (occ_of M2 l)"
      using new(4) eqv by (simp add: n) metis
    show "length (cm_occurrence M2) = nat (2 * (fm_nbVar M2 + 1))" using assms(5) by (simp add: dyn_wf_def cm_wf_def)
  qed (rule new(2))
  have infos: "fold (\<lambda>s info. info[sc_idx s := (info ! sc_idx s)\<lparr>ci_isSat := sc_isSat s, ci_nbUnsat := sc_nbUnsat s\<rparr>])
      newc (cm_infoClauses M1) = cm_infoClauses M"
    using newc n by (intro restore_infos) auto
  have "\<forall>l\<in>set lits. vin (fm_currentValue M) (ilit_var l) \<and> vget (fm_currentValue M) (ilit_var l) = l_Undef"
    using assms(1,3) by (auto simp: open_lits_def litIsAssigned_def vin_def wf_ilit_def dyn_wf_def cm_wf_def)
  then have vals: "fold (\<lambda>l c. vset c (ilit_var l) l_Undef) lits (assign_values lits (fm_currentValue M)) = fm_currentValue M"
    by (rule unassign_values)
  show ?thesis
    using occs infos vals cls by (simp add: restored_def postUpdate_fields n)
qed

lemma dyn_ok_unmark:
  assumes "dyn_ok M" "in_level (open_level lits M) M1" "dyn_wf (open_level lits M)"
    "cd_currentMarkedLitStackIndex M + 1 < 2 ^ 32"
  shows "dyn_ok (unmarkLastClausesSaved M1)"
proof -
  let ?M0 = "open_level lits M"
  have lv: "level ?M0 M1" by (rule in_level_level [OF assms(2)])
  then have sh: "same_shape ?M0 M1" and cs: "clauses_saved ?M0 M1" and os: "occs_saved ?M0 M1"
    by (simp_all add: level_def)
  have wf: "dyn_wf M1" by (rule level_wf [OF lv assms(3)])
  have idx: "cd_currentMarkedLitStackIndex M1 = cd_currentMarkedLitStackIndex M + 1"
    "0 \<le> cd_currentMarkedLitStackIndex M"
    using sh assms(1,4) by (simp_all add: same_shape_def dyn_ok_def)
  have n: "fm_nbVar M1 = fm_nbVar M" "length (cm_clauses M1) = length (cm_clauses M)"
    "last (cd_stackPosClause M1) = length (cd_savedStateClauses M)"
    using sh by (simp_all add: same_shape_def)
  obtain newc where newc: "cd_savedStateClauses M1 = cd_savedStateClauses M @ newc"
    "\<forall>i<length (cm_clauses M). cd_markedClauseIdx M1 ! i = (i \<in> sc_idx ` set newc)"
    using cs unfolding clauses_saved_def open_level_fields by blast
  have "\<not> cd_markedClauseIdx (unmarkLastClausesSaved M1) ! i" if "i < length (cm_clauses M)" for i
  proof -
    have "i < length (cd_markedClauseIdx M1)" using wf n that by (simp add: dyn_wf_def)
    then show ?thesis using newc(2) that by (simp add: unmarkLastClausesSaved_def n newc(1) fold_unmark)
  qed
  moreover have "vget (cd_markedLitStack M1) (ilit_intern l) \<le> cd_currentMarkedLitStackIndex M1"
    if "wf_ilit (fm_nbVar M) l" for l
  proof -
    have "vget (cd_markedLitStack M1) (ilit_intern l) = cd_currentMarkedLitStackIndex M1 \<or>
        vget (cd_markedLitStack M1) (ilit_intern l) = vget (cd_markedLitStack M) (ilit_intern l)"
      using os sh that unfolding occs_saved_def same_shape_def open_level_fields by metis
    then show ?thesis using assms(1) that idx by (auto simp: dyn_ok_def)
  qed
  moreover have "dyn_wf (unmarkLastClausesSaved M1)"
    using wf by (simp add: dyn_wf_def cm_wf_def) (simp add: unmarkLastClausesSaved_def length_fold_unmark)
  ultimately show ?thesis using assms(2) idx n by (simp add: dyn_ok_def in_level_def)
qed

lemma dyn_ok_post:
  assumes "dyn_ok M" "dyn_ok M2" "restored M (postUpdate lits M2)"
  shows "dyn_ok (postUpdate lits M2)"
proof -
  let ?M' = "postUpdate lits M2"
  have n: "fm_nbVar ?M' = fm_nbVar M" "length (cm_clauses ?M') = length (cm_clauses M)"
    "cm_clauses ?M' = cm_clauses M2" "fm_nbVar ?M' = fm_nbVar M2"
    using assms(3) by (simp_all add: restored_def postUpdate_fields)
  have "occ_ok (occ_of ?M' l) \<and> set (do_mem (occ_of ?M' l)) \<subseteq> {..<length (cm_clauses ?M')}"
    if "wf_ilit (fm_nbVar M) l" for l
  proof -
    have e: "occ_equiv (occ_of M l) (occ_of ?M' l)" "occ_ok (occ_of M l)"
      "set (do_mem (occ_of M l)) \<subseteq> {..<length (cm_clauses M)}"
      using assms(1,3) that by (simp_all add: restored_def dyn_ok_def dyn_wf_def cm_wf_def)
    then have "mset (do_mem (occ_of ?M' l)) = mset (do_mem (occ_of M l))" by (auto simp: occ_equiv_def intro: occ_sub_mset)
    then have "set (do_mem (occ_of ?M' l)) = set (do_mem (occ_of M l))" by (rule mset_eq_setD)
    then show ?thesis using e n occ_sub_ok by (auto simp: occ_equiv_def)
  qed
  moreover have "length (fm_currentValue ?M') = nat (fm_nbVar M + 1)" "length (cm_infoClauses ?M') = length (cm_clauses M)"
    using assms(1,3) by (simp_all add: restored_def dyn_ok_def dyn_wf_def cm_wf_def)
  ultimately have "dyn_wf ?M'"
    using assms(2) n by (simp add: dyn_ok_def dyn_wf_def cm_wf_def postUpdate_fields)
  then show ?thesis using assms(2) n by (simp add: dyn_ok_def postUpdate_fields)
qed

section \<open>The virtual method\<close>

text \<open>What a level may do beyond the propagation of its literals: it keeps the level.\<close>

locale inprocessing_step =
  fixes inprocessing :: "'a CnfManagerDyn_scheme \<Rightarrow> 'a CnfManagerDyn_scheme"
  assumes keeps_level: "dyn_wf M0 \<Longrightarrow> in_level M0 M \<Longrightarrow> in_level M0 (inprocessing M)"
begin

lemma pre_in_level:
  assumes "dyn_ok M" "open_lits M lits" "cd_currentMarkedLitStackIndex M + 1 < 2 ^ 32"
  shows "in_level (open_level lits M)
    (inprocessing (propagateFalseInNotBin lits (propagateTrue lits (open_level lits M))))"
  using assms(2) in_level_open [OF assms(1,3)]
  by (intro keeps_level in_level_propagateFalse in_level_propagateTrue) (simp_all add: open_lits_def)

lemma pre_ok:
  assumes "dyn_ok M" "open_lits M lits" "cd_currentMarkedLitStackIndex M + 1 < 2 ^ 32"
  shows "dyn_ok (preUpdate inprocessing lits M)"
  using dyn_ok_unmark [OF assms(1) pre_in_level [OF assms] in_level_open(1) [OF assms(1,3)] assms(3)]
  by (simp add: preUpdate_def open_level_def)

lemma undo:
  assumes "dyn_ok M" "open_lits M lits" "cd_currentMarkedLitStackIndex M + 1 < 2 ^ 32"
    "restored (preUpdate inprocessing lits M) M2" "dyn_ok M2"
  shows "restored M (postUpdate lits M2)" "dyn_ok (postUpdate lits M2)"
proof -
  show r: "restored M (postUpdate lits M2)"
    using assms(4,5)
    by (intro level_restored [OF assms(2) in_level_level [OF pre_in_level [OF assms(1-3)]] in_level_open(1) [OF assms(1,3)]])
       (simp_all add: preUpdate_def open_level_def dyn_ok_def)
  show "dyn_ok (postUpdate lits M2)" by (rule dyn_ok_post [OF assms(1,5) r])
qed

end

text \<open>\<open>CnfManagerDyn\<close> itself does nothing there.\<close>

definition no_inprocessing :: "'a CnfManagerDyn_scheme \<Rightarrow> 'a CnfManagerDyn_scheme" where
  "no_inprocessing M = M"

interpretation dyn_manager: inprocessing_step no_inprocessing
  by unfold_locales (simp add: no_inprocessing_def)

end
