(* ===== verification/D4_Cnf_Current.thy ===== *)
theory D4_Cnf_Current
  imports D4_Cnf_Restore
begin

text \<open>
  The constructor establishes the invariants, and \<open>preUpdate\<close> keeps what the manager is for: the occurrence lists hold
  exactly the clauses not satisfied yet, a clause counts as satisfied when the assignment makes one of its literals
  true, and a not satisfied clause that is not binary counts its falsified literals and watches an unassigned one.
\<close>

section \<open>Construction\<close>

definition clauses_of :: "ILit list list \<Rightarrow> ILit \<Rightarrow> nat list" where
  "clauses_of clauses l = concat (map (\<lambda>i. replicate (count_list (clauses ! i) l) i) [0..<length clauses])"

definition wf_clauses :: "int \<Rightarrow> ILit list list \<Rightarrow> bool" where
  "wf_clauses n clauses \<longleftrightarrow> (\<forall>cl\<in>set clauses. \<forall>l\<in>set cl. wf_ilit n l)"

lemma push_clause:
  assumes "length occ = nat (2 * (n + 1))" "wf_ilit n l" "\<forall>l\<in>set cl. wf_ilit n l"
  shows "vget (fold (\<lambda>l occ. vset occ (ilit_intern l) (vget occ (ilit_intern l) @ [i])) cl occ) (ilit_intern l) =
    vget occ (ilit_intern l) @ replicate (count_list cl l) i \<and>
    length (fold (\<lambda>l occ. vset occ (ilit_intern l) (vget occ (ilit_intern l) @ [i])) cl occ) = length occ"
  using assms
proof (induction cl arbitrary: occ)
  case (Cons a cl)
  have "vget (vset occ (ilit_intern a) (vget occ (ilit_intern a) @ [i])) (ilit_intern l) =
      (if l = a then vget occ (ilit_intern l) @ [i] else vget occ (ilit_intern l))"
    using vget_vset_lit [of n a l occ] Cons.prems by simp
  then show ?case
    using Cons.IH [of "vset occ (ilit_intern a) (vget occ (ilit_intern a) @ [i])"] Cons.prems by simp
qed simp

lemma occ_lists_eq:
  assumes "wf_clauses n clauses" "wf_ilit n l"
  shows "vget (occ_lists n clauses) (ilit_intern l) = clauses_of clauses l"
    "length (occ_lists n clauses) = nat (2 * (n + 1))"
proof -
  let ?f = "\<lambda>i occ. fold (\<lambda>l occ. vset occ (ilit_intern l) (vget occ (ilit_intern l) @ [i])) (clauses ! i) occ"
  have main: "vget (fold ?f is occ) (ilit_intern l) =
      vget occ (ilit_intern l) @ concat (map (\<lambda>i. replicate (count_list (clauses ! i) l) i) is) \<and>
      length (fold ?f is occ) = length occ"
    if "set is \<subseteq> {..<length clauses}" "length occ = nat (2 * (n + 1))" for "is" occ
    using that
  proof (induction "is" arbitrary: occ)
    case (Cons i "is")
    have "clauses ! i \<in> set clauses" using Cons.prems(1) by simp
    then have "\<forall>l\<in>set (clauses ! i). wf_ilit n l" using assms(1) by (simp add: wf_clauses_def)
    note push = push_clause [OF Cons.prems(2) assms(2) this, of i]
    show ?case using Cons.IH [of "?f i occ"] Cons.prems push by simp
  qed simp
  have "set [0..<length clauses] \<subseteq> {..<length clauses}" by auto
  note m = main [OF this, of "replicate (nat (2 * (n + 1))) []"]
  have "vget (replicate (nat (2 * (n + 1))) []) (ilit_intern l) = []"
    using wf_intern [OF assms(2)] by (intro vget_replicate) auto
  then show "vget (occ_lists n clauses) (ilit_intern l) = clauses_of clauses l"
    "length (occ_lists n clauses) = nat (2 * (n + 1))"
    using m by (simp_all add: occ_lists_def clauses_of_def)
qed

lemma fill_occ_eq:
  assumes "nb + length occ = nn" "nn \<le> length ptr"
  shows "case fill_occ bin occ ptr nb nn of (ptr', nb', nn') \<Rightarrow>
    length ptr' = length ptr \<and> nb' = nn' \<and> nb' = nb + length (filter bin occ) \<and>
    window ptr' 0 nb' = window ptr 0 nb @ filter bin occ \<and>
    window ptr' nn' (length ptr) = rev (filter (\<lambda>x. \<not> bin x) occ) @ window ptr nn (length ptr)"
  using assms
proof (induction bin occ ptr nb nn rule: fill_occ.induct)
  case (2 bin idx occ ptr nb nn)
  show ?case
  proof (cases "bin idx")
    case True
    have "window (ptr[nb := idx]) 0 (nb + 1) = window ptr 0 nb @ [idx]"
      using "2.prems" window_snoc [of 0 "nb + 1" "ptr[nb := idx]"] window_cong [of "ptr[nb := idx]" ptr 0 nb] by simp
    moreover have "window (ptr[nb := idx]) nn (length ptr) = window ptr nn (length ptr)"
      using "2.prems" by (intro window_cong) auto
    ultimately show ?thesis using "2.IH"(1) "2.prems" True by (auto split: prod.splits)
  next
    case False
    have "window (ptr[nn - 1 := idx]) (nn - 1) (length ptr) = idx # window ptr nn (length ptr)"
      using "2.prems" window_Cons [of "nn - 1" "length ptr" "ptr[nn - 1 := idx]"]
        window_cong [of "ptr[nn - 1 := idx]" ptr nn "length ptr"] by simp
    moreover have "window (ptr[nn - 1 := idx]) 0 nb = window ptr 0 nb"
      using "2.prems" by (intro window_cong) auto
    ultimately show ?thesis using "2.IH"(2) "2.prems" False by (auto split: prod.splits)
  qed
qed simp

lemma make_occ_ok:
  fixes clauses :: "ILit list list"
  defines "bin \<equiv> \<lambda>i. length (clauses ! i) = 2"
  shows "occ_ok (make_occ clauses occ)" "getBinClauses (make_occ clauses occ) = filter bin occ"
    "getNotBinClauses (make_occ clauses occ) = rev (filter (\<lambda>i. \<not> bin i) occ)"
    "set (do_mem (make_occ clauses occ)) \<subseteq> set occ"
proof -
  let ?p = "replicate (length occ) 0"
  obtain ptr nb nn where f: "fill_occ bin occ ?p 0 (length occ) = (ptr, nb, nn)" by (cases "fill_occ bin occ ?p 0 (length occ)") auto
  have "length ptr = length occ \<and> nb = nn \<and> nb = length (filter bin occ) \<and> window ptr 0 nb = filter bin occ \<and>
    window ptr nn (length occ) = rev (filter (\<lambda>x. \<not> bin x) occ)"
    using fill_occ_eq [of 0 occ "length occ" ?p bin] unfolding f by auto
  then have e: "length ptr = length occ" "nb = nn" "nb = length (filter bin occ)" "window ptr 0 nb = filter bin occ"
    "window ptr nn (length occ) = rev (filter (\<lambda>x. \<not> bin x) occ)" by blast+
  have le: "nb \<le> length occ" unfolding e(3) by simp
  have d: "make_occ clauses occ = \<lparr>do_mem = ptr, do_bin = 0, do_notBin = nn, do_nbNotBin = length occ - nb, do_nbBin = nb\<rparr>"
    using f by (simp add: make_occ_def bin_def)
  show "occ_ok (make_occ clauses occ)" using e(1,2) le by (simp add: d occ_ok_def)
  show "getBinClauses (make_occ clauses occ) = filter bin occ"
    using e(4) unfolding getBin_window by (simp add: d)
  show "getNotBinClauses (make_occ clauses occ) = rev (filter (\<lambda>i. \<not> bin i) occ)"
    using e(2,5) le unfolding getNotBin_window by (simp add: d)
  have "ptr = window ptr 0 nb @ window ptr nb (length ptr)"
    using window_append [of 0 nb "length ptr" ptr] e(1) le by (simp add: window_def)
  then have "set ptr = set (window ptr 0 nb) \<union> set (window ptr nb (length ptr))" by (metis set_append)
  then show "set (do_mem (make_occ clauses occ)) \<subseteq> set occ" using e by (auto simp: d)
qed

lemma set_clauses_of: "set (clauses_of clauses l) = {i. i < length clauses \<and> l \<in> set (clauses ! i)}"
  by (auto simp: clauses_of_def count_list_0_iff)

lemma occ_of_mk:
  assumes "wf_clauses (pm_nbVar p) (pm_clauses p)" "wf_ilit (pm_nbVar p) l"
  shows "occ_of (mkCnfManagerDyn p keep) l = make_occ (pm_clauses p) (clauses_of (pm_clauses p) l)"
proof -
  have "vin (occ_lists (pm_nbVar p) (pm_clauses p)) (ilit_intern l)"
    using vin_lit [OF assms(2)] occ_lists_eq(2) [OF assms] by blast
  then show ?thesis using occ_lists_eq(1) [OF assms]
    by (simp add: mkCnfManagerDyn_def mkCnfManager_def Let_def occ_of_def CnfManager.extend_def vget_def vin_def nat_less_iff)
qed

definition wf_problem :: "'w ProblemManager \<Rightarrow> bool" where
  "wf_problem p \<longleftrightarrow> 1 \<le> pm_nbVar p \<and> pm_nbVar p < 2 ^ 30 \<and> wf_clauses (pm_nbVar p) (pm_clauses p)"

lemma mk_fields [simp]:
  "fm_nbVar (mkCnfManagerDyn p keep) = pm_nbVar p" "cm_clauses (mkCnfManagerDyn p keep) = pm_clauses p"
  "fm_currentValue (mkCnfManagerDyn p keep) = replicate (nat (pm_nbVar p + 1)) l_Undef"
  "cm_infoClauses (mkCnfManagerDyn p keep) = map xor_info (pm_clauses p)"
  "cm_occurrence (mkCnfManagerDyn p keep) = map (make_occ (pm_clauses p)) (occ_lists (pm_nbVar p) (pm_clauses p))"
  "cd_markedLitStack (mkCnfManagerDyn p keep) = replicate (nat (2 * (1 + pm_nbVar p))) 0"
  "cd_markedLitRemove (mkCnfManagerDyn p keep) = replicate (nat (2 * (1 + pm_nbVar p))) 0"
  "cd_markedClauseIdx (mkCnfManagerDyn p keep) = replicate (length (pm_clauses p) + 1) False"
  "cd_indexSatClauses (mkCnfManagerDyn p keep) = []" "cd_reviewWatcher (mkCnfManagerDyn p keep) = []"
  "cd_currentMarkedLitStackIndex (mkCnfManagerDyn p keep) = 0"
  "cd_currentMarkedLitRemoveIndex (mkCnfManagerDyn p keep) = 0"
  "cd_keepListNotSatisfiedClauses (mkCnfManagerDyn p keep) = keep"
  by (simp_all add: mkCnfManagerDyn_def mkCnfManager_def Let_def CnfManager.extend_def)

lemma dyn_ok_mk:
  assumes "wf_problem p"
  shows "dyn_ok (mkCnfManagerDyn p keep)"
proof -
  let ?M = "mkCnfManagerDyn p keep"
  have w: "0 \<le> pm_nbVar p" "pm_nbVar p < 2 ^ 30" "wf_clauses (pm_nbVar p) (pm_clauses p)"
    "wf_ilit (pm_nbVar p) (ilit_make 1 False)"
    using assms by (simp_all add: wf_problem_def wf_ilit_def)
  have "occ_ok (occ_of ?M l) \<and> set (do_mem (occ_of ?M l)) \<subseteq> {..<length (pm_clauses p)}" if "wf_ilit (pm_nbVar p) l" for l
    using make_occ_ok(1,4) set_clauses_of by (fastforce simp: occ_of_mk [OF w(3) that])
  then have "cm_wf ?M" using w occ_lists_eq(2) [OF w(3,4)] by (simp add: cm_wf_def wf_clauses_def)
  moreover have "vget (cd_markedLitStack ?M) (ilit_intern l) = 0" if "wf_ilit (pm_nbVar p) l" for l
    using wf_intern [OF that] by (simp add: vget_replicate)
  ultimately show ?thesis by (simp add: dyn_ok_def dyn_wf_def add.commute nth_append del: replicate_Suc)
qed

end
