(* ===== verification/D4_Cnf_Invariant.thy ===== *)
theory D4_Cnf_Invariant
  imports D4_Cnf_Current
begin

text \<open>
  The effect of the steps of \<open>preUpdate\<close> on the current formula, and the invariant they keep (\<open>current_ok\<close>,
  \<open>watch_ok\<close>).
\<close>

section \<open>The invariant\<close>

abbreviation clause_sat :: "'a CnfManager_scheme \<Rightarrow> nat \<Rightarrow> bool" where
  "clause_sat M i \<equiv> ci_isSat (cm_infoClauses M ! i)"

definition bins_of :: "'a CnfManager_scheme \<Rightarrow> ILit \<Rightarrow> nat list" where
  "bins_of M l = filter (\<lambda>i. length (cm_clauses M ! i) = 2) (clauses_of (cm_clauses M) l)"

definition nots_of :: "'a CnfManager_scheme \<Rightarrow> ILit \<Rightarrow> nat list" where
  "nots_of M l = filter (\<lambda>i. length (cm_clauses M ! i) \<noteq> 2) (clauses_of (cm_clauses M) l)"

definition current_ok :: "'a CnfManager_scheme \<Rightarrow> bool" where
  "current_ok M \<longleftrightarrow> (\<forall>cl\<in>set (cm_clauses M). int (length cl) < 2 ^ 31) \<and>
     (\<forall>i<length (cm_clauses M). clause_sat M i = (\<exists>l\<in>set (cm_clauses M ! i). litIsAssignedToTrue M l)) \<and>
     (\<forall>l. wf_ilit (fm_nbVar M) l \<longrightarrow>
        mset (getBinClauses (occ_of M l)) = filter_mset (\<lambda>i. \<not> clause_sat M i) (mset (bins_of M l)) \<and>
        mset (getNotBinClauses (occ_of M l)) = filter_mset (\<lambda>i. \<not> clause_sat M i) (mset (nots_of M l))) \<and>
     (\<forall>i<length (cm_clauses M). \<not> clause_sat M i \<longrightarrow> length (cm_clauses M ! i) \<noteq> 2 \<longrightarrow>
        ci_nbUnsat (cm_infoClauses M ! i) = int (length (filter (litIsAssigned M) (cm_clauses M ! i))))"

definition watch_ok :: "'a CnfManager_scheme \<Rightarrow> bool" where
  "watch_ok M \<longleftrightarrow> (\<forall>i<length (cm_clauses M). \<not> clause_sat M i \<longrightarrow> length (cm_clauses M ! i) \<noteq> 2 \<longrightarrow>
     (\<exists>l\<in>set (cm_clauses M ! i). \<not> litIsAssigned M l) \<longrightarrow> \<not> litIsAssigned M (cm_clauses M ! i ! 0))"

definition rem_ok :: "'a CnfManagerDyn_scheme \<Rightarrow> bool" where
  "rem_ok M \<longleftrightarrow> 0 \<le> cd_currentMarkedLitRemoveIndex M \<and> (\<forall>l. wf_ilit (fm_nbVar M) l \<longrightarrow>
     vget (cd_markedLitRemove M) (ilit_intern l) \<le> cd_currentMarkedLitRemoveIndex M)"

section \<open>What the steps change\<close>

definition same_base :: "'a CnfManagerDyn_scheme \<Rightarrow> 'a CnfManagerDyn_scheme \<Rightarrow> bool" where
  "same_base M M' \<longleftrightarrow> fm_nbVar M' = fm_nbVar M \<and> fm_currentValue M' = fm_currentValue M \<and>
     cm_clauses M' = cm_clauses M \<and> length (cm_infoClauses M') = length (cm_infoClauses M) \<and>
     length (cm_occurrence M') = length (cm_occurrence M) \<and>
     length (cd_markedLitRemove M') = length (cd_markedLitRemove M)"

lemma same_base_refl [simp]: "same_base M M"
  by (simp add: same_base_def)

lemma same_base_trans: "same_base M M' \<Longrightarrow> same_base M' M'' \<Longrightarrow> same_base M M''"
  by (simp add: same_base_def)

lemma same_base_assigned: "same_base M M' \<Longrightarrow> litIsAssigned M' = litIsAssigned M"
  by (simp add: same_base_def litIsAssigned_def fun_eq_iff)

definition sat_step :: "nat set \<Rightarrow> 'a CnfManagerDyn_scheme \<Rightarrow> 'a CnfManagerDyn_scheme \<Rightarrow> bool" where
  "sat_step I M M' \<longleftrightarrow> same_base M M' \<and> cd_markedLitRemove M' = cd_markedLitRemove M \<and>
     cd_currentMarkedLitRemoveIndex M' = cd_currentMarkedLitRemoveIndex M \<and>
     (\<forall>i<length (cm_infoClauses M). clause_sat M' i = (clause_sat M i \<or> i \<in> I) \<and>
        ci_nbUnsat (cm_infoClauses M' ! i) = ci_nbUnsat (cm_infoClauses M ! i)) \<and>
     set (cd_indexSatClauses M') = set (cd_indexSatClauses M) \<union> {i \<in> I. \<not> clause_sat M i}"

lemma sat_step_refl: "sat_step {} M M"
  by (simp add: sat_step_def)

lemma sat_step_trans:
  assumes "sat_step I M M'" "sat_step J M' M''" "I \<subseteq> {..<length (cm_infoClauses M)}" "J \<subseteq> {..<length (cm_infoClauses M)}"
  shows "sat_step (I \<union> J) M M''"
proof -
  have "length (cm_infoClauses M') = length (cm_infoClauses M)" using assms(1) by (simp add: sat_step_def same_base_def)
  then have "{i \<in> I. \<not> clause_sat M i} \<union> {i \<in> J. \<not> clause_sat M' i} = {i \<in> I \<union> J. \<not> clause_sat M i}"
    using assms(1,3,4) by (auto simp: sat_step_def)
  then show ?thesis using assms(1,2) same_base_trans [of M M' M''] \<open>length _ = _\<close> by (auto simp: sat_step_def)
qed

lemma save_clause_marks [simp]:
  "cd_markedLitRemove (save_clause i b M) = cd_markedLitRemove M"
  "cd_currentMarkedLitRemoveIndex (save_clause i b M) = cd_currentMarkedLitRemoveIndex M"
  by (simp_all add: save_clause_def)

lemma satisfy_clause_step:
  assumes "i < length (cm_infoClauses M)"
  shows "sat_step {i} M (satisfy_clause i M)" "occ_of (satisfy_clause i M) = occ_of M"
proof -
  show "occ_of (satisfy_clause i M) = occ_of M" by (simp add: satisfy_clause_def)
  show "sat_step {i} M (satisfy_clause i M)"
    using assms by (auto simp: sat_step_def same_base_def satisfy_clause_def nth_list_update)
qed

lemma satisfy_clauses_step:
  assumes "set is \<subseteq> {..<length (cm_infoClauses M)}"
  shows "sat_step (set is) M (fold satisfy_clause is M) \<and> occ_of (fold satisfy_clause is M) = occ_of M"
  using assms
proof (induction "is" arbitrary: M)
  case (Cons i "is")
  then have one: "sat_step {i} M (satisfy_clause i M)" "occ_of (satisfy_clause i M) = occ_of M"
    by (simp_all add: satisfy_clause_step)
  have len: "length (cm_infoClauses (satisfy_clause i M)) = length (cm_infoClauses M)"
    using one(1) by (simp add: sat_step_def same_base_def)
  have rest: "sat_step (set is) (satisfy_clause i M) (fold satisfy_clause is (satisfy_clause i M)) \<and>
      occ_of (fold satisfy_clause is (satisfy_clause i M)) = occ_of (satisfy_clause i M)"
    using Cons.prems by (intro Cons.IH) (simp add: len)
  have "sat_step ({i} \<union> set is) M (fold satisfy_clause is (satisfy_clause i M))"
    using Cons.prems by (intro sat_step_trans [OF one(1) conjunct1 [OF rest]]) simp_all
  then show ?case using one(2) rest by simp
qed (simp add: sat_step_refl)

lemma satisfy_lit_step:
  assumes "wf_ilit (fm_nbVar M) l" "length (cm_occurrence M) = nat (2 * (fm_nbVar M + 1))"
    "set (getClauses (occ_of M l)) \<subseteq> {..<length (cm_infoClauses M)}"
  shows "sat_step (set (getClauses (occ_of M l))) M (satisfy_lit l M)"
    "wf_ilit (fm_nbVar M) l' \<Longrightarrow>
       occ_of (satisfy_lit l M) l' = (if l' = l then occ_clean (occ_of M l) else occ_of M l')"
proof -
  let ?M1 = "fold satisfy_clause (getClauses (occ_of M l)) M"
  have s: "sat_step (set (getClauses (occ_of M l))) M ?M1" "occ_of ?M1 = occ_of M"
    using satisfy_clauses_step [OF assms(3)] by simp_all
  then show "sat_step (set (getClauses (occ_of M l))) M (satisfy_lit l M)"
    by (simp add: satisfy_lit_def sat_step_def same_base_def)
  have "fm_nbVar ?M1 = fm_nbVar M" "length (cm_occurrence ?M1) = length (cm_occurrence M)"
    using s(1) by (simp_all add: sat_step_def same_base_def)
  then show "wf_ilit (fm_nbVar M) l' \<Longrightarrow>
      occ_of (satisfy_lit l M) l' = (if l' = l then occ_clean (occ_of M l) else occ_of M l')"
    using occ_of_upd [of "save_occ l ?M1" l l'] assms s(2) by (simp add: satisfy_lit_def)
qed

lemma satisfy_lits_step:
  assumes "distinct lits" "\<forall>l\<in>set lits. wf_ilit (fm_nbVar M) l"
    "length (cm_occurrence M) = nat (2 * (fm_nbVar M + 1))"
    "\<forall>l\<in>set lits. set (getClauses (occ_of M l)) \<subseteq> {..<length (cm_infoClauses M)}"
  shows "sat_step (\<Union>l\<in>set lits. set (getClauses (occ_of M l))) M (fold satisfy_lit lits M) \<and>
    (\<forall>l. wf_ilit (fm_nbVar M) l \<longrightarrow>
      occ_of (fold satisfy_lit lits M) l = (if l \<in> set lits then occ_clean (occ_of M l) else occ_of M l))"
  using assms
proof (induction lits arbitrary: M)
  case (Cons a lits)
  let ?M1 = "satisfy_lit a M"
  have one: "sat_step (set (getClauses (occ_of M a))) M ?M1" using Cons.prems by (intro satisfy_lit_step) simp_all
  have occ1: "occ_of ?M1 l' = (if l' = a then occ_clean (occ_of M a) else occ_of M l')" if "wf_ilit (fm_nbVar M) l'" for l'
    using Cons.prems that by (intro satisfy_lit_step(2)) simp_all
  have b: "fm_nbVar ?M1 = fm_nbVar M" "length (cm_occurrence ?M1) = length (cm_occurrence M)"
    "length (cm_infoClauses ?M1) = length (cm_infoClauses M)"
    using one by (simp_all add: sat_step_def same_base_def)
  have same: "occ_of ?M1 l = occ_of M l" if "l \<in> set lits" for l
    using that Cons.prems(1,2) occ1 [of l] by auto
  have rest: "sat_step (\<Union>l\<in>set lits. set (getClauses (occ_of ?M1 l))) ?M1 (fold satisfy_lit lits ?M1) \<and>
      (\<forall>l. wf_ilit (fm_nbVar ?M1) l \<longrightarrow>
        occ_of (fold satisfy_lit lits ?M1) l = (if l \<in> set lits then occ_clean (occ_of ?M1 l) else occ_of ?M1 l))"
    using Cons.prems same by (intro Cons.IH) (simp_all add: b)
  have "sat_step (set (getClauses (occ_of M a)) \<union> (\<Union>l\<in>set lits. set (getClauses (occ_of ?M1 l)))) M
      (fold satisfy_lit lits ?M1)"
    using Cons.prems(4) same by (intro sat_step_trans [OF one conjunct1 [OF rest]]) auto
  moreover have "(\<Union>l\<in>set lits. set (getClauses (occ_of ?M1 l))) = (\<Union>l\<in>set lits. set (getClauses (occ_of M l)))"
    using same by simp
  ultimately show ?case using rest occ1 same Cons.prems(1) by (auto simp: b)
qed (simp add: sat_step_refl)

section \<open>Removing the satisfied clauses\<close>

definition removed :: "'a CnfManagerDyn_scheme \<Rightarrow> ILit \<Rightarrow> bool" where
  "removed M l \<longleftrightarrow> vget (cd_markedLitRemove M) (ilit_intern l) = cd_currentMarkedLitRemoveIndex M"

definition windows :: "DataOccurrence \<Rightarrow> nat multiset \<times> nat multiset" where
  "windows d = (mset (getBinClauses d), mset (getNotBinClauses d))"

definition drop_sat :: "'a CnfManager_scheme \<Rightarrow> nat multiset \<times> nat multiset \<Rightarrow> nat multiset \<times> nat multiset" where
  "drop_sat M w = (filter_mset (\<lambda>i. \<not> clause_sat M i) (fst w), filter_mset (\<lambda>i. \<not> clause_sat M i) (snd w))"

definition clean_step :: "ILit set \<Rightarrow> 'a CnfManagerDyn_scheme \<Rightarrow> 'a CnfManagerDyn_scheme \<Rightarrow> bool" where
  "clean_step L M M' \<longleftrightarrow> same_base M M' \<and> cm_infoClauses M' = cm_infoClauses M \<and>
     cd_currentMarkedLitRemoveIndex M' = cd_currentMarkedLitRemoveIndex M \<and>
     cd_indexSatClauses M' = cd_indexSatClauses M \<and>
     (\<forall>l. wf_ilit (fm_nbVar M) l \<longrightarrow> occ_ok (occ_of M' l) \<and> removed M' l = (removed M l \<or> l \<in> L) \<and>
        (vget (cd_markedLitRemove M') (ilit_intern l) = vget (cd_markedLitRemove M) (ilit_intern l) \<or>
         vget (cd_markedLitRemove M') (ilit_intern l) = cd_currentMarkedLitRemoveIndex M) \<and>
        (l \<in> L \<and> \<not> removed M l \<longrightarrow> windows (occ_of M' l) = drop_sat M (windows (occ_of M l))) \<and>
        (l \<notin> L \<or> removed M l \<longrightarrow> windows (occ_of M' l) = windows (occ_of M l)))"

lemma clean_lit_step:
  assumes "wf_ilit (fm_nbVar M) l" "length (cm_occurrence M) = nat (2 * (fm_nbVar M + 1))"
    "length (cd_markedLitRemove M) = nat (2 * (fm_nbVar M + 1))"
    "\<forall>l. wf_ilit (fm_nbVar M) l \<longrightarrow> occ_ok (occ_of M l)"
  shows "clean_step {l} M (clean_lit l M)"
proof (cases "removed M l")
  case True
  then have "clean_lit l M = save_occ l M" by (simp add: clean_lit_def Let_def removed_def)
  then show ?thesis using assms(4) True by (auto simp: clean_step_def same_base_def removed_def)
next
  case False
  let ?f = "\<lambda>d. removeSatisfiedBin (\<lambda>i. clause_sat M i) (removeSatisfiedNotBin (\<lambda>i. clause_sat M i) d)"
  let ?r = "vset (cd_markedLitRemove M) (ilit_intern l) (cd_currentMarkedLitRemoveIndex M)"
  let ?N = "(save_occ l M)\<lparr>cd_markedLitRemove := ?r\<rparr>"
  have eq: "clean_lit l M = upd_occ l ?f ?N" using False by (simp add: clean_lit_def Let_def removed_def)
  have occ: "occ_of (upd_occ l ?f ?N) l' = (if l' = l then ?f (occ_of M l) else occ_of M l')"
    if "wf_ilit (fm_nbVar M) l'" for l'
    using occ_of_upd [of ?N l l' ?f] assms(1,2) that by simp
  have mark: "removed (upd_occ l ?f ?N) l' = (removed M l' \<or> l' = l)"
    "vget ?r (ilit_intern l') = vget (cd_markedLitRemove M) (ilit_intern l') \<or>
     vget ?r (ilit_intern l') = cd_currentMarkedLitRemoveIndex M" if "wf_ilit (fm_nbVar M) l'" for l'
    using vget_vset_lit [OF assms(1) that assms(3)] by (simp_all add: removed_def)
  have ok: "occ_ok (occ_of M l)" using assms(1,4) by blast
  note nb = removeSatisfiedNotBin_ok [OF ok, of "\<lambda>i. clause_sat M i"]
  note b = removeSatisfiedBin_ok [OF occ_sub_ok [OF nb(1)], of "\<lambda>i. clause_sat M i"]
  have "occ_ok (?f (occ_of M l))" "windows (?f (occ_of M l)) = drop_sat M (windows (occ_of M l))"
    using nb b occ_sub_ok by (simp_all add: windows_def drop_sat_def)
  then show ?thesis using occ mark assms(4) False
    by (auto simp: eq clean_step_def same_base_def)
qed

lemma clean_lits_step:
  assumes "\<forall>l\<in>set ls. wf_ilit (fm_nbVar M) l" "length (cm_occurrence M) = nat (2 * (fm_nbVar M + 1))"
    "length (cd_markedLitRemove M) = nat (2 * (fm_nbVar M + 1))"
    "\<forall>l. wf_ilit (fm_nbVar M) l \<longrightarrow> occ_ok (occ_of M l)"
  shows "clean_step (set ls) M (fold clean_lit ls M)"
  using assms
proof (induction ls arbitrary: M)
  case (Cons a ls)
  let ?M1 = "clean_lit a M"
  have one: "clean_step {a} M ?M1" using Cons.prems by (intro clean_lit_step) simp_all
  then have b: "fm_nbVar ?M1 = fm_nbVar M" "cm_infoClauses ?M1 = cm_infoClauses M" "same_base M ?M1"
    by (simp_all add: clean_step_def same_base_def)
  have rest: "clean_step (set ls) ?M1 (fold clean_lit ls ?M1)"
    using Cons.prems one by (intro Cons.IH) (simp_all add: clean_step_def same_base_def)
  have d: "drop_sat ?M1 = drop_sat M" by (simp add: drop_sat_def fun_eq_iff b)
  have "windows (occ_of (fold clean_lit ls ?M1) l) =
      (if (l = a \<or> l \<in> set ls) \<and> \<not> removed M l then drop_sat M (windows (occ_of M l)) else windows (occ_of M l))"
    if "wf_ilit (fm_nbVar M) l" for l
    using one rest that unfolding clean_step_def b d by (cases "l = a"; cases "removed M l") (simp; metis)+
  moreover have "vget (cd_markedLitRemove (fold clean_lit ls ?M1)) (ilit_intern l) = vget (cd_markedLitRemove M) (ilit_intern l) \<or>
      vget (cd_markedLitRemove (fold clean_lit ls ?M1)) (ilit_intern l) = cd_currentMarkedLitRemoveIndex M"
    if "wf_ilit (fm_nbVar M) l" for l
    using one rest that unfolding clean_step_def b by metis
  ultimately show ?case
    using one rest same_base_trans [OF b(3)] by (simp add: clean_step_def b)
qed (simp add: clean_step_def)

lemma fold_clauses:
  assumes "\<And>l M. cm_clauses (f l M) = cm_clauses M"
  shows "fold (\<lambda>i M. fold f (cm_clauses M ! i) M) is M = fold f (concat (map ((!) (cm_clauses M)) is)) M"
proof -
  have "cm_clauses (fold f ls M) = cm_clauses M" for ls M by (induction ls arbitrary: M) (simp_all add: assms)
  then show ?thesis by (induction "is" arbitrary: M) simp_all
qed

lemma clean_lit_clauses: "cm_clauses (clean_lit l M) = cm_clauses M"
  by (simp add: clean_lit_def Let_def)

section \<open>Falsified literals\<close>

definition false_step :: "(nat \<Rightarrow> int) \<Rightarrow> nat set \<Rightarrow> 'a CnfManagerDyn_scheme \<Rightarrow> 'a CnfManagerDyn_scheme \<Rightarrow> bool" where
  "false_step k R M M' \<longleftrightarrow> same_base M M' \<and> cm_occurrence M' = cm_occurrence M \<and>
     cd_markedLitRemove M' = cd_markedLitRemove M \<and>
     cd_currentMarkedLitRemoveIndex M' = cd_currentMarkedLitRemoveIndex M \<and>
     (\<forall>i<length (cm_infoClauses M). clause_sat M' i = clause_sat M i \<and>
        ci_nbUnsat (cm_infoClauses M' ! i) mod 2 ^ 31 = (ci_nbUnsat (cm_infoClauses M ! i) + k i) mod 2 ^ 31 \<and>
        (0 \<le> ci_nbUnsat (cm_infoClauses M ! i) \<and> ci_nbUnsat (cm_infoClauses M ! i) < 2 ^ 31 \<longrightarrow>
           0 \<le> ci_nbUnsat (cm_infoClauses M' ! i) \<and> ci_nbUnsat (cm_infoClauses M' ! i) < 2 ^ 31)) \<and>
     set (cd_reviewWatcher M') = set (cd_reviewWatcher M) \<union> R"

lemma false_step_refl: "false_step (\<lambda>_. 0) {} M M"
  by (simp add: false_step_def)

lemma false_step_trans:
  assumes "false_step k R M M'" "false_step k' R' M' M''"
  shows "false_step (\<lambda>i. k i + k' i) (R \<union> R') M M''"
proof -
  have len: "length (cm_infoClauses M') = length (cm_infoClauses M)" using assms(1) by (simp add: false_step_def same_base_def)
  have "ci_nbUnsat (cm_infoClauses M'' ! i) mod 2 ^ 31 = (ci_nbUnsat (cm_infoClauses M ! i) + (k i + k' i)) mod 2 ^ 31"
    if "i < length (cm_infoClauses M)" for i
  proof -
    have "ci_nbUnsat (cm_infoClauses M'' ! i) mod 2 ^ 31 = (ci_nbUnsat (cm_infoClauses M' ! i) + k' i) mod 2 ^ 31"
      using assms(2) that len by (simp add: false_step_def)
    also have "\<dots> = (ci_nbUnsat (cm_infoClauses M' ! i) mod 2 ^ 31 + k' i) mod 2 ^ 31" by (simp add: mod_add_left_eq)
    also have "ci_nbUnsat (cm_infoClauses M' ! i) mod 2 ^ 31 = (ci_nbUnsat (cm_infoClauses M ! i) + k i) mod 2 ^ 31"
      using assms(1) that by (simp add: false_step_def)
    finally show ?thesis by (simp add: mod_add_left_eq add.assoc)
  qed
  then show ?thesis using assms same_base_trans [of M M' M''] len by (auto simp: false_step_def)
qed

lemma falsify_clause_step:
  assumes "i < length (cm_infoClauses M)"
  shows "false_step (\<lambda>j. of_bool (j = i)) {j. j = i \<and> cm_clauses M ! j ! 0 = ilit_neg l} M (falsify_clause l i M)"
  using assms by (auto simp: false_step_def same_base_def falsify_clause_def Let_def nth_list_update mod_add_left_eq)

lemma false_step_base: "false_step k R M M' \<Longrightarrow> cm_clauses M' = cm_clauses M" "false_step k R M M' \<Longrightarrow> occ_of M' = occ_of M"
  "false_step k R M M' \<Longrightarrow> length (cm_infoClauses M') = length (cm_infoClauses M)"
  by (simp_all add: false_step_def same_base_def occ_of_def fun_eq_iff)

lemma falsify_clauses_step:
  assumes "set is \<subseteq> {..<length (cm_infoClauses M)}"
  shows "false_step (\<lambda>j. int (count_list is j)) {j \<in> set is. cm_clauses M ! j ! 0 = ilit_neg l} M (fold (falsify_clause l) is M)"
  using assms
proof (induction "is" arbitrary: M)
  case (Cons i "is")
  have one: "false_step (\<lambda>j. of_bool (j = i)) {j. j = i \<and> cm_clauses M ! j ! 0 = ilit_neg l} M (falsify_clause l i M)"
    using Cons.prems by (intro falsify_clause_step) simp
  have rest: "false_step (\<lambda>j. int (count_list is j))
      {j \<in> set is. cm_clauses (falsify_clause l i M) ! j ! 0 = ilit_neg l} (falsify_clause l i M)
      (fold (falsify_clause l) is (falsify_clause l i M))"
    using Cons.prems false_step_base(3) [OF one] by (intro Cons.IH) simp
  have "(\<lambda>j. of_bool (j = i) + int (count_list is j)) = (\<lambda>j. int (count_list (i # is) j))" by (auto simp: fun_eq_iff)
  moreover have "{j. j = i \<and> cm_clauses M ! j ! 0 = ilit_neg l} \<union> {j \<in> set is. cm_clauses (falsify_clause l i M) ! j ! 0 = ilit_neg l} =
      {j \<in> set (i # is). cm_clauses M ! j ! 0 = ilit_neg l}"
    using false_step_base(1) [OF one] by auto
  ultimately show ?case using false_step_trans [OF one rest] by (simp only: fold_Cons comp_apply)
qed (simp add: false_step_refl)

lemma falsify_lits_step:
  assumes "\<forall>l\<in>set lits. set (getNotBinClauses (occ_of M (ilit_neg l))) \<subseteq> {..<length (cm_infoClauses M)}"
  shows "false_step (\<lambda>j. \<Sum>l\<leftarrow>lits. int (count_list (getNotBinClauses (occ_of M (ilit_neg l))) j))
    {j. \<exists>l\<in>set lits. j \<in> set (getNotBinClauses (occ_of M (ilit_neg l))) \<and> cm_clauses M ! j ! 0 = ilit_neg l}
    M (fold falsify_lit lits M)"
  using assms
proof (induction lits arbitrary: M)
  case (Cons a lits)
  let ?w = "\<lambda>l. getNotBinClauses (occ_of M (ilit_neg l))"
  have one: "false_step (\<lambda>j. int (count_list (?w a) j)) {j \<in> set (?w a). cm_clauses M ! j ! 0 = ilit_neg a} M (falsify_lit a M)"
    using Cons.prems unfolding falsify_lit_def by (intro falsify_clauses_step) simp
  note b = false_step_base [OF one]
  have rest: "false_step (\<lambda>j. \<Sum>l\<leftarrow>lits. int (count_list (?w l) j))
      {j. \<exists>l\<in>set lits. j \<in> set (?w l) \<and> cm_clauses M ! j ! 0 = ilit_neg l} (falsify_lit a M) (fold falsify_lit lits (falsify_lit a M))"
    using Cons.IH [of "falsify_lit a M"] Cons.prems by (simp add: b)
  have "{j \<in> set (?w a). cm_clauses M ! j ! 0 = ilit_neg a} \<union> {j. \<exists>l\<in>set lits. j \<in> set (?w l) \<and> cm_clauses M ! j ! 0 = ilit_neg l} =
      {j. \<exists>l\<in>set (a # lits). j \<in> set (?w l) \<and> cm_clauses M ! j ! 0 = ilit_neg l}" by auto
  then show ?case using false_step_trans [OF one rest] by (simp only: fold_Cons comp_apply list.map sum_list.Cons)
qed (simp add: false_step_refl)

section \<open>Review of the watched literals\<close>

definition review_step :: "nat set \<Rightarrow> 'a CnfManager_scheme \<Rightarrow> 'a CnfManager_scheme \<Rightarrow> bool" where
  "review_step R M M' \<longleftrightarrow> fm_nbVar M' = fm_nbVar M \<and> fm_currentValue M' = fm_currentValue M \<and>
     cm_infoClauses M' = cm_infoClauses M \<and> cm_occurrence M' = cm_occurrence M \<and>
     length (cm_clauses M') = length (cm_clauses M) \<and>
     (\<forall>i<length (cm_clauses M). mset (cm_clauses M' ! i) = mset (cm_clauses M ! i) \<and>
        (\<not> litIsAssigned M (cm_clauses M ! i ! 0) \<longrightarrow> \<not> litIsAssigned M (cm_clauses M' ! i ! 0)) \<and>
        (i \<in> R \<and> \<not> clause_sat M i \<and> (\<exists>l\<in>set (cm_clauses M ! i). \<not> litIsAssigned M l) \<longrightarrow>
           \<not> litIsAssigned M (cm_clauses M' ! i ! 0)))"

lemma review_watch_step: "review_step {i} M (review_watch i M)"
proof (cases "clause_sat M i \<or> length (cm_clauses M) \<le> i")
  case True
  then show ?thesis
    by (auto simp: review_step_def review_watch_def Let_def list_update_beyond split: option.split)
next
  case False
  let ?cl = "cm_clauses M ! i"
  show ?thesis
  proof (cases "find (\<lambda>j. vget (fm_currentValue M) (ilit_var (?cl ! j)) = l_Undef) [1..<length ?cl]")
    case None
    then have "litIsAssigned M (?cl ! j)" if "1 \<le> j" "j < length ?cl" for j
      using that by (auto simp: find_None_iff litIsAssigned_def)
    then have "\<not> litIsAssigned M (?cl ! 0)" if "\<exists>l\<in>set ?cl. \<not> litIsAssigned M l"
      using that by (metis in_set_conv_nth not_less_eq_eq not_less_zero One_nat_def le0 le_antisym)
    then show ?thesis using None False by (auto simp: review_step_def review_watch_def)
  next
    case (Some j)
    then have j: "1 \<le> j" "j < length ?cl" "\<not> litIsAssigned M (?cl ! j)"
      by (auto simp: find_Some_iff litIsAssigned_def)
    have "mset (std_swap ?cl 0 j) = mset ?cl" "std_swap ?cl 0 j ! 0 = ?cl ! j"
      using j(1,2) by (auto simp: std_swap_first intro!: mset_std_swap)
    then show ?thesis using Some False j(3)
      by (auto simp: review_step_def review_watch_def nth_list_update)
  qed
qed

lemma review_step_trans:
  assumes "review_step R M M'" "review_step R' M' M''"
  shows "review_step (R \<union> R') M M''"
proof -
  have a: "litIsAssigned M' = litIsAssigned M" using assms(1) by (simp add: review_step_def litIsAssigned_def fun_eq_iff)
  have "set (cm_clauses M' ! i) = set (cm_clauses M ! i)" if "i < length (cm_clauses M)" for i
  proof -
    have "mset (cm_clauses M' ! i) = mset (cm_clauses M ! i)" using assms(1) that by (simp add: review_step_def)
    then show ?thesis by (rule mset_eq_setD)
  qed
  then show ?thesis using assms unfolding review_step_def a by auto
qed

lemma review_watches_step: "review_step (set is) M (fold review_watch is M)"
proof (induction "is" arbitrary: M)
  case (Cons i "is")
  have "review_step ({i} \<union> set is) M (fold review_watch is (review_watch i M))"
    by (rule review_step_trans [OF review_watch_step Cons.IH])
  then show ?case by simp
qed (simp add: review_step_def)

end
