(* ===== verification/D4_Cnf_Updates.thy ===== *)
theory D4_Cnf_Updates
  imports D4_Cnf_Invariant
begin

text \<open>
  Properties of \<open>CnfManagerDyn\<close>: the constructor establishes the invariants, \<open>preUpdate\<close> keeps the formula current,
  \<open>postUpdate\<close> brings back the state before it, also around further updates, and the queries then answer for the
  formula under the current assignment.
\<close>

section \<open>The assignment\<close>

lemma assign_values_lit:
  assumes "distinct (map ilit_var lits)" "\<forall>l\<in>set lits. vin c (ilit_var l)" "l \<in> set lits"
  shows "vget (assign_values lits c) (ilit_var l) = of_bool (ilit_sign l)"
  using assms
proof (induction lits arbitrary: c)
  case (Cons a lits)
  let ?c = "vset c (ilit_var a) (of_bool (ilit_sign a))"
  have step: "assign_values (a # lits) c = assign_values lits ?c" by (simp add: assign_values_def)
  show ?case
  proof (cases "l = a")
    case True
    have "\<forall>l'\<in>set lits. 0 \<le> ilit_var l' \<and> ilit_var l' \<noteq> ilit_var a"
      using Cons.prems(1,2) by (auto simp: vin_def image_iff)
    then have "vget (assign_values lits ?c) (ilit_var a) = vget ?c (ilit_var a)"
      using Cons.prems(2) by (intro assign_values_other) (auto simp: vin_def)
    moreover have "vget ?c (ilit_var a) = of_bool (ilit_sign a)" using Cons.prems(2) by (intro vget_vset_same) simp
    ultimately show ?thesis by (simp only: step True)
  next
    case False
    then show ?thesis using Cons.prems Cons.IH [of ?c] by (simp add: step)
  qed
qed simp

lemma open_values:
  assumes "cm_wf M" "open_lits M lits" "distinct (map ilit_var lits)" "wf_ilit (fm_nbVar M) l"
  shows "litIsAssigned (open_level lits M) l = (litIsAssigned M l \<or> ilit_var l \<in> ilit_var ` set lits)"
    "litIsAssignedToTrue (open_level lits M) l = (litIsAssignedToTrue M l \<or> l \<in> set lits)"
proof -
  have v: "\<forall>l\<in>set lits. vin (fm_currentValue M) (ilit_var l)"
    using assms(1,2) by (auto simp: open_lits_def wf_ilit_def cm_wf_def vin_def)
  have undef: "vget (fm_currentValue M) (ilit_var l') = l_Undef" if "l' \<in> set lits" for l'
    using assms(2) that by (simp add: open_lits_def litIsAssigned_def)
  have other: "vget (assign_values lits (fm_currentValue M)) (ilit_var l) = vget (fm_currentValue M) (ilit_var l)"
    if "ilit_var l \<notin> ilit_var ` set lits"
  proof (rule assign_values_other)
    show "\<forall>l'\<in>set lits. 0 \<le> ilit_var l' \<and> ilit_var l' \<noteq> ilit_var l" using that v unfolding vin_def by (metis imageI)
  qed (use assms(4) in \<open>simp add: wf_ilit_def\<close>)
  have lit: "vget (assign_values lits (fm_currentValue M)) (ilit_var l) = of_bool (ilit_sign l')"
    if "l' \<in> set lits" "ilit_var l = ilit_var l'" for l'
    using assign_values_lit [OF assms(3) v that(1)] that(2) by simp
  show "litIsAssigned (open_level lits M) l = (litIsAssigned M l \<or> ilit_var l \<in> ilit_var ` set lits)"
  proof (cases "ilit_var l \<in> ilit_var ` set lits")
    case True
    then obtain l' where "l' \<in> set lits" "ilit_var l = ilit_var l'" by blast
    then show ?thesis using lit True by (simp add: litIsAssigned_def l_Undef_def)
  qed (simp add: litIsAssigned_def other)
  show "litIsAssignedToTrue (open_level lits M) l = (litIsAssignedToTrue M l \<or> l \<in> set lits)"
  proof (cases "ilit_var l \<in> ilit_var ` set lits")
    case True
    then obtain l' where l': "l' \<in> set lits" "ilit_var l = ilit_var l'" by blast
    have "l \<in> set lits \<longleftrightarrow> ilit_sign l = ilit_sign l'"
    proof
      assume "l \<in> set lits"
      then have "l = l'" using l' assms(3) by (auto simp: distinct_map inj_on_def)
      then show "ilit_sign l = ilit_sign l'" by simp
    next
      assume "ilit_sign l = ilit_sign l'"
      then have "l = l'" using l'(2) by (intro ilit_eqI)
      then show "l \<in> set lits" using l'(1) by simp
    qed
    moreover have "vget (fm_currentValue M) (ilit_var l) = l_Undef" using undef l' by simp
    ultimately show ?thesis using lit [OF l']
      by (auto simp: litIsAssignedToTrue_def l_True_def l_False_def l_Undef_def)
  next
    case False
    then have "l \<notin> set lits" by blast
    then show ?thesis using other [OF False] by (simp add: litIsAssignedToTrue_def)
  qed
qed

lemma newly_false:
  assumes "cm_wf M" "open_lits M lits" "distinct (map ilit_var lits)"
    "\<forall>l\<in>set c. wf_ilit (fm_nbVar M) l \<and> l \<notin> set lits"
  shows "length (filter (litIsAssigned (open_level lits M)) c) =
    length (filter (litIsAssigned M) c) + (\<Sum>l\<leftarrow>lits. count_list c (ilit_neg l))"
  using assms(4)
proof (induction c)
  case (Cons x c)
  have wf: "wf_ilit (fm_nbVar M) l" if "l \<in> set lits" for l using assms(2) that by (simp add: open_lits_def)
  have neg: "ilit_neg l = x \<longleftrightarrow> ilit_var l = ilit_var x" if "l \<in> set lits" for l
  proof
    assume "ilit_var l = ilit_var x"
    moreover have "l \<noteq> x" using that Cons.prems by auto
    ultimately have "ilit_sign x = (\<not> ilit_sign l)" using ilit_eqI [of l x] by blast
    then show "ilit_neg l = x" using neg_parts [OF wf [OF that]] \<open>ilit_var l = ilit_var x\<close> by (intro ilit_eqI) simp_all
  qed (use neg_parts [OF wf [OF that]] in auto)
  have one: "(\<Sum>l\<leftarrow>ls. of_bool (x = ilit_neg l)) = (of_bool (ilit_var x \<in> ilit_var ` set ls) :: nat)"
    if "distinct (map ilit_var ls)" "set ls \<subseteq> set lits" for ls
    using that
  proof (induction ls)
    case (Cons l ls)
    then show ?case using neg [of l] by (auto simp: image_iff)
  qed simp
  have sum: "(\<Sum>l\<leftarrow>ls. count_list (x # c) (ilit_neg l)) =
      (\<Sum>l\<leftarrow>ls. of_bool (x = ilit_neg l)) + (\<Sum>l\<leftarrow>ls. count_list c (ilit_neg l))" for ls
    by (induction ls) simp_all
  have excl: "\<not> litIsAssigned M x" if "ilit_var x \<in> ilit_var ` set lits"
    using that assms(2) by (auto simp: open_lits_def litIsAssigned_def)
  have "litIsAssigned (open_level lits M) x = (litIsAssigned M x \<or> ilit_var x \<in> ilit_var ` set lits)"
    using Cons.prems by (intro open_values(1) [OF assms(1-3)]) simp
  then show ?case using Cons excl one [OF assms(3)] unfolding sum by (cases "litIsAssigned M x") auto
qed simp

section \<open>Counting in the occurrence lists\<close>

lemma count_clauses_of: "i < length clauses \<Longrightarrow> count (mset (clauses_of clauses l)) i = count_list (clauses ! i) l"
proof -
  have "count (mset (concat (map (\<lambda>i. replicate (g i) i) [0..<n]))) i = (if i < n then g i else 0)" for g n
    by (induction n) auto
  then show "i < length clauses \<Longrightarrow> ?thesis" by (simp add: clauses_of_def)
qed

lemma clauses_of_cong:
  assumes "length cs' = length cs" "\<And>i. i < length cs \<Longrightarrow> mset (cs' ! i) = mset (cs ! i)"
  shows "clauses_of cs' l = clauses_of cs l"
proof -
  have "count_list (cs' ! i) l = count_list (cs ! i) l" if "i < length cs" for i
    using assms(2) [OF that] by (metis count_mset)
  then show ?thesis by (auto simp: clauses_of_def assms(1) intro!: arg_cong [where f = concat])
qed

lemma occs_cong:
  assumes "length (cm_clauses M') = length (cm_clauses M)"
    "\<And>i. i < length (cm_clauses M) \<Longrightarrow> mset (cm_clauses M' ! i) = mset (cm_clauses M ! i)"
  shows "bins_of M' l = bins_of M l" "nots_of M' l = nots_of M l"
proof -
  have "length (cm_clauses M' ! i) = length (cm_clauses M ! i)" if "i \<in> set (clauses_of (cm_clauses M) l)" for i
    using assms(2) [of i] that set_clauses_of by (metis (mono_tags, lifting) mem_Collect_eq size_mset)
  then show "bins_of M' l = bins_of M l" "nots_of M' l = nots_of M l"
    using clauses_of_cong [OF assms] by (simp_all add: bins_of_def nots_of_def cong: filter_cong)
qed

lemma in_occs: "i \<in> set (bins_of M l) \<union> set (nots_of M l) \<longleftrightarrow> i < length (cm_clauses M) \<and> l \<in> set (cm_clauses M ! i)"
  by (auto simp: bins_of_def nots_of_def set_clauses_of)

definition windows_ok :: "'a CnfManager_scheme \<Rightarrow> bool" where
  "windows_ok M \<longleftrightarrow> (\<forall>l. wf_ilit (fm_nbVar M) l \<longrightarrow>
     windows (occ_of M l) = drop_sat M (mset (bins_of M l), mset (nots_of M l)))"

lemma windows_set:
  assumes "windows_ok M" "wf_ilit (fm_nbVar M) l" "occ_ok (occ_of M l)"
  shows "set (getClauses (occ_of M l)) = {i. i < length (cm_clauses M) \<and> l \<in> set (cm_clauses M ! i) \<and> \<not> clause_sat M i}"
    "set (getNotBinClauses (occ_of M l)) =
      {i. i < length (cm_clauses M) \<and> l \<in> set (cm_clauses M ! i) \<and> \<not> clause_sat M i \<and> length (cm_clauses M ! i) \<noteq> 2}"
proof -
  have w: "mset (getBinClauses (occ_of M l)) = filter_mset (\<lambda>i. \<not> clause_sat M i) (mset (bins_of M l))"
    "mset (getNotBinClauses (occ_of M l)) = filter_mset (\<lambda>i. \<not> clause_sat M i) (mset (nots_of M l))"
    using assms(1,2) by (simp_all add: windows_ok_def windows_def drop_sat_def)
  have s: "set (getBinClauses (occ_of M l)) = {i \<in> set (bins_of M l). \<not> clause_sat M i}"
    "set (getNotBinClauses (occ_of M l)) = {i \<in> set (nots_of M l). \<not> clause_sat M i}"
    using arg_cong [OF w(1), of set_mset] arg_cong [OF w(2), of set_mset] by simp_all
  show "set (getNotBinClauses (occ_of M l)) =
      {i. i < length (cm_clauses M) \<and> l \<in> set (cm_clauses M ! i) \<and> \<not> clause_sat M i \<and> length (cm_clauses M ! i) \<noteq> 2}"
    unfolding s by (auto simp: nots_of_def set_clauses_of)
  show "set (getClauses (occ_of M l)) = {i. i < length (cm_clauses M) \<and> l \<in> set (cm_clauses M ! i) \<and> \<not> clause_sat M i}"
    using getClauses_append [OF assms(3)] in_occs [of _ M l] by (auto simp: s)
qed

section \<open>Propagation\<close>

text \<open>What is needed of the state before an update.\<close>

definition ready :: "'a CnfManagerDyn_scheme \<Rightarrow> ILit list \<Rightarrow> bool" where
  "ready M lits \<longleftrightarrow> dyn_ok M \<and> rem_ok M \<and> open_lits M lits \<and> distinct (map ilit_var lits) \<and>
     cd_currentMarkedLitStackIndex M + 1 < 2 ^ 32 \<and> cd_currentMarkedLitRemoveIndex M + 1 < 2 ^ 32"

lemma readyD:
  assumes "ready M lits"
  shows "cm_wf M" "dyn_wf M" "open_lits M lits" "distinct (map ilit_var lits)" "distinct lits" "rem_ok M"
    "\<And>l. l \<in> set lits \<Longrightarrow> wf_ilit (fm_nbVar M) l"
  using assms by (auto simp: ready_def dyn_ok_def dyn_wf_def open_lits_def distinct_map)

lemma shrink_frame [simp]:
  "fm_nbVar (shrink_not_satisfied is M) = fm_nbVar M" "fm_currentValue (shrink_not_satisfied is M) = fm_currentValue M"
  "cm_clauses (shrink_not_satisfied is M) = cm_clauses M" "cm_infoClauses (shrink_not_satisfied is M) = cm_infoClauses M"
  "cm_occurrence (shrink_not_satisfied is M) = cm_occurrence M"
  "cd_markedLitRemove (shrink_not_satisfied is M) = cd_markedLitRemove M"
  "cd_currentMarkedLitRemoveIndex (shrink_not_satisfied is M) = cd_currentMarkedLitRemoveIndex M"
  by (simp_all add: shrink_not_satisfied_def Let_def split: prod.split)

lemma occ_of_shrink [simp]: "occ_of (shrink_not_satisfied is M) = occ_of M"
  by (simp add: occ_of_def fun_eq_iff)

lemma drop_sat_twice:
  assumes "\<And>i. i \<in># fst w + snd w \<Longrightarrow> clause_sat M i \<Longrightarrow> clause_sat M' i"
  shows "drop_sat M' (drop_sat M w) = drop_sat M' w"
  using assms by (auto simp: drop_sat_def filter_filter_mset intro!: filter_mset_cong)

lemma drop_sat_cong:
  assumes "\<And>i. i \<in># fst w + snd w \<Longrightarrow> clause_sat M' i = clause_sat M i"
  shows "drop_sat M' w = drop_sat M w"
  using assms by (auto simp: drop_sat_def intro!: filter_mset_cong)

lemma propagateTrue_effect:
  assumes "ready M lits" "current_ok M"
  defines "M0 \<equiv> open_level lits M" and "M2 \<equiv> propagateTrue lits (open_level lits M)"
  shows "same_base M0 M2" "windows_ok M2" "rem_ok M2" "\<And>l. wf_ilit (fm_nbVar M) l \<Longrightarrow> occ_ok (occ_of M2 l)"
    "\<And>i. i < length (cm_clauses M) \<Longrightarrow> clause_sat M2 i = (\<exists>l\<in>set (cm_clauses M ! i). litIsAssignedToTrue M0 l)"
    "\<And>i. i < length (cm_clauses M) \<Longrightarrow> ci_nbUnsat (cm_infoClauses M2 ! i) = ci_nbUnsat (cm_infoClauses M ! i)"
proof -
  note r = readyD [OF assms(1)]
  let ?n = "length (cm_clauses M)"
  let ?I = "{i. i < ?n \<and> \<not> clause_sat M i \<and> (\<exists>l\<in>set lits. l \<in> set (cm_clauses M ! i))}"
  let ?Ms = "M0\<lparr>cd_indexSatClauses := []\<rparr>"
  have occ0: "occ_of M0 = occ_of M" by (simp add: M0_def)
  have base: "fm_nbVar M0 = fm_nbVar M" "cm_clauses M0 = cm_clauses M" "cm_infoClauses M0 = cm_infoClauses M"
    "cd_markedLitRemove M0 = cd_markedLitRemove M" "cd_currentMarkedLitRemoveIndex M0 = cd_currentMarkedLitRemoveIndex M"
    "cm_occurrence M0 = cm_occurrence M"
    by (simp_all add: M0_def)
  have len: "length (cm_occurrence M) = nat (2 * (fm_nbVar M + 1))" "length (cd_markedLitRemove M) = nat (2 * (fm_nbVar M + 1))"
    "length (cm_infoClauses M) = ?n"
    using r(2) by (simp_all add: dyn_wf_def cm_wf_def)
  have ok: "occ_ok (occ_of M l)" if "wf_ilit (fm_nbVar M) l" for l using r(1) that by (simp add: cm_wf_def)
  have win: "windows_ok M" using assms(2) by (simp add: current_ok_def windows_ok_def windows_def drop_sat_def)
  have cls: "set (getClauses (occ_of M l)) = {i. i < ?n \<and> l \<in> set (cm_clauses M ! i) \<and> \<not> clause_sat M i}"
    if "wf_ilit (fm_nbVar M) l" for l
    using windows_set(1) [OF win that ok [OF that]] .
  define M1 where "M1 = fold satisfy_lit lits ?Ms"
  have "(\<Union>l\<in>set lits. set (getClauses (occ_of M l))) = ?I" using cls r(7) by auto
  moreover have "sat_step (\<Union>l\<in>set lits. set (getClauses (occ_of ?Ms l))) ?Ms (fold satisfy_lit lits ?Ms) \<and>
      (\<forall>l. wf_ilit (fm_nbVar ?Ms) l \<longrightarrow>
        occ_of (fold satisfy_lit lits ?Ms) l = (if l \<in> set lits then occ_clean (occ_of ?Ms l) else occ_of ?Ms l))"
    using r(5,7) len cls by (intro satisfy_lits_step) (auto simp: base occ0)
  ultimately have s1: "sat_step ?I ?Ms M1"
    and occ1: "\<And>l. wf_ilit (fm_nbVar M) l \<Longrightarrow> occ_of M1 l = (if l \<in> set lits then occ_clean (occ_of M l) else occ_of M l)"
    by (simp_all add: M1_def occ0 base)
  have b1: "fm_nbVar M1 = fm_nbVar M" "cm_clauses M1 = cm_clauses M" "length (cm_occurrence M1) = length (cm_occurrence M)"
    "cd_markedLitRemove M1 = cd_markedLitRemove M" "cd_currentMarkedLitRemoveIndex M1 = cd_currentMarkedLitRemoveIndex M"
    "same_base M0 M1" "set (cd_indexSatClauses M1) = ?I"
    using s1 by (auto simp: sat_step_def same_base_def base)
  have sat1: "clause_sat M1 i = (clause_sat M i \<or> i \<in> ?I)" "ci_nbUnsat (cm_infoClauses M1 ! i) = ci_nbUnsat (cm_infoClauses M ! i)"
    if "i < ?n" for i
    using s1 that by (simp_all add: sat_step_def base len)
  define idx where "idx = cd_currentMarkedLitRemoveIndex M + 1"
  let ?Mr = "M1\<lparr>cd_currentMarkedLitRemoveIndex := idx\<rparr>"
  let ?ls = "concat (map ((!) (cm_clauses M)) (cd_indexSatClauses M1))"
  define M3 where "M3 = fold clean_lit ?ls ?Mr"
  have modidx: "(cd_currentMarkedLitRemoveIndex M + 1) mod 2 ^ 32 = idx"
    using assms(1) r(6) by (simp add: idx_def ready_def rem_ok_def)
  have M2: "M2 = (if cd_keepListNotSatisfiedClauses M3 then shrink_not_satisfied (cd_indexSatClauses M1) M3 else M3)"
    unfolding M2_def M3_def M1_def M0_def propagateTrue_def removeSatisfiedClauses_def Let_def
    using b1(2,5) modidx by (simp add: M1_def M0_def fold_clauses [OF clean_lit_clauses])
  have fresh: "\<not> removed ?Mr l" if "wf_ilit (fm_nbVar M) l" for l
    using r(6) that by (force simp: removed_def rem_ok_def idx_def b1)
  have ok1: "occ_ok (occ_of M1 l)" if "wf_ilit (fm_nbVar M) l" for l
    using occ1 [OF that] ok [OF that] clean_sub(1) occ_sub_ok by auto
  have lsw: "\<forall>l\<in>set ?ls. wf_ilit (fm_nbVar M) l" using r(1) b1(7) by (auto simp: cm_wf_def)
  have c: "clean_step (set ?ls) ?Mr M3"
    unfolding M3_def using lsw len ok1 by (intro clean_lits_step) (simp_all add: b1)
  have b3: "same_base M1 M3" "cm_infoClauses M3 = cm_infoClauses M1" "cd_currentMarkedLitRemoveIndex M3 = idx"
    "\<And>l. wf_ilit (fm_nbVar M) l \<Longrightarrow> occ_ok (occ_of M3 l)"
    "\<And>l. wf_ilit (fm_nbVar M) l \<Longrightarrow> windows (occ_of M3 l) =
       (if l \<in> set ?ls then drop_sat M1 (windows (occ_of M1 l)) else windows (occ_of M1 l))"
    "\<And>l. wf_ilit (fm_nbVar M) l \<Longrightarrow> vget (cd_markedLitRemove M3) (ilit_intern l) \<le> idx"
  proof -
    show "vget (cd_markedLitRemove M3) (ilit_intern l) \<le> idx" if "wf_ilit (fm_nbVar M) l" for l
    proof -
      have "vget (cd_markedLitRemove M) (ilit_intern l) \<le> idx" using r(6) that by (force simp: rem_ok_def idx_def)
      moreover have "vget (cd_markedLitRemove M3) (ilit_intern l) = vget (cd_markedLitRemove M) (ilit_intern l) \<or>
          vget (cd_markedLitRemove M3) (ilit_intern l) = idx"
        using c that by (simp add: clean_step_def b1)
      ultimately show ?thesis by auto
    qed
    show "windows (occ_of M3 l) = (if l \<in> set ?ls then drop_sat M1 (windows (occ_of M1 l)) else windows (occ_of M1 l))"
      if "wf_ilit (fm_nbVar M) l" for l
      using c that fresh [OF that] by (simp add: clean_step_def b1 drop_sat_def)
  qed (use c in \<open>simp_all add: clean_step_def same_base_def b1\<close>)
  have b2: "fm_nbVar M2 = fm_nbVar M" "cm_clauses M2 = cm_clauses M" "cm_infoClauses M2 = cm_infoClauses M1"
    "occ_of M2 = occ_of M3"
    using b3(1,2) b1 by (simp_all add: M2 same_base_def)
  have Msat: "(\<exists>l\<in>set (cm_clauses M ! i). litIsAssignedToTrue M l) = clause_sat M i" if "i < ?n" for i
    using assms(2) that by (simp add: current_ok_def)
  show "same_base M0 M2" using same_base_trans [OF b1(6) b3(1)] by (simp add: M2 same_base_def)
  show "rem_ok M2" using b3(3,6) r(6) b1(1) b3(1) by (auto simp: M2 rem_ok_def same_base_def idx_def)
  show "occ_ok (occ_of M2 l)" if "wf_ilit (fm_nbVar M) l" for l using b3(4) [OF that] by (simp add: b2)
  show "ci_nbUnsat (cm_infoClauses M2 ! i) = ci_nbUnsat (cm_infoClauses M ! i)" if "i < ?n" for i
    using sat1(2) [OF that] by (simp add: b2)
  show "clause_sat M2 i = (\<exists>l\<in>set (cm_clauses M ! i). litIsAssignedToTrue M0 l)" if "i < ?n" for i
  proof -
    have "wf_ilit (fm_nbVar M) l" if "l \<in> set (cm_clauses M ! i)" for l
      using r(1) that \<open>i < ?n\<close> by (auto simp: cm_wf_def)
    then have "(\<exists>l\<in>set (cm_clauses M ! i). litIsAssignedToTrue M0 l) =
        (\<exists>l\<in>set (cm_clauses M ! i). litIsAssignedToTrue M l \<or> l \<in> set lits)"
      using open_values(2) [OF r(1,3,4)] by (simp add: M0_def cong: bex_cong)
    then show ?thesis using sat1(1) [OF that] Msat [OF that] that by (auto simp: b2)
  qed
  show "windows_ok M2"
    unfolding windows_ok_def
  proof (intro allI impI)
    fix l assume "wf_ilit (fm_nbVar M2) l"
    then have l: "wf_ilit (fm_nbVar M) l" by (simp add: b2)
    let ?W = "(mset (bins_of M l), mset (nots_of M l))"
    have W: "i < ?n \<and> l \<in> set (cm_clauses M ! i)" if "i \<in># fst ?W + snd ?W" for i using that in_occs [of i M l] by auto
    have ds: "drop_sat M2 w = drop_sat M1 w" for w by (simp add: drop_sat_def b2)
    have bn: "bins_of M2 l = bins_of M l" "nots_of M2 l = nots_of M l" by (simp_all add: bins_of_def nots_of_def b2)
    have "windows (occ_of M3 l) = drop_sat M1 ?W"
    proof (cases "l \<in> set lits")
      case True
      then have "windows (occ_of M1 l) = ({#}, {#})"
        using occ1 [OF l] clean_sub(2,3) [OF ok [OF l]] by (simp add: windows_def)
      moreover have "drop_sat M1 ?W = ({#}, {#})"
        using W sat1(1) True by (auto simp: drop_sat_def filter_mset_eq_conv intro!: filter_mset_False)
      ultimately show ?thesis using b3(5) [OF l] by (simp add: drop_sat_def)
    next
      case False
      then have w1: "windows (occ_of M1 l) = drop_sat M ?W" using occ1 [OF l] win l by (simp add: windows_ok_def)
      show ?thesis
      proof (cases "l \<in> set ?ls")
        case True
        have "drop_sat M1 (drop_sat M ?W) = drop_sat M1 ?W"
          using W sat1(1) by (intro drop_sat_twice) blast
        then show ?thesis using b3(5) [OF l] True w1 by simp
      next
        case False
        then have "\<forall>i\<in>?I. l \<notin> set (cm_clauses M ! i)" using b1(7) by auto
        then have "drop_sat M1 ?W = drop_sat M ?W"
          using W sat1(1) by (intro drop_sat_cong) blast
        then show ?thesis using b3(5) [OF l] False w1 by simp
      qed
    qed
    then show "windows (occ_of M2 l) = drop_sat M2 (mset (bins_of M2 l), mset (nots_of M2 l))"
      by (simp add: b2(4) ds bn)
  qed
qed

lemma falsified:
  assumes "ready M lits" "wf_ilit (fm_nbVar M) x" "litIsAssigned (open_level lits M) x" "\<not> litIsAssigned M x" "x \<notin> set lits"
  obtains l where "l \<in> set lits" "x = ilit_neg l"
proof -
  note r = readyD [OF assms(1)]
  obtain l where l: "l \<in> set lits" "ilit_var x = ilit_var l"
    using open_values(1) [OF r(1,3,4) assms(2)] assms(3,4) by blast
  moreover have "l \<noteq> x" using l(1) assms(5) by blast
  ultimately have "ilit_sign x = (\<not> ilit_sign l)" using ilit_eqI [of l x] by metis
  then have "x = ilit_neg l" using neg_parts [OF r(7) [OF l(1)]] l(2) by (intro ilit_eqI) simp_all
  then show thesis using l(1) that by blast
qed

lemma preUpdate_effect:
  assumes "ready M lits" "current_ok M" "watch_ok M"
  defines "M0 \<equiv> open_level lits M"
  defines "M3 \<equiv> propagateFalseInNotBin lits (propagateTrue lits M0)"
  shows "current_ok M3" "watch_ok M3" "rem_ok M3"
proof -
  let ?n = "length (cm_clauses M)"
  note r = readyD [OF assms(1)]
  define M2 where "M2 = propagateTrue lits M0"
  note e = propagateTrue_effect [OF assms(1,2), folded M0_def, folded M2_def]
  have b2: "fm_nbVar M2 = fm_nbVar M" "cm_clauses M2 = cm_clauses M" "length (cm_infoClauses M2) = ?n"
    "fm_currentValue M2 = fm_currentValue M0"
    using e(1) r(1) by (simp_all add: same_base_def M0_def cm_wf_def)
  have wfc: "wf_ilit (fm_nbVar M) l" if "i < ?n" "l \<in> set (cm_clauses M ! i)" for i l
    using r(1) that by (auto simp: cm_wf_def)
  let ?w = "\<lambda>l. getNotBinClauses (occ_of M2 (ilit_neg l))"
  have wset: "set (?w l) = {i. i < ?n \<and> ilit_neg l \<in> set (cm_clauses M ! i) \<and> \<not> clause_sat M2 i \<and> length (cm_clauses M ! i) \<noteq> 2}"
    if "l \<in> set lits" for l
    using windows_set(2) [OF e(2), of "ilit_neg l"] wf_neg [OF r(7) [OF that]] e(4) by (simp add: b2)
  define Mf where "Mf = fold falsify_lit lits (M2\<lparr>cd_reviewWatcher := []\<rparr>)"
  let ?R = "{j. \<exists>l\<in>set lits. j \<in> set (?w l) \<and> cm_clauses M ! j ! 0 = ilit_neg l}"
  let ?k = "\<lambda>j. \<Sum>l\<leftarrow>lits. int (count_list (?w l) j)"
  have f: "false_step ?k ?R (M2\<lparr>cd_reviewWatcher := []\<rparr>) Mf"
    using falsify_lits_step [of lits "M2\<lparr>cd_reviewWatcher := []\<rparr>"] wset by (fastforce simp: Mf_def b2)
  then have bf: "fm_nbVar Mf = fm_nbVar M" "cm_clauses Mf = cm_clauses M" "length (cm_infoClauses Mf) = ?n"
    "fm_currentValue Mf = fm_currentValue M0" "cm_occurrence Mf = cm_occurrence M2" "set (cd_reviewWatcher Mf) = ?R"
    "\<And>i. i < ?n \<Longrightarrow> clause_sat Mf i = clause_sat M2 i"
    by (auto simp: false_step_def same_base_def b2)
  have rv: "review_step ?R Mf M3"
    using review_watches_step [of "cd_reviewWatcher Mf" Mf]
    by (simp add: bf(6)) (simp add: M3_def Mf_def M2_def propagateFalseInNotBin_def Let_def)
  then have b3: "fm_nbVar M3 = fm_nbVar M" "cm_infoClauses M3 = cm_infoClauses Mf" "cm_occurrence M3 = cm_occurrence M2"
    "fm_currentValue M3 = fm_currentValue M0" "length (cm_clauses M3) = ?n"
    "\<And>i. i < ?n \<Longrightarrow> mset (cm_clauses M3 ! i) = mset (cm_clauses M ! i)"
    by (simp_all add: review_step_def bf)
  have sets: "set (cm_clauses M3 ! i) = set (cm_clauses M ! i)" "length (cm_clauses M3 ! i) = length (cm_clauses M ! i)"
    if "i < ?n" for i
    using b3(6) [OF that] by (metis mset_eq_setD, metis size_mset)
  have vals: "litIsAssigned M3 = litIsAssigned M0" "litIsAssignedToTrue M3 = litIsAssignedToTrue M0"
    "litIsAssigned Mf = litIsAssigned M0"
    by (simp_all add: litIsAssigned_def litIsAssignedToTrue_def fun_eq_iff b3 bf)
  have sat: "clause_sat M3 i = clause_sat M2 i" if "i < ?n" for i using bf(7) [OF that] by (simp add: b3)
  have notin: "l \<notin> set lits" if "i < ?n" "\<not> clause_sat M2 i" "l \<in> set (cm_clauses M ! i)" for i l
    using e(5) [OF that(1)] that open_values(2) [OF r(1,3,4) wfc [OF that(1,3)]] by (auto simp: M0_def)
  have unsat: "\<not> clause_sat M i" if "i < ?n" "\<not> clause_sat M2 i" for i
  proof -
    have "clause_sat M i = (\<exists>l\<in>set (cm_clauses M ! i). litIsAssignedToTrue M l)"
      using assms(2) that(1) by (simp add: current_ok_def)
    then show ?thesis using e(5) [OF that(1)] that open_values(2) [OF r(1,3,4) wfc [OF that(1)]] by (auto simp: M0_def)
  qed
  show "rem_ok M3"
  proof -
    have "cd_markedLitRemove (review_watch i N) = cd_markedLitRemove N \<and>
        cd_currentMarkedLitRemoveIndex (review_watch i N) = cd_currentMarkedLitRemoveIndex N"
      for i and N :: "'a CnfManagerDyn_scheme"
      by (simp add: review_watch_def Let_def split: option.split)
    then have "cd_markedLitRemove (fold review_watch is N) = cd_markedLitRemove N \<and>
        cd_currentMarkedLitRemoveIndex (fold review_watch is N) = cd_currentMarkedLitRemoveIndex N"
      for "is" and N :: "'a CnfManagerDyn_scheme"
      by (induction "is" arbitrary: N) simp_all
    then have "cd_markedLitRemove M3 = cd_markedLitRemove Mf"
      "cd_currentMarkedLitRemoveIndex M3 = cd_currentMarkedLitRemoveIndex Mf"
      by (simp_all add: M3_def Mf_def M2_def propagateFalseInNotBin_def Let_def)
    then show ?thesis using e(3) f by (simp add: rem_ok_def b3 false_step_def b2)
  qed
  show "watch_ok M3"
    unfolding watch_ok_def vals
  proof (intro allI impI)
    fix i assume i: "i < length (cm_clauses M3)" "\<not> clause_sat M3 i" "length (cm_clauses M3 ! i) \<noteq> 2"
      "\<exists>l\<in>set (cm_clauses M3 ! i). \<not> litIsAssigned M0 l"
    then have n: "i < ?n" "\<not> clause_sat M2 i" "length (cm_clauses M ! i) \<noteq> 2"
      "\<exists>l\<in>set (cm_clauses M ! i). \<not> litIsAssigned M0 l" using sat sets b3(5) by simp_all
    let ?x = "cm_clauses M ! i ! 0"
    have x: "?x \<in> set (cm_clauses M ! i)" using n(4) by (cases "cm_clauses M ! i") auto
    show "\<not> litIsAssigned M0 (cm_clauses M3 ! i ! 0)"
    proof (cases "litIsAssigned M0 ?x")
      case False
      then show ?thesis using rv n(1) by (simp add: review_step_def vals bf)
    next
      case True
      have "\<exists>l\<in>set (cm_clauses M ! i). \<not> litIsAssigned M l" using n(4) assigned_open by (auto simp: M0_def)
      then have "\<not> litIsAssigned M ?x" using assms(3) n unsat by (simp add: watch_ok_def)
      then obtain l where l: "l \<in> set lits" "?x = ilit_neg l"
        using falsified [OF assms(1) wfc [OF n(1) x]] True notin [OF n(1,2) x] unfolding M0_def by blast
      then have "i \<in> set (?w l)" using wset n x by auto
      then have "i \<in> ?R" using l by blast
      then show ?thesis using rv n bf(7) by (simp add: review_step_def vals bf)
    qed
  qed
  have nb: "ci_nbUnsat (cm_infoClauses M3 ! i) = int (length (filter (litIsAssigned M0) (cm_clauses M ! i)))"
    if n: "i < ?n" "\<not> clause_sat M2 i" "length (cm_clauses M ! i) \<noteq> 2" for i
  proof -
    have "count_list (?w l) i = count_list (cm_clauses M ! i) (ilit_neg l)" if "l \<in> set lits" for l
    proof -
      have "mset (?w l) = filter_mset (\<lambda>i. \<not> clause_sat M2 i) (mset (nots_of M2 (ilit_neg l)))"
        using e(2) wf_neg [OF r(7) [OF that]] by (simp add: windows_ok_def windows_def drop_sat_def b2)
      then have "count (mset (?w l)) i = count (mset (nots_of M2 (ilit_neg l))) i" using n(2) by simp
      also have "\<dots> = count_list (cm_clauses M ! i) (ilit_neg l)"
        using n by (simp add: nots_of_def b2 count_clauses_of)
      finally show ?thesis by (simp add: count_mset)
    qed
    then have k: "?k i = int (\<Sum>l\<leftarrow>lits. count_list (cm_clauses M ! i) (ilit_neg l))"
      by (induction lits) simp_all
    have old: "ci_nbUnsat (cm_infoClauses M2 ! i) = int (length (filter (litIsAssigned M) (cm_clauses M ! i)))"
      using e(6) [OF n(1)] assms(2) n unsat by (simp add: current_ok_def)
    have len: "int (length (cm_clauses M ! i)) < 2 ^ 31" using assms(2) n(1) by (simp add: current_ok_def)
    have "length (filter (litIsAssigned M0) (cm_clauses M ! i)) \<le> length (cm_clauses M ! i)" for M0 :: "'a CnfManagerDyn_scheme"
      by simp
    then have small: "int (length (filter (litIsAssigned N) (cm_clauses M ! i))) < 2 ^ 31" for N :: "'a CnfManagerDyn_scheme"
      using len by (meson le_less_trans of_nat_le_iff)
    have "length (filter (litIsAssigned M0) (cm_clauses M ! i)) = length (filter (litIsAssigned M) (cm_clauses M ! i)) +
        (\<Sum>l\<leftarrow>lits. count_list (cm_clauses M ! i) (ilit_neg l))"
      unfolding M0_def using newly_false [OF r(1,3,4)] wfc [OF n(1)] notin [OF n(1,2)] by blast
    then have total: "ci_nbUnsat (cm_infoClauses M2 ! i) + ?k i = int (length (filter (litIsAssigned M0) (cm_clauses M ! i)))"
      unfolding old k by simp
    let ?M = "M2\<lparr>cd_reviewWatcher := []\<rparr>"
    have "i < length (cm_infoClauses ?M)" using n(1) by (simp add: b2)
    then have "ci_nbUnsat (cm_infoClauses Mf ! i) mod 2 ^ 31 = (ci_nbUnsat (cm_infoClauses ?M ! i) + ?k i) mod 2 ^ 31"
      and range: "0 \<le> ci_nbUnsat (cm_infoClauses ?M ! i) \<and> ci_nbUnsat (cm_infoClauses ?M ! i) < 2 ^ 31 \<Longrightarrow>
        0 \<le> ci_nbUnsat (cm_infoClauses Mf ! i) \<and> ci_nbUnsat (cm_infoClauses Mf ! i) < 2 ^ 31"
      using f unfolding false_step_def by blast+
    moreover have M2: "cm_infoClauses ?M = cm_infoClauses M2" by simp
    moreover have "0 \<le> ci_nbUnsat (cm_infoClauses Mf ! i)" "ci_nbUnsat (cm_infoClauses Mf ! i) < 2 ^ 31"
      using range small [of M] unfolding M2 old by auto
    ultimately show ?thesis unfolding M2 total using small [of M0] by (simp add: b3)
  qed
  show "current_ok M3"
    unfolding current_ok_def vals
  proof (intro conjI allI impI)
    show "\<forall>cl\<in>set (cm_clauses M3). int (length cl) < 2 ^ 31"
    proof
      fix cl assume "cl \<in> set (cm_clauses M3)"
      then obtain i where "i < ?n" "cl = cm_clauses M3 ! i" by (metis b3(5) in_set_conv_nth)
      then show "int (length cl) < 2 ^ 31" using assms(2) sets(2) by (simp add: current_ok_def)
    qed
  next
    fix i assume i: "i < length (cm_clauses M3)"
    then show "clause_sat M3 i = (\<exists>l\<in>set (cm_clauses M3 ! i). litIsAssignedToTrue M0 l)"
      using e(5) sat sets(1) b3(5) by simp
    assume "\<not> clause_sat M3 i" "length (cm_clauses M3 ! i) \<noteq> 2"
    then have "ci_nbUnsat (cm_infoClauses M3 ! i) = int (length (filter (litIsAssigned M0) (cm_clauses M ! i)))"
      using i nb sat sets(2) b3(5) by simp
    moreover have "mset (filter (litIsAssigned M0) (cm_clauses M3 ! i)) = mset (filter (litIsAssigned M0) (cm_clauses M ! i))"
      using b3(5,6) i by simp
    then have "length (filter (litIsAssigned M0) (cm_clauses M3 ! i)) = length (filter (litIsAssigned M0) (cm_clauses M ! i))"
      by (metis size_mset)
    ultimately show "ci_nbUnsat (cm_infoClauses M3 ! i) = int (length (filter (litIsAssigned M0) (cm_clauses M3 ! i)))" by simp
  next
    fix l assume l: "wf_ilit (fm_nbVar M3) l"
    let ?W = "(mset (bins_of M l), mset (nots_of M l))"
    have bn: "bins_of M3 l = bins_of M l" "nots_of M3 l = nots_of M l" using occs_cong [of M3 M] b3(5,6) by simp_all
    have "windows (occ_of M2 l) = drop_sat M2 ?W"
      using e(2) l by (simp add: windows_ok_def b2 b3 bins_of_def nots_of_def)
    moreover have "drop_sat M3 ?W = drop_sat M2 ?W"
      using sat in_occs [of _ M l] by (intro drop_sat_cong) auto
    moreover have "occ_of M3 l = occ_of M2 l" by (simp add: occ_of_def b3)
    ultimately have "windows (occ_of M3 l) = drop_sat M3 ?W" by simp
    then show "mset (getBinClauses (occ_of M3 l)) = filter_mset (\<lambda>i. \<not> clause_sat M3 i) (mset (bins_of M3 l))"
      "mset (getNotBinClauses (occ_of M3 l)) = filter_mset (\<lambda>i. \<not> clause_sat M3 i) (mset (nots_of M3 l))"
      by (simp_all add: windows_def drop_sat_def bn)
  qed
qed

section \<open>Properties\<close>

definition short_clauses :: "ILit list list \<Rightarrow> bool" where
  "short_clauses clauses \<longleftrightarrow> (\<forall>cl\<in>set clauses. int (length cl) < 2 ^ 31)"

lemma mk_ok:
  assumes "wf_problem p" "short_clauses (pm_clauses p)"
  shows "dyn_ok (mkCnfManagerDyn p keep) \<and> current_ok (mkCnfManagerDyn p keep) \<and>
    watch_ok (mkCnfManagerDyn p keep) \<and> rem_ok (mkCnfManagerDyn p keep)"
proof -
  let ?M = "mkCnfManagerDyn p keep"
  have w: "0 \<le> pm_nbVar p" "wf_clauses (pm_nbVar p) (pm_clauses p)" using assms(1) by (simp_all add: wf_problem_def)
  have none: "\<not> litIsAssigned ?M l" "\<not> litIsAssignedToTrue ?M l" if "wf_ilit (pm_nbVar p) l" for l
  proof -
    have "vget (fm_currentValue ?M) (ilit_var l) = l_Undef"
      unfolding mk_fields using that by (intro vget_replicate) (auto simp: wf_ilit_def)
    then show "\<not> litIsAssigned ?M l" "\<not> litIsAssignedToTrue ?M l"
      by (simp_all add: litIsAssigned_def litIsAssignedToTrue_def l_Undef_def l_True_def l_False_def)
  qed
  have wfc: "wf_ilit (pm_nbVar p) l" if "i < length (pm_clauses p)" "l \<in> set (pm_clauses p ! i)" for i l
    using w(2) that by (auto simp: wf_clauses_def)
  have info: "cm_infoClauses ?M ! i = xor_info (pm_clauses p ! i)" if "i < length (pm_clauses p)" for i
    using that by simp
  have unsat: "\<not> clause_sat ?M i" "ci_nbUnsat (cm_infoClauses ?M ! i) = 0" if "i < length (pm_clauses p)" for i
    unfolding info [OF that] by (simp_all add: xor_info_def new_ClauseInfo_def)
  have "current_ok ?M"
    unfolding current_ok_def mk_fields
  proof (intro conjI allI impI)
    show "\<forall>cl\<in>set (pm_clauses p). int (length cl) < 2 ^ 31" using assms(2) by (simp add: short_clauses_def)
  next
    fix i assume i: "i < length (pm_clauses p)"
    show "ci_isSat (map xor_info (pm_clauses p) ! i) = (\<exists>l\<in>set (pm_clauses p ! i). litIsAssignedToTrue ?M l)"
      using unsat(1) [OF i] none(2) wfc [OF i] by auto
    have "filter (litIsAssigned ?M) (pm_clauses p ! i) = []" using none(1) wfc [OF i] by (simp add: filter_empty_conv)
    then show "ci_nbUnsat (map xor_info (pm_clauses p) ! i) = int (length (filter (litIsAssigned ?M) (pm_clauses p ! i)))"
      using unsat(2) [OF i] by simp
  next
    fix l assume l: "wf_ilit (pm_nbVar p) l"
    have un: "\<not> clause_sat ?M i" if "i \<in> set (clauses_of (pm_clauses p) l)" for i
      using that unsat(1) unfolding set_clauses_of by blast
    note o = occ_of_mk [OF w(2) l, of keep]
    have "filter_mset (\<lambda>i. \<not> clause_sat ?M i) (mset (bins_of ?M l)) = mset (bins_of ?M l)"
      "filter_mset (\<lambda>i. \<not> clause_sat ?M i) (mset (nots_of ?M l)) = mset (nots_of ?M l)"
      using un by (auto simp: filter_mset_eq_conv bins_of_def nots_of_def simp del: mk_fields(4))
    then show "mset (getBinClauses (occ_of ?M l)) =
        filter_mset (\<lambda>i. \<not> ci_isSat (map xor_info (pm_clauses p) ! i)) (mset (bins_of ?M l))"
      "mset (getNotBinClauses (occ_of ?M l)) =
        filter_mset (\<lambda>i. \<not> ci_isSat (map xor_info (pm_clauses p) ! i)) (mset (nots_of ?M l))"
      unfolding mk_fields by (simp_all add: o make_occ_ok(2,3) bins_of_def nots_of_def)
  qed
  moreover have "watch_ok ?M"
    unfolding watch_ok_def mk_fields using none(1) wfc by (metis length_greater_0_conv list.set(1) empty_iff nth_mem)
  moreover have "vget (replicate (nat (2 + 2 * pm_nbVar p)) (0::int)) (ilit_intern l) = 0" if "wf_ilit (pm_nbVar p) l" for l
    using wf_intern [OF that] by (intro vget_replicate) auto
  then have "rem_ok ?M" by (simp add: rem_ok_def)
  ultimately show ?thesis using dyn_ok_mk [OF assms(1)] by blast
qed

text \<open>C21: the manager built for a CNF has its occurrence lists, marks and clause informations in order.\<close>

theorem manager_constructed:
  assumes "wf_problem p" "short_clauses (pm_clauses p)"
  shows "dyn_ok (mkCnfManagerDyn p keep) \<and> current_ok (mkCnfManagerDyn p keep) \<and>
    watch_ok (mkCnfManagerDyn p keep) \<and> rem_ok (mkCnfManagerDyn p keep)"
  by (rule mk_ok [OF assms])

definition demo_cnf :: "nat ProblemManager" where
  "demo_cnf = (pm_of_parts 3 [0, 0, 1, 1, 1, 1, 1, 1] [0, 2, 2, 2] [])\<lparr>pm_clauses :=
     [[ilit_make 1 False, ilit_make 2 False, ilit_make 3 False], [ilit_make 1 True, ilit_make 2 False],
      [ilit_make 2 True, ilit_make 3 True, ilit_make 1 False]]\<rparr>"

definition demo_lits :: "ILit list" where
  "demo_lits = [ilit_make 2 False]"

lemma demo_cnf_wf: "wf_problem demo_cnf" "short_clauses (pm_clauses demo_cnf)"
  by (simp_all add: demo_cnf_def pm_of_parts_def wf_problem_def wf_clauses_def wf_ilit_def short_clauses_def)

lemma manager_constructed_witness: "dyn_ok (mkCnfManagerDyn demo_cnf True) \<and> current_ok (mkCnfManagerDyn demo_cnf True)"
  using manager_constructed [OF demo_cnf_wf] by blast

text \<open>C19: \<open>preUpdate\<close> leaves the occurrence lists with exactly the clauses the longer assignment does not satisfy, the
  satisfaction flags and the counters of falsified literals exact, and an unassigned literal at the front of every
  such clause that has one.\<close>

theorem preUpdate_keeps_current:
  assumes "ready M lits" "current_ok M" "watch_ok M"
  shows "current_ok (preUpdate no_inprocessing lits M) \<and> watch_ok (preUpdate no_inprocessing lits M) \<and>
    rem_ok (preUpdate no_inprocessing lits M) \<and> dyn_ok (preUpdate no_inprocessing lits M)"
proof -
  let ?M3 = "propagateFalseInNotBin lits (propagateTrue lits (open_level lits M))"
  have eq: "preUpdate no_inprocessing lits M = unmarkLastClausesSaved ?M3"
    by (simp add: preUpdate_def no_inprocessing_def open_level_def)
  have "litIsAssigned (unmarkLastClausesSaved ?M3) = litIsAssigned ?M3"
    "litIsAssignedToTrue (unmarkLastClausesSaved ?M3) = litIsAssignedToTrue ?M3"
    "bins_of (unmarkLastClausesSaved ?M3) = bins_of ?M3" "nots_of (unmarkLastClausesSaved ?M3) = nots_of ?M3"
    "cd_currentMarkedLitRemoveIndex (unmarkLastClausesSaved ?M3) = cd_currentMarkedLitRemoveIndex ?M3"
    by (simp_all add: litIsAssigned_def litIsAssignedToTrue_def fun_eq_iff bins_of_def nots_of_def)
       (simp add: unmarkLastClausesSaved_def)
  then have "current_ok (unmarkLastClausesSaved ?M3) = current_ok ?M3" "watch_ok (unmarkLastClausesSaved ?M3) = watch_ok ?M3"
    "rem_ok (unmarkLastClausesSaved ?M3) = rem_ok ?M3"
    by (simp_all add: current_ok_def watch_ok_def rem_ok_def)
  moreover have "dyn_ok (preUpdate no_inprocessing lits M)"
    using assms(1) by (intro dyn_manager.pre_ok) (simp_all add: ready_def)
  ultimately show ?thesis using preUpdate_effect [OF assms] by (simp add: eq)
qed

lemma demo_ready: "ready (mkCnfManagerDyn demo_cnf keep) demo_lits"
  using mk_ok [OF demo_cnf_wf, of keep]
  by (simp add: ready_def open_lits_def demo_lits_def litIsAssigned_def wf_ilit_def)
     (simp add: demo_cnf_def pm_of_parts_def vget_def)

lemma preUpdate_keeps_current_witness: "current_ok (preUpdate no_inprocessing demo_lits (mkCnfManagerDyn demo_cnf False))"
  using preUpdate_keeps_current [OF demo_ready] mk_ok [OF demo_cnf_wf, of False] by blast



text \<open>What the queries say of the formula under the current assignment: a variable is free when no clause
  without a true literal mentions it, and a not satisfied clause that is not binary has as many unassigned literals as
  \<open>getSize\<close> says.\<close>

theorem current_queries:
  assumes "dyn_ok M" "current_ok M" "1 \<le> v" "v \<le> fm_nbVar M"
  shows "isFreeVariable M v = (\<forall>i<length (cm_clauses M).
      v \<in> ilit_var ` set (cm_clauses M ! i) \<longrightarrow> (\<exists>l\<in>set (cm_clauses M ! i). litIsAssignedToTrue M l)) \<and>
    (\<forall>i<length (cm_clauses M). \<not> clause_sat M i \<longrightarrow> length (cm_clauses M ! i) \<noteq> 2 \<longrightarrow>
      getSize M i = int (length (filter (\<lambda>l. \<not> litIsAssigned M l) (cm_clauses M ! i))))"
proof (intro conjI allI impI)
  have wf: "cm_wf M" using assms(1) by (simp add: dyn_ok_def dyn_wf_def)
  then have n: "fm_nbVar M < 2 ^ 30" by (simp add: cm_wf_def)
  have win: "windows_ok M" using assms(2) by (simp add: current_ok_def windows_ok_def windows_def drop_sat_def)
  have lit: "(getNbOccurrence M (ilit_make v s) = 0) = (\<forall>i<length (cm_clauses M).
      ilit_make v s \<in> set (cm_clauses M ! i) \<longrightarrow> clause_sat M i)" for s
  proof -
    have l: "wf_ilit (fm_nbVar M) (ilit_make v s)" using assms(3,4) n by (simp add: wf_ilit_def)
    then have ok: "occ_ok (occ_of M (ilit_make v s))" using wf by (simp add: cm_wf_def)
    have "(getNbOccurrence M (ilit_make v s) = 0) = (getClauses (occ_of M (ilit_make v s)) = [])"
      using ok by (auto simp: getNbOccurrence_def getNbClauseLit_def getClauses_def occ_ok_def)
    also have "\<dots> = (set (getClauses (occ_of M (ilit_make v s))) = {})" by simp
    finally show ?thesis unfolding windows_set(1) [OF win l ok] by blast
  qed
  have sat: "clause_sat M i = (\<exists>l\<in>set (cm_clauses M ! i). litIsAssignedToTrue M l)" if "i < length (cm_clauses M)" for i
    using assms(2) that by (simp add: current_ok_def)
  have var: "v \<in> ilit_var ` set (cm_clauses M ! i) \<longleftrightarrow>
      ilit_make v False \<in> set (cm_clauses M ! i) \<or> ilit_make v True \<in> set (cm_clauses M ! i)"
    if "i < length (cm_clauses M)" for i
  proof
    assume "v \<in> ilit_var ` set (cm_clauses M ! i)"
    then obtain l where l: "l \<in> set (cm_clauses M ! i)" "v = ilit_var l" by blast
    then have "l = ilit_make v (ilit_sign l)" using wf \<open>i < length (cm_clauses M)\<close>
      by (simp add: cm_wf_def) (metis nth_mem wf_ilit_make)
    then show "ilit_make v False \<in> set (cm_clauses M ! i) \<or> ilit_make v True \<in> set (cm_clauses M ! i)"
      using l(1) by (cases "ilit_sign l") auto
  next
    assume "ilit_make v False \<in> set (cm_clauses M ! i) \<or> ilit_make v True \<in> set (cm_clauses M ! i)"
    then show "v \<in> ilit_var ` set (cm_clauses M ! i)" using assms(3,4) n by (force intro: image_eqI)
  qed
  show "isFreeVariable M v = (\<forall>i<length (cm_clauses M).
      v \<in> ilit_var ` set (cm_clauses M ! i) \<longrightarrow> (\<exists>l\<in>set (cm_clauses M ! i). litIsAssignedToTrue M l))"
    using lit [of True] lit [of False] sat var
    by (simp add: isFreeVariable_def make_true_false) blast
next
  fix i assume "i < length (cm_clauses M)" "\<not> clause_sat M i" "length (cm_clauses M ! i) \<noteq> 2"
  then have "ci_nbUnsat (cm_infoClauses M ! i) = int (length (filter (litIsAssigned M) (cm_clauses M ! i)))"
    using assms(2) by (simp add: current_ok_def)
  then show "getSize M i = int (length (filter (\<lambda>l. \<not> litIsAssigned M l) (cm_clauses M ! i)))"
    using sum_length_filter_compl [of "litIsAssigned M" "cm_clauses M ! i"] by (simp add: getSize_def)
qed

lemma current_queries_witness: "\<not> isFreeVariable (mkCnfManagerDyn demo_cnf False) 1"
proof -
  have "dyn_ok (mkCnfManagerDyn demo_cnf False)" "current_ok (mkCnfManagerDyn demo_cnf False)"
    using mk_ok [OF demo_cnf_wf, of False] by simp_all
  then have "isFreeVariable (mkCnfManagerDyn demo_cnf False) 1 = (\<forall>i<length (pm_clauses demo_cnf).
      1 \<in> ilit_var ` set (pm_clauses demo_cnf ! i) \<longrightarrow>
      (\<exists>l\<in>set (pm_clauses demo_cnf ! i). litIsAssignedToTrue (mkCnfManagerDyn demo_cnf False) l))"
    using current_queries [of "mkCnfManagerDyn demo_cnf False" 1] by (simp add: demo_cnf_def pm_of_parts_def)
  moreover have "\<not> (\<exists>l\<in>set (pm_clauses demo_cnf ! 0). litIsAssignedToTrue (mkCnfManagerDyn demo_cnf False) l)"
    by (simp add: litIsAssignedToTrue_def) (simp add: demo_cnf_def pm_of_parts_def vget_def numeral_eq_Suc
        l_Undef_def l_True_def l_False_def)
  ultimately show ?thesis by (auto simp: demo_cnf_def pm_of_parts_def)
qed

end
