(* ===== verification/D4_Union_Find.thy ===== *)
theory D4_Union_Find
  imports HS_Prelude
begin

text \<open>
  Forests given by a parent function, as \<open>m_infoCluster\<close> holds them: following parents from a node leads to a
  root, path halving keeps where nodes lead, linking two roots merges their classes. \<open>classes_ok\<close> says that the
  classes of the forest are the connected components of the graph with the edges visited so far.
\<close>

section \<open>Roots\<close>

inductive leads :: "('n \<Rightarrow> 'n) \<Rightarrow> nat \<Rightarrow> 'n \<Rightarrow> 'n \<Rightarrow> bool" for par where
  at_root: "par r = r \<Longrightarrow> leads par 0 r r"
| climb: "par x \<noteq> x \<Longrightarrow> leads par n (par x) r \<Longrightarrow> leads par (Suc n) x r"

inductive_cases leads_rootE: "leads par 0 x r"
inductive_cases leads_climbE: "leads par (Suc n) x r"

definition rep :: "('n \<Rightarrow> 'n) \<Rightarrow> 'n \<Rightarrow> 'n \<Rightarrow> bool" where
  "rep par x r \<longleftrightarrow> (\<exists>n. leads par n x r)"

lemma leads_root: "leads par n x r \<Longrightarrow> par r = r"
  by (induction rule: leads.induct)

lemma leads_unique: "leads par n x r \<Longrightarrow> leads par m x s \<Longrightarrow> r = s"
proof (induction arbitrary: m rule: leads.induct)
  case (at_root r)
  then show ?case by (auto elim: leads.cases)
next
  case (climb x n r)
  from climb.prems climb.hyps(1) obtain k where "leads par k (par x) s" by (auto elim: leads.cases)
  then show ?case by (rule climb.IH)
qed

lemma rep_root: "rep par x r \<Longrightarrow> par r = r"
  by (auto simp: rep_def dest: leads_root)

lemma rep_unique: "rep par x r \<Longrightarrow> rep par x s \<Longrightarrow> r = s"
  by (auto simp: rep_def dest: leads_unique)

lemma rep_self: "par r = r \<Longrightarrow> rep par r r"
  by (auto simp: rep_def intro: at_root)

lemma rep_self_iff: "par x = x \<Longrightarrow> rep par x r \<longleftrightarrow> r = x"
  using rep_self rep_unique by metis

lemma rep_parent: "rep par (par x) r \<longleftrightarrow> rep par x r"
proof (cases "par x = x")
  case False
  then show ?thesis
    by (auto simp: rep_def intro: climb elim: leads.cases)
qed simp

lemma no_short_cycle:
  assumes "leads par n x r" "par x \<noteq> x"
  shows "par (par x) \<noteq> x"
proof
  assume c: "par (par x) = x"
  have "leads par n y r \<Longrightarrow> y \<in> {x, par x} \<Longrightarrow> r \<in> {x, par x}" for n y
    by (induction rule: leads.induct) (use c in auto)
  with assms(1) have "r \<in> {x, par x}" by blast
  then show False using leads_root [OF assms(1)] assms(2) c by auto
qed

lemma halving_leads:
  assumes "leads par n y r" "q x = par (par x)" "\<And>z. z \<noteq> x \<Longrightarrow> q z = par z"
  shows "(\<exists>m\<le>n. leads q m y r) \<and> (\<exists>m\<le>n - 1. leads q m (par y) r)"
  using assms(1)
proof (induction rule: leads.induct)
  case (at_root r)
  then have "q r = r" using assms(2,3) by (cases "r = x") auto
  then have "leads q 0 r r" by (rule leads.at_root)
  then show ?case using at_root by auto
next
  case (climb y n r)
  obtain k where k: "k \<le> n" "leads q k (par y) r" using climb.IH by blast
  obtain m where m: "m \<le> n - 1" "leads q m (par (par y)) r" using climb.IH by blast
  have "\<exists>k\<le>Suc n. leads q k y r"
  proof (cases "y = x")
    case True
    have "par (par x) \<noteq> x" using no_short_cycle [of par "Suc n" y r] climb.hyps True by (auto intro: leads.climb)
    then have "leads q (Suc m) y r" using m(2) True assms(2) by (auto intro!: leads.climb)
    then show ?thesis using m(1) by (intro exI [of _ "Suc m"]) simp
  next
    case False
    then have "leads q (Suc k) y r" using k(2) climb.hyps(1) assms(3) by (auto intro!: leads.climb)
    then show ?thesis using k(1) by (intro exI [of _ "Suc k"]) simp
  qed
  then show ?case using k by auto
qed

lemma halving_rep: "rep par y r \<Longrightarrow> rep (par(x := par (par x))) y r"
  using halving_leads [of par _ y r "par(x := par (par x))" x] unfolding rep_def by (metis fun_upd_apply)

lemma rep_upd_parent: "x \<noteq> c \<Longrightarrow> rep (par(c := p)) (par x) r \<Longrightarrow> rep (par(c := p)) x r"
  using rep_parent [of "par(c := p)" x r] by (metis fun_upd_other)

lemma link_rep:
  assumes "par r1 = r1" "par r2 = r2" "r1 \<noteq> r2" "rep par y r"
  shows "rep (par(r1 := r2)) y (if r = r1 then r2 else r)"
proof -
  define q where "q = par(r1 := r2)"
  have q: "q r1 = r2" "\<And>z. z \<noteq> r1 \<Longrightarrow> q z = par z" by (simp_all add: q_def)
  have "rep q y (if r = r1 then r2 else r)" if "leads par n y r" for n
    using that
  proof (induction rule: leads.induct)
    case (at_root r)
    have "rep q r2 r2" using assms q by (intro rep_self) auto
    then have "rep q r1 r2" using rep_parent [of q r1 r2] q by simp
    then show ?case using at_root q by (auto intro: rep_self)
  next
    case (climb x n r)
    then have "x \<noteq> r1" using assms(1) by metis
    then have "q x = par x" by (rule q(2))
    then show ?case using climb.IH rep_parent [of q x] by simp
  qed
  then show ?thesis using assms(4) by (auto simp: rep_def q_def)
qed

text \<open>A change at a node the others do not pass through leaves where they lead.\<close>

lemma fresh_rep:
  assumes "\<forall>x\<in>N. par x \<in> N" "c \<notin> N" "x \<in> N" "rep par x r"
  shows "rep (par(c := p)) x r"
proof -
  have main: "leads par n x r \<Longrightarrow> x \<in> N \<Longrightarrow> rep (par(c := p)) x r" for n
  proof (induction rule: leads.induct)
    case (at_root r)
    then have "r \<noteq> c" using assms(2) by auto
    then show ?case using at_root by (intro rep_self) simp
  next
    case (climb x n r)
    have x: "x \<noteq> c" "par x \<in> N" using climb.prems assms(1,2) by auto
    show ?case by (rule rep_upd_parent [OF x(1) climb.IH [OF x(2)]])
  qed
  obtain n where "leads par n x r" using assms(4) unfolding rep_def by blast
  then show ?thesis using assms(3) by (rule main)
qed

section \<open>Connectedness\<close>

definition conn :: "('n \<times> 'n) set \<Rightarrow> ('n \<times> 'n) set" where
  "conn E = (E \<union> E\<inverse>)\<^sup>*"

lemma conn_sym: "(x, y) \<in> conn E \<Longrightarrow> (y, x) \<in> conn E"
  unfolding conn_def using sym_rtrancl [of "E \<union> E\<inverse>"] by (auto simp: sym_def)

lemma conn_trans: "(x, y) \<in> conn E \<Longrightarrow> (y, z) \<in> conn E \<Longrightarrow> (x, z) \<in> conn E"
  unfolding conn_def by (rule rtrancl_trans)

lemma conn_refl [simp]: "(x, x) \<in> conn E"
  by (simp add: conn_def)

lemma conn_edge: "(x, y) \<in> E \<Longrightarrow> (x, y) \<in> conn E"
  by (auto simp: conn_def)

lemma conn_mono: "E \<subseteq> E' \<Longrightarrow> conn E \<subseteq> conn E'"
  unfolding conn_def by (intro rtrancl_mono) auto

lemma conn_insert:
  "(x, y) \<in> conn (insert (a, b) E) \<longleftrightarrow>
     (x, y) \<in> conn E \<or> (x, a) \<in> conn E \<and> (b, y) \<in> conn E \<or> (x, b) \<in> conn E \<and> (a, y) \<in> conn E"
proof -
  have "insert (a, b) E \<union> (insert (a, b) E)\<inverse> = insert (a, b) (insert (b, a) (E \<union> E\<inverse>))" by auto
  then have "conn (insert (a, b) E) = (insert (a, b) (insert (b, a) (E \<union> E\<inverse>)))\<^sup>*" by (simp add: conn_def)
  also have "(x, y) \<in> \<dots> \<longleftrightarrow>
     (x, y) \<in> conn E \<or> (x, a) \<in> conn E \<and> (b, y) \<in> conn E \<or> (x, b) \<in> conn E \<and> (a, y) \<in> conn E"
    unfolding rtrancl_insert conn_def [symmetric]
    by auto (use conn_trans conn_sym in \<open>metis+\<close>)
  finally show ?thesis .
qed

lemma conn_known: "(a, b) \<in> conn E \<Longrightarrow> conn (insert (a, b) E) = conn E"
proof (rule set_eqI)
  fix p
  assume "(a, b) \<in> conn E"
  then show "p \<in> conn (insert (a, b) E) \<longleftrightarrow> p \<in> conn E"
    using conn_insert [of "fst p" "snd p" a b E] by (cases p) (simp, metis conn_trans conn_sym)
qed

lemma conn_isolated: "c \<notin> Field E \<Longrightarrow> (c, y) \<in> conn E \<longleftrightarrow> c = y"
  unfolding conn_def by (auto elim: converse_rtranclE simp: Field_def)

lemma conn_touch: "(x, y) \<in> conn E \<Longrightarrow> x \<noteq> y \<Longrightarrow> x \<in> Field E"
  using conn_isolated [of x E y] by blast

section \<open>Classes and components\<close>

text \<open>
  \<open>A\<close> holds the variables, \<open>E\<close> the visited pairs of a variable and a clause. Parents are variables, the classes of
  the forest are the components of \<open>E\<close>, and a variable that no pair mentions is recognised by its size.
\<close>

definition classes_ok :: "'n set \<Rightarrow> ('n \<times> 'n) set \<Rightarrow> ('n \<Rightarrow> 'n) \<Rightarrow> ('n \<Rightarrow> nat) \<Rightarrow> bool" where
  "classes_ok A E par sz \<longleftrightarrow> fst ` E \<subseteq> A \<and> A \<inter> snd ` E = {} \<and>
     (\<forall>x\<in>A \<union> snd ` E. par x \<in> A \<and> (\<exists>r. rep par x r)) \<and>
     (\<forall>x\<in>A \<union> snd ` E. \<forall>y\<in>A \<union> snd ` E. \<forall>r s. rep par x r \<longrightarrow> rep par y s \<longrightarrow> (r = s) = ((x, y) \<in> conn E)) \<and>
     (\<forall>v\<in>A. 1 \<le> sz v \<and> (if v \<in> fst ` E then par v \<noteq> v \<or> 2 \<le> sz v else par v = v \<and> sz v = 1))"

lemma classes_okI:
  assumes "fst ` E \<subseteq> A" "A \<inter> snd ` E = {}" "\<And>x. x \<in> A \<union> snd ` E \<Longrightarrow> par x \<in> A \<and> (\<exists>r. rep par x r)"
    "\<And>x y r s. x \<in> A \<union> snd ` E \<Longrightarrow> y \<in> A \<union> snd ` E \<Longrightarrow> rep par x r \<Longrightarrow> rep par y s \<Longrightarrow> (r = s) = ((x, y) \<in> conn E)"
    "\<And>v. v \<in> A \<Longrightarrow> 1 \<le> sz v \<and> (if v \<in> fst ` E then par v \<noteq> v \<or> 2 \<le> sz v else par v = v \<and> sz v = 1)"
  shows "classes_ok A E par sz"
  unfolding classes_ok_def
proof (intro conjI)
  show "\<forall>x\<in>A \<union> snd ` E. par x \<in> A \<and> (\<exists>r. rep par x r)" by (rule ballI, rule assms(3))
  show "\<forall>x\<in>A \<union> snd ` E. \<forall>y\<in>A \<union> snd ` E. \<forall>r s. rep par x r \<longrightarrow> rep par y s \<longrightarrow> (r = s) = ((x, y) \<in> conn E)"
    by (intro ballI allI impI, rule assms(4))
  show "\<forall>v\<in>A. 1 \<le> sz v \<and> (if v \<in> fst ` E then par v \<noteq> v \<or> 2 \<le> sz v else par v = v \<and> sz v = 1)"
    by (rule ballI, rule assms(5))
qed (fact assms(1,2))+

lemma classes_okD:
  assumes "classes_ok A E par sz"
  shows "fst ` E \<subseteq> A" "A \<inter> snd ` E = {}" "x \<in> A \<union> snd ` E \<Longrightarrow> par x \<in> A"
    "x \<in> A \<union> snd ` E \<Longrightarrow> \<exists>r. rep par x r"
    "x \<in> A \<union> snd ` E \<Longrightarrow> y \<in> A \<union> snd ` E \<Longrightarrow> rep par x r \<Longrightarrow> rep par y s \<Longrightarrow> r = s \<longleftrightarrow> (x, y) \<in> conn E"
    "v \<in> A \<Longrightarrow> 1 \<le> sz v" "v \<in> fst ` E \<Longrightarrow> par v \<noteq> v \<or> 2 \<le> sz v"
    "v \<in> A \<Longrightarrow> v \<notin> fst ` E \<Longrightarrow> par v = v \<and> sz v = 1"
proof -
  note d = assms [unfolded classes_ok_def]
  show sub: "fst ` E \<subseteq> A" "A \<inter> snd ` E = {}" using d by - (elim conjE, assumption)+
  have t: "\<forall>x\<in>A \<union> snd ` E. par x \<in> A \<and> (\<exists>r. rep par x r)" using d by (elim conjE)
  then show "x \<in> A \<union> snd ` E \<Longrightarrow> par x \<in> A" "x \<in> A \<union> snd ` E \<Longrightarrow> \<exists>r. rep par x r" by blast+
  have c: "\<forall>x\<in>A \<union> snd ` E. \<forall>y\<in>A \<union> snd ` E. \<forall>r s. rep par x r \<longrightarrow> rep par y s \<longrightarrow> (r = s) = ((x, y) \<in> conn E)"
    using d by (elim conjE)
  show "x \<in> A \<union> snd ` E \<Longrightarrow> y \<in> A \<union> snd ` E \<Longrightarrow> rep par x r \<Longrightarrow> rep par y s \<Longrightarrow> r = s \<longleftrightarrow> (x, y) \<in> conn E"
    by (rule c [rule_format])
  have z: "\<forall>v\<in>A. 1 \<le> sz v \<and> (if v \<in> fst ` E then par v \<noteq> v \<or> 2 \<le> sz v else par v = v \<and> sz v = 1)"
    using d by (elim conjE)
  then show "v \<in> A \<Longrightarrow> 1 \<le> sz v" by blast
  show "v \<in> A \<Longrightarrow> v \<notin> fst ` E \<Longrightarrow> par v = v \<and> sz v = 1" using bspec [OF z, of v] by presburger
  show "v \<in> fst ` E \<Longrightarrow> par v \<noteq> v \<or> 2 \<le> sz v" using bspec [OF z, of v] sub(1) by (simp only: subsetD if_True)
qed

lemma rep_in_A:
  assumes "classes_ok A E par sz" "x \<in> A \<union> snd ` E" "rep par x r"
  shows "r \<in> A"
proof -
  have "leads par n x r \<Longrightarrow> x \<in> A \<Longrightarrow> r \<in> A" for n x
    by (induction rule: leads.induct) (use classes_okD(3) [OF assms(1)] in auto)
  moreover have "rep par (par x) r" using assms(3) by (simp only: rep_parent)
  moreover have "par x \<in> A" by (rule classes_okD(3) [OF assms(1,2)])
  ultimately show ?thesis by (auto simp: rep_def)
qed

lemma classes_init:
  assumes "\<forall>v\<in>A. par v = v \<and> sz v = 1"
  shows "classes_ok A {} par sz"
proof (rule classes_okI)
  fix x y r s
  assume "x \<in> A \<union> snd ` {}" "y \<in> A \<union> snd ` {}" "rep par x r" "rep par y s"
  then have "r = x" "s = y" using assms rep_self_iff [of par x r] rep_self_iff [of par y s] by auto
  then show "(r = s) = ((x, y) \<in> conn {})" using conn_isolated [of x "{}" y] by simp
next
  fix x assume "x \<in> A \<union> snd ` {}"
  then have "par x = x" "x \<in> A" using assms by auto
  then show "par x \<in> A \<and> (\<exists>r. rep par x r)" using rep_self [of par x] by auto
qed (use assms in auto)

lemma root_with_edges:
  assumes "classes_ok A E par sz" "x \<in> A \<union> snd ` E" "rep par x r" "x \<noteq> r"
  shows "r \<in> fst ` E"
proof -
  have r: "r \<in> A" by (rule rep_in_A [OF assms(1-3)])
  have rr: "rep par r r" by (intro rep_self rep_root [OF assms(3)])
  have "r = r \<longleftrightarrow> (r, x) \<in> conn E" by (rule classes_okD(5) [OF assms(1) _ assms(2) rr assms(3)]) (use r in simp)
  then have "(r, x) \<in> conn E" by simp
  then have "r \<in> Field E" using conn_touch assms(4) by metis
  then show ?thesis using r classes_okD(2) [OF assms(1)] by (force simp: Field_def)
qed

lemma classes_halve:
  assumes "classes_ok A E par sz" "w \<in> A" "par w \<noteq> w"
  shows "classes_ok A E (par(w := par (par w))) sz"
proof -
  let ?q = "par(w := par (par w))"
  note ok = classes_okD [OF assms(1)]
  have rep: "rep ?q x r \<longleftrightarrow> rep par x r" if "x \<in> A \<union> snd ` E" for x r
  proof
    assume q: "rep ?q x r"
    from ok(4) [OF that] obtain s where s: "rep par x s" ..
    show "rep par x r" using rep_unique [OF halving_rep [OF s] q] s by simp
  qed (rule halving_rep)
  have par: "?q x \<in> A" if "x \<in> A \<union> snd ` E" for x using ok(3) that assms(2) by (metis UnI1 fun_upd_apply)
  obtain n r where "leads par n w r" using ok(4) assms(2) unfolding rep_def by blast
  then have cyc: "par (par w) \<noteq> w" using no_short_cycle assms(3) by metis
  have w: "w \<in> fst ` E" using ok(8) assms(2,3) by blast
  have sz: "1 \<le> sz v \<and> (if v \<in> fst ` E then ?q v \<noteq> v \<or> 2 \<le> sz v else ?q v = v \<and> sz v = 1)" if "v \<in> A" for v
    using ok(6-8) [of v] that w cyc by auto
  show ?thesis
  proof (rule classes_okI [OF ok(1,2) _ _ sz])
    show "?q x \<in> A \<and> (\<exists>r. rep ?q x r)" if "x \<in> A \<union> snd ` E" for x using par [OF that] rep [OF that] ok(4) [OF that] by blast
    show "(r = s) = ((x, y) \<in> conn E)" if "x \<in> A \<union> snd ` E" "y \<in> A \<union> snd ` E" "rep ?q x r" "rep ?q y s" for x y r s
      using ok(5) [OF that(1,2)] that(3,4) rep [OF that(1)] rep [OF that(2)] by blast
  qed
qed

lemma classes_attach:
  assumes "classes_ok A E par sz" "c \<notin> A \<union> snd ` E" "v \<in> A" "rep par v r"
  shows "classes_ok A (insert (v, c) E) (par(c := r)) (sz(r := sz r + 1))"
proof -
  let ?q = "par(c := r)"
  note ok = classes_okD [OF assms(1)]
  have r: "r \<in> A" "par r = r" using rep_in_A [OF assms(1) _ assms(4)] rep_root [OF assms(4)] assms(3) by auto
  have cn: "c \<noteq> r" "c \<noteq> v" using assms(2,3) r by auto
  have old: "rep ?q x s \<longleftrightarrow> rep par x s" if "x \<in> A \<union> snd ` E" for x s
    using ok(4) [OF that] fresh_rep [of "A \<union> snd ` E" par c x] ok(3) assms(2) that rep_unique by (metis UnI1)
  have new: "rep ?q c s \<longleftrightarrow> s = r" for s
    using rep_parent [of ?q c s] old [of r s] rep_self_iff [of par r s] r cn by simp
  have iso: "c \<notin> Field E" using assms(2) ok(1) by (force simp: Field_def)
  have conn: "(x, y) \<in> conn (insert (v, c) E) \<longleftrightarrow>
      (if x = c then y = c \<or> (v, y) \<in> conn E else if y = c then (x, v) \<in> conn E else (x, y) \<in> conn E)" for x y
    using conn_isolated [OF iso] conn_sym [of _ _ E] unfolding conn_insert by (auto, metis+)
  have main: "(s = t) = ((x, y) \<in> conn (insert (v, c) E))"
    if "x \<in> A \<union> snd ` insert (v, c) E" "y \<in> A \<union> snd ` insert (v, c) E" "rep ?q x s" "rep ?q y t" for x y s t
  proof -
    have x: "x = c \<and> s = r \<or> x \<noteq> c \<and> x \<in> A \<union> snd ` E \<and> rep par x s" using that(1,3) new old by auto
    have y: "y = c \<and> t = r \<or> y \<noteq> c \<and> y \<in> A \<union> snd ` E \<and> rep par y t" using that(2,4) new old by auto
    have v: "v \<in> A \<union> snd ` E" using assms(3) by blast
    have a: "r = t \<longleftrightarrow> (v, y) \<in> conn E" if "y \<in> A \<union> snd ` E" "rep par y t" by (rule ok(5) [OF v that(1) assms(4) that(2)])
    have b: "s = r \<longleftrightarrow> (x, v) \<in> conn E" if "x \<in> A \<union> snd ` E" "rep par x s" by (rule ok(5) [OF that(1) v that(2) assms(4)])
    have d: "s = t \<longleftrightarrow> (x, y) \<in> conn E" if "x \<in> A \<union> snd ` E" "rep par x s" "y \<in> A \<union> snd ` E" "rep par y t"
      by (rule ok(5) [OF that(1,3,2,4)])
    show ?thesis using x y unfolding conn by (elim disjE conjE) (simp_all add: a b d)
  qed
  have tot: "?q x \<in> A \<and> (\<exists>s. rep ?q x s)" if "x \<in> A \<union> snd ` insert (v, c) E" for x
    using that ok(3,4) old new r by (cases "x = c") auto
  have edge: "r = v \<or> r \<in> fst ` E" using root_with_edges [OF assms(1) _ assms(4)] assms(3) by blast
  have sz: "1 \<le> (sz(r := sz r + 1)) u \<and> (if u \<in> fst ` insert (v, c) E then ?q u \<noteq> u \<or> 2 \<le> (sz(r := sz r + 1)) u
      else ?q u = u \<and> (sz(r := sz r + 1)) u = 1)" if u: "u \<in> A" for u
  proof -
    have "u \<noteq> c" using assms(2) u by auto
    moreover have "v \<in> fst ` E \<or> par v = v \<and> r = v" using ok(8) assms(3) rep_self_iff [of par v r] assms(4) by blast
    ultimately show ?thesis using ok(6-8) [of u] u edge by auto
  qed
  have "fst ` insert (v, c) E \<subseteq> A" "A \<inter> snd ` insert (v, c) E = {}" using ok(1,2) assms(2,3) by auto
  then show ?thesis using tot main sz by (rule classes_okI)
qed

lemma classes_known:
  assumes "classes_ok A E par sz" "c \<in> snd ` E" "v \<in> A" "rep par v r" "rep par c r"
  shows "classes_ok A (insert (v, c) E) par sz"
proof -
  note ok = classes_okD [OF assms(1)]
  have "(v, c) \<in> conn E" using ok(5) [of v c r r] assms by blast
  moreover from this have "v \<in> Field E" using conn_touch [of v c E] assms(2,3) ok(2) by auto
  ultimately have "conn (insert (v, c) E) = conn E" "v \<in> fst ` E"
    using conn_known [of v c E] assms(3) ok(2) by (simp, force simp: Field_def)
  moreover have "snd ` insert (v, c) E = snd ` E" "fst ` insert (v, c) E = fst ` E" using assms(2) calculation(2) by auto
  ultimately show ?thesis using assms(1) unfolding classes_ok_def by presburger
qed

lemma classes_link:
  assumes "classes_ok A E par sz" "c \<in> snd ` E" "v \<in> A" "rep par v rv" "rep par c rw" "rv \<noteq> rw"
    "a = rv \<and> b = rw \<or> a = rw \<and> b = rv"
  shows "classes_ok A (insert (v, c) E) (par(a := b)) (sz(b := k)) \<longleftrightarrow> 2 \<le> k"
proof -
  let ?q = "par(a := b)"
  note ok = classes_okD [OF assms(1)]
  have cN: "c \<in> A \<union> snd ` E" "v \<in> A \<union> snd ` E" using assms(2,3) by auto
  have roots: "par a = a" "par b = b" "a \<noteq> b" "a \<in> A" "b \<in> A"
    using assms(4-7) rep_root rep_in_A [OF assms(1) cN(1) assms(5)] rep_in_A [OF assms(1) cN(2) assms(4)] by auto
  have rep: "rep ?q x s \<longleftrightarrow> (\<exists>r. rep par x r \<and> s = (if r = a then b else r))" if "x \<in> A \<union> snd ` E" for x s
  proof
    assume q: "rep ?q x s"
    from ok(4) [OF that] obtain r where r: "rep par x r" ..
    show "\<exists>r. rep par x r \<and> s = (if r = a then b else r)" using rep_unique [OF q link_rep [OF roots(1-3) r]] r by blast
  qed (use link_rep [OF roots(1-3)] in blast)
  have N: "A \<union> snd ` insert (v, c) E = A \<union> snd ` E" using assms(2) by auto
  have classes: "(if r = a then b else r) = (if s = a then b else s) \<longleftrightarrow> (x, y) \<in> conn (insert (v, c) E)"
    if "x \<in> A \<union> snd ` E" "y \<in> A \<union> snd ` E" "rep par x r" "rep par y s" for x y r s
  proof -
    have "(x, y) \<in> conn E \<longleftrightarrow> r = s" "(x, v) \<in> conn E \<longleftrightarrow> r = rv" "(c, y) \<in> conn E \<longleftrightarrow> rw = s"
      "(x, c) \<in> conn E \<longleftrightarrow> r = rw" "(v, y) \<in> conn E \<longleftrightarrow> rv = s"
      using ok(5) that cN assms(4,5) by blast+
    then show ?thesis unfolding conn_insert using assms(6,7) by auto
  qed
  have main: "(s = t) = ((x, y) \<in> conn (insert (v, c) E))"
    if "x \<in> A \<union> snd ` E" "y \<in> A \<union> snd ` E" "rep ?q x s" "rep ?q y t" for x y s t
    using that rep classes by metis
  have tot: "?q x \<in> A \<and> (\<exists>s. rep ?q x s)" if "x \<in> A \<union> snd ` E" for x
    using that ok(3,4) rep roots by (metis fun_upd_apply)
  have edges: "rv = v \<or> rv \<in> fst ` E" "rw \<in> fst ` E"
    using root_with_edges [OF assms(1) cN(2) assms(4)] root_with_edges [OF assms(1) cN(1) assms(5)]
      rep_in_A [OF assms(1) cN(1) assms(5)] assms(2) ok(2) by blast+
  have b: "b \<in> fst ` insert (v, c) E" "a \<in> fst ` insert (v, c) E" using edges assms(7) by auto
  have fst: "u \<in> fst ` insert (v, c) E \<longleftrightarrow> u = v \<or> u \<in> fst ` E" for u by auto
  have v: "v \<in> fst ` E \<or> v = rv" using ok(8) assms(3,4) rep_self_iff by metis
  have sz: "1 \<le> (sz(b := k)) u \<and> (if u \<in> fst ` insert (v, c) E then ?q u \<noteq> u \<or> 2 \<le> (sz(b := k)) u
      else ?q u = u \<and> (sz(b := k)) u = 1)" if u: "u \<in> A" "2 \<le> k" for u
    using ok(6-8) [of u] u roots b v assms(7) unfolding fst by (cases "u = b"; cases "u = a") auto
  show ?thesis
  proof
    assume k: "2 \<le> k"
    show "classes_ok A (insert (v, c) E) ?q (sz(b := k))"
    proof (rule classes_okI, unfold N)
      show "fst ` insert (v, c) E \<subseteq> A" "A \<inter> snd ` insert (v, c) E = {}" using ok(1,2) assms(2,3) by auto
    qed (fact tot main sz [OF _ k])+
  next
    assume "classes_ok A (insert (v, c) E) ?q (sz(b := k))"
    from classes_okD(7) [OF this b(1)] show "2 \<le> k" using roots by simp
  qed
qed

end
