(* ===== verification/D4_Components.thy ===== *)
theory D4_Components
  imports D4_Cnf_Updates D4_Union_Find
begin

text \<open>
  \<open>computeConnectedComponent\<close> and \<open>computeConnectedComponentTargeted\<close> of the CNF manager: the first is a union-find
  over variables and clauses with path halving and union by size, the second a labelling search that starts from the
  projected variables. The loops that follow parents and that grow a component are partial functions: not returning is
  \<open>None\<close>.
\<close>

section \<open>Union-find\<close>

definition parent_of :: "InfoCluster list \<Rightarrow> nat \<Rightarrow> nat" where
  "parent_of C x = ic_parent (C ! x)"

definition set_parent :: "nat \<Rightarrow> nat \<Rightarrow> InfoCluster list \<Rightarrow> InfoCluster list" where
  "set_parent x p C = C[x := (C ! x)\<lparr>ic_parent := p\<rparr>]"

definition add_size :: "nat \<Rightarrow> nat \<Rightarrow> InfoCluster list \<Rightarrow> InfoCluster list" where
  "add_size x k C = C[x := (C ! x)\<lparr>ic_size := ic_size (C ! x) + k\<rparr>]"

text \<open>The search for the root halves the path it follows.\<close>

partial_function (option) find_root :: "InfoCluster list \<Rightarrow> nat \<Rightarrow> (InfoCluster list \<times> nat) option" where
  "find_root C w =
     (if w = parent_of C w then Some (C, w)
      else let C1 = set_parent w (parent_of C (parent_of C w)) C in find_root C1 (parent_of C1 w))"

definition union_roots :: "nat \<Rightarrow> nat \<Rightarrow> InfoCluster list \<Rightarrow> InfoCluster list \<times> nat" where
  "union_roots rootV rootW C =
     (if ic_size (C ! rootV) < ic_size (C ! rootW)
      then let C1 = add_size rootW (ic_size (C ! rootV)) C in (set_parent rootV (parent_of C1 rootW) C1, rootW)
      else let C1 = add_size rootV (ic_size (C ! rootW)) C in (set_parent rootW (parent_of C1 rootV) C1, rootV))"

text \<open>The state of the first loop: the clusters, the marks of the clauses, the clauses to unmark and the root of the
  variable at hand. Clause \<open>idx\<close> has the node \<open>idx + m_nbVar + 1\<close>.\<close>

type_synonym visit_state = "InfoCluster list \<times> bool list \<times> nat list \<times> nat"

fun visit_clause :: "nat \<Rightarrow> nat \<Rightarrow> visit_state \<Rightarrow> visit_state option" where
  "visit_clause n idx (C, mark, undo, rootV) =
     (if \<not> mark ! idx
      then Some (add_size rootV 1 (set_parent (idx + n + 1) rootV C), mark[idx := True], undo @ [idx], rootV)
      else (case find_root C (parent_of C (idx + n + 1)) of
          None \<Rightarrow> None
        | Some (C1, rootW) \<Rightarrow>
            if rootV = rootW then Some (C1, mark, undo, rootV)
            else (case union_roots rootV rootW C1 of (C2, root) \<Rightarrow> Some (C2, mark, undo, root))))"

primrec visit_clauses :: "nat \<Rightarrow> nat list \<Rightarrow> visit_state \<Rightarrow> visit_state option" where
  "visit_clauses n [] s = Some s"
| "visit_clauses n (idx # is) s = (case visit_clause n idx s of None \<Rightarrow> None | Some s' \<Rightarrow> visit_clauses n is s')"

fun visit_vars ::
  "'a CnfManager_scheme \<Rightarrow> int list \<Rightarrow> InfoCluster list \<times> bool list \<times> nat list \<Rightarrow>
   (InfoCluster list \<times> bool list \<times> nat list) option" where
  "visit_vars M [] s = Some s"
| "visit_vars M (v # vs) (C, mark, undo) =
     (let l = ilit_make v False
      in (case visit_clauses (nat (fm_nbVar M)) (getVecIdxClause M l @ getVecIdxClause M (ilit_neg l)) (C, mark, undo, nat v) of
            None \<Rightarrow> None
          | Some (C', mark', undo', _) \<Rightarrow> visit_vars M vs (C', mark', undo')))"

text \<open>The second loop collects the variables of a root at the root's position.\<close>

fun collect_vars ::
  "int list \<Rightarrow> InfoCluster list \<Rightarrow> int list list \<Rightarrow> nat list \<Rightarrow> int list \<Rightarrow>
   (InfoCluster list \<times> int list list \<times> nat list \<times> int list) option" where
  "collect_vars [] C varCo rootSet freeVar = Some (C, varCo, rootSet, freeVar)"
| "collect_vars (v # vs) C varCo rootSet freeVar =
     (if parent_of C (nat v) = nat v \<and> ic_size (C ! nat v) = 1
      then collect_vars vs C varCo rootSet (freeVar @ [v])
      else (case find_root C (parent_of C (nat v)) of
          None \<Rightarrow> None
        | Some (C1, rootV) \<Rightarrow>
            let (C2, varCo2, rootSet2) =
                  (if ic_pos (C1 ! rootV) = -1
                   then (C1[rootV := (C1 ! rootV)\<lparr>ic_pos := int (length varCo)\<rparr>], varCo @ [[]], rootSet @ [rootV])
                   else (C1, varCo, rootSet));
                pos = nat (ic_pos (C2 ! rootV))
            in collect_vars vs C2 (varCo2[pos := varCo2 ! pos @ [v]]) rootSet2 freeVar))"

definition computeConnectedComponent ::
  "int list list \<Rightarrow> int list \<Rightarrow> 'a CnfManager_scheme \<Rightarrow> (int list list \<times> int list \<times> 'a CnfManager_scheme) option" where
  "computeConnectedComponent varCo setOfVar M =
     (let C = fold (\<lambda>v C. C[nat v := (C ! nat v)\<lparr>ic_parent := nat v, ic_size := 1\<rparr>]) setOfVar (cm_infoCluster M);
          active = filter (\<lambda>v. vget (fm_currentValue M) v = l_Undef) setOfVar
      in (case visit_vars M active (C, cm_markView M, cm_mustUnMark M) of
            None \<Rightarrow> None
          | Some (C1, mark, undo) \<Rightarrow>
              (case collect_vars active C1 varCo [] [] of
                 None \<Rightarrow> None
               | Some (C2, varCo2, rootSet, freeVar) \<Rightarrow>
                   Some (varCo2, freeVar,
                     (resetUnMark (M\<lparr>cm_markView := mark, cm_mustUnMark := undo\<rparr>))
                       \<lparr>cm_infoCluster := fold (\<lambda>r C. C[r := (C ! r)\<lparr>ic_pos := -1\<rparr>]) rootSet C2\<rparr>))))"

section \<open>Labelling\<close>

text \<open>The state of the labelling: marks, clauses to unmark, the label of every variable, the variables still to do.\<close>

type_synonym label_state = "bool list \<times> nat list \<times> int list \<times> int list"

definition label_lit :: "'a FormulaManager_scheme \<Rightarrow> int \<Rightarrow> ILit \<Rightarrow> int list \<times> int list \<Rightarrow> int list \<times> int list" where
  "label_lit M nbComponent l = (\<lambda>(v, varComponent).
     if vget (fm_currentValue M) (ilit_var l) \<noteq> l_Undef \<or> vget v (ilit_var l) \<noteq> 0 then (v, varComponent)
     else (vset v (ilit_var l) nbComponent, varComponent @ [ilit_var l]))"

definition label_clause :: "'a CnfManager_scheme \<Rightarrow> int \<Rightarrow> nat \<Rightarrow> label_state \<Rightarrow> label_state" where
  "label_clause M nbComponent idx = (\<lambda>(mark, undo, v, varComponent).
     if mark ! idx then (mark, undo, v, varComponent)
     else (case fold (label_lit M nbComponent) (cm_clauses M ! idx) (v, varComponent) of
       (v', varComponent') \<Rightarrow> (mark[idx := True], undo @ [idx], v', varComponent')))"

definition connectedToLit :: "'a CnfManager_scheme \<Rightarrow> int \<Rightarrow> ILit \<Rightarrow> label_state \<Rightarrow> label_state" where
  "connectedToLit M nbComponent l s =
     fold (label_clause M nbComponent) (getVecIdxClauseNotBin M l @ getVecIdxClauseBin M l) s"

partial_function (option) grow_component ::
  "'a CnfManager_scheme \<Rightarrow> int \<Rightarrow> nat \<Rightarrow> label_state \<Rightarrow> (nat \<times> label_state) option" where
  "grow_component M nbComponent cpt s =
     (case s of (mark, undo, v, tmp) \<Rightarrow>
        if tmp = [] then Some (cpt, s)
        else let l = ilit_make (last tmp) False;
                 s1 = (mark, undo, v, butlast tmp);
                 s2 = (if getNbOccurrence M l \<noteq> 0 then connectedToLit M nbComponent l s1 else s1);
                 s3 = (if getNbOccurrence M (ilit_neg l) \<noteq> 0 then connectedToLit M nbComponent (ilit_neg l) s2 else s2)
             in grow_component M nbComponent (cpt + 1) s3)"

fun label_vars ::
  "'a CnfManager_scheme \<Rightarrow> bool list \<Rightarrow> int list \<Rightarrow> int \<Rightarrow> label_state \<Rightarrow> (int \<times> label_state) option" where
  "label_vars M isProjected [] nbComponent s = Some (nbComponent, s)"
| "label_vars M isProjected (x # xs) nbComponent (mark, undo, v, tmp) =
     (if vget (fm_currentValue M) x \<noteq> l_Undef \<or> vget v x \<noteq> 0 \<or> \<not> vget isProjected x
      then label_vars M isProjected xs nbComponent (mark, undo, v, tmp)
      else (case grow_component M (nbComponent + 1) 0 (mark, undo, vset v x (nbComponent + 1), tmp @ [x]) of
          None \<Rightarrow> None
        | Some (cpt, mark', undo', v', tmp') \<Rightarrow>
            if cpt = 1 then label_vars M isProjected xs nbComponent (mark', undo', vset v' x 0, tmp')
            else label_vars M isProjected xs (nbComponent + 1) (mark', undo', v', tmp')))"

text \<open>\<open>varCo.resize(nbComponent)\<close> keeps what the caller's vector holds.\<close>

definition collect_label ::
  "'a FormulaManager_scheme \<Rightarrow> int \<Rightarrow> int list list \<times> int list \<times> int list \<Rightarrow> int list list \<times> int list \<times> int list" where
  "collect_label M x = (\<lambda>(varCo, freeVar, v).
     if vget v x \<noteq> 0
     then (varCo[nat (vget v x - 1) := varCo ! nat (vget v x - 1) @ [x]], freeVar, vset v x 0)
     else if vget (fm_currentValue M) x = l_Undef then (varCo, freeVar @ [x], vset v x 0)
     else (varCo, freeVar, vset v x 0))"

definition computeConnectedComponentTargeted ::
  "int list list \<Rightarrow> int list \<Rightarrow> bool list \<Rightarrow> 'a CnfManager_scheme \<Rightarrow>
   (int list list \<times> int list \<times> 'a CnfManager_scheme) option" where
  "computeConnectedComponentTargeted varCo setOfVar isProjected M =
     (case label_vars M isProjected setOfVar 0 (cm_markView M, cm_mustUnMark M, cm_idxComponent M, cm_tmpVecVar M) of
        None \<Rightarrow> None
      | Some (nbComponent, mark, undo, v, tmp) \<Rightarrow>
          (case fold (collect_label M) setOfVar
                  (take (nat nbComponent) varCo @ replicate (nat nbComponent - length varCo) [], [], v) of
             (varCo', freeVar, v') \<Rightarrow>
               Some (varCo', freeVar,
                 (resetUnMark (M\<lparr>cm_markView := mark, cm_mustUnMark := undo\<rparr>))
                   \<lparr>cm_idxComponent := v', cm_tmpVecVar := tmp\<rparr>)))"

section \<open>The forest in the cluster array\<close>

definition size_of :: "InfoCluster list \<Rightarrow> nat \<Rightarrow> nat" where
  "size_of C x = ic_size (C ! x)"

lemma nth_update_cases: "xs[i := y] ! j = (if i = j \<and> j < length xs then y else xs ! j)"
  by (cases "i < length xs") (auto simp: nth_list_update list_update_beyond)

lemma nth_update_field: "f y = f (xs ! i) \<Longrightarrow> f (xs[i := y] ! j) = f (xs ! j)"
  by (cases "i < length xs") (auto simp: nth_list_update list_update_beyond)

lemma cluster_updates [simp]:
  "x < length C \<Longrightarrow> parent_of (set_parent x p C) = (parent_of C)(x := p)" "size_of (set_parent x p C) = size_of C"
  "parent_of (add_size x k C) = parent_of C" "x < length C \<Longrightarrow> size_of (add_size x k C) = (size_of C)(x := size_of C x + k)"
  "length (set_parent x p C) = length C" "length (add_size x k C) = length C"
  "ic_pos (set_parent x p C ! y) = ic_pos (C ! y)" "ic_pos (add_size x k C ! y) = ic_pos (C ! y)"
  by (auto simp: parent_of_def set_parent_def size_of_def add_size_def fun_eq_iff nth_list_update nth_update_field)

text \<open>\<open>forest A E C\<close>: the array holds the classes of \<open>E\<close>.\<close>

definition forest :: "nat set \<Rightarrow> (nat \<times> nat) set \<Rightarrow> InfoCluster list \<Rightarrow> bool" where
  "forest A E C \<longleftrightarrow> classes_ok A E (parent_of C) (size_of C) \<and> A \<union> snd ` E \<subseteq> {..<length C}"

text \<open>What following parents may change.\<close>

definition halved :: "InfoCluster list \<Rightarrow> InfoCluster list \<Rightarrow> bool" where
  "halved C C' \<longleftrightarrow> length C' = length C \<and> size_of C' = size_of C \<and> (\<forall>x. ic_pos (C' ! x) = ic_pos (C ! x)) \<and>
     (\<forall>x r. rep (parent_of C) x r \<longrightarrow> rep (parent_of C') x r)"

lemma find_root_ok:
  assumes "forest A E C" "w \<in> A" "leads (parent_of C) n w r"
  shows "\<exists>C'. find_root C w = Some (C', r) \<and> forest A E C' \<and> halved C C'"
  using assms
proof (induction n arbitrary: C w rule: less_induct)
  case (less n)
  have ok: "classes_ok A E (parent_of C) (size_of C)" and len: "A \<union> snd ` E \<subseteq> {..<length C}"
    using less.prems(1) by (simp_all add: forest_def)
  have w: "w < length C" using len less.prems(2) by blast
  show ?case
  proof (cases "w = parent_of C w")
    case True
    then have "rep (parent_of C) w w" by (intro rep_self) simp
    then have "r = w" using less.prems(3) rep_unique rep_def by metis
    then show ?thesis using True less.prems(1) by (auto simp: halved_def intro!: exI [of _ C]) (subst find_root.simps, simp)+
  next
    case False
    define C1 where "C1 = set_parent w (parent_of C (parent_of C w)) C"
    have p1: "parent_of C1 = (parent_of C)(w := parent_of C (parent_of C w))" using w by (simp add: C1_def)
    have f1: "forest A E C1"
      using classes_halve [OF ok less.prems(2)] False len unfolding forest_def p1 by (simp add: C1_def)
    have h1: "halved C C1" using halving_rep [of "parent_of C" _ _ w] by (simp add: halved_def p1) (simp add: C1_def)
    obtain k where n: "n = Suc k" "leads (parent_of C) k (parent_of C w) r"
      using less.prems(3) False by (cases rule: leads.cases) auto
    have "\<exists>m\<le>k - 1. leads (parent_of C1) m (parent_of C (parent_of C w)) r"
      using halving_leads [OF n(2), of "parent_of C1" w] unfolding p1 by simp
    then obtain m where m: "m \<le> k - 1" "leads (parent_of C1) m (parent_of C1 w) r" by (auto simp: p1)
    have "parent_of C1 w \<in> A" using classes_okD(3) [OF ok] less.prems(2) by (simp add: p1)
    moreover have "m < n" using m(1) n(1) by simp
    ultimately obtain C' where "find_root C1 (parent_of C1 w) = Some (C', r)" "forest A E C'" "halved C1 C'"
      using less.IH [of m C1 "parent_of C1 w"] m(2) f1 by blast
    then show ?thesis using h1 False by (subst find_root.simps) (auto simp: Let_def C1_def [symmetric] halved_def)
  qed
qed

lemma find_root_total:
  assumes "forest A E C" "w \<in> A \<union> snd ` E" "rep (parent_of C) w r"
  shows "\<exists>C'. find_root C (parent_of C w) = Some (C', r) \<and> forest A E C' \<and> halved C C'"
proof -
  have "rep (parent_of C) (parent_of C w) r" using assms(3) by (simp only: rep_parent)
  moreover have "parent_of C w \<in> A" using classes_okD(3) assms(1,2) unfolding forest_def by fast
  ultimately show ?thesis using find_root_ok [OF assms(1)] by (auto simp: rep_def)
qed

section \<open>Visiting the clauses of a variable\<close>

lemma union_roots_ok:
  assumes "forest A E C" "c \<in> snd ` E" "v \<in> A" "rep (parent_of C) v rv" "rep (parent_of C) c rw" "rv \<noteq> rw"
    "union_roots rv rw C = (C', root)"
  shows "forest A (insert (v, c) E) C' \<and> length C' = length C \<and> (\<forall>x. ic_pos (C' ! x) = ic_pos (C ! x)) \<and>
    rep (parent_of C') v root"
proof -
  have ok: "classes_ok A E (parent_of C) (size_of C)" and len: "A \<union> snd ` E \<subseteq> {..<length C}"
    using assms(1) by (simp_all add: forest_def)
  have r: "rv \<in> A" "rw \<in> A" using rep_in_A [OF ok _ assms(4)] rep_in_A [OF ok _ assms(5)] assms(2,3) by auto
  then have l: "rv < length C" "rw < length C" using len by auto
  have s: "1 \<le> size_of C rv" "1 \<le> size_of C rw" using classes_okD(6) [OF ok] r by auto
  have p: "parent_of C rv = rv" "parent_of C rw = rw" using rep_root assms(4,5) by fast+
  note link = classes_link [OF ok assms(2-6)]
  show ?thesis
  proof (cases "ic_size (C ! rv) < ic_size (C ! rw)")
    case True
    then have C': "C' = set_parent rv rw (add_size rw (size_of C rv) C)" "root = rw"
      using assms(7) p by (auto simp: union_roots_def Let_def size_of_def)
    have "rep ((parent_of C)(rv := rw)) v rw" using link_rep [of "parent_of C" rv rw v rv] p assms(4,6) by simp
    then show ?thesis using link [of rv rw "size_of C rw + size_of C rv"] s l len assms(2) unfolding C' forest_def
      by (auto simp del: fun_upd_apply)
  next
    case False
    then have C': "C' = set_parent rw rv (add_size rv (size_of C rw) C)" "root = rv"
      using assms(7) p by (auto simp: union_roots_def Let_def size_of_def)
    have "rep ((parent_of C)(rw := rv)) v rv" using link_rep [of "parent_of C" rw rv v rv] p assms(4,6) by simp
    then show ?thesis using link [of rw rv "size_of C rv + size_of C rw"] s l len assms(2) unfolding C' forest_def
      by (auto simp del: fun_upd_apply)
  qed
qed

text \<open>The state of the first loop: \<open>n\<close> variables, \<open>m\<close> clauses, the visited pairs \<open>E\<close>.\<close>

definition visiting :: "nat \<Rightarrow> nat \<Rightarrow> nat set \<Rightarrow> (nat \<times> nat) set \<Rightarrow> InfoCluster list \<times> bool list \<times> nat list \<Rightarrow> bool" where
  "visiting n m A E = (\<lambda>(C, mark, undo). forest A E C \<and> A \<subseteq> {..n} \<and> length C = n + m + 1 \<and> length mark = m \<and>
     (\<forall>i<m. mark ! i \<longleftrightarrow> i + n + 1 \<in> snd ` E) \<and> set undo = {i. i < m \<and> i + n + 1 \<in> snd ` E} \<and> (\<forall>x<length C. ic_pos (C ! x) = -1))"

lemma visit_clause_ok:
  assumes "visiting n m A E (C, mark, undo)" "v \<in> A" "rep (parent_of C) v rootV" "i < m"
  shows "\<exists>C' mark' undo' root. visit_clause n i (C, mark, undo, rootV) = Some (C', mark', undo', root) \<and>
    visiting n m A (insert (v, i + n + 1) E) (C', mark', undo') \<and> rep (parent_of C') v root"
proof -
  let ?c = "i + n + 1" and ?E = "insert (v, i + n + 1) E"
  have v: "forest A E C" "A \<subseteq> {..n}" "length C = n + m + 1" "length mark = m" "mark ! i \<longleftrightarrow> ?c \<in> snd ` E"
    "\<forall>i<m. mark ! i \<longleftrightarrow> i + n + 1 \<in> snd ` E" "set undo = {i. i < m \<and> i + n + 1 \<in> snd ` E}" "\<forall>x<length C. ic_pos (C ! x) = -1"
    using assms(1,4) unfolding visiting_def by auto
  have ok: "classes_ok A E (parent_of C) (size_of C)" and len: "A \<union> snd ` E \<subseteq> {..<length C}"
    using v(1) by (simp_all add: forest_def)
  have c: "?c < length C" "?c \<notin> A" using v(2,3) assms(4) by auto
  have r: "rootV \<in> A" by (rule rep_in_A [OF ok _ assms(3)]) (use assms(2) in simp)
  show ?thesis
  proof (cases "mark ! i")
    case False
    then have new: "?c \<notin> A \<union> snd ` E" using v(5) c by auto
    have R: "rootV < length C" "rootV \<noteq> ?c" using r len new by auto
    let ?C = "add_size rootV 1 (set_parent ?c rootV C)"
    have p: "parent_of ?C = (parent_of C)(?c := rootV)" "size_of ?C = (size_of C)(rootV := size_of C rootV + 1)"
      using c R by simp_all
    have "forest A ?E ?C" unfolding forest_def p using classes_attach [OF ok new assms(2,3)] len c by auto
    moreover have "rep (parent_of ?C) v rootV" unfolding p
      by (rule fresh_rep [OF _ new _ assms(3)]) (use classes_okD(3) [OF ok] assms(2) in auto)
    ultimately show ?thesis using False v assms(4) by (auto simp: visiting_def nth_list_update)
  next
    case True
    then have seen: "?c \<in> snd ` E" using v(5) by simp
    obtain rootW where w: "rep (parent_of C) ?c rootW" using classes_okD(4) [OF ok, of ?c] seen by auto
    then obtain C1 where f: "find_root C (parent_of C ?c) = Some (C1, rootW)" "forest A E C1" "halved C C1"
      using find_root_total [OF v(1) _ w] seen by blast
    have h: "length C1 = length C" "\<forall>x. ic_pos (C1 ! x) = ic_pos (C ! x)" "rep (parent_of C1) v rootV" "rep (parent_of C1) ?c rootW"
      using f(3) assms(3) w unfolding halved_def by blast+
    have snd: "snd ` ?E = snd ` E" using seen by auto
    have frame: "visiting n m A ?E (C', mark, undo)"
      if "forest A ?E C'" "length C' = length C" "\<forall>x. ic_pos (C' ! x) = ic_pos (C ! x)" for C'
      using that v unfolding visiting_def snd by simp
    show ?thesis
    proof (cases "rootV = rootW")
      case True
      have "forest A ?E C1" using classes_known [OF _ seen assms(2) h(3)] h(4) True f(2) unfolding forest_def snd by blast
      then show ?thesis using frame [OF _ h(1,2)] h(3) f(1) \<open>mark ! i\<close> True by simp
    next
      case False
      obtain C2 root where u: "union_roots rootV rootW C1 = (C2, root)" by fastforce
      note un = union_roots_ok [OF f(2) seen assms(2) h(3,4) False u]
      then have "visiting n m A ?E (C2, mark, undo)" using h(1,2) by (intro frame) auto
      then show ?thesis using un u f(1) \<open>mark ! i\<close> False by simp
    qed
  qed
qed

lemma visit_clauses_ok:
  assumes "visiting n m A E (C, mark, undo)" "v \<in> A" "rep (parent_of C) v rootV" "set is \<subseteq> {..<m}"
  shows "\<exists>C' mark' undo' root. visit_clauses n is (C, mark, undo, rootV) = Some (C', mark', undo', root) \<and>
    visiting n m A (E \<union> (\<lambda>i. (v, i + n + 1)) ` set is) (C', mark', undo')"
  using assms
proof (induction "is" arbitrary: E C mark undo rootV)
  case (Cons i "is")
  obtain C' mark' undo' root where s: "visit_clause n i (C, mark, undo, rootV) = Some (C', mark', undo', root)"
    "visiting n m A (insert (v, i + n + 1) E) (C', mark', undo')" "rep (parent_of C') v root"
    using visit_clause_ok [OF Cons.prems(1-3), of i] Cons.prems(4) by auto
  then show ?case using Cons.IH [OF s(2) Cons.prems(2) s(3)] Cons.prems(4) by simp
qed auto

text \<open>The clauses the first loop goes through for a variable, and all pairs it visits.\<close>

definition var_clauses :: "'a CnfManager_scheme \<Rightarrow> int \<Rightarrow> nat list" where
  "var_clauses M v = getVecIdxClause M (ilit_make v False) @ getVecIdxClause M (ilit_neg (ilit_make v False))"

definition pairs :: "'a CnfManager_scheme \<Rightarrow> int set \<Rightarrow> (nat \<times> nat) set" where
  "pairs M V = {(nat v, i + nat (fm_nbVar M) + 1) | v i. v \<in> V \<and> i \<in> set (var_clauses M v)}"

lemma pairs_insert:
  "pairs M (insert v V) = pairs M V \<union> (\<lambda>i. (nat v, i + nat (fm_nbVar M) + 1)) ` set (var_clauses M v)"
  by (auto simp: pairs_def)

lemma fst_pairs: "x \<in> fst ` pairs M V \<longleftrightarrow> (\<exists>u\<in>V. nat u = x \<and> var_clauses M u \<noteq> [])"
proof -
  have "fst ` pairs M V = (\<Union>u\<in>V. (\<lambda>i. nat u) ` set (var_clauses M u))" unfolding pairs_def by force
  then show ?thesis by (auto simp: image_constant_conv split: if_splits)
qed

lemma visit_vars_ok:
  assumes "visiting (nat (fm_nbVar M)) m A (pairs M V) (C, mark, undo)" "nat ` set vs \<subseteq> A" "distinct vs"
    "V \<inter> set vs = {}" "\<forall>v\<in>V \<union> set vs. 0 \<le> v \<and> set (var_clauses M v) \<subseteq> {..<m}"
  shows "\<exists>s. visit_vars M vs (C, mark, undo) = Some s \<and> visiting (nat (fm_nbVar M)) m A (pairs M (V \<union> set vs)) s"
  using assms
proof (induction vs arbitrary: V C mark undo)
  case (Cons v vs)
  let ?n = "nat (fm_nbVar M)"
  have f: "classes_ok A (pairs M V) (parent_of C) (size_of C)" using Cons.prems(1) by (auto simp: visiting_def forest_def)
  have "nat v \<notin> fst ` pairs M V"
  proof
    assume "nat v \<in> fst ` pairs M V"
    then obtain u where "u \<in> V" "nat u = nat v" by (auto simp: pairs_def)
    moreover have "0 \<le> u" "0 \<le> v" using Cons.prems(5) \<open>u \<in> V\<close> by auto
    ultimately have "u = v" by (simp add: eq_nat_nat_iff)
    then show False using Cons.prems(4) \<open>u \<in> V\<close> by auto
  qed
  then have "parent_of C (nat v) = nat v" using classes_okD(8) [OF f, of "nat v"] Cons.prems(2) by simp
  then have "rep (parent_of C) (nat v) (nat v)" by (rule rep_self)
  then obtain C' mark' undo' root where s: "visit_clauses ?n (var_clauses M v) (C, mark, undo, nat v) = Some (C', mark', undo', root)"
    "visiting ?n m A (pairs M (insert v V)) (C', mark', undo')"
    using visit_clauses_ok [OF Cons.prems(1), of "nat v" "nat v" "var_clauses M v"] Cons.prems(2,5)
    unfolding pairs_insert by auto
  have "\<exists>s. visit_vars M vs (C', mark', undo') = Some s \<and> visiting ?n m A (pairs M (insert v V \<union> set vs)) s"
    using Cons.prems by (intro Cons.IH [OF s(2)]) auto
  then show ?case using s(1) by (simp add: var_clauses_def Let_def)
qed auto

section \<open>Collecting the variables of a root\<close>

text \<open>\<open>root\<close> gives the root of a variable; after the variables \<open>ds\<close> the groups are those of the roots met so far.\<close>

definition collected ::
  "nat \<Rightarrow> nat set \<Rightarrow> (nat \<times> nat) set \<Rightarrow> (nat \<Rightarrow> nat) \<Rightarrow> int list \<Rightarrow> InfoCluster list \<Rightarrow> int list list \<Rightarrow> nat list \<Rightarrow> int list \<Rightarrow> bool" where
  "collected N A E root ds C varCo rootSet freeVar \<longleftrightarrow> length C = N \<and> forest A E C \<and> (\<forall>x\<in>A. rep (parent_of C) x (root x)) \<and>
     freeVar = filter (\<lambda>v. nat v \<notin> fst ` E) ds \<and> distinct rootSet \<and>
     set rootSet = root ` nat ` {v \<in> set ds. nat v \<in> fst ` E} \<and>
     varCo = map (\<lambda>r. filter (\<lambda>v. nat v \<in> fst ` E \<and> root (nat v) = r) ds) rootSet \<and>
     (\<forall>k<length rootSet. ic_pos (C ! (rootSet ! k)) = int k) \<and>
     (\<forall>x<length C. x \<notin> set rootSet \<longrightarrow> ic_pos (C ! x) = -1)"

lemma collect_root_step:
  assumes "collected N A E root ds C varCo rootSet freeVar" "nat v \<in> A" "nat v \<in> fst ` E" "nat ` set ds \<subseteq> A"
  shows "\<exists>C2 varCo2 rootSet2 pos. (case find_root C (parent_of C (nat v)) of None \<Rightarrow> None
      | Some (C1, rootV) \<Rightarrow> Some (let (C2, varCo2, rootSet2) =
                  (if ic_pos (C1 ! rootV) = -1
                   then (C1[rootV := (C1 ! rootV)\<lparr>ic_pos := int (length varCo)\<rparr>], varCo @ [[]], rootSet @ [rootV])
                   else (C1, varCo, rootSet)) in (C2, varCo2, rootSet2, nat (ic_pos (C2 ! rootV))))) =
      Some (C2, varCo2, rootSet2, pos) \<and>
    collected N A E root (ds @ [v]) C2 (varCo2[pos := varCo2 ! pos @ [v]]) rootSet2 freeVar"
proof -
  note c = assms(1) [unfolded collected_def]
  have N: "length C = N" using c by blast
  have C: "forest A E C" "\<forall>x\<in>A. rep (parent_of C) x (root x)" "freeVar = filter (\<lambda>v. nat v \<notin> fst ` E) ds" "distinct rootSet"
    "set rootSet = root ` nat ` {v \<in> set ds. nat v \<in> fst ` E}"
    "varCo = map (\<lambda>r. filter (\<lambda>v. nat v \<in> fst ` E \<and> root (nat v) = r) ds) rootSet"
    "\<forall>k<length rootSet. ic_pos (C ! (rootSet ! k)) = int k" "\<forall>x<length C. x \<notin> set rootSet \<longrightarrow> ic_pos (C ! x) = -1"
    using c by blast+
  let ?r = "root (nat v)" and ?grp = "\<lambda>ds r. filter (\<lambda>v. nat v \<in> fst ` E \<and> root (nat v) = r) ds"
  have ok: "classes_ok A E (parent_of C) (size_of C)" and len: "A \<union> snd ` E \<subseteq> {..<length C}"
    using C(1) by (simp_all add: forest_def)
  have r: "rep (parent_of C) (nat v) ?r" using C(2) assms(2) by blast
  obtain C1 where f: "find_root C (parent_of C (nat v)) = Some (C1, ?r)" "forest A E C1" "halved C C1"
    using find_root_total [OF C(1) _ r] assms(2) by blast
  have h: "length C1 = length C" "\<And>x. ic_pos (C1 ! x) = ic_pos (C ! x)" "\<forall>x\<in>A. rep (parent_of C1) x (root x)"
    using f(3) C(2) unfolding halved_def by blast+
  have rl: "?r < length C" using rep_in_A [OF ok _ r] assms(2) len by blast
  have free: "freeVar = filter (\<lambda>v. nat v \<notin> fst ` E) (ds @ [v])" using C(3) assms(3) by simp
  show ?thesis
  proof (cases "?r \<in> set rootSet")
    case True
    then obtain k where k: "k < length rootSet" "rootSet ! k = ?r" by (auto simp: in_set_conv_nth)
    then have pos: "ic_pos (C ! ?r) = int k" using C(7) by metis
    have "varCo[k := varCo ! k @ [v]] = map (?grp (ds @ [v])) rootSet"
    proof (rule nth_equalityI)
      fix j assume "j < length (varCo[k := varCo ! k @ [v]])"
      then have j: "j < length rootSet" using C(6) by simp
      then have "(rootSet ! j = ?r) = (j = k)" using C(4) k nth_eq_iff_index_eq by metis
      then show "varCo[k := varCo ! k @ [v]] ! j = map (?grp (ds @ [v])) rootSet ! j"
        using j k assms(3) C(6) by (auto simp: nth_list_update)
    qed (use C(6) in simp)
    moreover have "set rootSet = root ` nat ` {u \<in> set (ds @ [v]). nat u \<in> fst ` E}" using C(5) True assms(3) by auto
    ultimately show ?thesis using f C h pos free N by (auto simp: collected_def)
  next
    case False
    let ?C2 = "C1[?r := (C1 ! ?r)\<lparr>ic_pos := int (length varCo)\<rparr>]"
    have same: "parent_of ?C2 = parent_of C1" "size_of ?C2 = size_of C1"
      by (auto simp: parent_of_def size_of_def fun_eq_iff nth_update_field)
    have posr: "ic_pos (C1 ! ?r) = -1" "ic_pos (?C2 ! ?r) = int (length rootSet)" using C(6,8) False rl h(1,2) by simp_all
    have e: "?grp ds ?r = []"
    proof (rule ccontr)
      assume "?grp ds ?r \<noteq> []"
      then obtain u where "u \<in> set (?grp ds ?r)" by (meson last_in_set)
      then have "u \<in> {v \<in> set ds. nat v \<in> fst ` E}" "?r = root (nat u)" by simp_all
      then show False using C(5) False by blast
    qed
    have others: "?grp (ds @ [v]) x = ?grp ds x" if "x \<in> set rootSet" for x using that False by auto
    have vc: "(varCo @ [[]])[length rootSet := (varCo @ [[]]) ! length rootSet @ [v]] =
        map (?grp (ds @ [v])) (rootSet @ [?r])"
      using C(6) e others assms(3) by (simp add: list_update_append nth_append)
    have "\<forall>k<length (rootSet @ [?r]). ic_pos (?C2 ! ((rootSet @ [?r]) ! k)) = int k"
      using C(6,7) False h rl by (auto simp: nth_append less_Suc_eq nth_list_update in_set_conv_nth)
    moreover have "set (rootSet @ [?r]) = root ` nat ` {u \<in> set (ds @ [v]). nat u \<in> fst ` E}" using C(5) assms(3) by auto
    moreover have "forest A E ?C2" "\<forall>x\<in>A. rep (parent_of ?C2) x (root x)" using f(2) h(3) unfolding forest_def same by simp_all
    moreover have "distinct (rootSet @ [?r])" using C(4) False by simp
    moreover have "\<forall>x<length ?C2. x \<notin> set (rootSet @ [?r]) \<longrightarrow> ic_pos (?C2 ! x) = -1" using C(8) h by (auto simp: nth_list_update)
    ultimately have "collected N A E root (ds @ [v]) ?C2 (map (?grp (ds @ [v])) (rootSet @ [?r])) (rootSet @ [?r]) freeVar"
      unfolding collected_def using free h(1) N by auto
    then show ?thesis using f(1) posr vc by (auto simp: Let_def)
  qed
qed

lemma collect_vars_ok:
  assumes "collected N A E root ds C varCo rootSet freeVar" "nat ` set (ds @ vs) \<subseteq> A"
  shows "\<exists>C' varCo' rootSet' freeVar'. collect_vars vs C varCo rootSet freeVar = Some (C', varCo', rootSet', freeVar') \<and>
    collected N A E root (ds @ vs) C' varCo' rootSet' freeVar'"
  using assms
proof (induction vs arbitrary: ds C varCo rootSet freeVar)
  case (Cons v vs)
  have ok: "classes_ok A E (parent_of C) (size_of C)" and v: "nat v \<in> A" "nat ` set ds \<subseteq> A"
    using Cons.prems by (auto simp: collected_def forest_def)
  have free: "parent_of C (nat v) = nat v \<and> ic_size (C ! nat v) = 1 \<longleftrightarrow> nat v \<notin> fst ` E"
    using classes_okD(7) [OF ok, of "nat v"] classes_okD(8) [OF ok v(1)] unfolding size_of_def by linarith
  show ?case
  proof (cases "nat v \<in> fst ` E")
    case False
    have "collected N A E root (ds @ [v]) C varCo rootSet (freeVar @ [v])"
      using Cons.prems(1) False by (simp add: collected_def, blast)
    then show ?thesis using Cons.IH [of "ds @ [v]"] Cons.prems(2) False free by simp
  next
    case True
    obtain C2 varCo2 rootSet2 pos where st: "(case find_root C (parent_of C (nat v)) of None \<Rightarrow> None
      | Some (C1, rootV) \<Rightarrow> Some (let (C2, varCo2, rootSet2) =
                  (if ic_pos (C1 ! rootV) = -1
                   then (C1[rootV := (C1 ! rootV)\<lparr>ic_pos := int (length varCo)\<rparr>], varCo @ [[]], rootSet @ [rootV])
                   else (C1, varCo, rootSet)) in (C2, varCo2, rootSet2, nat (ic_pos (C2 ! rootV))))) =
      Some (C2, varCo2, rootSet2, pos)"
      "collected N A E root (ds @ [v]) C2 (varCo2[pos := varCo2 ! pos @ [v]]) rootSet2 freeVar"
      using collect_root_step [OF Cons.prems(1) v(1) True v(2)] by blast
    have "collect_vars (v # vs) C varCo rootSet freeVar =
        collect_vars vs C2 (varCo2[pos := varCo2 ! pos @ [v]]) rootSet2 freeVar"
      using st(1) True free by (auto simp: Let_def split: option.splits prod.splits if_splits)
    then show ?thesis using Cons.IH [OF st(2)] Cons.prems(2) by simp
  qed
qed simp

section \<open>The components of the current formula\<close>

text \<open>Two variables are linked when a clause that is not satisfied mentions both.\<close>

definition linked :: "'a CnfManager_scheme \<Rightarrow> int list \<Rightarrow> (int \<times> int) set" where
  "linked M vs = {(u, w). u \<in> set vs \<and> w \<in> set vs \<and> \<not> varIsAssigned M u \<and> \<not> varIsAssigned M w \<and>
     (\<exists>i<length (cm_clauses M). \<not> (\<exists>l\<in>set (cm_clauses M ! i). litIsAssignedToTrue M l) \<and>
        u \<in> ilit_var ` set (cm_clauses M ! i) \<and> w \<in> ilit_var ` set (cm_clauses M ! i))}"

definition clusters_ok :: "'a CnfManager_scheme \<Rightarrow> bool" where
  "clusters_ok M \<longleftrightarrow> length (cm_infoCluster M) = nat (fm_nbVar M) + length (cm_clauses M) + 1 \<and>
     (\<forall>x<length (cm_infoCluster M). ic_pos (cm_infoCluster M ! x) = -1) \<and>
     cm_markView M = replicate (length (cm_clauses M)) False \<and> cm_mustUnMark M = []"

text \<open>Paths that alternate between variables and clauses are paths over shared clauses.\<close>

lemma conn_bipartite:
  fixes E :: "(nat \<times> nat) set"
  assumes "fst ` E \<subseteq> A" "A \<inter> snd ` E = {}" "x \<in> A"
  shows "(x, y) \<in> conn E \<Longrightarrow> (y \<in> A \<longrightarrow> (x, y) \<in> {(u, w). \<exists>c. (u, c) \<in> E \<and> (w, c) \<in> E}\<^sup>*) \<and>
    (y \<notin> A \<longrightarrow> (\<exists>u. (x, u) \<in> {(u, w). \<exists>c. (u, c) \<in> E \<and> (w, c) \<in> E}\<^sup>* \<and> (u, y) \<in> E))"
proof -
  let ?S = "{(u, w). \<exists>c. (u, c) \<in> E \<and> (w, c) \<in> E}"
  assume "(x, y) \<in> conn E"
  then have "(x, y) \<in> (E \<union> E\<inverse>)\<^sup>*" by (simp add: conn_def)
  then show ?thesis
  proof (induction rule: rtrancl_induct)
    case (step y z)
    show ?case
    proof (cases "(y, z) \<in> E")
      case True
      then have "y \<in> A" "z \<notin> A" using assms(1,2) by force+
      then show ?thesis using step.IH True by blast
    next
      case False
      then have yz: "(z, y) \<in> E" using step.hyps(2) by simp
      then have "z \<in> A" "y \<notin> A" using assms(1,2) by force+
      moreover from this obtain u where "(x, u) \<in> ?S\<^sup>*" "(u, y) \<in> E" using step.IH by blast
      ultimately show ?thesis using yz by (auto intro: rtrancl_into_rtrancl)
    qed
  qed (use assms(3) in simp)
qed

lemma conn_shared: "(x, y) \<in> {(u, w). \<exists>c. (u, c) \<in> E \<and> (w, c) \<in> E}\<^sup>* \<Longrightarrow> (x, y) \<in> conn E"
proof (induction rule: rtrancl_induct)
  case (step y z)
  then obtain c where "(y, c) \<in> E" "(z, c) \<in> E" by auto
  then have "(y, c) \<in> conn E" "(c, z) \<in> conn E" using conn_edge conn_sym by fast+
  then show ?case using step.IH conn_trans by metis
qed simp

lemma reset_clusters:
  "length (fold (\<lambda>v C. C[nat v := (C ! nat v)\<lparr>ic_parent := nat v, ic_size := 1\<rparr>]) vs C) = length C \<and>
    (\<forall>x. ic_pos (fold (\<lambda>v C. C[nat v := (C ! nat v)\<lparr>ic_parent := nat v, ic_size := 1\<rparr>]) vs C ! x) = ic_pos (C ! x)) \<and>
    (\<forall>v\<in>set vs. nat v < length C \<longrightarrow>
      parent_of (fold (\<lambda>v C. C[nat v := (C ! nat v)\<lparr>ic_parent := nat v, ic_size := 1\<rparr>]) vs C) (nat v) = nat v \<and>
      size_of (fold (\<lambda>v C. C[nat v := (C ! nat v)\<lparr>ic_parent := nat v, ic_size := 1\<rparr>]) vs C) (nat v) = 1)"
  by (induction vs rule: rev_induct) (auto simp: nth_update_cases parent_of_def size_of_def)

lemma reset_positions:
  "length (fold (\<lambda>r C. C[r := (C ! r)\<lparr>ic_pos := -1\<rparr>]) rs C) = length C \<and>
    (\<forall>x<length C. ic_pos (fold (\<lambda>r C. C[r := (C ! r)\<lparr>ic_pos := -1\<rparr>]) rs C ! x) = (if x \<in> set rs then -1 else ic_pos (C ! x)))"
  by (induction rs rule: rev_induct) (auto simp: nth_update_cases)

lemma reset_marks:
  assumes "\<And>i. i < length mv \<Longrightarrow> mv ! i \<Longrightarrow> i \<in> set is"
  shows "fold (\<lambda>idx mv. mv[idx := False]) is mv = replicate (length mv) False"
proof -
  have "length (fold (\<lambda>idx mv. mv[idx := False]) is mv) = length mv \<and>
      (\<forall>i<length mv. fold (\<lambda>idx mv. mv[idx := False]) is mv ! i = (mv ! i \<and> i \<notin> set is))"
    by (induction "is" rule: rev_induct) (auto simp: nth_update_cases)
  then show ?thesis using assms by (intro nth_equalityI) auto
qed

lemma mset_groups:
  assumes "distinct rs" "\<And>x. x \<in> set ds \<Longrightarrow> P x \<Longrightarrow> f x \<in> set rs"
  shows "mset (concat (map (\<lambda>r. filter (\<lambda>x. P x \<and> f x = r) ds) rs)) = mset (filter P ds)"
  using assms
proof (induction rs arbitrary: P)
  case Nil
  then show ?case by (auto simp: filter_empty_conv)
next
  case (Cons r rs)
  have "mset (concat (map (\<lambda>r'. filter (\<lambda>x. (P x \<and> f x \<noteq> r) \<and> f x = r') ds) rs)) = mset (filter (\<lambda>x. P x \<and> f x \<noteq> r) ds)"
    using Cons.prems by (intro Cons.IH) auto
  moreover have "filter (\<lambda>x. (P x \<and> f x \<noteq> r) \<and> f x = r') ds = filter (\<lambda>x. P x \<and> f x = r') ds" if "r' \<in> set rs" for r'
    using Cons.prems(1) that by (intro filter_cong) auto
  moreover have "mset (filter P ds) = mset (filter (\<lambda>x. P x \<and> f x = r) ds) + mset (filter (\<lambda>x. P x \<and> f x \<noteq> r) ds)"
    by (induction ds) auto
  ultimately show ?case by (simp cong: map_cong)
qed

lemma var_lit: "wf_ilit n l \<Longrightarrow> l = ilit_make (ilit_var l) False \<or> l = ilit_neg (ilit_make (ilit_var l) False)"
proof -
  assume "wf_ilit n l"
  then have v: "1 \<le> ilit_var l" "ilit_var l < 2 ^ 30" by (simp_all add: wf_ilit_def)
  then have "l = ilit_make (ilit_var l) (ilit_sign l)" by (intro ilit_eqI) simp_all
  then show ?thesis using ilit_neg_make [of "ilit_var l" False] v by (cases "ilit_sign l") auto
qed

lemma var_clauses_set:
  assumes "dyn_ok M" "current_ok M" "1 \<le> v" "v \<le> fm_nbVar M"
  shows "set (var_clauses M v) = {i. i < length (cm_clauses M) \<and> \<not> (\<exists>l\<in>set (cm_clauses M ! i). litIsAssignedToTrue M l) \<and>
      v \<in> ilit_var ` set (cm_clauses M ! i)}"
    "isFreeVariable M v \<longleftrightarrow> var_clauses M v = []"
proof -
  have wf: "cm_wf M" using assms(1) by (simp add: dyn_ok_def dyn_wf_def)
  then have n: "v < 2 ^ 30" using assms(4) by (simp add: cm_wf_def)
  have win: "windows_ok M" using assms(2) by (simp add: current_ok_def windows_ok_def windows_def drop_sat_def)
  let ?l = "ilit_make v False" and ?l' = "ilit_neg (ilit_make v False)"
  have l: "wf_ilit (fm_nbVar M) ?l" "wf_ilit (fm_nbVar M) ?l'" "ilit_var ?l = v" "ilit_var ?l' = v"
    using assms(3,4) n ilit_neg_make [of v False] wf by (simp_all add: wf_ilit_def cm_wf_def)
  have occ: "occ_ok (occ_of M ?l)" "occ_ok (occ_of M ?l')" using wf l unfolding cm_wf_def by blast+
  have sat: "clause_sat M i = (\<exists>l\<in>set (cm_clauses M ! i). litIsAssignedToTrue M l)" if "i < length (cm_clauses M)" for i
    using assms(2) that by (simp add: current_ok_def)
  have "(?l \<in> set (cm_clauses M ! i) \<or> ?l' \<in> set (cm_clauses M ! i)) = (v \<in> ilit_var ` set (cm_clauses M ! i))"
    if "i < length (cm_clauses M)" for i
  proof -
    have "wf_ilit (fm_nbVar M) x" if "x \<in> set (cm_clauses M ! i)" for x
      using wf that \<open>i < length (cm_clauses M)\<close> unfolding cm_wf_def by (meson nth_mem)
    then show ?thesis using var_lit l(3,4) by (metis (no_types, lifting) image_iff)
  qed
  then show "set (var_clauses M v) = {i. i < length (cm_clauses M) \<and>
      \<not> (\<exists>l\<in>set (cm_clauses M ! i). litIsAssignedToTrue M l) \<and> v \<in> ilit_var ` set (cm_clauses M ! i)}"
    using windows_set(1) [OF win l(1) occ(1)] windows_set(1) [OF win l(2) occ(2)] sat
    unfolding var_clauses_def getVecIdxClause_def set_append by blast
  have len: "length (getClauses d) = do_nbBin d + do_nbNotBin d" if "occ_ok d" for d
    using that by (auto simp: getClauses_def occ_ok_def)
  show "isFreeVariable M v \<longleftrightarrow> var_clauses M v = []"
    using len [OF occ(1)] len [OF occ(2)] ilit_neg_make [of v False] assms(3) n
    by (auto simp: isFreeVariable_def getNbOccurrence_def getNbClauseLit_def var_clauses_def getVecIdxClause_def
        make_true_false [symmetric])
qed

lemma linked_pairs:
  fixes vs :: "int list"
  defines "active M \<equiv> filter (\<lambda>v. \<not> varIsAssigned M v) vs"
  assumes "dyn_ok M" "current_ok M" "\<forall>v\<in>set vs. 1 \<le> v \<and> v \<le> fm_nbVar M" "u \<in> set (active M)" "w \<in> set (active M)"
  shows "(nat u, nat w) \<in> conn (pairs M (set (active M))) \<longleftrightarrow> (u, w) \<in> (linked M vs)\<^sup>*"
proof -
  let ?E = "pairs M (set (active M))"
  let ?S = "{(x, y). \<exists>c. (x, c) \<in> ?E \<and> (y, c) \<in> ?E}"
  have rng: "1 \<le> v" "v \<le> fm_nbVar M" if "v \<in> set (active M)" for v using that assms(4) by (auto simp: active_def)
  have pos: "0 \<le> v" if "v \<in> set (active M)" for v using rng(1) [OF that] by simp
  have S: "(nat x, nat y) \<in> ?S \<longleftrightarrow> (x, y) \<in> linked M vs" if "x \<in> set (active M)" "y \<in> set (active M)" for x y
  proof -
    have "(nat z, i + nat (fm_nbVar M) + 1) \<in> ?E \<longleftrightarrow> i \<in> set (var_clauses M z)" if "z \<in> set (active M)" for z i
    proof -
      have "z' = z" if "nat z' = nat z" "z' \<in> set (active M)" for z'
        using that pos [OF that(2)] pos [OF \<open>z \<in> set (active M)\<close>] by (simp add: eq_nat_nat_iff)
      then show ?thesis using that unfolding pairs_def by fastforce
    qed
    note mem = this
    have clause: "\<exists>i. c = i + nat (fm_nbVar M) + 1" if "(z, c) \<in> ?E" for z c using that by (auto simp: pairs_def)
    have "(nat x, nat y) \<in> ?S \<longleftrightarrow> (\<exists>c. (nat x, c) \<in> ?E \<and> (nat y, c) \<in> ?E)" by simp
    also have "\<dots> \<longleftrightarrow> (\<exists>i. (nat x, i + nat (fm_nbVar M) + 1) \<in> ?E \<and> (nat y, i + nat (fm_nbVar M) + 1) \<in> ?E)"
    proof
      assume "\<exists>c. (nat x, c) \<in> ?E \<and> (nat y, c) \<in> ?E"
      then obtain c where c: "(nat x, c) \<in> ?E" "(nat y, c) \<in> ?E" by blast
      then obtain i where "c = i + nat (fm_nbVar M) + 1" using clause by blast
      then show "\<exists>i. (nat x, i + nat (fm_nbVar M) + 1) \<in> ?E \<and> (nat y, i + nat (fm_nbVar M) + 1) \<in> ?E" using c by blast
    qed blast
    also have "\<dots> \<longleftrightarrow> (\<exists>i. i \<in> set (var_clauses M x) \<and> i \<in> set (var_clauses M y))"
      unfolding mem [OF that(1)] mem [OF that(2)] ..
    also have "\<dots> \<longleftrightarrow> (x, y) \<in> linked M vs"
      using that var_clauses_set(1) [OF assms(2,3) rng [OF that(1)]] var_clauses_set(1) [OF assms(2,3) rng [OF that(2)]]
      by (auto simp: linked_def active_def)
    finally show ?thesis .
  qed
  have dom: "\<exists>y'\<in>set (active M). y = nat y'" if "(x, y) \<in> ?S" for x y using that by (auto simp: pairs_def)
  have l1: "(u, w') \<in> (linked M vs)\<^sup>* \<Longrightarrow> (nat u, nat w') \<in> ?S\<^sup>* \<and> w' \<in> set (active M)" for w'
  proof (induction rule: rtrancl_induct)
    case (step y z)
    have "z \<in> set (active M)" using step.hyps(2) by (auto simp: linked_def active_def)
    then show ?case using step.IH step.hyps(2) S [of y z] by (auto intro: rtrancl_into_rtrancl)
  qed (use assms(5) in simp)
  have l2: "(nat u, x) \<in> ?S\<^sup>* \<Longrightarrow> \<exists>w'\<in>set (active M). x = nat w' \<and> (u, w') \<in> (linked M vs)\<^sup>*" for x
  proof (induction rule: rtrancl_induct)
    case (step y z)
    obtain y' where y: "y' \<in> set (active M)" "y = nat y'" "(u, y') \<in> (linked M vs)\<^sup>*" using step.IH by blast
    obtain z' where z: "z' \<in> set (active M)" "z = nat z'" using dom [OF step.hyps(2)] by blast
    have "(y', z') \<in> linked M vs"
      by (rule iffD1 [OF S [OF y(1) z(1)]]) (use step.hyps(2) y(2) z(2) in simp)
    with y(3) have "(u, z') \<in> (linked M vs)\<^sup>*" by (rule rtrancl_into_rtrancl)
    then show ?case using z by blast
  qed (use assms(5) in auto)
  have "fst ` ?E \<subseteq> nat ` set (active M)" by (auto simp: pairs_def)
  moreover have "nat ` set (active M) \<inter> snd ` ?E = {}" using rng by (fastforce simp: pairs_def)
  ultimately have "(nat u, nat w) \<in> conn ?E \<longleftrightarrow> (nat u, nat w) \<in> ?S\<^sup>*"
    using conn_bipartite [of ?E "nat ` set (active M)" "nat u" "nat w"] conn_shared [of "nat u" "nat w" ?E] assms(5,6) by blast
  also have "\<dots> \<longleftrightarrow> (u, w) \<in> (linked M vs)\<^sup>*"
    using l1 [of w] l2 [of "nat w"] pos assms(6) by (auto simp: eq_nat_nat_iff)
  finally show ?thesis .
qed

lemma components_found:
  fixes vs :: "int list"
  defines "active M \<equiv> filter (\<lambda>v. \<not> varIsAssigned M v) vs"
  assumes "dyn_ok M" "current_ok M" "clusters_ok M" "distinct vs" "\<forall>v\<in>set vs. 1 \<le> v \<and> v \<le> fm_nbVar M"
  shows "\<exists>C rootSet root C' M'. collected (length C) (nat ` set (active M)) (pairs M (set (active M))) root (active M) C
      (map (\<lambda>r. filter (\<lambda>v. nat v \<in> fst ` pairs M (set (active M)) \<and> root (nat v) = r) (active M)) rootSet) rootSet
      (filter (\<lambda>v. nat v \<notin> fst ` pairs M (set (active M))) (active M)) \<and>
    computeConnectedComponent [] vs M =
      Some (map (\<lambda>r. filter (\<lambda>v. nat v \<in> fst ` pairs M (set (active M)) \<and> root (nat v) = r) (active M)) rootSet,
        filter (\<lambda>v. nat v \<notin> fst ` pairs M (set (active M))) (active M), M') \<and>
    M' = M\<lparr>cm_infoCluster := C'\<rparr> \<and> clusters_ok M'"
proof -
  let ?n = "nat (fm_nbVar M)" and ?m = "length (cm_clauses M)" and ?A = "nat ` set (active M)"
  let ?E = "pairs M (set (active M))"
  let ?reset = "fold (\<lambda>v C. C[nat v := (C ! nat v)\<lparr>ic_parent := nat v, ic_size := 1\<rparr>]) vs (cm_infoCluster M)"
  note cl = assms(4) [unfolded clusters_ok_def]
  have rng: "\<forall>v\<in>set (active M). 1 \<le> v \<and> v \<le> fm_nbVar M" using assms(6) by (simp add: active_def)
  have sub: "?A \<subseteq> {..<length (cm_infoCluster M)}" "?A \<subseteq> {..?n}" using rng cl by auto
  have "forest ?A {} ?reset"
    unfolding forest_def using reset_clusters [of vs "cm_infoCluster M"] sub cl
    by (intro conjI classes_init) (auto simp: active_def)
  then have "visiting ?n ?m ?A (pairs M {}) (?reset, cm_markView M, cm_mustUnMark M)"
    using reset_clusters [of vs "cm_infoCluster M"] sub cl by (simp add: visiting_def pairs_def)
  note vis = this
  have "set (var_clauses M v) \<subseteq> {..<?m}" if "v \<in> set (active M)" for v
    using var_clauses_set(1) [OF assms(2,3), of v] rng that by auto
  then have r0: "\<forall>v\<in>{} \<union> set (active M). 0 \<le> v \<and> set (var_clauses M v) \<subseteq> {..<?m}" using rng by auto
  have "distinct (active M)" using assms(5) by (simp add: active_def)
  note vv = visit_vars_ok [OF vis order_refl this _ r0]
  obtain s where s: "visit_vars M (active M) (?reset, cm_markView M, cm_mustUnMark M) = Some s"
      "visiting ?n ?m ?A ?E s"
    using vv by auto
  obtain C1 mark undo where s': "s = (C1, mark, undo)" by (cases s) auto
  have v: "forest ?A ?E C1" "length C1 = ?n + ?m + 1" "length mark = ?m" "\<forall>x<length C1. ic_pos (C1 ! x) = -1"
    "\<And>i. i < length mark \<Longrightarrow> mark ! i \<Longrightarrow> i \<in> set undo"
    using s(2) unfolding s' visiting_def by auto
  have "\<forall>x\<in>?A. \<exists>r. rep (parent_of C1) x r" using classes_okD(4) v(1) unfolding forest_def by fast
  then obtain root where root: "\<forall>x\<in>?A. rep (parent_of C1) x (root x)" by metis
  have "collected (length C1) ?A ?E root [] C1 [] [] []" using v root by (simp add: collected_def)
  then obtain C2 varCo rootSet freeVar where c: "collect_vars (active M) C1 [] [] [] = Some (C2, varCo, rootSet, freeVar)"
    "collected (length C1) ?A ?E root (active M) C2 varCo rootSet freeVar"
    using collect_vars_ok [of "length C1" ?A ?E root "[]" C1 "[]" "[]" "[]" "active M"] by auto
  have eqs: "varCo = map (\<lambda>r. filter (\<lambda>v. nat v \<in> fst ` ?E \<and> root (nat v) = r) (active M)) rootSet"
    "freeVar = filter (\<lambda>v. nat v \<notin> fst ` ?E) (active M)" "\<forall>x<length C2. x \<notin> set rootSet \<longrightarrow> ic_pos (C2 ! x) = -1"
    using c(2) unfolding collected_def by blast+
  let ?C3 = "fold (\<lambda>r C. C[r := (C ! r)\<lparr>ic_pos := -1\<rparr>]) rootSet C2"
  have marks: "fold (\<lambda>idx mv. mv[idx := False]) undo mark = cm_markView M" using reset_marks [OF v(5)] v(3) cl by simp
  have len: "length C2 = length C1" using c(2) by (simp add: collected_def)
  then have "clusters_ok (M\<lparr>cm_infoCluster := ?C3\<rparr>)"
    using len reset_positions [of rootSet C2] eqs(3) cl v(2) by (auto simp: clusters_ok_def)
  moreover have "computeConnectedComponent [] vs M = Some (varCo, freeVar, M\<lparr>cm_infoCluster := ?C3\<rparr>)"
    using s(1) c(1) marks cl unfolding s' by (simp add: computeConnectedComponent_def Let_def active_def varIsAssigned_def resetUnMark_def)
  ultimately show ?thesis using c(2) unfolding eqs(1,2) len [symmetric] by blast
qed

section \<open>Properties\<close>

text \<open>C22: \<open>computeConnectedComponent\<close> always returns; it splits the unassigned variables it is given into the free
  ones and the connected components of the current formula: every other variable is in exactly one group, no group is
  empty, and two variables are in the same group exactly when a chain of clauses that are not satisfied links them. The
  marks and positions it uses are reset.\<close>

theorem components_correct:
  assumes "dyn_ok M" "current_ok M" "clusters_ok M" "distinct vs" "\<forall>v\<in>set vs. 1 \<le> v \<and> v \<le> fm_nbVar M"
  shows "\<exists>groups C'. computeConnectedComponent [] vs M =
      Some (groups, filter (\<lambda>v. \<not> varIsAssigned M v \<and> isFreeVariable M v) vs, M\<lparr>cm_infoCluster := C'\<rparr>) \<and>
    mset (concat groups) = mset (filter (\<lambda>v. \<not> varIsAssigned M v \<and> \<not> isFreeVariable M v) vs) \<and> [] \<notin> set groups \<and>
    (\<forall>g\<in>set groups. \<forall>u\<in>set g. \<forall>w\<in>set (concat groups). w \<in> set g \<longleftrightarrow> (u, w) \<in> (linked M vs)\<^sup>*) \<and>
    clusters_ok (M\<lparr>cm_infoCluster := C'\<rparr>)"
proof -
  let ?act = "filter (\<lambda>v. \<not> varIsAssigned M v) vs"
  let ?E = "pairs M (set ?act)" and ?A = "nat ` set ?act"
  have rng: "1 \<le> v" "v \<le> fm_nbVar M" if "v \<in> set ?act" for v using that assms(5) by auto
  obtain C rootSet root C' where c: "collected (length C) ?A ?E root ?act C
      (map (\<lambda>r. filter (\<lambda>v. nat v \<in> fst ` ?E \<and> root (nat v) = r) ?act) rootSet) rootSet
      (filter (\<lambda>v. nat v \<notin> fst ` ?E) ?act)"
    and comp: "computeConnectedComponent [] vs M =
      Some (map (\<lambda>r. filter (\<lambda>v. nat v \<in> fst ` ?E \<and> root (nat v) = r) ?act) rootSet,
        filter (\<lambda>v. nat v \<notin> fst ` ?E) ?act, M\<lparr>cm_infoCluster := C'\<rparr>)"
    and cl: "clusters_ok (M\<lparr>cm_infoCluster := C'\<rparr>)"
    using components_found [OF assms] by blast
  let ?groups = "map (\<lambda>r. filter (\<lambda>v. nat v \<in> fst ` ?E \<and> root (nat v) = r) ?act) rootSet"
  have d: "classes_ok ?A ?E (parent_of C) (size_of C)" "\<forall>x\<in>?A. rep (parent_of C) x (root x)" "distinct rootSet"
    "set rootSet = root ` nat ` {v \<in> set ?act. nat v \<in> fst ` ?E}"
    using c unfolding collected_def forest_def by blast+
  have key: "nat v \<in> fst ` ?E \<longleftrightarrow> \<not> isFreeVariable M v" if v: "v \<in> set ?act" for v
  proof -
    have inj: "u = v" if "u \<in> set ?act" "nat u = nat v" for u
      using rng(1) [OF that(1)] rng(1) [OF v] that(2) by (simp add: eq_nat_nat_iff)
    have "nat v \<in> fst ` ?E \<longleftrightarrow> (\<exists>u\<in>set ?act. nat u = nat v \<and> var_clauses M u \<noteq> [])"
      by (rule fst_pairs)
    also have "\<dots> \<longleftrightarrow> var_clauses M v \<noteq> []"
      using v inj by blast
    finally show ?thesis using var_clauses_set(2) [OF assms(1,2) rng [OF v]] by simp
  qed
  have "filter (\<lambda>v. nat v \<notin> fst ` ?E) ?act = filter (\<lambda>v. isFreeVariable M v) ?act"
    "filter (\<lambda>v. nat v \<in> fst ` ?E) ?act = filter (\<lambda>v. \<not> isFreeVariable M v) ?act"
    by (rule filter_cong [OF refl], simp only: key not_not)+
  then have parts: "filter (\<lambda>v. nat v \<notin> fst ` ?E) ?act = filter (\<lambda>v. \<not> varIsAssigned M v \<and> isFreeVariable M v) vs"
    "filter (\<lambda>v. nat v \<in> fst ` ?E) ?act = filter (\<lambda>v. \<not> varIsAssigned M v \<and> \<not> isFreeVariable M v) vs"
    by (simp_all add: conj_commute)
  have "mset (concat ?groups) = mset (filter (\<lambda>v. nat v \<in> fst ` ?E) ?act)"
    by (intro mset_groups d(3)) (use d(4) in blast)
  then have all: "mset (concat ?groups) = mset (filter (\<lambda>v. \<not> varIsAssigned M v \<and> \<not> isFreeVariable M v) vs)"
    unfolding parts(2) .
  have nonempty: "filter (\<lambda>v. nat v \<in> fst ` ?E \<and> root (nat v) = r) ?act \<noteq> []" if r: "r \<in> set rootSet" for r
  proof -
    obtain v where "v \<in> {v \<in> set ?act. nat v \<in> fst ` ?E}" "r = root (nat v)" using r unfolding d(4) by blast
    then have "v \<in> set (filter (\<lambda>v. nat v \<in> fst ` ?E \<and> root (nat v) = r) ?act)" by simp
    then show ?thesis by (metis empty_iff list.set(1))
  qed
  have same: "w \<in> set g \<longleftrightarrow> (u, w) \<in> (linked M vs)\<^sup>*"
    if g: "g \<in> set ?groups" "u \<in> set g" "w \<in> set (concat ?groups)" for g u w
  proof -
    obtain r where r: "g = filter (\<lambda>v. nat v \<in> fst ` ?E \<and> root (nat v) = r) ?act" using g(1) by auto
    have u: "u \<in> set ?act" "nat u \<in> ?A" "root (nat u) = r" using g(2) r by auto
    have w: "w \<in> set ?act" "nat w \<in> ?A" "nat w \<in> fst ` ?E" using g(3) by auto
    have "w \<in> set g \<longleftrightarrow> root (nat u) = root (nat w)" using w r u by auto
    also have "\<dots> \<longleftrightarrow> (nat u, nat w) \<in> conn ?E" using classes_okD(5) [OF d(1)] u(2) w(2) d(2) by blast
    also have "\<dots> \<longleftrightarrow> (u, w) \<in> (linked M vs)\<^sup>*" by (rule linked_pairs [OF assms(1,2,5) u(1) w(1)])
    finally show ?thesis .
  qed
  have "[] \<notin> set ?groups" using nonempty unfolding set_map image_iff by (metis (no_types, lifting))
  then show ?thesis using comp all same cl unfolding parts(1) by blast
qed

lemma demo_clusters: "clusters_ok (mkCnfManagerDyn demo_cnf False)"
  by (simp add: clusters_ok_def mkCnfManagerDyn_def mkCnfManager_def Let_def CnfManager.extend_def demo_cnf_def
      pm_of_parts_def nth_replicate map_replicate_const nat_add_distrib)

lemma components_correct_witness:
  "\<exists>groups C'. computeConnectedComponent [] [3, 1, 2] (mkCnfManagerDyn demo_cnf False) =
      Some (groups, filter (\<lambda>v. \<not> varIsAssigned (mkCnfManagerDyn demo_cnf False) v \<and>
        isFreeVariable (mkCnfManagerDyn demo_cnf False) v) [3, 1, 2], (mkCnfManagerDyn demo_cnf False)\<lparr>cm_infoCluster := C'\<rparr>) \<and>
    [] \<notin> set groups"
proof -
  let ?M = "mkCnfManagerDyn demo_cnf False"
  have ok: "dyn_ok ?M" "current_ok ?M" using mk_ok [OF demo_cnf_wf, of False] by blast+
  have "distinct [3, 1, 2 :: int]" "\<forall>v\<in>set [3, 1, 2]. 1 \<le> v \<and> v \<le> fm_nbVar ?M"
    by (simp_all add: demo_cnf_def pm_of_parts_def)
  note components_correct [OF ok demo_clusters this]
  then show ?thesis by blast
qed

section \<open>The labelling ends\<close>

text \<open>Every step of the labelling trades a variable without label for a variable to do.\<close>

definition todo :: "label_state \<Rightarrow> nat" where
  "todo = (\<lambda>(mark, undo, v, tmp). length (filter (\<lambda>x. x = 0) v) + length tmp)"

text \<open>The labels cover the variables and what is to do are variables.\<close>

definition labels_ok :: "int \<Rightarrow> label_state \<Rightarrow> bool" where
  "labels_ok n = (\<lambda>(mark, undo, v, tmp). length v = nat (n + 1) \<and> (\<forall>x\<in>set tmp. 1 \<le> x \<and> x \<le> n))"

lemma zeros_update: "k < length v \<Longrightarrow> v ! k = 0 \<Longrightarrow> c \<noteq> 0 \<Longrightarrow>
    length (filter (\<lambda>x. x = 0) (v[k := c])) + 1 = length (filter (\<lambda>x::int. x = 0) v)"
  by (induction v arbitrary: k) (auto split: nat.splits simp: less_Suc_eq_0_disj)

lemma label_lit_step:
  assumes "wf_ilit n l" "nb \<noteq> 0" "labels_ok n (mark, undo, v, tmp)" "label_lit M nb l (v, tmp) = (v', tmp')"
  shows "labels_ok n (mark', undo', v', tmp') \<and> todo (mark', undo', v', tmp') = todo (mark, undo, v, tmp)"
  using assms zeros_update [of "nat (ilit_var l)" v nb]
  by (auto simp: label_lit_def labels_ok_def todo_def wf_ilit_def vget_def vset_def split: if_splits)

lemma label_lits_step:
  assumes "\<forall>l\<in>set ls. wf_ilit n l" "nb \<noteq> 0" "labels_ok n (mark, undo, v, tmp)" "fold (label_lit M nb) ls (v, tmp) = (v', tmp')"
  shows "labels_ok n (mark', undo', v', tmp') \<and> todo (mark', undo', v', tmp') = todo (mark, undo, v, tmp)"
  using assms(1,3,4)
proof (induction ls arbitrary: v tmp)
  case Nil
  then show ?case by (simp add: labels_ok_def todo_def)
next
  case (Cons l ls)
  obtain v1 tmp1 where s: "label_lit M nb l (v, tmp) = (v1, tmp1)" by fastforce
  have "labels_ok n (mark, undo, v1, tmp1) \<and> todo (mark, undo, v1, tmp1) = todo (mark, undo, v, tmp)"
    using label_lit_step [OF _ assms(2) Cons.prems(2) s] Cons.prems(1) by simp
  then show ?case using Cons.IH [of v1 tmp1] Cons.prems s by simp
qed

lemma label_clauses_step:
  assumes "\<forall>cl\<in>set (cm_clauses M). \<forall>l\<in>set cl. wf_ilit n l" "nb \<noteq> 0" "labels_ok n s" "set is \<subseteq> {..<length (cm_clauses M)}"
  shows "labels_ok n (fold (label_clause M nb) is s) \<and> todo (fold (label_clause M nb) is s) = todo s"
  using assms(3,4)
proof (induction "is" arbitrary: s)
  case (Cons i "is")
  obtain mark undo v tmp where s: "s = (mark, undo, v, tmp)" by (cases s) auto
  have "\<forall>l\<in>set (cm_clauses M ! i). wf_ilit n l" using assms(1) Cons.prems(2) nth_mem [of i "cm_clauses M"] by auto
  moreover obtain v' tmp' where f: "fold (label_lit M nb) (cm_clauses M ! i) (v, tmp) = (v', tmp')" by fastforce
  ultimately have "labels_ok n (label_clause M nb i s) \<and> todo (label_clause M nb i s) = todo s"
    using label_lits_step [OF _ assms(2) _ f, where mark' = "mark[i := True]" and undo' = "undo @ [i]"] Cons.prems(1)
    unfolding s by (simp add: label_clause_def)
  then show ?case using Cons by simp
qed simp

lemma connectedToLit_step:
  assumes "cm_wf M" "nb \<noteq> 0" "labels_ok (fm_nbVar M) s" "wf_ilit (fm_nbVar M) l"
  shows "labels_ok (fm_nbVar M) (connectedToLit M nb l s) \<and> todo (connectedToLit M nb l s) = todo s"
proof -
  have "set (do_mem (occ_of M l)) \<subseteq> {..<length (cm_clauses M)}" using assms(1,4) unfolding cm_wf_def by blast
  then have "set (getVecIdxClauseNotBin M l @ getVecIdxClauseBin M l) \<subseteq> {..<length (cm_clauses M)}"
    using windows_subset [of "occ_of M l"] unfolding getVecIdxClauseNotBin_def getVecIdxClauseBin_def by auto
  then show ?thesis using label_clauses_step [OF _ assms(2,3)] assms(1) unfolding connectedToLit_def cm_wf_def by blast
qed

lemma grow_component_returns:
  assumes "cm_wf M" "nb \<noteq> 0" "labels_ok (fm_nbVar M) s"
  shows "\<exists>cpt' s'. grow_component M nb cpt s = Some (cpt', s') \<and> labels_ok (fm_nbVar M) s'"
  using assms(3)
proof (induction "todo s" arbitrary: s cpt rule: less_induct)
  case less
  obtain mark undo v tmp where s: "s = (mark, undo, v, tmp)" by (cases s) auto
  show ?case
  proof (cases "tmp = []")
    case True
    then show ?thesis using less.prems by (subst grow_component.simps) (simp add: s)
  next
    case False
    let ?l = "ilit_make (last tmp) False"
    have "1 \<le> last tmp" "last tmp \<le> fm_nbVar M" "fm_nbVar M < 2 ^ 30"
      using less.prems False assms(1) by (auto simp: s labels_ok_def cm_wf_def)
    then have l: "wf_ilit (fm_nbVar M) ?l" by (simp add: wf_ilit_def)
    define s1 where "s1 = (mark, undo, v, butlast tmp)"
    define s2 where "s2 = (if getNbOccurrence M ?l \<noteq> 0 then connectedToLit M nb ?l s1 else s1)"
    define s3 where "s3 = (if getNbOccurrence M (ilit_neg ?l) \<noteq> 0 then connectedToLit M nb (ilit_neg ?l) s2 else s2)"
    have s1: "labels_ok (fm_nbVar M) s1" "todo s1 < todo s"
      using less.prems False by (auto simp: s s1_def labels_ok_def todo_def dest: in_set_butlastD)
    have s2: "labels_ok (fm_nbVar M) s2" "todo s2 = todo s1"
      using connectedToLit_step [OF assms(1,2) s1(1) l] s1(1) by (simp_all add: s2_def)
    have s3: "labels_ok (fm_nbVar M) s3" "todo s3 = todo s2"
      using connectedToLit_step [OF assms(1,2) s2(1) wf_neg [OF l]] s2(1) by (simp_all add: s3_def)
    have "grow_component M nb cpt s = grow_component M nb (cpt + 1) s3"
      using False by (subst grow_component.simps) (simp add: s s1_def s2_def s3_def Let_def)
    then show ?thesis using less.hyps [of s3 "cpt + 1"] s1(2) s2(2) s3 by simp
  qed
qed

lemma label_vars_returns:
  assumes "cm_wf M" "labels_ok (fm_nbVar M) s" "\<forall>x\<in>set xs. 1 \<le> x \<and> x \<le> fm_nbVar M" "0 \<le> nb"
  shows "\<exists>nb' s'. label_vars M isProjected xs nb s = Some (nb', s')"
  using assms
proof (induction M isProjected xs nb s rule: label_vars.induct [case_names Nil Cons])
  case (Nil M isProjected nb s)
  then show ?case by (cases s) simp
next
  case (Cons M isProjected x xs nb mark undo v tmp)
  show ?case
  proof (cases "vget (fm_currentValue M) x \<noteq> l_Undef \<or> vget v x \<noteq> 0 \<or> \<not> vget isProjected x")
    case True
    then show ?thesis using Cons.IH(1) [OF True] Cons.prems by simp
  next
    case False
    have ok: "labels_ok (fm_nbVar M) (mark, undo, vset v x (nb + 1), tmp @ [x])"
      using Cons.prems by (simp add: labels_ok_def)
    then obtain cpt mark' undo' v' tmp' where g: "grow_component M (nb + 1) 0 (mark, undo, vset v x (nb + 1), tmp @ [x]) =
        Some (cpt, mark', undo', v', tmp')" "labels_ok (fm_nbVar M) (mark', undo', v', tmp')"
      using grow_component_returns [OF Cons.prems(1) _ ok, of "nb + 1" 0] Cons.prems(4) by auto
    have "labels_ok (fm_nbVar M) (mark', undo', vset v' x 0, tmp')" using g(2) by (simp add: labels_ok_def)
    then show ?thesis using Cons.IH(2,3) [OF False g(1) refl refl refl refl] g Cons.prems False by simp
  qed
qed



end
