(* ===== verification/Discount_Options.thy ===== *)
theory Discount_Options
  imports Decimal Binary64
begin

text \<open>
  The command line of the distributed cube generator (\<open>src/option/\<close>): the option classes with their defaults, their
  printing, the help text and \<open>Option::parse\<close>. What the functions write to the standard output is part of their
  result.
\<close>

section \<open>Options\<close>

datatype OptionMethodType = METHOD_CUBE_GENERATOR | METHOD_COUNTER

datatype PreprocMethod = PREPROC_NONE | PREPROC_EQUIV | NB_PREPROC

datatype BranchingCubeHeuristic = RANDOM | VSADS | VSIDS | DLCS | MOM | JWTS | NB_BRANCHING_HEURISTIC

datatype PartialOrderCubeHeuristic = NONE | TREE_DECOMPOSITION | NB_PARTIAL_ORDER_HEURISTIC

datatype CounterMethod = COUNTER_D4 | COUNTER_SHARPSATTD | NB_COUNTER

datatype PartialOrderCounter = PARTIAL_ORDER_SHARE | PARTIAL_ORDER_COMPUTE | PARTIAL_ORDER_NO | NB_PARTIAL_ORDER

text \<open>The enumerators in order: the cast of an \<open>int\<close> and back.\<close>

definition enum_PreprocMethod :: "PreprocMethod list" where
  "enum_PreprocMethod = [PREPROC_NONE, PREPROC_EQUIV, NB_PREPROC]"

definition enum_BranchingCubeHeuristic :: "BranchingCubeHeuristic list" where
  "enum_BranchingCubeHeuristic = [RANDOM, VSADS, VSIDS, DLCS, MOM, JWTS, NB_BRANCHING_HEURISTIC]"

definition enum_PartialOrderCubeHeuristic :: "PartialOrderCubeHeuristic list" where
  "enum_PartialOrderCubeHeuristic = [NONE, TREE_DECOMPOSITION, NB_PARTIAL_ORDER_HEURISTIC]"

definition enum_CounterMethod :: "CounterMethod list" where
  "enum_CounterMethod = [COUNTER_D4, COUNTER_SHARPSATTD, NB_COUNTER]"

definition enum_PartialOrderCounter :: "PartialOrderCounter list" where
  "enum_PartialOrderCounter = [PARTIAL_ORDER_SHARE, PARTIAL_ORDER_COMPUTE, PARTIAL_ORDER_NO, NB_PARTIAL_ORDER]"

definition s_preprocMethod :: "string list" where
  "s_preprocMethod = [''none'', ''equiv'']"

definition s_branchingHeuristiCubeGenerator :: "string list" where
  "s_branchingHeuristiCubeGenerator = [''random'', ''vsads'', ''vsids'', ''dlcs'', ''mom'', ''jwts'']"

definition s_partialOrderHeuristicCubeGenerator :: "string list" where
  "s_partialOrderHeuristicCubeGenerator = [''none'', ''tree-decomposition'']"

definition s_counterMethod :: "string list" where
  "s_counterMethod = [''d4'', ''SharpSatTD'']"

definition s_partialOrderCounter :: "string list" where
  "s_partialOrderCounter = [''share'', ''compute'', ''no'']"

text \<open>The position of an enumerator, its name.\<close>

fun index_of :: "'a list \<Rightarrow> 'a \<Rightarrow> nat" where
  "index_of [] y = 0"
| "index_of (x # xs) y = (if x = y then 0 else Suc (index_of xs y))"

definition enum_name :: "string list \<Rightarrow> 'e list \<Rightarrow> 'e \<Rightarrow> string" where
  "enum_name names es e = names ! index_of es e"

definition DEFAULT_PREPROC :: PreprocMethod where "DEFAULT_PREPROC = PREPROC_EQUIV"
definition DEFAULT_PREPROC_TIMEOUT :: nat where "DEFAULT_PREPROC_TIMEOUT = 5"
definition DEFAULT_NB_CUBES_BY_WORKER :: nat where "DEFAULT_NB_CUBES_BY_WORKER = 30"
definition DEFAULT_CUBE_GENERATOR_BRANCHING_HEURISTIC :: BranchingCubeHeuristic where
  "DEFAULT_CUBE_GENERATOR_BRANCHING_HEURISTIC = VSADS"
definition DEFAULT_CUBE_GENERATOR_PARTIAL_ORDER_HEURISTIC :: PartialOrderCubeHeuristic where
  "DEFAULT_CUBE_GENERATOR_PARTIAL_ORDER_HEURISTIC = TREE_DECOMPOSITION"
definition DEFAULT_BUDGET_TREE_DECOMP :: nat where "DEFAULT_BUDGET_TREE_DECOMP = 10"
definition DEFAULT_COUNTER :: CounterMethod where "DEFAULT_COUNTER = COUNTER_D4"
definition DEFAULT_PARTIAL_ORDER_COUNTER :: PartialOrderCounter where
  "DEFAULT_PARTIAL_ORDER_COUNTER = PARTIAL_ORDER_COMPUTE"

record Option =
  op_pathFormula :: string
  op_optionMethodType :: OptionMethodType
  op_preprocMethod :: PreprocMethod
  op_preprocTimeout :: nat
  op_verbosity :: bool

record OptionCubeGenerator = Option +
  og_budgetTreeDecomp :: nat
  og_nbCubeByWorker :: nat
  og_branchingHeuristic :: BranchingCubeHeuristic
  og_partialOrderHeuristic :: PartialOrderCubeHeuristic

text \<open>\<open>m_scaleFactor\<close> is not initialised: \<open>None\<close> until it is set.\<close>

record OptionCounter = Option +
  oc_counterMethod :: CounterMethod
  oc_optionCubeGenerator :: OptionCubeGenerator
  oc_partialOrderCounter :: PartialOrderCounter
  oc_partialOrder :: "double list"
  oc_scaleFactor :: "double option"

datatype option_error = RuntimeError string | StoiException

definition mkOptionCubeGenerator ::
  "string \<Rightarrow> nat \<Rightarrow> BranchingCubeHeuristic \<Rightarrow> PartialOrderCubeHeuristic \<Rightarrow> nat \<Rightarrow> OptionCubeGenerator" where
  "mkOptionCubeGenerator path nbCube branchingHeuristic partialOrderHeuristic budget =
     \<lparr>op_pathFormula = path, op_optionMethodType = METHOD_CUBE_GENERATOR, op_preprocMethod = DEFAULT_PREPROC,
      op_preprocTimeout = DEFAULT_PREPROC_TIMEOUT, op_verbosity = False,
      og_budgetTreeDecomp = budget, og_nbCubeByWorker = nbCube,
      og_branchingHeuristic = branchingHeuristic, og_partialOrderHeuristic = partialOrderHeuristic\<rparr>"

definition mkGiven ::
  "nat \<Rightarrow> BranchingCubeHeuristic \<Rightarrow> PartialOrderCubeHeuristic \<Rightarrow> nat \<Rightarrow> OptionCubeGenerator" where
  "mkGiven nbCube branchingHeuristic partialOrderHeuristic budget =
     mkOptionCubeGenerator ''/dev/null'' nbCube branchingHeuristic partialOrderHeuristic budget"

definition mkOptionCounter ::
  "string \<Rightarrow> string \<Rightarrow> OptionCubeGenerator \<Rightarrow> PartialOrderCounter \<Rightarrow> option_error + OptionCounter" where
  "mkOptionCounter path counterMethod optionCubeGenerator partialOrderCounter =
     (let made = (\<lambda>m. Inr \<lparr>op_pathFormula = path, op_optionMethodType = METHOD_COUNTER, op_preprocMethod = DEFAULT_PREPROC,
            op_preprocTimeout = DEFAULT_PREPROC_TIMEOUT, op_verbosity = False, oc_counterMethod = m,
            oc_optionCubeGenerator = optionCubeGenerator, oc_partialOrderCounter = partialOrderCounter,
            oc_partialOrder = [], oc_scaleFactor = None\<rparr>)
      in if counterMethod = ''d4'' \<or> counterMethod = ''D4'' then made COUNTER_D4
         else if counterMethod = ''SharpSatTD'' \<or> counterMethod = ''sstd'' then made COUNTER_SHARPSATTD
         else Inl (RuntimeError (counterMethod @ ''is not an available counter.'')))"

definition setCounterMethod :: "CounterMethod \<Rightarrow> OptionCounter \<Rightarrow> OptionCounter" where
  "setCounterMethod counterMethod o1 = o1\<lparr>oc_counterMethod := counterMethod\<rparr>"

definition setPartialOrder :: "double list \<Rightarrow> OptionCounter \<Rightarrow> OptionCounter" where
  "setPartialOrder order o1 = o1\<lparr>oc_partialOrder := order\<rparr>"

definition setScaleFactor :: "double \<Rightarrow> OptionCounter \<Rightarrow> OptionCounter" where
  "setScaleFactor v o1 = o1\<lparr>oc_scaleFactor := Some v\<rparr>"

section \<open>Printing\<close>

definition show_unsigned :: "nat \<Rightarrow> string" where
  "show_unsigned n = show_int (int n)"

definition displayCubeGenerator :: "OptionCubeGenerator \<Rightarrow> string" where
  "displayCubeGenerator g =
     ''c The number of cubes by worker is: '' @ show_unsigned (og_nbCubeByWorker g) @ [newline] @
     ''c The approach used for generating the cubes is:'' @ [newline] @
     ''c'' @ [CHR 0x09] @ ''-branching heuristic: '' @
       enum_name s_branchingHeuristiCubeGenerator enum_BranchingCubeHeuristic (og_branchingHeuristic g) @ [newline] @
     ''c'' @ [CHR 0x09] @ ''-partial order heuristic: '' @
       enum_name s_partialOrderHeuristicCubeGenerator enum_PartialOrderCubeHeuristic (og_partialOrderHeuristic g) @ [newline] @
     ''c'' @ [CHR 0x09] @ ''-budget (in seconds) for computing the partial order: '' @
       show_unsigned (og_budgetTreeDecomp g) @ [newline]"

definition displayCounter :: "OptionCounter \<Rightarrow> string" where
  "displayCounter c =
     ''c The instance we are considering is: '' @ op_pathFormula c @ [newline] @
     ''c The underlying counter used is: '' @ enum_name s_counterMethod enum_CounterMethod (oc_counterMethod c) @ [newline] @
     ''c The partial order heuristic used by the counter: '' @
       enum_name s_partialOrderCounter enum_PartialOrderCounter (oc_partialOrderCounter c) @ [newline] @
     ''c The preprocessing used is: '' @ enum_name s_preprocMethod enum_PreprocMethod (op_preprocMethod c) @ [newline] @
     ''c The budget given for computing the backbone is: '' @ show_unsigned (op_preprocTimeout c) @ [newline] @
     displayCubeGenerator (oc_optionCubeGenerator c)"

text \<open>The names of an enumeration, one per line, the default marked.\<close>

definition help_names :: "string \<Rightarrow> string list \<Rightarrow> 'e list \<Rightarrow> 'e \<Rightarrow> string" where
  "help_names head names es dflt = concat (map (\<lambda>i. head @ names ! i @ '' '' @
     (if i = index_of es dflt then ''(default)'' else []) @ [newline]) [0..<length names])"

definition helpBranchingCubeHeuristic :: "string \<Rightarrow> string" where
  "helpBranchingCubeHeuristic head = help_names head s_branchingHeuristiCubeGenerator enum_BranchingCubeHeuristic
     DEFAULT_CUBE_GENERATOR_BRANCHING_HEURISTIC"

definition helpPartialOrderCubeHeuristic :: "string \<Rightarrow> string" where
  "helpPartialOrderCubeHeuristic head = help_names head s_partialOrderHeuristicCubeGenerator
     enum_PartialOrderCubeHeuristic DEFAULT_CUBE_GENERATOR_PARTIAL_ORDER_HEURISTIC"

definition helpPartialOrderCounterHeuristic :: "string \<Rightarrow> string" where
  "helpPartialOrderCounterHeuristic head = help_names head s_partialOrderCounter enum_PartialOrderCounter
     DEFAULT_PARTIAL_ORDER_COUNTER"

definition helpCounterMethod :: "string \<Rightarrow> string" where
  "helpCounterMethod head = help_names head s_counterMethod enum_CounterMethod DEFAULT_COUNTER"

definition tabs :: "nat \<Rightarrow> string" where
  "tabs n = replicate n (CHR 0x09)"

definition help_text :: "string list \<Rightarrow> string" where
  "help_text argv =
     ''[USAGE] mpirun -np NB_PROC '' @ hd argv @ '' -m METHOD -i CNF [OPTIONS]'' @ [newline, newline] @
     tabs 1 @ ''NB_PROC: The number of processes to launch. Must be greater than 2.'' @ [newline] @
     tabs 1 @ ''METHOD: The method to execute (either 'cube-generator' or 'counter').'' @ [newline] @
     tabs 1 @ ''CNF: The file path to a formula in CNF format.'' @ [newline, newline] @
     ''Available methods:'' @ [newline] @
     tabs 1 @ ''-cube-generator: Generates a set of cubes only.'' @ [newline] @
     tabs 1 @ ''-counter: Counts the number of models using a cube-and-conquer approach.'' @ [newline, newline] @
     ''Available OPTIONS:'' @ [newline] @
     tabs 1 @ ''-verbosity BOOL: set the verbosity (default: false)'' @ [newline] @
     tabs 1 @ ''-preproc STRING: Set the preprocessing method used.'' @ [newline] @
     concat (map (\<lambda>i. tabs 2 @ ''* '' @ s_preprocMethod ! i @
       (if i = index_of enum_PreprocMethod DEFAULT_PREPROC then '' (default)'' else []) @ [newline])
       [0..<index_of enum_PreprocMethod NB_PREPROC]) @
     tabs 1 @ ''-preproc-timeout INT: Set the timeout for the preprocessing method used (default'' @
       show_unsigned DEFAULT_PREPROC_TIMEOUT @ '').'' @ [newline] @
     tabs 1 @ ''-cube-byWorker INT: Specifies the number of cubes per worker (default: '' @
       show_unsigned DEFAULT_NB_CUBES_BY_WORKER @ '').'' @ [newline] @
     tabs 1 @ ''-cube-generator-branching-heuristic STRING: Specifies the heuristic used for generating the cubes:'' @
       [newline] @ helpBranchingCubeHeuristic (tabs 2 @ ''* '') @
     tabs 1 @ ''-cube-generator-partial-order-heuristic STRING: Specifies the heuristic used for generating the cubes:'' @
       [newline] @ helpPartialOrderCubeHeuristic (tabs 2 @ ''* '') @
     tabs 1 @ ''-cube-generator-partial-order-budget INT: Specifies the budget allocated for computing the partial order '' @
       ''(default: '' @ show_unsigned DEFAULT_BUDGET_TREE_DECOMP @ '')'' @ [newline] @
     tabs 1 @ ''-counter-name STRING: Specifies the underlying counter to use:'' @ [newline] @
       helpCounterMethod (tabs 2 @ ''* '') @
     tabs 1 @ ''-counter-partial-order-heuristic STRING: Specifies the partial order heuristic for the counter:'' @ [newline] @
       helpPartialOrderCounterHeuristic (tabs 2 @ ''* '')"

section \<open>Parsing\<close>

text \<open>What was printed, and an exception or a result.\<close>

type_synonym 'a run = "string \<times> (option_error + 'a)"

definition then_run :: "'a run \<Rightarrow> ('a \<Rightarrow> 'b run) \<Rightarrow> 'b run" where
  "then_run r k = (case r of (out, Inl e) \<Rightarrow> (out, Inl e) | (out, Inr x) \<Rightarrow> (case k x of (out', y) \<Rightarrow> (out @ out', y)))"

definition getEnumValue :: "string list \<Rightarrow> string \<Rightarrow> string list \<Rightarrow> nat run" where
  "getEnumValue names s argv =
     (if s \<in> set names then ([], Inr (index_of names s))
      else (help_text argv, Inl (RuntimeError (''Error: the given option'' @ s @ '' is incorrect!''))))"

text \<open>An option that takes an enumerator, and one that takes a number: \<open>std::stoi\<close> stored in an \<open>unsigned\<close>.\<close>

definition enum_option :: "(string \<rightharpoonup> string) \<Rightarrow> string \<Rightarrow> string list \<Rightarrow> 'e list \<Rightarrow> 'e \<Rightarrow> string list \<Rightarrow> 'e run" where
  "enum_option m key names es dflt argv = (case m key of
     None \<Rightarrow> ([], Inr dflt)
   | Some s \<Rightarrow> then_run (getEnumValue names s argv) (\<lambda>i. ([], Inr (es ! i))))"

definition unsigned_option :: "(string \<rightharpoonup> string) \<Rightarrow> string \<Rightarrow> nat \<Rightarrow> nat run" where
  "unsigned_option m key dflt = (case m key of
     None \<Rightarrow> ([], Inr dflt)
   | Some s \<Rightarrow> (case stoi s of None \<Rightarrow> ([], Inl StoiException) | Some v \<Rightarrow> ([], Inr (nat (v mod 2 ^ 32)))))"

definition verbosity_option :: "(string \<rightharpoonup> string) \<Rightarrow> bool run" where
  "verbosity_option m = (case m ''-verbosity'' of
     None \<Rightarrow> ([], Inr False)
   | Some s \<Rightarrow> (''c set the verbosity to '' @ show_int (of_bool (s = ''true'')) @ [newline], Inr (s = ''true'')))"

datatype parsed = ParsedCubeGenerator OptionCubeGenerator | ParsedCounter OptionCounter

fun pair_args :: "string list \<Rightarrow> (string \<rightharpoonup> string) \<Rightarrow> (string \<rightharpoonup> string)" where
  "pair_args (a # b # rest) m = pair_args rest (m(a \<mapsto> b))"
| "pair_args _ m = m"

definition build_option ::
  "string list \<Rightarrow> (string \<rightharpoonup> string) \<Rightarrow> nat \<Rightarrow> nat \<Rightarrow> BranchingCubeHeuristic \<Rightarrow> PartialOrderCubeHeuristic \<Rightarrow>
   PartialOrderCounter \<Rightarrow> bool \<Rightarrow> PreprocMethod \<Rightarrow> nat \<Rightarrow> parsed option run" where
  "build_option argv m budget nbCubeByWorker branching partialOrder counterOrder verbosity preproc preprocTimeout =
     (if m ''-m'' = Some ''cube-generator'' then
        ([], Inr (Some (ParsedCubeGenerator
          ((mkOptionCubeGenerator (the (m ''-i'')) nbCubeByWorker branching partialOrder budget)
             \<lparr>op_verbosity := verbosity, op_preprocMethod := preproc, op_preprocTimeout := preprocTimeout\<rparr>))))
      else if m ''-m'' = Some ''counter'' then
        (let counterName = (case m ''-counter-name'' of None \<Rightarrow> ''D4'' | Some s \<Rightarrow> s);
             given = (mkGiven nbCubeByWorker branching partialOrder budget)
               \<lparr>op_verbosity := verbosity, op_preprocMethod := preproc\<rparr>
         in (case mkOptionCounter (the (m ''-i'')) counterName given counterOrder of
               Inl e \<Rightarrow> ([], Inl e)
             | Inr ret \<Rightarrow> ([], Inr (Some (ParsedCounter (ret
                 \<lparr>op_verbosity := verbosity, op_preprocMethod := preproc, op_preprocTimeout := preprocTimeout\<rparr>))))))
      else (help_text argv, Inr None))"

text \<open>\<open>None\<close> is the \<open>NULL\<close> the code returns after the help.\<close>

definition parse_options :: "string list \<Rightarrow> parsed option run" where
  "parse_options argv =
     (if odd (length argv - 1) then (help_text argv, Inr None)
      else let m = pair_args (tl argv) (\<lambda>_. None)
      in if m ''-i'' = None \<or> m ''-m'' = None then (help_text argv, Inr None)
      else then_run (unsigned_option m ''-cube-byWorker'' DEFAULT_NB_CUBES_BY_WORKER) (\<lambda>nbCubeByWorker.
        then_run (enum_option m ''-cube-generator-branching-heuristic'' s_branchingHeuristiCubeGenerator
          enum_BranchingCubeHeuristic DEFAULT_CUBE_GENERATOR_BRANCHING_HEURISTIC argv) (\<lambda>branching.
        then_run (verbosity_option m) (\<lambda>verbosity.
        then_run (enum_option m ''-cube-generator-partial-order-heuristic'' s_partialOrderHeuristicCubeGenerator
          enum_PartialOrderCubeHeuristic DEFAULT_CUBE_GENERATOR_PARTIAL_ORDER_HEURISTIC argv) (\<lambda>partialOrder.
        then_run (enum_option m ''-counter-partial-order-heuristic'' s_partialOrderCounter
          enum_PartialOrderCounter DEFAULT_PARTIAL_ORDER_COUNTER argv) (\<lambda>counterOrder.
        then_run (unsigned_option m ''-cube-generator-partial-order-budget'' DEFAULT_BUDGET_TREE_DECOMP) (\<lambda>budget.
        then_run (enum_option m ''-preproc'' s_preprocMethod enum_PreprocMethod DEFAULT_PREPROC argv) (\<lambda>preproc.
        then_run (unsigned_option m ''-preproc-timeout'' DEFAULT_PREPROC_TIMEOUT) (\<lambda>preprocTimeout.
          build_option argv m budget nbCubeByWorker branching partialOrder counterOrder verbosity preproc
            preprocTimeout)))))))))"

section \<open>Lemmas\<close>

lemma then_run_Inr: "then_run (out, Inr x) k = (out @ fst (k x), snd (k x))"
  by (simp add: then_run_def split: prod.splits)

lemma then_run_silent [simp]: "then_run ([], Inr x) k = k x"
  by (simp add: then_run_Inr)

lemma snd_then_run: "snd r = Inr x \<Longrightarrow> snd (then_run r k) = snd (k x)"
  by (cases r) (simp add: then_run_Inr)

lemma index_of_nth: "distinct xs \<Longrightarrow> i < length xs \<Longrightarrow> index_of xs (xs ! i) = i"
  by (induction xs arbitrary: i) (auto simp: nth_Cons split: nat.splits)

lemma nth_index_of: "y \<in> set xs \<Longrightarrow> xs ! index_of xs y = y"
  by (induction xs) auto

lemma index_of_less: "y \<in> set xs \<Longrightarrow> index_of xs y < length xs"
  by (induction xs) auto

text \<open>An enumerator that has a name is read back from it.\<close>

lemma getEnumValue_name:
  assumes "distinct names" "e \<in> set es" "index_of es e < length names"
  shows "then_run (getEnumValue names (enum_name names es e) argv) (\<lambda>i. ([], Inr (es ! i))) = ([], Inr e)"
  using assms nth_index_of [OF assms(2)] index_of_nth [OF assms(1,3)] by (simp add: getEnumValue_def enum_name_def)

lemma stoi_unsigned: "n < 2 ^ 31 \<Longrightarrow> stoi (show_unsigned n) = Some (int n)"
  by (simp add: show_unsigned_def stoi_show_int in_int32_def)

section \<open>Properties\<close>

text \<open>The command line that asks for given options of the cube generator.\<close>

definition cmdline :: "string \<Rightarrow> OptionCubeGenerator \<Rightarrow> string list" where
  "cmdline prog g = [prog, ''-i'', op_pathFormula g, ''-m'', ''cube-generator'',
     ''-preproc-timeout'', show_unsigned (op_preprocTimeout g),
     ''-preproc'', enum_name s_preprocMethod enum_PreprocMethod (op_preprocMethod g),
     ''-cube-generator-partial-order-budget'', show_unsigned (og_budgetTreeDecomp g),
     ''-cube-generator-partial-order-heuristic'',
       enum_name s_partialOrderHeuristicCubeGenerator enum_PartialOrderCubeHeuristic (og_partialOrderHeuristic g),
     ''-verbosity'', if op_verbosity g then ''true'' else ''false'',
     ''-cube-generator-branching-heuristic'',
       enum_name s_branchingHeuristiCubeGenerator enum_BranchingCubeHeuristic (og_branchingHeuristic g),
     ''-cube-byWorker'', show_unsigned (og_nbCubeByWorker g)]"

text \<open>Options whose values have names and whose numbers are in the range of \<open>std::stoi\<close>.\<close>

definition expressible :: "OptionCubeGenerator \<Rightarrow> bool" where
  "expressible g \<longleftrightarrow> op_optionMethodType g = METHOD_CUBE_GENERATOR \<and> op_preprocMethod g \<noteq> NB_PREPROC \<and>
     og_partialOrderHeuristic g \<noteq> NB_PARTIAL_ORDER_HEURISTIC \<and> og_branchingHeuristic g \<noteq> NB_BRANCHING_HEURISTIC \<and>
     op_preprocTimeout g < 2 ^ 31 \<and> og_budgetTreeDecomp g < 2 ^ 31 \<and> og_nbCubeByWorker g < 2 ^ 31"

lemma option_names:
  "x \<noteq> NB_PREPROC \<Longrightarrow> then_run (getEnumValue s_preprocMethod (enum_name s_preprocMethod enum_PreprocMethod x) argv)
     (\<lambda>i. ([], Inr (enum_PreprocMethod ! i))) = ([], Inr x)"
  "y \<noteq> NB_PARTIAL_ORDER_HEURISTIC \<Longrightarrow> then_run (getEnumValue s_partialOrderHeuristicCubeGenerator
     (enum_name s_partialOrderHeuristicCubeGenerator enum_PartialOrderCubeHeuristic y) argv)
     (\<lambda>i. ([], Inr (enum_PartialOrderCubeHeuristic ! i))) = ([], Inr y)"
  "z \<noteq> NB_BRANCHING_HEURISTIC \<Longrightarrow> then_run (getEnumValue s_branchingHeuristiCubeGenerator
     (enum_name s_branchingHeuristiCubeGenerator enum_BranchingCubeHeuristic z) argv)
     (\<lambda>i. ([], Inr (enum_BranchingCubeHeuristic ! i))) = ([], Inr z)"
  by (rule getEnumValue_name; cases x; cases y; cases z;
      simp add: s_preprocMethod_def enum_PreprocMethod_def s_partialOrderHeuristicCubeGenerator_def
        enum_PartialOrderCubeHeuristic_def s_branchingHeuristiCubeGenerator_def enum_BranchingCubeHeuristic_def)+

lemma unsigned_option_given:
  "m key = Some (show_unsigned n) \<Longrightarrow> n < 2 ^ 31 \<Longrightarrow> unsigned_option m key dflt = ([], Inr n)"
  by (simp add: unsigned_option_def stoi_unsigned)

lemma enum_option_given:
  "m key = Some s \<Longrightarrow> then_run (getEnumValue names s argv) (\<lambda>i. ([], Inr (es ! i))) = r \<Longrightarrow>
    enum_option m key names es dflt argv = r"
  by (simp add: enum_option_def)


definition demo_generator :: OptionCubeGenerator where
  "demo_generator = mkOptionCubeGenerator ''f.cnf'' 12 JWTS NONE 7"


text \<open>The options of the cube generator inside those of the counter keep the default timeout whatever the command line
  asks for, while those of the counter itself get it.\<close>

lemma counter_forgets_timeout:
  "(case snd (parse_options [''gen'', ''-i'', ''f.cnf'', ''-m'', ''counter'', ''-preproc-timeout'', ''60'']) of
      Inr (Some (ParsedCounter c)) \<Rightarrow> op_preprocTimeout (oc_optionCubeGenerator c) = 5 \<and> op_preprocTimeout c = 60
    | _ \<Rightarrow> False)"
  by code_simp

text \<open>When an exception is thrown.\<close>

definition fails :: "'a run \<Rightarrow> bool" where
  "fails r \<longleftrightarrow> (\<exists>e. snd r = Inl e)"

definition bad_number :: "(string \<rightharpoonup> string) \<Rightarrow> string \<Rightarrow> bool" where
  "bad_number m key \<longleftrightarrow> (\<exists>s. m key = Some s \<and> stoi s = None)"

definition bad_name :: "(string \<rightharpoonup> string) \<Rightarrow> string \<Rightarrow> string list \<Rightarrow> bool" where
  "bad_name m key names \<longleftrightarrow> (\<exists>s. m key = Some s \<and> s \<notin> set names)"

lemma fails_then_run:
  assumes "fails r = A" "\<And>x. fails (k x) = B"
  shows "fails (then_run r k) = (A \<or> B)"
proof (cases "snd r")
  case (Inl e)
  then show ?thesis using assms(1) by (cases r) (auto simp: fails_def then_run_def)
next
  case (Inr x)
  then have "snd (then_run r k) = snd (k x)" by (rule snd_then_run)
  then show ?thesis using assms(1) assms(2) [of x] Inr by (simp add: fails_def)
qed

lemma fails_unsigned_option: "fails (unsigned_option m key dflt) = bad_number m key"
  by (auto simp: fails_def unsigned_option_def bad_number_def split: option.splits)

lemma fails_enum_option: "fails (enum_option m key names es dflt argv) = bad_name m key names"
  by (auto simp: fails_def enum_option_def bad_name_def getEnumValue_def then_run_def split: option.splits)

lemma fails_verbosity_option: "fails (verbosity_option m) = False"
  by (auto simp: fails_def verbosity_option_def split: option.splits)

lemma fails_build_option: "fails (build_option argv m b n br po co v p t) =
    (m ''-m'' = Some ''counter'' \<and> bad_name m ''-counter-name'' [''d4'', ''D4'', ''SharpSatTD'', ''sstd''])"
  by (auto simp: fails_def build_option_def bad_name_def mkOptionCounter_def Let_def split: option.splits if_splits)

lemma parse_failures:
  fixes argv :: "string list"
  defines "m \<equiv> pair_args (tl argv) (\<lambda>_. None)"
  shows "if odd (length argv - 1) \<or> m ''-i'' = None \<or> m ''-m'' = None then parse_options argv = (help_text argv, Inr None)
    else fails (parse_options argv) =
      (bad_number m ''-cube-byWorker'' \<or>
       bad_name m ''-cube-generator-branching-heuristic'' s_branchingHeuristiCubeGenerator \<or>
       bad_name m ''-cube-generator-partial-order-heuristic'' s_partialOrderHeuristicCubeGenerator \<or>
       bad_name m ''-counter-partial-order-heuristic'' s_partialOrderCounter \<or>
       bad_number m ''-cube-generator-partial-order-budget'' \<or> bad_name m ''-preproc'' s_preprocMethod \<or>
       bad_number m ''-preproc-timeout'' \<or>
       m ''-m'' = Some ''counter'' \<and> bad_name m ''-counter-name'' [''d4'', ''D4'', ''SharpSatTD'', ''sstd''])"
proof (cases "odd (length argv - 1) \<or> m ''-i'' = None \<or> m ''-m'' = None")
  case True
  then show ?thesis by (auto simp: parse_options_def m_def Let_def)
next
  case False
  then have c: "odd (length argv - 1) = False" "(m ''-i'' = None \<or> m ''-m'' = None) = False" by auto
  have "fails (parse_options argv) =
      (bad_number m ''-cube-byWorker'' \<or>
       (bad_name m ''-cube-generator-branching-heuristic'' s_branchingHeuristiCubeGenerator \<or> (False \<or>
       (bad_name m ''-cube-generator-partial-order-heuristic'' s_partialOrderHeuristicCubeGenerator \<or>
       (bad_name m ''-counter-partial-order-heuristic'' s_partialOrderCounter \<or>
       (bad_number m ''-cube-generator-partial-order-budget'' \<or> (bad_name m ''-preproc'' s_preprocMethod \<or>
       (bad_number m ''-preproc-timeout'' \<or>
       m ''-m'' = Some ''counter'' \<and> bad_name m ''-counter-name'' [''d4'', ''D4'', ''SharpSatTD'', ''sstd'']))))))))"
    unfolding parse_options_def Let_def m_def [symmetric] c if_False
    by (intro fails_then_run fails_unsigned_option fails_enum_option
        fails_verbosity_option fails_build_option)
  then show ?thesis unfolding if_not_P [OF False] by (simp only: simp_thms)
qed

text \<open>A command line with a name without a value, without \<open>-i\<close> or without \<open>-m\<close> gives no options but the help; any
  other throws an exception exactly when a value given for an enumeration or for the counter is no name of it, or a
  number does not start with digits or is out of the range of \<open>int\<close>.\<close>

theorem options_rejected:
  "let m = pair_args (tl argv) (\<lambda>_. None) in
    if odd (length argv - 1) \<or> m ''-i'' = None \<or> m ''-m'' = None then parse_options argv = (help_text argv, Inr None)
    else fails (parse_options argv) =
      (bad_number m ''-cube-byWorker'' \<or>
       bad_name m ''-cube-generator-branching-heuristic'' s_branchingHeuristiCubeGenerator \<or>
       bad_name m ''-cube-generator-partial-order-heuristic'' s_partialOrderHeuristicCubeGenerator \<or>
       bad_name m ''-counter-partial-order-heuristic'' s_partialOrderCounter \<or>
       bad_number m ''-cube-generator-partial-order-budget'' \<or> bad_name m ''-preproc'' s_preprocMethod \<or>
       bad_number m ''-preproc-timeout'' \<or>
       m ''-m'' = Some ''counter'' \<and> bad_name m ''-counter-name'' [''d4'', ''D4'', ''SharpSatTD'', ''sstd''])"
  unfolding Let_def by (rule parse_failures)

lemma options_rejected_witness:
  "fails (parse_options [''gen'', ''-m'', ''counter'', ''-i'', ''f.cnf'', ''-counter-name'', ''sharpSAT'']) \<and>
   \<not> fails (parse_options [''gen'', ''-m'', ''counter'', ''-i'', ''f.cnf'', ''-counter-name'', ''sstd''])"
  using options_rejected [of "[''gen'', ''-m'', ''counter'', ''-i'', ''f.cnf'', ''-counter-name'', ''sharpSAT'']"]
    options_rejected [of "[''gen'', ''-m'', ''counter'', ''-i'', ''f.cnf'', ''-counter-name'', ''sstd'']"]
  by (simp add: Let_def bad_name_def bad_number_def)

end
