(* ===== verification/Bipe_Propagator.thy ===== *)
theory Bipe_Propagator
  imports Problem_Types Propagator_Spec
begin

text \<open>
  \<open>3rdParty/bipe/src/reducer/Propagator\<close>: the unit propagator of the reducer, which the discount cube generator uses
  too. A binary clause is two entries of implication lists (\<open>m_binListRefs\<close>, indexed by the code of the literal that
  implies), a longer one is stored and watched by its first two literals (\<open>m_watchList\<close>, indexed by the code of the
  watched literal). A reference (\<open>CRef\<close>) is a byte offset into one block of memory in the code and the number of the
  clause here; \<open>Bipe_Formula\<close> compares the lists with the space the constructor reserves for them.

  \<open>propagate\<close> compacts the watch list of the falsified literal in place while it appends to other lists. The model
  splits that list into the entries kept and those to visit and stores the kept ones at the end; \<open>visit_ok\<close> shows that
  the list is never one of those appended to.
\<close>

record BipePropagator =
  bp_nbVar :: int
  bp_isUnsat :: bool
  bp_clauses :: "ILit list list"
  bp_notBinClauseRefs :: "nat list"
  bp_binListRefs :: "ILit list list"
  bp_watchList :: "nat list list"
  bp_trail :: "ILit list"
  bp_trailLimUnit :: nat
  bp_trailPos :: nat
  bp_assign :: "int list"

definition bp_getClause :: "BipePropagator \<Rightarrow> nat \<Rightarrow> ILit list" where
  "bp_getClause P cref = bp_clauses P ! cref"

definition bp_litImplied :: "BipePropagator \<Rightarrow> ILit \<Rightarrow> ILit list" where
  "bp_litImplied P l = vget (bp_binListRefs P) (ilit_intern l)"

definition bp_watches :: "BipePropagator \<Rightarrow> ILit \<Rightarrow> nat list" where
  "bp_watches P l = vget (bp_watchList P) (ilit_intern l)"

text \<open>0 if true, 1 if false, above 1 if unassigned.\<close>

definition bp_value :: "BipePropagator \<Rightarrow> ILit \<Rightarrow> int" where
  "bp_value P l = of_bool (ilit_sign l) XOR vget (bp_assign P) (ilit_var l)"

definition bp_uncheckedEnqueue :: "ILit \<Rightarrow> BipePropagator \<Rightarrow> BipePropagator" where
  "bp_uncheckedEnqueue l P = P\<lparr>bp_trail := bp_trail P @ [l],
     bp_assign := vset (bp_assign P) (ilit_var l) (of_bool (ilit_sign l))\<rparr>"

fun propagate_binary :: "ILit list \<Rightarrow> BipePropagator \<Rightarrow> bool \<times> BipePropagator" where
  "propagate_binary [] P = (True, P)"
| "propagate_binary (b # imply) P =
     (if l_Undef \<le> bp_value P b then propagate_binary imply (bp_uncheckedEnqueue b P)
      else if bp_value P b = l_False then (False, P)
      else propagate_binary imply P)"

definition bp_push :: "ILit \<Rightarrow> nat \<Rightarrow> BipePropagator \<Rightarrow> BipePropagator" where
  "bp_push l cref P = P\<lparr>bp_watchList := vset (bp_watchList P) (ilit_intern l) (bp_watches P l @ [cref])\<rparr>"

definition bp_swap :: "nat \<Rightarrow> nat \<Rightarrow> nat \<Rightarrow> BipePropagator \<Rightarrow> BipePropagator" where
  "bp_swap cref i j P = P\<lparr>bp_clauses := (bp_clauses P)[cref := std_swap (bp_getClause P cref) i j]\<rparr>"

text \<open>
  One entry of the watch list of the false literal \<open>nl\<close>: whether there is no conflict, whether the entry stays in the
  list, and the new state; then the loop over the list, which a conflict ends with all remaining entries kept.
\<close>

definition visit_watch :: "ILit \<Rightarrow> nat \<Rightarrow> BipePropagator \<Rightarrow> bool \<times> bool \<times> BipePropagator" where
  "visit_watch nl cref P =
     (let P1 = (if bp_getClause P cref ! 1 = nl then bp_swap cref 0 1 P else P);
          c = bp_getClause P1 cref
      in if bp_value P1 (c ! 1) = l_True then (True, True, P1)
         else case find (\<lambda>pi. bp_value P1 (c ! pi) \<noteq> l_False) [2..<length c] of
           None \<Rightarrow>
             if bp_value P1 (c ! 1) = l_False then (False, True, P1)
             else (True, True, bp_uncheckedEnqueue (c ! 1) P1)
         | Some pi \<Rightarrow>
             if bp_value P1 (c ! pi) = l_True then (True, True, P1)
             else (True, False, bp_push (c ! pi) cref (bp_swap cref 0 pi P1)))"

fun propagate_watches :: "ILit \<Rightarrow> nat list \<Rightarrow> nat list \<Rightarrow> BipePropagator \<Rightarrow> bool \<times> nat list \<times> BipePropagator" where
  "propagate_watches nl [] kept P = (True, kept, P)"
| "propagate_watches nl (cref # ws) kept P =
     (case visit_watch nl cref P of (ok, keep, Q) \<Rightarrow>
        if \<not> ok then (False, kept @ cref # ws, Q)
        else propagate_watches nl ws (if keep then kept @ [cref] else kept) Q)"

definition propagate_lit :: "ILit \<Rightarrow> BipePropagator \<Rightarrow> bool \<times> BipePropagator" where
  "propagate_lit l P =
     (case propagate_binary (bp_litImplied P l) P of
        (False, P1) \<Rightarrow> (False, P1)
      | (True, P1) \<Rightarrow>
          (case propagate_watches (ilit_neg l) (bp_watches P1 (ilit_neg l)) [] P1 of (ok, kept, P2) \<Rightarrow>
             (ok, P2\<lparr>bp_watchList := vset (bp_watchList P2) (ilit_intern (ilit_neg l)) kept\<rparr>)))"

partial_function (option) bp_propagate :: "BipePropagator \<Rightarrow> (bool \<times> BipePropagator) option" where
  [code]: "bp_propagate P =
     (if bp_trailPos P < length (bp_trail P) then
        (case propagate_lit (bp_trail P ! bp_trailPos P) (P\<lparr>bp_trailPos := Suc (bp_trailPos P)\<rparr>) of (ok, Q) \<Rightarrow>
           if \<not> ok then Some (False, Q) else bp_propagate Q)
      else Some (True, P))"

definition bp_propagateLevelZero :: "BipePropagator \<Rightarrow> BipePropagator option" where
  "bp_propagateLevelZero P = (case bp_propagate P of None \<Rightarrow> None
     | Some (ok, Q) \<Rightarrow> Some (Q\<lparr>bp_isUnsat := \<not> ok, bp_trailLimUnit := length (bp_trail Q)\<rparr>))"

definition bp_addBinary :: "ILit \<Rightarrow> ILit \<Rightarrow> BipePropagator \<Rightarrow> BipePropagator" where
  "bp_addBinary a b P =
     (let imply = \<lambda>l x Q. Q\<lparr>bp_binListRefs := vset (bp_binListRefs Q) (ilit_intern l) (bp_litImplied Q l @ [x])\<rparr>
      in imply (ilit_neg b) a (imply (ilit_neg a) b P))"

definition bp_attachClause :: "nat \<Rightarrow> BipePropagator \<Rightarrow> BipePropagator" where
  "bp_attachClause cref P =
     (let c = bp_getClause P cref in bp_push (c ! 1) cref (bp_push (c ! 0) cref P))"

text \<open>The first entry \<open>cref\<close> of a list is overwritten by its last one; without such an entry the assertion fails.\<close>

definition detach_from :: "ILit \<Rightarrow> nat \<Rightarrow> BipePropagator \<Rightarrow> BipePropagator option" where
  "detach_from l cref P =
     (let ws = bp_watches P l
      in case find (\<lambda>pos. ws ! pos = cref) [0..<length ws] of
           None \<Rightarrow> None
         | Some pos \<Rightarrow>
             Some (P\<lparr>bp_watchList := vset (bp_watchList P) (ilit_intern l) (butlast (ws[pos := last ws]))\<rparr>))"

definition bp_detachClause :: "nat \<Rightarrow> BipePropagator \<Rightarrow> BipePropagator option" where
  "bp_detachClause cref P = (let c = bp_getClause P cref in
     case detach_from (c ! 0) cref P of None \<Rightarrow> None | Some Q \<Rightarrow> detach_from (c ! 1) cref Q)"

definition bp_restart :: "BipePropagator \<Rightarrow> BipePropagator" where
  "bp_restart P = P\<lparr>
     bp_assign := fold (\<lambda>l a. vset a (ilit_var l) l_Undef) (drop (bp_trailLimUnit P) (bp_trail P)) (bp_assign P),
     bp_trail := take (bp_trailLimUnit P) (bp_trail P), bp_trailPos := bp_trailLimUnit P\<rparr>"

function cancel_trail :: "nat \<Rightarrow> BipePropagator \<Rightarrow> BipePropagator" where
  "cancel_trail pos P =
     (if pos < length (bp_trail P)
      then cancel_trail pos (P\<lparr>bp_trail := butlast (bp_trail P),
             bp_assign := vset (bp_assign P) (ilit_var (last (bp_trail P))) l_Undef\<rparr>)
      else P)"
  by pat_completeness auto
termination by (relation "measure (\<lambda>(pos, P). length (bp_trail P))") auto

declare cancel_trail.simps [simp del]

definition bp_cancelUntilPos :: "nat \<Rightarrow> BipePropagator \<Rightarrow> BipePropagator" where
  "bp_cancelUntilPos pos P =
     (let Q = cancel_trail pos P
      in if length (bp_trail Q) < bp_trailPos Q then Q\<lparr>bp_trailPos := length (bp_trail Q)\<rparr> else Q)"

section \<open>Well-formed propagators\<close>

definition bp_implied_ok :: "BipePropagator \<Rightarrow> bool" where
  "bp_implied_ok P \<longleftrightarrow>
     (\<forall>l. wf_ilit (bp_nbVar P) l \<longrightarrow> (\<forall>b\<in>set (bp_litImplied P l). wf_ilit (bp_nbVar P) b))"

definition bp_static :: "BipePropagator \<Rightarrow> bool" where
  "bp_static P \<longleftrightarrow> 0 \<le> bp_nbVar P \<and> bp_nbVar P < 2 ^ 30 \<and>
     length (bp_assign P) = nat (2 * (bp_nbVar P + 1)) \<and>
     length (bp_binListRefs P) = nat (2 * (bp_nbVar P + 1)) \<and>
     length (bp_watchList P) = nat (2 * (bp_nbVar P + 1)) \<and> bp_implied_ok P \<and>
     set (bp_assign P) \<subseteq> {l_True, l_False, l_Undef}"

text \<open>
  The clauses \<open>A\<close> are attached: each of them, and nothing else, is in the lists of its first two literals, once for
  each of the two positions.
\<close>

definition watch_count :: "nat set \<Rightarrow> BipePropagator \<Rightarrow> ILit \<Rightarrow> nat \<Rightarrow> nat" where
  "watch_count A P l w =
     (if w \<in> A then of_bool (bp_getClause P w ! 0 = l) + of_bool (bp_getClause P w ! 1 = l) else 0)"

definition bp_watched :: "nat set \<Rightarrow> BipePropagator \<Rightarrow> bool" where
  "bp_watched A P \<longleftrightarrow>
     (\<forall>w\<in>A. w < length (bp_clauses P) \<and> 2 \<le> length (bp_getClause P w) \<and>
        (\<forall>l\<in>set (bp_getClause P w). wf_ilit (bp_nbVar P) l)) \<and>
     (\<forall>l. wf_ilit (bp_nbVar P) l \<longrightarrow> (\<forall>w. count_list (bp_watches P l) w = watch_count A P l w))"

text \<open>The assignment mirrors the trail, outside the variables \<open>X\<close>.\<close>

definition bp_trail_ok :: "int set \<Rightarrow> BipePropagator \<Rightarrow> bool" where
  "bp_trail_ok X P \<longleftrightarrow> (\<forall>l\<in>set (bp_trail P). wf_ilit (bp_nbVar P) l) \<and>
     (\<forall>l. wf_ilit (bp_nbVar P) l \<longrightarrow>
        bp_value P l = l_True \<and> l \<in> set (bp_trail P) \<or>
        bp_value P l = l_False \<and> ilit_neg l \<in> set (bp_trail P) \<or>
        l_Undef \<le> bp_value P l \<and> (ilit_var l \<notin> X \<longrightarrow> ilit_var l \<notin> ilit_var ` set (bp_trail P)))"

definition bp_ok :: "nat set \<Rightarrow> BipePropagator \<Rightarrow> bool" where
  "bp_ok A P \<longleftrightarrow> bp_static P \<and> bp_watched A P \<and> bp_trail_ok {} P"

text \<open>The models of the binary clauses and of the clauses \<open>A\<close>.\<close>

definition bp_holds :: "nat set \<Rightarrow> (int \<Rightarrow> bool) \<Rightarrow> BipePropagator \<Rightarrow> bool" where
  "bp_holds A m P \<longleftrightarrow>
     (\<forall>l. wf_ilit (bp_nbVar P) l \<longrightarrow> ilit_true m l \<longrightarrow> (\<forall>b\<in>set (bp_litImplied P l). ilit_true m b)) \<and>
     (\<forall>w\<in>A. clause_true (ilit_true m) (bp_getClause P w))"

lemma ilit_true_neg: "wf_ilit n l \<Longrightarrow> ilit_true m (ilit_neg l) \<longleftrightarrow> \<not> ilit_true m l"
  using neg_parts [of n l] by (auto simp: ilit_true_def)

lemma ilit_neg_neg [simp]: "ilit_neg (ilit_neg l) = l"
  by (cases l) (simp add: ilit_neg_def xor.assoc)

lemma ilit_neg_neq [simp]: "ilit_neg l \<noteq> l" "l \<noteq> ilit_neg l"
proof -
  have "m_x l XOR (m_x l XOR 1) = 1" by (simp add: xor.assoc [symmetric])
  moreover have "m_x l XOR m_x l \<noteq> 1" by simp
  ultimately have "m_x l XOR 1 \<noteq> m_x l" by metis
  then show "ilit_neg l \<noteq> l" "l \<noteq> ilit_neg l" by (cases l; simp add: ilit_neg_def)+
qed

lemma ilit_same_var: "wf_ilit n l \<Longrightarrow> ilit_var l' = ilit_var l \<Longrightarrow> l' = l \<or> l' = ilit_neg l"
  using ilit_eqI [of l' l] ilit_eqI [of l' "ilit_neg l"] neg_parts [of n l]
  by (cases "ilit_sign l' = ilit_sign l") simp_all

lemma bp_static_vin:
  assumes "bp_static P" "wf_ilit (bp_nbVar P) l"
  shows "vin (bp_assign P) (ilit_var l)" "vin (bp_watchList P) (ilit_intern l)"
    "vin (bp_binListRefs P) (ilit_intern l)"
proof -
  have len: "length (bp_assign P) = nat (2 * (bp_nbVar P + 1))" "length (bp_watchList P) = nat (2 * (bp_nbVar P + 1))"
    "length (bp_binListRefs P) = nat (2 * (bp_nbVar P + 1))"
    using assms(1) by (simp_all only: bp_static_def)
  then show "vin (bp_watchList P) (ilit_intern l)" "vin (bp_binListRefs P) (ilit_intern l)"
    using vin_lit [OF assms(2)] by blast+
  have "1 \<le> ilit_var l" "ilit_var l \<le> bp_nbVar P" using assms(2) by (simp_all only: wf_ilit_def)
  then show "vin (bp_assign P) (ilit_var l)" by (simp add: vin_def len(1))
qed

lemma enqueue_simps [simp]:
  "bp_nbVar (bp_uncheckedEnqueue l P) = bp_nbVar P" "bp_isUnsat (bp_uncheckedEnqueue l P) = bp_isUnsat P"
  "bp_clauses (bp_uncheckedEnqueue l P) = bp_clauses P"
  "bp_notBinClauseRefs (bp_uncheckedEnqueue l P) = bp_notBinClauseRefs P"
  "bp_binListRefs (bp_uncheckedEnqueue l P) = bp_binListRefs P"
  "bp_watchList (bp_uncheckedEnqueue l P) = bp_watchList P"
  "bp_trail (bp_uncheckedEnqueue l P) = bp_trail P @ [l]"
  "bp_trailLimUnit (bp_uncheckedEnqueue l P) = bp_trailLimUnit P"
  "bp_trailPos (bp_uncheckedEnqueue l P) = bp_trailPos P"
  "bp_litImplied (bp_uncheckedEnqueue l P) x = bp_litImplied P x"
  "bp_watches (bp_uncheckedEnqueue l P) x = bp_watches P x"
  "bp_getClause (bp_uncheckedEnqueue l P) w = bp_getClause P w"
  by (simp_all add: bp_uncheckedEnqueue_def bp_litImplied_def bp_watches_def bp_getClause_def)

lemma bp_holds_enqueue [simp]: "bp_holds A m (bp_uncheckedEnqueue l P) = bp_holds A m P"
  by (simp add: bp_holds_def)

lemma bp_value_enqueue:
  assumes "bp_static P" "wf_ilit (bp_nbVar P) l" "wf_ilit (bp_nbVar P) l'"
  shows "bp_value (bp_uncheckedEnqueue l P) l' =
    (if l' = l then l_True else if l' = ilit_neg l then l_False else bp_value P l')"
proof (cases "ilit_var l' = ilit_var l")
  case True
  then have "vget (bp_assign (bp_uncheckedEnqueue l P)) (ilit_var l') = of_bool (ilit_sign l)"
    using bp_static_vin [OF assms(1,2)] by (simp add: bp_uncheckedEnqueue_def vget_vset_same)
  moreover have "l' = l \<or> l' = ilit_neg l" by (rule ilit_same_var [OF assms(2) True])
  ultimately show ?thesis
    using neg_parts [OF assms(2)] by (auto simp: bp_value_def l_True_def l_False_def)
next
  case False
  then have "bp_value (bp_uncheckedEnqueue l P) l' = bp_value P l'"
    using assms by (simp add: bp_value_def bp_uncheckedEnqueue_def vget_vset_other wf_ilit_def)
  then show ?thesis using False neg_parts [OF assms(2)] by auto
qed

lemma bp_trail_ok_enqueue:
  assumes P: "bp_static P" "bp_trail_ok X P" and l: "wf_ilit (bp_nbVar P) l" "X \<subseteq> {ilit_var l}"
  shows "bp_trail_ok {} (bp_uncheckedEnqueue l P)"
  unfolding bp_trail_ok_def
proof (intro conjI ballI allI impI)
  fix k assume "k \<in> set (bp_trail (bp_uncheckedEnqueue l P))"
  with assms show "wf_ilit (bp_nbVar (bp_uncheckedEnqueue l P)) k" by (auto simp: bp_trail_ok_def)
next
  fix k assume k: "wf_ilit (bp_nbVar (bp_uncheckedEnqueue l P)) k"
  note v = bp_value_enqueue [OF P(1) l(1), of k]
  show "bp_value (bp_uncheckedEnqueue l P) k = l_True \<and> k \<in> set (bp_trail (bp_uncheckedEnqueue l P)) \<or>
    bp_value (bp_uncheckedEnqueue l P) k = l_False \<and> ilit_neg k \<in> set (bp_trail (bp_uncheckedEnqueue l P)) \<or>
    l_Undef \<le> bp_value (bp_uncheckedEnqueue l P) k \<and>
      (ilit_var k \<notin> {} \<longrightarrow> ilit_var k \<notin> ilit_var ` set (bp_trail (bp_uncheckedEnqueue l P)))"
  proof (cases "k = l \<or> k = ilit_neg l")
    case True
    then show ?thesis using v k by auto
  next
    case False
    then have "ilit_var k \<noteq> ilit_var l" using ilit_same_var [OF l(1)] by blast
    then show ?thesis using False v k P(2) l(2) by (auto simp: bp_trail_ok_def)
  qed
qed

lemma set_vset: "set a \<subseteq> V \<Longrightarrow> x \<in> V \<Longrightarrow> set (vset a i x) \<subseteq> V"
  unfolding vset_def by (auto dest!: set_update_subset_insert [THEN subsetD])

lemma bp_static_enqueue: "bp_static P \<Longrightarrow> bp_static (bp_uncheckedEnqueue l P)"
proof -
  assume P: "bp_static P"
  then have "set (bp_assign (bp_uncheckedEnqueue l P)) \<subseteq> {l_True, l_False, l_Undef}"
    using set_vset [of "bp_assign P" "{l_True, l_False, l_Undef}"]
    by (simp add: bp_uncheckedEnqueue_def bp_static_def l_True_def l_False_def)
  then show ?thesis using P
    by (simp add: bp_static_def bp_implied_ok_def) (simp add: bp_uncheckedEnqueue_def)
qed

lemma bp_ok_enqueue:
  assumes "bp_ok A P" "wf_ilit (bp_nbVar P) l"
  shows "bp_ok A (bp_uncheckedEnqueue l P)"
proof -
  have "bp_watched A (bp_uncheckedEnqueue l P)"
    using assms by (simp add: bp_ok_def bp_watched_def watch_count_def)
  moreover have "bp_static (bp_uncheckedEnqueue l P)" using assms by (simp add: bp_ok_def bp_static_enqueue)
  ultimately have "bp_static (bp_uncheckedEnqueue l P)" "bp_watched A (bp_uncheckedEnqueue l P)" by simp_all
  then show ?thesis using assms bp_trail_ok_enqueue [of P "{}" l] by (simp add: bp_ok_def)
qed

lemma bp_value_true: "bp_trail_ok X P \<Longrightarrow> wf_ilit (bp_nbVar P) l \<Longrightarrow> bp_value P l = l_True \<Longrightarrow> l \<in> set (bp_trail P)"
  and bp_value_false:
    "bp_trail_ok X P \<Longrightarrow> wf_ilit (bp_nbVar P) l \<Longrightarrow> bp_value P l = l_False \<Longrightarrow> ilit_neg l \<in> set (bp_trail P)"
  and bp_value_cases:
    "bp_trail_ok X P \<Longrightarrow> wf_ilit (bp_nbVar P) l \<Longrightarrow>
       bp_value P l = l_True \<or> bp_value P l = l_False \<or> l_Undef \<le> bp_value P l"
  and bp_value_undef:
    "bp_trail_ok {} P \<Longrightarrow> wf_ilit (bp_nbVar P) l \<Longrightarrow> l_Undef \<le> bp_value P l \<Longrightarrow>
       ilit_var l \<notin> ilit_var ` set (bp_trail P)"
  by (auto simp: bp_trail_ok_def l_True_def l_False_def l_Undef_def)

lemma bp_assign_undef:
  assumes "bp_static P" "wf_ilit (bp_nbVar P) l"
  shows "vget (bp_assign P) (ilit_var l) = l_Undef \<longleftrightarrow> l_Undef \<le> bp_value P l"
proof -
  have "vget (bp_assign P) (ilit_var l) \<in> set (bp_assign P)"
    using bp_static_vin(1) [OF assms] by (simp add: vget_def vin_def nat_leE)
  then have "vget (bp_assign P) (ilit_var l) \<in> {l_True, l_False, l_Undef}"
    using assms(1) unfolding bp_static_def by blast
  then show ?thesis by (cases "ilit_sign l") (auto simp: bp_value_def l_True_def l_False_def l_Undef_def)
qed

lemma bp_undef_neg:
  assumes "bp_trail_ok {} P" "wf_ilit (bp_nbVar P) l" "l_Undef \<le> bp_value P l"
  shows "l \<notin> set (bp_trail P)" "ilit_neg l \<notin> set (bp_trail P)"
  using bp_value_undef [OF assms] neg_parts(1) [OF assms(2)] by (auto simp: image_iff)

lemma bp_false_lit:
  "bp_trail_ok X P \<Longrightarrow> wf_ilit (bp_nbVar P) l \<Longrightarrow> bp_value P l = l_False \<Longrightarrow>
     cube_true (ilit_true m) (bp_trail P) \<Longrightarrow> \<not> ilit_true m l"
  using bp_value_false [of X P l] ilit_true_neg [of "bp_nbVar P" l m] by (auto simp: truth_simps)

section \<open>Sound extensions\<close>

text \<open>\<open>bp_same P Q\<close>: the formula is the same, up to the order of the literals in the stored clauses.\<close>

definition bp_same :: "BipePropagator \<Rightarrow> BipePropagator \<Rightarrow> bool" where
  "bp_same P Q \<longleftrightarrow> bp_nbVar Q = bp_nbVar P \<and> bp_isUnsat Q = bp_isUnsat P \<and>
     bp_notBinClauseRefs Q = bp_notBinClauseRefs P \<and> bp_binListRefs Q = bp_binListRefs P \<and>
     bp_trailLimUnit Q = bp_trailLimUnit P \<and> map mset (bp_clauses Q) = map mset (bp_clauses P)"

lemma bp_same_length: "bp_same P Q \<Longrightarrow> length (bp_clauses Q) = length (bp_clauses P)"
  unfolding bp_same_def by (metis length_map)

lemma bp_same_mset:
  assumes "bp_same P Q" "w < length (bp_clauses P)"
  shows "mset (bp_getClause Q w) = mset (bp_getClause P w)"
proof -
  have "map mset (bp_clauses Q) ! w = map mset (bp_clauses P) ! w" using assms(1) by (simp only: bp_same_def)
  then show ?thesis using assms(2) bp_same_length [OF assms(1)] by (simp add: bp_getClause_def)
qed

text \<open>The watches of a clause are the old ones or literals that were not false.\<close>

definition bp_rewatch :: "nat set \<Rightarrow> BipePropagator \<Rightarrow> BipePropagator \<Rightarrow> bool" where
  "bp_rewatch A P Q \<longleftrightarrow> (\<forall>w\<in>A. \<forall>x\<in>{bp_getClause Q w ! 0, bp_getClause Q w ! 1}.
     x \<in> {bp_getClause P w ! 0, bp_getClause P w ! 1} \<or> ilit_neg x \<notin> set (bp_trail P))"

definition bp_ext :: "nat set \<Rightarrow> BipePropagator \<Rightarrow> BipePropagator \<Rightarrow> bool" where
  "bp_ext A P Q \<longleftrightarrow> bp_ok A Q \<and> bp_same P Q \<and> bp_rewatch A P Q \<and> fresh_ext ilit_var (bp_trail P) (bp_trail Q) \<and>
     (\<forall>m. bp_holds A m P \<longrightarrow> cube_true (ilit_true m) (bp_trail P) \<longrightarrow> cube_true (ilit_true m) (bp_trail Q))"

lemma bp_ext_trail: "bp_ext A P Q \<Longrightarrow> set (bp_trail P) \<subseteq> set (bp_trail Q)"
  by (auto simp: bp_ext_def fresh_ext_def)

lemma bp_same_refl [simp]: "bp_same P P"
  by (simp add: bp_same_def)

lemma bp_same_trans: "bp_same P Q \<Longrightarrow> bp_same Q R \<Longrightarrow> bp_same P R"
  by (simp add: bp_same_def)

lemma bp_holds_same:
  assumes "bp_same P Q" "A \<subseteq> {..<length (bp_clauses P)}"
  shows "bp_holds A m Q = bp_holds A m P"
proof -
  have "clause_true (ilit_true m) (bp_getClause Q w) = clause_true (ilit_true m) (bp_getClause P w)"
    if "w \<in> A" for w
  proof -
    have "mset (bp_getClause Q w) = mset (bp_getClause P w)" using assms that bp_same_mset by blast
    then have "set (bp_getClause Q w) = set (bp_getClause P w)" by (rule mset_eq_setD)
    then show ?thesis by (simp add: clause_true_iff)
  qed
  then show ?thesis using assms(1) by (simp add: bp_holds_def bp_same_def bp_litImplied_def)
qed

lemma bp_ok_range: "bp_ok A P \<Longrightarrow> A \<subseteq> {..<length (bp_clauses P)}"
  by (auto simp: bp_ok_def bp_watched_def)

lemma bp_ok_clause:
  "bp_ok A P \<Longrightarrow> w \<in> A \<Longrightarrow> w < length (bp_clauses P) \<and> 2 \<le> length (bp_getClause P w) \<and>
     (\<forall>l\<in>set (bp_getClause P w). wf_ilit (bp_nbVar P) l)"
  by (simp add: bp_ok_def bp_watched_def)

lemma bp_ext_refl: "bp_ok A P \<Longrightarrow> bp_ext A P P"
  by (simp add: bp_ext_def fresh_ext_refl bp_rewatch_def)

lemma bp_rewatch_trans:
  assumes "bp_rewatch A P Q" "bp_rewatch A Q R" "set (bp_trail P) \<subseteq> set (bp_trail Q)"
  shows "bp_rewatch A P R"
  unfolding bp_rewatch_def
proof (intro ballI)
  fix w x assume w: "w \<in> A" and "x \<in> {bp_getClause R w ! 0, bp_getClause R w ! 1}"
  then have "x \<in> {bp_getClause Q w ! 0, bp_getClause Q w ! 1} \<or> ilit_neg x \<notin> set (bp_trail Q)"
    using assms(2) unfolding bp_rewatch_def by blast
  then show "x \<in> {bp_getClause P w ! 0, bp_getClause P w ! 1} \<or> ilit_neg x \<notin> set (bp_trail P)"
    using assms(1,3) w by (auto simp: bp_rewatch_def)
qed

lemma bp_ext_trans:
  assumes "bp_ok A P" "bp_ext A P Q" "bp_ext A Q R"
  shows "bp_ext A P R"
proof -
  have "bp_holds A m Q = bp_holds A m P" for m
    by (rule bp_holds_same [OF _ bp_ok_range [OF assms(1)]]) (use assms(2) in \<open>simp add: bp_ext_def\<close>)
  then show ?thesis
    using assms(2,3) fresh_ext_trans [of ilit_var "bp_trail P" "bp_trail Q" "bp_trail R"] bp_same_trans [of P Q R]
      bp_rewatch_trans [of A P Q R] by (auto simp: bp_ext_def fresh_ext_def)
qed

text \<open>Changes of the watch lists and of the order of literals only.\<close>

lemma bp_ext_rewatch:
  assumes P: "bp_ok A P" and s: "bp_same P Q" "bp_assign Q = bp_assign P" "bp_trail Q = bp_trail P"
    "length (bp_watchList Q) = length (bp_watchList P)"
    and w: "\<And>l w. wf_ilit (bp_nbVar P) l \<Longrightarrow> count_list (bp_watches Q l) w = watch_count A Q l w"
    and r: "bp_rewatch A P Q"
  shows "bp_ext A P Q"
proof -
  have n: "bp_nbVar Q = bp_nbVar P" using s(1) by (simp add: bp_same_def)
  have m: "set (bp_getClause Q w) = set (bp_getClause P w) \<and> length (bp_getClause Q w) = length (bp_getClause P w)"
    if "w \<in> A" for w
  proof -
    have "mset (bp_getClause Q w) = mset (bp_getClause P w)"
      using bp_ok_clause [OF P that] bp_same_mset [OF s(1)] by blast
    then show ?thesis using mset_eq_setD mset_eq_length by blast
  qed
  have "bp_watched A Q"
    unfolding bp_watched_def n
  proof (intro conjI ballI allI impI w)
    fix w assume "w \<in> A"
    note c = bp_ok_clause [OF P this] m [OF this]
    show "w < length (bp_clauses Q)" "2 \<le> length (bp_getClause Q w)"
      using c bp_same_length [OF s(1)] by simp_all
    fix l assume "l \<in> set (bp_getClause Q w)"
    then show "wf_ilit (bp_nbVar P) l" using c by simp
  qed
  moreover have "bp_static Q" "bp_trail_ok {} Q"
    using P s by (simp_all add: bp_ok_def bp_static_def bp_implied_ok_def bp_trail_ok_def bp_same_def bp_litImplied_def
        bp_value_def)
  ultimately show ?thesis using s r by (simp add: bp_ext_def bp_ok_def fresh_ext_refl)
qed

lemma bp_ext_enqueue:
  assumes "bp_ok A P" "wf_ilit (bp_nbVar P) l" "l_Undef \<le> bp_value P l"
    and "\<And>m. bp_holds A m P \<Longrightarrow> cube_true (ilit_true m) (bp_trail P) \<Longrightarrow> ilit_true m l"
  shows "bp_ext A P (bp_uncheckedEnqueue l P)"
proof -
  have "fresh_ext ilit_var (bp_trail P) (bp_trail P @ [l])"
    using bp_value_undef [OF _ assms(2,3)] assms(1) by (auto simp: fresh_ext_def bp_ok_def)
  then show ?thesis using assms bp_ok_enqueue [OF assms(1,2)]
    by (simp add: bp_ext_def bp_same_def bp_rewatch_def)
qed

section \<open>Propagating the binary clauses\<close>

lemma propagate_binary_ext:
  "propagate_binary imply P = (ok, Q) \<Longrightarrow> bp_ok A P \<Longrightarrow> l \<in> set (bp_trail P) \<Longrightarrow>
     set imply \<subseteq> set (bp_litImplied P l) \<Longrightarrow>
     bp_ext A P Q \<and> bp_trailPos Q = bp_trailPos P \<and> bp_watchList Q = bp_watchList P \<and>
     (ok \<longrightarrow> set imply \<subseteq> set (bp_trail Q)) \<and>
     (\<not> ok \<longrightarrow> (\<forall>m. bp_holds A m P \<longrightarrow> \<not> cube_true (ilit_true m) (bp_trail Q)))"
proof (induction imply P arbitrary: ok Q rule: propagate_binary.induct)
  case (1 P)
  then show ?case by (auto simp: bp_ext_refl)
next
  case (2 b imply P)
  have l: "wf_ilit (bp_nbVar P) l" and b: "wf_ilit (bp_nbVar P) b"
    using "2.prems" by (auto simp: bp_ok_def bp_trail_ok_def bp_static_def bp_implied_ok_def)
  have imp: "ilit_true m b" if "bp_holds A m P" "cube_true (ilit_true m) (bp_trail P)" for m
    using that "2.prems"(3,4) l by (auto simp: bp_holds_def truth_simps)
  have tr: "bp_trail_ok {} P" using "2.prems"(2) by (simp add: bp_ok_def)
  consider "l_Undef \<le> bp_value P b" | "bp_value P b = l_False" | "bp_value P b = l_True"
    using bp_value_cases [OF tr b] by blast
  then show ?case
  proof cases
    case 1
    have e: "bp_ext A P (bp_uncheckedEnqueue b P)" by (rule bp_ext_enqueue [OF "2.prems"(2) b 1 imp])
    show ?thesis
      using "2.IH"(1) [OF 1, of ok Q] 1 "2.prems" bp_ok_enqueue [OF "2.prems"(2) b] bp_ext_trans [OF "2.prems"(2) e, of Q]
        bp_ext_trail [of A "bp_uncheckedEnqueue b P" Q] by auto
  next
    case 2
    then have "\<not> cube_true (ilit_true m) (bp_trail P)" if "bp_holds A m P" for m
      using imp [OF that] bp_false_lit [OF tr b] by blast
    with 2 "2.prems" show ?thesis by (auto simp: l_False_def l_Undef_def bp_ext_refl)
  next
    case 3
    have "propagate_binary imply P = (ok, Q)" "\<not> l_Undef \<le> bp_value P b" "bp_value P b \<noteq> l_False"
      using 3 "2.prems"(1) by (auto simp: l_False_def l_True_def l_Undef_def)
    from "2.IH"(2) [OF this(2,3,1) "2.prems"(2,3)] show ?thesis
      using "2.prems"(4) bp_value_true [OF tr b 3] bp_ext_trail [of A P Q] by auto
  qed
qed

section \<open>Visiting a watch list\<close>

definition stored :: "ILit \<Rightarrow> nat list \<Rightarrow> BipePropagator \<Rightarrow> BipePropagator" where
  "stored nl ws P = P\<lparr>bp_watchList := vset (bp_watchList P) (ilit_intern nl) ws\<rparr>"

lemma stored_simps [simp]:
  "bp_nbVar (stored nl ws P) = bp_nbVar P" "bp_isUnsat (stored nl ws P) = bp_isUnsat P"
  "bp_clauses (stored nl ws P) = bp_clauses P"
  "bp_notBinClauseRefs (stored nl ws P) = bp_notBinClauseRefs P"
  "bp_binListRefs (stored nl ws P) = bp_binListRefs P" "bp_trail (stored nl ws P) = bp_trail P"
  "bp_trailLimUnit (stored nl ws P) = bp_trailLimUnit P" "bp_trailPos (stored nl ws P) = bp_trailPos P"
  "bp_assign (stored nl ws P) = bp_assign P" "bp_value (stored nl ws P) x = bp_value P x"
  "bp_litImplied (stored nl ws P) x = bp_litImplied P x" "bp_getClause (stored nl ws P) w = bp_getClause P w"
  "bp_holds A m (stored nl ws P) = bp_holds A m P"
  "length (bp_watchList (stored nl ws P)) = length (bp_watchList P)"
  "stored nl ws (bp_uncheckedEnqueue x P) = bp_uncheckedEnqueue x (stored nl ws P)"
  by (simp_all add: stored_def bp_value_def bp_litImplied_def bp_getClause_def bp_holds_def bp_uncheckedEnqueue_def)

lemma swap_simps [simp]:
  "bp_nbVar (bp_swap w i j P) = bp_nbVar P" "bp_isUnsat (bp_swap w i j P) = bp_isUnsat P"
  "bp_notBinClauseRefs (bp_swap w i j P) = bp_notBinClauseRefs P"
  "bp_binListRefs (bp_swap w i j P) = bp_binListRefs P" "bp_trail (bp_swap w i j P) = bp_trail P"
  "bp_trailLimUnit (bp_swap w i j P) = bp_trailLimUnit P" "bp_trailPos (bp_swap w i j P) = bp_trailPos P"
  "bp_assign (bp_swap w i j P) = bp_assign P" "bp_value (bp_swap w i j P) x = bp_value P x"
  "bp_litImplied (bp_swap w i j P) x = bp_litImplied P x" "bp_watches (bp_swap w i j P) x = bp_watches P x"
  "bp_watchList (bp_swap w i j P) = bp_watchList P" "length (bp_clauses (bp_swap w i j P)) = length (bp_clauses P)"
  "stored nl ws (bp_swap w i j P) = bp_swap w i j (stored nl ws P)"
  by (simp_all add: bp_swap_def bp_value_def bp_litImplied_def bp_watches_def bp_getClause_def stored_def)

lemma push_simps [simp]:
  "bp_nbVar (bp_push l w P) = bp_nbVar P" "bp_isUnsat (bp_push l w P) = bp_isUnsat P"
  "bp_clauses (bp_push l w P) = bp_clauses P" "bp_notBinClauseRefs (bp_push l w P) = bp_notBinClauseRefs P"
  "bp_binListRefs (bp_push l w P) = bp_binListRefs P" "bp_trail (bp_push l w P) = bp_trail P"
  "bp_trailLimUnit (bp_push l w P) = bp_trailLimUnit P" "bp_trailPos (bp_push l w P) = bp_trailPos P"
  "bp_assign (bp_push l w P) = bp_assign P" "bp_value (bp_push l w P) x = bp_value P x"
  "bp_litImplied (bp_push l w P) x = bp_litImplied P x" "bp_getClause (bp_push l w P) v = bp_getClause P v"
  "bp_holds A m (bp_push l w P) = bp_holds A m P" "length (bp_watchList (bp_push l w P)) = length (bp_watchList P)"
  by (simp_all add: bp_push_def bp_value_def bp_litImplied_def bp_getClause_def bp_holds_def)

lemma bp_getClause_swap:
  "w < length (bp_clauses P) \<Longrightarrow>
     bp_getClause (bp_swap w i j P) v = (if v = w then std_swap (bp_getClause P w) i j else bp_getClause P v)"
  by (simp add: bp_getClause_def bp_swap_def)

lemma bp_same_swap:
  "i < length (bp_getClause P w) \<Longrightarrow> j < length (bp_getClause P w) \<Longrightarrow> bp_same P (bp_swap w i j P)"
  by (simp add: bp_same_def) (simp add: bp_swap_def bp_getClause_def map_update_same mset_std_swap)

lemma bp_watches_stored:
  assumes "length (bp_watchList P) = nat (2 * (n + 1))" "wf_ilit n nl" "wf_ilit n l"
  shows "bp_watches (stored nl ws P) l = (if l = nl then ws else bp_watches P l)"
  using vget_vset_lit [OF assms(2,3,1)] by (simp add: stored_def bp_watches_def)

lemma bp_watches_push:
  assumes "length (bp_watchList P) = nat (2 * (n + 1))" "wf_ilit n x" "wf_ilit n l"
  shows "bp_watches (bp_push x w P) l = (if l = x then bp_watches P x @ [w] else bp_watches P l)"
  using vget_vset_lit [OF assms(2,3,1)] by (simp add: bp_push_def bp_watches_def)

lemma bp_ext_swap:
  assumes "bp_ok A P" "w \<in> A"
  shows "bp_ext A P (bp_swap w 0 1 P)"
proof (rule bp_ext_rewatch [OF assms(1) bp_same_swap])
  note c = bp_ok_clause [OF assms]
  show two: "0 < length (bp_getClause P w)" "1 < length (bp_getClause P w)" using c by auto
  fix l v assume l: "wf_ilit (bp_nbVar P) l"
  have "watch_count A (bp_swap w 0 1 P) l v = watch_count A P l v"
    using c nth_std_swap [OF two] by (simp add: watch_count_def bp_getClause_swap)
  then show "count_list (bp_watches (bp_swap w 0 1 P) l) v = watch_count A (bp_swap w 0 1 P) l v"
    using assms(1) l by (simp add: bp_ok_def bp_watched_def)
next
  note c = bp_ok_clause [OF assms]
  then have "0 < length (bp_getClause P w)" "1 < length (bp_getClause P w)" by linarith+
  then show "bp_rewatch A P (bp_swap w 0 1 P)"
    using nth_std_swap [of 0 "bp_getClause P w" 1] c by (simp add: bp_rewatch_def bp_getClause_swap)
qed simp_all

lemma bp_ext_move:
  assumes P: "bp_ok A (stored nl (kept @ w # ws) P)" and w: "w \<in> A" and nl: "wf_ilit (bp_nbVar P) nl"
    and c: "bp_getClause P w ! 0 = nl" "2 \<le> pi" "pi < length (bp_getClause P w)" "bp_getClause P w ! pi \<noteq> nl"
      "ilit_neg (bp_getClause P w ! pi) \<notin> set (bp_trail P)"
  shows "bp_ext A (stored nl (kept @ w # ws) P)
    (stored nl (kept @ ws) (bp_push (bp_getClause P w ! pi) w (bp_swap w 0 pi P)))"
    (is "bp_ext A ?P ?Q")
proof (rule bp_ext_rewatch [OF P])
  let ?x = "bp_getClause P w ! pi"
  have len: "length (bp_watchList P) = nat (2 * (bp_nbVar P + 1))"
    using P by (simp add: bp_ok_def bp_static_def)
  note wc = bp_ok_clause [OF P w, simplified]
  have x: "wf_ilit (bp_nbVar P) ?x" using wc c(3) by simp
  show "bp_same ?P ?Q"
    using bp_same_swap [OF less_le_trans [OF _ less_imp_le [OF c(3)], of 0] c(3)] c(2) by (simp add: bp_same_def)
  fix l v assume "wf_ilit (bp_nbVar ?P) l"
  then have l: "wf_ilit (bp_nbVar P) l" by simp
  have wl: "bp_watches ?Q l = (if l = nl then kept @ ws else if l = ?x then bp_watches P ?x @ [w] else bp_watches P l)"
    using len nl x l by (simp add: bp_watches_stored [where n = "bp_nbVar P"] bp_watches_push [where n = "bp_nbVar P"]
        del: stored_simps(15))
  have old: "count_list (if l = nl then kept @ w # ws else bp_watches P l) v = watch_count A P l v"
    using P l len nl by (simp add: bp_ok_def bp_watched_def bp_watches_stored [where n = "bp_nbVar P"] watch_count_def)
  have "0 < length (bp_getClause P w)" using c(2,3) by linarith
  then have sw: "std_swap (bp_getClause P w) 0 pi ! 0 = ?x"
    "std_swap (bp_getClause P w) 0 pi ! Suc 0 = bp_getClause P w ! Suc 0"
    using nth_std_swap [OF _ c(3), of 0] c(2) by simp_all
  have new: "watch_count A ?Q l v = (if v = w then of_bool (?x = l) + of_bool (bp_getClause P w ! 1 = l)
      else watch_count A P l v)"
    using w wc c(1) sw by (auto simp: watch_count_def bp_getClause_swap)
  show "count_list (bp_watches ?Q l) v = watch_count A ?Q l v"
    unfolding wl new using old c(1,4) w by (auto simp: watch_count_def split: if_splits)
next
  have "0 < length (bp_getClause P w)" using c(2,3) by linarith
  then show "bp_rewatch A ?P ?Q"
    using nth_std_swap [OF _ c(3), of 0] c bp_ok_clause [OF P w] by (auto simp: bp_rewatch_def bp_getClause_swap)
qed simp_all

text \<open>Clause \<open>w\<close> with the false literal in front and no other watch: a conflict, or its second literal is implied.\<close>

lemma bp_unit_clause:
  assumes P: "bp_ok A P" and w: "w \<in> A" and l: "ilit_neg (bp_getClause P w ! 0) \<in> set (bp_trail P)"
    and rest: "find (\<lambda>pi. bp_value P (bp_getClause P w ! pi) \<noteq> l_False) [2..<length (bp_getClause P w)] = None"
    and m: "bp_holds A m P" "cube_true (ilit_true m) (bp_trail P)"
  shows "ilit_true m (bp_getClause P w ! 1)"
proof -
  let ?c = "bp_getClause P w"
  note c = bp_ok_clause [OF P w]
  have tr: "bp_trail_ok {} P" using P by (simp add: bp_ok_def)
  obtain k where k: "k < length ?c" "ilit_true m (?c ! k)"
    using m(1) w unfolding bp_holds_def clause_true_iff by (metis in_set_conv_nth)
  have wf: "wf_ilit (bp_nbVar P) (?c ! k)" using c k(1) by simp
  have "k \<noteq> 0"
  proof
    assume "k = 0"
    then have "ilit_neg (?c ! k) \<in> set (bp_trail P)" using l by simp
    then show False using m(2) k(2) ilit_true_neg [OF wf] by (auto simp: truth_simps)
  qed
  moreover have "\<not> 2 \<le> k"
  proof
    assume "2 \<le> k"
    then have "bp_value P (?c ! k) = l_False" using rest k(1) by (auto simp: find_None_iff)
    then show False using bp_false_lit [OF tr wf _ m(2)] k(2) by blast
  qed
  ultimately have "k = 1" by simp
  then show ?thesis using k(2) by simp
qed

lemma bp_holds_ext: "bp_ok A P \<Longrightarrow> bp_ext A P Q \<Longrightarrow> bp_holds A m Q = bp_holds A m P"
  using bp_holds_same [OF _ bp_ok_range] by (simp add: bp_ext_def)

text \<open>The clause the visit comes to is attached, and once its watches are in order the first is the false literal.\<close>

definition watch_first :: "ILit \<Rightarrow> nat \<Rightarrow> BipePropagator \<Rightarrow> BipePropagator" where
  "watch_first nl w P = (if bp_getClause P w ! 1 = nl then bp_swap w 0 1 P else P)"

lemma watch_first_simps [simp]:
  "bp_trail (watch_first nl w P) = bp_trail P" "bp_nbVar (watch_first nl w P) = bp_nbVar P"
  "bp_trailPos (watch_first nl w P) = bp_trailPos P" "bp_value (watch_first nl w P) x = bp_value P x"
  "length (bp_clauses (watch_first nl w P)) = length (bp_clauses P)"
  "bp_litImplied (watch_first nl w P) x = bp_litImplied P x"
  by (simp_all add: watch_first_def)

lemma visit_front:
  assumes P: "bp_ok A (stored nl (kept @ w # ws) P)" and nl: "wf_ilit (bp_nbVar P) nl"
  shows "w \<in> A" "bp_ext A (stored nl (kept @ w # ws) P) (stored nl (kept @ w # ws) (watch_first nl w P))"
    "bp_getClause (watch_first nl w P) w ! 0 = nl"
proof -
  have len: "length (bp_watchList P) = nat (2 * (bp_nbVar P + 1))" using P by (simp add: bp_ok_def bp_static_def)
  have "0 < count_list (bp_watches (stored nl (kept @ w # ws) P) nl) w"
    using bp_watches_stored [OF len nl nl] by simp
  then have "0 < watch_count A (stored nl (kept @ w # ws) P) nl w"
    using P nl by (simp add: bp_ok_def bp_watched_def)
  then show w: "w \<in> A" by (simp add: watch_count_def split: if_splits)
  then have first: "bp_getClause P w ! 0 = nl \<or> bp_getClause P w ! 1 = nl"
    using \<open>0 < watch_count A (stored nl (kept @ w # ws) P) nl w\<close> by (auto simp: watch_count_def split: if_splits)
  note c = bp_ok_clause [OF P w, simplified]
  then have "0 < length (bp_getClause P w)" "1 < length (bp_getClause P w)" by linarith+
  then have "std_swap (bp_getClause P w) 0 1 ! 0 = bp_getClause P w ! 1" by (simp add: nth_std_swap)
  then show "bp_getClause (watch_first nl w P) w ! 0 = nl"
    using c first by (auto simp: watch_first_def bp_getClause_swap)
  show "bp_ext A (stored nl (kept @ w # ws) P) (stored nl (kept @ w # ws) (watch_first nl w P))"
    using bp_ext_swap [OF P w] bp_ext_refl [OF P] by (simp add: watch_first_def)
qed

lemma visit_step:
  assumes "bp_ok A V" "bp_ext A V W" "bp_ext A W R"
    "\<not> ok \<longrightarrow> (\<forall>m. bp_holds A m W \<longrightarrow> \<not> cube_true (ilit_true m) t)"
  shows "bp_ext A V R \<and> (\<not> ok \<longrightarrow> (\<forall>m. bp_holds A m V \<longrightarrow> \<not> cube_true (ilit_true m) t))"
  using bp_ext_trans [OF assms(1-3)] assms(4) bp_holds_ext [OF assms(1,2)] by simp

text \<open>Clause \<open>w\<close> has a literal of the trail.\<close>

definition bp_sat :: "BipePropagator \<Rightarrow> nat \<Rightarrow> bool" where
  "bp_sat P w \<longleftrightarrow> (\<exists>x\<in>set (bp_getClause P w). x \<in> set (bp_trail P))"

lemma visit_watch_ok:
  assumes run: "visit_watch nl w P = (ok, keep, Q)" and P: "bp_ok A (stored nl (kept @ w # ws) P)"
    and nl: "wf_ilit (bp_nbVar P) nl" "ilit_neg nl \<in> set (bp_trail P)"
  shows "bp_ext A (stored nl (kept @ w # ws) P) (stored nl (kept @ (if keep then w # ws else ws)) Q) \<and>
    bp_trailPos Q = bp_trailPos P \<and> (ok \<and> keep \<longrightarrow> bp_sat Q w) \<and>
    (\<not> ok \<longrightarrow> keep \<and> (\<forall>m. bp_holds A m P \<longrightarrow> \<not> cube_true (ilit_true m) (bp_trail Q)))"
proof -
  define P1 where "P1 = watch_first nl w P"
  define c where "c = bp_getClause P1 w"
  let ?find = "find (\<lambda>pi. bp_value P1 (c ! pi) \<noteq> l_False) [2..<length c]"
  note f = visit_front [OF P nl(1), folded P1_def]
  have ok1: "bp_ok A (stored nl (kept @ w # ws) P1)" using f(2) by (simp add: bp_ext_def)
  have s1: "bp_trail P1 = bp_trail P" "bp_nbVar P1 = bp_nbVar P" "bp_trailPos P1 = bp_trailPos P"
    by (simp_all add: P1_def)
  have h1: "bp_holds A m P1 = bp_holds A m P" for m using bp_holds_ext [OF P f(2)] by simp
  have c0: "c ! 0 = nl" using f(3) by (simp add: c_def)
  have tr: "bp_trail_ok {} P1" using ok1 by (simp add: bp_ok_def bp_trail_ok_def)
  note wc = bp_ok_clause [OF ok1 f(1), simplified, folded c_def]
  have wf: "wf_ilit (bp_nbVar P1) (c ! k)" if "k < length c" for k using wc that by simp
  have one: "1 < length c" using wc by linarith
  note wf1 = wf [OF one]
  have unit: "ilit_true m (c ! 1)"
    if "?find = None" "bp_holds A m P1" "cube_true (ilit_true m) (bp_trail P1)" for m
    using bp_unit_clause [OF ok1 f(1), of m] that c0 nl(2) by (simp add: c_def s1)
  have sat: "bp_sat P1 w" if "k < length c" "bp_value P1 (c ! k) = l_True" for k
    using bp_value_true [OF tr wf that(2)] that(1) by (auto simp: bp_sat_def c_def)
  note run = run [unfolded visit_watch_def, folded watch_first_def P1_def, unfolded Let_def, folded c_def]
  consider (sat) k where "k < length c" "bp_value P1 (c ! k) = l_True" "(ok, keep, Q) = (True, True, P1)"
    | (conf) "bp_value P1 (c ! 1) = l_False" "?find = None" "(ok, keep, Q) = (False, True, P1)"
    | (unit) "l_Undef \<le> bp_value P1 (c ! 1)" "?find = None"
        "(ok, keep, Q) = (True, True, bp_uncheckedEnqueue (c ! 1) P1)"
    | (move) pi where "2 \<le> pi" "pi < length c" "l_Undef \<le> bp_value P1 (c ! pi)"
        "(ok, keep, Q) = (True, False, bp_push (c ! pi) w (bp_swap w 0 pi P1))"
  proof (cases "bp_value P1 (c ! 1) = l_True")
    case True
    then show ?thesis using that(1) [OF one] run by simp
  next
    case F: False
    show ?thesis
    proof (cases ?find)
      case None
      then show ?thesis using that(2,3) run F bp_value_cases [OF tr wf1] by (auto split: if_splits)
    next
      case (Some pi)
      then have "2 \<le> pi" "pi < length c" "bp_value P1 (c ! pi) \<noteq> l_False" by (auto simp: find_Some_iff)
      then show ?thesis
        using that(1,4) [of pi] run F Some bp_value_cases [OF tr wf, of pi] by (auto split: if_splits)
    qed
  qed
  then show ?thesis
  proof cases
    case sat
    then show ?thesis using f(2) s1 \<open>\<And>k. _ \<Longrightarrow> _ \<Longrightarrow> bp_sat P1 w\<close> by simp
  next
    case conf
    have "\<not> cube_true (ilit_true m) (bp_trail P1)" if "bp_holds A m P1" for m
      using unit [OF conf(2) that] bp_false_lit [OF tr wf1 conf(1), of m] by blast
    then show ?thesis using conf f(2) s1 h1 by simp
  next
    case unit': unit
    let ?P2 = "bp_uncheckedEnqueue (c ! 1) P1"
    have "bp_ext A (stored nl (kept @ w # ws) P1) (stored nl (kept @ w # ws) ?P2)"
      using bp_ext_enqueue [OF ok1, of "c ! 1"] wf1 unit'(1) unit [OF unit'(2)] by simp
    moreover have "bp_sat ?P2 w" using one by (auto simp: bp_sat_def c_def)
    ultimately show ?thesis using bp_ext_trans [OF P f(2)] unit'(3) s1 by simp
  next
    case move
    let ?x = "c ! pi"
    note u = bp_value_undef [OF tr wf [OF move(2)] move(3)]
    have v: "ilit_var (ilit_neg ?x) = ilit_var ?x" using neg_parts [OF wf [OF move(2)]] by simp
    then have "ilit_neg ?x \<notin> set (bp_trail P1)" using u by (auto simp: image_iff)
    moreover have "?x \<noteq> nl" using u nl(2) neg_parts(1) [OF nl(1)] s1(1) by (auto simp: image_iff)
    ultimately have "bp_ext A (stored nl (kept @ w # ws) P1)
        (stored nl (kept @ ws) (bp_push ?x w (bp_swap w 0 pi P1)))"
      using bp_ext_move [OF ok1 f(1), of pi] c0 move(1,2) nl(1) s1(2) by (simp add: c_def)
    then show ?thesis using bp_ext_trans [OF P f(2)] move(4) s1 by simp
  qed
qed

lemma bp_sat_ext:
  assumes "bp_ok A P" "bp_ext A P Q" "w \<in> A" "bp_sat P w"
  shows "bp_sat Q w"
proof -
  have "mset (bp_getClause Q w) = mset (bp_getClause P w)"
    using bp_same_mset [of P Q w] bp_ok_clause [OF assms(1,3)] assms(2) by (simp add: bp_ext_def)
  then have "set (bp_getClause Q w) = set (bp_getClause P w)" by (rule mset_eq_setD)
  moreover have "set (bp_trail P) \<subseteq> set (bp_trail Q)" using assms(2) by (auto simp: bp_ext_def fresh_ext_def)
  ultimately show ?thesis using assms(4) by (auto simp: bp_sat_def)
qed

lemma bp_sat_stored [simp]: "bp_sat (stored nl ws P) w = bp_sat P w"
  by (simp add: bp_sat_def)

lemma propagate_watches_ext:
  "propagate_watches nl ws kept P = (ok, kept', Q) \<Longrightarrow> bp_ok A (stored nl (kept @ ws) P) \<Longrightarrow>
     wf_ilit (bp_nbVar P) nl \<Longrightarrow> ilit_neg nl \<in> set (bp_trail P) \<Longrightarrow> \<forall>w\<in>set kept. w \<in> A \<and> bp_sat P w \<Longrightarrow>
     bp_ext A (stored nl (kept @ ws) P) (stored nl kept' Q) \<and> bp_trailPos Q = bp_trailPos P \<and>
     (ok \<longrightarrow> (\<forall>w\<in>set kept'. bp_sat Q w)) \<and>
     (\<not> ok \<longrightarrow> (\<forall>m. bp_holds A m P \<longrightarrow> \<not> cube_true (ilit_true m) (bp_trail Q)))"
proof (induction nl ws kept P arbitrary: ok kept' Q rule: propagate_watches.induct)
  case (1 nl kept P)
  then show ?case by (auto simp: bp_ext_refl)
next
  case (2 nl w ws kept P)
  obtain ok1 keep P1 where v: "visit_watch nl w P = (ok1, keep, P1)" using prod_cases3 by blast
  note V = visit_watch_ok [OF v "2.prems"(2-4)]
  show ?case
  proof (cases ok1)
    case False
    then show ?thesis using V "2.prems"(1) v by auto
  next
    case True
    let ?k = "if keep then kept @ [w] else kept"
    let ?W = "stored nl (?k @ ws) P1"
    have e: "bp_ext A (stored nl (kept @ w # ws) P) ?W" using V by (cases keep) simp_all
    have s: "bp_ok A ?W" "bp_nbVar P1 = bp_nbVar P" "set (bp_trail P) \<subseteq> set (bp_trail P1)"
      using e by (auto simp: bp_ext_def bp_same_def fresh_ext_def)
    have "\<forall>x\<in>set ?k. x \<in> A \<and> bp_sat P1 x"
      using bp_sat_ext [OF "2.prems"(2) e] "2.prems"(5) visit_front(1) [OF "2.prems"(2,3)] V True by simp
    moreover have "propagate_watches nl ws ?k P1 = (ok, kept', Q)" using "2.prems"(1) v True by simp
    ultimately have R: "bp_ext A ?W (stored nl kept' Q) \<and> bp_trailPos Q = bp_trailPos P1 \<and>
        (ok \<longrightarrow> (\<forall>w\<in>set kept'. bp_sat Q w)) \<and>
        (\<not> ok \<longrightarrow> (\<forall>m. bp_holds A m P1 \<longrightarrow> \<not> cube_true (ilit_true m) (bp_trail Q)))"
      using "2.IH" [OF v [symmetric] refl _ _ s(1)] True "2.prems"(3,4) s by auto
    then show ?thesis
      using visit_step [OF "2.prems"(2) e, of "stored nl kept' Q" ok "bp_trail Q"] V by simp
  qed
qed

section \<open>Propagation returns and is sound\<close>

text \<open>
  The literals \<open>T\<close> are propagated: what they imply by a binary clause is in \<open>S\<close>, and every clause with a watch that
  one of them falsifies has a literal of \<open>S\<close>.
\<close>

definition bp_closed :: "nat set \<Rightarrow> ILit set \<Rightarrow> ILit set \<Rightarrow> BipePropagator \<Rightarrow> bool" where
  "bp_closed A T S P \<longleftrightarrow> (\<forall>l\<in>T. set (bp_litImplied P l) \<subseteq> S \<and>
     (\<forall>w\<in>A. ilit_neg l \<in> {bp_getClause P w ! 0, bp_getClause P w ! 1} \<longrightarrow>
        (\<exists>x\<in>set (bp_getClause P w). x \<in> S)))"

lemma bp_closed_mono: "bp_closed A T S P \<Longrightarrow> S \<subseteq> S' \<Longrightarrow> bp_closed A T S' P"
  unfolding bp_closed_def by blast

lemma bp_closed_Un: "bp_closed A (T \<union> T') S P \<longleftrightarrow> bp_closed A T S P \<and> bp_closed A T' S P"
  unfolding bp_closed_def by blast

lemma bp_closed_empty [simp]: "bp_closed A {} S P"
  by (simp add: bp_closed_def)

lemma bp_closed_ext:
  assumes P: "bp_ok A P" "bp_ext A P Q" and c: "bp_closed A T S P" "T \<subseteq> set (bp_trail P)"
  shows "bp_closed A T S Q"
  unfolding bp_closed_def
proof (intro ballI conjI impI)
  fix l assume l: "l \<in> T"
  have s: "bp_same P Q" "bp_rewatch A P Q" using P(2) by (simp_all add: bp_ext_def)
  have "bp_litImplied Q l = bp_litImplied P l" using s(1) by (simp add: bp_same_def bp_litImplied_def)
  then show "set (bp_litImplied Q l) \<subseteq> S" using c(1) l by (simp add: bp_closed_def)
  fix w assume w: "w \<in> A" and x: "ilit_neg l \<in> {bp_getClause Q w ! 0, bp_getClause Q w ! 1}"
  have "l \<in> set (bp_trail P)" using c(2) l by blast
  then have "ilit_neg l \<in> {bp_getClause P w ! 0, bp_getClause P w ! 1}"
    using s(2) w x unfolding bp_rewatch_def by (metis ilit_neg_neg)
  then have "\<exists>x\<in>set (bp_getClause P w). x \<in> S" using c(1) l w unfolding bp_closed_def by blast
  moreover have "mset (bp_getClause Q w) = mset (bp_getClause P w)"
    using bp_same_mset [OF s(1)] bp_ok_clause [OF P(1) w] by simp
  then have "set (bp_getClause Q w) = set (bp_getClause P w)" by (rule mset_eq_setD)
  ultimately show "\<exists>x\<in>set (bp_getClause Q w). x \<in> S" by simp
qed

lemma propagate_lit_ext:
  assumes "propagate_lit l P = (ok, Q)" and P: "bp_ok A P" and l: "l \<in> set (bp_trail P)"
  shows "bp_ext A P Q \<and> bp_trailPos Q = bp_trailPos P \<and> (ok \<longrightarrow> bp_closed A {l} (set (bp_trail Q)) Q) \<and>
    (\<not> ok \<longrightarrow> (\<forall>m. bp_holds A m P \<longrightarrow> \<not> cube_true (ilit_true m) (bp_trail Q)))"
proof -
  let ?nl = "ilit_neg l"
  obtain ok1 P1 where b: "propagate_binary (bp_litImplied P l) P = (ok1, P1)" by fastforce
  note B = propagate_binary_ext [OF b P l order_refl]
  show ?thesis
  proof (cases ok1)
    case False
    then have "ok = ok1" "Q = P1" using assms(1) b by (simp_all add: propagate_lit_def)
    with B False show ?thesis by simp
  next
    case True
    obtain kept P2 where w: "propagate_watches ?nl (bp_watches P1 ?nl) [] P1 = (ok, kept, P2)"
      and Q: "Q = stored ?nl kept P2"
      using assms(1) b True by (auto simp: propagate_lit_def stored_def split: prod.splits)
    have wl: "wf_ilit (bp_nbVar P) l" using P l by (simp add: bp_ok_def bp_trail_ok_def)
    have n: "bp_nbVar P1 = bp_nbVar P" using B by (simp add: bp_ext_def bp_same_def)
    have nl: "wf_ilit (bp_nbVar P1) ?nl" using wf_neg [OF wl] n by simp
    have t: "ilit_neg ?nl \<in> set (bp_trail P1)" using B l by (auto simp: bp_ext_def fresh_ext_def)
    have same: "stored ?nl (bp_watches P1 ?nl) P1 = P1"
      by (simp add: stored_def bp_watches_def vset_def vget_def)
    have "bp_ok A P1" using B by (simp add: bp_ext_def)
    with propagate_watches_ext [OF w _ nl t] have W: "bp_ext A P1 Q \<and> bp_trailPos P2 = bp_trailPos P1 \<and>
        (ok \<longrightarrow> (\<forall>w\<in>set kept. bp_sat P2 w)) \<and>
        (\<not> ok \<longrightarrow> (\<forall>m. bp_holds A m P1 \<longrightarrow> \<not> cube_true (ilit_true m) (bp_trail Q)))"
      by (simp add: same Q)
    have "bp_closed A {l} (set (bp_trail Q)) Q" if ok
    proof -
      have okQ: "bp_ok A Q" and nQ: "bp_nbVar Q = bp_nbVar P1" using W by (simp_all add: bp_ext_def bp_same_def)
      then have nlQ: "wf_ilit (bp_nbVar Q) ?nl" and len: "length (bp_watchList P2) = nat (2 * (bp_nbVar P1 + 1))"
        using nl by (simp_all add: bp_ok_def bp_static_def Q)
      have "w \<in> set kept" if "w \<in> A" "?nl \<in> {bp_getClause Q w ! 0, bp_getClause Q w ! 1}" for w
      proof -
        have "0 < watch_count A Q ?nl w" using that by (auto simp: watch_count_def)
        then have "0 < count_list (bp_watches Q ?nl) w" using okQ nlQ by (simp add: bp_ok_def bp_watched_def)
        then show ?thesis using bp_watches_stored [OF len nl nl, of kept]
          by (cases "w \<in> set kept") (simp_all add: Q)
      qed
      moreover have "set (bp_litImplied Q l) \<subseteq> set (bp_trail Q)"
        using B True W by (auto simp: bp_ext_def bp_same_def bp_litImplied_def fresh_ext_def)
      ultimately show ?thesis using W that by (auto simp: bp_closed_def bp_sat_def Q)
    qed
    then show ?thesis
      using visit_step [OF P, of P1 Q ok "bp_trail Q"] B W by (simp add: Q)
  qed
qed

text \<open>The literals still to propagate and the unassigned variables.\<close>

definition bp_pending :: "BipePropagator \<Rightarrow> nat" where
  "bp_pending P = (length (bp_trail P) - bp_trailPos P) + card ({1..bp_nbVar P} - ilit_var ` set (bp_trail P))"

lemma bp_trail_range: "bp_trail_ok X P \<Longrightarrow> ilit_var ` set (bp_trail P) \<subseteq> {1..bp_nbVar P}"
  by (auto simp: bp_trail_ok_def wf_ilit_def)

lemma bp_ext_card:
  "bp_ext A P Q \<Longrightarrow> length (bp_trail Q) + card ({1..bp_nbVar P} - ilit_var ` set (bp_trail Q)) =
     length (bp_trail P) + card ({1..bp_nbVar P} - ilit_var ` set (bp_trail P)) \<and>
     length (bp_trail P) \<le> length (bp_trail Q)"
  using fresh_ext_card [of ilit_var "bp_trail P" "bp_trail Q" "bp_nbVar P"] bp_trail_range [of "{}" Q]
  by (simp add: bp_ext_def bp_same_def bp_ok_def)

lemma bp_propagate_step:
  "bp_trailPos P < length (bp_trail P) \<Longrightarrow>
     propagate_lit (bp_trail P ! bp_trailPos P) (P\<lparr>bp_trailPos := Suc (bp_trailPos P)\<rparr>) = (ok, Q) \<Longrightarrow>
     bp_propagate P = (if ok then bp_propagate Q else Some (False, Q))"
  by (subst bp_propagate.simps) simp

lemma bp_propagate_done: "\<not> bp_trailPos P < length (bp_trail P) \<Longrightarrow> bp_propagate P = Some (True, P)"
  by (subst bp_propagate.simps) simp

lemma bp_pos_simps [simp]:
  "bp_ok A (P\<lparr>bp_trailPos := q\<rparr>) = bp_ok A P" "bp_ext A (P\<lparr>bp_trailPos := q\<rparr>) Q = bp_ext A P Q"
  "bp_ext A P (Q\<lparr>bp_trailPos := q\<rparr>) = bp_ext A P Q" "bp_holds A m (P\<lparr>bp_trailPos := q\<rparr>) = bp_holds A m P"
  by (simp_all add: bp_ok_def bp_ext_def bp_static_def bp_implied_ok_def bp_watched_def bp_trail_ok_def bp_same_def bp_holds_def
      bp_litImplied_def bp_watches_def bp_getClause_def bp_value_def watch_count_def bp_rewatch_def)

text \<open>The literals before the position are propagated.\<close>

definition bp_progress :: "nat set \<Rightarrow> BipePropagator \<Rightarrow> bool" where
  "bp_progress A P \<longleftrightarrow> bp_closed A (set (take (bp_trailPos P) (bp_trail P))) (set (bp_trail P)) P"

lemma bp_progress_step:
  assumes P: "bp_ok A P" "bp_ext A P Q" "bp_trailPos P < length (bp_trail P)" "bp_trailPos Q = Suc (bp_trailPos P)"
    and c: "bp_progress A P" "bp_closed A {bp_trail P ! bp_trailPos P} (set (bp_trail Q)) Q"
  shows "bp_progress A Q"
proof -
  let ?p = "bp_trailPos P"
  obtain new where "bp_trail Q = bp_trail P @ new" using P(2) by (auto simp: bp_ext_def fresh_ext_def)
  then have t: "set (take (bp_trailPos Q) (bp_trail Q)) = set (take ?p (bp_trail P)) \<union> {bp_trail P ! ?p}"
    using P(3,4) by (simp add: take_Suc_conv_app_nth)
  have "bp_closed A (set (take ?p (bp_trail P))) (set (bp_trail Q)) Q"
    using bp_closed_mono [OF bp_closed_ext [OF P(1,2)] bp_ext_trail [OF P(2)]] c(1)
    by (simp add: bp_progress_def set_take_subset)
  then show ?thesis using c(2) by (simp only: bp_progress_def t bp_closed_Un)
qed

lemma bp_propagate_total:
  "bp_ok A P \<Longrightarrow> \<exists>ok Q. bp_propagate P = Some (ok, Q) \<and> bp_ext A P Q \<and>
     (ok \<longrightarrow> length (bp_trail Q) \<le> bp_trailPos Q) \<and> (ok \<and> bp_progress A P \<longrightarrow> bp_progress A Q) \<and>
     (bp_trailPos P \<le> length (bp_trail P) \<longrightarrow> bp_trailPos Q \<le> length (bp_trail Q)) \<and>
     (\<not> ok \<longrightarrow> (\<forall>m. bp_holds A m P \<longrightarrow> \<not> cube_true (ilit_true m) (bp_trail P)))"
proof (induction "bp_pending P" arbitrary: P rule: less_induct)
  case less
  show ?case
  proof (cases "bp_trailPos P < length (bp_trail P)")
    case False
    then show ?thesis using less.prems by (intro exI [of _ True]) (simp add: bp_propagate_done bp_ext_refl)
  next
    case True
    let ?l = "bp_trail P ! bp_trailPos P" let ?P1 = "P\<lparr>bp_trailPos := Suc (bp_trailPos P)\<rparr>"
    obtain ok Q where pl: "propagate_lit ?l ?P1 = (ok, Q)" by fastforce
    have Q: "bp_ext A P Q" "bp_trailPos Q = Suc (bp_trailPos P)" "ok \<longrightarrow> bp_closed A {?l} (set (bp_trail Q)) Q"
        "\<not> ok \<longrightarrow> (\<forall>m. bp_holds A m P \<longrightarrow> \<not> cube_true (ilit_true m) (bp_trail Q))"
      using propagate_lit_ext [OF pl, of A] less.prems True by simp_all
    have len: "bp_trailPos Q \<le> length (bp_trail Q)" using bp_ext_card [OF Q(1)] Q(2) True by simp
    have up: "cube_true (ilit_true m) (bp_trail P) \<longrightarrow> cube_true (ilit_true m) (bp_trail Q)" if "bp_holds A m P" for m
      using Q(1) that by (simp add: bp_ext_def)
    show ?thesis
    proof (cases ok)
      case False
      then have "bp_propagate P = Some (False, Q)" using bp_propagate_step [OF True pl] by simp
      with Q False up len show ?thesis by (intro exI [of _ False] exI [of _ Q]) auto
    next
      case ok: True
      have n: "bp_nbVar Q = bp_nbVar P" and okQ: "bp_ok A Q" using Q(1) by (simp_all add: bp_ext_def bp_same_def)
      then have "bp_pending Q < bp_pending P"
        using bp_ext_card [OF Q(1)] Q(2) True by (simp add: bp_pending_def)
      from less.hyps [OF this okQ] obtain ok' R where R: "bp_propagate Q = Some (ok', R)" "bp_ext A Q R"
          "ok' \<longrightarrow> length (bp_trail R) \<le> bp_trailPos R" "ok' \<and> bp_progress A Q \<longrightarrow> bp_progress A R"
          "bp_trailPos Q \<le> length (bp_trail Q) \<longrightarrow> bp_trailPos R \<le> length (bp_trail R)"
          "\<not> ok' \<longrightarrow> (\<forall>m. bp_holds A m Q \<longrightarrow> \<not> cube_true (ilit_true m) (bp_trail Q))" by blast
      have "bp_propagate P = Some (ok', R)" using bp_propagate_step [OF True pl] ok R(1) by simp
      then show ?thesis
        using R(3-6) len bp_ext_trans [OF less.prems Q(1) R(2)] up bp_holds_ext [OF less.prems Q(1)]
          bp_progress_step [OF less.prems Q(1) True Q(2)] Q(3) ok
        by (intro exI [of _ ok'] exI [of _ R]) auto
    qed
  qed
qed

text \<open>A fixpoint without conflict: every attached clause has a literal of the trail or two watches that are not
  false.\<close>

lemma bp_fixpoint:
  assumes P: "bp_ok A P" and c: "bp_progress A P" "length (bp_trail P) \<le> bp_trailPos P" and w: "w \<in> A"
  shows "bp_sat P w \<or> bp_value P (bp_getClause P w ! 0) \<noteq> l_False \<and> bp_value P (bp_getClause P w ! 1) \<noteq> l_False"
proof -
  have tr: "bp_trail_ok {} P" using P by (simp add: bp_ok_def)
  have "bp_sat P w" if x: "x \<in> {bp_getClause P w ! 0, bp_getClause P w ! 1}" "bp_value P x = l_False" for x
  proof -
    have "0 < length (bp_getClause P w)" "1 < length (bp_getClause P w)" using bp_ok_clause [OF P w] by linarith+
    then have "wf_ilit (bp_nbVar P) x" using bp_ok_clause [OF P w] x(1) by auto
    from bp_value_false [OF tr this x(2)] have "ilit_neg x \<in> set (bp_trail P)" .
    moreover have "bp_closed A (set (bp_trail P)) (set (bp_trail P)) P" using c by (simp add: bp_progress_def)
    ultimately show ?thesis using x(1) w unfolding bp_closed_def bp_sat_def by (metis ilit_neg_neg)
  qed
  then show ?thesis by blast
qed

section \<open>Backtracking and restarting\<close>

definition unassign :: "ILit list \<Rightarrow> int list \<Rightarrow> int list" where
  "unassign ls a = fold (\<lambda>l a. vset a (ilit_var l) l_Undef) ls a"

lemma undef_xor: "l_Undef \<le> of_bool b XOR l_Undef"
  by (cases b) (simp_all add: l_Undef_def)

lemma unassign_spec:
  assumes P: "bp_static P" and ls: "\<forall>k\<in>set ls. wf_ilit (bp_nbVar P) k"
  shows "length (unassign ls (bp_assign P)) = length (bp_assign P)"
    "wf_ilit (bp_nbVar P) l \<Longrightarrow> ilit_var l \<in> ilit_var ` set ls \<Longrightarrow>
       l_Undef \<le> bp_value (P\<lparr>bp_assign := unassign ls (bp_assign P)\<rparr>) l"
    "wf_ilit (bp_nbVar P) l \<Longrightarrow> ilit_var l \<notin> ilit_var ` set ls \<Longrightarrow>
       bp_value (P\<lparr>bp_assign := unassign ls (bp_assign P)\<rparr>) l = bp_value P l"
proof -
  have vin: "\<forall>k\<in>set ls. vin (bp_assign P) (ilit_var k)" using ls bp_static_vin(1) [OF P] by blast
  show "length (unassign ls (bp_assign P)) = length (bp_assign P)" by (simp add: unassign_def length_fold_vset)
  assume l: "wf_ilit (bp_nbVar P) l"
  then have "vget (unassign ls (bp_assign P)) (ilit_var l) =
      (if ilit_var l \<in> ilit_var ` set ls then l_Undef else vget (bp_assign P) (ilit_var l))"
    using vget_fold_vset [OF vin, of "ilit_var l" l_Undef] by (simp add: unassign_def wf_ilit_def)
  then show "ilit_var l \<in> ilit_var ` set ls \<Longrightarrow>
       l_Undef \<le> bp_value (P\<lparr>bp_assign := unassign ls (bp_assign P)\<rparr>) l"
    "ilit_var l \<notin> ilit_var ` set ls \<Longrightarrow>
       bp_value (P\<lparr>bp_assign := unassign ls (bp_assign P)\<rparr>) l = bp_value P l"
    using undef_xor by (simp_all add: bp_value_def)
qed

lemma set_unassign: "set a \<subseteq> V \<Longrightarrow> l_Undef \<in> V \<Longrightarrow> set (unassign ls a) \<subseteq> V"
  unfolding unassign_def by (induction ls arbitrary: a) (simp_all add: set_vset)

lemma cancel_trail_unassign:
  "bp_trail P = base @ rest \<Longrightarrow>
     cancel_trail (length base) P = P\<lparr>bp_trail := base, bp_assign := unassign (rev rest) (bp_assign P)\<rparr>"
proof (induction rest arbitrary: P rule: rev_induct)
  case Nil
  then show ?case by (subst cancel_trail.simps) (simp add: unassign_def)
next
  case (snoc l rest)
  let ?Q = "P\<lparr>bp_trail := base @ rest, bp_assign := vset (bp_assign P) (ilit_var l) l_Undef\<rparr>"
  have "cancel_trail (length base) P = cancel_trail (length base) ?Q"
    using snoc.prems by (subst cancel_trail.simps) (simp add: butlast_append flip: append_assoc)
  then show ?case using snoc.IH [of ?Q] by (simp add: unassign_def)
qed

text \<open>Back to the trail \<open>base\<close>, by either operation.\<close>

lemma bp_back_ok:
  assumes P: "bp_ok A P" and t: "bp_trail P = base @ rest" and X: "ilit_var ` set rest \<inter> ilit_var ` set base \<subseteq> X"
    and Q: "Q = P\<lparr>bp_trail := base, bp_assign := unassign ls (bp_assign P), bp_trailPos := q\<rparr>" "set ls = set rest"
  shows "bp_static Q" "bp_watched A Q" "bp_trail_ok X Q" "bp_same P Q" "bp_holds A m Q = bp_holds A m P"
proof -
  have st: "bp_static P" and tr: "bp_trail_ok {} P" using P by (simp_all add: bp_ok_def)
  have wf: "\<forall>k\<in>set ls. wf_ilit (bp_nbVar P) k" using tr t Q(2) by (simp add: bp_trail_ok_def)
  note u = unassign_spec [OF st wf]
  have v: "bp_value Q l = bp_value (P\<lparr>bp_assign := unassign ls (bp_assign P)\<rparr>) l" for l
    by (simp add: Q(1) bp_value_def)
  show "bp_static Q" using st u(1) set_unassign [of "bp_assign P" "{l_True, l_False, l_Undef}" ls]
    by (simp add: Q(1) bp_static_def bp_implied_ok_def bp_litImplied_def)
  show "bp_watched A Q" using P
    by (simp add: Q(1) bp_ok_def bp_watched_def watch_count_def bp_watches_def bp_getClause_def)
  show "bp_same P Q" by (simp add: Q(1) bp_same_def)
  show "bp_holds A m Q = bp_holds A m P" by (simp add: Q(1) bp_holds_def bp_litImplied_def bp_getClause_def)
  show "bp_trail_ok X Q"
    unfolding bp_trail_ok_def
  proof (intro conjI ballI allI impI)
    fix l assume "l \<in> set (bp_trail Q)"
    then show "wf_ilit (bp_nbVar Q) l" using tr t by (simp add: Q(1) bp_trail_ok_def)
  next
    fix l assume "wf_ilit (bp_nbVar Q) l"
    then have l: "wf_ilit (bp_nbVar P) l" by (simp add: Q(1))
    have n: "ilit_var (ilit_neg l) = ilit_var l" using neg_parts [OF l] by simp
    show "bp_value Q l = l_True \<and> l \<in> set (bp_trail Q) \<or> bp_value Q l = l_False \<and> ilit_neg l \<in> set (bp_trail Q) \<or>
        l_Undef \<le> bp_value Q l \<and> (ilit_var l \<notin> X \<longrightarrow> ilit_var l \<notin> ilit_var ` set (bp_trail Q))"
    proof (cases "ilit_var l \<in> ilit_var ` set rest")
      case True
      then have "l_Undef \<le> bp_value Q l" using u(2) [OF l] v Q(2) by simp
      then show ?thesis using True X by (auto simp: Q(1))
    next
      case False
      then have "l \<notin> set rest" "ilit_neg l \<notin> set rest" using n by (auto simp: image_iff)
      moreover have "bp_value Q l = bp_value P l" using u(3) [OF l] v Q(2) False by simp
      ultimately show ?thesis using tr l t by (simp add: Q(1) bp_trail_ok_def) blast
    qed
  qed
qed

lemma bp_cancel_eq:
  assumes "bp_trail P = base @ rest"
  shows "bp_cancelUntilPos (length base) P = P\<lparr>bp_trail := base,
    bp_assign := unassign (rev rest) (bp_assign P), bp_trailPos := min (length base) (bp_trailPos P)\<rparr>"
  by (simp add: bp_cancelUntilPos_def cancel_trail_unassign [OF assms] Let_def min_def)

lemma bp_restart_eq:
  "bp_restart P = P\<lparr>bp_trail := take (bp_trailLimUnit P) (bp_trail P),
     bp_assign := unassign (drop (bp_trailLimUnit P) (bp_trail P)) (bp_assign P), bp_trailPos := bp_trailLimUnit P\<rparr>"
  by (simp add: bp_restart_def unassign_def)

section \<open>The interface\<close>

text \<open>The clauses of a propagator, the literals of a stored clause in a fixed order.\<close>

definition bp_lits :: "int \<Rightarrow> ILit list" where
  "bp_lits n = concat (map (\<lambda>v. [ilit_make v False, ilit_make v True]) [1..n])"

definition bp_formula :: "BipePropagator \<Rightarrow> ILit list list" where
  "bp_formula P = concat (map (\<lambda>l. map (\<lambda>b. [ilit_neg l, b]) (bp_litImplied P l)) (bp_lits (bp_nbVar P))) @
     map (\<lambda>w. sort (bp_getClause P w)) (bp_notBinClauseRefs P)"

abbreviation bp_inv :: "BipePropagator \<Rightarrow> bool" where
  "bp_inv P \<equiv> bp_ok (set (bp_notBinClauseRefs P)) P"

lemma set_bp_lits: "n < 2 ^ 30 \<Longrightarrow> set (bp_lits n) = {l. wf_ilit n l}"
proof (intro set_eqI iffI)
  fix l assume n: "n < 2 ^ 30" and "l \<in> set (bp_lits n)"
  then obtain v s where "l = ilit_make v s" "1 \<le> v" "v \<le> n" by (auto simp: bp_lits_def)
  then show "l \<in> {l. wf_ilit n l}" using n by (simp add: wf_ilit_def)
next
  fix l assume "l \<in> {l. wf_ilit n l}"
  then have "l = ilit_make (ilit_var l) (ilit_sign l)" "ilit_var l \<in> set [1..n]"
    using wf_ilit_make by (auto simp: wf_ilit_def)
  then show "l \<in> set (bp_lits n)"
    unfolding bp_lits_def by (cases "ilit_sign l") auto
qed

lemma bp_formula_enqueue [simp]: "bp_formula (bp_uncheckedEnqueue l P) = bp_formula P"
  by (simp add: bp_formula_def)

lemma bp_formula_models:
  assumes "bp_static P"
  shows "cnf_true (ilit_true m) (bp_formula P) \<longleftrightarrow> bp_holds (set (bp_notBinClauseRefs P)) m P"
proof -
  let ?n = "bp_nbVar P"
  have n: "?n < 2 ^ 30" using assms by (simp add: bp_static_def)
  have "cnf_true (ilit_true m) (concat (map (\<lambda>l. map (\<lambda>b. [ilit_neg l, b]) (bp_litImplied P l)) (bp_lits ?n))) \<longleftrightarrow>
    (\<forall>l. wf_ilit ?n l \<longrightarrow> ilit_true m l \<longrightarrow> (\<forall>b\<in>set (bp_litImplied P l). ilit_true m b))"
    using ilit_true_neg [of ?n _ m] by (auto simp: cnf_true_iff clause_true_iff set_bp_lits [OF n])
  moreover have "cnf_true (ilit_true m) (map (\<lambda>w. sort (bp_getClause P w)) (bp_notBinClauseRefs P)) \<longleftrightarrow>
    (\<forall>w\<in>set (bp_notBinClauseRefs P). clause_true (ilit_true m) (bp_getClause P w))"
    by (simp add: cnf_true_iff clause_true_iff)
  ultimately show ?thesis by (simp add: bp_formula_def bp_holds_def)
qed

lemma bp_formula_same:
  assumes "bp_same P Q" "set (bp_notBinClauseRefs P) \<subseteq> {..<length (bp_clauses P)}"
  shows "bp_formula Q = bp_formula P"
proof -
  have "sort (bp_getClause Q w) = sort (bp_getClause P w)" if "w \<in> set (bp_notBinClauseRefs P)" for w
  proof -
    have "mset (bp_getClause Q w) = mset (bp_getClause P w)" using bp_same_mset [OF assms(1)] assms(2) that by blast
    then show ?thesis by (metis sorted_list_of_multiset_mset)
  qed
  then show ?thesis using assms(1) by (simp add: bp_formula_def bp_same_def bp_litImplied_def cong: map_cong)
qed

interpretation bipe_prop: unit_propagator
  bp_inv bp_trail bp_formula bp_nbVar ilit_var ilit_true bp_uncheckedEnqueue bp_propagate bp_cancelUntilPos
proof unfold_locales
  fix P :: BipePropagator and l :: ILit
  assume P: "bp_inv P"
  note rng = bp_ok_range [OF P]
  show "l \<in> set (bp_trail P) \<Longrightarrow> 0 < ilit_var l \<and> ilit_var l \<le> bp_nbVar P"
    using P by (auto simp: bp_ok_def bp_trail_ok_def wf_ilit_def)
  show "0 < ilit_var l \<Longrightarrow> ilit_var l \<le> bp_nbVar P \<Longrightarrow> bp_inv (bp_uncheckedEnqueue l P) \<and>
      bp_trail (bp_uncheckedEnqueue l P) = bp_trail P @ [l] \<and>
      bp_formula (bp_uncheckedEnqueue l P) = bp_formula P \<and> bp_nbVar (bp_uncheckedEnqueue l P) = bp_nbVar P"
  proof -
    assume "0 < ilit_var l" "ilit_var l \<le> bp_nbVar P"
    moreover have "bp_nbVar P < 2 ^ 30" using P by (simp add: bp_ok_def bp_static_def)
    ultimately have "wf_ilit (bp_nbVar P) l" by (simp add: wf_ilit_def)
    from bp_ok_enqueue [OF P this] show ?thesis by simp
  qed
  obtain ok Q where Q: "bp_propagate P = Some (ok, Q)" "bp_ext (set (bp_notBinClauseRefs P)) P Q"
    "\<not> ok \<longrightarrow> (\<forall>m. bp_holds (set (bp_notBinClauseRefs P)) m P \<longrightarrow> \<not> cube_true (ilit_true m) (bp_trail P))"
    using bp_propagate_total [OF P] by blast
  have s: "bp_same P Q" "bp_notBinClauseRefs Q = bp_notBinClauseRefs P" "bp_nbVar Q = bp_nbVar P"
    using Q(2) by (simp_all add: bp_ext_def bp_same_def)
  obtain new where new: "bp_trail Q = bp_trail P @ new" "distinct (map ilit_var new)"
    "ilit_var ` set new \<inter> ilit_var ` set (bp_trail P) = {}"
    using Q(2) by (auto simp: bp_ext_def fresh_ext_def)
  have "\<forall>m. cnf_true (ilit_true m) (bp_formula P) \<longrightarrow> cube_true (ilit_true m) (bp_trail P) \<longrightarrow>
        ok \<and> cube_true (ilit_true m) (bp_trail Q)"
    using Q(2,3) bp_formula_models [of P] P by (auto simp: bp_ext_def bp_ok_def)
  then show "\<exists>ok Q new. bp_propagate P = Some (ok, Q) \<and> bp_inv Q \<and> bp_formula Q = bp_formula P \<and>
      bp_nbVar Q = bp_nbVar P \<and> bp_trail Q = bp_trail P @ new \<and> distinct (map ilit_var new) \<and>
      ilit_var ` set new \<inter> ilit_var ` set (bp_trail P) = {} \<and>
      (\<forall>m. cnf_true (ilit_true m) (bp_formula P) \<longrightarrow> cube_true (ilit_true m) (bp_trail P) \<longrightarrow>
        ok \<and> cube_true (ilit_true m) (bp_trail Q))"
  proof (intro exI [of _ ok] exI [of _ Q] exI [of _ new] conjI Q(1) new s(3) bp_formula_same [OF s(1) rng])
    show "bp_inv Q" using Q(2) s(2) by (simp add: bp_ext_def)
  qed
next
  fix P :: BipePropagator and l :: ILit and base rest
  assume P: "bp_inv P" and t: "bp_trail P = base @ rest" "ilit_var ` set rest \<inter> ilit_var ` set base \<subseteq> {ilit_var l}"
    and l: "0 < ilit_var l" "ilit_var l \<le> bp_nbVar P"
  let ?Q = "bp_cancelUntilPos (length base) P"
  note c = bp_back_ok [OF P t bp_cancel_eq [OF t(1)], simplified]
  have s: "bp_nbVar ?Q = bp_nbVar P" "bp_notBinClauseRefs ?Q = bp_notBinClauseRefs P" "bp_trail ?Q = base"
    by (simp_all add: bp_cancel_eq [OF t(1)])
  have wl: "wf_ilit (bp_nbVar ?Q) l" using l c(1) s(1) by (simp add: wf_ilit_def bp_static_def)
  have "bp_ok (set (bp_notBinClauseRefs P)) (bp_uncheckedEnqueue l ?Q)"
    unfolding bp_ok_def
  proof (intro conjI)
    show "bp_trail_ok {} (bp_uncheckedEnqueue l ?Q)" using bp_trail_ok_enqueue [OF c(1,3) wl] by simp
    show "bp_static (bp_uncheckedEnqueue l ?Q)" by (rule bp_static_enqueue [OF c(1)])
    show "bp_watched (set (bp_notBinClauseRefs P)) (bp_uncheckedEnqueue l ?Q)"
      using c(2) by (simp add: bp_watched_def watch_count_def)
  qed
  moreover have "bp_formula ?Q = bp_formula P" by (rule bp_formula_same [OF c(4) bp_ok_range [OF P]])
  ultimately show "bp_inv (bp_uncheckedEnqueue l ?Q) \<and> bp_trail (bp_uncheckedEnqueue l ?Q) = base @ [l] \<and>
      bp_formula (bp_uncheckedEnqueue l ?Q) = bp_formula P \<and> bp_nbVar (bp_uncheckedEnqueue l ?Q) = bp_nbVar P"
    using s by simp
qed

end
