(* ===== verification/Bipe_Formula.thy ===== *)
theory Bipe_Formula
  imports Bipe_Propagator
begin

text \<open>
  Building a \<open>bipe::reducer::Propagator\<close> from clauses (the constructor and \<open>addClause\<close>) and reading the clauses back
  (\<open>extractFormula\<close>, \<open>display\<close>): both keep the models, and no list outgrows the memory the constructor reserves.
  The code indexes vectors of size \<open>2 * (nbVar + 1)\<close> with \<open>unsigned\<close>; \<open>nbVar\<close> is below \<open>2 ^ 30\<close> here. \<open>None\<close> is
  a call that does not return, which \<open>constructor_ok\<close> excludes.
\<close>

section \<open>Adding clauses\<close>

text \<open>The clause without its false literals; the loop stops at a true one.\<close>

fun reduce_by_units :: "BipePropagator \<Rightarrow> ILit list \<Rightarrow> ILit list \<Rightarrow> bool \<times> ILit list" where
  "reduce_by_units P [] kept = (False, kept)"
| "reduce_by_units P (l # clause) kept =
     (if l_Undef \<le> bp_value P l then reduce_by_units P clause (kept @ [l])
      else if bp_value P l = l_True then (True, [])
      else reduce_by_units P clause kept)"

definition bp_addLong :: "ILit list \<Rightarrow> BipePropagator \<Rightarrow> BipePropagator" where
  "bp_addLong c P =
     (let cref = length (bp_clauses P)
      in bp_attachClause cref
           (P\<lparr>bp_notBinClauseRefs := bp_notBinClauseRefs P @ [cref], bp_clauses := bp_clauses P @ [c]\<rparr>))"

definition bp_addClause :: "ILit list \<Rightarrow> BipePropagator \<Rightarrow> BipePropagator option" where
  "bp_addClause clause P =
     (if bp_isUnsat P then Some P
      else case reduce_by_units P clause [] of (isSat, c) \<Rightarrow>
        if length c = 0 then Some (P\<lparr>bp_isUnsat := \<not> isSat\<rparr>)
        else if length c = 1 then
          if vget (bp_assign P) (ilit_var (c ! 0)) = l_Undef then
            (case bp_propagate (bp_uncheckedEnqueue (c ! 0) P) of None \<Rightarrow> None
             | Some (ok, Q) \<Rightarrow> Some (Q\<lparr>bp_isUnsat := \<not> ok\<rparr>))
          else Some (P\<lparr>bp_isUnsat := (bp_value P (c ! 0) = l_False)\<rparr>)
        else if length c = 2 then Some (bp_addBinary (c ! 0) (c ! 1) P)
        else Some (bp_addLong c P))"

fun bp_addClauses :: "ILit list list \<Rightarrow> BipePropagator \<Rightarrow> BipePropagator option" where
  "bp_addClauses [] P = Some P"
| "bp_addClauses (cl # clauses) P = (case bp_addClause cl P of None \<Rightarrow> None
     | Some Q \<Rightarrow> if bp_isUnsat Q then Some Q else bp_addClauses clauses Q)"

definition bp_empty :: "int \<Rightarrow> BipePropagator" where
  "bp_empty n = \<lparr>bp_nbVar = n, bp_isUnsat = False, bp_clauses = [], bp_notBinClauseRefs = [],
     bp_binListRefs = replicate (nat (2 * (n + 1))) [], bp_watchList = replicate (nat (2 * (n + 1))) [],
     bp_trail = [], bp_trailLimUnit = 0, bp_trailPos = 0, bp_assign = replicate (nat (2 * (n + 1))) l_Undef\<rparr>"

definition mkBipePropagator :: "int \<Rightarrow> ILit list list \<Rightarrow> BipePropagator option" where
  "mkBipePropagator n clauses = (case bp_addClauses clauses (bp_empty n) of None \<Rightarrow> None
     | Some P \<Rightarrow> Some (if \<not> bp_isUnsat P then P\<lparr>bp_trailLimUnit := length (bp_trail P)\<rparr> else P))"

section \<open>Extracting the formula\<close>

definition generateUnsat :: "ILit list list" where
  "generateUnsat = [[ilit_make_true 1], [ilit_make_false 1]]"

definition extract_implied :: "BipePropagator \<Rightarrow> nat \<Rightarrow> ILit \<Rightarrow> ILit \<Rightarrow> ILit list list" where
  "extract_implied P lit l1 l2 =
     (if ilit_intern l2 < int lit then
        if bp_value P l2 = l_True then []
        else if l_Undef \<le> bp_value P l1 \<and> l_Undef \<le> bp_value P l2 then [[l1, l2]]
        else if bp_value P l1 = l_False then [[l2]]
        else if bp_value P l2 = l_False then [[ilit_neg l1]]
        else []
      else [])"

definition extract_binary :: "BipePropagator \<Rightarrow> nat \<Rightarrow> ILit list list" where
  "extract_binary P lit =
     (let l1 = ilit_make (int (lit div 2)) ((int lit XOR 1) AND 1 \<noteq> 0)
      in if bp_value P l1 = l_True then [] else concat (map (extract_implied P lit l1) (bp_binListRefs P ! lit)))"

fun extract_clause :: "BipePropagator \<Rightarrow> ILit list \<Rightarrow> ILit list \<Rightarrow> bool \<times> ILit list" where
  "extract_clause P [] cl = (False, cl)"
| "extract_clause P (l # c) cl =
     (if l_Undef \<le> bp_value P l then extract_clause P c (cl @ [l])
      else if bp_value P l = l_True then (True, cl)
      else extract_clause P c cl)"

fun extract_long :: "BipePropagator \<Rightarrow> nat list \<Rightarrow> ILit list list \<Rightarrow> ILit list list" where
  "extract_long P [] clauses = clauses"
| "extract_long P (cref # crefs) clauses =
     (case extract_clause P (bp_getClause P cref) [] of (isSAT, cl) \<Rightarrow>
        if isSAT then extract_long P crefs clauses
        else if length cl = 0 then generateUnsat
        else extract_long P crefs (clauses @ [cl]))"

definition extractFormula :: "BipePropagator \<Rightarrow> ILit list list" where
  "extractFormula P =
     (if bp_isUnsat P then generateUnsat
      else extract_long P (bp_notBinClauseRefs P)
        (map (\<lambda>i. [bp_trail P ! i]) [0..<bp_trailLimUnit P] @
         concat (map (extract_binary P) [0..<length (bp_binListRefs P)])))"

definition bp_display :: "BipePropagator \<Rightarrow> string" where
  "bp_display P =
     (let clauses = extractFormula P
      in ''p cnf '' @ show_int (bp_nbVar P) @ '' '' @ show_int (int (length clauses)) @ [CHR 0x0A] @
         concat (map (\<lambda>c. concat (map (\<lambda>l. show_int (ilit_human l) @ '' '') c) @ ''0'' @ [CHR 0x0A]) clauses))"

section \<open>What a clause adds\<close>

abbreviation bp_refs :: "BipePropagator \<Rightarrow> nat set" where
  "bp_refs P \<equiv> set (bp_notBinClauseRefs P)"

definition bp_models :: "(int \<Rightarrow> bool) \<Rightarrow> BipePropagator \<Rightarrow> bool" where
  "bp_models m P \<longleftrightarrow> \<not> bp_isUnsat P \<and> bp_holds (bp_refs P) m P \<and> cube_true (ilit_true m) (bp_trail P)"

text \<open>Nothing is left to propagate.\<close>

definition bp_done :: "nat set \<Rightarrow> BipePropagator \<Rightarrow> bool" where
  "bp_done A P \<longleftrightarrow> bp_progress A P \<and> bp_trailPos P = length (bp_trail P)"

lemma reduce_by_units_nil: "reduce_by_units P c kept = (True, c') \<Longrightarrow> c' = []"
  by (induction P c kept rule: reduce_by_units.induct) (auto split: if_splits)

lemma reduce_by_units_true:
  "reduce_by_units P c kept = (True, c') \<Longrightarrow> bp_trail_ok X P \<Longrightarrow> \<forall>l\<in>set c. wf_ilit (bp_nbVar P) l \<Longrightarrow>
     cube_true (ilit_true m) (bp_trail P) \<Longrightarrow> clause_true (ilit_true m) c"
proof (induction P c kept rule: reduce_by_units.induct)
  case (2 P l c kept)
  show ?case
  proof (cases "bp_value P l = l_True")
    case True
    then have "l \<in> set (bp_trail P)" using bp_value_true "2.prems" by simp
    then show ?thesis using True "2.prems" by (auto simp: l_True_def l_Undef_def cube_true_iff)
  next
    case False
    then show ?thesis using 2 by (auto split: if_splits)
  qed
qed simp

lemma reduce_by_units_false:
  "reduce_by_units P c kept = (False, c') \<Longrightarrow> bp_trail_ok X P \<Longrightarrow> \<forall>l\<in>set c. wf_ilit (bp_nbVar P) l \<Longrightarrow>
     c' = kept @ filter (\<lambda>l. l_Undef \<le> bp_value P l) c \<and>
     (cube_true (ilit_true m) (bp_trail P) \<longrightarrow> clause_true (ilit_true m) c =
        clause_true (ilit_true m) (filter (\<lambda>l. l_Undef \<le> bp_value P l) c))"
proof (induction P c kept rule: reduce_by_units.induct)
  case (2 P l c kept)
  have "\<not> ilit_true m l" if "\<not> l_Undef \<le> bp_value P l" "cube_true (ilit_true m) (bp_trail P)"
  proof -
    have "bp_value P l = l_False"
      using that(1) "2.prems" bp_value_cases [of X P l] by (auto split: if_splits)
    then show ?thesis using bp_false_lit [of X P l m] "2.prems" that(2) by simp
  qed
  then show ?case using 2 by (auto split: if_splits)
qed simp

lemma bp_litImplied_addBinary:
  assumes "length (bp_binListRefs P) = nat (2 * (n + 1))" "wf_ilit n a" "wf_ilit n b" "wf_ilit n l"
  shows "bp_litImplied (bp_addBinary a b P) l =
    bp_litImplied P l @ (if l = ilit_neg a then [b] else []) @ (if l = ilit_neg b then [a] else [])"
  using vget_vset_lit [OF wf_neg [OF assms(2)] assms(4,1)]
    vget_vset_lit [OF wf_neg [OF assms(3)] assms(4), of "vset (bp_binListRefs P) (ilit_intern (ilit_neg a)) x" for x]
    vget_vset_lit [OF wf_neg [OF assms(2)] wf_neg [OF assms(3)] assms(1)] assms(1)
  by (auto simp: bp_addBinary_def Let_def bp_litImplied_def)

lemma addBinary_simps [simp]:
  "bp_nbVar (bp_addBinary a b P) = bp_nbVar P" "bp_isUnsat (bp_addBinary a b P) = bp_isUnsat P"
  "bp_clauses (bp_addBinary a b P) = bp_clauses P" "bp_getClause (bp_addBinary a b P) w = bp_getClause P w"
  "bp_notBinClauseRefs (bp_addBinary a b P) = bp_notBinClauseRefs P"
  "bp_watchList (bp_addBinary a b P) = bp_watchList P" "bp_watches (bp_addBinary a b P) x = bp_watches P x"
  "bp_trail (bp_addBinary a b P) = bp_trail P" "bp_assign (bp_addBinary a b P) = bp_assign P"
  "bp_value (bp_addBinary a b P) x = bp_value P x" "bp_trailPos (bp_addBinary a b P) = bp_trailPos P"
  "bp_trailLimUnit (bp_addBinary a b P) = bp_trailLimUnit P"
  "length (bp_binListRefs (bp_addBinary a b P)) = length (bp_binListRefs P)"
  by (simp_all add: bp_addBinary_def Let_def bp_getClause_def bp_watches_def bp_value_def)

lemma bp_addBinary_ok:
  assumes P: "bp_ok A P" and ab: "wf_ilit (bp_nbVar P) a" "wf_ilit (bp_nbVar P) b"
  shows "bp_ok A (bp_addBinary a b P)"
    "bp_holds A m (bp_addBinary a b P) \<longleftrightarrow> bp_holds A m P \<and> clause_true (ilit_true m) [a, b]"
proof -
  let ?n = "bp_nbVar P" let ?Q = "bp_addBinary a b P"
  have st: "bp_static P" and len: "length (bp_binListRefs P) = nat (2 * (?n + 1))"
    using P by (simp_all add: bp_ok_def bp_static_def)
  note imp = bp_litImplied_addBinary [OF len ab]
  have "bp_implied_ok ?Q"
    using st ab imp by (auto simp: bp_static_def bp_implied_ok_def)
  then show "bp_ok A ?Q"
    using P by (simp add: bp_ok_def bp_static_def bp_watched_def bp_trail_ok_def watch_count_def)
  have "(\<forall>l. wf_ilit ?n l \<longrightarrow> ilit_true m l \<longrightarrow> (\<forall>x\<in>set (bp_litImplied ?Q l). ilit_true m x)) \<longleftrightarrow>
      (\<forall>l. wf_ilit ?n l \<longrightarrow> ilit_true m l \<longrightarrow> (\<forall>x\<in>set (bp_litImplied P l). ilit_true m x)) \<and>
      (ilit_true m (ilit_neg a) \<longrightarrow> ilit_true m b) \<and> (ilit_true m (ilit_neg b) \<longrightarrow> ilit_true m a)"
    using imp wf_neg [OF ab(1)] wf_neg [OF ab(2)] by (auto split: if_splits)
  then show "bp_holds A m ?Q \<longleftrightarrow> bp_holds A m P \<and> clause_true (ilit_true m) [a, b]"
    using ilit_true_neg [OF ab(1)] ilit_true_neg [OF ab(2)] by (auto simp: bp_holds_def)
qed

lemma bp_addBinary_closed:
  assumes P: "bp_ok A P" and ab: "wf_ilit (bp_nbVar P) a" "wf_ilit (bp_nbVar P) b"
    and T: "\<forall>l\<in>T. wf_ilit (bp_nbVar P) l" "ilit_neg a \<notin> T" "ilit_neg b \<notin> T"
  shows "bp_closed A T S (bp_addBinary a b P) = bp_closed A T S P"
proof -
  have "length (bp_binListRefs P) = nat (2 * (bp_nbVar P + 1))" using P by (simp add: bp_ok_def bp_static_def)
  note imp = bp_litImplied_addBinary [OF this ab]
  have "bp_litImplied (bp_addBinary a b P) l = bp_litImplied P l" if "l \<in> T" for l
    using imp T that by auto
  then show ?thesis by (simp add: bp_closed_def)
qed

lemma bp_watches_attach:
  assumes "length (bp_watchList P) = nat (2 * (n + 1))" "wf_ilit n (bp_getClause P w ! 0)"
    "wf_ilit n (bp_getClause P w ! 1)" "wf_ilit n l"
  shows "bp_watches (bp_attachClause w P) l = bp_watches P l @
    (if l = bp_getClause P w ! 0 then [w] else []) @ (if l = bp_getClause P w ! 1 then [w] else [])"
  using assms by (simp add: bp_attachClause_def Let_def bp_watches_push [where n = n])

lemma attach_simps [simp]:
  "bp_nbVar (bp_attachClause w P) = bp_nbVar P" "bp_isUnsat (bp_attachClause w P) = bp_isUnsat P"
  "bp_clauses (bp_attachClause w P) = bp_clauses P" "bp_notBinClauseRefs (bp_attachClause w P) = bp_notBinClauseRefs P"
  "bp_binListRefs (bp_attachClause w P) = bp_binListRefs P" "bp_trail (bp_attachClause w P) = bp_trail P"
  "bp_trailLimUnit (bp_attachClause w P) = bp_trailLimUnit P" "bp_trailPos (bp_attachClause w P) = bp_trailPos P"
  "bp_assign (bp_attachClause w P) = bp_assign P" "bp_value (bp_attachClause w P) x = bp_value P x"
  "bp_litImplied (bp_attachClause w P) x = bp_litImplied P x"
  "bp_getClause (bp_attachClause w P) v = bp_getClause P v"
  "length (bp_watchList (bp_attachClause w P)) = length (bp_watchList P)"
  by (simp_all add: bp_attachClause_def Let_def)

lemma bp_attach_ok:
  assumes P: "bp_ok A P" and w: "w \<notin> A" "w < length (bp_clauses P)" "2 \<le> length (bp_getClause P w)"
    "\<forall>l\<in>set (bp_getClause P w). wf_ilit (bp_nbVar P) l"
  shows "bp_ok (insert w A) (bp_attachClause w P)"
    "bp_holds (insert w A) m (bp_attachClause w P) \<longleftrightarrow>
       bp_holds A m P \<and> clause_true (ilit_true m) (bp_getClause P w)"
    "ilit_neg (bp_getClause P w ! 0) \<notin> T \<Longrightarrow> ilit_neg (bp_getClause P w ! 1) \<notin> T \<Longrightarrow>
       bp_closed A T S P \<Longrightarrow> bp_closed (insert w A) T S (bp_attachClause w P)"
proof -
  let ?n = "bp_nbVar P" let ?Q = "bp_attachClause w P"
  have len: "length (bp_watchList P) = nat (2 * (?n + 1))" using P by (simp add: bp_ok_def bp_static_def)
  have "0 < length (bp_getClause P w)" "1 < length (bp_getClause P w)" using w(3) by linarith+
  then have c: "wf_ilit ?n (bp_getClause P w ! 0)" "wf_ilit ?n (bp_getClause P w ! 1)" using w(4) by simp_all
  have "count_list (bp_watches ?Q l) v = watch_count (insert w A) ?Q l v" if l: "wf_ilit ?n l" for l v
  proof -
    have "count_list (bp_watches P l) v = watch_count A P l v" using P l by (simp add: bp_ok_def bp_watched_def)
    then show ?thesis using bp_watches_attach [OF len c l] w(1) by (auto simp: watch_count_def)
  qed
  then have "bp_watched (insert w A) ?Q"
    using P w by (simp add: bp_ok_def bp_watched_def)
  then show "bp_ok (insert w A) ?Q"
    using P by (simp add: bp_ok_def bp_static_def bp_implied_ok_def bp_trail_ok_def)
  show "bp_holds (insert w A) m ?Q \<longleftrightarrow> bp_holds A m P \<and> clause_true (ilit_true m) (bp_getClause P w)"
    by (auto simp: bp_holds_def)
  assume T: "ilit_neg (bp_getClause P w ! 0) \<notin> T" "ilit_neg (bp_getClause P w ! 1) \<notin> T" and cl: "bp_closed A T S P"
  have "ilit_neg l \<noteq> bp_getClause P w ! 0 \<and> ilit_neg l \<noteq> bp_getClause P w ! 1" if "l \<in> T" for l
    using T that by (metis ilit_neg_neg)
  then show "bp_closed (insert w A) T S ?Q" using cl by (auto simp: bp_closed_def)
qed

text \<open>A stored clause that is not attached changes nothing.\<close>

lemma bp_store_ok:
  fixes P c r
  defines "Q \<equiv> P\<lparr>bp_notBinClauseRefs := r, bp_clauses := bp_clauses P @ [c]\<rparr>"
  assumes P: "bp_ok A P"
  shows "bp_ok A Q" "bp_holds A m Q = bp_holds A m P" "bp_closed A T S Q = bp_closed A T S P"
    "bp_getClause Q (length (bp_clauses P)) = c"
proof -
  have old: "bp_getClause Q w = bp_getClause P w" if "w \<in> A" for w
    using bp_ok_clause [OF P that] by (simp add: Q_def bp_getClause_def nth_append)
  have s: "bp_nbVar Q = bp_nbVar P" "bp_litImplied Q l = bp_litImplied P l" "bp_watches Q l = bp_watches P l"
    "bp_value Q l = bp_value P l" "bp_trail Q = bp_trail P" for l
    by (simp_all add: Q_def bp_litImplied_def bp_watches_def bp_value_def)
  have "bp_watched A Q"
    unfolding bp_watched_def
  proof (intro conjI ballI allI impI)
    fix w assume w: "w \<in> A"
    then show "2 \<le> length (bp_getClause Q w)" using old bp_ok_clause [OF P w] by simp
    show "w < length (bp_clauses Q)" using bp_ok_clause [OF P w] by (simp add: Q_def)
    fix l assume "l \<in> set (bp_getClause Q w)"
    then show "wf_ilit (bp_nbVar Q) l" using old [OF w] bp_ok_clause [OF P w] s by simp
  next
    fix l w assume "wf_ilit (bp_nbVar Q) l"
    then show "count_list (bp_watches Q l) w = watch_count A Q l w"
      using P old s by (simp add: bp_ok_def bp_watched_def watch_count_def)
  qed
  moreover have "bp_static Q" "bp_trail_ok {} Q"
    using P s by (simp_all add: bp_ok_def bp_static_def bp_implied_ok_def bp_trail_ok_def) (simp_all add: Q_def)
  ultimately show "bp_ok A Q" by (simp add: bp_ok_def)
  show "bp_holds A m Q = bp_holds A m P" "bp_closed A T S Q = bp_closed A T S P"
    using old s by (simp_all add: bp_holds_def bp_closed_def)
  show "bp_getClause Q (length (bp_clauses P)) = c" by (simp add: Q_def bp_getClause_def)
qed

section \<open>The constructor keeps the models\<close>

definition bp_good :: "BipePropagator \<Rightarrow> bool" where
  "bp_good P \<longleftrightarrow> bp_inv P \<and> (\<not> bp_isUnsat P \<longrightarrow> bp_done (bp_refs P) P)"

text \<open>\<open>Q\<close> has the models of \<open>P\<close> in which the clause \<open>c\<close> is true.\<close>

definition adds :: "ILit list \<Rightarrow> BipePropagator \<Rightarrow> BipePropagator \<Rightarrow> bool" where
  "adds c P Q \<longleftrightarrow> bp_good Q \<and> bp_nbVar Q = bp_nbVar P \<and>
     (\<forall>m. bp_models m Q \<longleftrightarrow> bp_models m P \<and> clause_true (ilit_true m) c)"

lemma bp_done_closed: "bp_done A P \<longleftrightarrow>
    bp_closed A (set (bp_trail P)) (set (bp_trail P)) P \<and> bp_trailPos P = length (bp_trail P)"
  by (auto simp: bp_done_def bp_progress_def)

lemma bp_isUnsat_simps [simp]:
  "bp_ok A (P\<lparr>bp_isUnsat := u\<rparr>) = bp_ok A P" "bp_holds A m (P\<lparr>bp_isUnsat := u\<rparr>) = bp_holds A m P"
  "bp_done A (P\<lparr>bp_isUnsat := u\<rparr>) = bp_done A P"
  by (simp_all add: bp_ok_def bp_static_def bp_implied_ok_def bp_watched_def bp_trail_ok_def bp_holds_def bp_done_closed
      bp_closed_def bp_litImplied_def bp_watches_def bp_getClause_def bp_value_def watch_count_def)

lemma bp_addBinary_adds:
  assumes P: "bp_good P" "\<not> bp_isUnsat P" and ab: "wf_ilit (bp_nbVar P) a" "wf_ilit (bp_nbVar P) b"
    and u: "l_Undef \<le> bp_value P a" "l_Undef \<le> bp_value P b"
  shows "adds [a, b] P (bp_addBinary a b P)"
proof -
  have ok: "bp_inv P" "bp_done (bp_refs P) P" using P by (simp_all add: bp_good_def)
  then have tr: "bp_trail_ok {} P" by (simp add: bp_ok_def)
  then have "\<forall>l\<in>set (bp_trail P). wf_ilit (bp_nbVar P) l" by (simp add: bp_trail_ok_def)
  then have "bp_done (bp_refs P) (bp_addBinary a b P)"
    using ok(2) bp_addBinary_closed [OF ok(1) ab _ bp_undef_neg(2) [OF tr ab(1) u(1)] bp_undef_neg(2) [OF tr ab(2) u(2)]]
    by (simp add: bp_done_closed)
  then show ?thesis
    using bp_addBinary_ok [OF ok(1) ab] P(2) by (auto simp: adds_def bp_good_def bp_models_def)
qed

lemma bp_addLong_adds:
  assumes P: "bp_good P" "\<not> bp_isUnsat P" and c: "2 \<le> length c" "\<forall>l\<in>set c. wf_ilit (bp_nbVar P) l"
    and u: "\<forall>l\<in>set c. l_Undef \<le> bp_value P l"
  shows "adds c P (bp_addLong c P)"
proof -
  let ?w = "length (bp_clauses P)"
  define R where "R = P\<lparr>bp_notBinClauseRefs := bp_notBinClauseRefs P @ [?w], bp_clauses := bp_clauses P @ [c]\<rparr>"
  have ok: "bp_inv P" "bp_done (bp_refs P) P" using P by (simp_all add: bp_good_def)
  then have tr: "bp_trail_ok {} P" by (simp add: bp_ok_def)
  note S = bp_store_ok [OF ok(1), where r = "bp_notBinClauseRefs P @ [?w]" and c = c, folded R_def]
  have r: "bp_refs R = insert ?w (bp_refs P)" "bp_nbVar R = bp_nbVar P" "bp_trail R = bp_trail P"
    "bp_isUnsat R = bp_isUnsat P" "bp_trailPos R = bp_trailPos P" by (simp_all add: R_def)
  have w: "?w \<notin> bp_refs P" using bp_ok_range [OF ok(1)] by blast
  note A = bp_attach_ok [OF S(1) w, unfolded S(4), OF _ c(1), unfolded r(2), OF _ c(2)]
  have lt: "?w < length (bp_clauses R)" by (simp add: R_def)
  have eq: "bp_addLong c P = bp_attachClause ?w R" by (simp add: bp_addLong_def R_def Let_def)
  have "0 < length c" "1 < length c" using c(1) by linarith+
  then have n: "ilit_neg (c ! 0) \<notin> set (bp_trail P)" "ilit_neg (c ! 1) \<notin> set (bp_trail P)"
    using bp_undef_neg(2) [OF tr] c(2) u by simp_all
  have "bp_done (bp_refs (bp_attachClause ?w R)) (bp_attachClause ?w R)"
    using A(3) [OF lt n] ok(2) S(3) r by (simp add: bp_done_closed)
  then show ?thesis
    unfolding eq adds_def bp_good_def bp_models_def
    using A(1,2) [OF lt] S(2) r by auto
qed

lemma bp_unit_adds:
  assumes P: "bp_good P" "\<not> bp_isUnsat P" and l: "wf_ilit (bp_nbVar P) l" and u: "l_Undef \<le> bp_value P l"
  shows "\<exists>ok Q. bp_propagate (bp_uncheckedEnqueue l P) = Some (ok, Q) \<and> adds [l] P (Q\<lparr>bp_isUnsat := \<not> ok\<rparr>)"
proof -
  let ?P = "bp_uncheckedEnqueue l P"
  have ok: "bp_inv P" "bp_done (bp_refs P) P" using P by (simp_all add: bp_good_def)
  have e: "bp_ok (bp_refs P) ?P" by (rule bp_ok_enqueue [OF ok(1) l])
  have "bp_closed (bp_refs P) (set (bp_trail P)) (set (bp_trail ?P)) P"
    by (rule bp_closed_mono [of _ _ "set (bp_trail P)"]) (use ok(2) in \<open>auto simp: bp_done_closed\<close>)
  then have pr: "bp_progress (bp_refs P) ?P"
    using ok(2) by (simp add: bp_progress_def bp_done_def bp_closed_def)
  obtain ok' Q where Q: "bp_propagate ?P = Some (ok', Q)" "bp_ext (bp_refs P) ?P Q"
     "ok' \<longrightarrow> bp_progress (bp_refs P) Q" "ok' \<longrightarrow> bp_trailPos Q = length (bp_trail Q)"
     "\<not> ok' \<longrightarrow> (\<forall>m. bp_holds (bp_refs P) m ?P \<longrightarrow> \<not> cube_true (ilit_true m) (bp_trail ?P))"
    using bp_propagate_total [OF e] pr ok(2) by (auto simp: bp_done_def)
  have s: "bp_nbVar Q = bp_nbVar P" "bp_notBinClauseRefs Q = bp_notBinClauseRefs P" "bp_inv Q"
    "bp_holds (bp_refs P) m Q = bp_holds (bp_refs P) m P" for m
    using Q(2) bp_holds_ext [OF e Q(2)] by (simp_all add: bp_ext_def bp_same_def)
  have t: "cube_true (ilit_true m) (bp_trail Q) \<longleftrightarrow> cube_true (ilit_true m) (bp_trail P) \<and> ilit_true m l"
    if "bp_holds (bp_refs P) m P" for m
  proof -
    have "cube_true (ilit_true m) (bp_trail ?P) \<longrightarrow> cube_true (ilit_true m) (bp_trail Q)"
      using Q(2) that by (simp add: bp_ext_def)
    moreover have "cube_true (ilit_true m) (bp_trail Q) \<longrightarrow> cube_true (ilit_true m) (bp_trail ?P)"
      by (intro impI cube_true_mono [OF bp_ext_trail [OF Q(2)]])
    moreover have "cube_true (ilit_true m) (bp_trail ?P) \<longleftrightarrow>
        cube_true (ilit_true m) (bp_trail P) \<and> ilit_true m l" by simp
    ultimately show ?thesis by blast
  qed
  have "ok' \<longrightarrow> bp_done (bp_refs P) Q" using Q(3,4) by (simp add: bp_done_def)
  then have "bp_good (Q\<lparr>bp_isUnsat := \<not> ok'\<rparr>)" using s(2,3) by (simp add: bp_good_def)
  moreover have "bp_models m (Q\<lparr>bp_isUnsat := \<not> ok'\<rparr>) \<longleftrightarrow> bp_models m P \<and> clause_true (ilit_true m) [l]" for m
  proof (cases "bp_holds (bp_refs P) m P")
    case True
    then show ?thesis using t [OF True] Q(5) P(2) s(2,4) by (cases ok') (auto simp: bp_models_def)
  qed (simp add: bp_models_def s(2,4))
  ultimately have "adds [l] P (Q\<lparr>bp_isUnsat := \<not> ok'\<rparr>)" using s(1) by (simp add: adds_def)
  then show ?thesis using Q(1) by blast
qed

lemma bp_addClause_adds:
  assumes P: "bp_good P" and c: "\<forall>l\<in>set c. wf_ilit (bp_nbVar P) l"
  shows "\<exists>Q. bp_addClause c P = Some Q \<and> adds c P Q"
proof (cases "bp_isUnsat P")
  case True
  then show ?thesis using P by (simp add: bp_addClause_def adds_def bp_models_def)
next
  case False
  have ok: "bp_inv P" "bp_done (bp_refs P) P" and st: "bp_static P" and tr: "bp_trail_ok {} P"
    using P False by (simp_all add: bp_good_def bp_ok_def)
  obtain sat c' where rd: "reduce_by_units P c [] = (sat, c')" by fastforce
  show ?thesis
  proof (cases sat)
    case True
    have "c' = []" "\<And>m. bp_models m P \<Longrightarrow> clause_true (ilit_true m) c"
      using reduce_by_units_true [OF _ tr c] reduce_by_units_nil rd True by (auto simp: bp_models_def)
    moreover have e: "P\<lparr>bp_isUnsat := False\<rparr> = P" using False by (cases P) simp
    moreover have "bp_addClause c P = Some P"
      using rd True False \<open>c' = []\<close> by (simp add: bp_addClause_def e)
    ultimately show ?thesis using P by (auto simp: adds_def)
  next
    case ns: False
    then have rd': "reduce_by_units P c [] = (False, c')" using rd by simp
    note R = reduce_by_units_false [OF rd' tr c]
    have c': "\<forall>l\<in>set c'. wf_ilit (bp_nbVar P) l \<and> l_Undef \<le> bp_value P l" using R c by auto
    have a: "adds c' P Q \<Longrightarrow> adds c P Q" for Q using R by (auto simp: adds_def bp_models_def)
    consider "c' = []" | l where "c' = [l]" | a b where "c' = [a, b]" | "3 \<le> length c'"
      by (cases c'; cases "tl c'"; cases "tl (tl c')") auto
    then show ?thesis
    proof cases
      case 1
      have "adds [] P (P\<lparr>bp_isUnsat := True\<rparr>)" using ok by (simp add: adds_def bp_good_def bp_models_def)
      then show ?thesis using a 1 rd' False by (simp add: bp_addClause_def)
    next
      case 2
      then have "vget (bp_assign P) (ilit_var l) = l_Undef" using bp_assign_undef [OF st] c' by simp
      then show ?thesis
        using bp_unit_adds [OF P False, of l] c' 2 rd' False a by (auto simp: bp_addClause_def)
    next
      case 3
      then show ?thesis
        using bp_addBinary_adds [OF P False] c' rd' False a by (simp add: bp_addClause_def)
    next
      case 4
      then have "adds c' P (bp_addLong c' P)" using bp_addLong_adds [OF P False] c' by simp
      then show ?thesis using a rd' False 4 by (auto simp: bp_addClause_def)
    qed
  qed
qed

lemma bp_addClauses_adds:
  "bp_good P \<Longrightarrow> \<forall>c\<in>set cls. \<forall>l\<in>set c. wf_ilit (bp_nbVar P) l \<Longrightarrow>
     \<exists>Q. bp_addClauses cls P = Some Q \<and> bp_good Q \<and> bp_nbVar Q = bp_nbVar P \<and>
       (\<forall>m. bp_models m Q \<longleftrightarrow> bp_models m P \<and> cnf_true (ilit_true m) cls)"
proof (induction cls arbitrary: P)
  case (Cons c cls)
  then obtain Q where Q: "bp_addClause c P = Some Q" "adds c P Q" using bp_addClause_adds [of P c] by auto
  show ?case
  proof (cases "bp_isUnsat Q")
    case True
    then have "\<not> (bp_models m P \<and> clause_true (ilit_true m) c)" for m
      using Q(2) by (simp add: adds_def bp_models_def)
    then show ?thesis using Q True by (auto simp: adds_def)
  next
    case False
    have "bp_good Q" "bp_nbVar Q = bp_nbVar P" using Q(2) by (simp_all add: adds_def)
    with Cons.IH [of Q] Cons.prems(2) obtain R where "bp_addClauses cls Q = Some R" "bp_good R"
      "bp_nbVar R = bp_nbVar Q" "\<forall>m. bp_models m R \<longleftrightarrow> bp_models m Q \<and> cnf_true (ilit_true m) cls" by auto
    then show ?thesis using Q False by (auto simp: adds_def)
  qed
qed simp

lemma bp_empty_lists:
  "wf_ilit n l \<Longrightarrow> bp_litImplied (bp_empty n) l = [] \<and> bp_watches (bp_empty n) l = []"
  using wf_intern(2,3) [of n l] by (simp add: bp_litImplied_def bp_watches_def bp_empty_def vget_replicate)

lemma bp_empty_good:
  assumes "0 \<le> n" "n < 2 ^ 30"
  shows "bp_good (bp_empty n)" "bp_models m (bp_empty n)"
proof -
  let ?P = "bp_empty n"
  have v: "bp_value ?P l = of_bool (ilit_sign l) XOR l_Undef" if "wf_ilit n l" for l
  proof -
    have "ilit_var l < int (nat (2 * (n + 1)))" "0 \<le> ilit_var l" using that by (simp_all add: wf_ilit_def)
    then show ?thesis by (simp add: bp_value_def bp_empty_def vget_replicate)
  qed
  note w = bp_empty_lists [of n]
  have s: "bp_nbVar ?P = n" "bp_trail ?P = []" "bp_notBinClauseRefs ?P = []" "\<not> bp_isUnsat ?P"
    "bp_trailPos ?P = 0" by (simp_all add: bp_empty_def)
  have "bp_static ?P"
    using assms w s by (simp add: bp_static_def bp_implied_ok_def) (simp add: bp_empty_def)
  moreover have "bp_watched {} ?P" using w s by (simp add: bp_watched_def watch_count_def)
  moreover have "bp_trail_ok {} ?P" using v s undef_xor by (simp add: bp_trail_ok_def)
  ultimately show "bp_good ?P" using s by (simp add: bp_good_def bp_ok_def bp_done_def bp_progress_def)
  show "bp_models m ?P" using w s by (simp add: bp_models_def bp_holds_def)
qed

lemma constructor_ok:
  assumes "0 \<le> n" "n < 2 ^ 30" "\<forall>c\<in>set cls. \<forall>l\<in>set c. wf_ilit n l"
  obtains P where "mkBipePropagator n cls = Some P" "bp_good P" "bp_nbVar P = n"
    "\<not> bp_isUnsat P \<Longrightarrow> bp_trailLimUnit P = length (bp_trail P)"
    "\<And>m. bp_models m P \<longleftrightarrow> cnf_true (ilit_true m) cls"
proof -
  note e = bp_empty_good [OF assms(1,2)]
  have n: "bp_nbVar (bp_empty n) = n" by (simp add: bp_empty_def)
  obtain P where P: "bp_addClauses cls (bp_empty n) = Some P" "bp_good P" "bp_nbVar P = n"
      "\<forall>m. bp_models m P \<longleftrightarrow> cnf_true (ilit_true m) cls"
    using bp_addClauses_adds [OF e(1), of cls] assms(3) e(2) n by auto
  let ?Q = "P\<lparr>bp_trailLimUnit := length (bp_trail P)\<rparr>"
  have "bp_good ?Q = bp_good P"
    by (simp add: bp_good_def bp_ok_def bp_static_def bp_implied_ok_def bp_watched_def bp_trail_ok_def bp_done_closed
        bp_closed_def bp_litImplied_def bp_watches_def bp_getClause_def bp_value_def watch_count_def)
  moreover have "bp_models m ?Q = bp_models m P" for m
    by (simp add: bp_models_def bp_holds_def bp_litImplied_def bp_getClause_def)
  ultimately have Q: "bp_good ?Q" "bp_models m ?Q \<longleftrightarrow> cnf_true (ilit_true m) cls" for m using P(2,4) by blast+
  show ?thesis
  proof (cases "bp_isUnsat P")
    case True
    show ?thesis by (rule that [of P]) (use P True in \<open>simp_all add: mkBipePropagator_def\<close>)
  next
    case False
    show ?thesis by (rule that [of ?Q]) (use P Q False in \<open>simp_all add: mkBipePropagator_def\<close>)
  qed
qed

section \<open>Extraction\<close>

lemma extract_clause_reduce:
  "reduce_by_units P c kept = (case extract_clause P c kept of (s, cl) \<Rightarrow> (s, if s then [] else cl))"
  by (induction P c kept rule: extract_clause.induct) auto

lemma generateUnsat_false: "\<not> cnf_true (ilit_true m) generateUnsat"
  using make_true_false [of 1]
  by (auto simp: generateUnsat_def ilit_true_def simp flip: make_true_false)

lemma extract_long_models:
  "bp_ok A P \<Longrightarrow> set crefs \<subseteq> A \<Longrightarrow> cnf_true (ilit_true m) acc \<longrightarrow> cube_true (ilit_true m) (bp_trail P) \<Longrightarrow>
     cnf_true (ilit_true m) (extract_long P crefs acc) \<longleftrightarrow>
     cnf_true (ilit_true m) acc \<and> (\<forall>w\<in>set crefs. clause_true (ilit_true m) (bp_getClause P w))"
proof (induction P crefs acc rule: extract_long.induct)
  case (2 P w crefs acc)
  let ?c = "bp_getClause P w"
  have tr: "bp_trail_ok {} P" using "2.prems"(1) by (simp add: bp_ok_def)
  have wf: "\<forall>l\<in>set ?c. wf_ilit (bp_nbVar P) l" using bp_ok_clause [OF "2.prems"(1), of w] "2.prems"(2) by simp
  obtain sat cl where e: "extract_clause P ?c [] = (sat, cl)" by fastforce
  show ?case
  proof (cases sat)
    case True
    then have "reduce_by_units P ?c [] = (True, [])" using e by (simp add: extract_clause_reduce)
    then have "clause_true (ilit_true m) ?c" if "cnf_true (ilit_true m) acc"
      using reduce_by_units_true [OF _ tr wf] "2.prems"(3) that by blast
    moreover have "extract_long P (w # crefs) acc = extract_long P crefs acc" using e True by simp
    ultimately show ?thesis using "2.IH"(1) [OF e [symmetric] True] "2.prems" by auto
  next
    case False
    then have "reduce_by_units P ?c [] = (False, cl)" using e by (simp add: extract_clause_reduce)
    from reduce_by_units_false [OF this tr wf, of m]
    have cl: "clause_true (ilit_true m) ?c = clause_true (ilit_true m) cl" if "cnf_true (ilit_true m) acc"
      using "2.prems"(3) that by auto
    show ?thesis
    proof (cases "cl = []")
      case True
      then have "extract_long P (w # crefs) acc = generateUnsat" using e False by simp
      then show ?thesis using generateUnsat_false cl True by auto
    next
      case ne: False
      then have "extract_long P (w # crefs) acc = extract_long P crefs (acc @ [cl])" using e False by simp
      then show ?thesis using "2.IH"(2) [OF e [symmetric] False] ne "2.prems" cl by auto
    qed
  qed
qed simp

text \<open>
  The implication lists hold each binary clause from both sides, nothing at the two unused indices and no clause with
  the same literal twice.
\<close>

definition bp_bins_ok :: "BipePropagator \<Rightarrow> bool" where
  "bp_bins_ok P \<longleftrightarrow> bp_binListRefs P ! 0 = [] \<and> bp_binListRefs P ! 1 = [] \<and>
     (\<forall>l. wf_ilit (bp_nbVar P) l \<longrightarrow> (\<forall>b\<in>set (bp_litImplied P l).
        ilit_neg l \<in> set (bp_litImplied P (ilit_neg b)) \<and> b \<noteq> ilit_neg l))"

lemma bp_bins_ok_same: "bp_nbVar Q = bp_nbVar P \<Longrightarrow> bp_binListRefs Q = bp_binListRefs P \<Longrightarrow> bp_bins_ok Q = bp_bins_ok P"
  by (simp add: bp_bins_ok_def bp_litImplied_def)

lemma bp_addBinary_bins:
  assumes P: "bp_static P" "bp_bins_ok P" and ab: "wf_ilit (bp_nbVar P) a" "wf_ilit (bp_nbVar P) b" "a \<noteq> b"
  shows "bp_bins_ok (bp_addBinary a b P)"
proof -
  let ?n = "bp_nbVar P" let ?Q = "bp_addBinary a b P"
  have len: "length (bp_binListRefs P) = nat (2 * (?n + 1))" using P(1) by (simp add: bp_static_def)
  note imp = bp_litImplied_addBinary [OF len ab(1,2)]
  have i: "2 \<le> ilit_intern (ilit_neg a)" "2 \<le> ilit_intern (ilit_neg b)"
    using wf_intern(2) [OF wf_neg [OF ab(1)]] wf_intern(2) [OF wf_neg [OF ab(2)]] .
  then have "bp_binListRefs ?Q ! k = bp_binListRefs P ! k" if "k < 2" for k
    using that by (simp add: bp_addBinary_def Let_def vset_def)
  moreover have "ilit_neg l \<in> set (bp_litImplied ?Q (ilit_neg x)) \<and> x \<noteq> ilit_neg l"
    if l: "wf_ilit ?n l" and x: "x \<in> set (bp_litImplied ?Q l)" for l x
  proof -
    consider "x \<in> set (bp_litImplied P l)" | "l = ilit_neg a" "x = b" | "l = ilit_neg b" "x = a"
      using x imp [OF l] by (auto split: if_splits)
    then show ?thesis
    proof cases
      case 1
      then have "wf_ilit ?n x" using P(1) l by (auto simp: bp_static_def bp_implied_ok_def)
      then show ?thesis using 1 P(2) l imp [OF wf_neg, of x] by (auto simp: bp_bins_ok_def)
    qed (use ab imp [OF wf_neg [OF ab(1)]] imp [OF wf_neg [OF ab(2)]] in auto)
  qed
  ultimately show ?thesis using P(2) by (simp add: bp_bins_ok_def)
qed

lemma bp_addClause_bins:
  assumes P: "bp_good P" "bp_bins_ok P" and c: "\<forall>l\<in>set c. wf_ilit (bp_nbVar P) l" "distinct c"
    and Q: "bp_addClause c P = Some Q"
  shows "bp_bins_ok Q"
proof (cases "bp_isUnsat P")
  case True
  then show ?thesis using Q P by (simp add: bp_addClause_def)
next
  case False
  have st: "bp_static P" and tr: "bp_trail_ok {} P" and ok: "bp_inv P" using P by (simp_all add: bp_good_def bp_ok_def)
  obtain sat c' where rd: "reduce_by_units P c [] = (sat, c')" by fastforce
  have c': "distinct c'" "\<forall>l\<in>set c'. wf_ilit (bp_nbVar P) l"
    using reduce_by_units_nil [of P c "[]" c'] reduce_by_units_false [of P c "[]" c', OF _ tr c(1)] rd c
    by (cases sat; auto)+
  have run: "bp_bins_ok R" if "bp_propagate (bp_uncheckedEnqueue (c' ! 0) P) = Some (ok', R)" "c' \<noteq> []" for ok' R
  proof -
    have "wf_ilit (bp_nbVar P) (c' ! 0)" using c'(2) that(2) by simp
    from bp_propagate_total [OF bp_ok_enqueue [OF ok this]]
    have "bp_same P R" using that(1) by (auto simp: bp_ext_def bp_same_def)
    then show ?thesis using bp_bins_ok_same [of R P] P(2) by (simp add: bp_same_def)
  qed
  have bin: "bp_bins_ok (bp_addBinary (c' ! 0) (c' ! Suc 0) P)" if "length c' = 2"
    using bp_addBinary_bins [OF st P(2), of "c' ! 0" "c' ! Suc 0"] c' that by (simp add: nth_eq_iff_index_eq)
  have oth: "bp_bins_ok (P\<lparr>bp_isUnsat := u\<rparr>)" "bp_bins_ok (bp_addLong c' P)"
    "bp_bins_ok (R\<lparr>bp_isUnsat := u\<rparr>) = bp_bins_ok R" for u R
  proof -
    show "bp_bins_ok (R\<lparr>bp_isUnsat := u\<rparr>) = bp_bins_ok R" for R by (rule bp_bins_ok_same) simp_all
    then show "bp_bins_ok (P\<lparr>bp_isUnsat := u\<rparr>)" using P(2) by blast
    have "bp_bins_ok (bp_addLong c' P) = bp_bins_ok P" by (rule bp_bins_ok_same) (simp_all add: bp_addLong_def Let_def)
    then show "bp_bins_ok (bp_addLong c' P)" using P(2) by blast
  qed
  show ?thesis
    using Q False rd run bin oth by (auto simp: bp_addClause_def split: if_splits option.splits)
qed

lemma bp_addClauses_bins:
  "bp_good P \<Longrightarrow> bp_bins_ok P \<Longrightarrow> \<forall>c\<in>set cls. distinct c \<and> (\<forall>l\<in>set c. wf_ilit (bp_nbVar P) l) \<Longrightarrow>
     bp_addClauses cls P = Some Q \<Longrightarrow> bp_bins_ok Q"
proof (induction cls arbitrary: P)
  case (Cons c cls)
  obtain R where R: "bp_addClause c P = Some R" "adds c P R"
    using bp_addClause_adds [of P c] Cons.prems(1,3) by auto
  then have "bp_bins_ok R" "bp_good R" "bp_nbVar R = bp_nbVar P"
    using bp_addClause_bins [OF Cons.prems(1,2) _ _ R(1)] Cons.prems(3) by (simp_all add: adds_def)
  then show ?case using Cons.IH [of R] Cons.prems(3,4) R(1) by (auto split: if_splits)
qed simp

lemma intern_less_neg:
  assumes l: "wf_ilit n l" and b: "wf_ilit n b" and ne: "b \<noteq> l" "b \<noteq> ilit_neg l"
  shows "ilit_intern b < ilit_intern l \<or> ilit_intern (ilit_neg l) < ilit_intern (ilit_neg b)"
proof -
  have "ilit_var b \<noteq> ilit_var l" using ilit_same_var [OF l] ne by blast
  then show ?thesis
    using wf_intern(1) [OF l] wf_intern(1) [OF b] wf_intern(1) [OF wf_neg [OF l]] wf_intern(1) [OF wf_neg [OF b]]
      neg_parts [OF l] neg_parts [OF b] by (cases "ilit_sign l"; cases "ilit_sign b") auto
qed

lemma mkBipePropagator_bins:
  assumes n: "0 \<le> n" "n < 2 ^ 30" and c: "\<forall>c\<in>set cls. distinct c \<and> (\<forall>l\<in>set c. wf_ilit n l)"
    and P: "mkBipePropagator n cls = Some P"
  shows "bp_bins_ok P"
proof -
  obtain Q where Q: "bp_addClauses cls (bp_empty n) = Some Q"
      "P = (if \<not> bp_isUnsat Q then Q\<lparr>bp_trailLimUnit := length (bp_trail Q)\<rparr> else Q)"
    using P by (auto simp: mkBipePropagator_def split: option.splits)
  have "bp_bins_ok (bp_empty n)"
    using n bp_empty_lists [of n] by (simp add: bp_bins_ok_def) (simp add: bp_empty_def)
  then have "bp_bins_ok Q"
    using bp_addClauses_bins [OF bp_empty_good(1) [OF n] _ _ Q(1)] c by (simp add: bp_empty_def)
  moreover have "bp_bins_ok P = bp_bins_ok Q" by (rule bp_bins_ok_same) (simp_all add: Q(2))
  ultimately show ?thesis by simp
qed

text \<open>The clause read from one entry of an implication list.\<close>

lemma extract_entry:
  assumes P: "bp_ok A P" "bp_bins_ok P" "bp_closed A (set (bp_trail P)) (set (bp_trail P)) P"
    and l: "wf_ilit (bp_nbVar P) l" and b: "b \<in> set (bp_litImplied P l)" "ilit_intern b < ilit_intern l"
    and m: "cube_true (ilit_true m) (bp_trail P)"
  shows "cnf_true (ilit_true m) (if bp_value P (ilit_neg l) = l_True then []
      else extract_implied P (nat (ilit_intern l)) (ilit_neg l) b) \<longleftrightarrow> (ilit_true m l \<longrightarrow> ilit_true m b)"
proof -
  have tr: "bp_trail_ok {} P" using P(1) by (simp add: bp_ok_def)
  have wb: "wf_ilit (bp_nbVar P) b" using P(1) l b(1) by (auto simp: bp_ok_def bp_static_def bp_implied_ok_def)
  note nl = wf_neg [OF l]
  note neg = ilit_true_neg [OF l, of m]
  have i: "ilit_intern b < int (nat (ilit_intern l))" using b(2) wf_intern(2) [OF l] by simp
  have t: "bp_value P x = l_True \<Longrightarrow> ilit_true m x" if "wf_ilit (bp_nbVar P) x" for x
    using bp_value_true [OF tr that] m by (auto simp: cube_true_iff)
  have f: "bp_value P x = l_False \<Longrightarrow> \<not> ilit_true m x" if "wf_ilit (bp_nbVar P) x" for x
    using bp_false_lit [OF tr that _ m] by blast
  have fixed: "bp_value P b \<noteq> l_False" if "l_Undef \<le> bp_value P (ilit_neg l)"
  proof
    assume "bp_value P b = l_False"
    from bp_value_false [OF tr wb this] have "set (bp_litImplied P (ilit_neg b)) \<subseteq> set (bp_trail P)"
      using P(3) by (simp add: bp_closed_def)
    moreover have "ilit_neg l \<in> set (bp_litImplied P (ilit_neg b))" using P(2) l b(1) by (simp add: bp_bins_ok_def)
    ultimately show False using bp_undef_neg(1) [OF tr nl that] by blast
  qed
  show ?thesis
    using bp_value_cases [OF tr nl] bp_value_cases [OF tr wb] i fixed t [OF nl] t [OF wb] f [OF nl] f [OF wb] neg
    by (auto simp: extract_implied_def l_True_def l_False_def l_Undef_def)
qed

lemma extract_binary_index:
  assumes "wf_ilit (bp_nbVar P) l"
  shows "extract_binary P (nat (ilit_intern l)) = (if bp_value P (ilit_neg l) = l_True then []
    else concat (map (extract_implied P (nat (ilit_intern l)) (ilit_neg l)) (bp_litImplied P l)))"
proof -
  let ?v = "ilit_var l" let ?s = "ilit_sign l"
  have v: "0 \<le> ?v" "?v < 2 ^ 30" using assms by (simp_all add: wf_ilit_def)
  have i: "ilit_intern l = 2 * ?v + of_bool ?s" using wf_intern(1) [OF assms] .
  then have "int (nat (ilit_intern l)) = 2 * ?v + of_bool ?s" using v by simp
  moreover from this have "int (nat (ilit_intern l) div 2) = ?v" by (cases ?s) (simp_all add: zdiv_int)
  moreover have "((2 * ?v + of_bool ?s) XOR 1) AND 1 \<noteq> 0 \<longleftrightarrow> \<not> ?s"
    by (cases ?s) (simp_all add: and_one_eq xor_one_eq)
  moreover have "ilit_make ?v (\<not> ?s) = ilit_neg l"
    using wf_ilit_make [OF assms] ilit_neg_make [OF v, of ?s] by simp
  ultimately show ?thesis by (simp only: extract_binary_def Let_def bp_litImplied_def vget_def)
qed

lemma extract_binaries_models:
  assumes P: "bp_ok A P" "bp_bins_ok P" "bp_closed A (set (bp_trail P)) (set (bp_trail P)) P"
    and m: "cube_true (ilit_true m) (bp_trail P)"
  shows "cnf_true (ilit_true m) (concat (map (extract_binary P) [0..<length (bp_binListRefs P)])) \<longleftrightarrow>
    (\<forall>l. wf_ilit (bp_nbVar P) l \<longrightarrow> ilit_true m l \<longrightarrow> (\<forall>b\<in>set (bp_litImplied P l). ilit_true m b))"
    (is "?L \<longleftrightarrow> ?R")
proof -
  let ?n = "bp_nbVar P"
  let ?less = "\<forall>l. wf_ilit ?n l \<longrightarrow> (\<forall>b\<in>set (bp_litImplied P l). ilit_intern b < ilit_intern l \<longrightarrow> ilit_true m l \<longrightarrow> ilit_true m b)"
  have len: "length (bp_binListRefs P) = nat (2 * (?n + 1))" and n: "0 \<le> ?n" "?n < 2 ^ 30"
    using P(1) by (simp_all add: bp_ok_def bp_static_def)
  have ix: "i \<in> {..<length (bp_binListRefs P)} \<longleftrightarrow> i = 0 \<or> i = 1 \<or> (\<exists>l. wf_ilit ?n l \<and> i = nat (ilit_intern l))" for i
  proof
    assume i: "i \<in> {..<length (bp_binListRefs P)}"
    show "i = 0 \<or> i = 1 \<or> (\<exists>l. wf_ilit ?n l \<and> i = nat (ilit_intern l))"
    proof (cases "2 \<le> i")
      case True
      let ?l = "ilit_make (int i div 2) (odd i)"
      have "0 \<le> int i div 2" "int i div 2 < 2 ^ 30" "1 \<le> int i div 2" "int i div 2 \<le> ?n"
        using i True len n by auto
      moreover from this have "ilit_intern ?l = int i" by simp
      ultimately have "wf_ilit ?n ?l" "i = nat (ilit_intern ?l)" using n(2) by (simp_all add: wf_ilit_def)
      then show ?thesis by blast
    qed auto
  next
    assume "i = 0 \<or> i = 1 \<or> (\<exists>l. wf_ilit ?n l \<and> i = nat (ilit_intern l))"
    then show "i \<in> {..<length (bp_binListRefs P)}" using n(1) len wf_intern(3) [of ?n] by auto
  qed
  have low: "extract_binary P 0 = []" "extract_binary P 1 = []"
    using P(2) by (simp_all add: extract_binary_def Let_def bp_bins_ok_def)
  have "?L \<longleftrightarrow> (\<forall>l. wf_ilit ?n l \<longrightarrow> cnf_true (ilit_true m) (extract_binary P (nat (ilit_intern l))))"
  proof -
    have "?L \<longleftrightarrow> (\<forall>i\<in>{..<length (bp_binListRefs P)}. cnf_true (ilit_true m) (extract_binary P i))"
      by (simp add: cnf_true_concat lessThan_atLeast0)
    then show ?thesis unfolding Ball_def ix using low cnf_true_Nil by metis
  qed
  also have "\<dots> \<longleftrightarrow> ?less"
  proof (intro iff_allI imp_cong refl)
    fix l assume l: "wf_ilit ?n l"
    have "extract_implied P (nat (ilit_intern l)) (ilit_neg l) b = []" if "\<not> ilit_intern b < ilit_intern l" for b
      using that wf_intern(2) [OF l] by (simp add: extract_implied_def)
    then show "cnf_true (ilit_true m) (extract_binary P (nat (ilit_intern l))) \<longleftrightarrow>
        (\<forall>b\<in>set (bp_litImplied P l). ilit_intern b < ilit_intern l \<longrightarrow> ilit_true m l \<longrightarrow> ilit_true m b)"
      using extract_entry [OF P l _ _ m] unfolding extract_binary_index [OF l]
      by (cases "bp_value P (ilit_neg l) = l_True") (simp_all add: cnf_true_concat, metis cnf_true_Nil)
  qed
  also have "\<dots> \<longleftrightarrow> ?R"
  proof
    assume less: ?less
    show ?R
    proof (intro allI impI ballI)
      fix l b assume l: "wf_ilit ?n l" "ilit_true m l" and b: "b \<in> set (bp_litImplied P l)"
      then have wb: "wf_ilit ?n b" using P(1) by (auto simp: bp_ok_def bp_static_def bp_implied_ok_def)
      have sym: "ilit_neg l \<in> set (bp_litImplied P (ilit_neg b))" "b \<noteq> ilit_neg l"
        using P(2) l b by (simp_all add: bp_bins_ok_def)
      show "ilit_true m b"
      proof (rule ccontr)
        assume nb: "\<not> ilit_true m b"
        then have "b \<noteq> l" using l by blast
        from intern_less_neg [OF l(1) wb this sym(2)] show False
          using less l b nb sym(1) wf_neg [OF wb] ilit_true_neg [OF wb, of m] ilit_true_neg [OF l(1), of m] by blast
      qed
    qed
  qed blast
  finally show ?thesis .
qed

lemma extractFormula_models:
  assumes P: "bp_good P" "bp_bins_ok P" and lim: "\<not> bp_isUnsat P \<Longrightarrow> bp_trailLimUnit P = length (bp_trail P)"
  shows "cnf_true (ilit_true m) (extractFormula P) \<longleftrightarrow> bp_models m P"
proof (cases "bp_isUnsat P")
  case True
  then show ?thesis using generateUnsat_false by (simp add: extractFormula_def bp_models_def)
next
  case False
  let ?bins = "concat (map (extract_binary P) [0..<length (bp_binListRefs P)])"
  let ?acc = "map (\<lambda>i. [bp_trail P ! i]) [0..<bp_trailLimUnit P] @ ?bins"
  have ok: "bp_inv P" "bp_closed (bp_refs P) (set (bp_trail P)) (set (bp_trail P)) P"
    using P(1) False by (simp_all add: bp_good_def bp_done_closed)
  have "map (\<lambda>i. [bp_trail P ! i]) [0..<bp_trailLimUnit P] = map (\<lambda>l. [l]) (bp_trail P)"
    using lim [OF False] by (intro nth_equalityI) simp_all
  then have acc: "cnf_true (ilit_true m) ?acc \<longleftrightarrow>
      cube_true (ilit_true m) (bp_trail P) \<and> cnf_true (ilit_true m) ?bins"
    by (simp only: cnf_true_append cnf_true_units)
  have "cnf_true (ilit_true m) (extract_long P (bp_notBinClauseRefs P) ?acc) \<longleftrightarrow>
      cnf_true (ilit_true m) ?acc \<and> (\<forall>w\<in>bp_refs P. clause_true (ilit_true m) (bp_getClause P w))"
    by (rule extract_long_models [OF ok(1) order_refl]) (use acc in blast)
  then show ?thesis
    using extract_binaries_models [OF ok(1) P(2) ok(2)] acc False
    by (auto simp: extractFormula_def bp_models_def bp_holds_def)
qed

section \<open>Properties\<close>



text \<open>A binary clause that repeats a negative literal is lost.\<close>

lemma extract_loses_clause:
  "map_option extractFormula (mkBipePropagator 1 [[ilit_make 1 True, ilit_make 1 True]]) = Some []"
  by code_simp



end
