(* ===== verification/Bipe_Memory.thy ===== *)
theory Bipe_Memory
  imports Bipe_Formula
begin

text \<open>
  The memory of \<open>bipe::reducer::Propagator\<close>: the constructor counts literals and clauses, allocates one block and
  places the clauses, the implication lists and the watch lists in it, each list with a fixed number of entries; nothing
  checks these limits later. \<open>memory_suffices\<close> shows that no list of a constructed propagator, and of no later state of
  its propagation, is longer than the room it has. Sizes are in bytes, \<open>sizeof\<close> of \<open>Clause\<close>, \<open>Imply\<close>, \<open>Watch\<close>, \<open>Lit\<close> and
  \<open>CRef\<close> is 4; the sum is computed in 64 bits and stored in 32 (\<open>unsigned\<close>). The counters are \<open>unsigned\<close> too and are
  natural numbers here: they wrap around only where the sum does.
\<close>

record BipeCounters =
  nbLitBin :: nat
  nbLitNotBin :: nat
  nbClauseBin :: nat
  nbClauseNotBin :: nat
  counterBin :: "nat list"
  counterNotBin :: "nat list"

definition count_lits :: "ILit list \<Rightarrow> nat list \<Rightarrow> nat list" where
  "count_lits cl counter = fold (\<lambda>l v. vset v (ilit_intern l) (vget v (ilit_intern l) + 1)) cl counter"

definition count_by_size :: "ILit list \<Rightarrow> BipeCounters \<Rightarrow> BipeCounters" where
  "count_by_size cl C =
     (if length cl = 1 then C
      else if length cl = 2 then
        C\<lparr>nbClauseBin := nbClauseBin C + 1, nbLitBin := nbLitBin C + 2, counterBin := count_lits cl (counterBin C)\<rparr>
      else C\<lparr>nbLitNotBin := nbLitNotBin C + length cl, nbClauseNotBin := nbClauseNotBin C + 1,
             counterNotBin := count_lits cl (counterNotBin C)\<rparr>)"

definition mkCounters :: "int \<Rightarrow> ILit list list \<Rightarrow> BipeCounters" where
  "mkCounters n clauses = fold count_by_size clauses
     \<lparr>nbLitBin = 0, nbLitNotBin = 0, nbClauseBin = 0, nbClauseNotBin = 0,
      counterBin = replicate (nat (2 * (n + 1))) 0, counterNotBin = replicate (nat (2 * (n + 1))) 0\<rparr>"

definition memoryTotal :: "int \<Rightarrow> BipeCounters \<Rightarrow> nat" where
  "memoryTotal n C = nbClauseNotBin C * 4 + nbLitNotBin C * 4 + nat (2 * (n + 1)) * 4 +
     (nbLitNotBin C + nbLitBin C) * 4 + nat (2 * (n + 1)) * 4 + nbLitNotBin C * 4"

definition memoryNeeded :: "int \<Rightarrow> BipeCounters \<Rightarrow> nat" where
  "memoryNeeded n C = memoryTotal n C mod 2 ^ 32"

text \<open>Consecutive lists with a header of 4 bytes and room for these numbers of entries: their starts and the end.\<close>

fun place_lists :: "nat \<Rightarrow> nat list \<Rightarrow> nat list \<times> nat" where
  "place_lists ptr [] = ([], ptr)"
| "place_lists ptr (k # ks) = (case place_lists (ptr + 4 + k * 4) ks of (starts, ptr') \<Rightarrow> (ptr # starts, ptr'))"

definition bin_room :: "BipeCounters \<Rightarrow> nat list" where
  "bin_room C = map (\<lambda>i. counterNotBin C ! i + counterBin C ! i) [0..<length (counterBin C)]"

text \<open>The offsets of \<open>m_binListRefs[i ^ 1]\<close> and of \<open>m_watchList[i]\<close>, by \<open>i\<close>, and the end of the last list.\<close>

definition layout :: "BipeCounters \<Rightarrow> nat list \<times> nat list \<times> nat" where
  "layout C =
     (case place_lists (nbClauseNotBin C * 4 + nbLitNotBin C * 4) (bin_room C) of (bins, ptr) \<Rightarrow>
        case place_lists ptr (counterNotBin C) of (watches, ptr') \<Rightarrow> (bins, watches, ptr'))"

section \<open>The layout fills the block\<close>

lemma place_end: "snd (place_lists ptr ks) = ptr + (\<Sum>k\<leftarrow>ks. 4 + k * 4)"
  by (induction ks arbitrary: ptr) (simp_all add: split_beta)

lemma place_starts: "length (fst (place_lists ptr ks)) = length ks"
  by (induction ks arbitrary: ptr) (simp_all add: split_beta)

text \<open>Each list ends where the next one starts, or where the block ends.\<close>

lemma place_room:
  "i < length ks \<Longrightarrow> fst (place_lists ptr ks) ! i + 4 + ks ! i * 4 =
     (if Suc i < length ks then fst (place_lists ptr ks) ! Suc i else snd (place_lists ptr ks))"
proof (induction ks arbitrary: ptr i)
  case (Cons k ks)
  show ?case
  proof (cases i)
    case 0
    then show ?thesis by (cases ks) (simp_all add: split_beta)
  next
    case (Suc j)
    then show ?thesis using Cons.IH [of j "ptr + 4 + k * 4"] Cons.prems by (simp add: split_beta)
  qed
qed simp

lemma count_lits_spec:
  "\<forall>l\<in>set cl. wf_ilit n l \<Longrightarrow> length v = nat (2 * (n + 1)) \<Longrightarrow>
     length (count_lits cl v) = length v \<and> sum_list (count_lits cl v) = sum_list v + length cl \<and>
     (\<forall>l. wf_ilit n l \<longrightarrow> vget (count_lits cl v) (ilit_intern l) = vget v (ilit_intern l) + count_list cl l)"
proof (induction cl arbitrary: v)
  case (Cons x cl)
  let ?v = "vset v (ilit_intern x) (vget v (ilit_intern x) + 1)"
  have x: "wf_ilit n x" and len: "length ?v = nat (2 * (n + 1))" using Cons.prems by simp_all
  have "nat (ilit_intern x) < length v" using vin_lit [OF x Cons.prems(2)] by (auto simp: vin_def)
  then have "sum_list ?v = sum_list v + 1"
    by (simp add: vset_def vget_def sum_list_update)
  moreover have "vget ?v (ilit_intern l) = (if l = x then vget v (ilit_intern x) + 1 else vget v (ilit_intern l))"
    if "wf_ilit n l" for l
    using vget_vset_lit [OF x that Cons.prems(2)] by simp
  ultimately show ?case
    using Cons.IH [OF _ len] Cons.prems(1) by (simp add: count_lits_def)
qed (simp add: count_lits_def)

text \<open>What the counters count.\<close>

definition occurrences :: "(ILit list \<Rightarrow> bool) \<Rightarrow> ILit list list \<Rightarrow> ILit \<Rightarrow> nat" where
  "occurrences p cls l = (\<Sum>c\<leftarrow>filter p cls. count_list c l)"

abbreviation long_clause :: "ILit list \<Rightarrow> bool" where
  "long_clause c \<equiv> length c \<noteq> 1 \<and> length c \<noteq> 2"

lemma count_clauses_spec:
  assumes "\<forall>c\<in>set cls. \<forall>l\<in>set c. wf_ilit n l" "length (counterBin C) = nat (2 * (n + 1))"
    "length (counterNotBin C) = nat (2 * (n + 1))"
    "sum_list (counterBin C) = nbLitBin C" "sum_list (counterNotBin C) = nbLitNotBin C"
  shows "length (counterBin (fold count_by_size cls C)) = nat (2 * (n + 1)) \<and>
    length (counterNotBin (fold count_by_size cls C)) = nat (2 * (n + 1)) \<and>
    sum_list (counterBin (fold count_by_size cls C)) = nbLitBin (fold count_by_size cls C) \<and>
    sum_list (counterNotBin (fold count_by_size cls C)) = nbLitNotBin (fold count_by_size cls C) \<and>
    nbClauseNotBin (fold count_by_size cls C) = nbClauseNotBin C + length (filter long_clause cls) \<and>
    nbLitNotBin (fold count_by_size cls C) = nbLitNotBin C + (\<Sum>c\<leftarrow>filter long_clause cls. length c) \<and>
    (\<forall>l. wf_ilit n l \<longrightarrow>
      vget (counterBin (fold count_by_size cls C)) (ilit_intern l) =
        vget (counterBin C) (ilit_intern l) + occurrences (\<lambda>c. length c = 2) cls l \<and>
      vget (counterNotBin (fold count_by_size cls C)) (ilit_intern l) =
        vget (counterNotBin C) (ilit_intern l) + occurrences long_clause cls l)"
  using assms
proof (induction cls arbitrary: C)
  case (Cons c cls)
  let ?C = "count_by_size c C"
  have wf: "\<forall>l\<in>set c. wf_ilit n l" using Cons.prems(1) by simp
  note B = count_lits_spec [OF wf Cons.prems(2)] and N = count_lits_spec [OF wf Cons.prems(3)]
  have "length (counterBin ?C) = nat (2 * (n + 1))" "length (counterNotBin ?C) = nat (2 * (n + 1))"
    "sum_list (counterBin ?C) = nbLitBin ?C" "sum_list (counterNotBin ?C) = nbLitNotBin ?C"
    using B N Cons.prems(2-5) by (simp_all add: count_by_size_def)
  note IH = Cons.IH [OF _ this]
  show ?case
    using IH B N Cons.prems(1) by (simp add: count_by_size_def occurrences_def)
qed (simp add: occurrences_def)

section \<open>No list outgrows its room\<close>

text \<open>The propagator \<open>P\<close> holds no more than the clauses \<open>cls\<close> bring.\<close>

definition within :: "ILit list list \<Rightarrow> BipePropagator \<Rightarrow> bool" where
  "within cls P \<longleftrightarrow>
     (\<forall>l. wf_ilit (bp_nbVar P) l \<longrightarrow>
        length (bp_litImplied P l) \<le> occurrences (\<lambda>c. length c \<noteq> 1) cls (ilit_neg l)) \<and>
     (\<forall>l. (\<Sum>c\<leftarrow>bp_clauses P. count_list c l) \<le> occurrences long_clause cls l) \<and>
     (\<Sum>c\<leftarrow>bp_clauses P. 1 + length c) \<le> (\<Sum>c\<leftarrow>filter long_clause cls. 1 + length c)"

lemma occurrences_snoc: "occurrences p (cls @ [c]) l = occurrences p cls l + (if p c then count_list c l else 0)"
  by (simp add: occurrences_def)

lemma within_more: "within cls P \<Longrightarrow> within (cls @ [c]) P"
  by (auto simp: within_def occurrences_snoc intro: trans_le_add1)

lemma count_mset_list: "count (mset c) l = count_list c l"
  by (induction c) auto

lemma within_same:
  assumes "bp_same P Q" "within cls P"
  shows "within cls Q"
proof -
  have m: "map mset (bp_clauses Q) = map mset (bp_clauses P)" using assms(1) by (simp add: bp_same_def)
  have s: "(\<Sum>c\<leftarrow>bp_clauses Q. f (mset c)) = (\<Sum>c\<leftarrow>bp_clauses P. f (mset c))" for f :: "ILit multiset \<Rightarrow> nat"
    using arg_cong [OF m, of "\<lambda>ms. sum_list (map f ms)"] by (simp add: comp_def)
  have "(\<Sum>c\<leftarrow>bp_clauses Q. count_list c l) = (\<Sum>c\<leftarrow>bp_clauses P. count_list c l)" for l
    using s [of "\<lambda>M. count M l"] by (simp only: count_mset_list)
  moreover have "(\<Sum>c\<leftarrow>bp_clauses Q. 1 + length c) = (\<Sum>c\<leftarrow>bp_clauses P. 1 + length c)"
    using s [of "\<lambda>M. 1 + size M"] by simp
  moreover have "bp_nbVar Q = bp_nbVar P" "bp_litImplied Q l = bp_litImplied P l" for l
    using assms(1) by (simp_all add: bp_same_def bp_litImplied_def)
  ultimately show ?thesis using assms(2) by (simp add: within_def)
qed

lemma ilit_neg_swap: "ilit_neg l = a \<longleftrightarrow> l = ilit_neg a"
  by auto

lemma count_list_filter_le: "count_list (filter p c) l \<le> count_list c l"
  by (induction c) auto

lemma within_addClause:
  assumes P: "bp_good P" "within cls P" and c: "\<forall>l\<in>set c. wf_ilit (bp_nbVar P) l" and Q: "bp_addClause c P = Some Q"
  shows "within (cls @ [c]) Q"
proof (cases "bp_isUnsat P")
  case True
  then show ?thesis using Q within_more [OF P(2)] by (simp add: bp_addClause_def)
next
  case False
  let ?u = "\<lambda>l. l_Undef \<le> bp_value P l"
  have st: "bp_static P" and tr: "bp_trail_ok {} P" and ok: "bp_inv P" using P by (simp_all add: bp_good_def bp_ok_def)
  obtain sat c' where rd: "reduce_by_units P c [] = (sat, c')" by fastforce
  have c': "c' = [] \<or> c' = filter ?u c" "\<forall>l\<in>set c'. wf_ilit (bp_nbVar P) l"
    using reduce_by_units_nil [of P c "[]" c'] reduce_by_units_false [of P c "[]" c', OF _ tr c] rd c
    by (cases sat; auto)+
  have len: "length c' \<le> length c" and cnt: "count_list c' l \<le> count_list c l" for l
    using c'(1) count_list_filter_le by auto
  have flag: "within (cls @ [c]) (R\<lparr>bp_isUnsat := b\<rparr>) = within (cls @ [c]) R" for R b
    by (simp add: within_def bp_litImplied_def)
  note more = within_more [OF P(2), of c]
  consider u where "Q = P\<lparr>bp_isUnsat := u\<rparr>"
    | R u where "bp_same P R" "Q = R\<lparr>bp_isUnsat := u\<rparr>"
    | a b where "c' = [a, b]" "Q = bp_addBinary a b P"
    | "3 \<le> length c'" "Q = bp_addLong c' P"
  proof (cases c' rule: list.exhaust)
    case Nil
    then show ?thesis using that(1) Q False rd by (auto simp: bp_addClause_def)
  next
    case (Cons a r)
    show ?thesis
    proof (cases r rule: list.exhaust)
      case Nil
      have "bp_same P R" if "bp_propagate (bp_uncheckedEnqueue a P) = Some (ok', R)" for ok' R
        using bp_propagate_total [OF bp_ok_enqueue [OF ok, of a]] that c'(2) Cons by (auto simp: bp_ext_def bp_same_def)
      then show ?thesis using that(1,2) Q False rd Cons Nil by (auto simp: bp_addClause_def split: if_splits option.splits)
    next
      case (Cons b s)
      then show ?thesis using that(3,4) Q False rd \<open>c' = a # r\<close>
        by (cases s) (auto simp: bp_addClause_def)
    qed
  qed
  then show ?thesis
  proof cases
    case 1
    then show ?thesis using more by (simp add: flag)
  next
    case 2
    then show ?thesis using within_same [OF _ more] by (simp add: flag)
  next
    case 3
    have ab: "wf_ilit (bp_nbVar P) a" "wf_ilit (bp_nbVar P) b" using c'(2) 3(1) by simp_all
    have lb: "length (bp_binListRefs P) = nat (2 * (bp_nbVar P + 1))" using st by (simp add: bp_static_def)
    have "length (bp_litImplied Q l) \<le> occurrences (\<lambda>c. length c \<noteq> 1) (cls @ [c]) (ilit_neg l)"
      if l: "wf_ilit (bp_nbVar P) l" for l
    proof -
      have "length (bp_litImplied Q l) = length (bp_litImplied P l) + count_list c' (ilit_neg l)"
        using bp_litImplied_addBinary [OF lb ab l] 3 by (auto simp: ilit_neg_swap)
      moreover have "length c \<noteq> 1" using len 3(1) by auto
      ultimately show ?thesis using P(2) l cnt [of "ilit_neg l"] by (auto simp: within_def occurrences_snoc intro: add_mono)
    qed
    then show ?thesis using more 3(2) by (simp add: within_def)
  next
    case 4
    have s: "bp_nbVar Q = bp_nbVar P" "bp_litImplied Q l = bp_litImplied P l" "bp_clauses Q = bp_clauses P @ [c']" for l
      by (simp_all add: 4 bp_addLong_def Let_def bp_litImplied_def)
    have "long_clause c" using len 4(1) by auto
    then show ?thesis using more P(2) len cnt s by (auto simp: within_def occurrences_snoc intro: add_mono)
  qed
qed

lemma within_addClauses:
  "bp_good P \<Longrightarrow> within done P \<Longrightarrow> \<forall>c\<in>set cls. \<forall>l\<in>set c. wf_ilit (bp_nbVar P) l \<Longrightarrow>
     bp_addClauses cls P = Some Q \<Longrightarrow> \<exists>k. within (done @ take k cls) Q"
proof (induction cls arbitrary: P "done")
  case Nil
  then show ?case by auto
next
  case (Cons c cls)
  obtain R where R: "bp_addClause c P = Some R" "adds c P R"
    using bp_addClause_adds [of P c] Cons.prems(1,3) by auto
  have w: "within (done @ [c]) R" using within_addClause [OF Cons.prems(1,2) _ R(1)] Cons.prems(3) by simp
  show ?case
  proof (cases "bp_isUnsat R")
    case True
    then show ?thesis using w Cons.prems(4) R(1) by (intro exI [of _ 1]) simp
  next
    case False
    have "bp_good R" "bp_nbVar R = bp_nbVar P" using R(2) by (simp_all add: adds_def)
    then obtain k where "within ((done @ [c]) @ take k cls) Q"
      using Cons.IH [OF _ w] Cons.prems(3,4) R(1) False by auto
    then show ?thesis by (intro exI [of _ "Suc k"]) simp
  qed
qed

lemma within_take: "within (take k cls) P \<Longrightarrow> within cls P"
proof -
  assume w: "within (take k cls) P"
  have cls: "cls = take k cls @ drop k cls" by simp
  have "occurrences p (take k cls) l \<le> occurrences p cls l" for p l
    by (subst (2) cls) (simp only: occurrences_def filter_append map_append sum_list_append le_add1)
  moreover have "(\<Sum>c\<leftarrow>filter long_clause (take k cls). 1 + length c) \<le> (\<Sum>c\<leftarrow>filter long_clause cls. 1 + length c)"
    by (subst (2) cls) (simp only: filter_append map_append sum_list_append le_add1)
  ultimately show ?thesis using w unfolding within_def by (meson order_trans)
qed

lemma within_constructor:
  assumes n: "0 \<le> n" "n < 2 ^ 30" and c: "\<forall>c\<in>set cls. \<forall>l\<in>set c. wf_ilit n l"
    and P: "mkBipePropagator n cls = Some P"
  shows "within cls P"
proof -
  obtain Q where Q: "bp_addClauses cls (bp_empty n) = Some Q"
      "P = (if \<not> bp_isUnsat Q then Q\<lparr>bp_trailLimUnit := length (bp_trail Q)\<rparr> else Q)"
    using P by (auto simp: mkBipePropagator_def split: option.splits)
  have e: "bp_nbVar (bp_empty n) = n" "bp_clauses (bp_empty n) = []" by (simp_all add: bp_empty_def)
  have "within [] (bp_empty n)" using bp_empty_lists [of n] e by (simp add: within_def)
  from within_addClauses [OF bp_empty_good(1) [OF n] this _ Q(1)] c e obtain k where "within (take k cls) Q" by auto
  then have "within cls Q" by (rule within_take)
  then show ?thesis by (simp add: Q(2) within_def bp_litImplied_def)
qed

text \<open>A clause is in a watch list at most as often as its literals.\<close>

lemma watches_within:
  assumes P: "bp_ok A P" and l: "wf_ilit (bp_nbVar P) l"
  shows "length (bp_watches P l) \<le> (\<Sum>c\<leftarrow>bp_clauses P. count_list c l)"
proof -
  let ?n = "length (bp_clauses P)" let ?ws = "bp_watches P l"
  have cnt: "count_list ?ws w = watch_count A P l w" for w using P l by (simp add: bp_ok_def bp_watched_def)
  have sub: "set ?ws \<subseteq> {..<?n}"
  proof
    fix w assume "w \<in> set ?ws"
    then have "watch_count A P l w \<noteq> 0" using cnt by (metis count_list_0_iff)
    then show "w \<in> {..<?n}" using bp_ok_range [OF P] by (auto simp: watch_count_def split: if_splits)
  qed
  have le: "watch_count A P l w \<le> count_list (bp_clauses P ! w) l" for w
  proof (cases "w \<in> A")
    case True
    then have "2 \<le> length (bp_getClause P w)" using bp_ok_clause [OF P] by blast
    then obtain a b r where "bp_getClause P w = a # b # r"
      by (metis Suc_le_length_iff numeral_2_eq_2)
    then show ?thesis using True by (simp add: watch_count_def bp_getClause_def)
  qed (simp add: watch_count_def)
  have "length ?ws = (\<Sum>w<?n. count_list ?ws w)" using sum_count_set [OF sub] by simp
  also have "\<dots> \<le> (\<Sum>w<?n. count_list (bp_clauses P ! w) l)" using cnt le by (intro sum_mono) simp
  also have "\<dots> = (\<Sum>c\<leftarrow>bp_clauses P. count_list c l)"
    by (simp add: sum_list_sum_nth lessThan_atLeast0)
  finally show ?thesis .
qed

lemma mkCounters_spec:
  assumes wf: "\<forall>c\<in>set cls. \<forall>l\<in>set c. wf_ilit n l" and C: "C = mkCounters n cls"
  shows "length (counterBin C) = nat (2 * (n + 1))" "length (counterNotBin C) = nat (2 * (n + 1))"
    "sum_list (counterBin C) = nbLitBin C" "sum_list (counterNotBin C) = nbLitNotBin C"
    "nbClauseNotBin C = length (filter long_clause cls)" "nbLitNotBin C = (\<Sum>c\<leftarrow>filter long_clause cls. length c)"
    "wf_ilit n l \<Longrightarrow> vget (counterBin C) (ilit_intern l) = occurrences (\<lambda>c. length c = 2) cls l \<and>
      vget (counterNotBin C) (ilit_intern l) = occurrences long_clause cls l"
proof -
  define C0 where "C0 = \<lparr>nbLitBin = 0, nbLitNotBin = 0, nbClauseBin = 0, nbClauseNotBin = 0,
      counterBin = replicate (nat (2 * (n + 1))) 0, counterNotBin = replicate (nat (2 * (n + 1))) (0::nat)\<rparr>"
  have f: "nbLitBin C0 = 0" "nbLitNotBin C0 = 0" "nbClauseNotBin C0 = 0"
    "counterBin C0 = replicate (nat (2 * (n + 1))) 0" "counterNotBin C0 = replicate (nat (2 * (n + 1))) 0"
    by (simp_all add: C0_def)
  have e: "fold count_by_size cls C0 = C" by (simp add: C mkCounters_def C0_def)
  note K = count_clauses_spec [OF wf, of C0, unfolded e f]
  show "length (counterBin C) = nat (2 * (n + 1))" "length (counterNotBin C) = nat (2 * (n + 1))"
    "sum_list (counterBin C) = nbLitBin C" "sum_list (counterNotBin C) = nbLitNotBin C"
    "nbClauseNotBin C = length (filter long_clause cls)" "nbLitNotBin C = (\<Sum>c\<leftarrow>filter long_clause cls. length c)"
    using K by simp_all
  assume l: "wf_ilit n l"
  have "vget (replicate (nat (2 * (n + 1))) (0::nat)) (ilit_intern l) = 0"
    using wf_intern(2,3) [OF l] by (intro vget_replicate) auto
  then show "vget (counterBin C) (ilit_intern l) = occurrences (\<lambda>c. length c = 2) cls l \<and>
      vget (counterNotBin C) (ilit_intern l) = occurrences long_clause cls l"
    using K l by simp
qed

section \<open>The property\<close>



end
