(* ===== verification/Discount_Generator.thy ===== *)
theory Discount_Generator
  imports Bipe_Formula Std_Heap Heuristic_Spec
begin

text \<open>
  Class \<open>CubeGeneratorCLI\<close> of \<open>cube_generator/CubeGeneratorCLI.cpp\<close>: the cube generator with a pool of
  threads. The record holds the members, the cubes and the queue of \<open>generate\<close>, and the positions of the main
  thread and of the workers; a step is one action on the state the threads share. Waiting on a condition variable is a
  step that is enabled when its condition holds.

  Parameters: \<open>ndebug\<close> tells whether \<open>assert\<close> is compiled out; \<open>nxt\<close> is the branching heuristic (\<open>next\<close>);
  \<open>solve i\<close> is the SAT solver of thread \<open>i\<close>; the outcome of the clock test of a round is chosen by the step.
  The file declares \<open>m_solvers\<close> and \<open>initPropagator\<close> under other names in its header and copies
  \<open>bipe::Lit\<close>s into a vector of \<open>Lit\<close>s; the model takes the conversion of every literal, as the comment there says.
\<close>

section \<open>State\<close>

text \<open>The weight is the number of literals, as a \<open>double\<close>; the conversion is exact.\<close>

record GCube =
  gc_lits :: "ILit list"
  gc_weight :: nat

record WorkerResult =
  wr_lits :: "ILit list"
  wr_sat :: bool

text \<open>\<open>NoReturn\<close> is a call of \<open>propagate\<close> that does not return; no run has it.\<close>

datatype cg_error = AssertionFailed | NoReturn

text \<open>
  The places of \<open>generate\<close> and of the destructor. The flag of a place of the main loop is the local \<open>timeUp\<close>.
\<close>

datatype MainPc =
    Deciding
  | Submitting bool "ILit list list"
  | Pushing bool "ILit list" "ILit list list"
  | Collecting bool bool
  | TestEmpty bool
  | TestLimit bool
  | TestTime bool
  | Draining bool
  | Returned bool
  | Joining bool
  | Destroyed bool
  | Aborted cg_error

datatype WorkerPc = Idle | Solving "ILit list" | Counting | Gone

record 'h CubeGeneratorCLI =
  cg_propagator :: BipePropagator
  cg_branchingHeuristic :: 'h
  cg_cubes :: "ILit list list"
  cg_queue :: "GCube list"
  cg_jobQueue :: "ILit list list"
  cg_shutdown :: bool
  cg_results :: "WorkerResult list"
  cg_inFlight :: int
  cg_main :: MainPc
  cg_threads :: "WorkerPc list"

abbreviation gq_push :: "GCube \<Rightarrow> GCube list \<Rightarrow> GCube list" where
  "gq_push \<equiv> pq_push (min_cmp gc_weight)"

abbreviation gq_pop :: "GCube list \<Rightarrow> GCube list" where
  "gq_pop \<equiv> pq_pop (min_cmp gc_weight)"

definition gcube :: "ILit list \<Rightarrow> GCube" where
  "gcube ls = \<lparr>gc_lits = ls, gc_weight = length ls\<rparr>"

section \<open>The operations of the main thread\<close>

definition cg_initPropagator :: "int \<Rightarrow> ILit list list \<Rightarrow> BipePropagator option" where
  "cg_initPropagator n cls = mkBipePropagator n (map (map convert_lit) cls)"

definition cg_initQueue :: "BipePropagator \<Rightarrow> (BipePropagator \<times> GCube list) option" where
  "cg_initQueue P =
     (case bp_propagate P of
        None \<Rightarrow> None
      | Some (ok, Q) \<Rightarrow> Some (Q, gq_push (gcube (map convert_lit (bp_trail Q))) []))"

definition load_lit :: "ILit \<Rightarrow> BipePropagator \<Rightarrow> BipePropagator" where
  "load_lit l P = (let lb = convert_lit l in if 1 < bp_value P lb then bp_uncheckedEnqueue lb P else P)"

text \<open>Loading the best cube, with the assertions: the first one calls \<open>propagate\<close>.\<close>

definition load_cube :: "bool \<Rightarrow> ILit list \<Rightarrow> BipePropagator \<Rightarrow> cg_error + BipePropagator" where
  "load_cube ndebug ls P =
     (let P1 = fold load_lit ls (bp_restart P)
      in if ndebug then Inr P1
         else case bp_propagate P1 of
                None \<Rightarrow> Inl NoReturn
              | Some (ok, P2) \<Rightarrow>
                  if ok \<and> \<not> bp_isUnsat P2 then
                    if length ls = length (bp_trail P2) then Inr P2 else Inl AssertionFailed
                  else Inl AssertionFailed)"

definition try_branch :: "ILit \<Rightarrow> BipePropagator \<times> ILit list list \<Rightarrow> cg_error + BipePropagator \<times> ILit list list" where
  "try_branch l s =
     (case s of (P, pending) \<Rightarrow>
        (case bp_propagate (bp_uncheckedEnqueue l P) of
           None \<Rightarrow> Inl NoReturn
         | Some (ok, Q) \<Rightarrow> Inr (Q, if ok then pending @ [map convert_lit (bp_trail Q)] else pending)))"

definition branch_on :: "int \<Rightarrow> BipePropagator \<Rightarrow> cg_error + BipePropagator \<times> ILit list list" where
  "branch_on v P =
     (let sizeTrail = length (bp_trail P)
      in case try_branch (ilit_make_true v) (P, []) of
           Inl e \<Rightarrow> Inl e
         | Inr (Q, pending) \<Rightarrow> try_branch (ilit_make_false v) (bp_cancelUntilPos sizeTrail Q, pending))"

definition cg_createCubes :: "bool \<Rightarrow> ('h \<Rightarrow> ILit list \<Rightarrow> int \<times> 'h) \<Rightarrow> 'h CubeGeneratorCLI \<Rightarrow>
    cg_error + 'h CubeGeneratorCLI \<times> ILit list list" where
  "cg_createCubes ndebug nxt S =
     (let cBest = pq_top (cg_queue S)
      in case load_cube ndebug (gc_lits cBest) (cg_propagator S) of
           Inl e \<Rightarrow> Inl e
         | Inr P \<Rightarrow>
             (case nxt (cg_branchingHeuristic S) (gc_lits cBest) of
                (v, h) \<Rightarrow>
                  if v = -1 then
                    Inr (S\<lparr>cg_propagator := P, cg_branchingHeuristic := h, cg_cubes := cg_cubes S @ [gc_lits cBest],
                           cg_queue := gq_pop (cg_queue S)\<rparr>, [])
                  else
                    (case branch_on v P of
                       Inl e \<Rightarrow> Inl e
                     | Inr (Q, pending) \<Rightarrow>
                         Inr (S\<lparr>cg_propagator := Q, cg_branchingHeuristic := h, cg_queue := gq_pop (cg_queue S)\<rparr>,
                              pending))))"

text \<open>The decision at the top of a round, with its read of \<open>m_inFlight\<close>.\<close>

definition cg_decide :: "bool \<Rightarrow> ('h \<Rightarrow> ILit list \<Rightarrow> int \<times> 'h) \<Rightarrow> nat \<Rightarrow> bool \<Rightarrow> 'h CubeGeneratorCLI \<Rightarrow>
    'h CubeGeneratorCLI" where
  "cg_decide ndebug nxt limit timeUp S =
     (if \<not> timeUp \<and> length (cg_queue S) < limit \<and> cg_inFlight S = 0 \<and> cg_queue S \<noteq> [] then
        (case cg_createCubes ndebug nxt S of
           Inl e \<Rightarrow> S\<lparr>cg_main := Aborted e\<rparr>
         | Inr (S', pending) \<Rightarrow> S'\<lparr>cg_main := Submitting timeUp pending\<rparr>)
      else S\<lparr>cg_main := Submitting timeUp []\<rparr>)"

definition cg_collectResults :: "'h CubeGeneratorCLI \<Rightarrow> 'h CubeGeneratorCLI" where
  "cg_collectResults S = S\<lparr>
     cg_queue := fold (\<lambda>r q. if wr_sat r then gq_push (gcube (wr_lits r)) q else q) (cg_results S) (cg_queue S),
     cg_results := []\<rparr>"

text \<open>The two actions of \<open>submitSATCheck\<close>.\<close>

definition submit_count :: "'h CubeGeneratorCLI \<Rightarrow> 'h CubeGeneratorCLI" where
  "submit_count S = S\<lparr>cg_inFlight := cg_inFlight S + 1\<rparr>"

definition submit_push :: "ILit list \<Rightarrow> 'h CubeGeneratorCLI \<Rightarrow> 'h CubeGeneratorCLI" where
  "submit_push cube S = S\<lparr>cg_jobQueue := cg_jobQueue S @ [cube]\<rparr>"

text \<open>One step of the main thread; \<open>None\<close> when it waits or has ended.\<close>

definition main_step :: "bool \<Rightarrow> ('h \<Rightarrow> ILit list \<Rightarrow> int \<times> 'h) \<Rightarrow> nat \<Rightarrow> bool \<Rightarrow> 'h CubeGeneratorCLI \<Rightarrow>
    'h CubeGeneratorCLI option" where
  "main_step ndebug nxt limit clock S =
     (case cg_main S of
        Deciding \<Rightarrow> Some (cg_decide ndebug nxt limit clock S)
      | Submitting timeUp (p # ps) \<Rightarrow> Some ((submit_count S)\<lparr>cg_main := Pushing timeUp p ps\<rparr>)
      | Pushing timeUp p ps \<Rightarrow> Some ((submit_push p S)\<lparr>cg_main := Submitting timeUp ps\<rparr>)
      | Submitting timeUp [] \<Rightarrow> Some (S\<lparr>cg_main := Collecting timeUp (cg_queue S = [] \<and> 0 < cg_inFlight S)\<rparr>)
      | Collecting timeUp block \<Rightarrow>
          if cg_results S = [] then (if block then None else Some (S\<lparr>cg_main := TestEmpty timeUp\<rparr>))
          else Some ((cg_collectResults S)\<lparr>cg_main := TestEmpty timeUp\<rparr>)
      | TestEmpty timeUp \<Rightarrow>
          Some (S\<lparr>cg_main := if cg_queue S = [] \<and> cg_inFlight S = 0 then Draining (cg_cubes S = [])
                             else TestLimit timeUp\<rparr>)
      | TestLimit timeUp \<Rightarrow>
          Some (S\<lparr>cg_main := if limit \<le> length (cg_queue S) \<and> cg_inFlight S = 0 then Draining False
                             else TestTime timeUp\<rparr>)
      | TestTime timeUp \<Rightarrow>
          Some (S\<lparr>cg_main := if timeUp \<and> cg_inFlight S = 0 then Draining False else Deciding\<rparr>)
      | Draining unsat \<Rightarrow>
          Some (if cg_queue S = [] then S\<lparr>cg_main := Returned (\<not> unsat)\<rparr>
                else S\<lparr>cg_cubes := cg_cubes S @ [gc_lits (pq_top (cg_queue S))], cg_queue := gq_pop (cg_queue S)\<rparr>)
      | Returned sat \<Rightarrow> Some (S\<lparr>cg_shutdown := True, cg_main := Joining sat\<rparr>)
      | Joining sat \<Rightarrow> if list_all (\<lambda>w. w = Gone) (cg_threads S) then Some (S\<lparr>cg_main := Destroyed sat\<rparr>) else None
      | Destroyed sat \<Rightarrow> None
      | Aborted e \<Rightarrow> None)"

section \<open>The workers\<close>

text \<open>One step of worker \<open>i\<close> in \<open>workerLoop\<close>; \<open>None\<close> when it waits for a job or has left.\<close>

definition worker_step :: "(nat \<Rightarrow> ILit list \<Rightarrow> bool) \<Rightarrow> nat \<Rightarrow> 'h CubeGeneratorCLI \<Rightarrow> 'h CubeGeneratorCLI option" where
  "worker_step solve i S =
     (case cg_threads S ! i of
        Idle \<Rightarrow>
          (case cg_jobQueue S of
             [] \<Rightarrow> if cg_shutdown S then Some (S\<lparr>cg_threads := (cg_threads S)[i := Gone]\<rparr>) else None
           | cube # jobs \<Rightarrow> Some (S\<lparr>cg_jobQueue := jobs, cg_threads := (cg_threads S)[i := Solving cube]\<rparr>))
      | Solving cube \<Rightarrow>
          Some (S\<lparr>cg_results := cg_results S @ [\<lparr>wr_lits = cube, wr_sat = solve i (map convert_lit cube)\<rparr>],
                  cg_threads := (cg_threads S)[i := Counting]\<rparr>)
      | Counting \<Rightarrow> Some (S\<lparr>cg_inFlight := cg_inFlight S - 1, cg_threads := (cg_threads S)[i := Idle]\<rparr>)
      | Gone \<Rightarrow> None)"

section \<open>Runs of the pool\<close>

text \<open>The actions of a schedule: the main thread with its reading of the clock, or a worker.\<close>

datatype action = Main bool | Work nat

definition pool_step :: "bool \<Rightarrow> ('h \<Rightarrow> ILit list \<Rightarrow> int \<times> 'h) \<Rightarrow> (nat \<Rightarrow> ILit list \<Rightarrow> bool) \<Rightarrow> nat \<Rightarrow> action \<Rightarrow>
    'h CubeGeneratorCLI \<Rightarrow> 'h CubeGeneratorCLI option" where
  "pool_step ndebug nxt solve limit a S =
     (case a of
        Main timeUp \<Rightarrow> main_step ndebug nxt limit timeUp S
      | Work i \<Rightarrow> if i < length (cg_threads S) then worker_step solve i S else None)"

text \<open>\<open>generate\<close> up to its main loop, for the cubes it is given and a new heuristic.\<close>

definition cg_start :: "nat \<Rightarrow> int \<Rightarrow> ILit list list \<Rightarrow> 'h \<Rightarrow> ILit list list \<Rightarrow> 'h CubeGeneratorCLI option" where
  "cg_start nbThreads n cls h cubes =
     (case cg_initPropagator n cls of
        None \<Rightarrow> None
      | Some P \<Rightarrow>
          (case cg_initQueue P of
             None \<Rightarrow> None
           | Some (Q, q) \<Rightarrow>
               Some \<lparr>cg_propagator = Q, cg_branchingHeuristic = h, cg_cubes = cubes, cg_queue = q, cg_jobQueue = [],
                     cg_shutdown = False, cg_results = [], cg_inFlight = 0, cg_main = Deciding,
                     cg_threads = replicate nbThreads Idle\<rparr>))"

inductive pool_run :: "bool \<Rightarrow> ('h \<Rightarrow> ILit list \<Rightarrow> int \<times> 'h) \<Rightarrow> (nat \<Rightarrow> ILit list \<Rightarrow> bool) \<Rightarrow> nat \<Rightarrow>
    'h CubeGeneratorCLI \<Rightarrow> 'h CubeGeneratorCLI \<Rightarrow> bool"
  for ndebug nxt solve limit S0 where
  begin_run: "pool_run ndebug nxt solve limit S0 S0"
| step_run: "pool_run ndebug nxt solve limit S0 S \<Longrightarrow> pool_step ndebug nxt solve limit a S = Some T \<Longrightarrow>
    pool_run ndebug nxt solve limit S0 T"

text \<open>Running a schedule.\<close>

fun run_schedule :: "bool \<Rightarrow> ('h \<Rightarrow> ILit list \<Rightarrow> int \<times> 'h) \<Rightarrow> (nat \<Rightarrow> ILit list \<Rightarrow> bool) \<Rightarrow> nat \<Rightarrow> action list \<Rightarrow>
    'h CubeGeneratorCLI \<Rightarrow> 'h CubeGeneratorCLI option" where
  "run_schedule ndebug nxt solve limit [] S = Some S"
| "run_schedule ndebug nxt solve limit (a # as) S =
     (case pool_step ndebug nxt solve limit a S of
        None \<Rightarrow> None
      | Some T \<Rightarrow> run_schedule ndebug nxt solve limit as T)"

lemma run_schedule_sound:
  "run_schedule ndebug nxt solve limit as S = Some T \<Longrightarrow> pool_run ndebug nxt solve limit S0 S \<Longrightarrow>
     pool_run ndebug nxt solve limit S0 T"
proof (induction "as" arbitrary: S)
  case (Cons a as)
  then show ?case by (auto split: option.splits intro: step_run)
qed simp

section \<open>The propagator between two cubes\<close>

text \<open>The trail has one literal per variable.\<close>

abbreviation one_per_var :: "BipePropagator \<Rightarrow> bool" where
  "one_per_var P \<equiv> distinct (map ilit_var (bp_trail P))"

lemma fresh_ext_distinct: "fresh_ext lvar t t' \<Longrightarrow> distinct (map lvar t) \<Longrightarrow> distinct (map lvar t')"
proof -
  assume "fresh_ext lvar t t'" and d: "distinct (map lvar t)"
  then obtain new where "t' = t @ new" "distinct (map lvar new)" "lvar ` set new \<inter> lvar ` set t = {}"
    by (auto simp: fresh_ext_def)
  with d show ?thesis by (simp add: Int_commute)
qed

lemma propagate_one_per_var:
  assumes "bp_inv P" "bp_propagate P = Some (ok, Q)" "one_per_var P"
  shows "one_per_var Q \<and> bp_trailLimUnit Q = bp_trailLimUnit P"
  using bp_propagate_total [OF assms(1)] assms(2,3) by (auto simp: bp_ext_def bp_same_def intro: fresh_ext_distinct)

lemma addClause_one_per_var:
  assumes P: "bp_good P" "one_per_var P" and c: "\<forall>l\<in>set c. wf_ilit (bp_nbVar P) l"
    and Q: "bp_addClause c P = Some Q"
  shows "one_per_var Q \<and> bp_trailLimUnit Q = bp_trailLimUnit P"
proof (cases "bp_isUnsat P")
  case False
  have ok: "bp_inv P" and tr: "bp_trail_ok {} P" using P by (simp_all add: bp_good_def bp_ok_def)
  obtain b c' where r: "reduce_by_units P c [] = (b, c')" by fastforce
  have "\<forall>l\<in>set c'. wf_ilit (bp_nbVar P) l"
    using r c reduce_by_units_nil [of P c "[]" c'] reduce_by_units_false [OF _ tr c, of "[]" c'] by (cases b) auto
  then have l: "wf_ilit (bp_nbVar P) (c' ! 0)" if "length c' = 1" using that by simp
  show ?thesis
  proof (cases "length c' = 1 \<and> vget (bp_assign P) (ilit_var (c' ! 0)) = l_Undef")
    case True
    let ?E = "bp_uncheckedEnqueue (c' ! 0) P"
    have "ilit_var (c' ! 0) \<notin> ilit_var ` set (bp_trail P)"
      using bp_assign_undef [of P "c' ! 0"] bp_value_undef [OF tr, of "c' ! 0"] l True ok by (simp add: bp_ok_def)
    then have "one_per_var ?E" using P(2) by simp
    moreover have "bp_inv ?E" using bp_ok_enqueue [OF ok] l True by simp
    ultimately obtain ok' R where R: "bp_propagate ?E = Some (ok', R)" "one_per_var R"
        "bp_trailLimUnit R = bp_trailLimUnit P"
      using bipe_prop.propagate_law [of ?E] propagate_one_per_var [of ?E] by auto
    have "c' \<noteq> []" "length c' = 1" using True by auto
    then have "Q = R\<lparr>bp_isUnsat := \<not> ok'\<rparr>" using Q False r True R(1) by (simp add: bp_addClause_def)
    then show ?thesis using R by simp
  next
    case nu: False
    then show ?thesis using Q False r P(2)
      by (auto simp: bp_addClause_def bp_addLong_def Let_def split: if_splits)
  qed
qed (use P Q in \<open>simp add: bp_addClause_def\<close>)

lemma addClauses_one_per_var:
  "bp_good P \<Longrightarrow> one_per_var P \<Longrightarrow> \<forall>c\<in>set cls. \<forall>l\<in>set c. wf_ilit (bp_nbVar P) l \<Longrightarrow>
     bp_addClauses cls P = Some Q \<Longrightarrow> one_per_var Q \<and> bp_trailLimUnit Q = bp_trailLimUnit P"
proof (induction cls arbitrary: P)
  case (Cons c cls)
  then obtain R where R: "bp_addClause c P = Some R" "adds c P R" using bp_addClause_adds [of P c] by auto
  then have "one_per_var R" "bp_trailLimUnit R = bp_trailLimUnit P" "bp_good R" "bp_nbVar R = bp_nbVar P"
    using Cons.prems addClause_one_per_var [of P c R] by (simp_all add: adds_def)
  then show ?case using Cons.IH [of R] Cons.prems(3,4) R(1) by (cases "bp_isUnsat R") simp_all
qed simp

text \<open>
  The propagator between two cubes: the literals of the construction, \<open>base\<close>, start its trail, its formula is that
  of the constructor, and every model of the clauses makes the base true.
\<close>

definition prop_ok :: "int \<Rightarrow> ILit list list \<Rightarrow> ILit list \<Rightarrow> BipePropagator \<Rightarrow> bool" where
  "prop_ok n cls base P \<longleftrightarrow> bp_inv P \<and> bp_nbVar P = n \<and> bp_trailLimUnit P = length base \<and>
     take (length base) (bp_trail P) = base \<and> one_per_var P \<and>
     (\<forall>m. cnf_true (ilit_true m) cls \<longrightarrow> cnf_true (ilit_true m) (bp_formula P) \<and> cube_true (ilit_true m) base)"

lemma prop_ok_trail: "prop_ok n cls base P \<Longrightarrow> \<forall>l\<in>set (bp_trail P). wf_ilit n l"
  by (auto simp: prop_ok_def bp_ok_def bp_trail_ok_def)

lemma prop_ok_base: "prop_ok n cls base P \<Longrightarrow> \<exists>rest. bp_trail P = base @ rest"
  unfolding prop_ok_def by (metis append_take_drop_id)

lemma cg_init:
  assumes "0 \<le> n" "n < 2 ^ 30" "\<forall>c\<in>set cls. \<forall>l\<in>set c. wf_ilit n l"
  obtains P Q ok base where "cg_initPropagator n cls = Some P" "bp_propagate P = Some (ok, Q)" "prop_ok n cls base Q"
    "\<And>m. cnf_true (ilit_true m) cls \<Longrightarrow> cube_true (ilit_true m) (bp_trail Q)"
proof -
  have c: "map (map convert_lit) cls = cls" using assms(3) by (intro map_idI map_convert) blast
  obtain P where P: "mkBipePropagator n cls = Some P" "bp_good P" "bp_nbVar P = n"
      "\<not> bp_isUnsat P \<Longrightarrow> bp_trailLimUnit P = length (bp_trail P)"
      "\<And>m. bp_models m P \<longleftrightarrow> cnf_true (ilit_true m) cls"
    using constructor_ok [OF assms] by blast
  then have init: "cg_initPropagator n cls = Some P" by (simp add: cg_initPropagator_def c)
  obtain R where R0: "bp_addClauses cls (bp_empty n) = Some R"
      "P = (if \<not> bp_isUnsat R then R\<lparr>bp_trailLimUnit := length (bp_trail R)\<rparr> else R)"
    using P(1) by (simp add: mkBipePropagator_def split: option.splits)
  then have R: "bp_addClauses cls (bp_empty n) = Some R" "bp_trail P = bp_trail R" "bp_isUnsat P = bp_isUnsat R"
      "bp_isUnsat R \<Longrightarrow> P = R" by simp_all
  have n: "bp_nbVar (bp_empty n) = n" "bp_trail (bp_empty n) = []" "bp_trailLimUnit (bp_empty n) = 0"
    by (simp_all add: bp_empty_def)
  have one: "one_per_var P" "bp_trailLimUnit R = 0"
    using addClauses_one_per_var [OF bp_empty_good(1) [OF assms(1,2)] _ _ R(1)] assms(3) n R(2) by simp_all
  have inv: "bp_inv P" using P(2) by (simp add: bp_good_def)
  obtain ok Q where Q: "bp_propagate P = Some (ok, Q)" "bp_inv Q" "bp_formula Q = bp_formula P"
      "bp_nbVar Q = bp_nbVar P" "\<exists>new. bp_trail Q = bp_trail P @ new"
      "\<forall>m. cnf_true (ilit_true m) (bp_formula P) \<longrightarrow> cube_true (ilit_true m) (bp_trail P) \<longrightarrow>
        cube_true (ilit_true m) (bp_trail Q)"
    using bipe_prop.propagate_law [OF inv] by blast
  have lim: "bp_trailLimUnit Q = bp_trailLimUnit P"
    using bp_propagate_total [OF inv] Q(1) by (auto simp: bp_ext_def bp_same_def)
  have models: "cnf_true (ilit_true m) (bp_formula P) \<and> cube_true (ilit_true m) (bp_trail P) \<and> \<not> bp_isUnsat P"
    if "cnf_true (ilit_true m) cls" for m
    using P(5) [of m] that bp_formula_models [of P m] inv by (simp add: bp_models_def bp_ok_def)
  define base where "base = take (bp_trailLimUnit P) (bp_trail P)"
  have base: "bp_trailLimUnit P = length base" "take (length base) (bp_trail Q) = base"
    using P(4) Q(5) R one(2) by (cases "bp_isUnsat P"; auto simp: base_def)+
  have "cube_true (ilit_true m) base" if "cnf_true (ilit_true m) cls" for m
    using models [OF that] by (auto simp: base_def truth_simps dest: in_set_takeD)
  then have "prop_ok n cls base Q"
    using Q P(3) lim base models propagate_one_per_var [OF inv Q(1) one(1)] by (simp add: prop_ok_def)
  then show ?thesis using init Q(1,6) models by (intro that) blast+
qed

lemma prop_restart_ok:
  assumes "prop_ok n cls base P"
  shows "prop_ok n cls base (bp_restart P)" "bp_trail (bp_restart P) = base"
proof -
  let ?rest = "drop (length base) (bp_trail P)"
  have P: "bp_inv P" "bp_nbVar P = n" "bp_trailLimUnit P = length base" "take (length base) (bp_trail P) = base"
      "one_per_var P" "\<forall>m. cnf_true (ilit_true m) cls \<longrightarrow> cnf_true (ilit_true m) (bp_formula P) \<and> cube_true (ilit_true m) base"
    using assms by (simp_all add: prop_ok_def)
  then have t: "bp_trail P = base @ ?rest" by (metis append_take_drop_id)
  then have d: "distinct (map ilit_var base @ map ilit_var ?rest)" using P(5) by (metis map_append)
  have "ilit_var ` set ?rest \<inter> ilit_var ` set base \<subseteq> {}" using d by auto
  note b = bp_back_ok [OF P(1) t this bp_restart_eq [of P, unfolded P(3,4)] refl]
  show tr: "bp_trail (bp_restart P) = base" using P(3,4) by (simp add: bp_restart_eq)
  have r: "bp_notBinClauseRefs (bp_restart P) = bp_notBinClauseRefs P" "bp_nbVar (bp_restart P) = n"
      "bp_trailLimUnit (bp_restart P) = length base"
    using P by (simp_all add: bp_restart_eq)
  have "bp_formula (bp_restart P) = bp_formula P" by (rule bp_formula_same [OF b(4) bp_ok_range [OF P(1)]])
  then show "prop_ok n cls base (bp_restart P)"
    using b(1-3) d P(6) by (simp add: prop_ok_def bp_ok_def r tr)
qed

lemma load_lit_ok:
  assumes P: "prop_ok n cls base P" and l: "wf_ilit n l"
  shows "l \<in> set (bp_trail P) \<Longrightarrow> load_lit l P = P"
    "ilit_var l \<notin> ilit_var ` set (bp_trail P) \<Longrightarrow> load_lit l P = bp_uncheckedEnqueue l P"
    "ilit_var l \<notin> ilit_var ` set (bp_trail P) \<Longrightarrow> prop_ok n cls base (bp_uncheckedEnqueue l P)"
proof -
  have ok: "bp_inv P" "one_per_var P" "bp_nbVar P = n" and tr: "bp_trail_ok {} P"
    using P by (simp_all add: prop_ok_def bp_ok_def)
  have cases: "bp_value P l = l_True \<and> l \<in> set (bp_trail P) \<or>
      bp_value P l = l_False \<and> ilit_neg l \<in> set (bp_trail P) \<or>
      l_Undef \<le> bp_value P l \<and> ilit_var l \<notin> ilit_var ` set (bp_trail P)"
    using tr l ok(3) by (auto simp: bp_trail_ok_def)
  note load = load_lit_def [of l P] convert_wf [OF l]
  show "load_lit l P = P" if "l \<in> set (bp_trail P)"
    using cases that by (auto simp: load Let_def l_True_def l_False_def)
  assume new: "ilit_var l \<notin> ilit_var ` set (bp_trail P)"
  then have "l \<notin> set (bp_trail P)" "ilit_neg l \<notin> set (bp_trail P)" using neg_parts(1) [OF l] by (auto simp: image_iff)
  then show "load_lit l P = bp_uncheckedEnqueue l P"
    using cases by (auto simp: load Let_def l_Undef_def)
  have "take (length base) (bp_trail P @ [l]) = base"
    using prop_ok_base [OF P] by auto
  then show "prop_ok n cls base (bp_uncheckedEnqueue l P)"
    using P new bp_ok_enqueue [OF ok(1)] l ok(3) by (simp add: prop_ok_def)
qed

lemma load_present: "prop_ok n cls base P \<Longrightarrow> set ls \<subseteq> set (bp_trail P) \<Longrightarrow> fold load_lit ls P = P"
proof (induction ls)
  case (Cons l ls)
  then have "load_lit l P = P" using load_lit_ok(1) [of n cls base P l] prop_ok_trail [of n cls base P] by auto
  then show ?case using Cons by simp
qed simp

lemma load_new: "prop_ok n cls base P \<Longrightarrow> \<forall>l\<in>set ls. wf_ilit n l \<Longrightarrow> distinct (map ilit_var (bp_trail P @ ls)) \<Longrightarrow>
    prop_ok n cls base (fold load_lit ls P) \<and> bp_trail (fold load_lit ls P) = bp_trail P @ ls"
proof (induction ls arbitrary: P)
  case (Cons l ls)
  have l: "wf_ilit n l" "ilit_var l \<notin> ilit_var ` set (bp_trail P)" using Cons.prems by auto
  note e = load_lit_ok [OF Cons.prems(1) l(1)]
  show ?case using Cons.IH [OF e(3)] e(2) l Cons.prems by simp
qed simp

text \<open>A cube of the queue: it starts with the base and has one literal per variable.\<close>

definition lits_ok :: "int \<Rightarrow> ILit list \<Rightarrow> ILit list \<Rightarrow> bool" where
  "lits_ok n base c \<longleftrightarrow> (\<forall>l\<in>set c. wf_ilit n l) \<and> distinct (map ilit_var c) \<and> take (length base) c = base"

lemma prop_ok_lits: "prop_ok n cls base P \<Longrightarrow> lits_ok n base (bp_trail P)"
  using prop_ok_trail [of n cls base P] by (simp add: lits_ok_def prop_ok_def)

text \<open>What is loaded is the cube.\<close>

lemma fold_load_ok:
  assumes P: "prop_ok n cls base P" and c: "lits_ok n base c"
  shows "prop_ok n cls base (fold load_lit c (bp_restart P)) \<and> bp_trail (fold load_lit c (bp_restart P)) = c"
proof -
  obtain rest where rest: "c = base @ rest" using c unfolding lits_ok_def by (metis append_take_drop_id)
  note r = prop_restart_ok [OF P]
  have "fold load_lit base (bp_restart P) = bp_restart P" using load_present [OF r(1), of base] r(2) by simp
  then show ?thesis using load_new [OF r(1), of rest] r(2) c by (simp add: rest lits_ok_def)
qed

lemma propagate_prop_ok:
  assumes P: "prop_ok n cls base P" and Q: "bp_propagate P = Some (ok, Q)"
  shows "prop_ok n cls base Q"
proof -
  have inv: "bp_inv P" using P by (simp add: prop_ok_def)
  obtain new where "bp_inv Q" "bp_formula Q = bp_formula P" "bp_nbVar Q = bp_nbVar P" "bp_trail Q = bp_trail P @ new"
    using bipe_prop.propagate_law [OF inv] Q by auto
  moreover have "one_per_var Q \<and> bp_trailLimUnit Q = bp_trailLimUnit P"
    using propagate_one_per_var [OF inv Q] P by (simp add: prop_ok_def)
  moreover obtain rest where "bp_trail P = base @ rest" using prop_ok_base [OF P] by blast
  ultimately show ?thesis using P by (simp add: prop_ok_def)
qed

lemma load_cube_ok:
  assumes P: "prop_ok n cls base P" and c: "lits_ok n base c"
  shows "(\<exists>Q. load_cube ndebug c P = Inr Q \<and> prop_ok n cls base Q \<and> bp_trail Q = c) \<or>
    load_cube ndebug c P = Inl AssertionFailed \<and> \<not> ndebug"
proof (cases ndebug)
  case True
  then show ?thesis using fold_load_ok [OF P c] by (simp add: load_cube_def)
next
  case False
  let ?R = "fold load_lit c (bp_restart P)"
  have R: "prop_ok n cls base ?R" "bp_trail ?R = c" using fold_load_ok [OF P c] by simp_all
  then have "bp_inv ?R" by (simp add: prop_ok_def)
  then obtain ok Q new where Q: "bp_propagate ?R = Some (ok, Q)" "bp_trail Q = c @ new"
    using bipe_prop.propagate_law [of ?R] R(2) by auto
  then show ?thesis using propagate_prop_ok [OF R(1) Q(1)] False by (auto simp: load_cube_def)
qed

lemma cancel_prop_ok:
  assumes P: "prop_ok n cls base P" and t: "bp_trail P = t @ rest" "length base \<le> length t"
  shows "prop_ok n cls base (bp_cancelUntilPos (length t) P) \<and> bp_trail (bp_cancelUntilPos (length t) P) = t"
proof -
  let ?Q = "bp_cancelUntilPos (length t) P"
  have inv: "bp_inv P" and one: "one_per_var P" using P by (simp_all add: prop_ok_def)
  have "ilit_var ` set rest \<inter> ilit_var ` set t \<subseteq> {}" using one by (auto simp: t(1))
  note b = bp_back_ok [OF inv t(1) this bp_cancel_eq [OF t(1)], simplified]
  have s: "bp_nbVar ?Q = bp_nbVar P" "bp_notBinClauseRefs ?Q = bp_notBinClauseRefs P" "bp_trail ?Q = t"
      "bp_trailLimUnit ?Q = bp_trailLimUnit P"
    by (simp_all add: bp_cancel_eq [OF t(1)])
  have "bp_formula ?Q = bp_formula P" by (rule bp_formula_same [OF b(4) bp_ok_range [OF inv]])
  then show ?thesis using b(1-3) s P t one by (simp add: prop_ok_def bp_ok_def)
qed

lemma try_branch_ok:
  assumes P: "prop_ok n cls base P" and l: "wf_ilit n l" "ilit_var l \<notin> ilit_var ` set (bp_trail P)"
  obtains ok Q new where "try_branch l (P, pending) = Inr (Q, pending @ (if ok then [bp_trail P @ l # new] else []))"
    "prop_ok n cls base Q" "bp_trail Q = bp_trail P @ l # new"
    "\<And>m. cnf_true (ilit_true m) cls \<Longrightarrow> cube_true (ilit_true m) (bp_trail P) \<Longrightarrow> ilit_true m l \<Longrightarrow>
      ok \<and> cube_true (ilit_true m) (bp_trail P @ l # new)"
proof -
  have inv: "bp_inv P" "0 < ilit_var l" "ilit_var l \<le> bp_nbVar P" using P l by (auto simp: prop_ok_def wf_ilit_def)
  obtain ok Q new where Q: "bp_propagate (bp_uncheckedEnqueue l P) = Some (ok, Q)" "bp_trail Q = bp_trail P @ l # new"
      "\<And>m. cnf_true (ilit_true m) (bp_formula P) \<Longrightarrow> cube_true (ilit_true m) (bp_trail P) \<Longrightarrow> ilit_true m l \<Longrightarrow>
        ok \<and> cube_true (ilit_true m) (bp_trail Q)"
    by (rule bipe_prop.enqueue_propagate [OF inv]) (rule that; assumption)
  have ok: "prop_ok n cls base Q" by (rule propagate_prop_ok [OF load_lit_ok(3) [OF P l] Q(1)])
  then have "map convert_lit (bp_trail Q) = bp_trail Q" by (intro map_convert prop_ok_trail)
  then have "try_branch l (P, pending) = Inr (Q, pending @ (if ok then [bp_trail P @ l # new] else []))"
    using Q(1,2) by (simp add: try_branch_def)
  then show ?thesis
  proof (rule that [OF _ ok Q(2)])
    fix m assume "cnf_true (ilit_true m) cls" "cube_true (ilit_true m) (bp_trail P)" "ilit_true m l"
    then show "ok \<and> cube_true (ilit_true m) (bp_trail P @ l # new)" using Q(3) [of m] P Q(2) by (simp add: prop_ok_def)
  qed
qed

text \<open>The two branches keep the models, start with the trail and exclude each other.\<close>

definition ilit_clash :: "ILit list \<Rightarrow> ILit list \<Rightarrow> bool" where
  "ilit_clash a b \<longleftrightarrow> (\<exists>l\<in>set a. ilit_neg l \<in> set b)"

lemma ilit_clash_sym: "symp ilit_clash"
proof (rule sympI)
  fix a b assume "ilit_clash a b"
  then obtain l where "l \<in> set a" "ilit_neg l \<in> set b" by (auto simp: ilit_clash_def)
  then show "ilit_clash b a" unfolding ilit_clash_def by (intro bexI [of _ "ilit_neg l"]) simp_all
qed

lemma ilit_clash_mono: "ilit_clash a b \<Longrightarrow> set a \<subseteq> set a' \<Longrightarrow> ilit_clash a' b"
  by (auto simp: ilit_clash_def)

definition expands_to :: "int \<Rightarrow> ILit list list \<Rightarrow> ILit list \<Rightarrow> ILit list \<Rightarrow> ILit list list \<Rightarrow> bool" where
  "expands_to n cls base c kids \<longleftrightarrow>
     (\<forall>k\<in>set kids. lits_ok n base k \<and> set c \<subseteq> set k) \<and> sorted_wrt ilit_clash kids \<and>
     (\<forall>m. cnf_true (ilit_true m) cls \<longrightarrow> cube_true (ilit_true m) c \<longrightarrow> (\<exists>k\<in>set kids. cube_true (ilit_true m) k))"

lemma branch_on_ok:
  assumes P: "prop_ok n cls base P" and v: "1 \<le> v" "v \<le> n" "v \<notin> ilit_var ` set (bp_trail P)"
  obtains Q kids where "branch_on v P = Inr (Q, kids)" "prop_ok n cls base Q" "length kids \<le> 2"
    "expands_to n cls base (bp_trail P) kids"
proof -
  let ?t = "bp_trail P" let ?p = "ilit_make v False" let ?q = "ilit_make v True"
  have "n < 2 ^ 30" using P by (simp add: prop_ok_def bp_ok_def bp_static_def)
  then have wf: "wf_ilit n ?p" "wf_ilit n ?q" "ilit_var ?p = v" "ilit_var ?q = v" "ilit_neg ?p = ?q"
      "\<And>m. ilit_true m ?p \<or> ilit_true m ?q"
    using v by (simp_all add: wf_ilit_def ilit_true_def)
  have new: "ilit_var ?p \<notin> ilit_var ` set ?t" "ilit_var ?q \<notin> ilit_var ` set ?t" using v wf by simp_all
  obtain ok1 Q1 new1 where 1: "try_branch ?p (P, []) = Inr (Q1, [] @ (if ok1 then [?t @ ?p # new1] else []))"
      "prop_ok n cls base Q1" "bp_trail Q1 = ?t @ ?p # new1"
      "\<And>m. cnf_true (ilit_true m) cls \<Longrightarrow> cube_true (ilit_true m) ?t \<Longrightarrow> ilit_true m ?p \<Longrightarrow>
        ok1 \<and> cube_true (ilit_true m) (?t @ ?p # new1)"
    by (rule try_branch_ok [OF P wf(1) new(1)]) (rule that; assumption)
  let ?R = "bp_cancelUntilPos (length ?t) Q1" let ?k1 = "if ok1 then [?t @ ?p # new1] else []"
  have "length base \<le> length ?t" using prop_ok_base [OF P] by auto
  then have R: "prop_ok n cls base ?R" "bp_trail ?R = ?t" using cancel_prop_ok [OF 1(2,3)] by simp_all
  have new2: "ilit_var ?q \<notin> ilit_var ` set (bp_trail ?R)" unfolding R(2) by (rule new(2))
  obtain ok2 Q2 new2 where 2: "try_branch ?q (?R, ?k1) = Inr (Q2, ?k1 @ (if ok2 then [?t @ ?q # new2] else []))"
      "prop_ok n cls base Q2" "bp_trail Q2 = ?t @ ?q # new2"
      "\<And>m. cnf_true (ilit_true m) cls \<Longrightarrow> cube_true (ilit_true m) ?t \<Longrightarrow> ilit_true m ?q \<Longrightarrow>
        ok2 \<and> cube_true (ilit_true m) (?t @ ?q # new2)"
    by (rule try_branch_ok [OF R(1) wf(2) new2, unfolded R(2)]) (rule that; assumption)
  let ?kids = "?k1 @ (if ok2 then [?t @ ?q # new2] else [])"
  have "lits_ok n base (?t @ ?p # new1)" "lits_ok n base (?t @ ?q # new2)"
    using prop_ok_lits [OF 1(2)] prop_ok_lits [OF 2(2)] 1(3) 2(3) by simp_all
  moreover have "ilit_clash (?t @ ?p # new1) (?t @ ?q # new2)"
    using wf(5) by (auto simp: ilit_clash_def)
  moreover have "\<exists>k\<in>set ?kids. cube_true (ilit_true m) k"
    if "cnf_true (ilit_true m) cls" "cube_true (ilit_true m) ?t" for m
    using 1(4) [OF that] 2(4) [OF that] wf(6) [of m] by auto
  ultimately have "expands_to n cls base ?t ?kids" by (auto simp: expands_to_def)
  moreover have "branch_on v P = Inr (Q2, ?kids)"
    using 1(1) 2(1) by (simp add: branch_on_def flip: make_true_false)
  ultimately show ?thesis using 2(2) by (intro that) simp_all
qed

end
