(* ===== verification/Discount_Pool.thy ===== *)
theory Discount_Pool
  imports Discount_Generator
begin

text \<open>
  The runs of the thread pool of \<open>CubeGeneratorCLI\<close>, for every interleaving: where the cubes are, what \<open>m_inFlight\<close>
  counts, and what holds when \<open>generate\<close> returns or when no thread can take a step. Two races of the code are
  exhibited by schedules.
\<close>

section \<open>Updating one thread\<close>

lemma filter_update:
  "i < length xs \<Longrightarrow> length (filter p (xs[i := y])) + of_bool (p (xs ! i)) = length (filter p xs) + of_bool (p y)"
proof (induction xs arbitrary: i)
  case (Cons x xs)
  then show ?case by (cases i) auto
qed simp

lemma concat_update:
  "i < length xs \<Longrightarrow> mset (concat (map f (xs[i := y]))) + mset (f (xs ! i)) = mset (concat (map f xs)) + mset (f y)"
proof (induction xs arbitrary: i)
  case (Cons x xs)
  then show ?case by (cases i) (auto simp: add.commute add.left_commute)
qed simp

section \<open>Where the cubes are\<close>

fun pending_of :: "MainPc \<Rightarrow> ILit list list" where
  "pending_of (Submitting timeUp ps) = ps"
| "pending_of (Pushing timeUp p ps) = p # ps"
| "pending_of _ = []"

fun job_of :: "WorkerPc \<Rightarrow> ILit list list" where
  "job_of (Solving c) = [c]"
| "job_of _ = []"

definition busy :: "WorkerPc \<Rightarrow> bool" where
  "busy w \<longleftrightarrow> w \<noteq> Idle \<and> w \<noteq> Gone"

definition in_play :: "'h CubeGeneratorCLI \<Rightarrow> ILit list list" where
  "in_play S = cg_cubes S @ map gc_lits (cg_queue S) @ pending_of (cg_main S) @ cg_jobQueue S @
     concat (map job_of (cg_threads S)) @ map wr_lits (cg_results S)"

text \<open>The cubes are well-formed, exclude each other and cover the models.\<close>

definition cubes_ok :: "int \<Rightarrow> ILit list list \<Rightarrow> ILit list \<Rightarrow> ILit list list \<Rightarrow> bool" where
  "cubes_ok n cls base cs \<longleftrightarrow> (\<forall>c\<in>set cs. lits_ok n base c) \<and> sorted_wrt ilit_clash cs \<and>
     (\<forall>m. cnf_true (ilit_true m) cls \<longrightarrow> (\<exists>c\<in>set cs. cube_true (ilit_true m) c))"

lemma cubes_ok_mset: "mset cs = mset ds \<Longrightarrow> cubes_ok n cls base cs \<Longrightarrow> cubes_ok n cls base ds"
  using sorted_wrt_mset [OF ilit_clash_sym, of cs ds] mset_eq_setD [of cs ds] by (simp add: cubes_ok_def)

lemma cubes_ok_expand:
  assumes "cubes_ok n cls base (c # cs)" "expands_to n cls base c kids"
  shows "cubes_ok n cls base (kids @ cs)"
  unfolding cubes_ok_def
proof (intro conjI allI impI ballI)
  show "lits_ok n base k" if "k \<in> set (kids @ cs)" for k
    using assms that by (auto simp: cubes_ok_def expands_to_def)
  have "ilit_clash k d" if "k \<in> set kids" "d \<in> set cs" for k d
    using assms that ilit_clash_mono [of c d k] by (auto simp: cubes_ok_def expands_to_def)
  then show "sorted_wrt ilit_clash (kids @ cs)"
    using assms by (auto simp: cubes_ok_def expands_to_def sorted_wrt_append)
  show "\<exists>k\<in>set (kids @ cs). cube_true (ilit_true m) k" if "cnf_true (ilit_true m) cls" for m
    using assms that unfolding cubes_ok_def expands_to_def by (metis UnI1 UnI2 set_ConsD set_append)
qed

lemma cubes_ok_drop:
  assumes "cubes_ok n cls base (cs @ ds)"
    and "\<forall>d\<in>set ds. \<forall>m. cnf_true (ilit_true m) cls \<longrightarrow> \<not> cube_true (ilit_true m) d"
  shows "cubes_ok n cls base cs"
  using assms unfolding cubes_ok_def by (auto simp: sorted_wrt_append)

section \<open>The invariant\<close>

text \<open>The solver of a thread answers that a cube is satisfiable if the clauses have a model in it.\<close>

definition sound_solver :: "ILit list list \<Rightarrow> (nat \<Rightarrow> ILit list \<Rightarrow> bool) \<Rightarrow> bool" where
  "sound_solver cls solve \<longleftrightarrow>
     (\<forall>i c m. cnf_true (ilit_true m) cls \<longrightarrow> cube_true (ilit_true m) c \<longrightarrow> solve i c)"

text \<open>What holds when the main thread is at a place.\<close>

fun main_ok :: "'h CubeGeneratorCLI \<Rightarrow> MainPc \<Rightarrow> bool" where
  "main_ok S (Draining unsat) \<longleftrightarrow> cg_inFlight S = 0 \<and> (unsat \<longrightarrow> cg_cubes S = [] \<and> cg_queue S = [])"
| "main_ok S (Returned sat) \<longleftrightarrow> cg_inFlight S = 0 \<and> cg_queue S = [] \<and> (sat \<or> cg_cubes S = [])"
| "main_ok S (Joining sat) \<longleftrightarrow> cg_inFlight S = 0 \<and> cg_queue S = [] \<and> (sat \<or> cg_cubes S = []) \<and> cg_shutdown S"
| "main_ok S (Destroyed sat) \<longleftrightarrow> cg_inFlight S = 0 \<and> cg_queue S = [] \<and> (sat \<or> cg_cubes S = []) \<and> cg_shutdown S"
| "main_ok S (Aborted e) \<longleftrightarrow> e = AssertionFailed"
| "main_ok S _ \<longleftrightarrow> True"

fun pushing :: "MainPc \<Rightarrow> nat" where
  "pushing (Pushing timeUp p ps) = 1"
| "pushing _ = 0"

fun ended :: "MainPc \<Rightarrow> bool" where
  "ended (Joining sat) = True"
| "ended (Destroyed sat) = True"
| "ended _ = False"

definition counts_ok :: "'h CubeGeneratorCLI \<Rightarrow> bool" where
  "counts_ok S \<longleftrightarrow>
     cg_inFlight S = int (length (cg_jobQueue S) + length (filter busy (cg_threads S)) + pushing (cg_main S)) \<and>
     cg_shutdown S = ended (cg_main S) \<and> (Gone \<in> set (cg_threads S) \<longrightarrow> cg_shutdown S)"

definition results_ok :: "ILit list list \<Rightarrow> 'h CubeGeneratorCLI \<Rightarrow> bool" where
  "results_ok cls S \<longleftrightarrow> (\<forall>r\<in>set (cg_results S). \<not> wr_sat r \<longrightarrow>
     (\<forall>m. cnf_true (ilit_true m) cls \<longrightarrow> \<not> cube_true (ilit_true m) (wr_lits r)))"

definition gqueue_ok :: "GCube list \<Rightarrow> bool" where
  "gqueue_ok q \<longleftrightarrow> heap_ok gc_weight q \<and> (\<forall>c\<in>set q. gc_weight c = length (gc_lits c))"

definition engine_ok :: "('h \<Rightarrow> bool) \<Rightarrow> ('h \<Rightarrow> int) \<Rightarrow> int \<Rightarrow> ILit list list \<Rightarrow> ILit list \<Rightarrow> 'h CubeGeneratorCLI \<Rightarrow> bool" where
  "engine_ok hinv hnb n cls base S \<longleftrightarrow> prop_ok n cls base (cg_propagator S) \<and>
     hinv (cg_branchingHeuristic S) \<and> hnb (cg_branchingHeuristic S) = n \<and> gqueue_ok (cg_queue S)"

definition pool_ok :: "('h \<Rightarrow> bool) \<Rightarrow> ('h \<Rightarrow> int) \<Rightarrow> int \<Rightarrow> ILit list list \<Rightarrow> ILit list \<Rightarrow> 'h CubeGeneratorCLI \<Rightarrow> bool" where
  "pool_ok hinv hnb n cls base S \<longleftrightarrow> engine_ok hinv hnb n cls base S \<and> cubes_ok n cls base (in_play S) \<and>
     counts_ok S \<and> results_ok cls S \<and> main_ok S (cg_main S)"

section \<open>Expanding the best cube\<close>

text \<open>The interface of the heuristic, for cubes with one literal per variable.\<close>

abbreviation good_heuristic :: "('h \<Rightarrow> bool) \<Rightarrow> ('h \<Rightarrow> int) \<Rightarrow> ('h \<Rightarrow> ILit list \<Rightarrow> int \<times> 'h) \<Rightarrow> bool" where
  "good_heuristic hinv hnb nxt \<equiv> branching_heuristic hinv hnb ilit_var (\<lambda>ls. distinct (map ilit_var ls)) nxt"

lemma cg_createCubes_ok:
  assumes h: "good_heuristic hinv hnb nxt" and S: "engine_ok hinv hnb n cls base S"
    and q: "cg_queue S \<noteq> []" and c: "lits_ok n base (gc_lits (pq_top (cg_queue S)))"
  shows "cg_createCubes ndebug nxt S = Inl AssertionFailed \<and> \<not> ndebug \<or>
    (\<exists>P h pending fin. cg_createCubes ndebug nxt S =
        Inr (S\<lparr>cg_propagator := P, cg_branchingHeuristic := h, cg_cubes := cg_cubes S @ fin,
               cg_queue := gq_pop (cg_queue S)\<rparr>, pending) \<and>
      prop_ok n cls base P \<and> hinv h \<and> hnb h = n \<and> expands_to n cls base (gc_lits (pq_top (cg_queue S))) (fin @ pending))"
proof -
  let ?c = "gc_lits (pq_top (cg_queue S))"
  have P0: "prop_ok n cls base (cg_propagator S)" and h0: "hinv (cg_branchingHeuristic S)" "hnb (cg_branchingHeuristic S) = n"
    using S by (simp_all add: engine_ok_def)
  consider "load_cube ndebug ?c (cg_propagator S) = Inl AssertionFailed" "\<not> ndebug"
    | P where "load_cube ndebug ?c (cg_propagator S) = Inr P" "prop_ok n cls base P" "bp_trail P = ?c"
    using load_cube_ok [OF P0 c] by blast
  then show ?thesis
  proof cases
    case 1
    then show ?thesis by (simp add: cg_createCubes_def Let_def)
  next
    case (2 P)
    obtain v h' where nx: "nxt (cg_branchingHeuristic S) ?c = (v, h')" by fastforce
    have wf: "distinct (map ilit_var ?c)" "\<forall>l\<in>set ?c. 0 < ilit_var l \<and> ilit_var l \<le> hnb (cg_branchingHeuristic S)"
      using c h0(2) by (auto simp: lits_ok_def wf_ilit_def)
    note law = branching_heuristic.next_law [OF h h0(1) wf nx]
    show ?thesis
    proof (cases "v = -1")
      case True
      have "expands_to n cls base ?c ([?c] @ [])" using c by (simp add: expands_to_def)
      moreover have "cg_createCubes ndebug nxt S = Inr (S\<lparr>cg_propagator := P, cg_branchingHeuristic := h',
          cg_cubes := cg_cubes S @ [?c], cg_queue := gq_pop (cg_queue S)\<rparr>, [])"
        using 2(1) nx True by (simp add: cg_createCubes_def Let_def)
      ultimately show ?thesis using law h0(2) 2(2) by blast
    next
      case False
      then have v: "1 \<le> v" "v \<le> n" "v \<notin> ilit_var ` set (bp_trail P)" using law h0(2) 2(3) by auto
      obtain Q kids where Q: "branch_on v P = Inr (Q, kids)" "prop_ok n cls base Q" "expands_to n cls base (bp_trail P) kids"
        by (rule branch_on_ok [OF 2(2) v]) (rule that; assumption)
      have "cg_createCubes ndebug nxt S = Inr (S\<lparr>cg_propagator := Q, cg_branchingHeuristic := h',
          cg_cubes := cg_cubes S @ [], cg_queue := gq_pop (cg_queue S)\<rparr>, kids)"
        using 2(1) nx False Q(1) by (simp add: cg_createCubes_def Let_def)
      moreover have "expands_to n cls base ?c ([] @ kids)" using Q(3) 2(3) by simp
      ultimately show ?thesis using law h0(2) Q(2) by blast
    qed
  qed
qed

section \<open>Every step keeps the invariant\<close>

lemma in_play_mset: "mset (in_play T) = mset (in_play S) \<Longrightarrow> cubes_ok n cls base (in_play S) \<Longrightarrow> cubes_ok n cls base (in_play T)"
  by (rule cubes_ok_mset) simp_all

lemma pop_queue:
  assumes "q \<noteq> []" "gqueue_ok q"
  shows "mset (map gc_lits q) = add_mset (gc_lits (pq_top q)) (mset (map gc_lits (gq_pop q)))"
    "gqueue_ok (gq_pop q)"
proof -
  have m: "add_mset (pq_top q) (mset (gq_pop q)) = mset q" using std_heap.contents_pop [of q] assms(1) by simp
  then show "mset (map gc_lits q) = add_mset (gc_lits (pq_top q)) (mset (map gc_lits (gq_pop q)))"
    by (metis image_mset_add_mset mset_map)
  have "set (gq_pop q) \<subseteq> set q" by (metis m set_mset_add_mset_insert set_mset_mset subset_insertI)
  then show "gqueue_ok (gq_pop q)" using std_heap.ordered_pop assms(2) by (auto simp: gqueue_ok_def)
qed

lemma decide_ok:
  assumes h: "good_heuristic hinv hnb nxt" and S: "pool_ok hinv hnb n cls base S" "cg_main S = Deciding"
  shows "pool_ok hinv hnb n cls base (cg_decide ndebug nxt limit timeUp S)"
proof -
  let ?q = "cg_queue S" let ?c = "gc_lits (pq_top ?q)"
  have e: "engine_ok hinv hnb n cls base S" and cs: "cubes_ok n cls base (in_play S)"
    using S by (simp_all add: pool_ok_def)
  have skip: "pool_ok hinv hnb n cls base (S\<lparr>cg_main := Submitting timeUp []\<rparr>)"
    using S by (auto simp: pool_ok_def engine_ok_def counts_ok_def results_ok_def in_play_def)
  show ?thesis
  proof (cases "\<not> timeUp \<and> length ?q < limit \<and> cg_inFlight S = 0 \<and> ?q \<noteq> []")
    case True
    note pop = pop_queue [of ?q]
    have hq: "gqueue_ok ?q" using e by (simp add: engine_ok_def)
    define rest where "rest = cg_cubes S @ map gc_lits (gq_pop ?q) @ cg_jobQueue S @
      concat (map job_of (cg_threads S)) @ map wr_lits (cg_results S)"
    have "mset (in_play S) = mset (?c # rest)"
      using pop(1) [OF _ hq] True S(2) by (simp add: in_play_def rest_def)
    then have cr: "cubes_ok n cls base (?c # rest)" using cs by (rule cubes_ok_mset)
    then have c: "lits_ok n base ?c" by (simp add: cubes_ok_def)
    consider "cg_createCubes ndebug nxt S = Inl AssertionFailed"
      | P h pending fin where "cg_createCubes ndebug nxt S = Inr (S\<lparr>cg_propagator := P, cg_branchingHeuristic := h,
            cg_cubes := cg_cubes S @ fin, cg_queue := gq_pop ?q\<rparr>, pending)"
          "prop_ok n cls base P" "hinv h" "hnb h = n" "expands_to n cls base ?c (fin @ pending)"
      using cg_createCubes_ok [OF h e _ c] True by blast
    then show ?thesis
    proof cases
      case 1
      then show ?thesis using S True
        by (auto simp: cg_decide_def pool_ok_def engine_ok_def counts_ok_def results_ok_def in_play_def)
    next
      case (2 P h' pending fin)
      let ?T = "S\<lparr>cg_propagator := P, cg_branchingHeuristic := h', cg_cubes := cg_cubes S @ fin, cg_queue := gq_pop ?q,
        cg_main := Submitting timeUp pending\<rparr>"
      have "mset ((fin @ pending) @ rest) = mset (in_play ?T)" by (simp add: in_play_def rest_def ac_simps)
      then have "cubes_ok n cls base (in_play ?T)" using cubes_ok_expand [OF cr 2(5)] by (rule cubes_ok_mset)
      moreover have "cg_decide ndebug nxt limit timeUp S = ?T" using True 2(1) by (simp add: cg_decide_def)
      ultimately show ?thesis using S pop(2) [OF _ hq] 2(2-4) True
        by (auto simp: pool_ok_def engine_ok_def counts_ok_def results_ok_def)
    qed
  next
    case False
    then show ?thesis unfolding cg_decide_def by (simp only: if_False skip)
  qed
qed

lemma set_pq_push: "set (pq_push cmp c q) = insert c (set q)"
  by (metis mset_pq_push set_mset_add_mset_insert set_mset_mset)

text \<open>Collecting the results: those of refuted cubes are dropped.\<close>

lemma gqueue_ok_push: "gqueue_ok q \<Longrightarrow> gqueue_ok (gq_push (gcube ls) q)"
  using heap_ok_push [of gc_weight q "gcube ls"] by (auto simp: gqueue_ok_def set_pq_push) (simp_all add: gcube_def)

lemma lits_push: "mset (map gc_lits (gq_push (gcube ls) q)) = add_mset ls (mset (map gc_lits q))"
  by (simp add: mset_pq_push) (simp add: gcube_def)

lemma collect_results_spec:
  "gqueue_ok q \<Longrightarrow> q' = fold (\<lambda>r q. if wr_sat r then gq_push (gcube (wr_lits r)) q else q) rs q \<Longrightarrow>
     mset (map gc_lits q') = mset (map gc_lits q) + mset (map wr_lits (filter wr_sat rs)) \<and> gqueue_ok q'"
proof (induction rs arbitrary: q)
  case (Cons r rs)
  show ?case
  proof (cases "wr_sat r")
    case True
    let ?p = "gq_push (gcube (wr_lits r)) q"
    have "gqueue_ok ?p" by (rule gqueue_ok_push [OF Cons.prems(1)])
    from Cons.IH [OF this] show ?thesis using Cons.prems(2) True lits_push [of "wr_lits r" q] by simp
  next
    case False
    then show ?thesis using Cons.IH [OF Cons.prems(1)] Cons.prems(2) by simp
  qed
qed simp

lemma collect_results_ok:
  assumes S: "pool_ok hinv hnb n cls base S" "cg_main S = Collecting timeUp block"
  shows "pool_ok hinv hnb n cls base ((cg_collectResults S)\<lparr>cg_main := TestEmpty timeUp\<rparr>)"
proof -
  let ?T = "(cg_collectResults S)\<lparr>cg_main := TestEmpty timeUp\<rparr>"
  have e: "engine_ok hinv hnb n cls base S" and cs: "cubes_ok n cls base (in_play S)" and r: "results_ok cls S"
    using S by (simp_all add: pool_ok_def)
  have q: "gqueue_ok (cg_queue S)" using e by (simp add: engine_ok_def)
  note C = collect_results_spec [OF q, of "cg_queue ?T" "cg_results S"]
  have C': "mset (map gc_lits (cg_queue ?T)) = mset (map gc_lits (cg_queue S)) + mset (map wr_lits (filter wr_sat (cg_results S)))"
      "gqueue_ok (cg_queue ?T)"
    using C by (simp_all add: cg_collectResults_def)
  let ?D = "map wr_lits (filter (\<lambda>r. \<not> wr_sat r) (cg_results S))"
  have "mset (map wr_lits (cg_results S)) = mset (map wr_lits (filter wr_sat (cg_results S))) + mset ?D"
    by (simp flip: image_mset_union)
  then have "mset (in_play S) = mset (in_play ?T @ ?D)"
    using C'(1) S(2) by (simp add: in_play_def cg_collectResults_def ac_simps)
  then have "cubes_ok n cls base (in_play ?T @ ?D)" using cs by (rule cubes_ok_mset)
  then have "cubes_ok n cls base (in_play ?T)"
    by (rule cubes_ok_drop) (use r in \<open>auto simp: results_ok_def\<close>)
  then show ?thesis using S C'(2)
    by (auto simp: pool_ok_def engine_ok_def counts_ok_def results_ok_def cg_collectResults_def)
qed

lemma main_step_ok:
  assumes h: "good_heuristic hinv hnb nxt" and S: "pool_ok hinv hnb n cls base S"
    and T: "main_step ndebug nxt limit clock S = Some T"
  shows "pool_ok hinv hnb n cls base T"
proof (cases "cg_main S")
  case Deciding
  then show ?thesis using decide_ok [OF h S Deciding] T by (auto simp: main_step_def)
next
  case (Submitting timeUp ps)
  then show ?thesis using S T
    by (cases ps) (auto simp: main_step_def submit_count_def pool_ok_def engine_ok_def counts_ok_def results_ok_def in_play_def)
next
  case (Pushing timeUp p ps)
  let ?T = "S\<lparr>cg_jobQueue := cg_jobQueue S @ [p], cg_main := Submitting timeUp ps\<rparr>"
  have "mset (in_play ?T) = mset (in_play S)" by (simp add: in_play_def Pushing)
  then have "cubes_ok n cls base (in_play ?T)" using S by (auto simp: pool_ok_def intro: in_play_mset)
  then show ?thesis using S T Pushing
    by (auto simp: main_step_def submit_push_def pool_ok_def engine_ok_def counts_ok_def results_ok_def)
next
  case (Collecting timeUp block)
  then show ?thesis
    using T collect_results_ok [OF S Collecting] S
    by (auto simp: main_step_def pool_ok_def engine_ok_def counts_ok_def results_ok_def in_play_def split: if_splits)
next
  case (Draining unsat)
  let ?q = "cg_queue S"
  let ?T = "S\<lparr>cg_cubes := cg_cubes S @ [gc_lits (pq_top ?q)], cg_queue := gq_pop ?q\<rparr>"
  have q: "gqueue_ok ?q" using S by (simp add: pool_ok_def engine_ok_def)
  show ?thesis
  proof (cases "?q = []")
    case True
    then have "T = S\<lparr>cg_main := Returned (\<not> unsat)\<rparr>" using T Draining by (simp add: main_step_def)
    then show ?thesis using S True Draining
      by (auto simp: pool_ok_def engine_ok_def counts_ok_def results_ok_def in_play_def)
  next
    case False
    note pop = pop_queue [OF False q]
    have "mset (in_play ?T) = mset (in_play S)" using pop(1) by (simp add: in_play_def Draining)
    then have "cubes_ok n cls base (in_play ?T)" using S by (auto simp: pool_ok_def intro: in_play_mset)
    moreover have "T = ?T" using T Draining False by (simp add: main_step_def)
    ultimately show ?thesis using S False Draining pop(2)
      by (auto simp: pool_ok_def engine_ok_def counts_ok_def results_ok_def)
  qed
qed (use S T in \<open>auto simp: main_step_def pool_ok_def engine_ok_def counts_ok_def results_ok_def in_play_def split: if_splits\<close>)

lemma worker_step_ok:
  assumes s: "sound_solver cls solve" and S: "pool_ok hinv hnb n cls base S"
    and i: "i < length (cg_threads S)" and T: "worker_step solve i S = Some T"
  shows "pool_ok hinv hnb n cls base T"
proof -
  have cs: "cubes_ok n cls base (in_play S)" using S by (simp add: pool_ok_def)
  have threads: "mset (concat (map job_of ((cg_threads S)[i := w]))) + mset (job_of (cg_threads S ! i)) =
      mset (concat (map job_of (cg_threads S))) + mset (job_of w)"
    "length (filter busy ((cg_threads S)[i := w])) + of_bool (busy (cg_threads S ! i)) =
      length (filter busy (cg_threads S)) + of_bool (busy w)" for w
    by (rule concat_update [OF i] filter_update [OF i])+
  have gone: "Gone \<in> set ((cg_threads S)[i := w]) \<Longrightarrow> w = Gone \<or> Gone \<in> set (cg_threads S)" for w
    using set_update_subset_insert [of "cg_threads S" i w] by blast
  have frame: "engine_ok hinv hnb n cls base U = engine_ok hinv hnb n cls base S"
    if "cg_propagator U = cg_propagator S" "cg_branchingHeuristic U = cg_branchingHeuristic S" "cg_queue U = cg_queue S"
    for U using that by (simp add: engine_ok_def)
  have main: "main_ok U (cg_main S)"
    if "cg_inFlight U = cg_inFlight S" "cg_cubes U = cg_cubes S" "cg_queue U = cg_queue S" "cg_shutdown U = cg_shutdown S"
    for U using S that by (cases "cg_main S") (simp_all add: pool_ok_def)
  show ?thesis
  proof (cases "cg_threads S ! i")
    case Idle
    show ?thesis
    proof (cases "cg_jobQueue S")
      case Nil
      then have U: "T = S\<lparr>cg_threads := (cg_threads S)[i := Gone]\<rparr>" "cg_shutdown S"
        using T Idle by (auto simp: worker_step_def split: if_splits)
      have "mset (in_play T) = mset (in_play S)" using threads(1) [of Gone] Idle by (simp add: in_play_def U(1))
      then have "cubes_ok n cls base (in_play T)" using cs by (rule in_play_mset)
      then show ?thesis using S U(2) frame [of T] main [of T] threads(2) [of Gone] Idle
        by (auto simp: pool_ok_def counts_ok_def results_ok_def U(1) busy_def)
    next
      case (Cons c jobs)
      then have U: "T = S\<lparr>cg_jobQueue := jobs, cg_threads := (cg_threads S)[i := Solving c]\<rparr>"
        using T Idle by (simp add: worker_step_def)
      have "mset (in_play T) = mset (in_play S)" using threads(1) [of "Solving c"] Idle Cons by (simp add: in_play_def U)
      then have "cubes_ok n cls base (in_play T)" using cs by (rule in_play_mset)
      then show ?thesis using S frame [of T] main [of T] threads(2) [of "Solving c"] Idle Cons gone [of "Solving c"]
        by (auto simp: pool_ok_def counts_ok_def results_ok_def U busy_def)
    qed
  next
    case (Solving c)
    let ?r = "\<lparr>wr_lits = c, wr_sat = solve i (map convert_lit c)\<rparr>"
    have U: "T = S\<lparr>cg_results := cg_results S @ [?r], cg_threads := (cg_threads S)[i := Counting]\<rparr>"
      using T Solving by (simp add: worker_step_def)
    have "mset (in_play T) = mset (in_play S)" using threads(1) [of Counting] Solving by (simp add: in_play_def U)
    then have ct: "cubes_ok n cls base (in_play T)" using cs by (rule in_play_mset)
    then have "lits_ok n base c" by (simp add: cubes_ok_def in_play_def U)
    then have "map convert_lit c = c" using map_convert [of c n] by (simp add: lits_ok_def)
    then have "results_ok cls T"
      using S s by (auto simp: pool_ok_def results_ok_def U sound_solver_def)
    then show ?thesis using S ct frame [of T] main [of T] threads(2) [of Counting] Solving gone [of Counting]
      by (auto simp: pool_ok_def counts_ok_def U busy_def)
  next
    case Counting
    then have U: "T = S\<lparr>cg_inFlight := cg_inFlight S - 1, cg_threads := (cg_threads S)[i := Idle]\<rparr>"
      using T by (simp add: worker_step_def)
    have "mset (in_play T) = mset (in_play S)" using threads(1) [of Idle] Counting by (simp add: in_play_def U)
    then have ct: "cubes_ok n cls base (in_play T)" using cs by (rule in_play_mset)
    have n: "Suc (length (filter busy ((cg_threads S)[i := Idle]))) = length (filter busy (cg_threads S))"
      using threads(2) [of Idle] Counting by (simp add: busy_def)
    then have "0 < cg_inFlight S" using S by (simp add: pool_ok_def counts_ok_def)
    then have "main_ok T (cg_main S)" using S by (cases "cg_main S") (simp_all add: pool_ok_def)
    then show ?thesis using S ct frame [of T] n gone [of Idle]
      by (auto simp: pool_ok_def counts_ok_def results_ok_def U)
  qed (use T in \<open>simp add: worker_step_def\<close>)
qed

section \<open>All runs\<close>

lemma cg_start_ok:
  assumes "0 \<le> n" "n < 2 ^ 30" "\<forall>c\<in>set cls. \<forall>l\<in>set c. wf_ilit n l" and h: "hinv h" "hnb h = n"
  obtains S base where "cg_start nbThreads n cls h [] = Some S" "pool_ok hinv hnb n cls base S"
proof -
  obtain P Q ok base where Q: "cg_initPropagator n cls = Some P" "bp_propagate P = Some (ok, Q)" "prop_ok n cls base Q"
      "\<And>m. cnf_true (ilit_true m) cls \<Longrightarrow> cube_true (ilit_true m) (bp_trail Q)"
    by (rule cg_init [OF assms(1-3)]) (rule that; assumption)
  let ?c = "gcube (bp_trail Q)"
  have t: "map convert_lit (bp_trail Q) = bp_trail Q" by (rule map_convert [OF prop_ok_trail [OF Q(3)]])
  have one: "gq_push ?c [] = [?c]" by (simp add: pq_push_def heap_up_stop)
  let ?S = "\<lparr>cg_propagator = Q, cg_branchingHeuristic = h, cg_cubes = [], cg_queue = [?c], cg_jobQueue = [],
      cg_shutdown = False, cg_results = [], cg_inFlight = 0, cg_main = Deciding, cg_threads = replicate nbThreads Idle\<rparr>"
  have "cg_start nbThreads n cls h [] = Some ?S"
    using Q(1,2) t one by (simp add: cg_start_def cg_initQueue_def)
  moreover have "concat (map job_of (replicate nbThreads Idle)) = []" "filter busy (replicate nbThreads Idle) = []"
    by (simp_all add: busy_def filter_empty_conv)
  then have "pool_ok hinv hnb n cls base ?S"
    using Q(3,4) h prop_ok_lits [OF Q(3)] gqueue_ok_push [of "[]" "bp_trail Q"] one
    by (simp add: pool_ok_def engine_ok_def cubes_ok_def counts_ok_def results_ok_def in_play_def gcube_def
        gqueue_ok_def heap_ok_def heap_ok_on_def)
  ultimately show ?thesis by (rule that)
qed

lemma pool_run_ok:
  assumes "pool_run ndebug nxt solve limit S0 S" "good_heuristic hinv hnb nxt" "sound_solver cls solve"
    "pool_ok hinv hnb n cls base S0"
  shows "pool_ok hinv hnb n cls base S"
  using assms
proof (induction rule: pool_run.induct)
  case (step_run S a T)
  then have S: "pool_ok hinv hnb n cls base S" by blast
  show ?case
  proof (cases a)
    case (Main timeUp)
    then show ?thesis using main_step_ok [OF step_run.prems(1) S] step_run.hyps(2) by (simp add: pool_step_def)
  next
    case (Work i)
    then show ?thesis using worker_step_ok [OF step_run.prems(2) S, of i] step_run.hyps(2)
      by (simp add: pool_step_def split: if_splits)
  qed
qed

text \<open>A model in one of the cubes is in no other one.\<close>

lemma ilit_clash_false: "ilit_clash a b \<Longrightarrow> \<forall>l\<in>set a. wf_ilit n l \<Longrightarrow> cube_true (ilit_true m) a \<Longrightarrow>
    \<not> cube_true (ilit_true m) b"
  using ilit_true_neg [of n _ m] by (auto simp: ilit_clash_def truth_simps)

lemma exclusive_count:
  "sorted_wrt ilit_clash cs \<Longrightarrow> \<forall>c\<in>set cs. lits_ok n base c \<Longrightarrow> \<exists>c\<in>set cs. cube_true (ilit_true m) c \<Longrightarrow>
     length (filter (cube_true (ilit_true m)) cs) = 1"
proof (induction cs)
  case (Cons c cs)
  show ?case
  proof (cases "cube_true (ilit_true m) c")
    case True
    then have "\<not> cube_true (ilit_true m) d" if "d \<in> set cs" for d
      using ilit_clash_false [of c d n m] Cons.prems that by (auto simp: lits_ok_def)
    then show ?thesis using True by (simp add: filter_empty_conv)
  next
    case False
    then show ?thesis using Cons by auto
  qed
qed simp

lemma cubes_ok_count:
  "cubes_ok n cls base cs \<Longrightarrow> cnf_true (ilit_true m) cls \<Longrightarrow> length (filter (cube_true (ilit_true m)) cs) = 1"
  by (rule exclusive_count [of cs n base]) (simp_all add: cubes_ok_def)

text \<open>When the main thread has returned, nothing is in play but the cubes and uncollected results.\<close>

lemma returned_in_play:
  assumes "pool_ok hinv hnb n cls base S" "cg_main S = Returned sat"
  shows "in_play S = cg_cubes S @ map wr_lits (cg_results S)"
proof -
  have "int (length (cg_jobQueue S) + length (filter busy (cg_threads S))) = 0" "cg_queue S = []"
    using assms by (simp_all add: pool_ok_def counts_ok_def)
  then have z: "cg_jobQueue S = []" "filter busy (cg_threads S) = []" "cg_queue S = []"
    by (simp_all only: of_nat_eq_0_iff add_is_0 length_0_conv)
  have "job_of w = []" if "w \<in> set (cg_threads S)" for w
    using z(2) that by (cases w) (auto simp: filter_empty_conv busy_def)
  then have "concat (map job_of (cg_threads S)) = []" by simp
  then show ?thesis using z assms(2) by (simp add: in_play_def)
qed

text \<open>Which states no thread can leave.\<close>

definition pool_stuck :: "bool \<Rightarrow> ('h \<Rightarrow> ILit list \<Rightarrow> int \<times> 'h) \<Rightarrow> (nat \<Rightarrow> ILit list \<Rightarrow> bool) \<Rightarrow> nat \<Rightarrow>
    'h CubeGeneratorCLI \<Rightarrow> bool" where
  "pool_stuck ndebug nxt solve limit S \<longleftrightarrow>
     (\<forall>timeUp. main_step ndebug nxt limit timeUp S = None) \<and>
     list_all (\<lambda>i. worker_step solve i S = None) [0..<length (cg_threads S)]"

lemma pool_stuck_iff: "pool_stuck ndebug nxt solve limit S \<longleftrightarrow> (\<forall>a. pool_step ndebug nxt solve limit a S = None)"
proof
  assume "pool_stuck ndebug nxt solve limit S"
  then show "\<forall>a. pool_step ndebug nxt solve limit a S = None"
    by (simp add: pool_stuck_def pool_step_def list_all_iff split: action.splits)
next
  assume a: "\<forall>a. pool_step ndebug nxt solve limit a S = None"
  have "main_step ndebug nxt limit timeUp S = None" for timeUp using a [rule_format, of "Main timeUp"] by (simp add: pool_step_def)
  moreover have "worker_step solve i S = None" if "i < length (cg_threads S)" for i
    using a [rule_format, of "Work i"] that by (simp add: pool_step_def)
  ultimately show "pool_stuck ndebug nxt solve limit S" by (simp add: pool_stuck_def list_all_iff)
qed

lemma worker_blocked:
  "worker_step solve i S = None \<Longrightarrow>
     cg_threads S ! i = Gone \<or> cg_threads S ! i = Idle \<and> cg_jobQueue S = [] \<and> \<not> cg_shutdown S"
  by (auto simp: worker_step_def split: WorkerPc.splits list.splits if_splits)

lemma main_blocked:
  "main_step ndebug nxt limit timeUp S = None \<Longrightarrow>
     (\<exists>sat. cg_main S = Destroyed sat) \<or> (\<exists>e. cg_main S = Aborted e) \<or>
     (\<exists>sat. cg_main S = Joining sat \<and> \<not> list_all (\<lambda>w. w = Gone) (cg_threads S)) \<or>
     (\<exists>b. cg_main S = Collecting b True \<and> cg_results S = [])"
  by (cases "cg_main S") (auto simp: main_step_def split: list.splits if_splits)

lemma stuck_ok:
  assumes S: "pool_ok hinv hnb n cls base S" and stuck: "pool_stuck ndebug nxt solve limit S"
    and t: "cg_threads S \<noteq> []"
  shows "(\<exists>sat. cg_main S = Destroyed sat) \<or> cg_main S = Aborted AssertionFailed \<or>
    (\<exists>timeUp. cg_main S = Collecting timeUp True \<and> cg_results S = [] \<and> cg_jobQueue S = [] \<and>
       cg_inFlight S = 0 \<and> (\<forall>w\<in>set (cg_threads S). w = Idle))"
proof -
  have main: "main_step ndebug nxt limit timeUp S = None" for timeUp using stuck by (simp add: pool_stuck_def)
  have blocked: "w = Gone \<or> w = Idle \<and> cg_jobQueue S = [] \<and> \<not> cg_shutdown S" if w: "w \<in> set (cg_threads S)" for w
  proof -
    obtain i where "i < length (cg_threads S)" "w = cg_threads S ! i"
      using w by (auto simp: in_set_conv_nth)
    moreover from this have "worker_step solve i S = None" using stuck by (simp add: pool_stuck_def list_all_iff)
    ultimately show ?thesis using worker_blocked [of solve i S] by blast
  qed
  have c: "counts_ok S" using S by (simp add: pool_ok_def)
  consider sat where "cg_main S = Destroyed sat" | e where "cg_main S = Aborted e"
    | sat where "cg_main S = Joining sat" "\<not> list_all (\<lambda>w. w = Gone) (cg_threads S)"
    | timeUp where "cg_main S = Collecting timeUp True" "cg_results S = []"
    using main_blocked [OF main [of False]] by blast
  then show ?thesis
  proof cases
    case 2
    then show ?thesis using S by (simp add: pool_ok_def)
  next
    case 3
    then obtain w where "w \<in> set (cg_threads S)" "w \<noteq> Gone" by (auto simp: list_all_iff)
    then show ?thesis using blocked [of w] c 3(1) by (simp add: counts_ok_def)
  next
    case 4
    then have "\<not> cg_shutdown S" "Gone \<notin> set (cg_threads S)" using c by (auto simp: counts_ok_def)
    then have idle: "w = Idle \<and> cg_jobQueue S = []" if "w \<in> set (cg_threads S)" for w using blocked [OF that] that by auto
    moreover have "cg_jobQueue S = []" using idle t hd_in_set by blast
    moreover have "filter busy (cg_threads S) = []" using idle by (auto simp: filter_empty_conv busy_def)
    ultimately show ?thesis using 4 c by (auto simp: counts_ok_def)
  qed auto
qed

lemma threads_length: "pool_run ndebug nxt solve limit S0 S \<Longrightarrow> length (cg_threads S) = length (cg_threads S0)"
proof (induction rule: pool_run.induct)
  case (step_run S a T)
  have "length (cg_threads T) = length (cg_threads S)"
    using step_run.hyps(2)
    by (auto simp: pool_step_def main_step_def submit_count_def submit_push_def worker_step_def cg_decide_def cg_createCubes_def cg_collectResults_def Let_def
        split: action.splits MainPc.splits WorkerPc.splits list.splits if_splits sum.splits prod.splits)
  then show ?case using step_run.IH by simp
qed simp

end
