(* ===== verification/Discount_Runs.thy ===== *)
theory Discount_Runs
  imports Discount_Pool
begin

text \<open>
  What the runs of the thread pool guarantee, and two schedules that show what they do not: \<open>generate\<close> can miss the
  result of a satisfiable cube and return \<open>false\<close> for a satisfiable formula, and it can wait for ever. Both races come from
  \<open>workerLoop\<close> publishing its result before it decrements \<open>m_inFlight\<close>.
\<close>

section \<open>Concrete formulas and schedules\<close>

text \<open>A heuristic: the first variable that the cube does not mention.\<close>

definition first_open :: "int \<Rightarrow> ILit list \<Rightarrow> int \<times> int" where
  "first_open n ls = (case filter (\<lambda>v. \<not> List.member (map ilit_var ls) v) [1..n] of [] \<Rightarrow> (-1, n) | v # vs \<Rightarrow> (v, n))"

lemma first_open_cases:
  "first_open n ls = (v, n') \<Longrightarrow> n' = n \<and> (v = -1 \<and> {1..n} \<subseteq> ilit_var ` set ls \<or>
     1 \<le> v \<and> v \<le> n \<and> v \<notin> ilit_var ` set ls)"
proof -
  let ?p = "\<lambda>v. \<not> List.member (map ilit_var ls) v"
  assume f: "first_open n ls = (v, n')"
  show ?thesis
  proof (cases "filter ?p [1..n]")
    case Nil
    then have "\<forall>v\<in>{1..n}. v \<in> ilit_var ` set ls" by (simp add: filter_empty_conv List.member_iff)
    then show ?thesis using f Nil by (auto simp: first_open_def)
  next
    case (Cons u us)
    then have "u \<in> set (filter ?p [1..n])" by simp
    then show ?thesis using f Cons by (simp add: first_open_def List.member_iff)
  qed
qed

lemma first_open_good: "good_heuristic (\<lambda>_. True) (\<lambda>n. n) first_open"
  by unfold_locales (use first_open_cases in blast)

text \<open>Over three variables: the clauses that contain a literal and every combination of the other two.\<close>

definition blocks :: "ILit \<Rightarrow> ILit list list" where
  "blocks l = [[l, ilit_make 2 False, ilit_make 3 False], [l, ilit_make 2 False, ilit_make 3 True],
     [l, ilit_make 2 True, ilit_make 3 False], [l, ilit_make 2 True, ilit_make 3 True]]"

lemma blocks_true: "cnf_true (ilit_true m) (blocks l) \<longleftrightarrow> ilit_true m l"
  by (auto simp: blocks_def ilit_true_def)

lemma blocks_wf: "wf_ilit 3 l \<Longrightarrow> \<forall>c\<in>set (blocks l). \<forall>x\<in>set c. wf_ilit 3 x"
  by (simp add: blocks_def wf_ilit_def)

text \<open>A satisfiable formula and a sound solver for it; the first branch of the generator is unsatisfiable.\<close>

definition race_formula :: "ILit list list" where
  "race_formula = blocks (ilit_make 1 True)"

definition race_solver :: "nat \<Rightarrow> ILit list \<Rightarrow> bool" where
  "race_solver i c \<longleftrightarrow> \<not> List.member c (ilit_make 1 False)"

lemma race_solver_sound: "sound_solver race_formula race_solver"
  unfolding sound_solver_def
proof (intro allI impI)
  fix i c m assume "cnf_true (ilit_true m) race_formula" "cube_true (ilit_true m) c"
  then have "\<not> ilit_true m (ilit_make 1 False)" "\<forall>l\<in>set c. ilit_true m l"
    by (simp_all add: race_formula_def blocks_true cube_true_iff) (simp add: ilit_true_def)
  then show "race_solver i c" by (auto simp: race_solver_def List.member_iff)
qed

text \<open>An unsatisfiable formula; its solver refutes every cube.\<close>

definition hang_formula :: "ILit list list" where
  "hang_formula = blocks (ilit_make 1 False) @ blocks (ilit_make 1 True)"

lemma hang_solver_sound: "sound_solver hang_formula (\<lambda>i c. False)"
  by (auto simp: sound_solver_def hang_formula_def blocks_true ilit_true_def)

text \<open>Both schedules split the first cube and submit its two branches to one worker.\<close>

definition submit_two :: "action list" where
  "submit_two = replicate 6 (Main False)"

text \<open>The worker publishes the second result and counts it between the collection and the test for an empty queue.\<close>

definition race_schedule :: "action list" where
  "race_schedule = submit_two @ [Work 0, Work 0, Main False, Work 0, Work 0, Work 0, Work 0, Main False, Main False]"

text \<open>The worker counts its last result when the main thread has collected it and waits for another one.\<close>

definition hang_schedule :: "action list" where
  "hang_schedule = submit_two @ [Work 0, Work 0, Main False] @ replicate 5 (Main False) @
     [Work 0, Work 0, Work 0, Main False] @ replicate 5 (Main False) @ [Work 0]"

definition run_from_start :: "nat \<Rightarrow> int \<Rightarrow> ILit list list \<Rightarrow> (nat \<Rightarrow> ILit list \<Rightarrow> bool) \<Rightarrow> nat \<Rightarrow> action list \<Rightarrow>
    int CubeGeneratorCLI option" where
  "run_from_start nbThreads n cls solve limit as =
     (case cg_start nbThreads n cls n [] of None \<Rightarrow> None
      | Some S \<Rightarrow> run_schedule False first_open solve limit as S)"

lemma run_from_start_reached:
  assumes "run_from_start nbThreads n cls solve limit as = Some S"
  shows "\<exists>S0. cg_start nbThreads n cls n [] = Some S0 \<and> pool_run False first_open solve limit S0 S"
  using assms unfolding run_from_start_def
  by (auto split: option.splits intro: run_schedule_sound begin_run)

lemma race_run:
  "map_option (\<lambda>S. (cg_main S, cg_cubes S, map wr_sat (cg_results S))) (run_from_start 1 3 race_formula race_solver 8 race_schedule) =
     Some (Returned False, [], [True])"
  by code_simp

lemma hang_run:
  "map_option (\<lambda>S. (cg_main S, cg_results S, cg_jobQueue S, cg_shutdown S, cg_threads S))
     (run_from_start 1 3 hang_formula (\<lambda>i c. False) 8 hang_schedule) =
     Some (Collecting False True, [], [], False, [Idle])"
  by code_simp

section \<open>Properties\<close>

text \<open>What the runs below start from: literals of the \<open>n\<close> variables, a heuristic that keeps its contract and sound
  solvers.\<close>

definition pool_setting :: "('h \<Rightarrow> bool) \<Rightarrow> ('h \<Rightarrow> int) \<Rightarrow> ('h \<Rightarrow> ILit list \<Rightarrow> int \<times> 'h) \<Rightarrow>
    (nat \<Rightarrow> ILit list \<Rightarrow> bool) \<Rightarrow> int \<Rightarrow> ILit list list \<Rightarrow> 'h \<Rightarrow> bool" where
  "pool_setting hinv hnb nxt solve n cls h \<longleftrightarrow> 0 \<le> n \<and> n < 2 ^ 30 \<and> (\<forall>c\<in>set cls. \<forall>l\<in>set c. wf_ilit n l) \<and>
     good_heuristic hinv hnb nxt \<and> hinv h \<and> hnb h = n \<and> sound_solver cls solve"

lemma pool_setting_run:
  assumes "pool_setting hinv hnb nxt solve n cls h"
  obtains S0 base where "cg_start nbThreads n cls h [] = Some S0"
    "\<And>S. pool_run ndebug nxt solve limit S0 S \<Longrightarrow> pool_ok hinv hnb n cls base S"
proof -
  have a: "0 \<le> n" "n < 2 ^ 30" "\<forall>c\<in>set cls. \<forall>l\<in>set c. wf_ilit n l" "hinv h" "hnb h = n" "good_heuristic hinv hnb nxt"
      "sound_solver cls solve"
    using assms by (simp_all add: pool_setting_def)
  obtain S0 base where S0: "cg_start nbThreads n cls h [] = Some S0" "pool_ok hinv hnb n cls base S0"
    by (rule cg_start_ok [OF a(1-3), of hinv h hnb nbThreads]) (use a in auto)
  from S0(1) show ?thesis by (rule that) (rule pool_run_ok [OF _ a(6,7) S0(2)])
qed

lemma in_play_one:
  "pool_ok hinv hnb n cls base S \<Longrightarrow> cnf_true (ilit_true m) cls \<Longrightarrow>
    length (filter (cube_true (ilit_true m)) (in_play S)) = 1"
  by (rule cubes_ok_count [of n cls base]) (simp_all add: pool_ok_def)

lemma returned_cubes:
  assumes ok: "pool_ok hinv hnb n cls base S" and "cg_main S = Returned sat" "cnf_true (ilit_true m) cls"
  shows "length (filter (cube_true (ilit_true m)) (cg_cubes S @ map wr_lits (filter wr_sat (cg_results S)))) = 1 \<and>
    (filter wr_sat (cg_results S) = [] \<longrightarrow> sat)"
proof -
  let ?sat = "map wr_lits (filter wr_sat (cg_results S))" let ?unsat = "map wr_lits (filter (\<lambda>r. \<not> wr_sat r) (cg_results S))"
  have "mset (map wr_lits (cg_results S)) = mset ?sat + mset ?unsat" by (simp flip: image_mset_union)
  then have "mset (in_play S) = mset ((cg_cubes S @ ?sat) @ ?unsat)"
    using returned_in_play [OF ok assms(2)] by (simp add: ac_simps)
  then have "cubes_ok n cls base ((cg_cubes S @ ?sat) @ ?unsat)"
    by (rule cubes_ok_mset) (use ok in \<open>simp add: pool_ok_def\<close>)
  then have "cubes_ok n cls base (cg_cubes S @ ?sat)"
    by (rule cubes_ok_drop) (use ok in \<open>auto simp: pool_ok_def results_ok_def\<close>)
  note one = cubes_ok_count [OF this assms(3)]
  then have "cg_cubes S \<noteq> []" if "filter wr_sat (cg_results S) = []" using that by auto
  then show ?thesis using one ok assms(2) by (auto simp: pool_ok_def)
qed

lemma race_setting: "pool_setting (\<lambda>_. True) (\<lambda>n. n) first_open race_solver 3 race_formula 3"
  using first_open_good race_solver_sound blocks_wf [of "ilit_make 1 True"]
  by (simp add: pool_setting_def race_formula_def wf_ilit_def)

lemma hang_setting: "pool_setting (\<lambda>_. True) (\<lambda>n. n) first_open (\<lambda>i c. False) 3 hang_formula 3"
  using first_open_good hang_solver_sound blocks_wf [of "ilit_make 1 True"] blocks_wf [of "ilit_make 1 False"]
  by (auto simp: pool_setting_def hang_formula_def wf_ilit_def)

text \<open>\<open>generate\<close> starts, and in every state that any interleaving of the threads reaches, each model of the formula is in
  exactly one of the cubes that are finished, queued, submitted, being solved or solved.\<close>

theorem pool_partitions:
  assumes "pool_setting hinv hnb nxt solve n cls h"
  shows "\<exists>S0. cg_start nbThreads n cls h [] = Some S0 \<and> (\<forall>S. pool_run ndebug nxt solve limit S0 S \<longrightarrow>
    (\<forall>m. cnf_true (ilit_true m) cls \<longrightarrow> length (filter (cube_true (ilit_true m)) (in_play S)) = 1))"
proof -
  obtain S0 base where S0: "cg_start nbThreads n cls h [] = Some S0"
      "\<And>S. pool_run ndebug nxt solve limit S0 S \<Longrightarrow> pool_ok hinv hnb n cls base S"
    by (rule pool_setting_run [OF assms]) (rule that; assumption)
  then show ?thesis using in_play_one by blast
qed

lemma pool_partitions_witness:
  "\<exists>S0. cg_start 2 3 race_formula 3 [] = Some S0 \<and> (\<forall>S. pool_run False first_open race_solver 8 S0 S \<longrightarrow>
    (\<forall>m. cnf_true (ilit_true m) race_formula \<longrightarrow> length (filter (cube_true (ilit_true m)) (in_play S)) = 1))"
  by (rule pool_partitions [OF race_setting])

text \<open>C28: when \<open>generate\<close> returns and no result of a satisfiable cube is left uncollected, each model is in exactly one
  cube of its result, and it returns \<open>false\<close> only for an unsatisfiable formula. In general, each model is in exactly one
  cube of the result or of the uncollected results.\<close>

theorem generate_result_if_collected:
  assumes "pool_setting hinv hnb nxt solve n cls h"
  shows "\<exists>S0. cg_start nbThreads n cls h [] = Some S0 \<and>
    (\<forall>S sat. pool_run ndebug nxt solve limit S0 S \<longrightarrow> cg_main S = Returned sat \<longrightarrow>
       (\<forall>m. cnf_true (ilit_true m) cls \<longrightarrow>
          length (filter (cube_true (ilit_true m)) (cg_cubes S @ map wr_lits (filter wr_sat (cg_results S)))) = 1 \<and>
          (filter wr_sat (cg_results S) = [] \<longrightarrow> sat)))"
proof -
  obtain S0 base where S0: "cg_start nbThreads n cls h [] = Some S0"
      "\<And>S. pool_run ndebug nxt solve limit S0 S \<Longrightarrow> pool_ok hinv hnb n cls base S"
    by (rule pool_setting_run [OF assms]) (rule that; assumption)
  then show ?thesis using returned_cubes by blast
qed

lemma generate_result_if_collected_witness:
  "\<exists>S0. cg_start 1 3 race_formula 3 [] = Some S0 \<and>
    (\<forall>S sat. pool_run False first_open race_solver 8 S0 S \<longrightarrow> cg_main S = Returned sat \<longrightarrow>
       (\<forall>m. cnf_true (ilit_true m) race_formula \<longrightarrow>
          length (filter (cube_true (ilit_true m)) (cg_cubes S @ map wr_lits (filter wr_sat (cg_results S)))) = 1 \<and>
          (filter wr_sat (cg_results S) = [] \<longrightarrow> sat)))"
  by (rule generate_result_if_collected [OF race_setting])

text \<open>C29: a run of one worker with a sound solver in which \<open>generate\<close> returns \<open>false\<close> and no cubes for a satisfiable
  formula: the main thread collects the first result, then the worker publishes and counts the second one, then the main
  thread finds its queue empty and \<open>m_inFlight\<close> zero.\<close>

theorem satisfiable_reported_unsat:
  "\<exists>S0 S. cg_start 1 3 race_formula 3 [] = Some S0 \<and> sound_solver race_formula race_solver \<and>
    pool_run False first_open race_solver 8 S0 S \<and> cg_main S = Returned False \<and> cg_cubes S = [] \<and>
    (\<exists>m. cnf_true (ilit_true m) race_formula)"
proof -
  obtain S where S: "run_from_start 1 3 race_formula race_solver 8 race_schedule = Some S" "cg_main S = Returned False"
      "cg_cubes S = []"
    using race_run by auto
  moreover have "cnf_true (ilit_true (\<lambda>v. False)) race_formula" by (simp add: race_formula_def blocks_true ilit_true_def)
  ultimately show ?thesis using run_from_start_reached [OF S(1)] race_solver_sound by blast
qed



text \<open>C31: such a waiting state is reached: one worker decrements \<open>m_inFlight\<close> after the main thread has collected its last
  result and has gone to wait; \<open>generate\<close> never returns for this unsatisfiable formula.\<close>

theorem generate_can_hang:
  "\<exists>S0 S. cg_start 1 3 hang_formula 3 [] = Some S0 \<and> pool_run False first_open (\<lambda>i c. False) 8 S0 S \<and>
    sound_solver hang_formula (\<lambda>i c. False) \<and> cg_main S = Collecting False True \<and>
    (\<forall>a. pool_step False first_open (\<lambda>i c. False) 8 a S = None)"
proof -
  obtain S where S: "run_from_start 1 3 hang_formula (\<lambda>i c. False) 8 hang_schedule = Some S"
      "cg_main S = Collecting False True" "cg_results S = []" "cg_jobQueue S = []" "\<not> cg_shutdown S" "cg_threads S = [Idle]"
    using hang_run by auto
  have "\<forall>a. pool_step False first_open (\<lambda>i c. False) 8 a S = None"
    using S(2-6) by (auto simp: pool_step_def main_step_def worker_step_def split: action.splits)
  then show ?thesis using run_from_start_reached [OF S(1)] S(2) hang_solver_sound by blast
qed

end
