(* ===== verification/D4_Branching.thy ===== *)
theory D4_Branching
  imports D4_Cnf_Updates Discount_Options Heuristic_Spec Binary64
begin

text \<open>
  The branching heuristics of d4 (\<open>heuristics/\<close>: scoring methods, phase selection, the classic branching heuristic) over
  the dynamic formula manager, and \<open>D4BranchingCubeHeuristic\<close>, with which the thread-pool generator chooses the
  variable to split on. Of the SAT solver the heuristics read the vectors \<open>activity\<close>, \<open>scoreActivity\<close> and
  \<open>polarity\<close>; they are a record, whose contents after \<open>warmStart\<close> are a parameter. The lists of literals that
  \<open>selectLitSet\<close> returns live in the pages of an allocator; here they are lists.
\<close>

section \<open>Options\<close>

datatype ScoringMethodType = SCORE_MOM | SCORE_DLCS | SCORE_VSIDS | SCORE_VSADS | SCORE_JWTS

definition scoringMethodName :: "ScoringMethodType \<Rightarrow> string" where
  "scoringMethodName m = (case m of SCORE_MOM \<Rightarrow> ''mom'' | SCORE_DLCS \<Rightarrow> ''dlcs'' | SCORE_VSIDS \<Rightarrow> ''vsids''
     | SCORE_VSADS \<Rightarrow> ''vsads'' | SCORE_JWTS \<Rightarrow> ''jwts'')"

definition getScoringMethodType :: "string \<Rightarrow> factory_error + ScoringMethodType" where
  "getScoringMethodType m =
     (if m = ''mom'' then Inr SCORE_MOM else if m = ''dlcs'' then Inr SCORE_DLCS
      else if m = ''vsids'' then Inr SCORE_VSIDS else if m = ''vsads'' then Inr SCORE_VSADS
      else if m = ''jwts'' then Inr SCORE_JWTS else Inl (FactoryException ''Operator Type unknown''))"

datatype PhaseHeuristicType = PHASE_FALSE | PHASE_TRUE | PHASE_POLARITY | PHASE_OCCURRENCE

definition phaseHeuristicName :: "PhaseHeuristicType \<Rightarrow> string" where
  "phaseHeuristicName m = (case m of PHASE_FALSE \<Rightarrow> ''false'' | PHASE_TRUE \<Rightarrow> ''true''
     | PHASE_POLARITY \<Rightarrow> ''polarity'' | PHASE_OCCURRENCE \<Rightarrow> ''occurrence'')"

definition getPhaseHeuristicType :: "string \<Rightarrow> factory_error + PhaseHeuristicType" where
  "getPhaseHeuristicType m =
     (if m = ''false'' then Inr PHASE_FALSE else if m = ''true'' then Inr PHASE_TRUE
      else if m = ''polarity'' then Inr PHASE_POLARITY else if m = ''occurrence'' then Inr PHASE_OCCURRENCE
      else Inl (FactoryException ''Phase heuristic type unknown''))"

datatype BranchingHeuristicType = BRANCHING_CLASSIC | BRANCHING_LARGE_ARITY | BRANCHING_HYBRID_PARTIAL_CLASSIC

definition branchingHeuristicName :: "BranchingHeuristicType \<Rightarrow> string" where
  "branchingHeuristicName m = (case m of BRANCHING_CLASSIC \<Rightarrow> ''classic''
     | BRANCHING_HYBRID_PARTIAL_CLASSIC \<Rightarrow> ''hybrid-partial-classic'' | BRANCHING_LARGE_ARITY \<Rightarrow> ''large-arity'')"

definition getBranchingHeuristicType :: "string \<Rightarrow> factory_error + BranchingHeuristicType" where
  "getBranchingHeuristicType m =
     (if m = ''classic'' then Inr BRANCHING_CLASSIC
      else if m = ''hybrid-partial-classic'' then Inr BRANCHING_HYBRID_PARTIAL_CLASSIC
      else if m = ''large-arity'' then Inr BRANCHING_LARGE_ARITY
      else Inl (FactoryException ''Branching heuristic type unknown''))"

record OptionBranchingHeuristic =
  ob_scoringMethodType :: ScoringMethodType
  ob_phaseHeuristicType :: PhaseHeuristicType
  ob_branchingHeuristicType :: BranchingHeuristicType
  ob_reversePhase :: bool
  ob_freqDecay :: nat
  ob_limitSizeClause :: nat

definition default_branching_options :: OptionBranchingHeuristic where
  "default_branching_options = \<lparr>ob_scoringMethodType = SCORE_VSADS, ob_phaseHeuristicType = PHASE_POLARITY,
     ob_branchingHeuristicType = BRANCHING_HYBRID_PARTIAL_CLASSIC, ob_reversePhase = False,
     ob_freqDecay = 8192, ob_limitSizeClause = 30\<rparr>"

definition branching_option_text :: "OptionBranchingHeuristic \<Rightarrow> string" where
  "branching_option_text dt =
     '' Option Branching Heuristic:'' @ '' scoring method('' @ scoringMethodName (ob_scoringMethodType dt) @ '')'' @
     '' phase heuristic('' @ phaseHeuristicName (ob_phaseHeuristicType dt) @ '')'' @
     '' reverse phase ('' @ (if ob_reversePhase dt then ''1'' else ''0'') @ '')'' @
     '' freq-decay ('' @ show_int (int (ob_freqDecay dt)) @ '')'' @
     '' branching heuristic ('' @ branchingHeuristicName (ob_branchingHeuristicType dt) @
     (if ob_branchingHeuristicType dt = BRANCHING_LARGE_ARITY then '', '' @ show_int (int (ob_limitSizeClause dt)) else []) @
     '')''"

section \<open>What the heuristics see of the solver\<close>

record WrapperMinisat =
  ws_activity :: "double list"
  ws_scoreActivity :: "double list"
  ws_polarity :: "bool list"

definition getActivity :: "WrapperMinisat \<Rightarrow> int \<Rightarrow> double" where
  "getActivity ws v = vget (ws_activity ws) v"

definition getCountConflict :: "WrapperMinisat \<Rightarrow> int \<Rightarrow> double" where
  "getCountConflict ws v = vget (ws_scoreActivity ws) v"

definition decayCountConflict :: "WrapperMinisat \<Rightarrow> WrapperMinisat" where
  "decayCountConflict ws = ws\<lparr>ws_scoreActivity := map (\<lambda>x. ddiv x (dbl_of_int 2)) (ws_scoreActivity ws)\<rparr>"

definition setCountConflict :: "int \<Rightarrow> double \<Rightarrow> WrapperMinisat \<Rightarrow> WrapperMinisat" where
  "setCountConflict v cnt ws = ws\<lparr>ws_scoreActivity := vset (ws_scoreActivity ws) v cnt\<rparr>"

definition getPolarity :: "WrapperMinisat \<Rightarrow> int \<Rightarrow> bool" where
  "getPolarity ws v = vget (ws_polarity ws) v"

section \<open>Scoring methods\<close>

definition score_dlcs :: "'a CnfManager_scheme \<Rightarrow> int \<Rightarrow> double" where
  "score_dlcs om v = dbl_of_int (int (getNbClauseVar om v))"

definition score_mom :: "'a CnfManager_scheme \<Rightarrow> int \<Rightarrow> double" where
  "score_mom om v = dmul (dbl_of_int (int (getNbBinaryClauseVar om v))) (Dbl 1 (-2))"

definition score_vsads :: "'a CnfManager_scheme \<Rightarrow> WrapperMinisat \<Rightarrow> int \<Rightarrow> double" where
  "score_vsads om ws v = dadd (getCountConflict ws v) (dbl_of_int (int (getNbClauseVar om v)))"

definition score_vsids :: "WrapperMinisat \<Rightarrow> int \<Rightarrow> double" where
  "score_vsids ws v = getActivity ws v"

text \<open>Clauses that started with more than five literals do not count.\<close>

definition jwts_clause :: "'a CnfManager_scheme \<Rightarrow> nat \<Rightarrow> double \<Rightarrow> double" where
  "jwts_clause om i res =
     (if 5 < getInitSize om i then res
      else dadd res (ddiv (dbl_of_int 1) (dbl_of_int (2 ^ nat (getCurrentSize om i)))))"

definition score_jwts :: "'a CnfManager_scheme \<Rightarrow> int \<Rightarrow> double" where
  "score_jwts om v =
     (let lp = ilit_make v False;
          res = ddiv (dbl_of_int (int (length (getVecIdxClauseBin om lp) + length (getVecIdxClauseBin om (ilit_neg lp)))))
                  (dbl_of_int 4);
          res1 = fold (jwts_clause om) (getVecIdxClauseNotBin om lp) res
      in fold (jwts_clause om) (getVecIdxClauseNotBin om (ilit_neg lp)) res1)"

definition computeScore :: "ScoringMethodType \<Rightarrow> WrapperMinisat \<Rightarrow> 'a CnfManager_scheme \<Rightarrow> int \<Rightarrow> double" where
  "computeScore m ws om v =
     (case m of SCORE_MOM \<Rightarrow> score_mom om v | SCORE_DLCS \<Rightarrow> score_dlcs om v | SCORE_VSIDS \<Rightarrow> score_vsids ws v
      | SCORE_VSADS \<Rightarrow> score_vsads om ws v | SCORE_JWTS \<Rightarrow> score_jwts om v)"

text \<open>The virtual \<open>decayCountConflict\<close> of the scoring method: only VSADS passes it on to the solver.\<close>

definition decay_scores :: "ScoringMethodType \<Rightarrow> WrapperMinisat \<Rightarrow> WrapperMinisat" where
  "decay_scores m ws = (if m = SCORE_VSADS then decayCountConflict ws else ws)"

section \<open>Phase selection\<close>

definition phase_bit :: "bool \<Rightarrow> bool \<Rightarrow> bool" where
  "phase_bit b isReversed = odd (of_bool b + of_bool isReversed :: nat)"

definition phase_false :: "bool \<Rightarrow> bool" where
  "phase_false isReversed = phase_bit False isReversed"

definition phase_true :: "bool \<Rightarrow> bool" where
  "phase_true isReversed = phase_bit True isReversed"

definition phase_polarity :: "bool \<Rightarrow> WrapperMinisat \<Rightarrow> int \<Rightarrow> bool" where
  "phase_polarity isReversed pm v = phase_bit (getPolarity pm v) isReversed"

definition phase_occurrence :: "bool \<Rightarrow> 'a CnfManager_scheme \<Rightarrow> int \<Rightarrow> bool" where
  "phase_occurrence isReversed sm v =
     phase_bit (getNbOccurrence sm (ilit_make v False) < getNbOccurrence sm (ilit_make v True)) isReversed"

definition selectPhase :: "PhaseHeuristicType \<Rightarrow> bool \<Rightarrow> WrapperMinisat \<Rightarrow> 'a CnfManager_scheme \<Rightarrow> int \<Rightarrow> bool" where
  "selectPhase ph isReversed pm sm v =
     (case ph of PHASE_FALSE \<Rightarrow> phase_false isReversed | PHASE_TRUE \<Rightarrow> phase_true isReversed
      | PHASE_POLARITY \<Rightarrow> phase_polarity isReversed pm v | PHASE_OCCURRENCE \<Rightarrow> phase_occurrence isReversed sm v)"

section \<open>The classic branching heuristic\<close>

record BranchingHeuristic =
  bh_scoring :: ScoringMethodType
  bh_phase :: PhaseHeuristicType
  bh_reversed :: bool
  bh_freqDecay :: nat
  bh_nbCall :: nat
  bh_isDecisionVariable :: "bool list"

definition mkBranchingHeuristic :: "OptionBranchingHeuristic \<Rightarrow> 'w ProblemManager \<Rightarrow> BranchingHeuristic" where
  "mkBranchingHeuristic options problem =
     \<lparr>bh_scoring = ob_scoringMethodType options, bh_phase = ob_phaseHeuristicType options,
      bh_reversed = ob_reversePhase options, bh_freqDecay = ob_freqDecay options, bh_nbCall = 0,
      bh_isDecisionVariable = fold (\<lambda>v d. vset d v True) (pm_selected problem)
        (replicate (nat (pm_nbVar problem + 1)) (getNbSelectedVar problem = 0))\<rparr>"

datatype branching_class = ClassicHeuristic | HybridPartialClassicHeuristic | LargeArityHeuristic

definition makeBranchingHeuristic :: "OptionBranchingHeuristic \<Rightarrow> 'w ProblemManager \<Rightarrow> branching_class" where
  "makeBranchingHeuristic options problem =
     (if getNbSelectedVar problem \<noteq> 0 then ClassicHeuristic
      else case ob_branchingHeuristicType options of BRANCHING_CLASSIC \<Rightarrow> ClassicHeuristic
        | BRANCHING_HYBRID_PARTIAL_CLASSIC \<Rightarrow> HybridPartialClassicHeuristic
        | BRANCHING_LARGE_ARITY \<Rightarrow> LargeArityHeuristic)"

text \<open>The loop of \<open>selectLitSet\<close> (and of \<open>ScoringMethod::selectVariable\<close>): the first variable with the greatest score.\<close>

definition weigh_var :: "(int \<Rightarrow> bool) \<Rightarrow> (int \<Rightarrow> double) \<Rightarrow> int \<Rightarrow> int \<times> double \<Rightarrow> int \<times> double" where
  "weigh_var usable sc u s =
     (case s of (v, bestScore) \<Rightarrow>
        if \<not> usable u then s
        else let current = sc u in if v = -1 \<or> dless bestScore current then (u, current) else s)"

definition selectVariable :: "(int \<Rightarrow> double) \<Rightarrow> int list \<Rightarrow> 'a FormulaManager_scheme \<Rightarrow> bool list \<Rightarrow> int" where
  "selectVariable sc vars s isDecisionVariable =
     fst (fold (weigh_var (\<lambda>u. \<not> varIsAssigned s u \<and> vget isDecisionVariable u) sc) vars (-1, dminus1))"

text \<open>The scores are decayed at every \<open>m_freqDecay\<close>-th call; the counter is unsigned.\<close>

definition next_call :: "BranchingHeuristic \<Rightarrow> nat" where
  "next_call bh = (bh_nbCall bh + 1) mod 2 ^ 32"

definition decay_at_call :: "BranchingHeuristic \<Rightarrow> WrapperMinisat \<Rightarrow> WrapperMinisat" where
  "decay_at_call bh ws =
     (if bh_freqDecay bh \<noteq> 0 \<and> next_call bh mod bh_freqDecay bh = 0 then decay_scores (bh_scoring bh) ws else ws)"

definition selectLitSet :: "'a CnfManager_scheme \<Rightarrow> int list \<Rightarrow> WrapperMinisat \<times> BranchingHeuristic \<Rightarrow>
    ILit list \<times> WrapperMinisat \<times> BranchingHeuristic" where
  "selectLitSet specs vars s =
     (case s of (ws, bh) \<Rightarrow>
        let ws1 = decay_at_call bh ws;
            v = selectVariable (computeScore (bh_scoring bh) ws1 specs) vars specs (bh_isDecisionVariable bh)
        in (if v \<noteq> -1 then [ilit_make v (selectPhase (bh_phase bh) (bh_reversed bh) ws1 specs v)] else [],
            ws1, bh\<lparr>bh_nbCall := next_call bh\<rparr>))"

section \<open>The heuristic of the cube generator\<close>

record D4BranchingCubeHeuristic =
  dh_nbVariables :: int
  dh_marked :: "bool list"
  dh_cnfManager :: CnfManagerDyn
  dh_solver :: WrapperMinisat
  dh_heuristic :: BranchingHeuristic

definition d4_scoring :: "BranchingCubeHeuristic \<Rightarrow> option_error + ScoringMethodType" where
  "d4_scoring opt =
     (case opt of VSADS \<Rightarrow> Inr SCORE_VSADS | VSIDS \<Rightarrow> Inr SCORE_VSIDS | MOM \<Rightarrow> Inr SCORE_MOM
      | DLCS \<Rightarrow> Inr SCORE_DLCS | JWTS \<Rightarrow> Inr SCORE_JWTS
      | _ \<Rightarrow> Inl (RuntimeError ''Error: the given option is supported!''))"

definition cube_problem :: "int \<Rightarrow> 'w list \<Rightarrow> 'w list \<Rightarrow> ILit list list \<Rightarrow> 'w ProblemManager" where
  "cube_problem n weightLit weightVar cls =
     (pm_of_parts n weightLit weightVar [])\<lparr>pm_clauses := map (map convert_lit) cls\<rparr>"

text \<open>The constructor, for the vectors \<open>ws\<close> the solver has after \<open>warmStart\<close>.\<close>

definition mkD4BranchingCubeHeuristic :: "'w ProblemManager \<Rightarrow> WrapperMinisat \<Rightarrow> BranchingCubeHeuristic \<Rightarrow>
    option_error + D4BranchingCubeHeuristic" where
  "mkD4BranchingCubeHeuristic p ws opt =
     (case d4_scoring opt of
        Inl e \<Rightarrow> Inl e
      | Inr m \<Rightarrow> Inr
          \<lparr>dh_nbVariables = pm_nbVar p, dh_marked = replicate (nat (pm_nbVar p + 1)) False,
           dh_cnfManager = mkCnfManagerDyn p False, dh_solver = ws,
           dh_heuristic = mkBranchingHeuristic (default_branching_options\<lparr>ob_scoringMethodType := m\<rparr>) p\<rparr>)"

text \<open>\<open>next\<close>. Its argument \<open>partialOrder\<close> is not used.\<close>

definition d4_next :: "D4BranchingCubeHeuristic \<Rightarrow> ILit list \<Rightarrow> int \<times> D4BranchingCubeHeuristic" where
  "d4_next h lits =
     (let tod4 = map convert_lit lits;
          M = preUpdate no_inprocessing tod4 (dh_cnfManager h);
          marked = fold (\<lambda>l m. vset m (ilit_var l) True) lits (dh_marked h);
          variables = filter (\<lambda>i. \<not> vget marked i) [1..dh_nbVariables h];
          unmarked = fold (\<lambda>l m. vset m (ilit_var l) False) lits marked
      in if variables = [] then (-1, h\<lparr>dh_marked := unmarked, dh_cnfManager := postUpdate tod4 M\<rparr>)
         else case selectLitSet M variables (dh_solver h, dh_heuristic h) of
           (d4Lits, ws, bh) \<Rightarrow>
             (ilit_var (d4Lits ! 0),
              h\<lparr>dh_marked := unmarked, dh_cnfManager := postUpdate tod4 M, dh_solver := ws, dh_heuristic := bh\<rparr>))"

datatype cube_heuristic_class = RandomBranching | D4Branching BranchingCubeHeuristic

definition makeBranchingCubeHeuristic :: "BranchingCubeHeuristic \<Rightarrow> option_error + cube_heuristic_class" where
  "makeBranchingCubeHeuristic b =
     (case b of RANDOM \<Rightarrow> Inr RandomBranching
      | NB_BRANCHING_HEURISTIC \<Rightarrow> Inl (RuntimeError ''Error: the given option is incorrect!'')
      | _ \<Rightarrow> Inr (D4Branching b))"

section \<open>The chosen variable\<close>

definition best_of :: "(int \<Rightarrow> double) \<Rightarrow> int list \<Rightarrow> int \<Rightarrow> bool" where
  "best_of sc vars v \<longleftrightarrow> v \<in> set vars \<and>
     (\<forall>u\<in>set vars. \<not> dless (sc v) (sc u)) \<and> (\<forall>u\<in>set vars. u < v \<longrightarrow> dless (sc u) (sc v))"

lemma weigh_best:
  assumes "\<forall>u\<in>set vars. u \<noteq> -1" "sorted_wrt (<) vars"
  shows "fold (weigh_var usable sc) vars (-1, b0) = (v, b) \<Longrightarrow>
    (if filter usable vars = [] then v = -1 else best_of sc (filter usable vars) v \<and> b = sc v)"
  using assms
proof (induction vars arbitrary: v b rule: rev_induct)
  case (snoc u vars)
  let ?vs = "filter usable vars"
  obtain v' b' where f: "fold (weigh_var usable sc) vars (-1, b0) = (v', b')" by fastforce
  have ih: "if ?vs = [] then v' = -1 else best_of sc ?vs v' \<and> b' = sc v'"
    using snoc.IH [OF f] snoc.prems(2,3) by (simp add: sorted_wrt_append)
  have step: "(v, b) = weigh_var usable sc u (v', b')" using snoc.prems(1) f by simp
  have below: "\<forall>w\<in>set ?vs. w < u" and known: "?vs \<noteq> [] \<longrightarrow> v' \<in> set ?vs \<and> v' \<noteq> -1"
    using snoc.prems(2,3) ih by (auto simp: sorted_wrt_append best_of_def)
  show ?case
  proof (cases "usable u \<and> (v' = -1 \<or> dless b' (sc u))")
    case True
    then have v: "v = u" "b = sc u" using step by (simp_all add: weigh_var_def Let_def)
    have "dless (sc w) (sc u)" if "w \<in> set ?vs" for w
      using ih known True that by (auto simp: dless_dval best_of_def filter_empty_conv split: if_splits)
    then have "best_of sc (?vs @ [u]) u" by (fastforce simp: best_of_def dless_dval dest: less_asym)
    then show ?thesis using True v by simp
  next
    case False
    then have v: "v = v'" "b = b'" using step by (auto simp: weigh_var_def Let_def split: if_splits)
    then show ?thesis using ih known False below by (auto simp: best_of_def split: if_splits)
  qed
qed simp

lemma selectVariable_best:
  assumes "\<forall>u\<in>set vars. u \<noteq> -1 \<and> \<not> varIsAssigned s u \<and> vget d u" "vars \<noteq> []" "sorted_wrt (<) vars"
  shows "best_of sc vars (selectVariable sc vars s d)"
proof -
  let ?u = "\<lambda>u. \<not> varIsAssigned s u \<and> vget d u"
  obtain v b where f: "fold (weigh_var ?u sc) vars (-1, dminus1) = (v, b)" by fastforce
  have "filter ?u vars = vars" using assms(1) by (simp add: filter_id_conv)
  then show ?thesis using weigh_best [OF _ assms(3) f] assms(1,2) by (simp add: selectVariable_def f)
qed

section \<open>The assignment during an update\<close>

lemma fold_same_field: "(\<And>x M. g (f x M) = g M) \<Longrightarrow> g (fold f xs M) = g M"
  by (induction xs arbitrary: M) simp_all

lemma propagate_keeps_values:
  fixes M :: "'c CnfManagerDyn_scheme"
  shows
  "fm_currentValue (propagateTrue lits M) = fm_currentValue M" "fm_currentValue (propagateFalseInNotBin lits M) = fm_currentValue M"
proof -
  have s: "fm_currentValue (satisfy_clause i M) = fm_currentValue M" for i and M :: "'c CnfManagerDyn_scheme"
    by (simp add: satisfy_clause_def)
  have "fm_currentValue (satisfy_lit l M) = fm_currentValue M" for l and M :: "'c CnfManagerDyn_scheme"
    using fold_same_field [of fm_currentValue satisfy_clause, OF s] by (simp add: satisfy_lit_def)
  note sl = fold_same_field [of fm_currentValue satisfy_lit, OF this]
  have "fm_currentValue (clean_lit l M) = fm_currentValue M" for l and M :: "'c CnfManagerDyn_scheme"
    by (simp add: clean_lit_def Let_def)
  note cl = fold_same_field [of fm_currentValue clean_lit, OF this]
  have "fm_currentValue (removeSatisfiedClauses is M) = fm_currentValue M" for "is" and M :: "'c CnfManagerDyn_scheme"
  proof -
    have "fm_currentValue (fold (\<lambda>i M. fold clean_lit (cm_clauses M ! i) M) is N) = fm_currentValue N"
      for N :: "'c CnfManagerDyn_scheme"
      by (rule fold_same_field) (rule cl)
    then show ?thesis by (simp add: removeSatisfiedClauses_def Let_def)
  qed
  then show "fm_currentValue (propagateTrue lits M) = fm_currentValue M"
    using sl by (simp add: propagateTrue_def Let_def)
  have "fm_currentValue (falsify_clause l i M) = fm_currentValue M" for l i and M :: "'c CnfManagerDyn_scheme"
    by (simp add: falsify_clause_def Let_def)
  then have "fm_currentValue (falsify_lit l M) = fm_currentValue M" for l and M :: "'c CnfManagerDyn_scheme"
    unfolding falsify_lit_def by (rule fold_same_field)
  note fl = fold_same_field [of fm_currentValue falsify_lit, OF this]
  have "fm_currentValue (review_watch i M) = fm_currentValue M" for i and M :: "'c CnfManagerDyn_scheme"
    by (simp add: review_watch_def Let_def split: option.split)
  note rw = fold_same_field [of fm_currentValue review_watch, OF this]
  show "fm_currentValue (propagateFalseInNotBin lits M) = fm_currentValue M"
    by (simp add: propagateFalseInNotBin_def Let_def rw fl)
qed

lemma preUpdate_values: "fm_currentValue (preUpdate no_inprocessing lits M) = assign_values lits (fm_currentValue M)"
  by (simp add: preUpdate_def no_inprocessing_def propagate_keeps_values assignListLit_eq pushStacks_def)

section \<open>The choice of the cube generator\<close>

definition d4_ready :: "D4BranchingCubeHeuristic \<Rightarrow> bool" where
  "d4_ready h \<longleftrightarrow> 0 \<le> dh_nbVariables h \<and> dh_nbVariables h < 2 ^ 30 \<and>
     dh_marked h = replicate (nat (dh_nbVariables h + 1)) False \<and>
     fm_currentValue (dh_cnfManager h) = replicate (nat (dh_nbVariables h + 1)) l_Undef \<and>
     bh_isDecisionVariable (dh_heuristic h) = replicate (nat (dh_nbVariables h + 1)) True"

text \<open>The variables the cube does not mention, and the scores \<open>next\<close> compares: those under the assignment of the cube.\<close>

definition d4_open :: "D4BranchingCubeHeuristic \<Rightarrow> ILit list \<Rightarrow> int list" where
  "d4_open h lits = filter (\<lambda>i. i \<notin> ilit_var ` set lits) [1..dh_nbVariables h]"

definition d4_scores :: "D4BranchingCubeHeuristic \<Rightarrow> ILit list \<Rightarrow> int \<Rightarrow> double" where
  "d4_scores h lits = computeScore (bh_scoring (dh_heuristic h)) (decay_at_call (dh_heuristic h) (dh_solver h))
     (preUpdate no_inprocessing lits (dh_cnfManager h))"

lemma marks_undone:
  assumes "\<forall>l\<in>set lits. vin m (ilit_var l) \<and> \<not> vget m (ilit_var l)"
  shows "fold (\<lambda>l m. vset m (ilit_var l) False) lits (fold (\<lambda>l m. vset m (ilit_var l) True) lits m) = m"
proof (rule vget_eqI)
  let ?t = "fold (\<lambda>l m. vset m (ilit_var l) True) lits m"
  show "length (fold (\<lambda>l m. vset m (ilit_var l) False) lits ?t) = length m" by (simp add: length_fold_vset)
  fix i assume i: "0 \<le> i" "i < int (length m)"
  have "vget (fold (\<lambda>l m. vset m (ilit_var l) False) lits ?t) i = (if i \<in> ilit_var ` set lits then False else vget ?t i)"
    using assms i by (intro vget_fold_vset) (simp_all add: vin_def length_fold_vset)
  moreover have "vget ?t i = (if i \<in> ilit_var ` set lits then True else vget m i)"
    using assms i by (intro vget_fold_vset) simp_all
  ultimately show "vget (fold (\<lambda>l m. vset m (ilit_var l) False) lits ?t) i = vget m i" using assms by auto
qed

lemma d4_next_spec:
  assumes h: "d4_ready h" and l: "\<forall>l\<in>set lits. wf_ilit (dh_nbVariables h) l"
  obtains v h' where "d4_next h lits = (v, h')" "d4_ready h'" "dh_nbVariables h' = dh_nbVariables h"
    "dh_cnfManager h' = postUpdate lits (preUpdate no_inprocessing lits (dh_cnfManager h))"
    "dh_marked h' = dh_marked h" "v = -1 \<and> d4_open h lits = [] \<or> best_of (d4_scores h lits) (d4_open h lits) v"
proof -
  let ?n = "dh_nbVariables h" let ?M = "preUpdate no_inprocessing lits (dh_cnfManager h)"
  let ?marked = "fold (\<lambda>l m. vset m (ilit_var l) True) lits (dh_marked h)"
  let ?cv = "fm_currentValue (dh_cnfManager h)"
  have c: "map convert_lit lits = lits" by (rule map_convert [OF l])
  have n: "0 \<le> ?n" "?n < 2 ^ 30" using h by (simp_all add: d4_ready_def)
  have lv: "\<forall>l\<in>set lits. 1 \<le> ilit_var l \<and> ilit_var l \<le> ?n" using l by (simp add: wf_ilit_def)
  have vin: "\<forall>l\<in>set lits. vin (dh_marked h) (ilit_var l) \<and> \<not> vget (dh_marked h) (ilit_var l)"
      "\<forall>l\<in>set lits. vin ?cv (ilit_var l) \<and> vget ?cv (ilit_var l) = l_Undef"
    using h lv by (auto simp: d4_ready_def vin_replicate vget_replicate)
  have "vget ?marked i = (i \<in> ilit_var ` set lits)" if "1 \<le> i" "i \<le> ?n" for i
  proof -
    have "vget ?marked i = (if i \<in> ilit_var ` set lits then True else vget (dh_marked h) i)"
      using vin(1) that by (intro vget_fold_vset) auto
    then show ?thesis using h that by (simp add: d4_ready_def vget_replicate)
  qed
  then have vars: "filter (\<lambda>i. \<not> vget ?marked i) [1..?n] = d4_open h lits"
    unfolding d4_open_def by (intro filter_cong) auto
  have post: "fm_currentValue (postUpdate lits ?M) = ?cv"
    using unassign_values [OF vin(2)] by (simp add: postUpdate_fields preUpdate_values)
  note undone = marks_undone [OF vin(1)]
  show ?thesis
  proof (cases "d4_open h lits = []")
    case True
    have "d4_next h lits = (-1, h\<lparr>dh_marked := dh_marked h, dh_cnfManager := postUpdate lits ?M\<rparr>)"
      by (simp add: d4_next_def Let_def c vars True undone)
    then show ?thesis by (rule that) (use h post True in \<open>simp_all add: d4_ready_def\<close>)
  next
    case False
    let ?bh = "dh_heuristic h" let ?ws = "decay_at_call ?bh (dh_solver h)"
    let ?v = "selectVariable (d4_scores h lits) (d4_open h lits) ?M (bh_isDecisionVariable ?bh)"
    have free: "\<forall>u\<in>set (d4_open h lits). u \<noteq> -1 \<and> \<not> varIsAssigned ?M u \<and> vget (bh_isDecisionVariable ?bh) u"
    proof
      fix u assume "u \<in> set (d4_open h lits)"
      then have u: "1 \<le> u" "u \<le> ?n" "u \<notin> ilit_var ` set lits" by (auto simp: d4_open_def)
      have "vget (assign_values lits ?cv) u = vget ?cv u"
        using u lv by (intro assign_values_other) auto
      then show "u \<noteq> -1 \<and> \<not> varIsAssigned ?M u \<and> vget (bh_isDecisionVariable ?bh) u"
        using u h by (simp add: varIsAssigned_def preUpdate_values d4_ready_def vget_replicate)
    qed
    have "sorted_wrt (<) (d4_open h lits)" unfolding d4_open_def by (intro sorted_wrt_filter) simp
    note best = selectVariable_best [OF free False this, of "d4_scores h lits"]
    then have v: "1 \<le> ?v" "?v \<le> ?n" by (simp_all add: best_of_def) (simp_all add: d4_open_def)
    have sel: "selectLitSet ?M (d4_open h lits) (dh_solver h, ?bh) =
        ([ilit_make ?v (selectPhase (bh_phase ?bh) (bh_reversed ?bh) ?ws ?M ?v)], ?ws, ?bh\<lparr>bh_nbCall := next_call ?bh\<rparr>)"
      using v by (simp add: selectLitSet_def Let_def d4_scores_def)
    have "d4_next h lits = (?v, h\<lparr>dh_marked := dh_marked h, dh_cnfManager := postUpdate lits ?M, dh_solver := ?ws,
        dh_heuristic := ?bh\<lparr>bh_nbCall := next_call ?bh\<rparr>\<rparr>)"
      using v n by (simp add: d4_next_def Let_def c vars False undone sel)
    then show ?thesis by (rule that) (use h post best in \<open>simp_all add: d4_ready_def\<close>)
  qed
qed

interpretation d4_branching: branching_heuristic d4_ready dh_nbVariables ilit_var "\<lambda>ls. distinct (map ilit_var ls)" d4_next
proof unfold_locales
  fix h ls v h'
  assume h: "d4_ready h" and l: "\<forall>l\<in>set ls. 0 < ilit_var l \<and> ilit_var l \<le> dh_nbVariables h" and n: "d4_next h ls = (v, h')"
  have "\<forall>l\<in>set ls. wf_ilit (dh_nbVariables h) l" using h l by (auto simp: d4_ready_def wf_ilit_def)
  from d4_next_spec [OF h this] obtain w k where
    "d4_next h ls = (w, k)" "d4_ready k" "dh_nbVariables k = dh_nbVariables h"
    "w = -1 \<and> d4_open h ls = [] \<or> best_of (d4_scores h ls) (d4_open h ls) w" by blast
  then show "d4_ready h' \<and> dh_nbVariables h' = dh_nbVariables h \<and>
      (v = -1 \<and> {1..dh_nbVariables h} \<subseteq> ilit_var ` set ls \<or>
       1 \<le> v \<and> v \<le> dh_nbVariables h \<and> v \<notin> ilit_var ` set ls)"
    using n by (auto simp: best_of_def d4_open_def filter_empty_conv)
qed

end
