(* ===== verification/Discount_Heuristic.thy ===== *)
theory Discount_Heuristic
  imports Discount_Runs D4_Branching
begin

text \<open>
  The thread-pool generator with the heuristic of d4: what \<open>D4BranchingCubeHeuristic\<close> chooses and leaves behind, and the
  composition of the two components, in which the contract the pool asks for (\<open>branching_heuristic\<close>) is discharged by the
  model of the heuristic for every content of the vectors of the solver.
\<close>

lemma cube_problem_fields [simp]:
  "pm_nbVar (cube_problem n wl wv cls) = n" "pm_clauses (cube_problem n wl wv cls) = map (map convert_lit) cls"
  "pm_selected (cube_problem n wl wv cls) = []"
  by (simp_all add: cube_problem_def pm_of_parts_def pm_empty_def)

lemma mk_d4_ready:
  assumes "mkD4BranchingCubeHeuristic p ws opt = Inr h" "0 \<le> pm_nbVar p" "pm_nbVar p < 2 ^ 30" "pm_selected p = []"
  shows "d4_ready h" "dh_nbVariables h = pm_nbVar p" "dh_cnfManager h = mkCnfManagerDyn p False"
proof -
  have "fm_currentValue (mkCnfManagerDyn p False) = replicate (nat (pm_nbVar p + 1)) l_Undef"
    by (simp add: mk_fields)
  then show "d4_ready h" "dh_nbVariables h = pm_nbVar p" "dh_cnfManager h = mkCnfManagerDyn p False"
    using assms by (auto simp: mkD4BranchingCubeHeuristic_def d4_ready_def mkBranchingHeuristic_def getNbSelectedVar_def
        split: sum.splits)
qed

lemma d4_good: "good_heuristic d4_ready dh_nbVariables d4_next"
  by (rule d4_branching.branching_heuristic_axioms)

lemma d4_setting:
  assumes "mkD4BranchingCubeHeuristic (cube_problem n wl wv cls) ws opt = Inr h" "0 \<le> n" "n < 2 ^ 30"
    "\<forall>c\<in>set cls. \<forall>l\<in>set c. wf_ilit n l" "sound_solver cls solve"
  shows "pool_setting d4_ready dh_nbVariables d4_next solve n cls h"
  using assms mk_d4_ready [OF assms(1)] d4_good by (simp add: pool_setting_def)

section \<open>Properties\<close>

text \<open>C32: \<open>next\<close> returns no variable when the cube mentions all of them, otherwise the first of the variables that the cube
  does not mention whose score, taken under the assignment of the cube, no other one exceeds; it leaves the formula
  manager as it was, with every mark erased.\<close>

theorem d4_next_best:
  assumes "d4_ready h" "dh_nbVariables h = fm_nbVar (dh_cnfManager h)" "ready (dh_cnfManager h) lits"
    "d4_next h lits = (v, h')"
  shows "(v = -1 \<and> d4_open h lits = [] \<or> best_of (d4_scores h lits) (d4_open h lits) v) \<and>
    restored (dh_cnfManager h) (dh_cnfManager h') \<and> dyn_ok (dh_cnfManager h') \<and> dh_marked h' = dh_marked h \<and> d4_ready h'"
proof -
  let ?M = "dh_cnfManager h"
  note rd = readyD [OF assms(3)]
  obtain w k where k: "d4_next h lits = (w, k)" "d4_ready k" "dh_cnfManager k = postUpdate lits (preUpdate no_inprocessing lits ?M)"
      "dh_marked k = dh_marked h" "w = -1 \<and> d4_open h lits = [] \<or> best_of (d4_scores h lits) (d4_open h lits) w"
    by (rule d4_next_spec [OF assms(1)]) (use rd(7) assms(2) in auto)
  have "dyn_ok (preUpdate no_inprocessing lits ?M)"
    using assms(3) by (intro dyn_manager.pre_ok) (simp_all add: ready_def)
  then have "restored ?M (dh_cnfManager k) \<and> dyn_ok (dh_cnfManager k)"
    using dyn_manager.undo [of ?M lits "preUpdate no_inprocessing lits ?M"] assms(3)
    by (simp add: k(3) ready_def restored_refl dyn_ok_def)
  then show ?thesis using k assms(4) by auto
qed

definition demo_solver :: WrapperMinisat where
  "demo_solver = \<lparr>ws_activity = replicate 4 dzero, ws_scoreActivity = replicate 4 dzero, ws_polarity = replicate 4 True\<rparr>"

lemma d4_next_best_witness:
  "\<exists>h v h'. mkD4BranchingCubeHeuristic demo_cnf demo_solver DLCS = Inr h \<and> d4_next h demo_lits = (v, h') \<and>
    best_of (d4_scores h demo_lits) (d4_open h demo_lits) v \<and> restored (dh_cnfManager h) (dh_cnfManager h')"
proof -
  obtain h where h: "mkD4BranchingCubeHeuristic demo_cnf demo_solver DLCS = Inr h"
    by (simp add: mkD4BranchingCubeHeuristic_def d4_scoring_def)
  have d: "0 \<le> pm_nbVar demo_cnf" "pm_nbVar demo_cnf < 2 ^ 30" "pm_selected demo_cnf = []" "pm_nbVar demo_cnf = 3"
    by (simp_all add: demo_cnf_def pm_of_parts_def pm_empty_def)
  note r = mk_d4_ready [OF h d(1-3)]
  obtain v h' where n: "d4_next h demo_lits = (v, h')" by fastforce
  have "dh_nbVariables h = fm_nbVar (dh_cnfManager h)" "ready (dh_cnfManager h) demo_lits"
    using r demo_ready [of False] by (simp_all add: mk_fields)
  note best = d4_next_best [OF r(1) this n]
  have "1 \<in> set (d4_open h demo_lits)" using r(2) d(4) by (simp add: d4_open_def demo_lits_def)
  then have "d4_open h demo_lits \<noteq> []" by auto
  then show ?thesis using h n best by blast
qed

text \<open>C33: the generator with the heuristic of d4: for every formula over fewer than 2^30 variables and every supported
  heuristic the constructor succeeds and \<open>generate\<close> starts; in every state that the threads reach each model is in
  exactly one cube, and when \<open>generate\<close> has returned in one of its cubes or of the uncollected results.\<close>

theorem d4_generation:
  assumes "d4_scoring opt = Inr m" "0 \<le> n" "n < 2 ^ 30" "\<forall>c\<in>set cls. \<forall>l\<in>set c. wf_ilit n l" "sound_solver cls solve"
  shows "\<exists>h S0. mkD4BranchingCubeHeuristic (cube_problem n wl wv cls) ws opt = Inr h \<and>
    cg_start nbThreads n cls h [] = Some S0 \<and>
    (\<forall>S a. pool_run ndebug d4_next solve limit S0 S \<longrightarrow> cnf_true (ilit_true a) cls \<longrightarrow>
       length (filter (cube_true (ilit_true a)) (in_play S)) = 1 \<and>
       (\<forall>sat. cg_main S = Returned sat \<longrightarrow> filter wr_sat (cg_results S) = [] \<longrightarrow>
          sat \<and> length (filter (cube_true (ilit_true a)) (cg_cubes S)) = 1))"
proof -
  let ?p = "cube_problem n wl wv cls"
  obtain h where h: "mkD4BranchingCubeHeuristic ?p ws opt = Inr h" using assms(1) by (simp add: mkD4BranchingCubeHeuristic_def)
  obtain S0 base where S0: "cg_start nbThreads n cls h [] = Some S0"
      "\<And>S. pool_run ndebug d4_next solve limit S0 S \<Longrightarrow> pool_ok d4_ready dh_nbVariables n cls base S"
    by (rule pool_setting_run [OF d4_setting [OF h assms(2-5)]]) (rule that; assumption)
  have "length (filter (cube_true (ilit_true a)) (in_play S)) = 1 \<and>
      (\<forall>sat. cg_main S = Returned sat \<longrightarrow> filter wr_sat (cg_results S) = [] \<longrightarrow>
        sat \<and> length (filter (cube_true (ilit_true a)) (cg_cubes S)) = 1)"
    if "pool_run ndebug d4_next solve limit S0 S" "cnf_true (ilit_true a) cls" for S a
    using in_play_one [OF S0(2) [OF that(1)] that(2)] returned_cubes [OF S0(2) [OF that(1)] _ that(2)] by fastforce
  with h S0(1) show ?thesis by blast
qed

lemma d4_generation_witness:
  "\<exists>h S0. mkD4BranchingCubeHeuristic (cube_problem 3 ([] :: nat list) [] race_formula) demo_solver VSADS = Inr h \<and>
    cg_start 2 3 race_formula h [] = Some S0 \<and>
    (\<forall>S a. pool_run False d4_next race_solver 8 S0 S \<longrightarrow> cnf_true (ilit_true a) race_formula \<longrightarrow>
       length (filter (cube_true (ilit_true a)) (in_play S)) = 1)"
proof -
  have w: "\<forall>c\<in>set race_formula. \<forall>l\<in>set c. wf_ilit 3 l" using race_setting by (simp add: pool_setting_def)
  from d4_generation [of VSADS SCORE_VSADS 3 race_formula race_solver "[] :: nat list" "[]" demo_solver 2 False 8]
  show ?thesis using w race_solver_sound by (simp add: d4_scoring_def) blast
qed

end
