(* ===== verification/Discount_Main.thy ===== *)
theory Discount_Main
  imports Discount_Heuristic Weighted_CNF Double_Text
begin

text \<open>
  \<open>main.cpp\<close> of \<open>cube_generator\<close>: the command line, the DIMACS reader on a stream, the JSON text, and
  the run of the program; \<open>PartialOrderHeuristicTreeDecompLocal\<close>, whose call of FlowCutter is a stub in the source, and
  \<open>getPartialOrderComputed\<close>. The weights, all 1 here, are rational numbers instead of \<open>mpf_float\<close>. Files, the
  standard input and the elapsed time are the record \<open>Surroundings\<close>.

  Ends that are not a normal end: the exit codes of \<open>main\<close>, an exception nobody catches, and \<open>UndefinedBehaviour\<close> for
  signed overflow and for indices out of range. Memory that runs out is not modelled.
\<close>

datatype early_end = ExitCode int | UncaughtException | UndefinedBehaviour

record Surroundings =
  su_files :: "string \<Rightarrow> string option"
  su_stdin :: string
  su_elapsed :: double

section \<open>The command line\<close>

record Settings =
  st_inputFile :: string
  st_limitCubes :: nat
  st_nbThreads :: nat
  st_timeBudget :: double

definition default_settings :: Settings where
  "default_settings = \<lparr>st_inputFile = [], st_limitCubes = 1000, st_nbThreads = 4, st_timeBudget = dbl_of_int 60\<rparr>"

text \<open>\<open>std::stoul\<close>: a minus sign negates modulo \<open>2 ^ 64\<close>; no number or one out of range raises an exception.\<close>

definition stoul :: "string \<Rightarrow> nat option" where
  "stoul s =
     (case scan_sign (skip_space s) of (neg, s1) \<Rightarrow>
      case scan_digits s1 0 False of (n, seen, rest) \<Rightarrow>
        if \<not> seen \<or> 2 ^ 64 \<le> n then None else Some (if neg then (2 ^ 64 - n) mod 2 ^ 64 else n))"

text \<open>The option takes an argument only when one is left.\<close>

definition takes :: "string \<Rightarrow> string \<Rightarrow> string \<Rightarrow> string list \<Rightarrow> bool" where
  "takes long short arg rest \<longleftrightarrow> (arg = long \<or> arg = short) \<and> rest \<noteq> []"

text \<open>One round of the loop; every option that does not end the program has taken an argument.\<close>

definition discount_arg :: "string \<Rightarrow> string list \<Rightarrow> Settings \<Rightarrow> early_end + Settings" where
  "discount_arg arg rest A =
     (if takes ''--input'' ''-i'' arg rest then Inr (A\<lparr>st_inputFile := hd rest\<rparr>)
      else if takes ''--cubes'' ''-n'' arg rest then
        (case stoul (hd rest) of None \<Rightarrow> Inl UncaughtException | Some v \<Rightarrow> Inr (A\<lparr>st_limitCubes := v mod 2 ^ 32\<rparr>))
      else if takes ''--threads'' ''-t'' arg rest then
        (case stoul (hd rest) of None \<Rightarrow> Inl UncaughtException | Some v \<Rightarrow> Inr (A\<lparr>st_nbThreads := v mod 2 ^ 32\<rparr>))
      else if takes ''--time'' ''-s'' arg rest then
        (case stod (hd rest) of None \<Rightarrow> Inl UncaughtException | Some v \<Rightarrow> Inr (A\<lparr>st_timeBudget := v\<rparr>))
      else if arg = ''--help'' \<or> arg = ''-h'' then Inl (ExitCode 0)
      else Inl (ExitCode 1))"

function discount_args :: "string list \<Rightarrow> Settings \<Rightarrow> early_end + Settings" where
  "discount_args [] A = Inr A"
| "discount_args (arg # rest) A =
     (case discount_arg arg rest A of Inl e \<Rightarrow> Inl e | Inr A' \<Rightarrow> discount_args (tl rest) A')"
  by pat_completeness auto
termination
  by (relation "measure (\<lambda>(args, A). length args)") auto

section \<open>The reader\<close>

text \<open>The first line of a stream and what follows its newline.\<close>

definition next_line :: "string \<Rightarrow> string \<times> string" where
  "next_line s = (takeWhile (\<lambda>c. c \<noteq> newline) s, tl (dropWhile (\<lambda>c. c \<noteq> newline) s))"

lemma next_line_shorter:
  assumes "s \<noteq> []" "(line, rest) = next_line s"
  shows "length rest < length s"
proof -
  have "length (tl (dropWhile P s)) < length s" for P :: "char \<Rightarrow> bool"
  proof -
    have "length (tl (dropWhile P s)) = length (dropWhile P s) - 1" by simp
    moreover have "length (dropWhile P s) \<le> length s" by (rule length_dropWhile_le)
    moreover have "0 < length s" using assms(1) by simp
    ultimately show ?thesis by linarith
  qed
  then show ?thesis using assms(2) by (simp add: next_line_def)
qed

text \<open>The loop that looks for the header: empty lines and lines that start with another letter are passed over.\<close>

function find_header :: "string \<Rightarrow> (string \<times> string) option" where
  "find_header s =
     (if s = [] then None
      else case next_line s of (line, rest) \<Rightarrow>
        if line \<noteq> [] \<and> hd line = CHR ''p'' then Some (line, rest) else find_header rest)"
  by pat_completeness auto
termination
  by (relation "measure length") (simp_all add: next_line_shorter)

declare find_header.simps [simp del]

text \<open>The loop \<open>while (in >> lit)\<close> ends at the first token that is no number in range.\<close>

function stream_ints :: "string \<Rightarrow> int list" where
  "stream_ints s = (case scan_int s of None \<Rightarrow> [] | Some (x, rest) \<Rightarrow> x # stream_ints rest)"
  by pat_completeness auto
termination
  by (relation "measure length") (auto dest: scan_int_shorter)

declare stream_ints.simps [simp del]

fun collect_clauses :: "int list \<Rightarrow> ILit list \<Rightarrow> ILit list list" where
  "collect_clauses [] clause = (if clause \<noteq> [] then [clause] else [])"
| "collect_clauses (lit # lits) clause =
     (if lit = 0 then clause # collect_clauses lits []
      else collect_clauses lits (clause @ [ilit_make \<bar>lit\<bar> (lit < 0)]))"

text \<open>A negative size of \<open>weightLit\<close> is a \<open>length_error\<close>, which \<open>main\<close> catches like the missing header.\<close>

definition parseDIMACS :: "string \<Rightarrow> early_end + rat WeightedCNF" where
  "parseDIMACS s =
     (case find_header s of None \<Rightarrow> Inl (ExitCode 2)
      | Some (line, rest) \<Rightarrow>
          (let n = (case parse_header line of None \<Rightarrow> 0 | Some v \<Rightarrow> v)
           in if n = 0 then Inl (ExitCode 2)
              else if n + 1 < - (2 ^ 30) \<or> 2 ^ 30 \<le> n + 1 then Inl UndefinedBehaviour
              else if n + 1 < 0 then Inl (ExitCode 2)
              else let lits = stream_ints rest
                   in if - (2 ^ 31) \<in> set lits then Inl UndefinedBehaviour
                      else Inr (weightedCNF n (replicate (nat (2 * (n + 1))) 1) [] (collect_clauses lits []))))"

section \<open>The partial order\<close>

record TreeDecompLocal =
  td_level :: "double list"
  td_treewidth :: int

text \<open>The stub of the source: it ignores the seed and finds no decomposition.\<close>

definition runFlowCutter :: "int \<Rightarrow> nat \<Rightarrow> int \<times> double list" where
  "runFlowCutter n seed = (-1, replicate (nat (n + 1)) done1)"

definition td_worker :: "int \<Rightarrow> nat \<Rightarrow> int \<times> double list \<Rightarrow> int \<times> double list" where
  "td_worker n w best =
     (case runFlowCutter n ((w * 1337 + 42) mod 2 ^ 32) of (width, order) \<Rightarrow>
        if 0 \<le> width \<and> width < fst best then (width, order) else best)"

definition degrees :: "int \<Rightarrow> ILit list list \<Rightarrow> nat list" where
  "degrees n cls = fold (fold (\<lambda>l d. vset d (ilit_var l) ((vget d (ilit_var l) + 1) mod 2 ^ 32))) cls
     (replicate (nat (n + 1)) 0)"

text \<open>\<open>max_element\<close> of the entries after the first one; there is none to dereference when the formula has no variable.\<close>

definition max_degree :: "nat list \<Rightarrow> nat option" where
  "max_degree d = (case tl d of [] \<Rightarrow> None | x # xs \<Rightarrow> Some (fold max xs x))"

text \<open>The constructor; \<open>ws\<close> is the order in which the threads take the lock.\<close>

definition mkTreeDecompLocal :: "int \<Rightarrow> ILit list list \<Rightarrow> nat list \<Rightarrow> TreeDecompLocal option" where
  "mkTreeDecompLocal n cls ws =
     (let best = fold (td_worker n) ws (2 ^ 31 - 1, replicate (nat (n + 1)) done1);
          width = (if fst best = 2 ^ 31 - 1 then -1 else fst best);
          degree = degrees n cls
      in map_option (\<lambda>maxDeg.
           \<lparr>td_level = (if 0 < maxDeg \<and> width = -1
              then fold (\<lambda>i lv. vset lv i (dbl_of_int ((int maxDeg - int (vget degree i) + 1) mod 2 ^ 32))) [1..n] (snd best)
              else snd best),
            td_treewidth = width\<rparr>) (max_degree degree))"

definition td_getLevel :: "TreeDecompLocal \<Rightarrow> int \<Rightarrow> double" where
  "td_getLevel td v = vget (td_level td) v"

definition getPartialOrderComputed :: "int \<Rightarrow> TreeDecompLocal option \<Rightarrow> nat list" where
  "getPartialOrderComputed n heuristic =
     (let partialOrder = replicate (nat (n + 1)) 1
      in case heuristic of None \<Rightarrow> partialOrder
         | Some td \<Rightarrow> fold (\<lambda>i po. vset po i (dbl_to_unsigned (td_getLevel td i))) [1..n] partialOrder)"

section \<open>JSON\<close>

fun emit_cubes :: "ILit list list \<Rightarrow> string" where
  "emit_cubes [] = []"
| "emit_cubes (c # cs) =
     ''    ['' @ join '', '' (map ilit_text c) @ '']'' @ (if cs = [] then [] else '','') @ [newline] @ emit_cubes cs"

definition emitJSON :: "ILit list list \<Rightarrow> nat list \<Rightarrow> bool \<Rightarrow> double \<Rightarrow> int \<Rightarrow> string" where
  "emitJSON cubes partialOrder satisfiable elapsed treewidth =
     ''{'' @ [newline] @
     ''  \"satisfiable\": '' @ (if satisfiable then ''true'' else ''false'') @ '','' @ [newline] @
     ''  \"cubes\": ['' @ [newline] @ emit_cubes cubes @ ''  ],'' @ [newline] @
     ''  \"partial_order\": ['' @ join '', '' (map (\<lambda>p. show_int (int p)) partialOrder) @ ''],'' @ [newline] @
     ''  \"stats\": {'' @ [newline] @
     ''    \"nb_cubes\": '' @ show_int (int (length cubes)) @ '','' @ [newline] @
     ''    \"time_seconds\": '' @ show_double elapsed @ '','' @ [newline] @
     ''    \"treewidth\": '' @ show_int treewidth @ [newline] @
     ''  }'' @ [newline] @ ''}'' @ [newline]"

section \<open>The program\<close>

text \<open>Up to the call of \<open>generate\<close>; a formula with a literal outside its variables makes the constructors of the heuristics
  write out of range.\<close>

definition discount_setup :: "Surroundings \<Rightarrow> string list \<Rightarrow> early_end + Settings \<times> rat WeightedCNF" where
  "discount_setup env args =
     (case discount_args args default_settings of Inl e \<Rightarrow> Inl e
      | Inr A \<Rightarrow>
          (case (if st_inputFile A = [] then Some (su_stdin env) else su_files env (st_inputFile A)) of
             None \<Rightarrow> Inl (ExitCode 2)
           | Some text \<Rightarrow>
               (case parseDIMACS text of Inl e \<Rightarrow> Inl e
                | Inr f \<Rightarrow>
                    if w_nbVar f < 1 \<or> \<not> list_all (list_all (\<lambda>l. 1 \<le> ilit_var l \<and> ilit_var l \<le> w_nbVar f)) (w_clauses f)
                    then Inl UndefinedBehaviour else Inr (A, f))))"

text \<open>The formula as the heuristic of d4 gets it, and the beginning of \<open>generate\<close>.\<close>

definition discount_begin :: "WrapperMinisat \<Rightarrow> Settings \<Rightarrow> rat WeightedCNF \<Rightarrow>
    D4BranchingCubeHeuristic CubeGeneratorCLI option" where
  "discount_begin ws A f =
     (case mkD4BranchingCubeHeuristic (cube_problem (w_nbVar f) (w_weightLit f) (w_weightVar f) (w_clauses f)) ws VSADS of
        Inl e \<Rightarrow> None
      | Inr h \<Rightarrow> cg_start (st_nbThreads A) (w_nbVar f) (w_clauses f) h [])"

text \<open>What \<open>main\<close> prints when \<open>generate\<close> has returned; \<open>locks\<close> is the order of the threads of the partial order.\<close>

definition discount_print :: "Surroundings \<Rightarrow> rat WeightedCNF \<Rightarrow> nat list \<Rightarrow> 'h CubeGeneratorCLI \<Rightarrow> string option" where
  "discount_print env f locks S =
     (case cg_main S of
        Returned sat \<Rightarrow> map_option (\<lambda>td. emitJSON (cg_cubes S) (getPartialOrderComputed (w_nbVar f) (Some td)) sat
          (su_elapsed env) (td_treewidth td)) (mkTreeDecompLocal (w_nbVar f) (w_clauses f) locks)
      | _ \<Rightarrow> None)"

section \<open>Reading what was printed\<close>

definition clause_line :: "ILit list \<Rightarrow> string" where
  "clause_line c = concat (map (\<lambda>l. ilit_text l @ '' '') c) @ ''0'' @ [newline]"

definition cnf_text :: "int \<Rightarrow> ILit list list \<Rightarrow> string" where
  "cnf_text n cls = ''p cnf '' @ show_int n @ '' '' @ show_int (int (length cls)) @ [newline] @ concat (map clause_line cls)"

definition human :: "ILit \<Rightarrow> int" where
  "human l = (if ilit_sign l then - ilit_var l else ilit_var l)"

lemma human_range:
  assumes "wf_ilit n l"
  shows "human l \<noteq> 0" "in_int32 (human l)" "human l \<noteq> - (2 ^ 31)" "ilit_make \<bar>human l\<bar> (human l < 0) = l"
proof -
  have v: "1 \<le> ilit_var l" "ilit_var l < 2 ^ 30" using assms by (simp_all add: wf_ilit_def)
  then show "human l \<noteq> 0" "in_int32 (human l)" "human l \<noteq> - (2 ^ 31)" by (auto simp: human_def in_int32_def)
  show "ilit_make \<bar>human l\<bar> (human l < 0) = l"
    using v wf_ilit_make [OF assms] by (cases "ilit_sign l") (simp_all add: human_def)
qed

lemma stream_ints_zero: "stream_ints (''0'' @ newline # s) = 0 # stream_ints s"
proof -
  have "show_int 0 = ''0''" by code_simp
  moreover have "scan_int (show_int 0 @ newline # s) = Some (0, newline # s)"
    by (rule scan_int_show_int) (simp_all add: in_int32_def no_digit_next_def is_digit_def)
  moreover have "stream_ints (newline # s) = stream_ints s"
    by (subst (1 2) stream_ints.simps) (simp add: scan_int_space is_space_def)
  ultimately show ?thesis by (subst stream_ints.simps) simp
qed

lemma stream_ints_lit:
  assumes "wf_ilit n l"
  shows "stream_ints (ilit_text l @ CHR '' '' # s) = human l # stream_ints s"
proof -
  have "scan_int (show_int (human l) @ CHR '' '' # s) = Some (human l, CHR '' '' # s)"
    using human_range [OF assms] by (intro scan_int_show_int) simp_all
  moreover have "stream_ints (CHR '' '' # s) = stream_ints s"
    by (subst (1 2) stream_ints.simps) (simp add: scan_int_space)
  ultimately show ?thesis by (subst stream_ints.simps) (simp add: ilit_text_def human_def)
qed

lemma stream_ints_line:
  "\<forall>l\<in>set c. wf_ilit n l \<Longrightarrow> stream_ints (clause_line c @ s) = map human c @ 0 # stream_ints s"
  by (induction c) (simp_all add: clause_line_def stream_ints_zero [simplified] stream_ints_lit [where n = n])

lemma stream_ints_lines:
  "\<forall>c\<in>set cls. \<forall>l\<in>set c. wf_ilit n l \<Longrightarrow>
    stream_ints (concat (map clause_line cls) @ s) = concat (map (\<lambda>c. map human c @ [0]) cls) @ stream_ints s"
  by (induction cls) (simp_all add: stream_ints_line [where n = n])

lemma collect_line:
  "\<forall>l\<in>set c. wf_ilit n l \<Longrightarrow> collect_clauses (map human c @ 0 # xs) cl = (cl @ c) # collect_clauses xs []"
  by (induction c arbitrary: cl) (simp_all add: human_range [where n = n])

lemma collect_lines:
  "\<forall>c\<in>set cls. \<forall>l\<in>set c. wf_ilit n l \<Longrightarrow>
    collect_clauses (concat (map (\<lambda>c. map human c @ [0]) cls) @ xs) [] = cls @ collect_clauses xs []"
  by (induction cls) (simp_all add: collect_line [where n = n])

lemma find_header_text:
  "find_header (cnf_text n cls @ s) =
    Some (''p cnf '' @ show_int n @ '' '' @ show_int (int (length cls)), concat (map clause_line cls) @ s)"
proof -
  let ?h = "''p cnf '' @ show_int n @ '' '' @ show_int (int (length cls))"
  have nl: "\<forall>c\<in>set ?h. c \<noteq> newline" using show_int_no_newline by auto
  have "cnf_text n cls @ s = ?h @ newline # concat (map clause_line cls) @ s" by (simp add: cnf_text_def)
  moreover have "takeWhile (\<lambda>c. c \<noteq> newline) (?h @ newline # r) = ?h" "dropWhile (\<lambda>c. c \<noteq> newline) (?h @ newline # r) = newline # r"
    for r using nl by (simp_all add: takeWhile_append2 dropWhile_append2)
  ultimately have "next_line (cnf_text n cls @ s) = (?h, concat (map clause_line cls) @ s)" by (simp only: next_line_def list.sel)
  moreover have "cnf_text n cls @ s \<noteq> []" by (simp add: cnf_text_def)
  ultimately show ?thesis by (subst find_header.simps) simp
qed

lemma read_text:
  assumes "1 \<le> n" "n < 2 ^ 30 - 1" "\<forall>c\<in>set cls. \<forall>l\<in>set c. wf_ilit n l" "scan_int s = None"
  shows "parseDIMACS (cnf_text n cls @ s) = Inr (weightedCNF n (replicate (nat (2 * (n + 1))) 1) [] cls)"
proof -
  have n: "in_int32 n" using assms(1,2) by (simp add: in_int32_def)
  let ?xs = "concat (map (\<lambda>c. map human c @ [0]) cls)"
  have ints: "stream_ints (concat (map clause_line cls) @ s) = ?xs"
    using stream_ints_lines [OF assms(3)] assms(4) by (simp add: stream_ints.simps [of s])
  have "- (2 ^ 31) \<notin> set ?xs" using assms(3) human_range(3) [where n = n] by auto
  moreover have "collect_clauses ?xs [] = cls" using collect_lines [OF assms(3), of "[]"] by simp
  ultimately show ?thesis
    using assms(1,2) by (simp add: parseDIMACS_def find_header_text parse_header_print [OF n, simplified] ints Let_def)
qed

section \<open>The levels of the variables\<close>

lemma vget_fold_each:
  "\<forall>x\<in>set xs. vin a x \<Longrightarrow> 0 \<le> v \<Longrightarrow> vget (fold (\<lambda>x a. vset a x (f x)) xs a) v = (if v \<in> set xs then f v else vget a v)"
proof (induction xs arbitrary: a)
  case (Cons x xs)
  then have "0 \<le> x" "vin a x" by (auto simp: vin_def)
  then have "vget (vset a x (f x)) v = (if v = x then f v else vget a v)"
    using Cons.prems(2) by (auto simp: vget_vset_same vget_vset_other)
  then show ?case using Cons.IH [of "vset a x (f x)"] Cons.prems by auto
qed simp

lemma fold_upto_vset:
  assumes "length a = nat (n + 1)" "0 \<le> n"
  shows "fold (\<lambda>i b. vset b i (f i)) [1..n] a = vget a 0 # map f [1..n]"
proof (rule vget_eqI)
  have len: "length (fold (\<lambda>i b. vset b i (f i)) xs b) = length b" for xs b by (induction xs arbitrary: b) simp_all
  show "length (fold (\<lambda>i b. vset b i (f i)) [1..n] a) = length (vget a 0 # map f [1..n])" using assms by (simp add: len)
  fix i assume i: "0 \<le> i" "i < int (length (vget a 0 # map f [1..n]))"
  have "vget (fold (\<lambda>i b. vset b i (f i)) [1..n] a) i = (if i \<in> set [1..n] then f i else vget a i)"
    using assms i by (intro vget_fold_each) (auto simp: vin_def)
  moreover have "vget (vget a 0 # map f [1..n]) i = (if 1 \<le> i then f i else vget a 0)"
    using i assms(2) by (auto simp: vget_def nth_Cons')
  ultimately show "vget (fold (\<lambda>i b. vset b i (f i)) [1..n] a) i = vget (vget a 0 # map f [1..n]) i"
    using i assms(2) by (cases "i = 0") auto
qed

definition occurrences_of :: "ILit list list \<Rightarrow> int \<Rightarrow> nat" where
  "occurrences_of cls v = length (filter (\<lambda>l. ilit_var l = v) (concat cls))"

lemma count_degrees:
  fixes d :: "nat list"
  assumes "\<forall>l\<in>set ls. vin d (ilit_var l)" "0 \<le> v" "vget d v + length ls < 2 ^ 32"
  shows "vget (fold (\<lambda>l d. vset d (ilit_var l) ((vget d (ilit_var l) + 1) mod 2 ^ 32)) ls d) v =
    vget d v + length (filter (\<lambda>l. ilit_var l = v) ls)"
  using assms
proof (induction ls arbitrary: d)
  case (Cons l ls)
  let ?d = "vset d (ilit_var l) ((vget d (ilit_var l) + 1) mod 2 ^ 32)"
  have l: "0 \<le> ilit_var l" "vin d (ilit_var l)" using Cons.prems(1) by (auto simp: vin_def)
  have "vget ?d v = vget d v + (if ilit_var l = v then 1 else 0)"
    using l Cons.prems(2,3) by (auto simp: vget_vset_same vget_vset_other)
  then show ?case using Cons.IH [of ?d] Cons.prems by auto
qed simp

lemma degrees_count:
  assumes "0 \<le> n" "\<forall>c\<in>set cls. \<forall>l\<in>set c. wf_ilit n l" "length (concat cls) < 2 ^ 32"
  shows "tl (degrees n cls) = map (occurrences_of cls) [1..n]"
    "1 \<le> v \<Longrightarrow> v \<le> n \<Longrightarrow> vget (degrees n cls) v = occurrences_of cls v"
proof -
  let ?f = "\<lambda>l (d :: nat list). vset d (ilit_var l) ((vget d (ilit_var l) + 1) mod 2 ^ 32)"
  have fc: "fold (fold ?f) cls d = fold ?f (concat cls) d" for d by (induction cls arbitrary: d) simp_all
  have len: "length (fold ?f ls d) = length d" for ls d by (induction ls arbitrary: d) simp_all
  have wf: "\<forall>l\<in>set (concat cls). 0 \<le> ilit_var l \<and> ilit_var l \<le> n" using assms(2) by (fastforce simp: wf_ilit_def)
  have get: "vget (degrees n cls) v = occurrences_of cls v" if "0 \<le> v" "v \<le> n" for v
  proof -
    have "vget (degrees n cls) v = vget (replicate (nat (n + 1)) 0) v + length (filter (\<lambda>l. ilit_var l = v) (concat cls))"
      unfolding degrees_def fc using assms(1,3) wf that
      by (intro count_degrees) (auto simp: vin_def vget_replicate)
    then show ?thesis using that by (simp add: vget_replicate occurrences_of_def)
  qed
  moreover have "length (degrees n cls) = nat (n + 1)" unfolding degrees_def fc len by simp
  ultimately have "degrees n cls = map (occurrences_of cls) [0..n]"
    using assms(1) by (intro vget_eqI) (auto simp: vget_def nat_less_iff)
  also have "[0..n] = 0 # [1..n]" using assms(1) by (simp add: upto.simps)
  finally show "tl (degrees n cls) = map (occurrences_of cls) [1..n]" by simp
  show "1 \<le> v \<Longrightarrow> v \<le> n \<Longrightarrow> vget (degrees n cls) v = occurrences_of cls v" by (rule get) simp_all
qed

lemma nbits_le: "m < 2 ^ k \<Longrightarrow> nbits m \<le> int k"
proof (induction k arbitrary: m)
  case (Suc k)
  show ?case
  proof (cases "m \<le> 0")
    case False
    have "m div 2 < 2 ^ k" using Suc.prems by simp
    from Suc.IH [OF this] show ?thesis using False by (subst nbits.simps) simp
  qed (simp add: nbits.simps)
qed (simp add: nbits.simps)

lemma unsigned_level: "0 \<le> i \<Longrightarrow> i < 2 ^ 53 \<Longrightarrow> dbl_to_unsigned (dbl_of_int i) = nat i"
  using nbits_le [of i 53] by (simp add: dbl_of_int_def fl_exact dbl_to_unsigned_def)

lemma td_workers_idle: "fold (td_worker n) ws best = best"
  by (induction ws arbitrary: best) (simp_all add: td_worker_def runFlowCutter_def)

lemma partial_order_by_degree:
  assumes "1 \<le> n" "\<forall>c\<in>set cls. \<forall>l\<in>set c. wf_ilit n l" "length (concat cls) < 2 ^ 31"
  shows "\<exists>td. mkTreeDecompLocal n cls locks = Some td \<and> td_treewidth td = -1 \<and>
    getPartialOrderComputed n (Some td) =
      1 # map (\<lambda>v. Max (occurrences_of cls ` {1..n}) + 1 - occurrences_of cls v) [1..n]"
proof -
  let ?occ = "occurrences_of cls" let ?M = "Max (?occ ` {1..n})"
  have n: "0 \<le> n" using assms(1) by simp
  have occ: "?occ v \<le> length (concat cls)" for v by (simp add: occurrences_of_def)
  have deg: "tl (degrees n cls) = map ?occ [1..n]" "1 \<le> v \<Longrightarrow> v \<le> n \<Longrightarrow> vget (degrees n cls) v = ?occ v" for v
    using degrees_count [OF n assms(2)] assms(3) by auto
  have up: "[1..n] = 1 # [2..n]" using assms(1) by (subst upto.simps) simp
  have "max_degree (degrees n cls) = Some (fold max (map ?occ [2..n]) (?occ 1))"
    by (simp add: max_degree_def deg(1) up)
  also have "fold max (map ?occ [2..n]) (?occ 1) = Max (set (map ?occ [1..n]))"
    unfolding up list.map by (rule Max.set_eq_fold [symmetric])
  finally have M: "max_degree (degrees n cls) = Some ?M" by simp
  have le: "?occ v \<le> ?M" if "1 \<le> v" "v \<le> n" for v using that by (intro Max_ge) auto
  have "?M \<in> ?occ ` {1..n}" using assms(1) by (intro Max_in) auto
  then have top: "?M < 2 ^ 31" using occ assms(3) by (metis imageE le_less_trans)
  define lv where "lv = (if 0 < ?M
    then fold (\<lambda>i lv. vset lv i (dbl_of_int ((int ?M - int (vget (degrees n cls) i) + 1) mod 2 ^ 32))) [1..n] (replicate (nat (n + 1)) done1)
    else replicate (nat (n + 1)) done1)"
  have mk: "mkTreeDecompLocal n cls locks = Some \<lparr>td_level = lv, td_treewidth = -1\<rparr>"
    by (simp add: mkTreeDecompLocal_def td_workers_idle M lv_def Let_def)
  have level: "dbl_to_unsigned (vget lv v) = ?M + 1 - ?occ v" if v: "1 \<le> v" "v \<le> n" for v
  proof (cases "0 < ?M")
    case True
    let ?i = "int ?M - int (?occ v) + 1"
    have i: "0 \<le> ?i" "?i < 2 ^ 32" using le [OF v] top by simp_all
    have "vget lv v = dbl_of_int ((int ?M - int (vget (degrees n cls) v) + 1) mod 2 ^ 32)"
      using True v by (simp add: lv_def) (subst vget_fold_each; simp add: vin_def)
    also have "\<dots> = dbl_of_int ?i" using i by (simp add: deg(2) [OF v])
    finally show ?thesis using i unsigned_level [of ?i] le [OF v] by simp
  next
    case False
    then have "vget lv v = done1" using v by (simp add: lv_def vget_replicate)
    moreover have "?occ v = 0" "?M = 0" using le [OF v] False by simp_all
    ultimately show ?thesis by (simp add: dbl_to_unsigned_def done1_def)
  qed
  have "getPartialOrderComputed n (Some \<lparr>td_level = lv, td_treewidth = -1\<rparr>) =
      1 # map (\<lambda>v. dbl_to_unsigned (vget lv v)) [1..n]"
    using fold_upto_vset [of "replicate (nat (n + 1)) (1 :: nat)" n "\<lambda>v. dbl_to_unsigned (vget lv v)"] n
    by (simp add: getPartialOrderComputed_def td_getLevel_def vget_replicate)
  also have "map (\<lambda>v. dbl_to_unsigned (vget lv v)) [1..n] = map (\<lambda>v. ?M + 1 - ?occ v) [1..n]"
    using level by simp
  finally show ?thesis using mk by simp
qed

lemma setup_ok:
  assumes "discount_setup env args = Inr (A, f)"
  shows "1 \<le> w_nbVar f" "w_nbVar f < 2 ^ 30" "\<forall>c\<in>set (w_clauses f). \<forall>l\<in>set c. wf_ilit (w_nbVar f) l"
proof -
  obtain s where "parseDIMACS s = Inr f"
    using assms by (auto simp: discount_setup_def split: sum.splits option.splits if_splits)
  then show n: "w_nbVar f < 2 ^ 30"
    by (auto simp: parseDIMACS_def Let_def weightedCNF_def split: option.splits if_splits)
  show "1 \<le> w_nbVar f" "\<forall>c\<in>set (w_clauses f). \<forall>l\<in>set c. wf_ilit (w_nbVar f) l"
    using assms n by (auto simp: discount_setup_def list_all_iff wf_ilit_def split: sum.splits option.splits if_splits)
qed

section \<open>Properties\<close>

text \<open>C35: reading the DIMACS text of a formula, empty clauses included, gives its variables and clauses, every weight 1.\<close>

theorem parseDIMACS_print:
  assumes "1 \<le> n" "n < 2 ^ 30 - 1" "\<forall>c\<in>set cls. \<forall>l\<in>set c. wf_ilit n l"
  shows "parseDIMACS (cnf_text n cls) = Inr (weightedCNF n (replicate (nat (2 * (n + 1))) 1) [] cls)"
proof -
  have "scan_int [] = None" by code_simp
  from read_text [OF assms this] show ?thesis by simp
qed

lemma parseDIMACS_print_witness:
  "parseDIMACS (cnf_text 2 [[ilit_make 1 False, ilit_make 2 True], []]) =
    Inr (weightedCNF 2 (replicate 6 1) [] [[ilit_make 1 False, ilit_make 2 True], []])"
  using parseDIMACS_print [of 2 "[[ilit_make 1 False, ilit_make 2 True], []]"] by (simp add: wf_ilit_def)

text \<open>C36: a comment line between the clauses ends the formula: the clauses after it are dropped without a word.\<close>

theorem comment_ends_formula:
  assumes "1 \<le> n" "n < 2 ^ 30 - 1" "\<forall>c\<in>set cls. \<forall>l\<in>set c. wf_ilit n l"
  shows "parseDIMACS (cnf_text n cls @ ''c '' @ comment @ [newline] @ concat (map clause_line others)) =
    Inr (weightedCNF n (replicate (nat (2 * (n + 1))) 1) [] cls)"
  using assms by (intro read_text) (simp_all add: scan_int_def is_space_def scan_sign_def is_digit_def)

lemma comment_ends_formula_witness:
  "parseDIMACS (cnf_text 1 [[ilit_make 1 False]] @ ''c '' @ ''units'' @ [newline] @ concat (map clause_line [[ilit_make 1 True]])) =
    Inr (weightedCNF 1 (replicate 4 1) [] [[ilit_make 1 False]])"
  using comment_ends_formula [of 1 "[[ilit_make 1 False]]" "''units''" "[[ilit_make 1 True]]"] by (simp add: wf_ilit_def)

text \<open>C34: when the arguments and the formula are accepted, \<open>generate\<close> starts, and when it returns with every result collected
  the program prints: cubes such that each model of the formula is in exactly one of them, \<open>true\<close> if there is a model,
  and for each variable the greatest number of occurrences of a variable minus its own plus one.\<close>

theorem discount_run:
  assumes "discount_setup env args = Inr (A, f)" "sound_solver (w_clauses f) solve" "length (concat (w_clauses f)) < 2 ^ 31"
  shows "\<exists>S0. discount_begin ws A f = Some S0 \<and>
    (\<forall>S sat. pool_run ndebug d4_next solve (st_limitCubes A) S0 S \<longrightarrow> cg_main S = Returned sat \<longrightarrow>
       filter wr_sat (cg_results S) = [] \<longrightarrow>
       discount_print env f locks S = Some (emitJSON (cg_cubes S)
         (1 # map (\<lambda>v. Max (occurrences_of (w_clauses f) ` {1..w_nbVar f}) + 1 - occurrences_of (w_clauses f) v) [1..w_nbVar f])
         sat (su_elapsed env) (-1)) \<and>
       (\<forall>m. cnf_true (ilit_true m) (w_clauses f) \<longrightarrow>
          sat \<and> length (filter (cube_true (ilit_true m)) (cg_cubes S)) = 1))"
proof -
  let ?n = "w_nbVar f" let ?cls = "w_clauses f"
  have n: "1 \<le> ?n" "?n < 2 ^ 30" "\<forall>c\<in>set ?cls. \<forall>l\<in>set c. wf_ilit ?n l" using setup_ok [OF assms(1)] by simp_all
  obtain td where td: "mkTreeDecompLocal ?n ?cls locks = Some td" "td_treewidth td = -1" "getPartialOrderComputed ?n (Some td) =
      1 # map (\<lambda>v. Max (occurrences_of ?cls ` {1..?n}) + 1 - occurrences_of ?cls v) [1..?n]"
    using partial_order_by_degree [OF n(1,3) assms(3)] by blast
  obtain h where h: "mkD4BranchingCubeHeuristic (cube_problem ?n (w_weightLit f) (w_weightVar f) ?cls) ws VSADS = Inr h"
    by (simp add: mkD4BranchingCubeHeuristic_def d4_scoring_def)
  have "0 \<le> ?n" using n(1) by simp
  obtain S0 base where S0: "cg_start (st_nbThreads A) ?n ?cls h [] = Some S0"
      "\<And>S. pool_run ndebug d4_next solve (st_limitCubes A) S0 S \<Longrightarrow> pool_ok d4_ready dh_nbVariables ?n ?cls base S"
    by (rule pool_setting_run [OF d4_setting [OF h \<open>0 \<le> ?n\<close> n(2,3) assms(2)]]) (rule that; assumption)
  have "discount_begin ws A f = Some S0" using h S0(1) by (simp add: discount_begin_def)
  moreover have "sat \<and> length (filter (cube_true (ilit_true m)) (cg_cubes S)) = 1"
    if "pool_run ndebug d4_next solve (st_limitCubes A) S0 S" "cg_main S = Returned sat" "filter wr_sat (cg_results S) = []"
      "cnf_true (ilit_true m) ?cls" for S sat m
    using returned_cubes [OF S0(2) [OF that(1)] that(2,4)] that(3) by simp
  moreover have "discount_print env f locks S = Some (emitJSON (cg_cubes S)
      (1 # map (\<lambda>v. Max (occurrences_of ?cls ` {1..?n}) + 1 - occurrences_of ?cls v) [1..?n]) sat (su_elapsed env) (-1))"
    if "cg_main S = Returned sat" for S :: "D4BranchingCubeHeuristic CubeGeneratorCLI" and sat
    using td that by (simp add: discount_print_def)
  ultimately show ?thesis by blast
qed

definition race_input :: Surroundings where
  "race_input = \<lparr>su_files = (\<lambda>p. None), su_stdin = cnf_text 3 race_formula, su_elapsed = dzero\<rparr>"

lemma race_setup: "discount_setup race_input [] =
  Inr (default_settings, weightedCNF 3 (replicate 8 1) [] race_formula)"
proof -
  have w: "\<forall>c\<in>set race_formula. \<forall>l\<in>set c. wf_ilit 3 l" using race_setting by (simp add: pool_setting_def)
  have "scan_int [] = None" by code_simp
  from read_text [OF _ _ w this] have "parseDIMACS (cnf_text 3 race_formula) = Inr (weightedCNF 3 (replicate 8 1) [] race_formula)"
    by simp
  then show ?thesis using w
    by (simp add: discount_setup_def race_input_def default_settings_def weightedCNF_def list_all_iff wf_ilit_def)
qed

lemma discount_run_witness:
  "\<exists>S0. discount_begin demo_solver default_settings (weightedCNF 3 (replicate 8 1) [] race_formula) = Some S0 \<and>
    (\<forall>S sat. pool_run False d4_next race_solver 1000 S0 S \<longrightarrow> cg_main S = Returned sat \<longrightarrow>
       filter wr_sat (cg_results S) = [] \<longrightarrow> discount_print race_input (weightedCNF 3 (replicate 8 1) [] race_formula) [0, 1, 2, 3] S \<noteq> None)"
proof -
  have f: "w_clauses (weightedCNF 3 (replicate 8 (1 :: rat)) [] race_formula) = race_formula" by (simp add: weightedCNF_def)
  have "length (concat race_formula) < 2 ^ 31" by (simp add: race_formula_def blocks_def)
  from discount_run [OF race_setup, unfolded f, OF race_solver_sound this, of demo_solver False "[0, 1, 2, 3]"]
  show ?thesis by (fastforce simp: default_settings_def)
qed

end
