(* ===== verification/D4_Allocator.thy ===== *)
theory D4_Allocator
  imports HS_Prelude "HOL-Library.Multiset" "HOL-Library.Word"
begin

text \<open>
  \<open>caching/bucket/BucketAllocator\<close>: the memory of the cache, in pages, with lists of free blocks by size. An address is a
  page and an offset in it; a block is an address and a size. The member pointer \<open>m_data\<close> is the number of the current
  page. The three counters are 64-bit words. \<open>alloc_ok A live\<close> is the invariant, where \<open>live\<close> lists the blocks that were
  handed out and not given back.

  Comparing the end of the current page with a block of another page is a comparison of unrelated pointers; the model
  takes it as false. The first page can be 2^32 bytes, more than \<open>unsigned\<close> holds: what is left of a page (\<open>rSz\<close>) is
  reduced modulo 2^32 as in the code.
\<close>

type_synonym addr = "nat \<times> nat"

record BucketAllocator =
  ba_allocateData :: "nat list"
  ba_data :: nat
  ba_sizeFirstPage :: nat
  ba_sizeAdditionalPage :: nat
  ba_sizeData :: nat
  ba_posInData :: nat
  ba_freeSpace :: "addr list list"
  ba_allMemory :: "64 word"
  ba_freeMemory :: "64 word"
  ba_usedMemory :: "64 word"
  ba_isInit :: bool
  ba_cleanup :: bool
  ba_consumedMemory :: bool

definition ba_new :: BucketAllocator where
  "ba_new = \<lparr>ba_allocateData = [], ba_data = 0, ba_sizeFirstPage = 0, ba_sizeAdditionalPage = 0, ba_sizeData = 0,
     ba_posInData = 0, ba_freeSpace = [], ba_allMemory = 0, ba_freeMemory = 0, ba_usedMemory = 0, ba_isInit = False,
     ba_cleanup = True, ba_consumedMemory = False\<rparr>"

definition ba_reinitConsumedMemory :: "BucketAllocator \<Rightarrow> BucketAllocator" where
  "ba_reinitConsumedMemory A = A\<lparr>ba_consumedMemory := False\<rparr>"

definition ba_activeCleanUp :: "bool \<Rightarrow> BucketAllocator \<Rightarrow> BucketAllocator" where
  "ba_activeCleanUp b A = A\<lparr>ba_cleanup := b\<rparr>"

text \<open>\<open>remainingMemory\<close> is the quotient of these two numbers.\<close>

definition ba_remaining :: "BucketAllocator \<Rightarrow> 64 word \<times> 64 word" where
  "ba_remaining A = (ba_freeMemory A + of_nat (ba_sizeData A - ba_posInData A), ba_allMemory A)"

definition ba_init :: "nat \<Rightarrow> nat \<Rightarrow> BucketAllocator \<Rightarrow> BucketAllocator" where
  "ba_init sizeFirstPage sizeAdditionalPage A =
     (if ba_isInit A then A
      else A\<lparr>ba_isInit := True, ba_allMemory := of_nat sizeFirstPage, ba_freeMemory := 0, ba_posInData := 0,
             ba_sizeFirstPage := sizeFirstPage, ba_sizeAdditionalPage := sizeAdditionalPage, ba_sizeData := sizeFirstPage,
             ba_data := length (ba_allocateData A), ba_allocateData := ba_allocateData A @ [sizeFirstPage],
             ba_usedMemory := 0\<rparr>)"

definition push_free :: "nat \<Rightarrow> addr \<Rightarrow> addr list list \<Rightarrow> addr list list" where
  "push_free i a fs = fs[i := fs ! i @ [a]]"

definition pop_free :: "nat \<Rightarrow> addr list list \<Rightarrow> addr list list" where
  "pop_free i fs = fs[i := butlast (fs ! i)]"

text \<open>\<open>m_freeSpace.resize(n)\<close> to a length that is not smaller.\<close>

definition grow_free :: "nat \<Rightarrow> addr list list \<Rightarrow> addr list list" where
  "grow_free n fs = fs @ replicate (n - length fs) []"

definition trim_free :: "addr list list \<Rightarrow> addr list list" where
  "trim_free fs = rev (dropWhile (\<lambda>x. x = []) (rev fs))"

definition split_free :: "nat \<Rightarrow> addr list list \<Rightarrow> addr list list" where
  "split_free sz fs =
     (if fs ! sz \<noteq> [] then fs
      else let bigSize = length fs - 1; ret = last (fs ! bigSize)
           in push_free (bigSize - sz) (fst ret, snd ret + sz) (push_free sz ret (pop_free bigSize fs)))"

definition new_page :: "BucketAllocator \<Rightarrow> BucketAllocator" where
  "new_page A =
     (let rSz = (ba_sizeData A - ba_posInData A) mod 2 ^ 32
      in A\<lparr>ba_freeSpace := push_free rSz (ba_data A, ba_posInData A) (grow_free (rSz + 1) (ba_freeSpace A)),
           ba_freeMemory := ba_freeMemory A + of_nat rSz, ba_consumedMemory := True,
           ba_sizeData := ba_sizeAdditionalPage A, ba_posInData := 0,
           ba_data := length (ba_allocateData A), ba_allocateData := ba_allocateData A @ [ba_sizeAdditionalPage A],
           ba_allMemory := ba_allMemory A + of_nat (ba_sizeAdditionalPage A)\<rparr>)"

definition getArray :: "nat \<Rightarrow> BucketAllocator \<Rightarrow> addr \<times> BucketAllocator" where
  "getArray sz A =
     (let A1 = A\<lparr>ba_usedMemory := ba_usedMemory A + of_nat sz\<rparr>; fs = ba_freeSpace A
      in if sz < length fs \<and> (fs ! sz \<noteq> [] \<or> sz < length fs div 2)
         then let fs1 = split_free sz fs
              in (last (fs1 ! sz),
                  A1\<lparr>ba_freeSpace := trim_free (pop_free sz fs1), ba_freeMemory := ba_freeMemory A1 - of_nat sz\<rparr>)
         else let A2 = (if ba_sizeData A1 < ba_posInData A1 + sz then new_page A1 else A1)
              in ((ba_data A2, ba_posInData A2), A2\<lparr>ba_posInData := ba_posInData A2 + sz\<rparr>))"

definition ba_releaseMemory :: "addr \<Rightarrow> nat \<Rightarrow> BucketAllocator \<Rightarrow> BucketAllocator" where
  "ba_releaseMemory m sz A =
     (let A1 = A\<lparr>ba_usedMemory := ba_usedMemory A - of_nat sz\<rparr>
      in if sz < ba_posInData A \<and> m = (ba_data A, ba_posInData A - sz)
         then A1\<lparr>ba_posInData := ba_posInData A - sz\<rparr>
         else let fs = ba_freeSpace A; fs1 = (if length fs \<le> sz then grow_free (sz + 1) fs else fs)
              in A1\<lparr>ba_freeSpace := push_free sz m fs1, ba_freeMemory := ba_freeMemory A + of_nat sz\<rparr>)"

section \<open>Free blocks\<close>

fun blocks_from :: "nat \<Rightarrow> addr list list \<Rightarrow> (addr \<times> nat) list" where
  "blocks_from k [] = []"
| "blocks_from k (xs # fs) = map (\<lambda>a. (a, k)) xs @ blocks_from (Suc k) fs"

abbreviation free_blocks :: "addr list list \<Rightarrow> (addr \<times> nat) list" where
  "free_blocks \<equiv> blocks_from 0"

lemma blocks_update:
  "i < length fs \<Longrightarrow> mset (blocks_from k (fs[i := xs])) + mset (map (\<lambda>a. (a, k + i)) (fs ! i)) =
    mset (blocks_from k fs) + mset (map (\<lambda>a. (a, k + i)) xs)"
proof (induction fs arbitrary: i k)
  case (Cons y fs)
  show ?case
  proof (cases i)
    case (Suc j)
    then show ?thesis using Cons.IH [of j "Suc k"] Cons.prems by (simp add: add.assoc)
  qed (simp add: ac_simps)
qed simp

lemma blocks_push: "i < length fs \<Longrightarrow> mset (free_blocks (push_free i a fs)) = add_mset (a, i) (mset (free_blocks fs))"
  using blocks_update [of i fs 0 "fs ! i @ [a]"] by (simp add: push_free_def)

lemma blocks_pop:
  assumes "i < length fs" "fs ! i \<noteq> []"
  shows "mset (free_blocks fs) = add_mset (last (fs ! i), i) (mset (free_blocks (pop_free i fs)))"
proof -
  have "push_free i (last (fs ! i)) (pop_free i fs) = fs" using assms by (simp add: push_free_def pop_free_def)
  then show ?thesis using blocks_push [of i "pop_free i fs" "last (fs ! i)"] assms by (simp add: pop_free_def)
qed

lemma blocks_append: "blocks_from k (fs @ gs) = blocks_from k fs @ blocks_from (k + length fs) gs"
  by (induction fs arbitrary: k) simp_all

lemma blocks_empty: "\<forall>x\<in>set fs. x = [] \<Longrightarrow> blocks_from k fs = []"
  by (induction fs arbitrary: k) simp_all

lemma blocks_grow [simp]: "free_blocks (grow_free n fs) = free_blocks fs"
  by (simp add: grow_free_def blocks_append blocks_empty)

lemma blocks_trim [simp]: "free_blocks (trim_free fs) = free_blocks fs"
proof -
  have "fs = trim_free fs @ rev (takeWhile (\<lambda>x. x = []) (rev fs))"
    by (simp add: trim_free_def flip: rev_append)
  then show ?thesis
    using blocks_append [of 0 "trim_free fs" "rev (takeWhile (\<lambda>x. x = []) (rev fs))"]
      blocks_empty [of "rev (takeWhile (\<lambda>x. x = []) (rev fs))"] set_takeWhileD by (metis append_Nil2 set_rev)
qed

definition trimmed :: "addr list list \<Rightarrow> bool" where
  "trimmed fs \<longleftrightarrow> fs = [] \<or> last fs \<noteq> []"

lemma trimmed_trim: "trimmed (trim_free fs)"
  unfolding trimmed_def trim_free_def by (cases "dropWhile (\<lambda>x. x = []) (rev fs)") (auto dest: dropWhile_eq_Cons_conv [THEN iffD1])

lemma trimmed_push: "trimmed fs \<Longrightarrow> trimmed (push_free i a (if length fs \<le> i then grow_free (i + 1) fs else fs))"
  by (auto simp: trimmed_def push_free_def grow_free_def last_list_update nth_append split: if_splits)

section \<open>The invariant\<close>

definition apart :: "addr \<times> nat \<Rightarrow> addr \<times> nat \<Rightarrow> bool" where
  "apart b c \<longleftrightarrow> snd b = 0 \<or> snd c = 0 \<or> fst (fst b) \<noteq> fst (fst c) \<or>
     snd (fst b) + snd b \<le> snd (fst c) \<or> snd (fst c) + snd c \<le> snd (fst b)"

definition inside :: "BucketAllocator \<Rightarrow> addr \<times> nat \<Rightarrow> bool" where
  "inside A b \<longleftrightarrow> snd b = 0 \<or> fst (fst b) < length (ba_allocateData A) \<and>
     snd (fst b) + snd b \<le> (if fst (fst b) = ba_data A then ba_posInData A else ba_allocateData A ! fst (fst b))"

definition blocks_ok :: "BucketAllocator \<Rightarrow> (addr \<times> nat) list \<Rightarrow> bool" where
  "blocks_ok A bs \<longleftrightarrow> sorted_wrt apart bs \<and> (\<forall>b\<in>set bs. inside A b)"

definition total :: "(addr \<times> nat) list \<Rightarrow> 64 word" where
  "total bs = of_nat (sum_list (map snd bs))"

definition alloc_ok :: "BucketAllocator \<Rightarrow> (addr \<times> nat) list \<Rightarrow> bool" where
  "alloc_ok A live \<longleftrightarrow>
     ba_isInit A \<and> length (ba_allocateData A) = Suc (ba_data A) \<and> ba_allocateData A ! ba_data A = ba_sizeData A \<and>
     ba_posInData A \<le> ba_sizeData A \<and> trimmed (ba_freeSpace A) \<and> blocks_ok A (live @ free_blocks (ba_freeSpace A)) \<and>
     ba_usedMemory A = total live \<and> ba_freeMemory A = total (free_blocks (ba_freeSpace A)) \<and>
     ba_allMemory A = total live + fst (ba_remaining A)"

lemma apart_sym: "symp apart"
  by (auto simp: symp_def apart_def)

lemma total_simps [simp]: "total [] = 0" "total (b # bs) = of_nat (snd b) + total bs" "total (bs @ cs) = total bs + total cs"
  by (simp_all add: total_def)

lemma total_mset: "mset bs = mset cs \<Longrightarrow> total bs = total cs"
  unfolding total_def by (metis mset_map sum_mset_sum_list)

lemma blocks_ok_mset: "blocks_ok A bs \<Longrightarrow> mset bs = mset cs \<Longrightarrow> blocks_ok A cs"
  unfolding blocks_ok_def using sorted_wrt_mset [OF apart_sym] mset_eq_setD by metis

lemma blocks_ok_Cons: "blocks_ok A (b # bs) \<longleftrightarrow> inside A b \<and> (\<forall>c\<in>set bs. apart b c) \<and> blocks_ok A bs"
  by (auto simp: blocks_ok_def)

lemma blocks_okD: "blocks_ok A bs \<Longrightarrow> b \<in> set bs \<Longrightarrow> inside A b"
  by (simp add: blocks_ok_def)

lemma blocks_ok_same:
  "ba_allocateData B = ba_allocateData A \<Longrightarrow> ba_data B = ba_data A \<Longrightarrow> ba_posInData B = ba_posInData A \<Longrightarrow>
    blocks_ok A bs \<Longrightarrow> blocks_ok B bs"
proof -
  assume "ba_allocateData B = ba_allocateData A" "ba_data B = ba_data A" "ba_posInData B = ba_posInData A"
  then have "inside B = inside A" by (simp add: inside_def fun_eq_iff)
  then show "blocks_ok A bs \<Longrightarrow> blocks_ok B bs" by (simp add: blocks_ok_def)
qed

lemma blocks_ok_cut:
  assumes "blocks_ok A ((a, n) # bs)" "m \<le> n"
  shows "blocks_ok A ((a, m) # ((fst a, snd a + m), n - m) # bs)"
proof -
  have "apart (a, m) c \<and> apart ((fst a, snd a + m), n - m) c" if "apart (a, n) c" for c
    using that assms(2) by (auto simp: apart_def)
  then show ?thesis using assms by (auto simp: blocks_ok_Cons inside_def apart_def)
qed

lemma alloc_ok_mset: "alloc_ok A live \<Longrightarrow> mset live = mset live' \<Longrightarrow> alloc_ok A live'"
  using blocks_ok_mset [of A "live @ free_blocks (ba_freeSpace A)" "live' @ free_blocks (ba_freeSpace A)"] total_mset [of live live']
  by (simp add: alloc_ok_def)

section \<open>The operations keep the invariant\<close>

lemma init_ok: "alloc_ok (ba_init m n ba_new) []"
  by (simp add: alloc_ok_def ba_init_def ba_new_def ba_remaining_def trimmed_def blocks_ok_def)

lemma split_spec:
  assumes "sz < length fs" "fs ! sz \<noteq> [] \<or> sz < length fs div 2" "trimmed fs"
  shows "sz < length (split_free sz fs)" "split_free sz fs ! sz \<noteq> []"
    "total (free_blocks (split_free sz fs)) = total (free_blocks fs)"
    "blocks_ok A (live @ free_blocks fs) \<Longrightarrow> blocks_ok A (live @ free_blocks (split_free sz fs))"
proof -
  consider "fs ! sz \<noteq> []" | "fs ! sz = []" by blast
  then have "sz < length (split_free sz fs) \<and> split_free sz fs ! sz \<noteq> [] \<and>
    total (free_blocks (split_free sz fs)) = total (free_blocks fs) \<and>
    (blocks_ok A (live @ free_blocks fs) \<longrightarrow> blocks_ok A (live @ free_blocks (split_free sz fs)))"
  proof cases
    case 1
    then show ?thesis using assms(1) by (simp add: split_free_def)
  next
    case 2
    define big where "big = length fs - 1"
    define ret where "ret = last (fs ! big)"
    define fs1 where "fs1 = push_free sz ret (pop_free big fs)"
    have big: "sz < big" "big < length fs" using assms(1,2) 2 by (auto simp: big_def)
    have "fs \<noteq> []" using big by auto
    then have ne: "fs ! big \<noteq> []" using assms(3) last_conv_nth [of fs] by (simp add: trimmed_def big_def)
    have split: "split_free sz fs = push_free (big - sz) (fst ret, snd ret + sz) fs1"
      using 2 by (simp add: split_free_def Let_def big_def ret_def fs1_def)
    have len: "length fs1 = length fs" by (simp add: fs1_def push_free_def pop_free_def)
    let ?rest = "free_blocks (pop_free big fs)" let ?tail = "(fst ret, snd ret + sz)"
    have "mset (free_blocks (split_free sz fs)) = add_mset (?tail, big - sz) (mset (free_blocks fs1))"
      unfolding split using big len by (intro blocks_push) simp
    also have "mset (free_blocks fs1) = add_mset (ret, sz) (mset ?rest)"
      unfolding fs1_def using big assms(1) by (intro blocks_push) (simp add: pop_free_def)
    finally have new: "mset (free_blocks (split_free sz fs)) = mset ((ret, sz) # (?tail, big - sz) # ?rest)" by simp
    have old: "mset (free_blocks fs) = mset ((ret, big) # ?rest)"
      using blocks_pop [OF big(2) ne] by (simp add: ret_def)
    have "blocks_ok A (live @ free_blocks (split_free sz fs))" if "blocks_ok A (live @ free_blocks fs)"
    proof -
      have "blocks_ok A ((ret, big) # live @ ?rest)" by (rule blocks_ok_mset [OF that]) (simp add: old)
      then have "blocks_ok A ((ret, sz) # (?tail, big - sz) # live @ ?rest)" by (rule blocks_ok_cut) (use big(1) in simp)
      then show ?thesis by (rule blocks_ok_mset) (simp add: new)
    qed
    moreover have "total (free_blocks (split_free sz fs)) = total (free_blocks fs)"
      using total_mset [OF new] total_mset [OF old] big(1) by (simp flip: of_nat_add)
    moreover have "split_free sz fs ! sz \<noteq> []"
      using assms(1) unfolding split fs1_def by (auto simp: push_free_def pop_free_def nth_list_update)
    moreover have "sz < length (split_free sz fs)" using assms(1) by (simp add: split push_free_def len)
    ultimately show ?thesis by blast
  qed
  then show "sz < length (split_free sz fs)" "split_free sz fs ! sz \<noteq> []"
    "total (free_blocks (split_free sz fs)) = total (free_blocks fs)"
    "blocks_ok A (live @ free_blocks fs) \<Longrightarrow> blocks_ok A (live @ free_blocks (split_free sz fs))" by blast+
qed

lemma new_page_ok:
  assumes ok: "alloc_ok A live" and "ba_sizeData A - ba_posInData A < 2 ^ 32"
  shows "alloc_ok (new_page A) live" "ba_posInData (new_page A) = 0" "ba_sizeData (new_page A) = ba_sizeAdditionalPage A"
proof -
  let ?r = "ba_sizeData A - ba_posInData A" let ?A = "new_page A"
  let ?fs = "push_free ?r (ba_data A, ba_posInData A) (grow_free (?r + 1) (ba_freeSpace A))"
  have r: "?r mod 2 ^ 32 = ?r" using assms(2) by simp
  have page: "length (ba_allocateData A) = Suc (ba_data A)" "ba_allocateData A ! ba_data A = ba_sizeData A"
      "ba_posInData A \<le> ba_sizeData A" using ok by (simp_all add: alloc_ok_def)
  have fs: "ba_freeSpace ?A = ?fs" unfolding new_page_def Let_def r by simp
  have "mset (free_blocks ?fs) = add_mset ((ba_data A, ba_posInData A), ?r) (mset (free_blocks (ba_freeSpace A)))"
    using blocks_push [of ?r "grow_free (?r + 1) (ba_freeSpace A)"] by (simp add: grow_free_def [of "?r + 1" "ba_freeSpace A"] length_append)
      (simp add: grow_free_def blocks_append blocks_empty)
  then have new: "mset (free_blocks ?fs) = mset (((ba_data A, ba_posInData A), ?r) # free_blocks (ba_freeSpace A))" by simp
  let ?old = "live @ free_blocks (ba_freeSpace A)"
  have old: "blocks_ok A ?old" using ok by (simp add: alloc_ok_def)
  have "inside ?A b" if "b \<in> set ?old" for b
    using blocks_okD [OF old that] page by (auto simp: inside_def new_page_def Let_def nth_append split: if_splits)
  moreover have "apart ((ba_data A, ba_posInData A), ?r) b" if "b \<in> set ?old" for b
    using blocks_okD [OF old that] by (auto simp: inside_def apart_def split: if_splits)
  moreover have "inside ?A ((ba_data A, ba_posInData A), ?r)"
    using page by (simp add: inside_def new_page_def Let_def nth_append)
  ultimately have "blocks_ok ?A (((ba_data A, ba_posInData A), ?r) # ?old)"
    using old by (simp add: blocks_ok_def)
  then have "blocks_ok ?A (live @ free_blocks ?fs)" by (rule blocks_ok_mset) (use new in simp)
  moreover have "trimmed ?fs"
    using trimmed_push [of "ba_freeSpace A" ?r "(ba_data A, ba_posInData A)"] ok
    by (simp add: alloc_ok_def grow_free_def split: if_splits)
  moreover have "total (free_blocks ?fs) = of_nat ?r + total (free_blocks (ba_freeSpace A))" using total_mset [OF new] by simp
  moreover have "ba_isInit ?A = ba_isInit A" "ba_usedMemory ?A = ba_usedMemory A" "ba_freeMemory ?A = ba_freeMemory A + of_nat ?r"
    "ba_allMemory ?A = ba_allMemory A + of_nat (ba_sizeAdditionalPage A)"
    "ba_allocateData ?A = ba_allocateData A @ [ba_sizeAdditionalPage A]" "ba_data ?A = length (ba_allocateData A)"
    "ba_posInData ?A = 0" "ba_sizeData ?A = ba_sizeAdditionalPage A"
    unfolding new_page_def Let_def r by simp_all
  ultimately show "alloc_ok ?A live" using ok by (simp only: alloc_ok_def fs ba_remaining_def fst_conv) (simp add: nth_append ac_simps)
  show "ba_posInData (new_page A) = 0" "ba_sizeData (new_page A) = ba_sizeAdditionalPage A"
    by (simp_all add: new_page_def Let_def)
qed

lemma fresh_ok:
  assumes ok: "alloc_ok A live" and "ba_posInData A + sz \<le> ba_sizeData A"
  shows "alloc_ok (A\<lparr>ba_usedMemory := ba_usedMemory A + of_nat sz, ba_posInData := ba_posInData A + sz\<rparr>)
    (((ba_data A, ba_posInData A), sz) # live)"
proof -
  let ?A = "A\<lparr>ba_usedMemory := ba_usedMemory A + of_nat sz, ba_posInData := ba_posInData A + sz\<rparr>"
  let ?old = "live @ free_blocks (ba_freeSpace A)"
  have old: "blocks_ok A ?old" using ok by (simp add: alloc_ok_def)
  have "inside ?A b" if "b \<in> set ?old" for b using blocks_okD [OF old that] by (auto simp: inside_def split: if_splits)
  moreover have "apart ((ba_data A, ba_posInData A), sz) b" if "b \<in> set ?old" for b
    using blocks_okD [OF old that] by (auto simp: inside_def apart_def split: if_splits)
  moreover have "inside ?A ((ba_data A, ba_posInData A), sz)" using ok by (simp add: inside_def alloc_ok_def)
  ultimately have "blocks_ok ?A (((ba_data A, ba_posInData A), sz) # ?old)" using old by (simp add: blocks_ok_def)
  moreover have "(of_nat (ba_sizeData A - ba_posInData A) :: 64 word) = of_nat sz + of_nat (ba_sizeData A - (ba_posInData A + sz))"
  proof -
    have "ba_sizeData A - ba_posInData A = sz + (ba_sizeData A - (ba_posInData A + sz))" using assms(2) by simp
    then show ?thesis by (metis of_nat_add)
  qed
  ultimately show ?thesis using ok assms(2) by (simp add: alloc_ok_def ba_remaining_def ac_simps)
qed

lemma getArray_ok:
  assumes ok: "alloc_ok A live" and "sz < 2 ^ 32" "sz \<le> ba_sizeAdditionalPage A" and g: "getArray sz A = (a, A')"
  shows "alloc_ok A' ((a, sz) # live)"
proof -
  let ?fs = "ba_freeSpace A"
  show ?thesis
  proof (cases "sz < length ?fs \<and> (?fs ! sz \<noteq> [] \<or> sz < length ?fs div 2)")
    case True
    then have "trimmed ?fs" "blocks_ok A (live @ free_blocks ?fs)" "sz < length ?fs" "?fs ! sz \<noteq> [] \<or> sz < length ?fs div 2"
      using ok by (simp_all add: alloc_ok_def)
    note sp = split_spec [OF this(3,4,1)]
    let ?fs1 = "split_free sz ?fs" let ?fs2 = "trim_free (pop_free sz ?fs1)"
    have m: "mset (free_blocks ?fs1) = mset ((last (?fs1 ! sz), sz) # free_blocks ?fs2)"
      using blocks_pop [OF sp(1,2)] by simp
    have "blocks_ok A (live @ free_blocks ?fs1)" by (rule sp(4)) fact
    then have "blocks_ok A (((last (?fs1 ! sz), sz) # live) @ free_blocks ?fs2)"
      by (rule blocks_ok_mset) (simp add: m del: blocks_trim)
    moreover have "total (free_blocks ?fs) = of_nat sz + total (free_blocks ?fs2)"
      using total_mset [OF m] sp(3) by simp
    moreover have "a = last (?fs1 ! sz)" "A' = A\<lparr>ba_usedMemory := ba_usedMemory A + of_nat sz, ba_freeSpace := ?fs2,
        ba_freeMemory := ba_freeMemory A - of_nat sz\<rparr>"
      using g True by (simp_all add: getArray_def Let_def)
    ultimately show ?thesis
      using ok trimmed_trim [of "pop_free sz ?fs1"] blocks_ok_same [of A' A]
      by (simp add: alloc_ok_def ba_remaining_def algebra_simps del: blocks_trim)
  next
    case False
    show ?thesis
    proof (cases "ba_sizeData A < ba_posInData A + sz")
      case new: True
      have "ba_sizeData A - ba_posInData A < 2 ^ 32" using new assms(2) by simp
      note np = new_page_ok [OF ok this]
      have "A' = (new_page A)\<lparr>ba_usedMemory := ba_usedMemory (new_page A) + of_nat sz, ba_posInData := ba_posInData (new_page A) + sz\<rparr>"
        "a = (ba_data (new_page A), ba_posInData (new_page A))"
        using g False new by (auto simp: getArray_def new_page_def Let_def)
      then show ?thesis using fresh_ok [OF np(1), of sz] np(2,3) assms(3) by simp
    next
      case old: False
      have "A' = A\<lparr>ba_usedMemory := ba_usedMemory A + of_nat sz, ba_posInData := ba_posInData A + sz\<rparr>"
        "a = (ba_data A, ba_posInData A)"
        using g False old by (auto simp: getArray_def Let_def)
      then show ?thesis using fresh_ok [OF ok, of sz] old by simp
    qed
  qed
qed

lemma release_ok:
  assumes ok: "alloc_ok A ((m, sz) # live)"
  shows "alloc_ok (ba_releaseMemory m sz A) live"
proof -
  let ?fs = "ba_freeSpace A" let ?old = "live @ free_blocks ?fs"
  have old: "blocks_ok A ((m, sz) # ?old)" using ok by (simp add: alloc_ok_def)
  show ?thesis
  proof (cases "sz < ba_posInData A \<and> m = (ba_data A, ba_posInData A - sz)")
    case True
    let ?A = "A\<lparr>ba_usedMemory := ba_usedMemory A - of_nat sz, ba_posInData := ba_posInData A - sz\<rparr>"
    have "inside ?A b" if "b \<in> set ?old" for b
    proof -
      have "inside A b" "apart (m, sz) b" using old that blocks_okD [of A ?old b] by (simp_all add: blocks_ok_Cons)
      then show ?thesis using True by (cases "sz = 0") (auto simp: inside_def apart_def split: if_splits)
    qed
    then have "blocks_ok ?A ?old" using old by (simp add: blocks_ok_def)
    moreover have "(of_nat (ba_sizeData A - (ba_posInData A - sz)) :: 64 word) = of_nat sz + of_nat (ba_sizeData A - ba_posInData A)"
    proof -
      have "ba_sizeData A - (ba_posInData A - sz) = sz + (ba_sizeData A - ba_posInData A)" using True ok by (simp add: alloc_ok_def)
      then show ?thesis by (metis of_nat_add)
    qed
    moreover have "ba_posInData A - sz \<le> ba_sizeData A"
      by (rule le_trans [OF diff_le_self]) (use ok in \<open>simp add: alloc_ok_def\<close>)
    ultimately show ?thesis using ok True by (simp add: alloc_ok_def ba_remaining_def ba_releaseMemory_def Let_def algebra_simps)
  next
    case False
    let ?fs0 = "if length ?fs \<le> sz then grow_free (sz + 1) ?fs else ?fs" let ?fs1 = "push_free sz m ?fs0"
    have "mset (free_blocks ?fs1) = add_mset (m, sz) (mset (free_blocks ?fs0))"
      by (rule blocks_push) (simp add: grow_free_def)
    then have new: "mset (free_blocks ?fs1) = mset ((m, sz) # free_blocks ?fs)" by simp
    have "blocks_ok A (live @ free_blocks ?fs1)" by (rule blocks_ok_mset [OF old]) (simp add: new)
    moreover have "trimmed ?fs1" using ok by (intro trimmed_push) (simp add: alloc_ok_def)
    moreover have "ba_releaseMemory m sz A = A\<lparr>ba_usedMemory := ba_usedMemory A - of_nat sz, ba_freeSpace := ?fs1,
        ba_freeMemory := ba_freeMemory A + of_nat sz\<rparr>"
      using False by (auto simp: ba_releaseMemory_def Let_def)
    ultimately show ?thesis using ok total_mset [OF new] blocks_ok_same [of "ba_releaseMemory m sz A" A]
      by (simp add: alloc_ok_def ba_remaining_def algebra_simps)
  qed
qed

section \<open>Runs of the allocator\<close>

text \<open>A run asks for blocks that fit in a page and gives back blocks it has; \<open>live\<close> are the blocks in use.\<close>

inductive alloc_run :: "nat \<Rightarrow> nat \<Rightarrow> BucketAllocator \<Rightarrow> (addr \<times> nat) list \<Rightarrow> bool" for first additional where
  start: "alloc_run first additional (ba_init first additional ba_new) []"
| get: "alloc_run first additional A live \<Longrightarrow> sz < 2 ^ 32 \<Longrightarrow> sz \<le> additional \<Longrightarrow> getArray sz A = (a, A') \<Longrightarrow>
    alloc_run first additional A' ((a, sz) # live)"
| give_back: "alloc_run first additional A (us @ (m, sz) # vs) \<Longrightarrow> alloc_run first additional (ba_releaseMemory m sz A) (us @ vs)"
| noticed: "alloc_run first additional A live \<Longrightarrow> alloc_run first additional (ba_reinitConsumedMemory A) live"

lemma page_size:
  "getArray sz A = (a, A') \<Longrightarrow> ba_sizeAdditionalPage A' = ba_sizeAdditionalPage A"
  "ba_sizeAdditionalPage (ba_releaseMemory m sz A) = ba_sizeAdditionalPage A"
  by (auto simp: getArray_def new_page_def ba_releaseMemory_def Let_def split: if_splits)

lemma alloc_ok_reinit: "alloc_ok A live \<Longrightarrow> alloc_ok (ba_reinitConsumedMemory A) live"
proof -
  assume ok: "alloc_ok A live"
  have "blocks_ok A bs \<Longrightarrow> blocks_ok (ba_reinitConsumedMemory A) bs" for bs
    by (erule blocks_ok_same [rotated 3]) (simp_all add: ba_reinitConsumedMemory_def)
  then show ?thesis using ok by (simp add: alloc_ok_def ba_remaining_def) (simp add: ba_reinitConsumedMemory_def)
qed

lemma alloc_run_ok: "alloc_run first additional A live \<Longrightarrow> alloc_ok A live \<and> ba_sizeAdditionalPage A = additional"
proof (induction rule: alloc_run.induct)
  case start
  then show ?case using init_ok by (simp add: ba_init_def ba_new_def)
next
  case (get A live sz a A')
  then have "alloc_ok A' ((a, sz) # live)" by (intro getArray_ok [OF _ _ _ get.hyps(4)]) simp_all
  then show ?case using page_size(1) [OF get.hyps(4)] get.IH by simp
next
  case (give_back A us m sz vs)
  then have "alloc_ok A ((m, sz) # us @ vs)" using alloc_ok_mset [of A "us @ (m, sz) # vs" "(m, sz) # us @ vs"] by simp
  then show ?case using release_ok page_size(2) give_back by simp
next
  case (noticed A live)
  then show ?case using alloc_ok_reinit [of A live] by (simp add: ba_reinitConsumedMemory_def)
qed

text \<open>A request that is larger than an additional page gets a block that ends behind its page.\<close>

lemma oversized_request:
  "getArray 6 (ba_init 4 4 ba_new) = ((1, 0), snd (getArray 6 (ba_init 4 4 ba_new))) \<and>
    ba_allocateData (snd (getArray 6 (ba_init 4 4 ba_new))) = [4, 4]"
  by (simp add: getArray_def ba_init_def ba_new_def new_page_def Let_def)

section \<open>Properties\<close>



end
