(* ===== verification/D4_Bucket.thy ===== *)
theory D4_Bucket
  imports D4_Cnf_Dyn "HOL-Library.Word"
begin

unbundle bit_operations_syntax

text \<open>
  What the cache of d4 stores of a formula: the 64-bit header (\<open>caching/DataInfo\<close>), the hash function
  (\<open>hashing/HashString.hpp\<close>) and the index representation (\<open>bucket/cnf/BucketManagerCnf.hpp\<close>,
  \<open>BucketManagerCnfIndex.hpp\<close>): the variables of a component and the indices of its clauses, as bytes. Memory is little
  endian. The clause and the symmetry representation are not modelled.
\<close>

section \<open>The header\<close>

definition mkDataInfo :: "nat \<Rightarrow> nat \<Rightarrow> nat \<Rightarrow> nat \<Rightarrow> 64 word" where
  "mkDataInfo szData nbVar nbBitVar nbBitFormula =
     of_nat nbVar OR push_bit 21 (of_nat szData) OR push_bit 42 (of_nat nbBitVar) OR push_bit 47 (of_nat nbBitFormula)"

definition di_szData :: "64 word \<Rightarrow> nat" where
  "di_szData info1 = unat (drop_bit 21 info1 AND mask 21)"

definition di_nbVar :: "64 word \<Rightarrow> nat" where
  "di_nbVar info1 = unat (info1 AND mask 21)"

text \<open>The setter \<open>szData(sz)\<close>, without its assertion.\<close>

definition di_set_szData :: "nat \<Rightarrow> 64 word \<Rightarrow> 64 word" where
  "di_set_szData sz info1 = info1 AND (push_bit 21 (of_nat sz) OR NOT (push_bit 21 (mask 21)))"

definition di_reset :: "64 word \<Rightarrow> 64 word" where
  "di_reset info1 = 0"

section \<open>The hash function\<close>

definition fmix32 :: "32 word \<Rightarrow> 32 word" where
  "fmix32 h =
     (let h1 = (h XOR drop_bit 16 h) * 0x85ebca6b;
          h2 = (h1 XOR drop_bit 13 h1) * 0xc2b2ae35
      in h2 XOR drop_bit 16 h2)"

definition rotl32 :: "nat \<Rightarrow> 32 word \<Rightarrow> 32 word" where
  "rotl32 n k = push_bit n k OR drop_bit (32 - n) k"

definition mix_key :: "32 word \<Rightarrow> 32 word" where
  "mix_key k = rotl32 15 (k * 0xcc9e2d51) * 0x1b873593"

text \<open>The loop over the blocks of four bytes, and the tail that is left.\<close>

fun hash_body :: "8 word list \<Rightarrow> 32 word \<Rightarrow> 32 word \<times> 8 word list" where
  "hash_body (b0 # b1 # b2 # b3 # rest) h =
     (let k = ucast b0 OR push_bit 8 (ucast b1) OR push_bit 16 (ucast b2) OR push_bit 24 (ucast b3)
      in hash_body rest (rotl32 13 (h XOR mix_key k) * 5 + 0xe6546b64))"
| "hash_body rest h = (h, rest)"

definition hash_tail :: "8 word list \<Rightarrow> 32 word \<Rightarrow> 32 word" where
  "hash_tail t h =
     (case t of [] \<Rightarrow> h
      | [a] \<Rightarrow> h XOR mix_key (ucast a)
      | [a, b] \<Rightarrow> h XOR mix_key (push_bit 8 (ucast b) XOR ucast a)
      | a # b # c # _ \<Rightarrow> h XOR mix_key (push_bit 16 (ucast c) XOR push_bit 8 (ucast b) XOR ucast a))"

definition hash_bytes :: "8 word list \<Rightarrow> 32 word \<Rightarrow> 32 word" where
  "hash_bytes key seed =
     (case hash_body key seed of (h, t) \<Rightarrow> fmix32 (hash_tail t h XOR of_nat (length key)))"

fun le_bytes :: "nat \<Rightarrow> nat \<Rightarrow> 8 word list" where
  "le_bytes 0 v = []"
| "le_bytes (Suc w) v = of_nat v # le_bytes w (v div 256)"

definition hash :: "8 word list \<Rightarrow> 64 word \<Rightarrow> 32 word" where
  "hash key info =
     fmix32 (0x9e3779b9 * hash_bytes key 29111983 XOR 0xc6a4a793 * hash_bytes (le_bytes 8 (unat info)) 30011989)"

section \<open>The clauses of a component\<close>

definition getNbUnsat :: "'a CnfManager_scheme \<Rightarrow> nat \<Rightarrow> int" where
  "getNbUnsat M idx = ci_nbUnsat (cm_infoClauses M ! idx)"

definition isKeptClause :: "ModeStore \<Rightarrow> 'a CnfManagerDyn_scheme \<Rightarrow> nat \<Rightarrow> bool" where
  "isKeptClause mode M idx =
     (case mode of CACHE_NT \<Rightarrow> getNbUnsat M idx \<noteq> 0 | CACHE_NB \<Rightarrow> 2 < length (cm_clauses M ! idx) | CACHE_ALL \<Rightarrow> True)"

definition collectIdActiveClauses ::
  "ModeStore \<Rightarrow> int list \<Rightarrow> 'a CnfManagerDyn_scheme \<Rightarrow> nat list \<times> 'a CnfManagerDyn_scheme" where
  "collectIdActiveClauses mode component M =
     (case (if mode = CACHE_ALL then getCurrentClauses component M else getCurrentClausesNotBin component M) of
        (idxClauses, M') \<Rightarrow> (filter (isKeptClause mode M') idxClauses, M'))"

section \<open>The index representation\<close>

definition nbOctetToEncodeInt :: "nat \<Rightarrow> nat" where
  "nbOctetToEncodeInt v = (if v < 2 ^ 8 then 1 else if v < 2 ^ 16 then 2 else 4)"

definition storeData :: "nat \<Rightarrow> nat list \<Rightarrow> 8 word list" where
  "storeData width values = concat (map (le_bytes width) values)"

definition index_bytes :: "nat list \<Rightarrow> nat list \<Rightarrow> 8 word list \<times> 64 word" where
  "index_bytes component idxClauses =
     (let nbOVar = nbOctetToEncodeInt (last component + 1);
          nbOData = (if idxClauses \<noteq> [] then nbOctetToEncodeInt (last idxClauses + 1) else 1);
          szData = nbOVar * length component + nbOData * length idxClauses
      in (storeData nbOVar component @ storeData nbOData idxClauses,
          mkDataInfo szData (length component) nbOVar nbOData))"

definition index_bucket ::
  "ModeStore \<Rightarrow> int list \<Rightarrow> 'a CnfManagerDyn_scheme \<Rightarrow> (8 word list \<times> 64 word) \<times> 'a CnfManagerDyn_scheme" where
  "index_bucket mode component M =
     (case collectIdActiveClauses mode component M of (idxClauses, M') \<Rightarrow> (index_bytes (map nat component) idxClauses, M'))"

section \<open>Reading the header\<close>

lemma small_bits: "bit n k \<Longrightarrow> n < 2 ^ m \<Longrightarrow> k < m" for n :: nat
  by (metis bit_take_bit_iff take_bit_nat_eq_self)

lemma header_fields:
  assumes "nbVar < 2 ^ 21" "szData < 2 ^ 21" "nbBitVar < 2 ^ 5" "nbBitFormula < 2 ^ 5"
  defines "info \<equiv> mkDataInfo szData nbVar nbBitVar nbBitFormula"
  shows "info AND mask 21 = of_nat nbVar" "drop_bit 21 info AND mask 21 = of_nat szData"
    "drop_bit 42 info AND mask 5 = of_nat nbBitVar" "drop_bit 47 info AND mask 5 = of_nat nbBitFormula"
  unfolding info_def mkDataInfo_def
  by (rule bit_word_eqI; auto simp: bit_simps dest: small_bits [OF _ assms(1)] small_bits [OF _ assms(2)]
      small_bits [OF _ assms(3)] small_bits [OF _ assms(4)])+

lemma unat_small: "n < 2 ^ 64 \<Longrightarrow> unat (of_nat n :: 64 word) = n"
  by (simp add: unsigned_of_nat take_bit_nat_eq_self)

lemma of_nat_word_small: "(of_nat a :: 64 word) = of_nat b \<Longrightarrow> a < 2 ^ 64 \<Longrightarrow> b < 2 ^ 64 \<Longrightarrow> a = b"
  by (metis unat_small)

lemma header_inject:
  assumes "nbVar < 2 ^ 21" "szData < 2 ^ 21" "nbBitVar < 2 ^ 5" "nbBitFormula < 2 ^ 5"
    "nbVar' < 2 ^ 21" "szData' < 2 ^ 21" "nbBitVar' < 2 ^ 5" "nbBitFormula' < 2 ^ 5"
    "mkDataInfo szData nbVar nbBitVar nbBitFormula = mkDataInfo szData' nbVar' nbBitVar' nbBitFormula'"
  shows "nbVar = nbVar' \<and> szData = szData' \<and> nbBitVar = nbBitVar' \<and> nbBitFormula = nbBitFormula'"
  using header_fields [OF assms(1-4)] header_fields [OF assms(5-8)] assms
  by (intro conjI of_nat_word_small) simp_all

lemma header_reads:
  assumes "nbVar < 2 ^ 21" "szData < 2 ^ 21" "nbBitVar < 2 ^ 5" "nbBitFormula < 2 ^ 5"
  shows "di_nbVar (mkDataInfo szData nbVar nbBitVar nbBitFormula) = nbVar"
    "di_szData (mkDataInfo szData nbVar nbBitVar nbBitFormula) = szData"
  using assms by (simp_all add: di_nbVar_def di_szData_def header_fields unat_small)

lemma set_size_fields:
  assumes "sz < 2 ^ 21"
  shows "drop_bit 21 (di_set_szData sz info) AND mask 21 = (drop_bit 21 info AND mask 21) AND of_nat sz"
    "di_set_szData sz info AND mask 21 = info AND mask 21"
  unfolding di_set_szData_def
  by (rule bit_word_eqI; auto simp: bit_simps dest: small_bits [OF _ assms])+

section \<open>Reading the bytes\<close>

lemma length_le_bytes [simp]: "length (le_bytes w v) = w"
  by (induction w arbitrary: v) simp_all

lemma le_bytes_inject: "le_bytes w v = le_bytes w u \<Longrightarrow> v < 256 ^ w \<Longrightarrow> u < 256 ^ w \<Longrightarrow> v = u"
proof (induction w arbitrary: v u)
  case (Suc w)
  have "unat (of_nat v :: 8 word) = unat (of_nat u :: 8 word)" using Suc.prems(1) by simp
  then have "v mod 256 = u mod 256" by (simp add: unsigned_of_nat take_bit_eq_mod)
  moreover have "v div 256 = u div 256" using Suc.prems by (intro Suc.IH) (simp_all add: less_mult_imp_div_less mult.commute)
  ultimately show ?case by (metis div_mult_mod_eq)
qed simp

lemma length_storeData [simp]: "length (storeData w vs) = w * length vs"
  by (induction vs) (simp_all add: storeData_def)

lemma storeData_inject:
  "storeData w vs = storeData w us \<Longrightarrow> length vs = length us \<Longrightarrow> \<forall>v\<in>set vs \<union> set us. v < 256 ^ w \<Longrightarrow> vs = us"
proof (induction vs us rule: list_induct2')
  case (4 v vs u us)
  then have "le_bytes w v = le_bytes w u" "storeData w vs = storeData w us" by (simp_all add: storeData_def)
  then show ?case using 4 le_bytes_inject [of w v u] by simp
qed simp_all

lemma octets_fit: "v < 2 ^ 32 \<Longrightarrow> v < 256 ^ nbOctetToEncodeInt (v + 1)" "nbOctetToEncodeInt v \<in> {1, 2, 4}"
  by (auto simp: nbOctetToEncodeInt_def)

definition encodable :: "nat list \<Rightarrow> bool" where
  "encodable vs \<longleftrightarrow> sorted vs \<and> (\<forall>v\<in>set vs. v < 2 ^ 32)"

lemma encodable_fit: "encodable vs \<Longrightarrow> v \<in> set vs \<Longrightarrow> v < 256 ^ nbOctetToEncodeInt (last vs + 1)"
proof -
  assume e: "encodable vs" and v: "v \<in> set vs"
  then have "vs \<noteq> []" by auto
  then have "v \<le> last vs" using e v by (cases vs rule: rev_cases) (auto simp: encodable_def sorted_append)
  also have "last vs < 256 ^ nbOctetToEncodeInt (last vs + 1)"
    using e \<open>vs \<noteq> []\<close> by (intro octets_fit) (simp add: encodable_def)
  finally show ?thesis .
qed

text \<open>The assertions of the constructor of the header.\<close>

definition header_fits :: "nat list \<Rightarrow> nat list \<Rightarrow> bool" where
  "header_fits component idxClauses \<longleftrightarrow> length component < 2 ^ 21 \<and> length (fst (index_bytes component idxClauses)) < 2 ^ 21"

definition var_octets :: "nat list \<Rightarrow> nat" where
  "var_octets c = nbOctetToEncodeInt (last c + 1)"

definition clause_octets :: "nat list \<Rightarrow> nat" where
  "clause_octets i = (if i \<noteq> [] then nbOctetToEncodeInt (last i + 1) else 1)"

lemma index_bytes_eq:
  "index_bytes c i = (storeData (var_octets c) c @ storeData (clause_octets i) i,
     mkDataInfo (var_octets c * length c + clause_octets i * length i) (length c) (var_octets c) (clause_octets i))"
  by (simp add: index_bytes_def Let_def var_octets_def clause_octets_def)

lemma octets_small: "var_octets c < 2 ^ 5" "clause_octets i < 2 ^ 5" "0 < clause_octets i"
  using octets_fit(2) [of "last c + 1"] octets_fit(2) [of "last i + 1"] by (auto simp: var_octets_def clause_octets_def)

lemma index_size: "header_fits c i \<Longrightarrow> di_szData (snd (index_bytes c i)) = length (fst (index_bytes c i))"
  unfolding header_fits_def index_bytes_eq using octets_small by (simp add: header_reads)

section \<open>Properties\<close>

text \<open>Two components get the same header and the same bytes only if they have the same variables and the same clauses, as
  long as both lists are ascending and the assertions of the header hold.\<close>

theorem index_bytes_inject:
  assumes "encodable component" "encodable idxs" "encodable component'" "encodable idxs'"
    "header_fits component idxs" "header_fits component' idxs'" "index_bytes component idxs = index_bytes component' idxs'"
  shows "component = component' \<and> idxs = idxs'"
proof -
  let ?w = var_octets and ?d = clause_octets
  have sz: "length component < 2 ^ 21" "?w component * length component + ?d idxs * length idxs < 2 ^ 21"
      "length component' < 2 ^ 21" "?w component' * length component' + ?d idxs' * length idxs' < 2 ^ 21"
    using assms(5,6) by (simp_all add: header_fits_def index_bytes_eq)
  have "mkDataInfo (?w component * length component + ?d idxs * length idxs) (length component) (?w component) (?d idxs) =
      mkDataInfo (?w component' * length component' + ?d idxs' * length idxs') (length component') (?w component') (?d idxs')"
    using assms(7) by (simp add: index_bytes_eq)
  from header_inject [OF sz(1,2) octets_small(1,2) sz(3,4) octets_small(1,2) this]
  have eq: "length component = length component'" "?w component = ?w component'" "?d idxs = ?d idxs'" "length idxs = length idxs'"
    using octets_small(3) [of idxs'] by auto
  have "storeData (?w component) component @ storeData (?d idxs) idxs = storeData (?w component) component' @ storeData (?d idxs) idxs'"
    using assms(7) eq(2,3) by (simp add: index_bytes_eq)
  then have "storeData (?w component) component = storeData (?w component) component'"
      "storeData (?d idxs) idxs = storeData (?d idxs) idxs'"
    using eq by simp_all
  moreover have "\<forall>v\<in>set component \<union> set component'. v < 256 ^ ?w component"
    using encodable_fit [OF assms(1)] encodable_fit [OF assms(3)] eq(2) unfolding var_octets_def by auto
  moreover have "\<forall>v\<in>set idxs \<union> set idxs'. v < 256 ^ ?d idxs"
  proof (cases "idxs = []")
    case True
    then show ?thesis using eq(4) by simp
  next
    case False
    then show ?thesis using encodable_fit [OF assms(2)] encodable_fit [OF assms(4)] eq(3,4) unfolding clause_octets_def by auto
  qed
  ultimately show ?thesis using storeData_inject eq by blast
qed

lemma index_bytes_inject_witness: "index_bytes [1, 300] [2, 7] \<noteq> index_bytes [1, 44] [2, 7]"
proof
  assume eq: "index_bytes [1, 300] [2, 7] = index_bytes [1, 44] [2, 7]"
  have "header_fits [1, 300] [2, 7]" "header_fits [1, 44] [2, 7]"
    by (simp_all add: header_fits_def index_bytes_def Let_def nbOctetToEncodeInt_def)
  from index_bytes_inject [OF _ _ _ _ this eq] show False by (simp add: encodable_def)
qed

text \<open>The fields of a header read back as they were given; the setter of the size only clears bits, so that it sets no
  size but what was there before allows.\<close>

theorem header_read_back:
  assumes "nbVar < 2 ^ 21" "szData < 2 ^ 21" "nbBitVar < 2 ^ 5" "nbBitFormula < 2 ^ 5" "sz < 2 ^ 21"
  shows "di_nbVar (mkDataInfo szData nbVar nbBitVar nbBitFormula) = nbVar \<and>
    di_szData (mkDataInfo szData nbVar nbBitVar nbBitFormula) = szData \<and>
    di_szData (di_set_szData sz (mkDataInfo szData nbVar nbBitVar nbBitFormula)) = (szData AND sz) \<and>
    di_nbVar (di_set_szData sz (mkDataInfo szData nbVar nbBitVar nbBitFormula)) = nbVar"
proof -
  let ?info = "mkDataInfo szData nbVar nbBitVar nbBitFormula"
  have "di_szData (di_set_szData sz ?info) = unat ((of_nat szData :: 64 word) AND of_nat sz)"
    by (simp add: di_szData_def set_size_fields [OF assms(5)] header_fields [OF assms(1-4)])
  then have "di_szData (di_set_szData sz ?info) = (szData AND sz)"
    using assms by (simp add: unsigned_and_eq unat_small)
  moreover have "di_nbVar (di_set_szData sz ?info) = di_nbVar ?info" by (simp add: di_nbVar_def set_size_fields [OF assms(5)])
  ultimately show ?thesis using header_reads [OF assms(1-4)] by simp
qed

lemma header_read_back_witness: "di_szData (di_set_szData 9 (mkDataInfo 5 3 1 1)) = 1"
proof -
  have "di_szData (di_set_szData 9 (mkDataInfo 5 3 1 1)) = (5 AND 9)" using header_read_back [of 3 5 1 1 9] by simp
  also have "(5 AND 9 :: nat) = 1" by code_simp
  finally show ?thesis .
qed

end
