(* ===== verification/D4_Cache.thy ===== *)
theory D4_Cache
  imports D4_Allocator D4_Bucket Binary64
begin

text \<open>
  The cache of d4 (\<open>caching/\<close>): \<open>CachedBucket\<close>, \<open>TmpEntry\<close>, \<open>CacheManager\<close> with its two tables \<open>CacheList\<close> and
  \<open>CacheNoCollision\<close>, and the two cleaning strategies. The bytes of all pages are a function from addresses. The virtual
  functions of the table are arguments of the functions that call them; the type of the table is a parameter of the
  record. The type \<open>'v\<close> of the cached values has a default \<open>fc0\<close>. The bucket manager is the one of the index
  representation. Printed messages are left out. Operations of \<open>CacheList\<close> end in \<open>_list\<close>, those of
  \<open>CacheNoCollision\<close> in \<open>_slot\<close>.
\<close>

section \<open>Buckets\<close>

record 'v CachedBucket =
  cb_data :: "addr option"
  cb_header :: "64 word"
  cb_fc :: 'v

definition mkCachedBucket :: "'v \<Rightarrow> 'v CachedBucket" where
  "mkCachedBucket fc0 = \<lparr>cb_data = None, cb_header = di_set_szData 0 0, cb_fc = fc0\<rparr>"

definition cb_set :: "addr \<Rightarrow> 64 word \<Rightarrow> 'v CachedBucket \<Rightarrow> 'v CachedBucket" where
  "cb_set d dnew cb = cb\<lparr>cb_data := Some d, cb_header := dnew\<rparr>"

definition cb_lockedBucket :: "'v \<Rightarrow> 'v CachedBucket \<Rightarrow> 'v CachedBucket" where
  "cb_lockedBucket v cb = cb\<lparr>cb_fc := v\<rparr>"

definition cb_szData :: "'v CachedBucket \<Rightarrow> nat" where
  "cb_szData cb = di_szData (cb_header cb)"

definition cb_nbVar :: "'v CachedBucket \<Rightarrow> nat" where
  "cb_nbVar cb = di_nbVar (cb_header cb)"

definition cb_reset :: "'v CachedBucket \<Rightarrow> 'v CachedBucket" where
  "cb_reset cb = cb\<lparr>cb_header := di_reset (cb_header cb)\<rparr>"

definition sameHeader :: "'v CachedBucket \<Rightarrow> 'v CachedBucket \<Rightarrow> bool" where
  "sameHeader cb b \<longleftrightarrow> cb_header cb = cb_header b"

record 'v TmpEntry =
  te_e :: "'v CachedBucket"
  te_hashValue :: "32 word"
  te_defined :: bool

type_synonym memory = "addr \<Rightarrow> 8 word"

definition read_bytes :: "memory \<Rightarrow> addr \<Rightarrow> nat \<Rightarrow> 8 word list" where
  "read_bytes mem a n = map (\<lambda>i. mem (fst a, snd a + i)) [0..<n]"

definition write_bytes :: "addr \<Rightarrow> 8 word list \<Rightarrow> memory \<Rightarrow> memory" where
  "write_bytes a bs mem =
     (\<lambda>b. if fst b = fst a \<and> snd a \<le> snd b \<and> snd b < snd a + length bs then bs ! (snd b - snd a) else mem b)"

section \<open>The manager\<close>

datatype CacheCleaningStrategy = CACHE_EXPECTATION | CACHE_NONE

record StatVarSizeCache =
  sv_negative :: "64 word"
  sv_positive :: "64 word"
  sv_number :: "64 word"

record CacheCleaning =
  cc_strategy :: CacheCleaningStrategy
  cc_nbReduceCall :: "32 word"
  cc_nbRemoveEntry :: "64 word"
  cc_nbPositiveHit :: "64 word"
  cc_nbNegativeHit :: "64 word"
  cc_nbVar :: nat
  cc_threshold :: double
  cc_statVar :: "StatVarSizeCache list"

record ('v, 't) CacheManager =
  ca_nbEntry :: "64 word"
  ca_nbPositiveHit :: "64 word"
  ca_nbNegativeHit :: "64 word"
  ca_minAffectedHitCache :: nat
  ca_nbInitVar :: nat
  ca_nbCreationBucket :: "64 word"
  ca_sumDataSize :: "64 word"
  ca_limitVarCached :: nat
  ca_modeStore :: ModeStore
  ca_bucketAllocator :: BucketAllocator
  ca_bucket :: "'v CachedBucket"
  ca_memory :: memory
  ca_cleaning :: CacheCleaning
  ca_hashTable :: 't

definition INC_THRESHOD :: double where
  "INC_THRESHOD = ddiv done1 (dbl_of_int 10)"

definition INIT_THRESHOLD :: double where
  "INIT_THRESHOLD = dzero"

definition mkCacheCleaning :: "CacheCleaningStrategy \<Rightarrow> nat \<Rightarrow> CacheCleaning" where
  "mkCacheCleaning strategy nbVar =
     \<lparr>cc_strategy = strategy, cc_nbReduceCall = 0, cc_nbRemoveEntry = 0, cc_nbPositiveHit = 0, cc_nbNegativeHit = 0,
      cc_nbVar = nbVar, cc_threshold = INIT_THRESHOLD,
      cc_statVar = replicate (nbVar + 1) \<lparr>sv_negative = 0, sv_positive = 0, sv_number = 0\<rparr>\<rparr>"

definition MAX_NBVAR_CACHED :: nat where
  "MAX_NBVAR_CACHED = 100000"

definition MIN_NBVAR_NOTCACHED :: nat where
  "MIN_NBVAR_NOTCACHED = 100"

text \<open>The constructors, with \<open>initHashTable\<close> of the derived class and the empty \<open>table\<close> it makes. The bucket manager
  is new, so that the allocator takes its first page.\<close>

definition mkCacheManager ::
  "'t \<Rightarrow> 'v \<Rightarrow> CacheCleaningStrategy \<Rightarrow> ModeStore \<Rightarrow> nat \<Rightarrow> nat \<Rightarrow> nat \<Rightarrow> memory \<Rightarrow> ('v, 't) CacheManager" where
  "mkCacheManager table fc0 strategy mode sizeFirstPage sizeAdditionalPage nbVar mem =
     \<lparr>ca_nbEntry = 0, ca_nbPositiveHit = 0, ca_nbNegativeHit = 0, ca_minAffectedHitCache = nbVar, ca_nbInitVar = nbVar,
      ca_nbCreationBucket = 0, ca_sumDataSize = 0,
      ca_limitVarCached = (if nbVar < MAX_NBVAR_CACHED then nbVar else MAX_NBVAR_CACHED),
      ca_modeStore = mode, ca_bucketAllocator = ba_init sizeFirstPage sizeAdditionalPage ba_new,
      ca_bucket = mkCachedBucket fc0, ca_memory = mem, ca_cleaning = mkCacheCleaning strategy nbVar, ca_hashTable = table\<rparr>"

definition ca_isActivated :: "nat \<Rightarrow> ('v, 't) CacheManager \<Rightarrow> bool" where
  "ca_isActivated nbVar S \<longleftrightarrow> nbVar \<le> ca_limitVarCached S"

definition setLimitVarCache :: "nat \<Rightarrow> ('v, 't) CacheManager \<Rightarrow> ('v, 't) CacheManager" where
  "setLimitVarCache val S = S\<lparr>ca_limitVarCached := (if val \<le> ca_nbInitVar S then val else ca_nbInitVar S)\<rparr>"

definition setInfoFormula :: "nat \<Rightarrow> ('v, 't) CacheManager \<Rightarrow> ('v, 't) CacheManager" where
  "setInfoFormula mVar S = S\<lparr>ca_minAffectedHitCache := mVar, ca_nbInitVar := mVar\<rparr>"

definition decrementNbEntry :: "('v, 't) CacheManager \<Rightarrow> ('v, 't) CacheManager" where
  "decrementNbEntry S = S\<lparr>ca_nbEntry := ca_nbEntry S - 1\<rparr>"

definition ca_release :: "'v CachedBucket \<Rightarrow> ('v, 't) CacheManager \<Rightarrow> ('v, 't) CacheManager" where
  "ca_release cb S = S\<lparr>ca_bucketAllocator := ba_releaseMemory (the (cb_data cb)) (cb_szData cb) (ca_bucketAllocator S)\<rparr>"

definition bytes_of :: "('v, 't) CacheManager \<Rightarrow> 'v CachedBucket \<Rightarrow> 8 word list" where
  "bytes_of S cb = read_bytes (ca_memory S) (the (cb_data cb)) (cb_szData cb)"

definition computeHash :: "('v, 't) CacheManager \<Rightarrow> 'v CachedBucket \<Rightarrow> 32 word" where
  "computeHash S cb = hash (bytes_of S cb) (cb_header cb)"

text \<open>\<open>memcmp\<close> of the bytes of two buckets, over the length of the second.\<close>

definition same_bytes :: "('v, 't) CacheManager \<Rightarrow> 'v CachedBucket \<Rightarrow> 'v CachedBucket \<Rightarrow> bool" where
  "same_bytes S cb cbi \<longleftrightarrow> read_bytes (ca_memory S) (the (cb_data cb)) (cb_szData cbi) = bytes_of S cbi"

section \<open>Cleaning\<close>

definition upd_stat :: "nat \<Rightarrow> (StatVarSizeCache \<Rightarrow> StatVarSizeCache) \<Rightarrow> StatVarSizeCache list \<Rightarrow> StatVarSizeCache list" where
  "upd_stat i f st = st[i := f (st ! i)]"

definition initCountCachedBucket :: "'v CachedBucket \<Rightarrow> ('v, 't) CacheManager \<Rightarrow> ('v, 't) CacheManager" where
  "initCountCachedBucket cb S =
     (let C = ca_cleaning S
      in if cc_strategy C = CACHE_NONE then S
         else S\<lparr>ca_cleaning := C\<lparr>cc_statVar := upd_stat (cb_nbVar cb) (\<lambda>s. s\<lparr>sv_number := sv_number s + 1\<rparr>) (cc_statVar C)\<rparr>\<rparr>)"

definition updateCountCachedBucket ::
  "'v CachedBucket option \<Rightarrow> nat \<Rightarrow> ('v, 't) CacheManager \<Rightarrow> ('v, 't) CacheManager" where
  "updateCountCachedBucket cb nbVar S =
     (let C = ca_cleaning S
      in if cc_strategy C = CACHE_NONE then S
         else S\<lparr>ca_cleaning :=
           (case cb of
              Some _ \<Rightarrow> C\<lparr>cc_statVar := upd_stat nbVar (\<lambda>s. s\<lparr>sv_positive := sv_positive s + 1\<rparr>) (cc_statVar C),
                         cc_nbPositiveHit := cc_nbPositiveHit C + 1\<rparr>
            | None \<Rightarrow> C\<lparr>cc_statVar := upd_stat nbVar (\<lambda>s. s\<lparr>sv_negative := sv_negative s + 1\<rparr>) (cc_statVar C),
                       cc_nbNegativeHit := cc_nbNegativeHit C + 1\<rparr>)\<rparr>)"

definition stat_ratio :: "StatVarSizeCache \<Rightarrow> double" where
  "stat_ratio s =
     (if sv_negative s \<noteq> 0 then ddiv (dbl_of_int (uint (sv_positive s))) (dbl_of_int (uint (sv_negative s))) else dzero)"

definition stat_aging :: "StatVarSizeCache \<Rightarrow> StatVarSizeCache" where
  "stat_aging s =
     (if sv_negative s \<noteq> 0 then s\<lparr>sv_negative := drop_bit 1 (sv_negative s), sv_positive := drop_bit 1 (sv_positive s)\<rparr> else s)"

text \<open>The loop with \<open>i = limit\<close>, downwards; after \<open>0\<close> both wrap around and the loop ends.\<close>

fun reduce_loop :: "double \<Rightarrow> nat \<Rightarrow> StatVarSizeCache list \<Rightarrow> StatVarSizeCache list \<times> nat" where
  "reduce_loop threshold i st =
     (let st' = upd_stat i stat_aging st
      in if dless threshold (stat_ratio (st ! i)) then (st', i)
         else case i of 0 \<Rightarrow> (st', 2 ^ 32 - 1) | Suc k \<Rightarrow> reduce_loop threshold k st')"

declare reduce_loop.simps [simp del]

definition stat_limit :: "double \<Rightarrow> nat \<Rightarrow> StatVarSizeCache list \<Rightarrow> StatVarSizeCache list \<times> nat" where
  "stat_limit threshold limit st = (if limit < length st then reduce_loop threshold limit st else (st, limit))"

text \<open>\<open>limit *= 1.1\<close> on \<open>unsigned\<close>; \<open>None\<close> when the product does not fit, which is undefined.\<close>

definition grow_limit :: "nat \<Rightarrow> nat option" where
  "grow_limit limit =
     (let d = dbl_to_unsigned (dmul (dbl_of_int (int limit)) (ddiv (dbl_of_int 11) (dbl_of_int 10)))
      in if d < 2 ^ 32 then Some d else None)"

definition reduceCache ::
  "(('v CachedBucket \<Rightarrow> bool) \<Rightarrow> ('v, 't) CacheManager \<Rightarrow> ('v, 't) CacheManager \<times> 32 word) \<Rightarrow> ('v, 't) CacheManager \<Rightarrow>
     ('v, 't) CacheManager option" where
  "reduceCache removeEntry S =
     (let C = ca_cleaning S
      in if cc_strategy C = CACHE_NONE \<or> MIN_NBVAR_NOTCACHED = 0 then Some S
         else case stat_limit (cc_threshold C) (ca_limitVarCached S) (cc_statVar C) of (st, limit0) \<Rightarrow>
           (case grow_limit limit0 of None \<Rightarrow> None
            | Some limit \<Rightarrow>
                let S1 = setLimitVarCache limit
                      (S\<lparr>ca_cleaning := C\<lparr>cc_nbReduceCall := cc_nbReduceCall C + 1, cc_statVar := st,
                                          cc_threshold := dadd (cc_threshold C) INC_THRESHOD\<rparr>\<rparr>)
                in case removeEntry (\<lambda>c. cb_nbVar c \<noteq> 0 \<and> limit \<le> cb_nbVar c) S1 of (S2, nbRemoveEntry) \<Rightarrow>
                     Some (S2\<lparr>ca_cleaning := (ca_cleaning S2)\<lparr>cc_nbRemoveEntry :=
                       cc_nbRemoveEntry (ca_cleaning S2) + ucast nbRemoveEntry\<rparr>\<rparr>)))"

section \<open>Looking up and adding\<close>

definition storeFormula ::
  "int list \<Rightarrow> 'a CnfManagerDyn_scheme \<Rightarrow> ('v, 't) CacheManager \<Rightarrow> ('v, 't) CacheManager \<times> 'a CnfManagerDyn_scheme" where
  "storeFormula component M S =
     (case index_bucket (ca_modeStore S) component M of ((bytes, info), M') \<Rightarrow>
        case getArray (length bytes) (ca_bucketAllocator S) of (data, A') \<Rightarrow>
          (S\<lparr>ca_bucketAllocator := A', ca_memory := write_bytes data bytes (ca_memory S),
             ca_bucket := cb_set data info (ca_bucket S)\<rparr>, M'))"

definition notice_pages ::
  "(('v CachedBucket \<Rightarrow> bool) \<Rightarrow> ('v, 't) CacheManager \<Rightarrow> ('v, 't) CacheManager \<times> 32 word) \<Rightarrow> ('v, 't) CacheManager \<Rightarrow>
     ('v, 't) CacheManager option" where
  "notice_pages removeEntry S =
     (if ba_consumedMemory (ca_bucketAllocator S)
      then map_option (\<lambda>S. S\<lparr>ca_bucketAllocator := ba_reinitConsumedMemory (ca_bucketAllocator S)\<rparr>) (reduceCache removeEntry S)
      else Some S)"

definition searchInCache ::
  "('v CachedBucket \<Rightarrow> 32 word \<Rightarrow> ('v, 't) CacheManager \<Rightarrow> 'v CachedBucket option \<times> ('v, 't) CacheManager) \<Rightarrow>
   (('v CachedBucket \<Rightarrow> bool) \<Rightarrow> ('v, 't) CacheManager \<Rightarrow> ('v, 't) CacheManager \<times> 32 word) \<Rightarrow> int list \<Rightarrow>
   'a CnfManagerDyn_scheme \<Rightarrow> ('v, 't) CacheManager \<Rightarrow>
   ('v TmpEntry \<times> ('v, 't) CacheManager \<times> 'a CnfManagerDyn_scheme) option" where
  "searchInCache bucketAlreadyExist removeEntry varConnected M S =
     (case notice_pages removeEntry S of None \<Rightarrow> None
      | Some S0 \<Rightarrow>
          case storeFormula varConnected M S0 of (S1, M') \<Rightarrow>
          let formulaBucket = ca_bucket S1; hashValue = computeHash S1 formulaBucket
          in case bucketAlreadyExist formulaBucket hashValue S1 of (cacheBucket, S2) \<Rightarrow>
             let S3 = updateCountCachedBucket cacheBucket (length varConnected) S2
             in case cacheBucket of
                  None \<Rightarrow> Some (\<lparr>te_e = formulaBucket, te_hashValue = hashValue, te_defined = False\<rparr>, S3, M')
                | Some c \<Rightarrow> Some (\<lparr>te_e = c, te_hashValue = hashValue, te_defined = True\<rparr>, ca_release formulaBucket S3, M'))"

definition addInCache ::
  "('v CachedBucket \<Rightarrow> 32 word \<Rightarrow> 'v \<Rightarrow> ('v, 't) CacheManager \<Rightarrow> ('v, 't) CacheManager) \<Rightarrow> 'v TmpEntry \<Rightarrow> 'v \<Rightarrow>
   ('v, 't) CacheManager \<Rightarrow> ('v, 't) CacheManager" where
  "addInCache pushInHashTable cb val S = pushInHashTable (te_e cb) (te_hashValue cb) val S"

text \<open>The statistics of \<open>pushInHashTable\<close>, the same in both tables.\<close>

definition count_creation :: "'v CachedBucket \<Rightarrow> ('v, 't) CacheManager \<Rightarrow> ('v, 't) CacheManager" where
  "count_creation cb S =
     S\<lparr>ca_nbCreationBucket := ca_nbCreationBucket S + 1, ca_sumDataSize := ca_sumDataSize S + of_nat (cb_szData cb),
       ca_nbEntry := ca_nbEntry S + 1\<rparr>"

definition count_hit :: "'v CachedBucket option \<Rightarrow> ('v, 't) CacheManager \<Rightarrow> 'v CachedBucket option \<times> ('v, 't) CacheManager" where
  "count_hit r S =
     (r, if r = None then S\<lparr>ca_nbNegativeHit := ca_nbNegativeHit S + 1\<rparr> else S\<lparr>ca_nbPositiveHit := ca_nbPositiveHit S + 1\<rparr>)"

section \<open>\<open>CacheList\<close>\<close>

type_synonym 'v CacheList = "('v, 'v CachedBucket list list) CacheManager"

definition SIZE_HASH_list :: nat where
  "SIZE_HASH_list = 2000083"

definition empty_list :: "'v CachedBucket list list" where
  "empty_list = replicate SIZE_HASH_list []"

definition pushInHashTable_list :: "'v CachedBucket \<Rightarrow> 32 word \<Rightarrow> 'v \<Rightarrow> 'v CacheList \<Rightarrow> 'v CacheList" where
  "pushInHashTable_list cb hashValue val S =
     (let i = unat hashValue mod SIZE_HASH_list; cbIn = cb_lockedBucket val cb
      in count_creation cb (initCountCachedBucket cbIn
           (S\<lparr>ca_hashTable := (ca_hashTable S)[i := ca_hashTable S ! i @ [cbIn]]\<rparr>)))"

definition bucketAlreadyExist_list ::
  "'v CachedBucket \<Rightarrow> 32 word \<Rightarrow> 'v CacheList \<Rightarrow> 'v CachedBucket option \<times> 'v CacheList" where
  "bucketAlreadyExist_list cb hashValue S =
     count_hit (find (\<lambda>cbi. sameHeader cb cbi \<and> same_bytes S cb cbi) (ca_hashTable S ! (unat hashValue mod SIZE_HASH_list))) S"

definition initHashTable_list :: "nat \<Rightarrow> 'v CacheList \<Rightarrow> 'v CacheList" where
  "initHashTable_list maxVar S = (setInfoFormula maxVar S)\<lparr>ca_hashTable := empty_list\<rparr>"

text \<open>One list: the entries that stay, the others given back in order.\<close>

fun remove_in ::
  "('v CachedBucket \<Rightarrow> bool) \<Rightarrow> 'v CachedBucket list \<Rightarrow> BucketAllocator \<Rightarrow> 'v CachedBucket list \<times> BucketAllocator \<times> 32 word" where
  "remove_in test [] A = ([], A, 0)"
| "remove_in test (cb # l) A =
     (if test cb
      then case remove_in test l (ba_releaseMemory (the (cb_data cb)) (cb_szData cb) A) of (l', A', n) \<Rightarrow> (l', A', n + 1)
      else case remove_in test l A of (l', A', n) \<Rightarrow> (cb # l', A', n))"

fun remove_lists ::
  "('v CachedBucket \<Rightarrow> bool) \<Rightarrow> 'v CachedBucket list list \<Rightarrow> BucketAllocator \<Rightarrow>
     'v CachedBucket list list \<times> BucketAllocator \<times> 32 word" where
  "remove_lists test [] A = ([], A, 0)"
| "remove_lists test (l # ls) A =
     (case remove_in test l A of (l', A1, n) \<Rightarrow>
      case remove_lists test ls A1 of (ls', A2, m) \<Rightarrow> (l' # ls', A2, n + m))"

definition removeEntry_list :: "('v CachedBucket \<Rightarrow> bool) \<Rightarrow> 'v CacheList \<Rightarrow> 'v CacheList \<times> 32 word" where
  "removeEntry_list test S =
     (case remove_lists test (ca_hashTable S) (ca_bucketAllocator S) of (ls, A, n) \<Rightarrow>
        (S\<lparr>ca_hashTable := ls, ca_bucketAllocator := A\<rparr>, n))"

section \<open>\<open>CacheNoCollision\<close>\<close>

type_synonym 'v CacheNoCollision = "('v, 'v CachedBucket list) CacheManager"

definition SIZE_HASH_slot :: nat where
  "SIZE_HASH_slot = 22041997"

definition empty_slots :: "'v \<Rightarrow> 'v CachedBucket list" where
  "empty_slots fc0 = replicate SIZE_HASH_slot (mkCachedBucket fc0)"

definition pushInHashTable_slot :: "'v CachedBucket \<Rightarrow> 32 word \<Rightarrow> 'v \<Rightarrow> 'v CacheNoCollision \<Rightarrow> 'v CacheNoCollision" where
  "pushInHashTable_slot cb hashValue val S =
     (let i = unat hashValue mod SIZE_HASH_slot; cbi = ca_hashTable S ! i;
          S1 = (if cb_nbVar cbi \<noteq> 0 then ca_release cbi S else S);
          cbIn = cb_lockedBucket val cb
      in count_creation cb (initCountCachedBucket cbIn (S1\<lparr>ca_hashTable := (ca_hashTable S1)[i := cbIn]\<rparr>)))"

definition bucketAlreadyExist_slot ::
  "'v CachedBucket \<Rightarrow> 32 word \<Rightarrow> 'v CacheNoCollision \<Rightarrow> 'v CachedBucket option \<times> 'v CacheNoCollision" where
  "bucketAlreadyExist_slot cb hashValue S =
     (let cbi = ca_hashTable S ! (unat hashValue mod SIZE_HASH_slot)
      in count_hit (if cb_nbVar cbi \<noteq> 0 \<and> sameHeader cb cbi \<and> same_bytes S cb cbi then Some cbi else None) S)"

definition initHashTable_slot :: "'v \<Rightarrow> nat \<Rightarrow> 'v CacheNoCollision \<Rightarrow> 'v CacheNoCollision" where
  "initHashTable_slot fc0 maxVar S = (setInfoFormula maxVar S)\<lparr>ca_hashTable := empty_slots fc0\<rparr>"

fun remove_slots ::
  "('v CachedBucket \<Rightarrow> bool) \<Rightarrow> 'v CachedBucket list \<Rightarrow> BucketAllocator \<Rightarrow> 'v CachedBucket list \<times> BucketAllocator \<times> 32 word" where
  "remove_slots test [] A = ([], A, 0)"
| "remove_slots test (cb # l) A =
     (if test cb
      then case remove_slots test l (ba_releaseMemory (the (cb_data cb)) (cb_szData cb) A) of
             (l', A', n) \<Rightarrow> (cb_reset cb # l', A', n + 1)
      else case remove_slots test l A of (l', A', n) \<Rightarrow> (cb # l', A', n))"

definition removeEntry_slot :: "('v CachedBucket \<Rightarrow> bool) \<Rightarrow> 'v CacheNoCollision \<Rightarrow> 'v CacheNoCollision \<times> 32 word" where
  "removeEntry_slot test S =
     (case remove_slots test (ca_hashTable S) (ca_bucketAllocator S) of (l, A, n) \<Rightarrow>
        (S\<lparr>ca_hashTable := l, ca_bucketAllocator := A\<rparr>, n))"

end
