(* ===== verification/D4_Cache_Runs.thy ===== *)
theory D4_Cache_Runs
  imports D4_Cache
begin

text \<open>
  What the cache promises: an answer is a value that was stored for the same component. A key is a component and the
  formula manager it was looked up with. \<open>cache_run\<close> are the sequences of calls a search makes: lookups, each miss
  followed at some time by the storing of a value or the release of the bucket. The locale \<open>cache_table\<close> is the contract
  of the two tables.
\<close>

section \<open>Memory\<close>

lemma length_read [simp]: "length (read_bytes mem a n) = n"
  by (simp add: read_bytes_def)

lemma read_written: "read_bytes (write_bytes a bs mem) a (length bs) = bs"
  by (rule nth_equalityI) (simp_all add: read_bytes_def write_bytes_def)

lemma read_apart: "apart (a, length bs) (b, n) \<Longrightarrow> read_bytes (write_bytes a bs mem) b n = read_bytes mem b n"
  by (rule nth_equalityI) (auto simp: read_bytes_def write_bytes_def apart_def)

definition block_of :: "'v CachedBucket \<Rightarrow> addr \<times> nat" where
  "block_of cb = (the (cb_data cb), cb_szData cb)"

definition give_back :: "'v CachedBucket list \<Rightarrow> BucketAllocator \<Rightarrow> BucketAllocator" where
  "give_back gone A = fold (\<lambda>cb. ba_releaseMemory (the (cb_data cb)) (cb_szData cb)) gone A"

lemma give_back_simps [simp]: "give_back [] A = A"
  "give_back (cb # gone) A = give_back gone (ba_releaseMemory (the (cb_data cb)) (cb_szData cb) A)"
  "give_back (gone @ others) A = give_back others (give_back gone A)"
  by (simp_all add: give_back_def)

lemma give_back_ok: "alloc_ok A (map block_of gone @ live) \<Longrightarrow> alloc_ok (give_back gone A) live"
  by (induction gone arbitrary: A) (auto simp: block_of_def dest: release_ok)

lemma give_back_page: "ba_sizeAdditionalPage (give_back gone A) = ba_sizeAdditionalPage A"
  by (induction gone arbitrary: A) (simp_all add: page_size(2))

section \<open>The contract of the tables\<close>

text \<open>\<open>new\<close> and what is left of the old entries are the entries now; the blocks of the others were given back.\<close>

definition table_step ::
  "'v CachedBucket list \<Rightarrow> 'v CachedBucket list \<Rightarrow> 'v CachedBucket list \<Rightarrow> BucketAllocator \<Rightarrow> BucketAllocator \<Rightarrow> bool" where
  "table_step old new now A A' \<longleftrightarrow>
     (\<exists>gone kept. mset old = mset (gone @ kept) \<and> mset now = mset (new @ kept) \<and> A' = give_back gone A)"

lemma table_step_refl: "table_step old new (new @ old) A A"
  unfolding table_step_def by (rule exI [of _ "[]"], rule exI [of _ old]) simp

definition same_rest :: "('v, 't) CacheManager \<Rightarrow> ('v, 't) CacheManager \<Rightarrow> bool" where
  "same_rest S S' \<longleftrightarrow> ca_memory S' = ca_memory S \<and> ca_modeStore S' = ca_modeStore S"

definition same_core :: "('v, 't) CacheManager \<Rightarrow> ('v, 't) CacheManager \<Rightarrow> bool" where
  "same_core S S' \<longleftrightarrow> same_rest S S' \<and> ca_hashTable S' = ca_hashTable S \<and> ca_bucketAllocator S' = ca_bucketAllocator S"

lemma same_core_count [simp]: "same_core S (count_creation cb S)" "same_core S (snd (count_hit r S))"
    "same_core S (initCountCachedBucket cb S)" "same_core S (updateCountCachedBucket c n S)"
    "same_core S (setLimitVarCache n S)" "same_core S (S\<lparr>ca_cleaning := C\<rparr>)"
  by (simp_all add: same_core_def same_rest_def count_creation_def count_hit_def initCountCachedBucket_def
      updateCountCachedBucket_def setLimitVarCache_def Let_def)

lemma same_core_trans: "same_core S S' \<Longrightarrow> same_core S' S'' \<Longrightarrow> same_core S S''"
  by (simp add: same_core_def same_rest_def)

locale cache_table =
  fixes push :: "'v CachedBucket \<Rightarrow> 32 word \<Rightarrow> 'v \<Rightarrow> ('v, 't) CacheManager \<Rightarrow> ('v, 't) CacheManager"
    and exist :: "'v CachedBucket \<Rightarrow> 32 word \<Rightarrow> ('v, 't) CacheManager \<Rightarrow> 'v CachedBucket option \<times> ('v, 't) CacheManager"
    and remove :: "('v CachedBucket \<Rightarrow> bool) \<Rightarrow> ('v, 't) CacheManager \<Rightarrow> ('v, 't) CacheManager \<times> 32 word"
    and entries :: "'t \<Rightarrow> 'v CachedBucket list"
    and table_ok :: "'t \<Rightarrow> bool"
  assumes exist_found: "table_ok (ca_hashTable S) \<Longrightarrow> exist cb h S = (Some e, S') \<Longrightarrow>
      e \<in> set (entries (ca_hashTable S)) \<and> sameHeader cb e \<and> same_bytes S cb e"
    and exist_core: "same_core S (snd (exist cb h S))"
    and push_step: "table_ok (ca_hashTable S) \<Longrightarrow> cb_nbVar cb \<noteq> 0 \<Longrightarrow>
      table_ok (ca_hashTable (push cb h v S)) \<and> same_rest S (push cb h v S) \<and>
      table_step (entries (ca_hashTable S)) [cb_lockedBucket v cb] (entries (ca_hashTable (push cb h v S)))
        (ca_bucketAllocator S) (ca_bucketAllocator (push cb h v S))"
    and remove_step: "table_ok (ca_hashTable S) \<Longrightarrow> \<forall>c. test c \<longrightarrow> cb_nbVar c \<noteq> 0 \<Longrightarrow>
      table_ok (ca_hashTable (fst (remove test S))) \<and> same_rest S (fst (remove test S)) \<and>
      table_step (entries (ca_hashTable S)) [] (entries (ca_hashTable (fst (remove test S))))
        (ca_bucketAllocator S) (ca_bucketAllocator (fst (remove test S)))"
    and push_found: "table_ok (ca_hashTable S) \<Longrightarrow> cb_nbVar cb \<noteq> 0 \<Longrightarrow>
      ca_hashTable S' = ca_hashTable (push cb h v S) \<Longrightarrow> sameHeader cb' cb \<Longrightarrow> same_bytes S' cb' cb \<Longrightarrow>
      fst (exist cb' h S') \<noteq> None"

section \<open>Keys\<close>

type_synonym key = "int list \<times> CnfManagerDyn"

abbreviation key_bytes :: "ModeStore \<Rightarrow> key \<Rightarrow> 8 word list \<times> 64 word" where
  "key_bytes mode k \<equiv> fst (index_bucket mode (fst k) (snd k))"

abbreviation key_clauses :: "ModeStore \<Rightarrow> key \<Rightarrow> nat list" where
  "key_clauses mode k \<equiv> fst (collectIdActiveClauses mode (fst k) (snd k))"

lemma key_bytes_eq: "fst (index_bucket mode c M) = index_bytes (map nat c) (fst (collectIdActiveClauses mode c M))"
  by (simp add: index_bucket_def split: prod.split)

text \<open>A component that can be stored: its variables ascend, the header holds its numbers, and the bytes fit in a page.\<close>

definition usable :: "ModeStore \<Rightarrow> nat \<Rightarrow> key \<Rightarrow> bool" where
  "usable mode page k \<longleftrightarrow> fst k \<noteq> [] \<and> (\<forall>v\<in>set (fst k). 0 \<le> v) \<and> encodable (map nat (fst k)) \<and>
     encodable (key_clauses mode k) \<and> header_fits (map nat (fst k)) (key_clauses mode k) \<and>
     length (fst (key_bytes mode k)) \<le> page"

lemma usable_eq:
  assumes "usable mode page k" "usable mode page k'" "key_bytes mode k = key_bytes mode k'"
  shows "fst k = fst k' \<and> key_clauses mode k = key_clauses mode k'"
proof -
  have "map nat (fst k) = map nat (fst k') \<and> key_clauses mode k = key_clauses mode k'"
    using assms by (intro index_bytes_inject) (simp_all add: usable_def key_bytes_eq)
  moreover have "map nat c = map nat c' \<Longrightarrow> \<forall>v\<in>set c. 0 \<le> v \<Longrightarrow> \<forall>v\<in>set c'. 0 \<le> v \<Longrightarrow> c = c'" for c c' :: "int list"
    by (induction c c' rule: list_induct2') (auto simp: eq_nat_nat_iff)
  ultimately show ?thesis using assms(1,2) by (simp add: usable_def)
qed

lemma usable_header:
  assumes "usable mode page k"
  shows "di_szData (snd (key_bytes mode k)) = length (fst (key_bytes mode k))" "di_nbVar (snd (key_bytes mode k)) = length (fst k)"
    "length (fst (key_bytes mode k)) < 2 ^ 21"
proof -
  have "header_fits (map nat (fst k)) (key_clauses mode k)" using assms by (simp add: usable_def)
  then show "di_szData (snd (key_bytes mode k)) = length (fst (key_bytes mode k))" "di_nbVar (snd (key_bytes mode k)) = length (fst k)"
    "length (fst (key_bytes mode k)) < 2 ^ 21"
    using index_size octets_small by (simp_all add: key_bytes_eq header_fits_def index_bytes_eq header_reads)
qed

text \<open>A bucket holds a key when its block has the bytes of the key and its header is the one of the key.\<close>

definition holds :: "('v, 't) CacheManager \<Rightarrow> 'v CachedBucket \<Rightarrow> key \<Rightarrow> bool" where
  "holds S b k \<longleftrightarrow> key_bytes (ca_modeStore S) k = (bytes_of S b, cb_header b)"

lemma holds_rest: "same_rest S S' \<Longrightarrow> holds S' b k = holds S b k" "same_rest S S' \<Longrightarrow> computeHash S' b = computeHash S b"
  by (simp_all add: holds_def same_rest_def bytes_of_def computeHash_def)

lemma holds_locked [simp]: "holds S (cb_lockedBucket v b) k = holds S b k" "block_of (cb_lockedBucket v b) = block_of b"
    "cb_nbVar (cb_lockedBucket v b) = cb_nbVar b" "cb_fc (cb_lockedBucket v b) = v"
  by (simp_all add: holds_def bytes_of_def cb_lockedBucket_def cb_szData_def block_of_def cb_nbVar_def)

lemma holds_nbVar: "holds S b k \<Longrightarrow> usable (ca_modeStore S) page k \<Longrightarrow> cb_nbVar b \<noteq> 0"
  using usable_header(2) [of "ca_modeStore S" page k] by (auto simp: holds_def cb_nbVar_def usable_def)

section \<open>The invariant\<close>

definition cache_ok ::
  "('t \<Rightarrow> 'v CachedBucket list) \<Rightarrow> ('t \<Rightarrow> bool) \<Rightarrow> nat \<Rightarrow> ('v, 't) CacheManager \<Rightarrow> (key \<times> 'v TmpEntry) list \<Rightarrow> (key \<times> 'v) set \<Rightarrow> bool"
where
  "cache_ok entries table_ok page S pend stored \<longleftrightarrow>
     table_ok (ca_hashTable S) \<and> ba_sizeAdditionalPage (ca_bucketAllocator S) = page \<and>
     alloc_ok (ca_bucketAllocator S) (map block_of (entries (ca_hashTable S) @ map (te_e \<circ> snd) pend)) \<and>
     (\<forall>b\<in>set (entries (ca_hashTable S)). \<exists>k. (k, cb_fc b) \<in> stored \<and> usable (ca_modeStore S) page k \<and> holds S b k) \<and>
     (\<forall>(k, te)\<in>set pend. usable (ca_modeStore S) page k \<and> holds S (te_e te) k \<and> te_hashValue te = computeHash S (te_e te))"

lemma cache_okD:
  assumes "cache_ok entries table_ok page S pend stored"
  shows "table_ok (ca_hashTable S)" "ba_sizeAdditionalPage (ca_bucketAllocator S) = page"
    "alloc_ok (ca_bucketAllocator S) (map block_of (entries (ca_hashTable S) @ map (te_e \<circ> snd) pend))"
    "\<And>b. b \<in> set (entries (ca_hashTable S)) \<Longrightarrow> \<exists>k. (k, cb_fc b) \<in> stored \<and> usable (ca_modeStore S) page k \<and> holds S b k"
    "\<And>k te. (k, te) \<in> set pend \<Longrightarrow> usable (ca_modeStore S) page k \<and> holds S (te_e te) k \<and>
      te_hashValue te = computeHash S (te_e te)"
  using assms by (auto simp: cache_ok_def)

lemma cache_ok_core:
  "same_core S S' \<Longrightarrow> cache_ok entries table_ok page S pend stored \<Longrightarrow> cache_ok entries table_ok page S' pend stored"
  using holds_rest [of S S'] by (simp add: cache_ok_def same_core_def) (simp add: same_rest_def)

lemma cache_ok_mset:
  assumes "cache_ok entries table_ok page S pend stored" "mset pend = mset pend'"
  shows "cache_ok entries table_ok page S pend' stored"
proof -
  have "mset (map block_of (entries (ca_hashTable S) @ map (te_e \<circ> snd) pend)) =
      mset (map block_of (entries (ca_hashTable S) @ map (te_e \<circ> snd) pend'))" using assms(2) by simp
  then have "alloc_ok (ca_bucketAllocator S) (map block_of (entries (ca_hashTable S) @ map (te_e \<circ> snd) pend'))"
    using alloc_ok_mset cache_okD(3) [OF assms(1)] by blast
  then show ?thesis using assms mset_eq_setD [OF assms(2)] by (simp add: cache_ok_def)
qed

text \<open>A step of the table, with the blocks of \<open>pend0\<close> passing to the new entries.\<close>

lemma cache_ok_step:
  assumes ok: "cache_ok entries table_ok page S (pend0 @ pend) stored" and "table_ok (ca_hashTable S')" "same_rest S S'"
    and step: "table_step (entries (ca_hashTable S)) new (entries (ca_hashTable S')) (ca_bucketAllocator S) (ca_bucketAllocator S')"
    and new: "map block_of new = map (block_of \<circ> te_e \<circ> snd) pend0"
      "\<forall>b\<in>set new. \<exists>k. (k, cb_fc b) \<in> stored' \<and> usable (ca_modeStore S) page k \<and> holds S b k" and "stored \<subseteq> stored'"
  shows "cache_ok entries table_ok page S' pend stored'"
proof -
  obtain gone kept where g: "mset (entries (ca_hashTable S)) = mset (gone @ kept)"
      "mset (entries (ca_hashTable S')) = mset (new @ kept)" "ca_bucketAllocator S' = give_back gone (ca_bucketAllocator S)"
    using step unfolding table_step_def by blast
  have "mset (map block_of (entries (ca_hashTable S) @ map (te_e \<circ> snd) (pend0 @ pend))) =
      mset (map block_of gone @ map block_of (new @ kept @ map (te_e \<circ> snd) pend))"
    using g(1) new(1) by (simp add: comp_assoc)
  then have "alloc_ok (ca_bucketAllocator S) (map block_of gone @ map block_of (new @ kept @ map (te_e \<circ> snd) pend))"
    using alloc_ok_mset cache_okD(3) [OF ok] by blast
  then have "alloc_ok (ca_bucketAllocator S') (map block_of (new @ kept @ map (te_e \<circ> snd) pend))"
    unfolding g(3) by (rule give_back_ok)
  moreover have "mset (map block_of (new @ kept @ map (te_e \<circ> snd) pend)) =
      mset (map block_of (entries (ca_hashTable S') @ map (te_e \<circ> snd) pend))" using g(2) by simp
  ultimately have al: "alloc_ok (ca_bucketAllocator S') (map block_of (entries (ca_hashTable S') @ map (te_e \<circ> snd) pend))"
    using alloc_ok_mset by blast
  have mode: "ca_modeStore S' = ca_modeStore S" using assms(3) by (simp add: same_rest_def)
  have "set (entries (ca_hashTable S')) = set new \<union> set kept" "set kept \<subseteq> set (entries (ca_hashTable S))"
    using mset_eq_setD [OF g(1)] mset_eq_setD [OF g(2)] by auto
  then have "\<exists>k. (k, cb_fc b) \<in> stored' \<and> usable (ca_modeStore S) page k \<and> holds S b k" if "b \<in> set (entries (ca_hashTable S'))" for b
    using that new(2) cache_okD(4) [OF ok, of b] assms(7) by blast
  then show ?thesis
    using al assms(2) ok holds_rest [OF assms(3)] give_back_page [of gone] unfolding cache_ok_def mode g(3) by auto
qed


text \<open>Storing a key: its block is apart from all others, so that they keep their bytes.\<close>

lemma cache_ok_store:
  assumes ok: "cache_ok entries table_ok page S pend stored" and use: "usable (ca_modeStore S) page (c, M)"
    and st: "storeFormula c M S = (S1, M')" and te: "te_e te = ca_bucket S1"
    and hash: "te_hashValue te = computeHash S1 (ca_bucket S1)"
  shows "cache_ok entries table_ok page S1 (((c, M), te) # pend) stored \<and> ca_modeStore S1 = ca_modeStore S \<and>
    ca_hashTable S1 = ca_hashTable S \<and> (\<forall>b\<in>set (entries (ca_hashTable S)). \<forall>k. holds S1 b k = holds S b k)"
proof -
  obtain bytes info M1 where kb: "index_bucket (ca_modeStore S) c M = ((bytes, info), M1)" by (metis prod.exhaust)
  obtain data A' where ga: "getArray (length bytes) (ca_bucketAllocator S) = (data, A')" by fastforce
  have S1: "S1 = S\<lparr>ca_bucketAllocator := A', ca_memory := write_bytes data bytes (ca_memory S),
      ca_bucket := cb_set data info (ca_bucket S)\<rparr>" using st by (simp add: storeFormula_def kb ga)
  let ?live = "entries (ca_hashTable S) @ map (te_e \<circ> snd) pend"
  have len: "di_szData info = length bytes" "length bytes < 2 ^ 21" "length bytes \<le> page"
    using usable_header [OF use] use by (simp_all add: kb usable_def)
  have b: "block_of (te_e te) = (data, length bytes)" by (simp add: te S1 block_of_def cb_set_def cb_szData_def len(1))
  have al: "alloc_ok A' ((data, length bytes) # map block_of ?live)"
    using cache_okD(2) [OF ok] len by (intro getArray_ok [OF cache_okD(3) [OF ok] _ _ ga]) simp_all
  then have "apart (data, length bytes) (block_of x)" if "x \<in> set ?live" for x
    using that by (auto simp: alloc_ok_def blocks_ok_Cons)
  then have old: "holds S1 x k = holds S x k \<and> computeHash S1 x = computeHash S x" if "x \<in> set ?live" for x k
    using that read_apart [of data bytes "the (cb_data x)" "cb_szData x" "ca_memory S"]
    by (simp add: holds_def bytes_of_def computeHash_def S1 block_of_def)
  have new: "holds S1 (te_e te) (c, M)"
    by (simp add: holds_def bytes_of_def te S1 cb_set_def cb_szData_def kb len(1) read_written)
  have "mset ((data, length bytes) # map block_of ?live) =
      mset (map block_of (entries (ca_hashTable S) @ map (te_e \<circ> snd) (((c, M), te) # pend)))" by (simp add: b)
  then have "alloc_ok A' (map block_of (entries (ca_hashTable S) @ map (te_e \<circ> snd) (((c, M), te) # pend)))"
    by (rule alloc_ok_mset [OF al])
  moreover have mode: "ca_modeStore S1 = ca_modeStore S" "ca_hashTable S1 = ca_hashTable S" "ca_bucketAllocator S1 = A'"
    by (simp_all add: S1)
  moreover have "\<exists>k. (k, cb_fc x) \<in> stored \<and> usable (ca_modeStore S) page k \<and> holds S1 x k"
    if "x \<in> set (entries (ca_hashTable S))" for x
    using cache_okD(4) [OF ok that] old [of x] that by auto
  moreover have "usable (ca_modeStore S) page k \<and> holds S1 (te_e t) k \<and> te_hashValue t = computeHash S1 (te_e t)"
    if "(k, t) \<in> set pend" for k t
  proof -
    have "te_e t \<in> set ?live" using that by force
    then show ?thesis using cache_okD(5) [OF ok that] old by simp
  qed
  moreover have "te_hashValue te = computeHash S1 (te_e te)" using hash te by simp
  ultimately show ?thesis using ok use new page_size(1) [OF ga] old by (auto simp: cache_ok_def)
qed

lemma cache_ok_reinit: "cache_ok entries table_ok page S pend stored \<Longrightarrow>
    cache_ok entries table_ok page (S\<lparr>ca_bucketAllocator := ba_reinitConsumedMemory (ca_bucketAllocator S)\<rparr>) pend stored"
  using alloc_ok_reinit [of "ca_bucketAllocator S"]
  by (simp add: cache_ok_def holds_def bytes_of_def computeHash_def) (simp add: ba_reinitConsumedMemory_def)

lemma cache_ok_release:
  assumes ok: "cache_ok entries table_ok page S ((k, te) # pend) stored"
  shows "cache_ok entries table_ok page (ca_release (te_e te) S) pend stored"
proof -
  let ?live = "map block_of (entries (ca_hashTable S) @ map (te_e \<circ> snd) pend)"
  have "mset (map block_of (entries (ca_hashTable S) @ map (te_e \<circ> snd) ((k, te) # pend))) = mset (block_of (te_e te) # ?live)"
    by simp
  then have "alloc_ok (ca_bucketAllocator S) (block_of (te_e te) # ?live)" using alloc_ok_mset cache_okD(3) [OF ok] by blast
  then have "alloc_ok (ba_releaseMemory (the (cb_data (te_e te))) (cb_szData (te_e te)) (ca_bucketAllocator S)) ?live"
    unfolding block_of_def by (rule release_ok)
  then show ?thesis using ok by (simp add: cache_ok_def ca_release_def holds_def bytes_of_def computeHash_def page_size(2))
qed

context cache_table begin

lemma reduce_ok:
  assumes ok: "cache_ok entries table_ok page S pend stored" and "reduceCache remove S = Some S'"
  shows "cache_ok entries table_ok page S' pend stored \<and> ca_modeStore S' = ca_modeStore S"
proof (cases "S' = S")
  case False
  obtain st limit0 where "stat_limit (cc_threshold (ca_cleaning S)) (ca_limitVarCached S) (cc_statVar (ca_cleaning S)) = (st, limit0)"
    by fastforce
  then obtain limit C C' n S2 where r: "remove (\<lambda>c. cb_nbVar c \<noteq> 0 \<and> limit \<le> cb_nbVar c) (setLimitVarCache limit (S\<lparr>ca_cleaning := C\<rparr>)) = (S2, n)"
    and S': "S' = S2\<lparr>ca_cleaning := C'\<rparr>"
    using assms(2) False by (auto simp: reduceCache_def Let_def split: option.splits if_splits prod.splits)
  let ?S1 = "setLimitVarCache limit (S\<lparr>ca_cleaning := C\<rparr>)"
  have c1: "same_core S ?S1" by (rule same_core_trans [of _ "S\<lparr>ca_cleaning := C\<rparr>"]) simp_all
  have ok1: "cache_ok entries table_ok page ?S1 ([] @ pend) stored" using cache_ok_core [OF c1 ok] by simp
  have st: "table_ok (ca_hashTable S2)" "same_rest ?S1 S2"
      "table_step (entries (ca_hashTable ?S1)) [] (entries (ca_hashTable S2)) (ca_bucketAllocator ?S1) (ca_bucketAllocator S2)"
    using remove_step [OF cache_okD(1) [OF ok1], of "\<lambda>c. cb_nbVar c \<noteq> 0 \<and> limit \<le> cb_nbVar c"] r by simp_all
  have "cache_ok entries table_ok page S2 pend stored"
    by (rule cache_ok_step [OF ok1 st(1,2,3)]) simp_all
  then have "cache_ok entries table_ok page S' pend stored" unfolding S' by (rule cache_ok_core [rotated]) simp
  moreover have "ca_modeStore S' = ca_modeStore S" using st(2) c1 by (simp add: S' same_rest_def same_core_def)
  ultimately show ?thesis by simp
qed (use ok in simp)

lemma notice_ok:
  assumes ok: "cache_ok entries table_ok page S pend stored" and "notice_pages remove S = Some S'"
  shows "cache_ok entries table_ok page S' pend stored \<and> ca_modeStore S' = ca_modeStore S"
proof (cases "ba_consumedMemory (ca_bucketAllocator S)")
  case True
  then obtain S1 where S1: "reduceCache remove S = Some S1"
      "S' = S1\<lparr>ca_bucketAllocator := ba_reinitConsumedMemory (ca_bucketAllocator S1)\<rparr>"
    using assms(2) by (auto simp: notice_pages_def)
  have "cache_ok entries table_ok page S' pend stored"
    using reduce_ok [OF ok S1(1)] unfolding S1(2) by (intro cache_ok_reinit) simp
  then show ?thesis using reduce_ok [OF ok S1(1)] by (simp add: S1(2))
qed (use assms in \<open>simp add: notice_pages_def\<close>)

lemma search_ok:
  assumes ok: "cache_ok entries table_ok page S pend stored" and use: "usable (ca_modeStore S) page (c, M)"
    and search: "searchInCache exist remove c M S = Some (te, S', M')"
  shows "if te_defined te then cache_ok entries table_ok page S' pend stored \<and>
      (\<exists>k. (k, cb_fc (te_e te)) \<in> stored \<and> fst k = c \<and> key_clauses (ca_modeStore S) k = key_clauses (ca_modeStore S) (c, M))
    else cache_ok entries table_ok page S' (((c, M), te) # pend) stored" "ca_modeStore S' = ca_modeStore S"
proof -
  obtain S0 where S0: "notice_pages remove S = Some S0" using search by (auto simp: searchInCache_def split: option.splits)
  obtain S1 M1 where S1: "storeFormula c M S0 = (S1, M1)" by fastforce
  obtain r S2 where S2: "exist (ca_bucket S1) (computeHash S1 (ca_bucket S1)) S1 = (r, S2)" by fastforce
  let ?S3 = "updateCountCachedBucket r (length c) S2"
  define te0 where "te0 = \<lparr>te_e = ca_bucket S1, te_hashValue = computeHash S1 (ca_bucket S1), te_defined = False\<rparr>"
  have res: "case r of None \<Rightarrow> te = te0 \<and> S' = ?S3
    | Some e \<Rightarrow> te_e te = e \<and> te_defined te \<and> S' = ca_release (ca_bucket S1) ?S3"
    using search S0 S1 S2 by (auto simp: searchInCache_def Let_def te0_def split: option.splits)
  note n = notice_ok [OF ok S0]
  have "usable (ca_modeStore S0) page (c, M)" "te_e te0 = ca_bucket S1" "te_hashValue te0 = computeHash S1 (ca_bucket S1)"
    using n use by (simp_all add: te0_def)
  note st = cache_ok_store [OF conjunct1 [OF n] this(1) S1 this(2,3)]
  have ok1: "cache_ok entries table_ok page S1 (((c, M), te0) # pend) stored" and m: "ca_modeStore S1 = ca_modeStore S"
    using n st by simp_all
  have "same_core S1 S2" using exist_core [of S1 "ca_bucket S1" "computeHash S1 (ca_bucket S1)"] S2 by simp
  then have core: "same_core S1 ?S3" by (rule same_core_trans) simp
  have ok3: "cache_ok entries table_ok page ?S3 (((c, M), te0) # pend) stored" by (rule cache_ok_core [OF core ok1])
  have hit: "\<exists>k. (k, cb_fc e) \<in> stored \<and> fst k = c \<and> key_clauses (ca_modeStore S) k = key_clauses (ca_modeStore S) (c, M)" if "r = Some e" for e
  proof -
    have e: "e \<in> set (entries (ca_hashTable S1))" "sameHeader (ca_bucket S1) e" "same_bytes S1 (ca_bucket S1) e"
      using exist_found [OF cache_okD(1) [OF ok1]] S2 that by auto
    obtain k where k: "(k, cb_fc e) \<in> stored" "usable (ca_modeStore S1) page k" "holds S1 e k" using cache_okD(4) [OF ok1 e(1)] by blast
    have new: "usable (ca_modeStore S1) page (c, M)" "holds S1 (ca_bucket S1) (c, M)"
      using cache_okD(5) [OF ok1, of "(c, M)" te0] by (simp_all add: te0_def)
    have "cb_szData e = cb_szData (ca_bucket S1)" using e(2) by (simp add: sameHeader_def cb_szData_def)
    then have "key_bytes (ca_modeStore S1) k = key_bytes (ca_modeStore S1) (c, M)"
      using k(3) new(2) e(2,3) by (simp add: holds_def same_bytes_def sameHeader_def bytes_of_def)
    from usable_eq [OF k(2) new(1) this]
    have "fst k = c \<and> key_clauses (ca_modeStore S) k = key_clauses (ca_modeStore S) (c, M)" unfolding m fst_conv .
    then show ?thesis using k(1) by blast
  qed
  show "if te_defined te then cache_ok entries table_ok page S' pend stored \<and>
      (\<exists>k. (k, cb_fc (te_e te)) \<in> stored \<and> fst k = c \<and> key_clauses (ca_modeStore S) k = key_clauses (ca_modeStore S) (c, M))
    else cache_ok entries table_ok page S' (((c, M), te) # pend) stored"
  proof (cases r)
    case None
    then show ?thesis using res ok3 by (simp add: te0_def)
  next
    case (Some e)
    then show ?thesis using res hit cache_ok_release [OF ok3] by (simp add: te0_def)
  qed
  have "ca_modeStore ?S3 = ca_modeStore S" using core m by (simp add: same_core_def same_rest_def)
  then show "ca_modeStore S' = ca_modeStore S" using res by (cases r) (simp_all add: ca_release_def)
qed

lemma add_ok:
  assumes ok: "cache_ok entries table_ok page S ((k, te) # pend) stored"
  shows "cache_ok entries table_ok page (addInCache push te v S) pend (insert (k, v) stored)"
    "ca_modeStore (addInCache push te v S) = ca_modeStore S"
proof -
  have te: "usable (ca_modeStore S) page k" "holds S (te_e te) k" using cache_okD(5) [OF ok, of k te] by simp_all
  note p = push_step [OF cache_okD(1) [OF ok] holds_nbVar [OF te(2,1)], where h = "te_hashValue te" and v = v]
  have ok': "cache_ok entries table_ok page S ([(k, te)] @ pend) stored" using ok by simp
  show "cache_ok entries table_ok page (addInCache push te v S) pend (insert (k, v) stored)"
    unfolding addInCache_def
  proof (rule cache_ok_step [OF ok'])
    have "\<exists>k'. (k', v) \<in> insert (k, v) stored \<and> usable (ca_modeStore S) page k' \<and> holds S (te_e te) k'" using te by blast
    then show "\<forall>b\<in>set [cb_lockedBucket v (te_e te)]. \<exists>k'. (k', cb_fc b) \<in> insert (k, v) stored \<and>
        usable (ca_modeStore S) page k' \<and> holds S b k'" by simp
  qed (use p in auto)
  show "ca_modeStore (addInCache push te v S) = ca_modeStore S" using p by (simp add: addInCache_def same_rest_def)
qed

end

section \<open>Runs\<close>

text \<open>\<open>fits\<close> tells which components are looked up. \<open>pend\<close> are the misses whose value is still being computed, \<open>stored\<close>
  all values ever stored.\<close>

inductive cache_run ::
  "('v CachedBucket \<Rightarrow> 32 word \<Rightarrow> 'v \<Rightarrow> ('v, 't) CacheManager \<Rightarrow> ('v, 't) CacheManager) \<Rightarrow>
   ('v CachedBucket \<Rightarrow> 32 word \<Rightarrow> ('v, 't) CacheManager \<Rightarrow> 'v CachedBucket option \<times> ('v, 't) CacheManager) \<Rightarrow>
   (('v CachedBucket \<Rightarrow> bool) \<Rightarrow> ('v, 't) CacheManager \<Rightarrow> ('v, 't) CacheManager \<times> 32 word) \<Rightarrow> ('v, 't) CacheManager \<Rightarrow>
   (key \<Rightarrow> bool) \<Rightarrow> ('v, 't) CacheManager \<Rightarrow> (key \<times> 'v TmpEntry) list \<Rightarrow> (key \<times> 'v) set \<Rightarrow> bool"
  for push exist remove start fits
where
  start: "cache_run push exist remove start fits start [] {}"
| miss: "cache_run push exist remove start fits S pend stored \<Longrightarrow> fits (c, M) \<Longrightarrow>
    searchInCache exist remove c M S = Some (te, S', M') \<Longrightarrow> \<not> te_defined te \<Longrightarrow>
    cache_run push exist remove start fits S' (((c, M), te) # pend) stored"
| hit: "cache_run push exist remove start fits S pend stored \<Longrightarrow> fits (c, M) \<Longrightarrow>
    searchInCache exist remove c M S = Some (te, S', M') \<Longrightarrow> te_defined te \<Longrightarrow>
    cache_run push exist remove start fits S' pend stored"
| add: "cache_run push exist remove start fits S (us @ (k, te) # vs) stored \<Longrightarrow>
    cache_run push exist remove start fits (addInCache push te v S) (us @ vs) (insert (k, v) stored)"
| give_up: "cache_run push exist remove start fits S (us @ (k, te) # vs) stored \<Longrightarrow>
    cache_run push exist remove start fits (ca_release (te_e te) S) (us @ vs) stored"

context cache_table begin

lemma run_ok:
  assumes "cache_run push exist remove start fits S pend stored"
    and "cache_ok entries table_ok page start [] {}" "\<And>k. fits k \<Longrightarrow> usable (ca_modeStore start) page k"
  shows "cache_ok entries table_ok page S pend stored \<and> ca_modeStore S = ca_modeStore start"
  using assms(1)
proof (induction rule: cache_run.induct)
  case (miss S pend stored c M te S' M')
  then show ?case using search_ok [OF conjunct1 [OF miss.IH] _ miss.hyps(3)] assms(3) [OF miss.hyps(2)] by simp
next
  case (hit S pend stored c M te S' M')
  then show ?case using search_ok [OF conjunct1 [OF hit.IH] _ hit.hyps(3)] assms(3) [OF hit.hyps(2)] by simp
next
  case (add S us k te vs stored v)
  then have "cache_ok entries table_ok page S ((k, te) # us @ vs) stored"
    using cache_ok_mset [of entries table_ok page S "us @ (k, te) # vs"] by simp
  from add_ok [OF this, of v] show ?case using add.IH by simp
next
  case (give_up S us k te vs stored)
  then have "cache_ok entries table_ok page S ((k, te) # us @ vs) stored"
    using cache_ok_mset [of entries table_ok page S "us @ (k, te) # vs"] by simp
  from cache_ok_release [OF this] show ?case using give_up.IH by (simp add: ca_release_def)
qed (use assms(2) in simp)

lemma run_hit:
  assumes "cache_run push exist remove start fits S pend stored"
    and "cache_ok entries table_ok page start [] {}" "\<And>k. fits k \<Longrightarrow> usable (ca_modeStore start) page k"
    and "fits (c, M)" "searchInCache exist remove c M S = Some (te, S', M')" "te_defined te"
  shows "\<exists>k. (k, cb_fc (te_e te)) \<in> stored \<and> fst k = c \<and> key_clauses (ca_modeStore start) k = key_clauses (ca_modeStore start) (c, M)"
  using run_ok [OF assms(1-3)] search_ok(1) [where S = S and page = page] assms(3) [OF assms(4)] assms(5,6)
  by (metis (no_types))

text \<open>A stored key is found again, as long as the lookup does not clean the cache first.\<close>

lemma found_again:
  assumes ok: "cache_ok entries table_ok page S ((k, te) # pend) stored" and same: "key_bytes (ca_modeStore S) (c, M) = key_bytes (ca_modeStore S) k"
    and use: "usable (ca_modeStore S) page (c, M)" and quiet: "\<not> ba_consumedMemory (ca_bucketAllocator (addInCache push te v S))"
  shows "\<exists>te' S' M'. searchInCache exist remove c M (addInCache push te v S) = Some (te', S', M') \<and> te_defined te'"
proof -
  let ?S = "addInCache push te v S" let ?e = "cb_lockedBucket v (te_e te)"
  note add = add_ok [OF ok, of v]
  have te: "usable (ca_modeStore S) page k" "holds S (te_e te) k" "te_hashValue te = computeHash S (te_e te)"
    using cache_okD(5) [OF ok, of k te] by simp_all
  note nv = holds_nbVar [OF te(2,1)]
  note p = push_step [OF cache_okD(1) [OF ok] nv, where h = "te_hashValue te" and v = v]
  obtain gone kept where "mset (entries (ca_hashTable ?S)) = mset ([?e] @ kept)"
    using p unfolding addInCache_def table_step_def by blast
  then have e: "?e \<in> set (entries (ca_hashTable ?S))" using mset_eq_setD by fastforce
  obtain S1 M1 where S1: "storeFormula c M ?S = (S1, M1)" by fastforce
  define te0 where "te0 = \<lparr>te_e = ca_bucket S1, te_hashValue = computeHash S1 (ca_bucket S1), te_defined = False\<rparr>"
  have "usable (ca_modeStore ?S) page (c, M)" "te_e te0 = ca_bucket S1" "te_hashValue te0 = computeHash S1 (ca_bucket S1)"
    using add(2) use by (simp_all add: te0_def)
  note st = cache_ok_store [OF add(1) this(1) S1 this(2,3)]
  have "holds S1 ?e k = holds ?S ?e k" using st e by blast
  moreover have "ca_modeStore S1 = ca_modeStore S" "ca_hashTable S1 = ca_hashTable ?S"
    "cache_ok entries table_ok page S1 (((c, M), te0) # pend) (insert (k, v) stored)" using st add(2) by simp_all
  moreover have "holds ?S ?e k" using p te(2) by (simp add: addInCache_def holds_rest(1) [of S])
  ultimately have h: "holds S1 (te_e te) k" "holds S1 (ca_bucket S1) (c, M)" "ca_modeStore S1 = ca_modeStore S"
    "ca_hashTable S1 = ca_hashTable (push (te_e te) (te_hashValue te) v S)"
    using cache_okD(5) [of entries table_ok page S1 "((c, M), te0) # pend" _ "(c, M)" te0] by (simp_all add: te0_def addInCache_def)
  have eq: "bytes_of S1 (te_e te) = bytes_of S1 (ca_bucket S1)" "cb_header (te_e te) = cb_header (ca_bucket S1)"
    using h(1-3) same by (simp_all add: holds_def)
  have "computeHash S1 (ca_bucket S1) = te_hashValue te"
    using eq te(2,3) h(1,3) by (simp add: computeHash_def holds_def)
  moreover have "same_bytes S1 (ca_bucket S1) (te_e te)" "sameHeader (ca_bucket S1) (te_e te)"
    using eq by (simp_all add: same_bytes_def bytes_of_def sameHeader_def cb_szData_def)
  ultimately have found: "fst (exist (ca_bucket S1) (computeHash S1 (ca_bucket S1)) S1) \<noteq> None"
    using push_found [OF cache_okD(1) [OF ok] nv h(4)] by simp
  have "notice_pages remove ?S = Some ?S" using quiet by (simp add: notice_pages_def)
  with found show ?thesis by (auto simp: searchInCache_def S1 Let_def split: prod.split)
qed

end

lemma run_fits:
  assumes "cache_run push exist remove start fits S pend stored"
  shows "(\<forall>(k, te)\<in>set pend. fits k) \<and> (\<forall>(k, v)\<in>stored. fits k)"
  using assms by (induction rule: cache_run.induct) auto

end
