(* ===== verification/D4_Cache_Tables.thy ===== *)
theory D4_Cache_Tables
  imports D4_Cache_Runs
begin

text \<open>
  \<open>CacheList\<close> and \<open>CacheNoCollision\<close> keep the contract \<open>cache_table\<close>: the entries of the first are those of its lists,
  those of the second the slots whose header has variables.
\<close>

section \<open>\<open>CacheList\<close>\<close>

definition list_ok :: "'v CachedBucket list list \<Rightarrow> bool" where
  "list_ok T \<longleftrightarrow> length T = SIZE_HASH_list"

lemma slot_less: "unat (h :: 32 word) mod SIZE_HASH_list < SIZE_HASH_list" "unat h mod SIZE_HASH_slot < SIZE_HASH_slot"
  by (simp_all add: SIZE_HASH_list_def SIZE_HASH_slot_def)

lemma mset_concat_update: "i < length T \<Longrightarrow> mset (concat (T[i := T ! i @ xs])) = mset xs + mset (concat T)"
proof (induction T arbitrary: i)
  case (Cons l T)
  then show ?case by (cases i) simp_all
qed simp

lemma find_member: "x \<in> set xs \<Longrightarrow> P x \<Longrightarrow> find P xs \<noteq> None"
  by (metis find_None_iff)

lemma remove_in_eq: "remove_in test l A = (filter (\<lambda>c. \<not> test c) l, give_back (filter test l) A, of_nat (length (filter test l)))"
  by (induction test l A rule: remove_in.induct) simp_all

lemma remove_lists_eq:
  "remove_lists test T A = (map (filter (\<lambda>c. \<not> test c)) T, give_back (filter test (concat T)) A, of_nat (length (filter test (concat T))))"
  by (induction test T A rule: remove_lists.induct) (simp_all add: remove_in_eq)

lemma concat_filter: "concat (map (filter P) T) = filter P (concat T)"
  by (induction T) simp_all

lemma table_step_filter: "table_step old [] (filter (\<lambda>c. \<not> test c) old) A (give_back (filter test old) A)"
  unfolding table_step_def by (intro exI [of _ "filter test old"] exI [of _ "filter (\<lambda>c. \<not> test c) old"]) simp

lemma locked_same [simp]: "sameHeader cb (cb_lockedBucket v e) = sameHeader cb e" "same_bytes S cb (cb_lockedBucket v e) = same_bytes S cb e"
  by (simp_all add: sameHeader_def same_bytes_def bytes_of_def cb_lockedBucket_def cb_szData_def)

lemma same_bytes_rest [simp]: "same_bytes (S\<lparr>ca_hashTable := T\<rparr>) = same_bytes S"
  by (simp add: same_bytes_def bytes_of_def fun_eq_iff)

lemma push_list_core: "same_core (S\<lparr>ca_hashTable := (ca_hashTable S)[unat h mod SIZE_HASH_list :=
    ca_hashTable S ! (unat h mod SIZE_HASH_list) @ [cb_lockedBucket v cb]]\<rparr>) (pushInHashTable_list cb h v S)"
  unfolding pushInHashTable_list_def Let_def by (rule same_core_trans) (rule same_core_count)+

interpretation cache_list: cache_table pushInHashTable_list bucketAlreadyExist_list removeEntry_list concat list_ok
proof
  fix S :: "'a CacheList" and cb cb' e :: "'a CachedBucket" and h v S'
  let ?i = "unat (h :: 32 word) mod SIZE_HASH_list" let ?T = "ca_hashTable S"
  show "same_core S (snd (bucketAlreadyExist_list cb h S))" by (simp add: bucketAlreadyExist_list_def)
  { assume "list_ok ?T" "bucketAlreadyExist_list cb h S = (Some e, S')"
    then show "e \<in> set (concat ?T) \<and> sameHeader cb e \<and> same_bytes S cb e"
      using slot_less(1) [of h] by (auto simp: bucketAlreadyExist_list_def count_hit_def find_Some_iff list_ok_def in_set_conv_nth) (metis nth_mem) }
  { assume ok: "list_ok ?T"
    note c = push_list_core [of S h v cb]
    let ?T' = "?T[?i := ?T ! ?i @ [cb_lockedBucket v cb]]"
    have "table_step (concat ?T) [cb_lockedBucket v cb] (concat ?T') (ca_bucketAllocator S) (ca_bucketAllocator S)"
      unfolding table_step_def using ok slot_less(1) [of h]
      by (intro exI [of _ "[]"] exI [of _ "concat ?T"]) (simp add: list_ok_def mset_concat_update)
    then show "list_ok (ca_hashTable (pushInHashTable_list cb h v S)) \<and> same_rest S (pushInHashTable_list cb h v S) \<and>
      table_step (concat ?T) [cb_lockedBucket v cb] (concat (ca_hashTable (pushInHashTable_list cb h v S)))
        (ca_bucketAllocator S) (ca_bucketAllocator (pushInHashTable_list cb h v S))"
      using c ok by (simp add: same_core_def same_rest_def list_ok_def) }
  { fix test :: "'a CachedBucket \<Rightarrow> bool" assume "list_ok ?T"
    then show "list_ok (ca_hashTable (fst (removeEntry_list test S))) \<and> same_rest S (fst (removeEntry_list test S)) \<and>
      table_step (concat ?T) [] (concat (ca_hashTable (fst (removeEntry_list test S))))
        (ca_bucketAllocator S) (ca_bucketAllocator (fst (removeEntry_list test S)))"
      using table_step_filter [of "concat ?T" test]
      by (simp add: removeEntry_list_def remove_lists_eq same_rest_def list_ok_def concat_filter) }
  { fix S' :: "'a CacheList" assume "list_ok ?T" "ca_hashTable S' = ca_hashTable (pushInHashTable_list cb h v S)" "sameHeader cb' cb" "same_bytes S' cb' cb"
    then have "cb_lockedBucket v cb \<in> set (ca_hashTable S' ! ?i)"
      using push_list_core [of S h v cb] slot_less(1) [of h] by (simp add: same_core_def list_ok_def)
    then have "find (\<lambda>cbi. sameHeader cb' cbi \<and> same_bytes S' cb' cbi) (ca_hashTable S' ! ?i) \<noteq> None"
      by (rule find_member) (simp add: \<open>sameHeader cb' cb\<close> \<open>same_bytes S' cb' cb\<close>)
    then show "fst (bucketAlreadyExist_list cb' h S') \<noteq> None" by (simp add: bucketAlreadyExist_list_def count_hit_def) }
qed

section \<open>\<open>CacheNoCollision\<close>\<close>

definition slot_ok :: "'v CachedBucket list \<Rightarrow> bool" where
  "slot_ok T \<longleftrightarrow> length T = SIZE_HASH_slot"

definition used_slots :: "'v CachedBucket list \<Rightarrow> 'v CachedBucket list" where
  "used_slots T = filter (\<lambda>c. cb_nbVar c \<noteq> 0) T"

lemma reset_unused [simp]: "cb_nbVar (cb_reset c) = 0"
  by (simp add: cb_nbVar_def cb_reset_def di_reset_def di_nbVar_def)

lemma remove_slots_eq:
  "remove_slots test l A = (map (\<lambda>c. if test c then cb_reset c else c) l, give_back (filter test l) A, of_nat (length (filter test l)))"
  by (induction test l A rule: remove_slots.induct) simp_all

lemma used_after_remove: "used_slots (map (\<lambda>c. if test c then cb_reset c else c) l) = filter (\<lambda>c. \<not> test c) (used_slots l)"
  by (induction l) (simp_all add: used_slots_def)

lemma used_removed: "\<forall>c. test c \<longrightarrow> cb_nbVar c \<noteq> 0 \<Longrightarrow> filter test (used_slots l) = filter test l"
  by (induction l) (auto simp: used_slots_def)

lemma used_update:
  assumes "i < length T" "cb_nbVar x \<noteq> 0"
  shows "mset (used_slots (T[i := x])) + (if cb_nbVar (T ! i) \<noteq> 0 then {#T ! i#} else {#}) = add_mset x (mset (used_slots T))"
  using assms
proof (induction T arbitrary: i)
  case (Cons c T)
  then show ?case using Cons.IH [of "i - 1"] by (cases i) (auto simp: used_slots_def)
qed simp

lemma exchanged: "N + G = add_mset x Q \<Longrightarrow> Q = G + K \<Longrightarrow> N = add_mset x K"
  by (metis add.commute add_left_cancel union_mset_add_mset_right)

lemma push_slot_core:
  fixes S :: "'v CacheNoCollision" and h :: "32 word"
  defines "i \<equiv> unat h mod SIZE_HASH_slot"
  shows "same_core ((if cb_nbVar (ca_hashTable S ! i) \<noteq> 0 then ca_release (ca_hashTable S ! i) S else S)
    \<lparr>ca_hashTable := (ca_hashTable S)[i := cb_lockedBucket v cb]\<rparr>) (pushInHashTable_slot cb h v S)"
proof -
  have "ca_hashTable (if cb_nbVar (ca_hashTable S ! i) \<noteq> 0 then ca_release (ca_hashTable S ! i) S else S) = ca_hashTable S"
    by (simp add: ca_release_def)
  then show ?thesis unfolding pushInHashTable_slot_def Let_def i_def [symmetric]
    by (simp only:) (rule same_core_trans, (rule same_core_count)+)
qed

interpretation cache_slots: cache_table pushInHashTable_slot bucketAlreadyExist_slot removeEntry_slot used_slots slot_ok
proof
  fix S :: "'a CacheNoCollision" and cb cb' e :: "'a CachedBucket" and h v S'
  let ?i = "unat (h :: 32 word) mod SIZE_HASH_slot" let ?T = "ca_hashTable S"
  show "same_core S (snd (bucketAlreadyExist_slot cb h S))" by (simp add: bucketAlreadyExist_slot_def Let_def)
  { assume "slot_ok ?T" "bucketAlreadyExist_slot cb h S = (Some e, S')"
    then show "e \<in> set (used_slots ?T) \<and> sameHeader cb e \<and> same_bytes S cb e"
      using slot_less(2) [of h]
      by (auto simp: bucketAlreadyExist_slot_def count_hit_def slot_ok_def used_slots_def Let_def split: if_splits) }
  { assume ok: "slot_ok ?T" and nv: "cb_nbVar cb \<noteq> 0"
    note c = push_slot_core [of S h v cb]
    let ?x = "cb_lockedBucket v cb" let ?used = "cb_nbVar (?T ! ?i) \<noteq> 0"
    have u: "mset (used_slots (?T[?i := ?x])) + (if ?used then {#?T ! ?i#} else {#}) = add_mset ?x (mset (used_slots ?T))"
      using ok slot_less(2) [of h] nv by (intro used_update) (simp_all add: slot_ok_def)
    let ?gone = "if ?used then [?T ! ?i] else []"
    have "?used \<Longrightarrow> ?T ! ?i \<in># mset (used_slots ?T)" using ok slot_less(2) [of h] by (simp add: used_slots_def slot_ok_def)
    then have old: "mset (used_slots ?T) = mset ?gone + (mset (used_slots ?T) - mset ?gone)" by simp
    have now: "mset (used_slots (?T[?i := ?x])) = add_mset ?x (mset (used_slots ?T) - mset ?gone)"
      by (rule exchanged [OF _ old]) (use u in \<open>simp split: if_splits\<close>)
    obtain kept where "mset kept = mset (used_slots ?T) - mset ?gone" using ex_mset by blast
    then have "table_step (used_slots ?T) [?x] (used_slots (?T[?i := ?x])) (ca_bucketAllocator S) (give_back ?gone (ca_bucketAllocator S))"
      unfolding table_step_def using old now by (intro exI [of _ ?gone] exI [of _ kept]) simp
    then show "slot_ok (ca_hashTable (pushInHashTable_slot cb h v S)) \<and> same_rest S (pushInHashTable_slot cb h v S) \<and>
      table_step (used_slots ?T) [?x] (used_slots (ca_hashTable (pushInHashTable_slot cb h v S)))
        (ca_bucketAllocator S) (ca_bucketAllocator (pushInHashTable_slot cb h v S))"
      using c ok by (cases ?used) (simp_all add: same_core_def same_rest_def slot_ok_def ca_release_def) }
  { fix test :: "'a CachedBucket \<Rightarrow> bool" assume "slot_ok ?T" and t: "\<forall>c. test c \<longrightarrow> cb_nbVar c \<noteq> 0"
    then show "slot_ok (ca_hashTable (fst (removeEntry_slot test S))) \<and> same_rest S (fst (removeEntry_slot test S)) \<and>
      table_step (used_slots ?T) [] (used_slots (ca_hashTable (fst (removeEntry_slot test S))))
        (ca_bucketAllocator S) (ca_bucketAllocator (fst (removeEntry_slot test S)))"
      using table_step_filter [of "used_slots ?T" test] used_removed [OF t, of ?T]
      by (simp add: removeEntry_slot_def remove_slots_eq same_rest_def slot_ok_def used_after_remove) }
  { fix S' :: "'a CacheNoCollision"
    assume "slot_ok ?T" "cb_nbVar cb \<noteq> 0" "ca_hashTable S' = ca_hashTable (pushInHashTable_slot cb h v S)" "sameHeader cb' cb" "same_bytes S' cb' cb"
    moreover from this have "ca_hashTable S' ! ?i = cb_lockedBucket v cb"
      using push_slot_core [of S h v cb] slot_less(2) [of h] by (simp add: same_core_def slot_ok_def)
    ultimately show "fst (bucketAlreadyExist_slot cb' h S') \<noteq> None"
      by (simp add: bucketAlreadyExist_slot_def count_hit_def Let_def) }
qed

end
