(* ===== verification/D4_Cache_Hits.thy ===== *)
theory D4_Cache_Hits
  imports D4_Cache_Tables D4_Cnf_Updates
begin

text \<open>
  What a key says of the formula: for the managers of one CNF, components with the same variables and the same kept clauses
  have the same residual formula, in each of the three modes. So an answer of the cache is a value that was stored for
  the residual formula it is asked for.
\<close>

section \<open>Residual formulas\<close>

text \<open>A clause that is not satisfied and mentions an unassigned variable of the component.\<close>

definition active :: "key \<Rightarrow> nat \<Rightarrow> bool" where
  "active k i \<longleftrightarrow> (\<forall>l\<in>set (cm_clauses (snd k) ! i). \<not> litIsAssignedToTrue (snd k) l) \<and>
     (\<exists>l\<in>set (cm_clauses (snd k) ! i). \<not> litIsAssigned (snd k) l \<and> ilit_var l \<in> set (fst k))"

definition residual_clause :: "CnfManagerDyn \<Rightarrow> nat \<Rightarrow> ILit multiset" where
  "residual_clause M i = filter_mset (\<lambda>l. \<not> litIsAssigned M l) (mset (cm_clauses M ! i))"

definition residual :: "key \<Rightarrow> ILit multiset list" where
  "residual k = map (residual_clause (snd k)) (filter (active k) [0..<length (cm_clauses (snd k))])"

text \<open>When a component is looked up: the manager is in order and describes the CNF \<open>F\<close>, no clause is empty, the component
  is a union of connected components of unassigned variables, propagation is complete (an active clause of at most two literals
  has no assigned one), and, for the modes that use it, the list of not satisfied clauses is exact.\<close>

definition settled :: "ModeStore \<Rightarrow> ILit multiset list \<Rightarrow> key \<Rightarrow> bool" where
  "settled mode F k \<longleftrightarrow> (let M = snd k; cls = cm_clauses M in
     cm_wf M \<and> current_ok M \<and> watch_ok M \<and> map mset cls = F \<and> [] \<notin> set cls \<and>
     cm_inCurrentComponent M = replicate (nat (fm_nbVar M + 1)) False \<and>
     (\<forall>v\<in>set (fst k). 1 \<le> v \<and> v \<le> fm_nbVar M \<and> \<not> varIsAssigned M v) \<and>
     (\<forall>i<length cls. active k i \<longrightarrow> (\<forall>l\<in>set (cls ! i). \<not> litIsAssigned M l \<longrightarrow> ilit_var l \<in> set (fst k))) \<and>
     (\<forall>i<length cls. active k i \<longrightarrow> length (cls ! i) \<le> 2 \<longrightarrow> (\<forall>l\<in>set (cls ! i). \<not> litIsAssigned M l)) \<and>
     (mode \<noteq> CACHE_ALL \<longrightarrow> (\<forall>i. i \<in> set (take (cd_sizeNotSatifiedClauses M) (cd_notSatifiedClauses M)) \<and> 2 < length (cls ! i) \<longleftrightarrow>
        i < length cls \<and> 2 < length (cls ! i) \<and> (\<forall>l\<in>set (cls ! i). \<not> litIsAssignedToTrue M l))))"

lemma settledD:
  assumes "settled mode F (c, M)"
  shows "cm_wf M" "current_ok M" "watch_ok M" "map mset (cm_clauses M) = F" "[] \<notin> set (cm_clauses M)"
    "cm_inCurrentComponent M = replicate (nat (fm_nbVar M + 1)) False"
    "\<And>v. v \<in> set c \<Longrightarrow> 1 \<le> v \<and> v \<le> fm_nbVar M \<and> \<not> varIsAssigned M v"
    "\<And>i l. i < length (cm_clauses M) \<Longrightarrow> active (c, M) i \<Longrightarrow> l \<in> set (cm_clauses M ! i) \<Longrightarrow> \<not> litIsAssigned M l \<Longrightarrow> ilit_var l \<in> set c"
    "\<And>i l. i < length (cm_clauses M) \<Longrightarrow> active (c, M) i \<Longrightarrow> length (cm_clauses M ! i) \<le> 2 \<Longrightarrow> l \<in> set (cm_clauses M ! i) \<Longrightarrow>
      \<not> litIsAssigned M l"
    "\<And>i. mode \<noteq> CACHE_ALL \<Longrightarrow> i \<in> set (take (cd_sizeNotSatifiedClauses M) (cd_notSatifiedClauses M)) \<and> 2 < length (cm_clauses M ! i) \<longleftrightarrow>
      i < length (cm_clauses M) \<and> 2 < length (cm_clauses M ! i) \<and> (\<forall>l\<in>set (cm_clauses M ! i). \<not> litIsAssignedToTrue M l)"
  using assms by (auto simp: settled_def Let_def)

lemma marked_component:
  assumes "\<forall>v\<in>set c. 1 \<le> v \<and> v \<le> n" "1 \<le> u" "u \<le> n"
  shows "vget (fold (\<lambda>v c. vset c v True) c (replicate (nat (n + 1)) False)) u \<longleftrightarrow> u \<in> set c"
proof -
  have "vget (fold (\<lambda>v c. vset c v True) c xs) u \<longleftrightarrow> u \<in> set c \<or> vget xs u" if "length xs = nat (n + 1)" for xs
    using that assms
  proof (induction c arbitrary: xs)
    case (Cons v c)
    then have "vget (vset xs v True) u \<longleftrightarrow> u = v \<or> vget xs u"
      by (auto simp: vget_def vset_def nth_list_update eq_nat_nat_iff)
    then show ?case using Cons by auto
  qed simp
  then show ?thesis using assms(2,3) by (simp add: vget_replicate)
qed

text \<open>The first literal decides whether the code takes a clause.\<close>

lemma front_decides:
  assumes s: "settled mode F (c, M)" and i: "i < length (cm_clauses M)" and ns: "\<forall>l\<in>set (cm_clauses M ! i). \<not> litIsAssignedToTrue M l"
  shows "ilit_var (cm_clauses M ! i ! 0) \<in> set c \<longleftrightarrow> active (c, M) i"
proof -
  note sd = settledD [OF s]
  have ne: "cm_clauses M ! i \<noteq> []" using sd(5) i by (metis nth_mem)
  then have front: "cm_clauses M ! i ! 0 \<in> set (cm_clauses M ! i)" by simp
  show ?thesis
  proof
    assume v: "ilit_var (cm_clauses M ! i ! 0) \<in> set c"
    then show "active (c, M) i" using sd(7) front ns by (auto simp: active_def litIsAssigned_def varIsAssigned_def)
  next
    assume a: "active (c, M) i"
    have "\<not> litIsAssigned M (cm_clauses M ! i ! 0)"
    proof (cases "length (cm_clauses M ! i) \<le> 2")
      case True
      then show ?thesis using sd(9) [OF i a _ front] by simp
    next
      case False
      moreover have "\<not> clause_sat M i" using sd(2) i ns by (auto simp: current_ok_def)
      ultimately show ?thesis using sd(3) i a by (force simp: watch_ok_def active_def)
    qed
    then show "ilit_var (cm_clauses M ! i ! 0) \<in> set c" using sd(8) [OF i a front] by simp
  qed
qed

lemma marked_front:
  assumes s: "settled mode F (c, M)" and i: "i < length (cm_clauses M)"
  shows "vget (cm_inCurrentComponent (mark_component True c M)) (ilit_var (cm_clauses M ! i ! 0)) \<longleftrightarrow> ilit_var (cm_clauses M ! i ! 0) \<in> set c"
proof -
  have "cm_clauses M ! i ! 0 \<in> set (cm_clauses M ! i)" using settledD(5) [OF s] i by (metis length_greater_0_conv nth_mem)
  then have "wf_ilit (fm_nbVar M) (cm_clauses M ! i ! 0)" using settledD(1) [OF s] i by (auto simp: cm_wf_def)
  then show ?thesis using marked_component [of c "fm_nbVar M"] settledD(6,7) [OF s]
    by (simp add: mark_component_def wf_ilit_def)
qed

lemma mark_component_frame [simp]:
  "cm_clauses (mark_component b c M) = cm_clauses M" "cm_infoClauses (mark_component b c M) = cm_infoClauses M"
  "cd_sizeNotSatifiedClauses (mark_component b c M') = cd_sizeNotSatifiedClauses M'"
  "cd_notSatifiedClauses (mark_component b c M') = cd_notSatifiedClauses M'"
  by (simp_all add: mark_component_def)

lemma kept_marked [simp]: "isKeptClause mode (mark_component b c M) = isKeptClause mode M"
  by (simp add: isKeptClause_def getNbUnsat_def fun_eq_iff split: ModeStore.split)

text \<open>The kept clauses are active ones.\<close>

lemma key_clauses_set:
  assumes s: "settled mode F (c, M)"
  shows "set (key_clauses mode (c, M)) = {i. i < length (cm_clauses M) \<and> active (c, M) i \<and>
    (mode \<noteq> CACHE_ALL \<longrightarrow> 2 < length (cm_clauses M ! i)) \<and> isKeptClause mode M i}"
proof -
  let ?front = "\<lambda>i. ilit_var (cm_clauses M ! i ! 0) \<in> set c"
  have act: "i < length (cm_clauses M) \<Longrightarrow> active (c, M) i \<longleftrightarrow> (\<forall>l\<in>set (cm_clauses M ! i). \<not> litIsAssignedToTrue M l) \<and> ?front i" for i
    using front_decides [OF s, of i] by (auto simp: active_def)
  show ?thesis
  proof (cases "mode = CACHE_ALL")
    case True
    have "i < length (cm_clauses M) \<Longrightarrow> clause_sat M i = (\<exists>l\<in>set (cm_clauses M ! i). litIsAssignedToTrue M l)" for i
      using settledD(2) [OF s] by (simp add: current_ok_def)
    then show ?thesis using True act marked_front [OF s]
      by (auto simp: collectIdActiveClauses_def getCurrentClauses_def Let_def isNotSatisfiedClauseAndInComponent_def)
  next
    case False
    let ?list = "set (take (cd_sizeNotSatifiedClauses M) (cd_notSatifiedClauses M))"
    have "set (key_clauses mode (c, M)) = {i \<in> ?list. 2 < length (cm_clauses M ! i) \<and> isKeptClause mode M i \<and>
        vget (cm_inCurrentComponent (mark_component True c M)) (ilit_var (cm_clauses M ! i ! 0))}"
      using False by (auto simp: collectIdActiveClauses_def getCurrentClausesNotBin_def Let_def)
    moreover have "i \<in> ?list \<and> 2 < length (cm_clauses M ! i) \<and> isKeptClause mode M i \<and>
        vget (cm_inCurrentComponent (mark_component True c M)) (ilit_var (cm_clauses M ! i ! 0)) \<longleftrightarrow>
      i < length (cm_clauses M) \<and> active (c, M) i \<and> 2 < length (cm_clauses M ! i) \<and> isKeptClause mode M i" for i
      using act [of i] marked_front [OF s, of i] settledD(10) [OF s False, of i] by blast
    ultimately show ?thesis using False by simp
  qed
qed

text \<open>An active clause is kept or lies within the component, and a clause within the component is active.\<close>

lemma active_kept_or_inside:
  assumes s: "settled mode F (c, M)" and i: "i < length (cm_clauses M)"
  shows "active (c, M) i \<longleftrightarrow> i \<in> set (key_clauses mode (c, M)) \<or> (\<forall>l\<in>set (cm_clauses M ! i). ilit_var l \<in> set c)"
proof
  assume a: "active (c, M) i"
  show "i \<in> set (key_clauses mode (c, M)) \<or> (\<forall>l\<in>set (cm_clauses M ! i). ilit_var l \<in> set c)"
  proof (rule disjCI)
    assume n: "\<not> (\<forall>l\<in>set (cm_clauses M ! i). ilit_var l \<in> set c)"
    then obtain l where l: "l \<in> set (cm_clauses M ! i)" "litIsAssigned M l" using settledD(8) [OF s i a] by blast
    then have long: "2 < length (cm_clauses M ! i)" using settledD(9) [OF s i a, of l] by (meson not_le)
    have "\<not> clause_sat M i" using settledD(2) [OF s] i a by (auto simp: current_ok_def active_def)
    then have "ci_nbUnsat (cm_infoClauses M ! i) = int (length (filter (litIsAssigned M) (cm_clauses M ! i)))"
      using settledD(2) [OF s] i long by (simp add: current_ok_def)
    moreover have "filter (litIsAssigned M) (cm_clauses M ! i) \<noteq> []" using l by (auto simp: filter_empty_conv)
    ultimately have "isKeptClause mode M i" using long by (simp add: isKeptClause_def getNbUnsat_def split: ModeStore.split)
    then show "i \<in> set (key_clauses mode (c, M))" using key_clauses_set [OF s] i a long by simp
  qed
next
  assume "i \<in> set (key_clauses mode (c, M)) \<or> (\<forall>l\<in>set (cm_clauses M ! i). ilit_var l \<in> set c)"
  then show "active (c, M) i"
  proof
    assume a: "\<forall>l\<in>set (cm_clauses M ! i). ilit_var l \<in> set c"
    have "cm_clauses M ! i \<noteq> []" using settledD(5) [OF s] i by (metis nth_mem)
    moreover have "\<not> litIsAssigned M l" if "l \<in> set (cm_clauses M ! i)" for l
      using a settledD(7) [OF s] that by (simp add: litIsAssigned_def varIsAssigned_def)
    moreover have "litIsAssignedToTrue M l \<Longrightarrow> litIsAssigned M l" for l
      by (auto simp: litIsAssignedToTrue_def litIsAssigned_def l_Undef_def l_True_def l_False_def split: if_splits)
    ultimately show "active (c, M) i" using a by (auto simp: active_def neq_Nil_conv)
  qed (use key_clauses_set [OF s] in simp)
qed

lemma residual_eq:
  assumes s: "settled mode F (c, M)" "settled mode F (c, M')" and same: "key_clauses mode (c, M) = key_clauses mode (c, M')"
  shows "residual (c, M) = residual (c, M')"
proof -
  have F: "map mset (cm_clauses M) = map mset (cm_clauses M')" using settledD(4) [OF s(1)] settledD(4) [OF s(2)] by simp
  then have len: "length (cm_clauses M) = length (cm_clauses M')" by (metis length_map)
  have cl: "mset (cm_clauses M ! i) = mset (cm_clauses M' ! i)" if "i < length (cm_clauses M)" for i
    using F that len by (metis nth_map)
  have act: "active (c, M) i \<longleftrightarrow> active (c, M') i" if "i < length (cm_clauses M)" for i
    using active_kept_or_inside [OF s(1) that] active_kept_or_inside [OF s(2), of i] that len mset_eq_setD [OF cl [OF that]] same by simp
  have res: "residual_clause N i = filter_mset (\<lambda>l. ilit_var l \<in> set c) (mset (cm_clauses N ! i))"
    if "settled mode F (c, N)" "i < length (cm_clauses N)" "active (c, N) i" for N i
    unfolding residual_clause_def
    using settledD(8) [OF that] settledD(7) [OF that(1)] by (intro filter_mset_cong refl) (auto simp: litIsAssigned_def varIsAssigned_def)
  have "filter (active (c, M)) [0..<length (cm_clauses M)] = filter (active (c, M')) [0..<length (cm_clauses M')]"
    using act len by (intro filter_cong) simp_all
  moreover have "residual_clause M i = residual_clause M' i" if "i < length (cm_clauses M)" "active (c, M) i" for i
    using res [OF s(1) that] res [OF s(2), of i] that act len cl by simp
  ultimately show ?thesis using act len by (auto simp: residual_def)
qed

section \<open>The first lookup\<close>

lemma start_ok:
  assumes "table_ok table" "entries table = []"
  shows "cache_ok entries table_ok page (mkCacheManager table fc0 strategy mode first page nbVar mem) [] {}"
  using assms init_ok [of first page] by (simp add: cache_ok_def mkCacheManager_def) (simp add: ba_init_def ba_new_def)

lemma tables_start: "list_ok empty_list" "concat empty_list = []" "slot_ok (empty_slots fc0)" "used_slots (empty_slots fc0) = []"
  by (simp_all add: list_ok_def empty_list_def slot_ok_def empty_slots_def used_slots_def mkCachedBucket_def cb_nbVar_def
      di_nbVar_def di_set_szData_def)

lemmas list_start = start_ok [where entries = concat and table_ok = list_ok, OF tables_start(1,2)]
lemmas slot_start = start_ok [where entries = used_slots and table_ok = slot_ok, OF tables_start(3,4)]

abbreviation list_run ::
  "'v \<Rightarrow> CacheCleaningStrategy \<Rightarrow> ModeStore \<Rightarrow> nat \<Rightarrow> nat \<Rightarrow> nat \<Rightarrow> memory \<Rightarrow> (key \<Rightarrow> bool) \<Rightarrow> 'v CacheList \<Rightarrow>
     (key \<times> 'v TmpEntry) list \<Rightarrow> (key \<times> 'v) set \<Rightarrow> bool" where
  "list_run fc0 strategy mode first page nbVar mem \<equiv> cache_run pushInHashTable_list bucketAlreadyExist_list removeEntry_list
     (mkCacheManager empty_list fc0 strategy mode first page nbVar mem)"

abbreviation slot_run ::
  "'v \<Rightarrow> CacheCleaningStrategy \<Rightarrow> ModeStore \<Rightarrow> nat \<Rightarrow> nat \<Rightarrow> nat \<Rightarrow> memory \<Rightarrow> (key \<Rightarrow> bool) \<Rightarrow> 'v CacheNoCollision \<Rightarrow>
     (key \<times> 'v TmpEntry) list \<Rightarrow> (key \<times> 'v) set \<Rightarrow> bool" where
  "slot_run fc0 strategy mode first page nbVar mem \<equiv> cache_run pushInHashTable_slot bucketAlreadyExist_slot removeEntry_slot
     (mkCacheManager (empty_slots fc0) fc0 strategy mode first page nbVar mem)"

lemma mk_mode [simp]: "ca_modeStore (mkCacheManager table fc0 strategy mode first page nbVar mem) = mode"
  by (simp add: mkCacheManager_def)

text \<open>In a new cache the first lookup misses, and its block is in the first page.\<close>

lemma first_get:
  assumes "n \<le> first"
  shows "ba_consumedMemory (snd (getArray n (ba_init first page ba_new))) = False"
  using assms by (simp add: getArray_def ba_init_def ba_new_def Let_def)

lemma first_lookup:
  fixes fc0 :: 'v and mode strategy first page nbVar mem c table
  defines "S0 \<equiv> mkCacheManager table fc0 strategy mode first page nbVar mem"
  assumes "length (fst (key_bytes mode (c, M))) \<le> first"
    and empty: "\<And>S cb h. ca_hashTable S = table \<Longrightarrow> exist cb h S = count_hit None S"
  shows "\<exists>te S' M'. searchInCache exist remove c M S0 = Some (te, S', M') \<and> \<not> te_defined te \<and>
    \<not> ba_consumedMemory (ca_bucketAllocator S') \<and> ca_hashTable S' = table"
proof -
  obtain bytes info M1 where kb: "index_bucket mode c M = ((bytes, info), M1)" by (metis prod.exhaust)
  obtain data A' where ga: "getArray (length bytes) (ba_init first page ba_new) = (data, A')" by fastforce
  have a: "\<not> ba_consumedMemory A'" using first_get [of "length bytes" first page] assms(2) ga by (simp add: kb)
  define S1 where "S1 = S0\<lparr>ca_bucketAllocator := A', ca_memory := write_bytes data bytes mem, ca_bucket := cb_set data info (mkCachedBucket fc0)\<rparr>"
  have st: "storeFormula c M S0 = (S1, M1)" by (simp add: storeFormula_def S1_def S0_def kb mkCacheManager_def ga)
  have "\<not> ba_consumedMemory (ba_init first page ba_new)" by (simp add: ba_init_def ba_new_def)
  then have n: "notice_pages remove S0 = Some S0" by (simp add: notice_pages_def S0_def mkCacheManager_def)
  have e: "exist (ca_bucket S1) h S1 = count_hit None S1" for h
    by (rule empty) (simp add: S1_def S0_def mkCacheManager_def)
  let ?te = "\<lparr>te_e = ca_bucket S1, te_hashValue = computeHash S1 (ca_bucket S1), te_defined = False\<rparr>"
  let ?S2 = "updateCountCachedBucket None (length c) (snd (count_hit None S1))"
  have "searchInCache exist remove c M S0 = Some (?te, ?S2, M1)"
    by (simp add: searchInCache_def n st e count_hit_def Let_def)
  moreover have "same_core S1 ?S2" by (rule same_core_trans [OF same_core_count(2,4)])
  then have "ca_bucketAllocator ?S2 = A'" "ca_hashTable ?S2 = table"
    by (simp_all add: same_core_def S1_def S0_def mkCacheManager_def)
  ultimately show ?thesis using a by auto
qed

lemma first_misses:
  "ca_hashTable S = empty_list \<Longrightarrow> bucketAlreadyExist_list cb h S = count_hit None S"
  "ca_hashTable S' = empty_slots fc0 \<Longrightarrow> bucketAlreadyExist_slot cb h S' = count_hit None S'"
  using slot_less [of h] tables_start(4) [of fc0]
  by (simp_all add: bucketAlreadyExist_list_def empty_list_def bucketAlreadyExist_slot_def empty_slots_def used_slots_def
      filter_empty_conv SIZE_HASH_slot_def)

lemma first_list:
  "length (fst (key_bytes mode (c, M))) \<le> first \<Longrightarrow>
    \<exists>te S' M'. searchInCache bucketAlreadyExist_list remove c M (mkCacheManager empty_list fc0 strategy mode first page nbVar mem) =
      Some (te, S', M') \<and> \<not> te_defined te \<and> \<not> ba_consumedMemory (ca_bucketAllocator S') \<and> ca_hashTable S' = empty_list"
  by (rule first_lookup) (simp_all add: first_misses)

lemma first_slot:
  "length (fst (key_bytes mode (c, M))) \<le> first \<Longrightarrow>
    \<exists>te S' M'. searchInCache bucketAlreadyExist_slot remove c M (mkCacheManager (empty_slots fc0) fc0 strategy mode first page nbVar mem) =
      Some (te, S', M') \<and> \<not> te_defined te \<and> \<not> ba_consumedMemory (ca_bucketAllocator S') \<and> ca_hashTable S' = empty_slots fc0"
  by (rule first_lookup) (simp_all add: first_misses(2) [of _ fc0])

lemma first_store:
  "\<not> ba_consumedMemory (ca_bucketAllocator S) \<Longrightarrow> \<not> ba_consumedMemory (ca_bucketAllocator (addInCache pushInHashTable_list te v S))"
  "ca_hashTable S' = empty_slots fc0 \<Longrightarrow> \<not> ba_consumedMemory (ca_bucketAllocator S') \<Longrightarrow>
    \<not> ba_consumedMemory (ca_bucketAllocator (addInCache pushInHashTable_slot te v S'))"
  using push_list_core [of S "te_hashValue te" v "te_e te"] push_slot_core [of S' "te_hashValue te" v "te_e te"]
    slot_less(2) [of "te_hashValue te"] tables_start(4) [of fc0]
  by (simp_all add: addInCache_def same_core_def empty_slots_def used_slots_def filter_empty_conv SIZE_HASH_slot_def)

section \<open>A component of the demonstration formula\<close>

abbreviation demo_key :: key where
  "demo_key \<equiv> ([1, 2, 3], mkCnfManagerDyn demo_cnf True)"

lemma demo_settled: "settled mode (map mset (pm_clauses demo_cnf)) demo_key"
proof -
  have ok: "cm_wf (snd demo_key)" "current_ok (snd demo_key)" "watch_ok (snd demo_key)"
    using mk_ok [OF demo_cnf_wf, of True] by (simp_all add: dyn_ok_def dyn_wf_def)
  have un: "\<not> litIsAssigned (snd demo_key) l \<and> ilit_var l \<in> {1, 2, 3} \<and> \<not> litIsAssignedToTrue (snd demo_key) l"
    if "i < 3" "l \<in> set (pm_clauses demo_cnf ! i)" for i l
  proof -
    have "i = 0 \<or> i = 1 \<or> i = 2" using that(1) by auto
    then have "ilit_var l = 1 \<or> ilit_var l = 2 \<or> ilit_var l = 3" using that(2) by (auto simp: demo_cnf_def pm_of_parts_def)
    then show ?thesis
      by (auto simp: litIsAssigned_def litIsAssignedToTrue_def demo_cnf_def pm_of_parts_def vget_def numeral_eq_Suc
        l_Undef_def l_True_def l_False_def)
  qed
  have three: "length (pm_clauses demo_cnf) = 3" "pm_nbVar demo_cnf = 3" "[] \<notin> set (pm_clauses demo_cnf)"
    by (simp_all add: demo_cnf_def pm_of_parts_def)
  have "cm_inCurrentComponent (snd demo_key) = replicate (nat (fm_nbVar (snd demo_key) + 1)) False"
    "cd_sizeNotSatifiedClauses (snd demo_key) = 3" "cd_notSatifiedClauses (snd demo_key) = [0..<3]"
    by (simp_all add: mkCnfManagerDyn_def mkCnfManager_def CnfManager.extend_def Let_def three mkFormulaManager_def)
  moreover have "\<not> varIsAssigned (snd demo_key) v" if "v \<in> {1, 2, 3}" for v
    using that by (auto simp: varIsAssigned_def three vget_def numeral_eq_Suc)
  ultimately show ?thesis using ok un three unfolding settled_def Let_def by (auto simp: active_def)
qed

lemma demo_usable: "usable CACHE_ALL 100 demo_key"
proof -
  let ?i = "key_clauses CACHE_ALL demo_key"
  have i: "sorted ?i" "length ?i \<le> 3" "\<forall>i\<in>set ?i. i < 3"
    using length_filter_le [of _ "[0..<3 :: nat]"]
    by (auto simp: collectIdActiveClauses_def getCurrentClauses_def Let_def demo_cnf_def pm_of_parts_def sorted_wrt_filter
        intro: order_trans [OF length_filter_le])
  have "encodable (map nat [1, 2, 3])" "encodable ?i" using i by (auto simp: encodable_def)
  moreover have "length (fst (index_bytes (map nat [1, 2, 3]) ?i)) \<le> 4 * 3 + 4 * 3"
  proof -
    have "var_octets (map nat [1, 2, 3]) \<le> 4" "clause_octets ?i \<le> 4"
      by (auto simp: var_octets_def clause_octets_def nbOctetToEncodeInt_def)
    then have "clause_octets ?i * length ?i \<le> 4 * 3" using i(2) by (intro mult_le_mono)
    then show ?thesis using \<open>var_octets (map nat [1, 2, 3]) \<le> 4\<close> unfolding index_bytes_eq by simp
  qed
  moreover have "key_bytes CACHE_ALL demo_key = index_bytes (map nat [1, 2, 3]) ?i" by (simp add: key_bytes_eq)
  ultimately show ?thesis unfolding usable_def header_fits_def by (simp only: fst_conv) simp
qed

section \<open>Properties\<close>

text \<open>C37: an answer of \<open>CacheList\<close> is a value that was stored for a component with the same variables and the same
  residual formula, after any sequence of lookups, stores, releases and cleanings, whatever the hash function and the
  addresses of the blocks.\<close>

theorem cache_list_hit:
  assumes "list_run fc0 strategy mode first page nbVar mem fits S pend stored"
    "\<forall>k. fits k \<longrightarrow> usable mode page k \<and> settled mode F k"
    "fits (c, M)" "searchInCache bucketAlreadyExist_list removeEntry_list c M S = Some (te, S', M')" "te_defined te"
  shows "\<exists>M0. ((c, M0), cb_fc (te_e te)) \<in> stored \<and> residual (c, M0) = residual (c, M)"
proof -
  have "usable (ca_modeStore (mkCacheManager empty_list fc0 strategy mode first page nbVar mem)) page k" if "fits k" for k
    using assms(2) that unfolding mk_mode by blast
  from cache_list.run_hit [OF assms(1) list_start this assms(3-5)]
  obtain M0 where k: "((c, M0), cb_fc (te_e te)) \<in> stored" "key_clauses mode (c, M0) = key_clauses mode (c, M)" by force
  have "fits (c, M0)" using run_fits [OF assms(1)] k(1) by auto
  then show ?thesis using residual_eq [of mode F c M0 M] assms(2,3) k by blast
qed

lemma cache_list_hit_witness:
  "\<exists>S te S' M'. list_run (0 :: nat) CACHE_NONE CACHE_ALL 100 100 3 (\<lambda>_. 0) (\<lambda>k. k = demo_key) S [] {(demo_key, 7)} \<and>
    searchInCache bucketAlreadyExist_list removeEntry_list [1, 2, 3] (mkCnfManagerDyn demo_cnf True) S = Some (te, S', M') \<and> te_defined te \<and>
    cb_fc (te_e te) = 7"
proof -
  let ?fits = "\<lambda>k. k = demo_key"
  have fits: "\<forall>k. ?fits k \<longrightarrow> usable CACHE_ALL 100 k \<and> settled CACHE_ALL (map mset (pm_clauses demo_cnf)) k"
    using demo_usable demo_settled by simp
  have "length (fst (key_bytes CACHE_ALL demo_key)) \<le> 100" using demo_usable by (simp add: usable_def)
  then obtain te0 S0 M0 where first: "searchInCache bucketAlreadyExist_list removeEntry_list [1, 2, 3] (mkCnfManagerDyn demo_cnf True)
      (mkCacheManager empty_list (0 :: nat) CACHE_NONE CACHE_ALL 100 100 3 (\<lambda>_. 0)) = Some (te0, S0, M0)" "\<not> te_defined te0"
      "\<not> ba_consumedMemory (ca_bucketAllocator S0)"
    using first_list [where ?fc0.0 = "0 :: nat"] by blast
  have miss: "list_run (0 :: nat) CACHE_NONE CACHE_ALL 100 100 3 (\<lambda>_. 0) ?fits S0 [(demo_key, te0)] {}"
    using cache_run.miss [OF cache_run.start _ first(1,2)] by simp
  let ?S = "addInCache pushInHashTable_list te0 7 S0"
  have run: "list_run (0 :: nat) CACHE_NONE CACHE_ALL 100 100 3 (\<lambda>_. 0) ?fits ?S [] {(demo_key, 7)}"
    using cache_run.add [where us = "[]" and vs = "[]" and v = 7] miss by fastforce
  have "cache_ok concat list_ok 100 S0 [(demo_key, te0)] {} \<and> ca_modeStore S0 = CACHE_ALL"
    using cache_list.run_ok [OF miss list_start] fits by simp
  then have ok: "cache_ok concat list_ok 100 S0 [(demo_key, te0)] {}" "ca_modeStore S0 = CACHE_ALL" by simp_all
  obtain te S' M' where "searchInCache bucketAlreadyExist_list removeEntry_list [1, 2, 3] (mkCnfManagerDyn demo_cnf True) ?S = Some (te, S', M')"
      "te_defined te"
    using cache_list.found_again [OF ok(1) refl, where v = 7] first_store(1) [OF first(3), where te = te0 and v = 7] demo_usable ok(2) by auto
  moreover from cache_list_hit [OF run fits _ this] have "cb_fc (te_e te) = 7" by auto
  ultimately show ?thesis using run by blast
qed

text \<open>The same for \<open>CacheNoCollision\<close>.\<close>

theorem cache_slot_hit:
  assumes "slot_run fc0 strategy mode first page nbVar mem fits S pend stored"
    "\<forall>k. fits k \<longrightarrow> usable mode page k \<and> settled mode F k"
    "fits (c, M)" "searchInCache bucketAlreadyExist_slot removeEntry_slot c M S = Some (te, S', M')" "te_defined te"
  shows "\<exists>M0. ((c, M0), cb_fc (te_e te)) \<in> stored \<and> residual (c, M0) = residual (c, M)"
proof -
  have "usable (ca_modeStore (mkCacheManager (empty_slots fc0) fc0 strategy mode first page nbVar mem)) page k" if "fits k" for k
    using assms(2) that unfolding mk_mode by blast
  from cache_slots.run_hit [OF assms(1) slot_start this assms(3-5)]
  obtain M0 where k: "((c, M0), cb_fc (te_e te)) \<in> stored" "key_clauses mode (c, M0) = key_clauses mode (c, M)" by force
  have "fits (c, M0)" using run_fits [OF assms(1)] k(1) by auto
  then show ?thesis using residual_eq [of mode F c M0 M] assms(2,3) k by blast
qed



end
