(* ===== verification/D4_Cache_Cleaning.thy ===== *)
theory D4_Cache_Cleaning
  imports D4_Cache
begin

text \<open>
  The reduction of the cache (\<open>cleaning/CacheCleaningExpectation.hpp\<close>) when a new page was taken: the limit goes down to
  the first number of variables whose lookups hit often enough. When there is none it wraps around below zero, and the bonus
  of ten percent no longer fits in \<open>unsigned\<close>.
\<close>

lemma sig_fl_zero [simp]: "sig (fl 0 e False) = 0"
  by (simp add: fl_def round_mag_def round_shift_def Let_def)

lemma no_ratio: "sv_positive s = 0 \<Longrightarrow> dnonneg t \<Longrightarrow> \<not> dless t (stat_ratio s)"
proof -
  assume z: "sv_positive s = 0" and t: "dnonneg t"
  have "sig (stat_ratio s) = 0"
    using z by (simp add: stat_ratio_def ddiv_def dbl_of_int_def dzero_def Let_def)
  then show ?thesis using t by (simp add: dless_def align_def dnonneg_def not_less Let_def)
qed

lemma reduce_loop_below:
  "dnonneg t \<Longrightarrow> \<forall>j\<le>i. sv_positive (st ! j) = 0 \<Longrightarrow> snd (reduce_loop t i st) = 2 ^ 32 - 1"
proof (induction i arbitrary: st)
  case 0
  then show ?case using no_ratio [of "st ! 0" t] by (simp add: reduce_loop.simps [of t 0] Let_def)
next
  case (Suc i)
  have "\<forall>j\<le>i. sv_positive (upd_stat (Suc i) stat_aging st ! j) = 0" using Suc.prems(2) by (simp add: upd_stat_def)
  then have "snd (reduce_loop t i (upd_stat (Suc i) stat_aging st)) = 2 ^ 32 - 1" by (rule Suc.IH [OF Suc.prems(1)])
  moreover have "sv_positive (st ! Suc i) = 0" using Suc.prems(2) by blast
  then have "reduce_loop t (Suc i) st = reduce_loop t i (upd_stat (Suc i) stat_aging st)"
    using no_ratio [OF _ Suc.prems(1)] by (simp only: reduce_loop.simps [of t "Suc i" st] Let_def if_False nat.case simp_thms)
  ultimately show ?case by (simp only:)
qed

lemma bonus_overflows: "grow_limit (2 ^ 32 - 1) = None"
proof -
  have "dmul (dbl_of_int 4294967295) (ddiv (dbl_of_int 11) (dbl_of_int 10)) = Dbl 4953959588954112 (- 20)" by code_simp
  then have "dmul (dbl_of_int (int (2 ^ 32 - 1))) (ddiv (dbl_of_int 11) (dbl_of_int 10)) = Dbl 4953959588954112 (- 20)" by simp
  moreover have "dbl_to_unsigned (Dbl 4953959588954112 (- 20)) = 4724464024" by (simp add: dbl_to_unsigned_def)
  ultimately show ?thesis by (simp add: grow_limit_def)
qed

text \<open>C39: when no lookup of a component within the limit has hit, the first page that is taken leads to undefined
  behaviour: the reduction of the cache, and with it the next lookup, has no result.\<close>

theorem reduce_overflow:
  assumes "cc_strategy (ca_cleaning S) = CACHE_EXPECTATION" "dnonneg (cc_threshold (ca_cleaning S))"
    "ca_limitVarCached S < length (cc_statVar (ca_cleaning S))"
    "\<forall>j\<le>ca_limitVarCached S. sv_positive (cc_statVar (ca_cleaning S) ! j) = 0" "ba_consumedMemory (ca_bucketAllocator S)"
  shows "reduceCache removeEntry S = None \<and> searchInCache bucketAlreadyExist removeEntry varConnected M S = None"
proof -
  obtain st where "reduce_loop (cc_threshold (ca_cleaning S)) (ca_limitVarCached S) (cc_statVar (ca_cleaning S)) = (st, 2 ^ 32 - 1)"
    using reduce_loop_below [OF assms(2,4)] by (metis prod.collapse)
  then have "reduceCache removeEntry S = None"
    using assms(1,3) bonus_overflows by (simp add: reduceCache_def stat_limit_def Let_def MIN_NBVAR_NOTCACHED_def)
  then show ?thesis using assms(5) by (simp add: searchInCache_def notice_pages_def)
qed

text \<open>A new cache whose first page is too small.\<close>

definition full_cache :: "nat CacheList" where
  "full_cache = (let S = mkCacheManager [] 0 CACHE_EXPECTATION CACHE_ALL 4 8 3 (\<lambda>_. 0)
     in S\<lparr>ca_bucketAllocator := snd (getArray 6 (ca_bucketAllocator S))\<rparr>)"

lemma reduce_overflow_witness: "reduceCache removeEntry_list full_cache = None"
proof -
  have "cc_strategy (ca_cleaning full_cache) = CACHE_EXPECTATION" "dnonneg (cc_threshold (ca_cleaning full_cache))"
    "ca_limitVarCached full_cache < length (cc_statVar (ca_cleaning full_cache))"
    "\<forall>j\<le>ca_limitVarCached full_cache. sv_positive (cc_statVar (ca_cleaning full_cache) ! j) = 0"
    "ba_consumedMemory (ca_bucketAllocator full_cache)"
    by (simp_all add: full_cache_def mkCacheManager_def mkCacheCleaning_def INIT_THRESHOLD_def dzero_nonneg MAX_NBVAR_CACHED_def
        getArray_def ba_init_def ba_new_def new_page_def Let_def del: replicate_Suc)
  from reduce_overflow [OF this] show ?thesis by blast
qed

end
