(* ===== verification/Spec2Isabelle.thy ===== *)
theory Spec2Isabelle
  imports Cli_Main Cli_Watches D4_Operations D4_Components Discount_Options Bipe_Memory Discount_Main D4_Cache_Hits D4_Cache_Cleaning
begin

text \<open>
  HydraSAT splits a propositional formula in CNF into cubes that are solved independently. The repository holds two
  generators of cubes and the libraries they use; this library models both, in the order below, and proves what they
  promise: that the cubes partition (or cover) the models of the formula, and what the data structures underneath keep.

  \<^bold>\<open>How the program's parts interact.\<close> \<open>cube_gen_cli/cube_gen_cli.cpp\<close> is stand-alone: \<open>main\<close> reads options and a DIMACS
  file, \<open>CubeGenerator\<close> takes cubes from a priority queue, asks the partial order and the branching heuristic for a
  variable, lets the propagator try both signs and prints JSON. \<open>cube_generator/\<close> (namespace \<open>discount\<close>) does the same
  with threads: \<open>CubeGeneratorCLI\<close> expands cubes with \<open>bipe\<close>'s propagator and \<open>D4BranchingCubeHeuristic\<close>, which scores
  variables through d4's dynamic formula manager, and hands each new cube to a pool of workers that ask a SAT solver
  whether it is satisfiable. d4 itself (\<open>3rdParty/d4/src\<close>) is a compiler to d-DNNF; of it are modelled the parts the
  generator runs and those that carry its own data structures: the formula managers, the connected components, the
  d-DNNF graph and the operations on it.

  \<^bold>\<open>Foundations.\<close> \<open>HS_Prelude\<close>: \<open>std::vector\<close> at an \<open>int\<close> index (\<open>vget\<close>, \<open>vset\<close>, \<open>vin\<close>) and truth of clauses. \<open>Std_Heap\<close>:
  \<open>std::priority_queue\<close> as libstdc++ implements it (\<open>push_heap\<close>, \<open>pop_heap\<close>), with the heap invariant. \<open>Binary64\<close>:
  finite IEEE doubles with correctly rounded operations. \<open>Decimal\<close>, \<open>Double_Text\<close>: text of integers and doubles.
  \<open>Propagator_Spec\<close> and \<open>Heuristic_Spec\<close>: the two interfaces both generators are written against, as locales
  (\<open>unit_propagator\<close>, \<open>branching_heuristic\<close>), with the lemmas the generators need proved once; \<open>Cli_Propagator\<close>,
  \<open>Bipe_Formula\<close>, \<open>Cli_Heuristics\<close> and \<open>D4_Branching\<close> interpret them on the models of the code.

  \<^bold>\<open>The stand-alone generator.\<close> \<open>Cli_Types\<close>: \<open>Lit\<close>, \<open>Cube\<close>, \<open>Formula\<close>, \<open>OptionCubeGenerator\<close>, and models, counts and
  covers. \<open>Cli_Parser\<close>: \<open>parseCNF\<close>. \<open>Cli_Propagator\<close>, \<open>Cli_Watches\<close>: class \<open>Propagator\<close>; soundness, termination and
  backtracking; the watch lists. \<open>Cli_Heuristics\<close>: the partial orders (with the minimum-degree elimination) and the
  JWTS heuristic. \<open>Cli_Generator\<close>: \<open>initQueue\<close>, \<open>createCubes\<close> and \<open>generate\<close>, with the trail pointer that dangles when the
  vector grows, an error value. \<open>Cli_Main\<close>: arguments, scores, order of the variables, JSON, exit codes.
  The lemmas show that the cubes cover all models, that with enough room and no two cubes that meet they partition
  them, when the count of models can be exceeded, and that complete cubes are models.

  \<^bold>\<open>discount: data.\<close> \<open>Problem_Types\<close>: literals of \<open>src/formula/ProblemTypes.hpp\<close> as 32-bit words, \<open>rewrite\<close>. \<open>Weighted_CNF\<close>:
  \<open>Formula\<close>, \<open>WeightedCNF\<close>: conditioning, weights, serialisation and its inverse. \<open>Discount_Options\<close>: \<open>src/option\<close>.

  \<^bold>\<open>bipe.\<close> \<open>Bipe_Propagator\<close>, \<open>Bipe_Formula\<close>, \<open>Bipe_Memory\<close>: \<open>reducer/Propagator\<close>: the invariant \<open>bp_ok\<close> of trail, values,
  binary lists and watches; propagation reaches a fixed point and is correct; building from clauses and extracting
  them again keeps the models; the block of memory the constructor reserves is enough.

  \<^bold>\<open>d4.\<close> \<open>D4_Problem\<close>: problem managers. \<open>D4_Nnf\<close>: trees of the five node types and their counts; \<open>D4_Nodes\<close>: the graph as a
  store of node records at addresses, with the stamps of its traversals; \<open>D4_Node_Manager\<close>, \<open>D4_Dnnf\<close>: \<open>NodeManager\<close>, its
  invariant, counting, satisfiability, printing and deallocation; \<open>D4_Operations\<close>: the counting and the compiling
  operation and their agreement. \<open>D4_Occurrence\<close>, \<open>D4_Cnf_Manager\<close>, \<open>D4_Cnf_Dyn\<close>: occurrence lists and the formula
  managers; \<open>D4_Cnf_Levels\<close>, \<open>D4_Cnf_Restore\<close>: what a level of updates keeps and that \<open>postUpdate\<close> undoes \<open>preUpdate\<close>;
  \<open>D4_Cnf_Current\<close>, \<open>D4_Cnf_Invariant\<close>, \<open>D4_Cnf_Updates\<close>: that the lists, flags and counters describe the current
  formula. \<open>D4_Union_Find\<close>, \<open>D4_Components\<close>: connected components. \<open>D4_Branching\<close>: options, scores, phases, the classic
  heuristic and \<open>D4BranchingCubeHeuristic\<close>. \<open>D4_Allocator\<close>: the memory of the cache: blocks in use never overlap;
  \<open>D4_Bucket\<close>: headers, hash function and the bytes that stand for a component, which determine it.
  \<open>D4_Cache\<close>: the cache with its two tables over the bytes of the pages, and its cleaning; \<open>D4_Cache_Runs\<close>: the contract of
  a table (locale \<open>cache_table\<close>), the invariant that every entry's block holds the bytes of the component it was stored for,
  and the runs of lookups and stores; \<open>D4_Cache_Tables\<close>: both tables keep the contract; \<open>D4_Cache_Hits\<close>: an answer was
  stored for the same residual formula; \<open>D4_Cache_Cleaning\<close>: the reduction that overflows.

  \<^bold>\<open>discount: generator.\<close> \<open>Discount_Generator\<close>: the record of \<open>CubeGeneratorCLI\<close> with the program counters of the main
  thread and the workers; every access to shared state is a step, \<open>pool_run\<close> are the interleavings. \<open>Discount_Pool\<close>: the
  invariant \<open>pool_ok\<close>: every model is in exactly one cube in play. \<open>Discount_Runs\<close>: its consequences, the states
  without a step, and two schedules that show races: a satisfiable formula reported unsatisfiable, and a \<open>generate\<close>
  that waits for ever. \<open>Discount_Heuristic\<close>, \<open>Discount_Main\<close>: the composition with the heuristic of d4, the partial order,
  and \<open>main.cpp\<close> with its reader and JSON writer.

  \<^bold>\<open>Parameters.\<close> The capacity of an empty vector and its growth (\<open>empty_capacity\<close>, \<open>cap0\<close>), the clock of each round, the
  order \<open>std::sort\<close> gives equal elements (\<open>is_sort\<close> is the contract), whether \<open>assert\<close> is compiled (\<open>ndebug\<close>), the
  answers of the SAT solver (\<open>sound_solver\<close>: a cube with a model is not refuted) and its activity vectors, sizes of
  nodes, and in-place simplification between updates (\<open>inprocessing_step\<close>).
  \<^bold>\<open>Bounds and fuel.\<close> Traversals of the d-DNNF graph use the address plus one as fuel: sons have smaller addresses.
  Loops that could run for ever are partial functions, and that they return is proved. Counters that wrap are kept
  below their bound by hypothesis: marks below 2^32, stamps of the d-DNNF graph below 2^28, variables below 2^30 so
  that literals fit in 32 bits; \<open>bp_restart\<close> assumes the units are a prefix of the trail. Undefined behaviour of C++ is
  an error value where the code can reach it.

  \<^bold>\<open>Not modelled.\<close> The SAT solvers (minisat, glucose: third-party code the generator only calls; a parameter here), the
  search methods of d4 (\<open>DpllStyleMethod\<close> and the others: they run solver, cache and preprocessing together), the other
  representations of a bucket (clauses, symmetries), partitioners and tree decompositions (PaToH, FlowCutter),
  preprocessing, circuits and QBF, the hybrid and large-arity branching heuristics, \<open>CnfManagerDynPure\<close> and
  \<open>CnfManagerDynBlockedCl\<close>, bipe's bipartition and reducer methods, the demos, fuzzers and bundled solvers, the Go master and the Python worker, messages on the error stream, and memory
  release where it has no effect on results.
\<close>

end
